(* ===== verification/Prelude.thy ===== *)
theory Prelude
  imports Main "HOL-Library.Word" "HOL-Library.AList" "HOL-Library.Sublist"
begin

text \<open>
  What the components share: bytes and the big-endian 32-bit fields of
  \<^verbatim>\<open>struct.pack(">I", n)\<close>, Python's insertion-ordered dictionaries as association
  lists, and the generic lemmas and collections the component proofs use.

  Python integers that are counts, offsets or sequence numbers are \<open>nat\<close>, all other Python
  integers are \<open>int\<close>. A Python \<^verbatim>\<open>dict\<close> whose order or size matters is an
  association list under \<open>AList.update\<close> (which keeps the position of a present key
  and appends a new one, as the interpreter does) and \<open>AList.delete\<close>.
\<close>

named_theorems wf_intros "introduction rules of the components' invariants"
named_theorems dict_simps "lookup and size of updated dictionaries"

section \<open>Bytes\<close>

type_synonym byte = "8 word"
type_synonym bytes = "byte list"

text \<open>
  \<open>pack32\<close> is \<^verbatim>\<open>struct.Struct(">I").pack\<close>: the error case (\<^verbatim>\<open>struct.error\<close>)
  is \<open>None\<close>. \<open>unpack32\<close> reads the four bytes at an offset, as
  \<^verbatim>\<open>unpack_from\<close> does where the buffer is long enough.
\<close>

fun to_be :: "nat \<Rightarrow> nat \<Rightarrow> bytes" where
  "to_be 0 n = []"
| "to_be (Suc k) n = to_be k (n div 256) @ [of_nat n]"

definition from_be :: "bytes \<Rightarrow> nat" where
  "from_be bs = foldl (\<lambda>acc b. acc * 256 + unat b) 0 bs"

definition pack32 :: "nat \<Rightarrow> bytes option" where
  "pack32 n = (if n < 2 ^ 32 then Some (to_be 4 n) else None)"

definition unpack32 :: "bytes \<Rightarrow> nat \<Rightarrow> nat" where
  "unpack32 data off = from_be (take 4 (drop off data))"

lemma from_be_Nil [simp]: "from_be [] = 0"
  by (simp add: from_be_def)

lemma from_be_snoc [simp]: "from_be (bs @ [b]) = from_be bs * 256 + unat b"
  by (simp add: from_be_def)

lemma length_to_be [simp]: "length (to_be k n) = k"
  by (induction k arbitrary: n) auto

lemma unat_byte_less [simp]: "unat (b :: byte) < 256"
  using unsigned_less [of b] by simp

lemma from_be_to_be: "from_be (to_be k n) = n mod 256 ^ k"
proof (induction k arbitrary: n)
  case (Suc k)
  have "n mod (256 * 256 ^ k) = 256 * (n div 256 mod 256 ^ k) + n mod 256"
    by (rule mod_mult2_eq)
  with Suc show ?case by (simp add: unat_of_nat mult.commute)
qed simp

lemma to_be_from_be: "to_be (length bs) (from_be bs) = bs"
proof (induction bs rule: rev_induct)
  case (snoc b bs)
  have "(256 :: byte) = 0" by simp
  then have "of_nat (from_be bs * 256 + unat b) = b"
    by (simp only: of_nat_add of_nat_mult of_nat_numeral mult_zero_right) simp
  with snoc show ?case by (simp add: div_add1_eq)
qed simp

lemma from_be_bound: "from_be bs < 256 ^ length bs"
proof (induction bs rule: rev_induct)
  case (snoc b bs)
  then have "Suc (from_be bs) * 256 \<le> 256 ^ length bs * 256"
    by (intro mult_right_mono) auto
  moreover have "from_be bs * 256 + unat b < Suc (from_be bs) * 256"
    by simp
  ultimately show ?case unfolding from_be_snoc length_append_singleton power_Suc2
    by (rule less_le_trans [rotated])
qed simp

text \<open>Evaluation on numerals, for concrete journals.\<close>

lemma to_be_numeral:
  "to_be (numeral k) n = to_be (pred_numeral k) (n div 256) @ [of_nat n]"
  using to_be.simps(2) [of "pred_numeral k" n] by (simp only: numeral_eq_Suc [of k, symmetric])

lemma length_pack32 [simp]: "pack32 n = Some bs \<Longrightarrow> length bs = 4"
  by (auto simp: pack32_def split: if_splits)

lemma unpack32_pack32:
  assumes "pack32 n = Some bs"
  shows "unpack32 (pre @ bs @ post) (length pre) = n"
  using assms by (auto simp: pack32_def unpack32_def from_be_to_be split: if_splits)

lemma unpack32_bound: "off + 4 \<le> length data \<Longrightarrow> unpack32 data off < 2 ^ 32"
  using from_be_bound [of "take 4 (drop off data)"] by (simp add: unpack32_def)

lemma pack32_unpack32:
  assumes "off + 4 \<le> length data"
  shows "pack32 (unpack32 data off) = Some (take 4 (drop off data))"
proof -
  have "length (take 4 (drop off data)) = 4" using assms by simp
  then have "to_be 4 (unpack32 data off) = take 4 (drop off data)"
    unfolding unpack32_def by (metis to_be_from_be)
  with unpack32_bound [OF assms] show ?thesis by (simp add: pack32_def)
qed

section \<open>JSON\<close>

text \<open>The values \<^verbatim>\<open>json.loads\<close> returns; an object keeps its members in order.\<close>

datatype json =
    JNull
  | JBool bool
  | JNumber int
  | JString string
  | JArray "json list"
  | JObject "(string \<times> json) list"

section \<open>Insertion-ordered dictionaries\<close>

text \<open>\<open>od_move_to_end\<close> is \<^verbatim>\<open>OrderedDict.move_to_end(key)\<close>.\<close>

definition od_set_last :: "'k \<Rightarrow> 'v \<Rightarrow> ('k \<times> 'v) list \<Rightarrow> ('k \<times> 'v) list" where
  "od_set_last k v d = AList.delete k d @ [(k, v)]"

definition od_move_to_end :: "'k \<Rightarrow> ('k \<times> 'v) list \<Rightarrow> ('k \<times> 'v) list" where
  "od_move_to_end k d = (case map_of d k of None \<Rightarrow> d | Some v \<Rightarrow> od_set_last k v d)"

lemma map_of_delete [dict_simps]:
  "map_of (AList.delete k d) k' = (if k' = k then None else map_of d k')"
  by (simp add: delete_conv')

lemma map_of_od_set_last [dict_simps]:
  "map_of (od_set_last k v d) k' = (if k' = k then Some v else map_of d k')"
  by (auto simp: od_set_last_def map_add_def dict_simps split: option.splits)

lemma map_of_update [dict_simps]:
  "map_of (AList.update k v d) k' = (if k' = k then Some v else map_of d k')"
  by (simp add: update_conv')

lemma map_of_od_move_to_end [dict_simps]: "map_of (od_move_to_end k d) = map_of d"
  by (auto simp: od_move_to_end_def fun_eq_iff dict_simps split: option.splits)

lemma distinct_od_set_last: "distinct (map fst d) \<Longrightarrow> distinct (map fst (od_set_last k v d))"
  by (simp add: od_set_last_def delete_keys distinct_removeAll)

lemma length_delete: "length (AList.delete k d) \<le> length d"
  by (simp add: AList.delete_eq)

lemma length_od_set_last_present: "map_of d k \<noteq> None \<Longrightarrow> length (od_set_last k v d) \<le> length d"
proof -
  assume "map_of d k \<noteq> None"
  then have "length (AList.delete k d) < length d"
    by (auto simp: AList.delete_eq map_of_eq_None_iff intro!: length_filter_less)
  then show ?thesis by (simp add: od_set_last_def)
qed

end
