(* ===== verification/Framing.thy ===== *)
theory Framing
  imports Prelude
begin

text \<open>
  The frames of the append-only journal (\<^verbatim>\<open>checkpoint/framing.py\<close>): the encoder, the
  scan of a damaged file, and what the scan returns for arbitrary bytes and for every
  truncation of a written journal.
\<close>

unbundle bit_operations_syntax

section \<open>CRC-32\<close>

text \<open>
  \<^verbatim>\<open>zlib.crc32\<close>, bit by bit: the reflected polynomial \<open>0xEDB88320\<close>, initial
  value and final complement \<open>0xFFFFFFFF\<close>.
\<close>

definition crc_bit :: "32 word \<Rightarrow> 32 word" where
  "crc_bit c = (if bit c 0 then drop_bit 1 c XOR 0xEDB88320 else drop_bit 1 c)"

definition crc_byte :: "32 word \<Rightarrow> byte \<Rightarrow> 32 word" where
  "crc_byte c b = crc_bit (crc_bit (crc_bit (crc_bit (crc_bit (crc_bit (crc_bit (crc_bit
     (c XOR ucast b))))))))"

definition crc32 :: "bytes \<Rightarrow> 32 word" where
  "crc32 bs = foldl crc_byte 0xFFFFFFFF bs XOR 0xFFFFFFFF"

section \<open>Frames\<close>

definition SEPARATOR :: byte where "SEPARATOR = 0x1E"
definition HEADER_SIZE :: nat where "HEADER_SIZE = 9"
definition CHECKSUM_SIZE :: nat where "CHECKSUM_SIZE = 4"
definition FRAME_OVERHEAD :: nat where "FRAME_OVERHEAD = HEADER_SIZE + CHECKSUM_SIZE"
definition MAX_SEQUENCE :: nat where "MAX_SEQUENCE = 0xFFFFFFFF"

lemmas frame_sizes = SEPARATOR_def HEADER_SIZE_def CHECKSUM_SIZE_def FRAME_OVERHEAD_def
  MAX_SEQUENCE_def

record frame =
  fr_sequence :: nat
  fr_body :: bytes

datatype stop =
    Truncated_Header | Truncated_Body | Bad_Separator | Bad_Checksum | Sequence_Gap
  | Frame_Too_Large | Unreadable_Body

record frame_scan =
  fs_frames :: "frame list"
  fs_consumed :: nat
  fs_torn :: nat
  fs_stop :: "stop option"

definition last_sequence :: "frame_scan \<Rightarrow> nat" where
  "last_sequence s = (if fs_frames s = [] then 0 else fr_sequence (last (fs_frames s)))"

text \<open>
  \<open>encode_frame\<close> refuses a sequence number out of range, a body over the cap and, as
  \<^verbatim>\<open>struct.pack\<close> would, a length that four bytes cannot hold.
\<close>

datatype frame_error = Sequence_Range | Too_Large | Struct_Error

definition encode_frame :: "nat \<Rightarrow> bytes \<Rightarrow> nat \<Rightarrow> frame_error + bytes" where
  "encode_frame sequence body max_body_bytes =
     (if \<not> (1 \<le> sequence \<and> sequence \<le> MAX_SEQUENCE) then Inl Sequence_Range
      else if length body > max_body_bytes then Inl Too_Large
      else case (pack32 sequence, pack32 (length body), pack32 (unat (crc32 body))) of
        (Some s, Some l, Some c) \<Rightarrow> Inr ([SEPARATOR] @ s @ l @ body @ c)
      | _ \<Rightarrow> Inl Struct_Error)"

text \<open>
  One turn of the loop of \<open>scan_frames\<close>, up to the call of \<^verbatim>\<open>open_body\<close>: the
  stored body and the end of the frame at \<open>offset\<close>, or the reason to stop.
\<close>

definition frame_at :: "nat \<Rightarrow> bytes \<Rightarrow> nat \<Rightarrow> nat \<Rightarrow> stop + (bytes \<times> nat)" where
  "frame_at max_body_bytes data expected offset =
     (if length data - offset < HEADER_SIZE then Inl Truncated_Header
      else let separator = data ! offset;
               sequence = unpack32 data (offset + 1);
               len = unpack32 data (offset + 5);
               end_at = offset + HEADER_SIZE + len + CHECKSUM_SIZE;
               body = take len (drop (offset + HEADER_SIZE) data)
        in if separator \<noteq> SEPARATOR then Inl Bad_Separator
           else if len > max_body_bytes then Inl Frame_Too_Large
           else if end_at > length data then Inl Truncated_Body
           else if unpack32 data (offset + HEADER_SIZE + len) \<noteq> unat (crc32 body)
             then Inl Bad_Checksum
           else if sequence \<noteq> expected then Inl Sequence_Gap
           else Inr (body, end_at))"

lemma frame_at_end:
  assumes "frame_at m data e off = Inr (body, end_at)"
  shows "off < end_at \<and> end_at \<le> length data \<and> off + HEADER_SIZE \<le> length data"
  using assms by (auto simp: frame_at_def Let_def frame_sizes split: if_splits)

text \<open>
  The loop. \<open>open_body\<close> is a closure that may change the caller's variables, so it threads
  a state \<open>'s\<close>; \<open>None\<close> is the absent callback.
\<close>

type_synonym 's opener = "'s \<Rightarrow> nat \<Rightarrow> bytes \<Rightarrow> bytes option \<times> 's"

function scan_loop ::
  "nat \<Rightarrow> 's opener option \<Rightarrow> bytes \<Rightarrow> nat \<Rightarrow> nat \<Rightarrow> frame list \<Rightarrow> 's
     \<Rightarrow> (frame list \<times> nat \<times> stop option) \<times> 's" where
  "scan_loop m open_body data expected offset frames s =
     (if offset < length data then
        case frame_at m data expected offset of
          Inl stop \<Rightarrow> ((frames, offset, Some stop), s)
        | Inr (body, end_at) \<Rightarrow>
            (case open_body of
               None \<Rightarrow>
                 scan_loop m open_body data (expected + 1) end_at
                   (frames @ [\<lparr>fr_sequence = expected, fr_body = body\<rparr>]) s
             | Some f \<Rightarrow>
                 (case f s expected body of
                    (None, s') \<Rightarrow> ((frames, offset, Some Unreadable_Body), s')
                  | (Some opened, s') \<Rightarrow>
                      scan_loop m open_body data (expected + 1) end_at
                        (frames @ [\<lparr>fr_sequence = expected, fr_body = opened\<rparr>]) s'))
      else ((frames, offset, None), s))"
  by pat_completeness auto
termination
  by (relation "measure (\<lambda>(m, ob, data, e, off, fs, s). length data - off)")
     (auto dest!: frame_at_end)

declare scan_loop.simps [simp del]

definition scan_frames ::
  "bytes \<Rightarrow> nat \<Rightarrow> 's opener option \<Rightarrow> nat \<Rightarrow> 's \<Rightarrow> frame_scan \<times> 's" where
  "scan_frames data max_body_bytes open_body first_sequence s =
     (case scan_loop max_body_bytes open_body data first_sequence 0 [] s of
        ((frames, offset, stop), s') \<Rightarrow>
          (\<lparr>fs_frames = frames, fs_consumed = offset, fs_torn = length data - offset,
            fs_stop = stop\<rparr>, s'))"

text \<open>The scan of a plaintext journal.\<close>

abbreviation plain_scan :: "bytes \<Rightarrow> nat \<Rightarrow> nat \<Rightarrow> frame_scan" where
  "plain_scan data m first \<equiv> fst (scan_frames data m None first ())"

text \<open>The bytes of a whole journal: the specification of what a writer appends.\<close>

fun encode_frames :: "nat \<Rightarrow> nat \<Rightarrow> bytes list \<Rightarrow> frame_error + bytes" where
  "encode_frames m n [] = Inr []"
| "encode_frames m n (b # bs) =
     (case encode_frame n b m of
        Inl e \<Rightarrow> Inl e
      | Inr f \<Rightarrow> (case encode_frames m (n + 1) bs of Inl e \<Rightarrow> Inl e | Inr w \<Rightarrow> Inr (f @ w)))"

text \<open>Consecutively numbered frames, and the size of their encoding.\<close>

fun number :: "nat \<Rightarrow> bytes list \<Rightarrow> frame list" where
  "number n [] = []"
| "number n (b # bs) = \<lparr>fr_sequence = n, fr_body = b\<rparr> # number (n + 1) bs"

definition frames_size :: "bytes list \<Rightarrow> nat" where
  "frames_size bs = sum_list (map (\<lambda>b. length b + FRAME_OVERHEAD) bs)"

lemma frames_size_simps [simp]:
  "frames_size [] = 0"
  "frames_size (b # bs) = length b + FRAME_OVERHEAD + frames_size bs"
  "frames_size (as @ bs) = frames_size as + frames_size bs"
  by (simp_all add: frames_size_def)

lemma number_append: "number n (as @ bs) = number n as @ number (n + length as) bs"
  by (induction as arbitrary: n) auto

lemma number_bodies [simp]: "map fr_body (number n bs) = bs"
  by (induction bs arbitrary: n) auto

lemma number_sequences [simp]: "map fr_sequence (number n bs) = [n..<n + length bs]"
  by (induction bs arbitrary: n) (simp_all add: upt_conv_Cons del: upt_Suc)

lemma length_number [simp]: "length (number n bs) = length bs"
  by (induction bs arbitrary: n) auto

section \<open>One frame\<close>

lemma encode_frame_Inr:
  assumes "encode_frame n b m = Inr f"
  obtains s l c where "pack32 n = Some s" "pack32 (length b) = Some l"
    "pack32 (unat (crc32 b)) = Some c" "f = [SEPARATOR] @ s @ l @ b @ c"
    "length b \<le> m" "1 \<le> n" "n \<le> MAX_SEQUENCE"
  using assms by (auto simp: encode_frame_def split: if_splits option.splits)

lemma encode_frame_length:
  assumes "encode_frame n b m = Inr f"
  shows "length f = length b + FRAME_OVERHEAD"
  using assms by (elim encode_frame_Inr) (simp add: frame_sizes)

lemma frame_at_encoded:
  assumes "encode_frame n b m = Inr f"
  shows "frame_at m (pre @ f @ rest) n (length pre) = Inr (b, length pre + length f)"
proof -
  from assms obtain s l c where p: "pack32 n = Some s" "pack32 (length b) = Some l"
    "pack32 (unat (crc32 b)) = Some c" and f: "f = [SEPARATOR] @ s @ l @ b @ c"
    and "length b \<le> m" by (rule encode_frame_Inr)
  let ?d = "pre @ f @ rest"
  from p have len: "length s = 4" "length l = 4" "length c = 4" by auto
  have "unpack32 ?d (length pre + 1) = n"
    using unpack32_pack32 [OF p(1), of "pre @ [SEPARATOR]" "l @ b @ c @ rest"] by (simp add: f)
  moreover have "unpack32 ?d (length pre + 5) = length b"
    using unpack32_pack32 [OF p(2), of "pre @ [SEPARATOR] @ s" "b @ c @ rest"] len
    by (simp add: f)
  moreover have "unpack32 ?d (length pre + HEADER_SIZE + length b) = unat (crc32 b)"
    using unpack32_pack32 [OF p(3), of "pre @ [SEPARATOR] @ s @ l @ b" rest] len
    by (simp add: f frame_sizes add.commute add.left_commute)
  moreover have "?d ! length pre = SEPARATOR"
    by (simp add: f nth_append)
  moreover have "take (length b) (drop (length pre + HEADER_SIZE) ?d) = b"
    using len by (simp add: f frame_sizes)
  ultimately show ?thesis
    using len \<open>length b \<le> m\<close> by (simp add: frame_at_def Let_def f frame_sizes)
qed

lemma pack32_eq_take:
  assumes "off + 4 \<le> length data" "unpack32 data off = n"
  shows "pack32 n = Some (take 4 (drop off data))"
  using pack32_unpack32 [OF assms(1)] assms(2) by simp

lemma frame_at_sound:
  assumes fa: "frame_at m data n off = Inr (b, end_at)" and n: "1 \<le> n"
  shows "encode_frame n b m = Inr (take (end_at - off) (drop off data))"
proof -
  let ?len = "unpack32 data (off + 5)"
  from fa have len9: "off + 9 \<le> length data" and sep: "data ! off = SEPARATOR"
    and cap: "?len \<le> m" and bound: "off + 9 + ?len + 4 \<le> length data"
    and crc: "unpack32 data (off + 9 + ?len) = unat (crc32 b)"
    and sq: "unpack32 data (off + 1) = n"
    and b: "b = take ?len (drop (off + 9) data)" and e: "end_at = off + 9 + ?len + 4"
    by (auto simp: frame_at_def Let_def frame_sizes split: if_splits)
  have lb: "length b = ?len" using b bound by simp
  have ps: "pack32 n = Some (take 4 (drop (off + 1) data))"
    by (rule pack32_eq_take) (use len9 sq in auto)
  have pl: "pack32 (length b) = Some (take 4 (drop (off + 5) data))"
    by (rule pack32_eq_take) (use len9 lb in auto)
  have pc: "pack32 (unat (crc32 b)) = Some (take 4 (drop (off + 9 + ?len) data))"
    by (rule pack32_eq_take) (use bound crc in auto)
  have nm: "n \<le> MAX_SEQUENCE"
    using ps by (auto simp: pack32_def MAX_SEQUENCE_def split: if_splits)
  have "take (end_at - off) (drop off data)
      = take 1 (drop off data) @ take 4 (drop (off + 1) data) @ take 4 (drop (off + 5) data)
        @ take ?len (drop (off + 9) data) @ take 4 (drop (off + 9 + ?len) data)"
  proof -
    have "end_at - off = 1 + (4 + (4 + (?len + 4)))" using e by simp
    then show ?thesis by (simp only: take_add drop_drop) (simp add: add.commute add.left_commute)
  qed
  also have "take 1 (drop off data) = [SEPARATOR]"
    using len9 sep by (simp add: take_Suc_conv_app_nth hd_drop_conv_nth)
  finally show ?thesis
    using n nm cap lb ps pl pc b by (simp add: encode_frame_def)
qed

lemma encode_frames_length:
  "encode_frames m n bs = Inr w \<Longrightarrow> length w = frames_size bs"
  by (induction bs arbitrary: n w) (auto dest: encode_frame_length split: sum.splits)

lemma encode_frames_append:
  "encode_frames m n (as @ bs) =
     (case encode_frames m n as of
        Inl e \<Rightarrow> Inl e
      | Inr v \<Rightarrow> (case encode_frames m (n + length as) bs of Inl e \<Rightarrow> Inl e | Inr w \<Rightarrow> Inr (v @ w)))"
  by (induction as arbitrary: n) (auto split: sum.splits)

lemma encode_frame_mono: "encode_frame n b m = Inr f \<Longrightarrow> m \<le> m' \<Longrightarrow> encode_frame n b m' = Inr f"
  by (auto simp: encode_frame_def split: if_splits)

lemma encode_frames_mono: "encode_frames m n bs = Inr w \<Longrightarrow> m \<le> m' \<Longrightarrow> encode_frames m' n bs = Inr w"
  by (induction bs arbitrary: n w) (auto dest: encode_frame_mono split: sum.splits)

section \<open>The scan loop\<close>

lemma scan_loop_encoded:
  assumes "encode_frames m e bs = Inr v"
  shows "scan_loop m None (pre @ v @ rest) e (length pre) fs s
       = scan_loop m None (pre @ v @ rest) (e + length bs) (length pre + length v)
           (fs @ number e bs) s"
  using assms
proof (induction bs arbitrary: e v pre fs)
  case (Cons b bs)
  then obtain f w where f: "encode_frame e b m = Inr f" and w: "encode_frames m (e + 1) bs = Inr w"
    and v: "v = f @ w"
    by (auto split: sum.splits)
  have "frame_at m (pre @ v @ rest) e (length pre) = Inr (b, length pre + length f)"
    using frame_at_encoded [OF f, of pre "w @ rest"] by (simp add: v)
  moreover have "0 < length f"
    using encode_frame_length [OF f] by (simp add: frame_sizes)
  ultimately have "scan_loop m None (pre @ v @ rest) e (length pre) fs s
      = scan_loop m None (pre @ v @ rest) (e + 1) (length pre + length f)
          (fs @ [\<lparr>fr_sequence = e, fr_body = b\<rparr>]) s"
    by (subst scan_loop.simps) (simp add: v)
  also have "\<dots> = scan_loop m None (pre @ v @ rest) (e + length (b # bs))
      (length pre + length v) (fs @ number e (b # bs)) s"
    using Cons.IH [OF w, of "pre @ f" "fs @ [\<lparr>fr_sequence = e, fr_body = b\<rparr>]"]
    by (simp add: v add.assoc)
  finally show ?case .
qed simp

text \<open>
  What any run of the loop accepts: consecutively numbered frames whose encoding is exactly the
  bytes consumed, followed by the end of the data or by bytes that are no frame.
\<close>

lemma scan_loop_sound:
  assumes "scan_loop m None data e off fs s = ((fs', off', st), s')" "1 \<le> e" "off \<le> length data"
  shows "\<exists>bs w. fs' = fs @ number e bs \<and> s' = s \<and> encode_frames m e bs = Inr w
    \<and> off \<le> off' \<and> off' \<le> length data \<and> take (off' - off) (drop off data) = w
    \<and> (case st of None \<Rightarrow> off' = length data
        | Some r \<Rightarrow> off' < length data \<and> frame_at m data (e + length bs) off' = Inl r)"
  using assms
proof (induction "length data - off" arbitrary: e off fs rule: less_induct)
  case less
  show ?case
  proof (cases "off < length data \<and> (\<exists>b en. frame_at m data e off = Inr (b, en))")
    case False
    with less.prems show ?thesis
      by (subst (asm) scan_loop.simps)
         (force simp: split: if_splits sum.splits intro!: exI [of _ "[]"])
  next
    case True
    then obtain b en where off: "off < length data" and fa: "frame_at m data e off = Inr (b, en)"
      by auto
    from frame_at_end [OF fa] have en: "off < en" "en \<le> length data" by auto
    have tail: "scan_loop m None data (e + 1) en (fs @ [\<lparr>fr_sequence = e, fr_body = b\<rparr>]) s
        = ((fs', off', st), s')"
      using less.prems(1) off fa by (subst (asm) scan_loop.simps) simp
    have small: "length data - en < length data - off" and e1: "1 \<le> e + 1"
      using en off by auto
    from less.hyps [OF small tail e1 en(2)]
    obtain bs w where IH: "fs' = (fs @ [\<lparr>fr_sequence = e, fr_body = b\<rparr>]) @ number (e + 1) bs"
      "s' = s" "encode_frames m (e + 1) bs = Inr w" "en \<le> off'" "off' \<le> length data"
      "take (off' - en) (drop en data) = w"
      "case st of None \<Rightarrow> off' = length data
        | Some r \<Rightarrow> off' < length data \<and> frame_at m data (e + 1 + length bs) off' = Inl r"
      by blast
    have f: "encode_frame e b m = Inr (take (en - off) (drop off data))"
      by (rule frame_at_sound [OF fa less.prems(2)])
    have "take (off' - off) (drop off data) = take (en - off) (drop off data) @ w"
    proof -
      have "off' - off = (en - off) + (off' - en)" using en IH(4) by simp
      then show ?thesis using en IH(6) by (simp only: take_add drop_drop) simp
    qed
    then show ?thesis
      using IH en f by (intro exI [of _ "b # bs"]) (auto split: option.splits)
  qed
qed

text \<open>
  With a callback, the loop reads the same frames and stops at the first body the callback
  refuses: \<open>open_run\<close> runs the callback over the stored bodies.
\<close>

fun open_run :: "'s opener \<Rightarrow> nat \<Rightarrow> bytes list \<Rightarrow> 's \<Rightarrow> bytes list \<times> 's \<times> bool" where
  "open_run f e [] s = ([], s, False)"
| "open_run f e (b # bs) s =
     (case f s e b of
        (None, s') \<Rightarrow> ([], s', True)
      | (Some p, s') \<Rightarrow> (case open_run f (e + 1) bs s' of (ps, s'', r) \<Rightarrow> (p # ps, s'', r)))"

lemma open_run_length:
  "open_run f e bs s = (ps, s', r) \<Longrightarrow>
     length ps \<le> length bs \<and> (r \<longrightarrow> length ps < length bs) \<and> (\<not> r \<longrightarrow> length ps = length bs)"
  by (induction bs arbitrary: e s ps s' r)
     (auto split: prod.splits option.splits)

lemma scan_loop_opened:
  assumes "scan_loop m None data e off fs () = ((fs @ number e bs, off', st), ())"
    and "open_run f e bs s = (ps, s', r)" and "off \<le> length data" and "1 \<le> e"
  shows "scan_loop m (Some f) data e off gs s
    = ((gs @ number e ps, off + frames_size (take (length ps) bs),
        if r then Some Unreadable_Body else st), s')
     \<and> (\<not> r \<longrightarrow> off + frames_size bs = off')"
  using assms
proof (induction bs arbitrary: e off fs gs s ps s' r)
  case Nil
  have "\<not> (\<exists>b en. off < length data \<and> frame_at m data e off = Inr (b, en))"
  proof
    assume "\<exists>b en. off < length data \<and> frame_at m data e off = Inr (b, en)"
    then obtain b en where o: "off < length data" "frame_at m data e off = Inr (b, en)" by auto
    with Nil.prems(1) have
      "scan_loop m None data (e + 1) en (fs @ [\<lparr>fr_sequence = e, fr_body = b\<rparr>]) ()
        = ((fs, off', st), ())"
      by (subst (asm) scan_loop.simps) simp
    from scan_loop_sound [OF this] frame_at_end [OF o(2)] show False by auto
  qed
  with Nil.prems show ?case
    by (subst scan_loop.simps, subst (asm) scan_loop.simps)
       (auto split: sum.splits if_splits)
next
  case (Cons b bs)
  have off: "off < length data \<and> frame_at m data e off = Inr (b, off + length b + FRAME_OVERHEAD)"
  proof -
    from scan_loop_sound [OF Cons.prems(1,4,3)] obtain bs' w where
      w: "fs @ number e (b # bs) = fs @ number e bs'" "encode_frames m e bs' = Inr w"
        "off' \<le> length data" "take (off' - off) (drop off data) = w"
      by blast
    from w(1) have "bs' = b # bs" by (metis number_bodies same_append_eq)
    with w(2) obtain g v where g: "encode_frame e b m = Inr g" "w = g @ v"
      by (auto split: sum.splits)
    from w(4) g(2) have "\<exists>rest. drop off data = g @ rest"
      by (metis append.assoc append_take_drop_id)
    then obtain rest where rest: "drop off data = g @ rest" by blast
    have "data = take off data @ g @ rest" using rest by (metis append_take_drop_id)
    moreover have "length (take off data) = off" using Cons.prems(3) by simp
    ultimately have "frame_at m data e off = Inr (b, off + length g)"
      using frame_at_encoded [OF g(1), of "take off data" rest] by metis
    moreover have "off < length data"
      using rest encode_frame_length [OF g(1)] by (cases "off < length data") (auto simp: frame_sizes)
    ultimately show ?thesis using encode_frame_length [OF g(1)] by (simp add: add.assoc)
  qed
  let ?en = "off + length b + FRAME_OVERHEAD"
  have en: "?en \<le> length data" using off frame_at_end by blast
  have tail: "scan_loop m None data (e + 1) ?en (fs @ [\<lparr>fr_sequence = e, fr_body = b\<rparr>]) ()
      = (((fs @ [\<lparr>fr_sequence = e, fr_body = b\<rparr>]) @ number (e + 1) bs, off', st), ())"
    using Cons.prems(1) off by (subst (asm) scan_loop.simps) simp
  show ?case
  proof (cases "f s e b")
    case (Pair o1 s1)
    show ?thesis
    proof (cases o1)
      case None
      with Pair Cons.prems(2) off show ?thesis
        by (subst scan_loop.simps) simp
    next
      case (Some p)
      from Pair Some Cons.prems(2) obtain ps' where r: "open_run f (e + 1) bs s1 = (ps', s', r)"
        and ps: "ps = p # ps'" by (auto split: prod.splits)
      from Cons.IH [OF tail r en, of "gs @ [\<lparr>fr_sequence = e, fr_body = p\<rparr>]"] Pair Some off ps
      show ?thesis
        by (subst scan_loop.simps) (auto simp: add.assoc)
    qed
  qed
qed

section \<open>The interface of an append-only log\<close>

text \<open>
  What the writer, the reader and the server's copy of a journal rely on: an encoding of item
  lists that only grows, and a scan that returns the longest encoded prefix of any bytes.
\<close>

locale framed_log =
  fixes enc :: "nat \<Rightarrow> 'b list \<Rightarrow> bytes option"
    and scan :: "bytes \<Rightarrow> nat \<Rightarrow> 'b list"
  assumes enc_append: "enc n (as @ bs) = Some v \<Longrightarrow> \<exists>w x. enc n as = Some w \<and> v = w @ x \<and> (bs \<noteq> [] \<longrightarrow> x \<noteq> [])"
    and scan_sound: "1 \<le> n \<Longrightarrow> \<exists>w. enc n (scan data n) = Some w \<and> prefix w data"
    and scan_maximal: "1 \<le> n \<Longrightarrow> enc n bs = Some w \<Longrightarrow> prefix w data \<Longrightarrow> prefix bs (scan data n)"
begin

lemma enc_longer: "enc n (as @ bs) = Some v \<Longrightarrow> enc n as = Some w \<Longrightarrow> bs \<noteq> [] \<Longrightarrow> length w < length v"
  using enc_append by fastforce

lemma scan_enc:
  assumes "1 \<le> n" "enc n bs = Some w"
  shows "scan w n = bs"
proof -
  from scan_maximal [OF assms] have "prefix bs (scan w n)" by simp
  then obtain cs where cs: "scan w n = bs @ cs" by (auto simp: prefix_def)
  obtain v where v: "enc n (bs @ cs) = Some v" "prefix v w"
    using scan_sound [OF assms(1), of w] cs by auto
  have "cs = []"
  proof (rule ccontr)
    assume "cs \<noteq> []"
    from enc_longer [OF v(1) assms(2) this] prefix_length_le [OF v(2)] show False by simp
  qed
  with cs show ?thesis by simp
qed

lemma scan_truncated:
  assumes "1 \<le> n" "enc n bs = Some w"
  shows "prefix (scan (take k w) n) bs"
proof -
  obtain v where v: "enc n (scan (take k w) n) = Some v" "prefix v (take k w)"
    using scan_sound [OF assms(1)] by blast
  from v(2) have "prefix v w" by (meson prefix_order.trans take_is_prefix)
  from scan_maximal [OF assms(1) v(1) this] scan_enc [OF assms] show ?thesis by simp
qed

lemma scan_keeps_complete:
  assumes "1 \<le> n" "enc n as = Some v" "prefix v data"
  shows "prefix as (scan data n)"
  using assms by (rule scan_maximal)

lemma scan_mono:
  assumes "1 \<le> n" "prefix d1 d2"
  shows "prefix (scan d1 n) (scan d2 n)"
proof -
  obtain v where v: "enc n (scan d1 n) = Some v" "prefix v d1"
    using scan_sound [OF assms(1)] by blast
  from v(2) assms(2) have "prefix v d2" by (rule prefix_order.trans)
  from scan_maximal [OF assms(1) v(1) this] show ?thesis .
qed

end

definition journal_bytes :: "nat \<Rightarrow> nat \<Rightarrow> bytes list \<Rightarrow> bytes option" where
  "journal_bytes m n bs = (case encode_frames m n bs of Inl _ \<Rightarrow> None | Inr w \<Rightarrow> Some w)"

definition scanned_bodies :: "nat \<Rightarrow> bytes \<Rightarrow> nat \<Rightarrow> bytes list" where
  "scanned_bodies m data n = map fr_body (fs_frames (plain_scan data m n))"

lemma journal_bytes_iff: "journal_bytes m n bs = Some w \<longleftrightarrow> encode_frames m n bs = Inr w"
  by (auto simp: journal_bytes_def split: sum.splits)

lemma plain_scan_cases:
  assumes "1 \<le> n"
  obtains bs w where "fs_frames (plain_scan data m n) = number n bs"
    "encode_frames m n bs = Inr w" "take (fs_consumed (plain_scan data m n)) data = w"
    "fs_consumed (plain_scan data m n) \<le> length data"
    "fs_torn (plain_scan data m n) = length data - fs_consumed (plain_scan data m n)"
    "fs_stop (plain_scan data m n) = None \<longleftrightarrow> fs_torn (plain_scan data m n) = 0"
proof -
  obtain fs off st where l: "scan_loop m None data n 0 [] () = ((fs, off, st), ())"
    by (metis (full_types) old.unit.exhaust prod.exhaust)
  from scan_loop_sound [OF l assms] obtain bs w where
    "fs = number n bs" "encode_frames m n bs = Inr w" "off \<le> length data" "take off data = w"
    "case st of None \<Rightarrow> off = length data
      | Some r \<Rightarrow> off < length data \<and> frame_at m data (n + length bs) off = Inl r"
    by auto
  then show ?thesis
    using l by (intro that [of bs w]) (auto simp: scan_frames_def split: option.splits)
qed

lemma plain_scan_maximal:
  assumes "1 \<le> n" "encode_frames m n bs = Inr w" "data = w @ rest"
  shows "prefix bs (scanned_bodies m data n)"
proof -
  obtain fs off st where l: "scan_loop m None data (n + length bs) (length w) (number n bs) ()
      = ((fs, off, st), ())"
    by (metis (full_types) old.unit.exhaust prod.exhaust)
  have "scan_loop m None data n 0 [] () = ((fs, off, st), ())"
    using scan_loop_encoded [OF assms(2), of "[]" rest "[]" "()"] l assms(3) by simp
  moreover from scan_loop_sound [OF l] assms obtain cs where "fs = number n bs @ number (n + length bs) cs"
    by auto
  ultimately show ?thesis
    by (simp add: scanned_bodies_def scan_frames_def number_append [symmetric])
qed

interpretation fl: framed_log "journal_bytes m" "scanned_bodies m" for m
proof unfold_locales
  fix n as bs v
  assume "journal_bytes m n (as @ bs) = Some v"
  then have "encode_frames m n (as @ bs) = Inr v" by (simp add: journal_bytes_iff)
  then obtain w x where "encode_frames m n as = Inr w" "encode_frames m (n + length as) bs = Inr x"
    "v = w @ x"
    by (auto simp: encode_frames_append split: sum.splits)
  moreover from encode_frames_length [OF this(2)] have "bs \<noteq> [] \<longrightarrow> x \<noteq> []"
    by (cases bs) (auto simp: frame_sizes)
  ultimately show "\<exists>w x. journal_bytes m n as = Some w \<and> v = w @ x \<and> (bs \<noteq> [] \<longrightarrow> x \<noteq> [])"
    by (auto simp: journal_bytes_iff)
next
  fix n :: nat and data
  assume "1 \<le> n"
  then obtain bs w where "fs_frames (plain_scan data m n) = number n bs"
    "encode_frames m n bs = Inr w" "take (fs_consumed (plain_scan data m n)) data = w"
    by (rule plain_scan_cases)
  then show "\<exists>w. journal_bytes m n (scanned_bodies m data n) = Some w \<and> prefix w data"
    by (auto simp: scanned_bodies_def journal_bytes_iff take_is_prefix)
next
  fix n bs w data
  assume "1 \<le> n" "journal_bytes m n bs = Some w" "prefix w data"
  then show "prefix bs (scanned_bodies m data n)"
    by (auto simp: journal_bytes_iff elim!: prefixE intro: plain_scan_maximal)
qed

section \<open>A concrete journal\<close>

text \<open>One frame with the body \<open>A\<close>, and the lemmas that evaluate the codec on it.\<close>

abbreviation sample_frame :: bytes where
  "sample_frame \<equiv> [0x1E, 0, 0, 0, 1, 0, 0, 0, 1, 0x41, 0xD3, 0xD9, 0x9E, 0x8B]"

lemma crc32_sample: "crc32 [0x41] = 0xD3D99E8B" "crc32 [] = 0"
  by (simp_all add: crc32_def crc_byte_def crc_bit_def)

lemmas frame_eval = encode_frame_def scan_frames_def scan_loop.simps frame_at_def unpack32_def
  pack32_def from_be_def Let_def frame_sizes crc32_sample to_be_numeral

lemma encode_sample: "encode_frames 16 1 [[0x41]] = Inr sample_frame"
  by (simp add: frame_eval)

section \<open>Properties\<close>

text \<open>C7. For any bytes whatever, the scan returns consecutively numbered frames whose encoding is
  exactly the bytes it reports as consumed; consumed and torn bytes add up to the input, and it
  gives a stop reason exactly when it left a torn tail.\<close>

theorem scan_frames_intact_prefix:
  assumes "1 \<le> first" and "plain_scan data m first = r"
  shows "map fr_sequence (fs_frames r) = [first..<first + length (fs_frames r)]
    \<and> encode_frames m first (map fr_body (fs_frames r)) = Inr (take (fs_consumed r) data)
    \<and> fs_consumed r + fs_torn r = length data
    \<and> (fs_stop r = None) = (fs_torn r = 0)"
  using assms(2) by (auto intro: plain_scan_cases [OF assms(1), of data m])

theorem scan_frames_intact_prefix_witness:
  "fs_stop (plain_scan (sample_frame @ [0x1E]) 16 1) = Some Truncated_Header
   \<and> fs_consumed (plain_scan (sample_frame @ [0x1E]) 16 1) = 14
   \<and> encode_frames 16 1 (map fr_body (fs_frames (plain_scan (sample_frame @ [0x1E]) 16 1)))
     = Inr (take 14 (sample_frame @ [0x1E]))"
proof -
  have e: "plain_scan (sample_frame @ [0x1E]) 16 1
    = \<lparr>fs_frames = [\<lparr>fr_sequence = 1, fr_body = [0x41]\<rparr>], fs_consumed = 14, fs_torn = 1,
        fs_stop = Some Truncated_Header\<rparr>"
    by (simp add: frame_eval)
  show ?thesis using scan_frames_intact_prefix [OF order_refl e] by (simp only: e) simp
qed

text \<open>The scanned prefix is maximal: whenever the input starts with the encoding of some bodies,
  the scan returns all of these bodies, in order.\<close>

theorem scan_frames_maximal:
  assumes "1 \<le> first" and "encode_frames m first bs = Inr w" and "prefix w data"
  shows "prefix bs (map fr_body (fs_frames (plain_scan data m first)))"
  using fl.scan_maximal [OF assms(1) _ assms(3), of m bs] assms(2)
  by (simp add: journal_bytes_iff scanned_bodies_def)

theorem scan_frames_maximal_witness:
  "prefix [[0x41]] (map fr_body (fs_frames (plain_scan (sample_frame @ [7, 7]) 16 1)))"
  by (rule scan_frames_maximal [OF order_refl encode_sample]) simp

text \<open>The number of frames that lie wholly within the first \<open>k\<close> bytes.\<close>

fun frames_within :: "nat \<Rightarrow> bytes list \<Rightarrow> nat" where
  "frames_within k [] = 0"
| "frames_within k (b # bs) =
     (if length b + FRAME_OVERHEAD \<le> k
      then Suc (frames_within (k - (length b + FRAME_OVERHEAD)) bs) else 0)"

lemma frames_within_le: "frames_within k bs \<le> length bs"
  by (induction bs arbitrary: k) auto

lemma frames_within_size: "frames_size (take (frames_within k bs) bs) \<le> k"
proof (induction bs arbitrary: k)
  case (Cons b bs)
  show ?case using Cons.IH [of "k - (length b + FRAME_OVERHEAD)"] by auto
qed simp

lemma frames_within_next:
  "frames_within k bs < length bs \<Longrightarrow> k < frames_size (take (Suc (frames_within k bs)) bs)"
proof (induction bs arbitrary: k)
  case (Cons b bs)
  show ?case using Cons.prems Cons.IH [of "k - (length b + FRAME_OVERHEAD)"] by auto
qed simp

lemma frames_within_all: "frames_size bs \<le> k \<Longrightarrow> frames_within k bs = length bs"
  by (induction bs arbitrary: k) auto

lemma frames_size_take_mono:
  assumes "i \<le> j"
  shows "frames_size (take i bs) \<le> frames_size (take j bs)"
proof -
  have "take j bs = take i bs @ take (j - i) (drop i bs)"
    using assms by (metis le_add_diff_inverse take_add)
  then show ?thesis by simp
qed

lemma scanned_bodies_truncated:
  assumes "1 \<le> first" and "encode_frames m first bs = Inr w"
  shows "scanned_bodies m (take k w) first = take (frames_within k bs) bs"
proof -
  let ?B = "scanned_bodies m (take k w) first" and ?n = "frames_within k bs"
  from assms(2) have w: "journal_bytes m first bs = Some w" by (simp add: journal_bytes_iff)
  from fl.scan_truncated [OF assms(1) w] obtain j where j: "j \<le> length bs" "?B = take j bs"
    by (metis prefix_length_le prefix_def append_eq_conv_conj)
  obtain v where "journal_bytes m first ?B = Some v" "prefix v (take k w)"
    using fl.scan_sound [OF assms(1)] by blast
  then have jk: "frames_size (take j bs) \<le> k"
    using j(2) by (auto simp: journal_bytes_iff dest!: encode_frames_length prefix_length_le)
  have "j \<le> ?n"
  proof (rule ccontr)
    assume "\<not> j \<le> ?n"
    then have "?n < length bs" "Suc ?n \<le> j" using j(1) by auto
    with frames_within_next [of k bs] frames_size_take_mono [of "Suc ?n" j bs] jk show False by simp
  qed
  moreover have "?n \<le> j"
  proof -
    from assms(2) obtain v x where v: "encode_frames m first (take ?n bs) = Inr v" "w = v @ x"
      using encode_frames_append [of m first "take ?n bs" "drop ?n bs"]
      by (auto split: sum.splits)
    from encode_frames_length [OF v(1)] frames_within_size [of k bs] v(2)
    have "prefix v (take k w)" by (auto simp: prefix_def)
    from fl.scan_keeps_complete [OF assms(1) _ this, of m "take ?n bs"] v(1) j(2)
    have "prefix (take ?n bs) (take j bs)" by (simp add: journal_bytes_iff)
    then show ?thesis using frames_within_le [of k bs] j(1) by (auto dest: prefix_length_le)
  qed
  ultimately show ?thesis using j(2) by simp
qed

text \<open>Truncation: cutting a written journal at any byte offset \<open>k\<close> leaves the scan with exactly
  the frames that lie wholly before the cut, and it reports the bytes of the cut frame as torn.\<close>

theorem scan_frames_truncated:
  assumes "1 \<le> first" and "encode_frames m first bs = Inr w" and "k \<le> length w"
  shows "map fr_body (fs_frames (plain_scan (take k w) m first)) = take (frames_within k bs) bs
    \<and> fs_torn (plain_scan (take k w) m first) = k - frames_size (take (frames_within k bs) bs)"
proof -
  note B = scanned_bodies_truncated [OF assms(1,2), of k]
  obtain cs v where "fs_frames (plain_scan (take k w) m first) = number first cs"
    "encode_frames m first cs = Inr v" "take (fs_consumed (plain_scan (take k w) m first)) (take k w) = v"
    "fs_consumed (plain_scan (take k w) m first) \<le> length (take k w)"
    "fs_torn (plain_scan (take k w) m first)
      = length (take k w) - fs_consumed (plain_scan (take k w) m first)"
    using plain_scan_cases [OF assms(1), of "take k w" m] by metis
  with B assms(3) show ?thesis
    by (auto simp: scanned_bodies_def dest!: encode_frames_length)
qed

theorem scan_frames_truncated_witness:
  "map fr_body (fs_frames (plain_scan (take 13 sample_frame) 16 1))
     = take (frames_within 13 [[0x41]]) [[0x41]]
   \<and> fs_torn (plain_scan (take 13 sample_frame) 16 1)
     = 13 - frames_size (take (frames_within 13 [[0x41]]) [[0x41]])"
  by (rule scan_frames_truncated [OF order_refl encode_sample]) simp

end
