(* ===== verification/Journal.thy ===== *)
theory Journal
  imports Framing "HOL-Library.List_Lexorder" "HOL-Library.Char_ord"
begin

text \<open>
  The entries of a journal (\<^verbatim>\<open>checkpoint/records.py\<close>), the authenticated data that
  binds a frame to its slot, and the reader (\<^verbatim>\<open>checkpoint/reader.py\<close>).

  \<open>'j\<close> is the type of the JSON objects an entry carries verbatim (\<^verbatim>\<open>dict[str, Any]\<close>).
  The JSON and pydantic codec and the AES-GCM cipher are third-party code: the functions that use
  them take them as arguments (\<open>decode\<close>, \<open>decrypt\<close>), with \<open>None\<close> for every
  exception the code catches there.
\<close>

section \<open>Capture classes\<close>

datatype capture_class =
    METADATA | EXTENSION_PAYLOAD | TRANSCRIPT | AUDIO | TOOL_PAYLOAD | MODEL_PAYLOAD
  | DIAGNOSTIC_PAYLOAD | IDENTITY | RAW_OTLP

definition all_classes :: "capture_class list" where
  "all_classes = [METADATA, EXTENSION_PAYLOAD, TRANSCRIPT, AUDIO, TOOL_PAYLOAD, MODEL_PAYLOAD,
     DIAGNOSTIC_PAYLOAD, IDENTITY, RAW_OTLP]"

fun class_value :: "capture_class \<Rightarrow> string" where
  "class_value METADATA = ''metadata''"
| "class_value EXTENSION_PAYLOAD = ''extension_payload''"
| "class_value TRANSCRIPT = ''transcript''"
| "class_value AUDIO = ''audio''"
| "class_value TOOL_PAYLOAD = ''tool_payload''"
| "class_value MODEL_PAYLOAD = ''model_payload''"
| "class_value DIAGNOSTIC_PAYLOAD = ''diagnostic_payload''"
| "class_value IDENTITY = ''identity''"
| "class_value RAW_OTLP = ''raw_otlp''"

text \<open>\<^verbatim>\<open>CaptureClass(name)\<close>: \<open>None\<close> is its \<^verbatim>\<open>ValueError\<close>.\<close>

definition class_of_name :: "string \<Rightarrow> capture_class option" where
  "class_of_name name = find (\<lambda>c. class_value c = name) all_classes"

lemma class_of_value [simp]: "class_of_name (class_value c) = Some c"
  by (cases c) (simp_all add: class_of_name_def all_classes_def)

lemma class_of_name_Some: "class_of_name n = Some c \<Longrightarrow> class_value c = n"
  by (auto simp: class_of_name_def find_Some_iff)

lemma inj_class_value: "inj class_value"
  by (rule injI) (metis class_of_value option.inject)

lemma set_all_classes [simp]: "set all_classes = UNIV"
  using capture_class.exhaust by (auto simp: all_classes_def)

section \<open>Entries\<close>

definition JOURNAL_FORMAT_VERSION :: int where "JOURNAL_FORMAT_VERSION = 1"
definition REASON_JOURNAL_FULL :: string where
  "REASON_JOURNAL_FULL = ''checkpoint_journal_full''"

record journal_omission =
  jm_field_key_sha256 :: string
  jm_capture_class :: string
  jm_reason :: string

record journal_consent =
  jc_status :: string
  jc_legal_basis :: "string option"
  jc_recorded_at :: "nat option"
  jc_authority :: "string option"

record journal_redaction =
  jx_policy_id :: string
  jx_policy_version :: string
  jx_status :: string
  jx_findings_count :: "nat option"
  jx_redacted_count :: "nat option"
  jx_executed_at :: "nat option"

record journal_retention =
  jt_expires_at :: "nat option"
  jt_ttl :: "nat option"
  jt_policy_id :: "string option"

record journal_export =
  je_allowed :: bool
  je_destinations :: "string list"
  je_policy_id :: "string option"

record journal_governance =
  jg_consent :: "journal_consent option"
  jg_redaction :: "journal_redaction option"
  jg_retention :: "journal_retention option"
  jg_export :: "journal_export option"

record journal_open =
  jo_version :: int
  jo_journal_id :: string
  jo_producer_name :: string
  jo_producer_version :: string
  jo_bundle_id :: string
  jo_session_id :: string
  jo_clock_domain_id :: string
  jo_started_wall :: nat
  jo_started_mono :: int
  jo_manual_trace_id :: string
  jo_policy_id :: string
  jo_policy_version :: string
  jo_enabled_classes :: "string list"
  jo_governance :: "(string \<times> journal_governance) list"
  jo_max_records :: int
  jo_max_capture_bytes :: int
  jo_max_raw_otlp_bytes :: int
  jo_max_value_bytes :: int

datatype record_kind =
    K_adapter | K_participant | K_stream | K_coverage | K_operation | K_event
  | K_quality_sample | K_media | K_raw_otlp | K_clock_domain | K_clock_relation
  | K_omission | K_policy

record 'j journal_record =
  jr_kind :: record_kind
  jr_value :: "'j option"
  jr_omissions :: "journal_omission list"
  jr_retained_classes :: "string list"
  jr_replaces_index :: "nat option"

text \<open>The model validator \<^verbatim>\<open>keeps_the_mutation_coherent\<close>.\<close>

definition keeps_the_mutation_coherent :: "'j journal_record \<Rightarrow> bool" where
  "keeps_the_mutation_coherent r =
     (if jr_kind r \<in> {K_omission, K_policy} then jr_value r = None \<and> jr_replaces_index r = None
      else jr_value r \<noteq> None \<and> (jr_replaces_index r \<noteq> None \<longrightarrow> jr_kind r = K_coverage))"

record journal_limit =
  jl_reason :: string
  jl_kind :: string
  jl_capture_class :: string
  jl_estimated_bytes :: nat
  jl_whole_record :: bool
  jl_freeze :: bool

record 'j journal_operation_open =
  jp_operation_id :: string
  jp_operation_name :: string
  jp_operation_name_sha256 :: "string option"
  jp_started_at :: 'j
  jp_participant_id :: "string option"
  jp_stream_id :: "string option"
  jp_turn_id :: "string option"
  jp_trace_id :: "string option"
  jp_span_id :: "string option"
  jp_parent_span_id :: "string option"
  jp_parent_scope :: string

record 'j journal_finalize =
  jf_status :: string
  jf_status_attributes :: "(string \<times> string) list"
  jf_ended :: 'j
  jf_journal_complete :: bool
  jf_first_limit_reason :: "string option"
  jf_truncated_records :: nat
  jf_estimated_omitted_bytes :: nat
  jf_omitted_by_kind :: "(string \<times> nat) list"
  jf_omitted_by_class :: "(string \<times> nat) list"
  jf_retained_classes :: "string list"
  jf_record_counts :: "(string \<times> nat) list"

datatype 'j journal_entry =
    Open_Entry journal_open
  | Record_Entry "'j journal_record"
  | Limit_Entry journal_limit
  | Operation_Open_Entry "'j journal_operation_open"
  | Exhausted_Entry string
  | Finalize_Entry "'j journal_finalize"

fun is_open :: "'j journal_entry \<Rightarrow> bool" where
  "is_open (Open_Entry h) = True"
| "is_open _ = False"

fun is_finalize :: "'j journal_entry \<Rightarrow> bool" where
  "is_finalize (Finalize_Entry f) = True"
| "is_finalize _ = False"

lemma is_open_iff: "is_open e \<longleftrightarrow> (\<exists>h. e = Open_Entry h)"
  by (cases e) auto

lemma is_finalize_iff: "is_finalize e \<longleftrightarrow> (\<exists>f. e = Finalize_Entry f)"
  by (cases e) auto

section \<open>The authenticated data of a frame\<close>

text \<open>Python's decimal rendering of a non-negative integer.\<close>

function show_nat :: "nat \<Rightarrow> string" where
  "show_nat n = (if n < 10 then [char_of (48 + n)] else show_nat (n div 10) @ [char_of (48 + n mod 10)])"
  by pat_completeness auto
termination
  by (relation "measure id") auto

declare show_nat.simps [simp del]

lemma char_of_digit_inject: "a < 10 \<Longrightarrow> b < 10 \<Longrightarrow> char_of (48 + a) = char_of (48 + b) \<Longrightarrow> a = (b :: nat)"
  by (simp add: char_of_eq_iff of_char_of take_bit_nat_eq_self)

lemma show_nat_inject: "show_nat a = show_nat b \<Longrightarrow> a = b"
proof (induction a arbitrary: b rule: show_nat.induct)
  case (1 a)
  have len: "show_nat n \<noteq> []" "[] \<noteq> show_nat n" for n by (subst show_nat.simps, simp)+
  show ?case
  proof (cases "a < 10 \<or> b < 10")
    case True
    with "1.prems" len have "a < 10 \<and> b < 10"
      by (auto simp: show_nat.simps [of a] show_nat.simps [of b] split: if_splits)
    with "1.prems" show ?thesis
      by (auto simp: show_nat.simps [of a] show_nat.simps [of b] dest: char_of_digit_inject)
  next
    case False
    with "1.prems" have "show_nat (a div 10) = show_nat (b div 10)"
      and c: "char_of (48 + a mod 10) = char_of (48 + b mod 10)"
      by (auto simp: show_nat.simps [of a] show_nat.simps [of b])
    with "1.IH" False have "a div 10 = b div 10" by blast
    moreover from c have "a mod 10 = b mod 10" by (rule char_of_digit_inject [rotated 2]) auto
    ultimately show ?thesis by (metis mod_div_mult_eq)
  qed
qed

definition journal_frame_aad :: "string option \<Rightarrow> nat \<Rightarrow> string" where
  "journal_frame_aad journal_id sequence =
     ''1'' @ ''|'' @ (case journal_id of None \<Rightarrow> ''header''
                      | Some j \<Rightarrow> (if j = [] then ''header'' else j)) @ ''|'' @ show_nat sequence"

lemma bar_free_split:
  "CHR ''|'' \<notin> set as \<Longrightarrow> CHR ''|'' \<notin> set bs \<Longrightarrow>
   as @ CHR ''|'' # xs = bs @ CHR ''|'' # ys \<Longrightarrow> as = bs \<and> xs = ys"
proof (induction as arbitrary: bs)
  case Nil
  then show ?case by (cases bs) auto
next
  case (Cons a as)
  then show ?case by (cases bs) auto
qed

text \<open>
  The authenticated data names one slot: two frames share it only when they have the same
  sequence number and the same journal (or both stand for the header), for journal identifiers that
  hold no bar, as hexadecimal identifiers do not.
\<close>

theorem journal_frame_aad_injective:
  assumes "\<forall>j \<in> set_option a \<union> set_option b. CHR ''|'' \<notin> set j \<and> j \<noteq> [] \<and> j \<noteq> ''header''"
    and "journal_frame_aad a n = journal_frame_aad b k"
  shows "a = b \<and> n = k"
proof -
  define id_of where "id_of x = (case x of None \<Rightarrow> ''header''
    | Some j \<Rightarrow> (if j = [] then ''header'' else j))" for x :: "string option"
  have "CHR ''|'' \<notin> set (id_of a)" "CHR ''|'' \<notin> set (id_of b)"
    using assms(1) by (auto simp: id_of_def split: option.splits)
  moreover have "id_of a @ CHR ''|'' # show_nat n = id_of b @ CHR ''|'' # show_nat k"
    using assms(2) by (simp add: journal_frame_aad_def id_of_def)
  ultimately have e: "id_of a = id_of b" "show_nat n = show_nat k"
    by (auto dest: bar_free_split)
  moreover have "a = b"
    using e(1) assms(1) by (auto simp: id_of_def split: option.splits if_splits)
  ultimately show ?thesis by (auto dest: show_nat_inject)
qed

theorem journal_frame_aad_injective_witness:
  "(Some ''ab'' = (Some ''ab'' :: string option) \<and> (7 :: nat) = 7)"
  by (rule journal_frame_aad_injective) (auto simp: journal_frame_aad_def)

section \<open>The reader\<close>

text \<open>
  A cipher is \<^verbatim>\<open>AESGCM(key).decrypt(nonce, ciphertext, aad)\<close>, \<open>None\<close> standing for
  every exception; a decoder is \<^verbatim>\<open>decode_entry\<close>, \<open>None\<close> standing for
  \<^verbatim>\<open>JournalFormatError\<close>.
\<close>

type_synonym cipher = "bytes \<Rightarrow> bytes \<Rightarrow> string \<Rightarrow> bytes option"
type_synonym 'j decoder = "bytes \<Rightarrow> 'j journal_entry option"

definition AT_REST_NONCE_BYTES :: nat where "AT_REST_NONCE_BYTES = 12"

definition decrypt_body :: "cipher option \<Rightarrow> nat \<Rightarrow> bytes \<Rightarrow> string option \<Rightarrow> bytes option" where
  "decrypt_body cipher sequence body journal_id =
     (case cipher of
        None \<Rightarrow> Some body
      | Some decrypt \<Rightarrow>
          (if length body \<le> AT_REST_NONCE_BYTES then None
           else if sequence > 1 \<and> journal_id = None then None
           else decrypt (take AT_REST_NONCE_BYTES body) (drop AT_REST_NONCE_BYTES body)
                  (journal_frame_aad (if sequence = 1 then None else journal_id) sequence)))"

record 'j reader_state =
  rs_decoded :: "'j journal_entry list"
  rs_journal_id :: "string option"
  rs_finalize_sequence :: "nat option"

definition initial_reader :: "'j reader_state" where
  "initial_reader = \<lparr>rs_decoded = [], rs_journal_id = None, rs_finalize_sequence = None\<rparr>"

text \<open>The closure \<^verbatim>\<open>open_body\<close> of \<^verbatim>\<open>JournalReader.read_bytes\<close>.\<close>

definition open_entry :: "'j decoder \<Rightarrow> cipher option \<Rightarrow> 'j reader_state opener" where
  "open_entry decode cipher s sequence body =
     (if rs_finalize_sequence s \<noteq> None then (None, s)
      else case decrypt_body cipher sequence body (rs_journal_id s) of
        None \<Rightarrow> (None, s)
      | Some plaintext \<Rightarrow>
          (case decode plaintext of
             None \<Rightarrow> (None, s)
           | Some e \<Rightarrow>
               let s' = s\<lparr>rs_decoded := rs_decoded s @ [e],
                           rs_finalize_sequence := (if is_finalize e then Some sequence else None)\<rparr>
               in if sequence = 1 then
                    (case e of
                       Open_Entry h \<Rightarrow>
                         (if jo_version h \<noteq> JOURNAL_FORMAT_VERSION then (None, s)
                          else (Some plaintext, s'\<lparr>rs_journal_id := Some (jo_journal_id h)\<rparr>))
                     | _ \<Rightarrow> (None, s))
                  else if is_open e then (None, s)
                  else (Some plaintext, s')))"

datatype replay_stop = After_Finalize | Scan_Stop stop

record 'j journal_replay =
  rp_header :: journal_open
  rp_entries :: "'j journal_entry list"
  rp_last_sequence :: nat
  rp_torn_tail_bytes :: nat
  rp_stop_reason :: "replay_stop option"
  rp_total_bytes :: nat

definition replay_finalize :: "'j journal_replay \<Rightarrow> 'j journal_finalize option" where
  "replay_finalize r =
     (case rev (rp_entries r) of Finalize_Entry f # _ \<Rightarrow> Some f | _ \<Rightarrow> None)"

definition close_observed :: "'j journal_replay \<Rightarrow> bool" where
  "close_observed r = (replay_finalize r \<noteq> None)"

text \<open>\<open>None\<close> is \<^verbatim>\<open>JournalUnreadableError\<close>.\<close>

definition read_journal ::
  "'j decoder \<Rightarrow> cipher option \<Rightarrow> nat \<Rightarrow> bytes \<Rightarrow> 'j journal_replay option" where
  "read_journal decode cipher max_frame_bytes data =
     (case scan_frames data max_frame_bytes (Some (open_entry decode cipher)) 1 initial_reader of
        (scan, s) \<Rightarrow>
          (case rs_decoded s of
             Open_Entry header # entries \<Rightarrow>
               Some \<lparr>rp_header = header, rp_entries = entries,
                     rp_last_sequence = last_sequence scan,
                     rp_torn_tail_bytes = fs_torn scan,
                     rp_stop_reason =
                       (if rs_finalize_sequence s \<noteq> None \<and> fs_torn scan > 0 then Some After_Finalize
                        else map_option Scan_Stop (fs_stop scan)),
                     rp_total_bytes = length data\<rparr>
           | _ \<Rightarrow> None))"

datatype journal_state = State_Finalized | State_Open | State_Unreadable

record journal_summary =
  sm_journal_id :: "string option"
  sm_session_id :: "string option"
  sm_bundle_id :: "string option"
  sm_state :: journal_state
  sm_last_sequence :: nat
  sm_torn_tail_bytes :: nat
  sm_total_bytes :: nat

text \<open>
  \<open>summarize\<close> takes what reading the file gave (\<open>None\<close> is an \<^verbatim>\<open>OSError\<close>) and the
  size \<^verbatim>\<open>stat\<close> reports (0 where there is no file).
\<close>

definition summarize ::
  "'j decoder \<Rightarrow> cipher option \<Rightarrow> nat \<Rightarrow> bytes option \<Rightarrow> nat \<Rightarrow> journal_summary" where
  "summarize decode cipher max_frame_bytes contents size_on_disk =
     (case Option.bind contents (read_journal decode cipher max_frame_bytes) of
        None \<Rightarrow> \<lparr>sm_journal_id = None, sm_session_id = None, sm_bundle_id = None,
                 sm_state = State_Unreadable, sm_last_sequence = 0,
                 sm_torn_tail_bytes = size_on_disk, sm_total_bytes = size_on_disk\<rparr>
      | Some r \<Rightarrow> \<lparr>sm_journal_id = Some (jo_journal_id (rp_header r)),
                   sm_session_id = Some (jo_session_id (rp_header r)),
                   sm_bundle_id = Some (jo_bundle_id (rp_header r)),
                   sm_state = (if close_observed r then State_Finalized else State_Open),
                   sm_last_sequence = rp_last_sequence r,
                   sm_torn_tail_bytes = rp_torn_tail_bytes r,
                   sm_total_bytes = rp_total_bytes r\<rparr>)"

section \<open>What a journal's entries look like\<close>

text \<open>
  The shape of an entry list: one header of a supported version first, and nothing after a
  finalize entry.
\<close>

definition journal_shape :: "'j journal_entry list \<Rightarrow> bool" where
  "journal_shape es =
     (case es of
        Open_Entry h # rest \<Rightarrow>
          jo_version h = JOURNAL_FORMAT_VERSION \<and> (\<forall>e \<in> set rest. \<not> is_open e)
          \<and> (\<forall>e \<in> set (butlast rest). \<not> is_finalize e)
      | _ \<Rightarrow> False)"

lemma journal_shape_cases:
  assumes "journal_shape es"
  obtains h rest where "es = Open_Entry h # rest" "jo_version h = JOURNAL_FORMAT_VERSION"
    "\<forall>e \<in> set rest. \<not> is_open e" "\<forall>e \<in> set (butlast rest). \<not> is_finalize e"
  using assms by (auto simp: journal_shape_def split: list.splits journal_entry.splits)

lemma journal_shape_snoc:
  assumes "journal_shape es" "\<not> is_finalize (last es)" "\<not> is_open e"
  shows "journal_shape (es @ [e])"
proof -
  from assms(1) obtain h rest where es: "es = Open_Entry h # rest"
    and v: "jo_version h = JOURNAL_FORMAT_VERSION" and o: "\<forall>e \<in> set rest. \<not> is_open e"
    and f: "\<forall>e \<in> set (butlast rest). \<not> is_finalize e" by (rule journal_shape_cases)
  have "\<forall>e \<in> set rest. \<not> is_finalize e"
    using f assms(2) es by (cases rest rule: rev_cases) auto
  with es v o assms(3) show ?thesis by (auto simp: journal_shape_def)
qed

lemma journal_shape_prefix:
  assumes "journal_shape es" "prefix es' es" "es' \<noteq> []"
  shows "journal_shape es'"
proof -
  from assms(1) obtain h rest where es: "es = Open_Entry h # rest"
    and v: "jo_version h = JOURNAL_FORMAT_VERSION" and o: "\<forall>e \<in> set rest. \<not> is_open e"
    and f: "\<forall>e \<in> set (butlast rest). \<not> is_finalize e" by (rule journal_shape_cases)
  from assms(2,3) es obtain r where r: "es' = Open_Entry h # r" "prefix r rest"
    by (cases es') auto
  from r(2) obtain t where t: "rest = r @ t" by (auto simp: prefix_def)
  have "set (butlast r) \<subseteq> set (butlast rest)"
    unfolding t by (cases t) (auto simp: butlast_append dest: in_set_butlastD)
  with f o v r t show ?thesis by (auto simp: journal_shape_def)
qed

text \<open>The invariant of the reader's closure after \<open>n - 1\<close> accepted frames.\<close>

definition reader_inv :: "nat \<Rightarrow> 'j reader_state \<Rightarrow> bool" where
  "reader_inv n s \<longleftrightarrow> 1 \<le> n \<and> length (rs_decoded s) = n - 1
     \<and> (if n = 1 then rs_journal_id s = None \<and> rs_finalize_sequence s = None
        else journal_shape (rs_decoded s)
          \<and> (\<exists>h. hd (rs_decoded s) = Open_Entry h \<and> rs_journal_id s = Some (jo_journal_id h))
          \<and> (rs_finalize_sequence s \<noteq> None) = is_finalize (last (rs_decoded s)))"

lemma reader_inv_initial: "reader_inv 1 initial_reader"
  by (simp add: reader_inv_def initial_reader_def)

lemma open_entry_refused: "open_entry decode cipher s n b = (None, s') \<Longrightarrow> s' = s"
  by (auto simp: open_entry_def Let_def split: if_splits option.splits journal_entry.splits)

lemma open_entry_inv:
  assumes oe: "open_entry decode cipher s n b = (Some p, s')" and inv: "reader_inv n s"
  shows "reader_inv (n + 1) s'"
proof (cases "n = 1")
  case True
  with oe inv show ?thesis
    by (auto simp: open_entry_def Let_def reader_inv_def journal_shape_def
        split: if_splits option.splits journal_entry.splits)
next
  case False
  from oe False obtain e where e: "\<not> is_open e" "rs_finalize_sequence s = None"
    "s' = s\<lparr>rs_decoded := rs_decoded s @ [e],
            rs_finalize_sequence := (if is_finalize e then Some n else None)\<rparr>"
    by (auto simp: open_entry_def Let_def split: if_splits option.splits)
  from inv False have d: "rs_decoded s \<noteq> []" "journal_shape (rs_decoded s)"
    "\<not> is_finalize (last (rs_decoded s))" "length (rs_decoded s) = n - 1" "1 \<le> n"
    "\<exists>h. hd (rs_decoded s) = Open_Entry h \<and> rs_journal_id s = Some (jo_journal_id h)"
    using e(2) by (auto simp: reader_inv_def)
  from journal_shape_snoc [OF d(2,3) e(1)] d e(3) False show ?thesis
    by (auto simp: reader_inv_def)
qed

text \<open>An invariant of a callback holds after every run of the callback.\<close>

lemma open_run_inv:
  assumes step: "\<And>s n b p s'. f s n b = (Some p, s') \<Longrightarrow> I n s \<Longrightarrow> I (n + 1) s'"
    and stay: "\<And>s n b s'. f s n b = (None, s') \<Longrightarrow> s' = s"
  shows "open_run f n bs s = (ps, s', r) \<Longrightarrow> I n s \<Longrightarrow> I (n + length ps) s'"
proof (induction bs arbitrary: n s ps s' r)
  case (Cons b bs)
  show ?case
  proof (cases "f s n b")
    case (Pair o1 s1)
    show ?thesis
    proof (cases o1)
      case None
      with Pair Cons.prems stay show ?thesis by auto
    next
      case (Some p)
      with Pair Cons.prems(1) obtain ps' where ps: "open_run f (n + 1) bs s1 = (ps', s', r)"
        "ps = p # ps'" by (auto split: prod.splits)
      from Cons.IH [OF ps(1)] step [of s n b p s1] Pair Some Cons.prems(2) have "I (n + 1 + length ps') s'"
        by simp
      with ps(2) show ?thesis by simp
    qed
  qed
qed simp

text \<open>The scan of a journal through the reader's closure, in terms of its stored bodies.\<close>

lemma scan_entries:
  assumes "scan_frames data m (Some f) 1 s0 = (scan, s)"
  obtains bs ps r where "encode_frames m 1 bs = Inr (take (frames_size bs) data)"
    "frames_size bs \<le> length data" "bs = scanned_bodies m data 1"
    "open_run f 1 bs s0 = (ps, s, r)" "fs_frames scan = number 1 ps"
    "fs_consumed scan = frames_size (take (length ps) bs)"
    "fs_torn scan = length data - fs_consumed scan"
    "(fs_stop scan = None) = (fs_torn scan = 0)"
proof -
  obtain fs off st where l: "scan_loop m None data 1 0 [] () = ((fs, off, st), ())"
    by (metis (full_types) old.unit.exhaust prod.exhaust)
  from scan_loop_sound [OF l] obtain bs where
    bs: "fs = number 1 bs" "encode_frames m 1 bs = Inr (take off data)" "off \<le> length data"
    "case st of None \<Rightarrow> off = length data
      | Some r \<Rightarrow> off < length data \<and> frame_at m data (1 + length bs) off = Inl r"
    by auto
  have off: "off = frames_size bs" using encode_frames_length [OF bs(2)] bs(3) by simp
  obtain ps s1 r where r: "open_run f 1 bs s0 = (ps, s1, r)" by (metis prod.exhaust)
  from scan_loop_opened [of m data 1 0 "[]" bs off st f s0 ps s1 r "[]"] l bs(1) r
  have sl: "scan_loop m (Some f) data 1 0 [] s0
    = ((number 1 ps, frames_size (take (length ps) bs), if r then Some Unreadable_Body else st), s1)"
    and nr: "\<not> r \<Longrightarrow> frames_size bs = off"
    by auto
  note len = open_run_length [OF r]
  have lt: "r \<Longrightarrow> frames_size (take (length ps) bs) < length data"
  proof -
    assume r
    with len have "length ps < length bs" by simp
    then have "frames_size bs = frames_size (take (length ps) bs) + frames_size (drop (length ps) bs)"
      by (metis append_take_drop_id frames_size_simps(3))
    moreover have "0 < frames_size (drop (length ps) bs)"
      using \<open>length ps < length bs\<close> by (cases "drop (length ps) bs") (auto simp: frame_sizes)
    ultimately show ?thesis using off bs(3) by simp
  qed
  show ?thesis
  proof (rule that [of bs ps r])
    show "bs = scanned_bodies m data 1"
      using l bs(1) by (simp add: scanned_bodies_def scan_frames_def)
    show "(fs_stop scan = None) = (fs_torn scan = 0)"
      using assms sl bs(4) len lt off by (cases r) (auto simp: scan_frames_def split: option.splits)
  qed (use assms sl bs off r in \<open>auto simp: scan_frames_def\<close>)
qed

lemma last_sequence_number: "fs_frames scan = number 1 ps \<Longrightarrow> last_sequence scan = length ps"
proof -
  assume fs: "fs_frames scan = number 1 ps"
  have "ps \<noteq> [] \<Longrightarrow> fr_sequence (last (number 1 ps)) = length ps"
    by (cases ps rule: rev_cases) (auto simp: number_append)
  then show ?thesis using fs by (cases ps) (auto simp: last_sequence_def)
qed

text \<open>
  C8. Whatever the bytes on disk, a replay starts with one header of the supported version, holds no
  second header and nothing after a finalize entry; its last sequence number counts its entries, and
  a torn tail is always reported, as \<open>after_finalize\<close> when the close had been observed.
\<close>

theorem read_journal_wellformed:
  assumes "read_journal decode cipher m data = Some r"
  shows "journal_shape (Open_Entry (rp_header r) # rp_entries r)
    \<and> rp_last_sequence r = Suc (length (rp_entries r))
    \<and> (rp_stop_reason r = None) = (rp_torn_tail_bytes r = 0)
    \<and> (close_observed r \<and> rp_torn_tail_bytes r > 0 \<longrightarrow> rp_stop_reason r = Some After_Finalize)"
proof -
  obtain scan s where sc: "scan_frames data m (Some (open_entry decode cipher)) 1 initial_reader
      = (scan, s)" by (metis prod.exhaust)
  from scan_entries [OF sc] obtain bs ps rf where
    run: "open_run (open_entry decode cipher) 1 bs initial_reader = (ps, s, rf)"
    and fs: "fs_frames scan = number 1 ps"
    and stop: "(fs_stop scan = None) = (fs_torn scan = 0)" by metis
  from open_run_inv [where I = reader_inv, OF open_entry_inv open_entry_refused run reader_inv_initial]
  have inv: "reader_inv (1 + length ps) s" by simp
  from assms sc obtain h es where d: "rs_decoded s = Open_Entry h # es"
    and r: "r = \<lparr>rp_header = h, rp_entries = es, rp_last_sequence = last_sequence scan,
      rp_torn_tail_bytes = fs_torn scan,
      rp_stop_reason = (if rs_finalize_sequence s \<noteq> None \<and> fs_torn scan > 0 then Some After_Finalize
                        else map_option Scan_Stop (fs_stop scan)),
      rp_total_bytes = length data\<rparr>"
    by (auto simp: read_journal_def split: list.splits journal_entry.splits)
  from inv have len: "length (rs_decoded s) = length ps" by (simp add: reader_inv_def)
  then have "1 + length ps \<noteq> 1" using d by auto
  with inv have shape: "journal_shape (rs_decoded s)"
    and fin: "(rs_finalize_sequence s \<noteq> None) = is_finalize (last (rs_decoded s))"
    unfolding reader_inv_def by (simp_all only: if_False)
  have "close_observed r \<longrightarrow> rs_finalize_sequence s \<noteq> None"
    unfolding fin d by (cases es rule: rev_cases)
      (auto simp: close_observed_def replay_finalize_def r split: journal_entry.splits)
  with shape d r len last_sequence_number [OF fs] stop show ?thesis by auto
qed

text \<open>A concrete header, and a decoder that knows two bodies.\<close>

definition sample_header :: journal_open where
  "sample_header = \<lparr>jo_version = 1, jo_journal_id = ''ab'', jo_producer_name = ''p'',
     jo_producer_version = ''1'', jo_bundle_id = ''b'', jo_session_id = ''s'',
     jo_clock_domain_id = ''c'', jo_started_wall = 5, jo_started_mono = 7,
     jo_manual_trace_id = ''t'', jo_policy_id = ''earshot.metadata-only'', jo_policy_version = ''1'',
     jo_enabled_classes = [''metadata''], jo_governance = [], jo_max_records = 10,
     jo_max_capture_bytes = 10, jo_max_raw_otlp_bytes = 10, jo_max_value_bytes = 10\<rparr>"

definition sample_decoder :: "unit decoder" where
  "sample_decoder b =
     (if b = [0x41] then Some (Open_Entry sample_header)
      else if b = [] then Some (Exhausted_Entry REASON_JOURNAL_FULL) else None)"

definition sample_journal :: bytes where
  "sample_journal = sample_frame @ [0x1E, 0, 0, 0, 2, 0, 0, 0, 0, 0, 0, 0, 0]"

lemma encode_sample_journal: "encode_frames 16 1 [[0x41], []] = Inr sample_journal"
  by (simp add: frame_eval sample_journal_def)

lemma read_sample_journal:
  "read_journal sample_decoder None 16 (sample_journal @ [7]) =
     Some \<lparr>rp_header = sample_header, rp_entries = [Exhausted_Entry REASON_JOURNAL_FULL],
       rp_last_sequence = 2, rp_torn_tail_bytes = 1,
       rp_stop_reason = Some (Scan_Stop Truncated_Header), rp_total_bytes = 28\<rparr>"
  by (simp add: frame_eval sample_journal_def read_journal_def open_entry_def initial_reader_def
      decrypt_body_def sample_decoder_def sample_header_def JOURNAL_FORMAT_VERSION_def
      last_sequence_def)

theorem read_journal_wellformed_witness:
  "journal_shape [Open_Entry sample_header, Exhausted_Entry REASON_JOURNAL_FULL :: unit journal_entry]
   \<and> rp_last_sequence (the (read_journal sample_decoder None 16 (sample_journal @ [7]))) = 2"
  using read_journal_wellformed [OF read_sample_journal] by (simp add: read_sample_journal)

text \<open>\<open>opens_as\<close>: the stored bodies decrypt, in their slots, to these entries.\<close>

fun opens_as ::
  "'j decoder \<Rightarrow> cipher option \<Rightarrow> string \<Rightarrow> nat \<Rightarrow> bytes list \<Rightarrow> 'j journal_entry list \<Rightarrow> bool" where
  "opens_as decode cipher jid n [] es = (es = [])"
| "opens_as decode cipher jid n (b # bs) [] = False"
| "opens_as decode cipher jid n (b # bs) (e # es) =
     (Option.bind (decrypt_body cipher n b (if n = 1 then None else Some jid)) decode = Some e
      \<and> opens_as decode cipher jid (n + 1) bs es)"

lemma opens_as_length: "opens_as decode cipher jid n bs es \<Longrightarrow> length es = length bs"
  by (induction decode cipher jid n bs es rule: opens_as.induct) auto

lemma opens_as_take:
  "opens_as decode cipher jid n bs es \<Longrightarrow> opens_as decode cipher jid n (take k bs) (take k es)"
  by (induction decode cipher jid n bs es arbitrary: k rule: opens_as.induct)
     (auto simp: take_Cons split: nat.splits)

lemma open_run_tail:
  assumes "opens_as decode cipher jid n bs es" "1 < n" "rs_journal_id s = Some jid"
    "rs_finalize_sequence s = None" "\<forall>e \<in> set es. \<not> is_open e"
    "\<forall>e \<in> set (butlast es). \<not> is_finalize e"
  shows "\<exists>ps s'. open_run (open_entry decode cipher) n bs s = (ps, s', False)
    \<and> rs_decoded s' = rs_decoded s @ es"
  using assms
proof (induction bs arbitrary: n es s)
  case (Cons b bs)
  then obtain e es' where es: "es = e # es'"
    and dec: "Option.bind (decrypt_body cipher n b (Some jid)) decode = Some e"
    and tl: "opens_as decode cipher jid (n + 1) bs es'" by (cases es) auto
  let ?s = "s\<lparr>rs_decoded := rs_decoded s @ [e],
    rs_finalize_sequence := (if is_finalize e then Some n else None)\<rparr>"
  obtain p where st: "open_entry decode cipher s n b = (Some p, ?s)"
    using dec Cons.prems es by (auto simp: open_entry_def Let_def Option.bind_eq_Some_conv)
  show ?case
  proof (cases es')
    case Nil
    with tl have "bs = []" using opens_as_length by fastforce
    with st es Nil show ?thesis by simp
  next
    case (Cons e2 es2)
    then have "\<not> is_finalize e" using Cons.prems(6) es by simp
    with Cons.IH [OF tl, of ?s] Cons.prems es Cons obtain ps s' where
      "open_run (open_entry decode cipher) (n + 1) bs ?s = (ps, s', False)"
      "rs_decoded s' = rs_decoded ?s @ es'" by auto
    with st es show ?thesis by simp
  qed
qed simp

lemma open_run_journal:
  assumes "opens_as decode cipher jid 1 bs es" "journal_shape (Open_Entry h # rest)"
    "prefix es (Open_Entry h # rest)" "jid = jo_journal_id h"
  shows "\<exists>ps s'. open_run (open_entry decode cipher) 1 bs initial_reader = (ps, s', False)
    \<and> rs_decoded s' = es"
proof (cases bs)
  case Nil
  with assms(1) show ?thesis by (simp add: initial_reader_def)
next
  case (Cons b bs')
  with assms(1,3) obtain es' where es: "es = Open_Entry h # es'" and pre: "prefix es' rest"
    and dec: "Option.bind (decrypt_body cipher 1 b None) decode = Some (Open_Entry h)"
    and tl: "opens_as decode cipher jid (1 + 1) bs' es'" by (cases es) auto
  have shape: "journal_shape es"
    by (rule journal_shape_prefix [OF assms(2,3)]) (simp add: es)
  let ?s = "\<lparr>rs_decoded = [Open_Entry h], rs_journal_id = Some jid, rs_finalize_sequence = None\<rparr>"
  obtain p where st: "open_entry decode cipher initial_reader 1 b = (Some p, ?s)"
    using dec assms(2,4)
    by (auto simp: open_entry_def Let_def Option.bind_eq_Some_conv initial_reader_def journal_shape_def)
  obtain ps s' where "open_run (open_entry decode cipher) 2 bs' ?s = (ps, s', False)"
    "rs_decoded s' = [Open_Entry h] @ es'"
    using open_run_tail [OF tl, of ?s] shape es by (auto simp: journal_shape_def numeral_2_eq_2)
  with Cons st es show ?thesis by (simp add: numeral_2_eq_2)
qed

lemma read_journal_prefix:
  assumes shape: "journal_shape (Open_Entry h # rest)"
    and op: "opens_as decode cipher (jo_journal_id h) 1 bs (Open_Entry h # rest)"
    and enc: "encode_frames m 1 bs = Inr w"
  shows "(frames_within k bs = 0 \<longrightarrow> read_journal decode cipher m (take k w) = None) \<and>
    (\<forall>n. frames_within k bs = Suc n \<longrightarrow> (\<exists>r. read_journal decode cipher m (take k w) = Some r
       \<and> rp_header r = h \<and> rp_entries r = take n rest
       \<and> rp_torn_tail_bytes r = min k (length w) - frames_size (take (Suc n) bs)))"
proof -
  let ?k = "frames_within k bs"
  obtain scan s where sc: "scan_frames (take k w) m (Some (open_entry decode cipher)) 1 initial_reader
      = (scan, s)" by (metis prod.exhaust)
  from scan_entries [OF sc] obtain cs ps rf where
    cs: "cs = scanned_bodies m (take k w) 1"
    and run: "open_run (open_entry decode cipher) 1 cs initial_reader = (ps, s, rf)"
    and con: "fs_consumed scan = frames_size (take (length ps) cs)"
    and torn: "fs_torn scan = length (take k w) - fs_consumed scan" by metis
  have cs': "cs = take ?k bs"
    using scanned_bodies_truncated [OF _ enc, of k] cs by simp
  from opens_as_take [OF op, of ?k] cs'
  have "opens_as decode cipher (jo_journal_id h) 1 cs (take ?k (Open_Entry h # rest))" by simp
  from open_run_journal [OF this shape take_is_prefix refl] run
  have d: "rs_decoded s = take ?k (Open_Entry h # rest)" and nf: "\<not> rf" by auto
  from open_run_length [OF run] nf con cs'
  have "fs_consumed scan = frames_size (take ?k bs)"
    using frames_within_le [of k bs] by (simp add: min_absorb2)
  with d sc torn show ?thesis
    by (auto simp: read_journal_def min.commute)
qed

text \<open>
  C5. Crash recovery: cutting a written journal at any byte leaves a reader that replays exactly the
  entries whose frames lie wholly before the cut (no fact before the cut is lost and none is made
  up), with the rest counted as torn; only a cut inside the header frame is unreadable.
\<close>

theorem read_journal_truncated:
  assumes "journal_shape (Open_Entry h # rest)"
    and "opens_as decode cipher (jo_journal_id h) 1 bs (Open_Entry h # rest)"
    and "encode_frames m 1 bs = Inr w" and "k \<le> length w"
  shows "case frames_within k bs of
      0 \<Rightarrow> read_journal decode cipher m (take k w) = None
    | Suc n \<Rightarrow> (\<exists>r. read_journal decode cipher m (take k w) = Some r
        \<and> rp_header r = h \<and> rp_entries r = take n rest
        \<and> rp_torn_tail_bytes r = k - frames_size (take (Suc n) bs))"
  using read_journal_prefix [OF assms(1-3), of k] assms(4)
  by (auto split: nat.splits)

theorem read_journal_truncated_witness:
  "\<exists>r. read_journal sample_decoder None 16 (take 20 sample_journal) = Some r
     \<and> rp_header r = sample_header \<and> rp_entries r = [] \<and> rp_torn_tail_bytes r = 6"
proof -
  have shape: "journal_shape [Open_Entry sample_header, Exhausted_Entry REASON_JOURNAL_FULL :: unit journal_entry]"
    by (simp add: journal_shape_def sample_header_def JOURNAL_FORMAT_VERSION_def)
  have op: "opens_as sample_decoder None (jo_journal_id sample_header) 1 [[0x41], []]
      [Open_Entry sample_header, Exhausted_Entry REASON_JOURNAL_FULL]"
    by (simp add: decrypt_body_def sample_decoder_def)
  have k: "20 \<le> length sample_journal" by (simp add: sample_journal_def)
  show ?thesis
    using read_journal_truncated [OF shape op encode_sample_journal k]
    by (simp add: frame_sizes)
qed

end
