(* ===== verification/LiveTail.thy ===== *)
theory LiveTail
  imports Journal
begin

text \<open>
  One live session and the connections that follow it (\<^verbatim>\<open>live.py\<close>: \<open>LiveEvent\<close>,
  \<open>_LiveSession\<close>, \<open>Subscription\<close>): the bounded replay window, the checksum ledger, the
  retained frames, and the bounded queue of a connection. An event's payload is the JSON text the
  export gate let through, which the registry's parameters provide. Times are nanoseconds.
\<close>

section \<open>Configuration and events\<close>

record live_config =
  lc_stale_after :: int
  lc_session_ttl :: int
  lc_max_sessions :: nat
  lc_max_sessions_per_project :: nat
  lc_max_records_per_session :: nat
  lc_max_replay_bytes :: nat
  lc_max_seal_bytes :: nat
  lc_max_connections :: nat
  lc_max_connections_per_project :: nat
  lc_max_subscribers_per_session :: nat
  lc_max_queue_records :: nat
  lc_max_queue_bytes :: nat
  lc_max_frame_bytes :: nat
  lc_max_journal_records :: nat

text \<open>The checks of \<^verbatim>\<open>LiveConfig.__post_init__\<close> on the fields modelled here.\<close>

definition live_config_valid :: "live_config \<Rightarrow> bool" where
  "live_config_valid c \<longleftrightarrow> 1 \<le> lc_max_sessions c \<and> 1 \<le> lc_max_sessions_per_project c
     \<and> 1 \<le> lc_max_records_per_session c \<and> 1 \<le> lc_max_replay_bytes c \<and> 1 \<le> lc_max_seal_bytes c
     \<and> 1 \<le> lc_max_connections c \<and> 1 \<le> lc_max_connections_per_project c
     \<and> 1 \<le> lc_max_subscribers_per_session c \<and> 1 \<le> lc_max_queue_records c
     \<and> 1 \<le> lc_max_queue_bytes c \<and> 1 \<le> lc_max_frame_bytes c \<and> 1 \<le> lc_max_journal_records c
     \<and> 0 < lc_stale_after c \<and> 0 < lc_session_ttl c"

datatype event_name =
    Event_Open | Event_Record | Event_Operation_Open | Event_Limit | Event_Exhausted | Event_Finalize
  | Event_Withheld | Event_Reset | Event_Replay_Truncated | Event_Overflow | Event_End | Event_Heartbeat

text \<open>A control event has the sequence 0.\<close>

record live_event =
  le_name :: event_name
  le_journal_id :: string
  le_sequence :: nat
  le_payload :: string

text \<open>\<open>dump\<close> is the compact \<^verbatim>\<open>json.dumps\<close>: only the length of its text matters here.\<close>

definition make_event :: "(json \<Rightarrow> string) \<Rightarrow> event_name \<Rightarrow> string \<Rightarrow> nat \<Rightarrow> json \<Rightarrow> live_event" where
  "make_event dump name journal_id sequence data =
     \<lparr>le_name = name, le_journal_id = journal_id, le_sequence = sequence, le_payload = dump data\<rparr>"

definition event_id :: "live_event \<Rightarrow> string option" where
  "event_id e = (if 0 < le_sequence e then Some (le_journal_id e @ '':'' @ show_nat (le_sequence e)) else None)"

definition size_bytes :: "live_event \<Rightarrow> nat" where
  "size_bytes e = length (le_payload e)"

section \<open>A session\<close>

datatype live_source = Source_Journal | Source_Checkpoint | Source_Capture

datatype live_status = Status_Live | Status_Stale | Status_Abandoned | Status_Finalized

text \<open>
  The subscribers of a session are the identifiers of its connections in the registry; a checksum
  takes four bytes of the ledger.
\<close>

record live_session =
  ls_session_id :: string
  ls_project_id :: string
  ls_source :: live_source
  ls_header :: journal_open
  ls_open_event :: live_event
  ls_events :: "live_event list"
  ls_retained_bytes :: nat
  ls_last_sequence :: nat
  ls_observed_through :: nat
  ls_close_observed :: bool
  ls_journal_complete :: bool
  ls_last_append :: int
  ls_subscribers :: "nat list"
  ls_frames :: "bytes option"
  ls_frames_complete :: bool
  ls_checksums :: bytes

abbreviation ls_journal_id :: "live_session \<Rightarrow> string" where
  "ls_journal_id s \<equiv> jo_journal_id (ls_header s)"

definition new_session ::
  "string \<Rightarrow> string \<Rightarrow> live_source \<Rightarrow> journal_open \<Rightarrow> live_event \<Rightarrow> int \<Rightarrow> bool \<Rightarrow> live_session" where
  "new_session session_id project_id source header open_event now retain_frames =
     \<lparr>ls_session_id = session_id, ls_project_id = project_id, ls_source = source,
      ls_header = header, ls_open_event = open_event, ls_events = [], ls_retained_bytes = 0,
      ls_last_sequence = 0, ls_observed_through = 0, ls_close_observed = False,
      ls_journal_complete = True, ls_last_append = now, ls_subscribers = [],
      ls_frames = (if retain_frames then Some [] else None), ls_frames_complete = retain_frames,
      ls_checksums = []\<rparr>"

definition checksum :: "live_session \<Rightarrow> nat \<Rightarrow> nat option" where
  "checksum s sequence =
     (let offset = (sequence - 1) * CHECKSUM_SIZE
      in if sequence < 1 \<or> offset + CHECKSUM_SIZE > length (ls_checksums s) then None
         else Some (unpack32 (ls_checksums s) offset))"

definition remember_checksum :: "nat \<Rightarrow> bytes \<Rightarrow> live_session \<Rightarrow> live_session" where
  "remember_checksum sequence crc s =
     (if length (ls_checksums s) = (sequence - 1) * CHECKSUM_SIZE
      then s\<lparr>ls_checksums := ls_checksums s @ crc\<rparr> else s)"

text \<open>Dropping from the left of the replay window while it is over a bound and not a single event.\<close>

fun trim_window :: "live_config \<Rightarrow> live_event list \<Rightarrow> nat \<Rightarrow> live_event list \<times> nat" where
  "trim_window c (e # e2 # es) retained =
     (if length (e # e2 # es) > lc_max_records_per_session c \<or> retained > lc_max_replay_bytes c
      then trim_window c (e2 # es) (retained - size_bytes e)
      else (e # e2 # es, retained))"
| "trim_window c es retained = (es, retained)"

definition append_event :: "live_config \<Rightarrow> live_event \<Rightarrow> live_session \<Rightarrow> live_session" where
  "append_event c e s =
     (let (events, retained) = trim_window c (ls_events s @ [e]) (ls_retained_bytes s + size_bytes e)
      in s\<lparr>ls_events := events, ls_retained_bytes := retained,
           ls_last_sequence := max (ls_last_sequence s) (le_sequence e)\<rparr>)"

definition available_from_sequence :: "live_session \<Rightarrow> nat" where
  "available_from_sequence s =
     (case ls_events s of e # _ \<Rightarrow> le_sequence e | [] \<Rightarrow> ls_last_sequence s + 1)"

definition session_state :: "live_config \<Rightarrow> int \<Rightarrow> live_session \<Rightarrow> live_status" where
  "session_state c now s =
     (if ls_close_observed s then Status_Finalized
      else let age = now - ls_last_append s
        in if age \<ge> lc_session_ttl c then Status_Abandoned
           else if age \<ge> lc_stale_after c then Status_Stale else Status_Live)"

text \<open>\<open>tailed\<close>: a session of the journal source has its path.\<close>

definition sealable :: "live_session \<Rightarrow> bool" where
  "sealable s =
     (if ls_source s = Source_Journal then True
      else ls_frames s \<noteq> None \<and> ls_frames_complete s)"

definition retain_memory_frame :: "live_config \<Rightarrow> bytes \<Rightarrow> live_session \<Rightarrow> live_session" where
  "retain_memory_frame c frame s =
     (case ls_frames s of
        None \<Rightarrow> s
      | Some frames \<Rightarrow>
          (if length frames + length frame > lc_max_seal_bytes c
           then s\<lparr>ls_frames_complete := False, ls_frames := None\<rparr>
           else s\<lparr>ls_frames := Some (frames @ frame)\<rparr>))"

fun absorb :: "'j journal_entry \<Rightarrow> live_session \<Rightarrow> live_session" where
  "absorb (Finalize_Entry f) s =
     s\<lparr>ls_close_observed := True,
       ls_journal_complete := ls_journal_complete s \<and> jf_journal_complete f\<rparr>"
| "absorb (Exhausted_Entry r) s = s\<lparr>ls_journal_complete := False\<rparr>"
| "absorb _ s = s"

section \<open>A connection\<close>

datatype end_reason =
    End_Journal_Removed | End_Final_Artifact_Stored | End_Sealed | End_Session_Expired
  | End_Session_Superseded | End_Server_Stopping | End_Project_Deleted | End_Capture_Retry_Required

record subscription =
  sb_session_id :: string
  sb_project_id :: string
  sb_journal_id :: string
  sb_backlog :: "live_event list"
  sb_queue :: "live_event list"
  sb_queued_bytes :: nat
  sb_overflowed :: bool
  sb_end_reason :: "end_reason option"
  sb_closed :: bool
  sb_last_delivered :: nat

text \<open>The loop of \<open>offer\<close>; it stops at the first event the queue has no room for.\<close>

fun offer_loop :: "live_config \<Rightarrow> live_event list \<Rightarrow> subscription \<Rightarrow> subscription" where
  "offer_loop c [] sub = sub"
| "offer_loop c (e # es) sub =
     (if 0 < le_sequence e \<and> le_sequence e \<le> sb_last_delivered sub then offer_loop c es sub
      else if length (sb_queue sub) \<ge> lc_max_queue_records c
              \<or> sb_queued_bytes sub + size_bytes e > lc_max_queue_bytes c
        then sub\<lparr>sb_overflowed := True\<rparr>
      else offer_loop c es (sub\<lparr>sb_queue := sb_queue sub @ [e],
                                sb_queued_bytes := sb_queued_bytes sub + size_bytes e\<rparr>))"

definition offer :: "live_config \<Rightarrow> live_event list \<Rightarrow> subscription \<Rightarrow> subscription" where
  "offer c events sub =
     (if sb_overflowed sub \<or> sb_closed sub \<or> sb_end_reason sub \<noteq> None then sub
      else offer_loop c events sub)"

definition finish :: "end_reason \<Rightarrow> subscription \<Rightarrow> subscription" where
  "finish reason sub =
     (if reason = End_Project_Deleted then
        sub\<lparr>sb_end_reason := Some reason, sb_backlog := [], sb_queue := [], sb_queued_bytes := 0,
            sb_overflowed := False\<rparr>
      else if sb_end_reason sub = None then sub\<lparr>sb_end_reason := Some reason\<rparr>
      else sub)"

definition drain :: "subscription \<Rightarrow> live_event list \<times> subscription" where
  "drain sub =
     (let batch = sb_backlog sub @ sb_queue sub
      in (batch, sub\<lparr>sb_backlog := [], sb_queue := [],
            sb_queued_bytes := sb_queued_bytes sub - sum_list (map size_bytes (sb_queue sub)),
            sb_last_delivered := (case filter (\<lambda>e. 0 < le_sequence e) (rev batch) of
                e # _ \<Rightarrow> le_sequence e | [] \<Rightarrow> sb_last_delivered sub)\<rparr>))"

definition next_event :: "subscription \<Rightarrow> live_event option \<times> subscription" where
  "next_event sub =
     (case sb_backlog sub of
        e # es \<Rightarrow> (Some e, sub\<lparr>sb_backlog := es\<rparr>)
      | [] \<Rightarrow> (case sb_queue sub of
          e # es \<Rightarrow> (Some e, sub\<lparr>sb_queue := es, sb_queued_bytes := sb_queued_bytes sub - size_bytes e\<rparr>)
        | [] \<Rightarrow> (None, sub)))"

definition mark_delivered :: "live_event \<Rightarrow> subscription \<Rightarrow> subscription" where
  "mark_delivered e sub =
     (if le_sequence e = 0 then sub
      else sub\<lparr>sb_last_delivered := max (sb_last_delivered sub) (le_sequence e)\<rparr>)"

definition end_reason_value :: "end_reason \<Rightarrow> string" where
  "end_reason_value r = (case r of
       End_Journal_Removed \<Rightarrow> ''journal_removed'' | End_Final_Artifact_Stored \<Rightarrow> ''final_artifact_stored''
     | End_Sealed \<Rightarrow> ''sealed'' | End_Session_Expired \<Rightarrow> ''session_expired''
     | End_Session_Superseded \<Rightarrow> ''session_superseded'' | End_Server_Stopping \<Rightarrow> ''server_stopping''
     | End_Project_Deleted \<Rightarrow> ''project_deleted'' | End_Capture_Retry_Required \<Rightarrow> ''capture_retry_required'')"

text \<open>The note of the overflow event is fixed prose and left out.\<close>

definition terminal :: "(json \<Rightarrow> string) \<Rightarrow> bool \<Rightarrow> subscription \<Rightarrow> live_event list" where
  "terminal dump finalized sub =
     (if sb_queue sub \<noteq> [] \<or> sb_backlog sub \<noteq> [] then []
      else if sb_overflowed sub then
        [make_event dump Event_Overflow (sb_journal_id sub) 0 (JObject
           [(''reason'', JString ''subscriber_fell_behind''),
            (''last_sequence'', JNumber (int (sb_last_delivered sub))),
            (''resume_with'', JString (sb_journal_id sub @ '':'' @ show_nat (sb_last_delivered sub)))])]
      else case sb_end_reason sub of
        Some reason \<Rightarrow>
          [make_event dump Event_End (sb_journal_id sub) 0 (JObject
             [(''reason'', JString (end_reason_value reason)),
              (''last_sequence'', JNumber (int (sb_last_delivered sub))),
              (''close_observed'', JBool finalized)])]
      | None \<Rightarrow> [])"

definition sub_finished :: "subscription \<Rightarrow> bool" where
  "sub_finished sub =
     (if sb_queue sub \<noteq> [] \<or> sb_backlog sub \<noteq> [] then False
      else sb_overflowed sub \<or> sb_end_reason sub \<noteq> None)"

section \<open>Opening a connection\<close>

text \<open>
  The validated \<^verbatim>\<open>from\<close> of the query, and the cursor of the \<^verbatim>\<open>Last-Event-ID\<close> header,
  split at its first colon.
\<close>

datatype from_spec = From_Start | From_Live | From_Number nat

definition resume_cursor :: "string \<Rightarrow> nat option" where
  "resume_cursor raw =
     (if raw \<noteq> [] \<and> list_all (\<lambda>c. of_char c \<in> {48..57::nat}) raw \<and> length raw \<le> 20
      then Some (foldl (\<lambda>n c. n * 10 + (of_char c - 48)) 0 raw) else None)"

definition partition_colon :: "string \<Rightarrow> string \<times> string" where
  "partition_colon s = (takeWhile (\<lambda>c. c \<noteq> CHR '':'') s, tl (dropWhile (\<lambda>c. c \<noteq> CHR '':'') s))"

datatype reset_reason = Invalid_Resume_Cursor | Journal_Identity_Changed | Resume_Cursor_Ahead

definition reset_reason_value :: "reset_reason \<Rightarrow> string" where
  "reset_reason_value r = (case r of
       Invalid_Resume_Cursor \<Rightarrow> ''invalid_resume_cursor''
     | Journal_Identity_Changed \<Rightarrow> ''journal_identity_changed''
     | Resume_Cursor_Ahead \<Rightarrow> ''resume_cursor_ahead_of_journal'')"

text \<open>Where a connection starts: a reset to announce, or the cursor to resume after.\<close>

definition resume_point :: "live_session \<Rightarrow> string \<Rightarrow> reset_reason + nat" where
  "resume_point s last_event_id =
     (let (journal_id, raw) = partition_colon last_event_id
      in if last_event_id = [] then Inl Invalid_Resume_Cursor
         else if journal_id \<noteq> ls_journal_id s then Inl Journal_Identity_Changed
         else case resume_cursor raw of
           None \<Rightarrow> Inl Invalid_Resume_Cursor
         | Some cursor \<Rightarrow>
             if cursor < 1 then Inl Invalid_Resume_Cursor
             else if cursor > max (ls_last_sequence s) (ls_observed_through s) then Inl Resume_Cursor_Ahead
             else Inr cursor)"

text \<open>The part of \<open>subscribe\<close> after the capacity checks: the new connection.\<close>

definition open_tail ::
  "(json \<Rightarrow> string) \<Rightarrow> from_spec \<Rightarrow> string option \<Rightarrow> live_session \<Rightarrow> subscription" where
  "open_tail dump spec last_event_id s =
     (let (reset, resumed, start) =
        (case last_event_id of
           Some l \<Rightarrow> (case resume_point s l of
               Inl reason \<Rightarrow>
                 ([make_event dump Event_Reset (ls_journal_id s) 0 (JObject
                    [(''reason'', JString (reset_reason_value reason)),
                     (''previous_journal_id'',
                        if fst (partition_colon l) = [] then JNull else JString (fst (partition_colon l))),
                     (''journal_id'', JString (ls_journal_id s))])], False, 2)
             | Inr cursor \<Rightarrow> ([], True, cursor + 1))
         | None \<Rightarrow> ([], False, (case spec of
               From_Live \<Rightarrow> ls_last_sequence s + 1 | From_Number n \<Rightarrow> max 2 n | From_Start \<Rightarrow> 2)));
          available_from = max (available_from_sequence s) 2;
          ceiling = ls_last_sequence s + 1;
          first_shown = min (max start available_from) ceiling;
          withheld = (if resumed then min available_from ceiling - start else first_shown - 2);
          preamble = reset @ (if resumed then [] else [ls_open_event s])
            @ (if withheld > 0 then
                 [make_event dump Event_Replay_Truncated (ls_journal_id s) 0 (JObject
                    [(''reason'', JString (if spec = From_Live \<and> \<not> resumed then ''requested_live_only''
                                           else ''replay_window_exceeded'')),
                     (''requested_from_sequence'', JNumber (int start)),
                     (''available_from_sequence'', JNumber (int first_shown)),
                     (''withheld_records'', JNumber (int withheld))])]
               else []);
          backlog = filter (\<lambda>e. le_sequence e \<ge> max start 2) (ls_events s)
      in \<lparr>sb_session_id = ls_session_id s, sb_project_id = ls_project_id s,
          sb_journal_id = ls_journal_id s, sb_backlog = preamble @ backlog, sb_queue = [],
          sb_queued_bytes = 0, sb_overflowed = False, sb_end_reason = None, sb_closed = False,
          sb_last_delivered = max 1 (start - 1)\<rparr>)"

text \<open>Delivering events to a session and to one of its connections.\<close>

definition deliver_session :: "live_config \<Rightarrow> live_event list \<Rightarrow> live_session \<Rightarrow> live_session" where
  "deliver_session c events s = fold (append_event c) events s"

section \<open>The replay window\<close>

abbreviation sequences :: "live_event list \<Rightarrow> nat list" where
  "sequences es \<equiv> map le_sequence es"

text \<open>
  A session's window: the last events, consecutively numbered up to the last sequence, within its
  bounds unless it is a single event.
\<close>

definition window_ok :: "live_config \<Rightarrow> live_session \<Rightarrow> bool" where
  "window_ok c s \<longleftrightarrow>
     ls_events s \<noteq> [] \<and> sequences (ls_events s) = [available_from_sequence s..<Suc (ls_last_sequence s)]
     \<and> 1 \<le> available_from_sequence s
     \<and> ls_retained_bytes s = sum_list (map size_bytes (ls_events s))
     \<and> (length (ls_events s) \<le> lc_max_records_per_session c \<and> ls_retained_bytes s \<le> lc_max_replay_bytes c
        \<or> length (ls_events s) = 1)"

lemma trim_window_suffix:
  "trim_window c es r = (es', r') \<Longrightarrow> es \<noteq> [] \<Longrightarrow> r = sum_list (map size_bytes es) \<Longrightarrow>
   (\<exists>k < length es. es' = drop k es) \<and> r' = sum_list (map size_bytes es')
   \<and> (length es' \<le> lc_max_records_per_session c \<and> r' \<le> lc_max_replay_bytes c \<or> length es' = 1)"
proof (induction c es r rule: trim_window.induct)
  case (1 c e e2 es r)
  show ?case
  proof (cases "length (e # e2 # es) > lc_max_records_per_session c \<or> r > lc_max_replay_bytes c")
    case True
    with 1 obtain k where "k < length (e2 # es)" "es' = drop k (e2 # es)"
      "r' = sum_list (map size_bytes es')"
      "length es' \<le> lc_max_records_per_session c \<and> r' \<le> lc_max_replay_bytes c \<or> length es' = 1"
      by auto
    then show ?thesis by (intro conjI exI [of _ "Suc k"]) auto
  next
    case False
    with 1 show ?thesis by (intro conjI exI [of _ 0]) auto
  qed
qed auto

lemma window_first:
  assumes "ls_events s \<noteq> []" "sequences (ls_events s) = [a..<b]"
  shows "available_from_sequence s = a"
proof -
  obtain e es where "ls_events s = e # es" using assms(1) by (cases "ls_events s") auto
  with assms(2) have "[a..<b] = le_sequence e # sequences es" by simp
  with \<open>ls_events s = e # es\<close> show ?thesis
    by (simp add: available_from_sequence_def upt_eq_Cons_conv)
qed

lemma append_event_window:
  assumes "window_ok c s" and e: "le_sequence e = Suc (ls_last_sequence s)"
  shows "window_ok c (append_event c e s) \<and> ls_last_sequence (append_event c e s) = Suc (ls_last_sequence s)"
proof -
  obtain es r where t: "trim_window c (ls_events s @ [e]) (ls_retained_bytes s + size_bytes e) = (es, r)"
    by (metis prod.exhaust)
  from assms(1) have sq: "sequences (ls_events s) = [available_from_sequence s..<Suc (ls_last_sequence s)]"
    and a: "1 \<le> available_from_sequence s" and ne: "ls_events s \<noteq> []" by (auto simp: window_ok_def)
  from trim_window_suffix [OF t] assms(1) obtain k where k: "k < length (ls_events s @ [e])"
    "es = drop k (ls_events s @ [e])" "r = sum_list (map size_bytes es)"
    "length es \<le> lc_max_records_per_session c \<and> r \<le> lc_max_replay_bytes c \<or> length es = 1"
    by (auto simp: window_ok_def)
  let ?s = "append_event c e s"
  have le: "available_from_sequence s \<le> ls_last_sequence s" using sq ne by (cases "available_from_sequence s \<le> ls_last_sequence s") auto
  have "sequences (ls_events s @ [e]) = [available_from_sequence s..<Suc (Suc (ls_last_sequence s))]"
    using sq e le by simp
  then have es: "sequences es = [available_from_sequence s + k..<Suc (Suc (ls_last_sequence s))]"
    using k(2) by (metis drop_map drop_upt)
  have ne': "es \<noteq> []" using k(1,2) by simp
  with es have "available_from_sequence ?s = available_from_sequence s + k"
    using t by (intro window_first [where b = "Suc (Suc (ls_last_sequence s))"])
      (auto simp: append_event_def simp del: upt_Suc)
  with es ne' k a t e show ?thesis by (simp add: window_ok_def append_event_def)
qed

lemma deliver_session_window:
  assumes "window_ok c s" "sequences es = [Suc (ls_last_sequence s)..<Suc (ls_last_sequence s + length es)]"
  shows "window_ok c (deliver_session c es s)
    \<and> ls_last_sequence (deliver_session c es s) = ls_last_sequence s + length es"
  using assms
proof (induction es arbitrary: s)
  case (Cons e es)
  then have e: "le_sequence e = Suc (ls_last_sequence s)"
    and tl: "sequences es = [Suc (Suc (ls_last_sequence s))..<Suc (Suc (ls_last_sequence s) + length es)]"
    by (simp_all add: upt_conv_Cons del: upt_Suc)
  note w = append_event_window [OF Cons.prems(1) e]
  with Cons.IH [of "append_event c e s"] tl show ?case by (simp add: deliver_session_def)
qed (simp add: deliver_session_def)

section \<open>What a connection sees\<close>

text \<open>The journal slots after the header among some events, and the first slot a connection sees.\<close>

definition slots :: "live_event list \<Rightarrow> nat list" where
  "slots es = filter (\<lambda>n. 2 \<le> n) (sequences es)"

lemma slots_simps [simp]:
  "slots [] = []" "slots (e # es) = (if 2 \<le> le_sequence e then [le_sequence e] else []) @ slots es"
  "slots (es @ fs) = slots es @ slots fs"
  by (auto simp: slots_def)

inductive tail_step ::
  "live_config \<Rightarrow> live_session \<times> subscription \<times> live_event list
     \<Rightarrow> live_session \<times> subscription \<times> live_event list \<Rightarrow> bool" for c where
  Deliver: "sequences es = [Suc (ls_last_sequence s)..<Suc (ls_last_sequence s + length es)] \<Longrightarrow>
    tail_step c (s, sub, sent) (deliver_session c es s, offer c es sub, sent)"
| Yield: "next_event sub = (Some e, sub') \<Longrightarrow>
    tail_step c (s, sub, sent) (s, sub', sent @ [e])"
| Mark: "e \<in> set sent \<Longrightarrow> tail_step c (s, sub, sent) (s, mark_delivered e sub, sent)"
| Finish: "tail_step c (s, sub, sent) (s, finish reason sub, sent)"

definition queue_ok :: "live_config \<Rightarrow> subscription \<Rightarrow> bool" where
  "queue_ok c sub \<longleftrightarrow> length (sb_queue sub) \<le> lc_max_queue_records c
     \<and> sb_queued_bytes sub = sum_list (map size_bytes (sb_queue sub))
     \<and> sb_queued_bytes sub \<le> lc_max_queue_bytes c"

abbreviation following :: "subscription \<Rightarrow> bool" where
  "following sub \<equiv> \<not> sb_overflowed sub \<and> \<not> sb_closed sub \<and> sb_end_reason sub = None"

text \<open>Every slot from \<open>first\<close> on is sent, then queued, in order, while the connection follows.\<close>

definition stream_ok :: "nat \<Rightarrow> nat \<Rightarrow> bool \<Rightarrow> live_event list \<Rightarrow> bool" where
  "stream_ok first upto_seq follows es \<longleftrightarrow>
     (\<forall>e \<in> set es. le_sequence e \<le> upto_seq)
     \<and> prefix (slots es) [first..<Suc upto_seq]
     \<and> (follows \<longrightarrow> slots es = [first..<Suc upto_seq])"

definition tail_inv :: "live_config \<Rightarrow> nat \<Rightarrow> nat \<Rightarrow> live_session \<times> subscription \<times> live_event list \<Rightarrow> bool" where
  "tail_inv c start first = (\<lambda>(s, sub, sent).
     window_ok c s \<and> queue_ok c sub
     \<and> 2 \<le> first \<and> start \<le> first \<and> first \<le> max (max start 2) (Suc (ls_last_sequence s))
     \<and> max 1 (start - 1) \<le> sb_last_delivered sub
     \<and> sb_last_delivered sub \<le> max (max 1 (start - 1)) (ls_last_sequence s)
     \<and> stream_ok first (ls_last_sequence s) (following sub) (sent @ sb_backlog sub @ sb_queue sub))"

abbreviation unseen :: "nat \<Rightarrow> live_event list \<Rightarrow> live_event list" where
  "unseen d es \<equiv> filter (\<lambda>e. \<not> (0 < le_sequence e \<and> le_sequence e \<le> d)) es"

lemma offer_loop_spec:
  assumes "queue_ok c sub" "\<not> sb_overflowed sub"
  shows "\<exists>ks. sb_queue (offer_loop c es sub) = sb_queue sub @ ks
    \<and> prefix ks (unseen (sb_last_delivered sub) es)
    \<and> (\<not> sb_overflowed (offer_loop c es sub) \<longrightarrow> ks = unseen (sb_last_delivered sub) es)
    \<and> queue_ok c (offer_loop c es sub) \<and> sb_backlog (offer_loop c es sub) = sb_backlog sub
    \<and> sb_last_delivered (offer_loop c es sub) = sb_last_delivered sub
    \<and> sb_end_reason (offer_loop c es sub) = sb_end_reason sub
    \<and> sb_closed (offer_loop c es sub) = sb_closed sub"
  using assms
proof (induction es arbitrary: sub)
  case Nil
  then show ?case by simp
next
  case (Cons e es)
  let ?seen = "0 < le_sequence e \<and> le_sequence e \<le> sb_last_delivered sub"
  let ?full = "length (sb_queue sub) \<ge> lc_max_queue_records c
    \<or> sb_queued_bytes sub + size_bytes e > lc_max_queue_bytes c"
  consider (seen) ?seen | (full) "\<not> ?seen" ?full | (room) "\<not> ?seen" "\<not> ?full" by blast
  then show ?case
  proof cases
    case seen
    then have "offer_loop c (e # es) sub = offer_loop c es sub" by simp
    with Cons.IH [OF Cons.prems] seen show ?thesis by simp
  next
    case full
    then have "offer_loop c (e # es) sub = sub\<lparr>sb_overflowed := True\<rparr>" by (simp only: offer_loop.simps if_False if_True)
    with Cons.prems show ?thesis by (simp add: queue_ok_def)
  next
    case room
    let ?sub = "sub\<lparr>sb_queue := sb_queue sub @ [e], sb_queued_bytes := sb_queued_bytes sub + size_bytes e\<rparr>"
    have o: "offer_loop c (e # es) sub = offer_loop c es ?sub"
      using room by (simp only: offer_loop.simps if_False)
    have "queue_ok c ?sub" "\<not> sb_overflowed ?sub" using room Cons.prems by (auto simp: queue_ok_def)
    from Cons.IH [OF this] obtain ks where "sb_queue (offer_loop c es ?sub) = sb_queue ?sub @ ks"
      "prefix ks (unseen (sb_last_delivered sub) es)"
      "\<not> sb_overflowed (offer_loop c es ?sub) \<longrightarrow> ks = unseen (sb_last_delivered sub) es"
      "queue_ok c (offer_loop c es ?sub)" "sb_backlog (offer_loop c es ?sub) = sb_backlog ?sub"
      "sb_last_delivered (offer_loop c es ?sub) = sb_last_delivered ?sub"
      "sb_end_reason (offer_loop c es ?sub) = sb_end_reason ?sub"
      "sb_closed (offer_loop c es ?sub) = sb_closed ?sub" by auto
    with room show ?thesis unfolding o by (intro exI [of _ "e # ks"]) simp
  qed
qed

lemma filter_upt_from: "filter (\<lambda>q. first \<le> q) [a..<b] = [max first a..<b]"
proof (induction b)
  case (Suc b)
  then show ?case by (cases "a \<le> b") (auto simp: max_def)
qed simp

lemma upt_split_at: "first \<le> max m a \<Longrightarrow> m \<le> first \<Longrightarrow> a \<le> b \<Longrightarrow> [first..<b] = [first..<a] @ [max first a..<b]"
  using upt_add_eq_append [of first a "b - a"] by (cases "first \<le> a") (auto simp: max_def)

lemma slots_filter_new:
  assumes "sequences es = [Suc L..<Suc (L + n)]" and d: "lo \<le> d" "d \<le> max lo L"
    and f: "2 \<le> first" "first \<le> max (max start 2) (Suc L)" "start \<le> first" and lo: "lo = max 1 (start - 1)"
  shows "slots (filter (\<lambda>e. \<not> (0 < le_sequence e \<and> le_sequence e \<le> d)) es)
    = [max first (Suc L)..<Suc (L + n)]"
proof -
  have "slots (filter (\<lambda>e. \<not> (0 < le_sequence e \<and> le_sequence e \<le> d)) es)
    = filter (\<lambda>q. 2 \<le> q \<and> \<not> (0 < q \<and> q \<le> d)) (sequences es)"
    by (simp add: slots_def filter_map comp_def conj_commute)
  also have "\<dots> = filter (\<lambda>q. first \<le> q) (sequences es)"
    by (rule filter_cong) (use assms in auto)
  finally show ?thesis by (simp only: assms(1) filter_upt_from)
qed

lemma offer_keeps:
  assumes inv: "tail_inv c start first (s, sub, sent)"
    and es: "sequences es = [Suc (ls_last_sequence s)..<Suc (ls_last_sequence s + length es)]"
  shows "tail_inv c start first (deliver_session c es s, offer c es sub, sent)"
proof -
  let ?L = "ls_last_sequence s" and ?n = "length es" and ?old = "sent @ sb_backlog sub @ sb_queue sub"
  from inv have i: "window_ok c s" "queue_ok c sub" "2 \<le> first" "start \<le> first" "first \<le> max (max start 2) (Suc ?L)"
    "max 1 (start - 1) \<le> sb_last_delivered sub" "sb_last_delivered sub \<le> max (max 1 (start - 1)) ?L"
    "stream_ok first ?L (following sub) ?old"
    by (simp_all add: tail_inv_def)
  then have old: "\<forall>e \<in> set ?old. le_sequence e \<le> ?L + ?n" "prefix (slots ?old) [first..<Suc ?L]"
    by (auto simp: stream_ok_def simp del: slots_simps upt_Suc dest: trans_le_add1)
  note w = deliver_session_window [OF i(1) es]
  have split: "[first..<Suc (?L + ?n)] = [first..<Suc ?L] @ [max first (Suc ?L)..<Suc (?L + ?n)]"
    by (rule upt_split_at [of _ "max start 2"]) (use i in auto)
  have bounds: "first \<le> max (max start 2) (Suc (?L + ?n))"
    "sb_last_delivered sub \<le> max (max 1 (start - 1)) (?L + ?n)"
    using i(5,7) by linarith+
  show ?thesis
  proof (cases "following sub")
    case False
    then have o: "offer c es sub = sub" by (auto simp: offer_def)
    have "prefix (slots ?old) [first..<Suc (?L + ?n)]"
      unfolding split by (rule prefix_prefix [OF old(2)])
    with old(1) False have "stream_ok first (?L + ?n) (following sub) ?old"
      unfolding stream_ok_def by blast
    with o i(2-6) w bounds show ?thesis by (simp add: tail_inv_def)
  next
    case True
    then have o: "offer c es sub = offer_loop c es sub" by (simp add: offer_def)
    from True offer_loop_spec [OF i(2), of es] obtain ks where
      ks: "sb_queue (offer_loop c es sub) = sb_queue sub @ ks"
      "prefix ks (unseen (sb_last_delivered sub) es)"
      "\<not> sb_overflowed (offer_loop c es sub) \<longrightarrow> ks = unseen (sb_last_delivered sub) es"
      "queue_ok c (offer_loop c es sub)" "sb_backlog (offer_loop c es sub) = sb_backlog sub"
      "sb_last_delivered (offer_loop c es sub) = sb_last_delivered sub"
      "sb_end_reason (offer_loop c es sub) = None" "\<not> sb_closed (offer_loop c es sub)" by auto
    have new: "slots (unseen (sb_last_delivered sub) es) = [max first (Suc ?L)..<Suc (?L + ?n)]"
      by (rule slots_filter_new [OF es i(6,7,3,5,4) refl])
    from ks(2) obtain zs where "unseen (sb_last_delivered sub) es = ks @ zs" by (auto simp: prefix_def)
    then have pks: "prefix (slots ks) [max first (Suc ?L)..<Suc (?L + ?n)]"
      unfolding new [symmetric] by simp
    have sub: "set ks \<subseteq> set es"
      using set_mono_prefix [OF ks(2)] filter_is_subset by fastforce
    have "le_sequence e \<le> ?L + ?n" if "e \<in> set es" for e
    proof -
      from that have "le_sequence e \<in> set (sequences es)" by simp
      then show ?thesis unfolding es by auto
    qed
    with sub have b: "\<forall>e \<in> set ks. le_sequence e \<le> ?L + ?n" by blast
    have "slots ?old = [first..<Suc ?L]" using True i(8) by (simp add: stream_ok_def)
    then have all: "slots (?old @ ks) = [first..<Suc ?L] @ slots ks" by simp
    have "prefix (slots (?old @ ks)) [first..<Suc (?L + ?n)]"
      unfolding all split using pks by simp
    moreover have "slots (?old @ ks) = [first..<Suc (?L + ?n)]" if "\<not> sb_overflowed (offer_loop c es sub)"
      unfolding all split using ks(3) new that by simp
    moreover have "\<forall>e \<in> set (?old @ ks). le_sequence e \<le> ?L + ?n"
      using b old(1) unfolding set_append by blast
    ultimately have "stream_ok first (?L + ?n) (following (offer_loop c es sub)) (?old @ ks)"
      unfolding stream_ok_def by blast
    with i(3-6) w ks bounds show ?thesis unfolding o tail_inv_def by simp
  qed
qed

lemma stream_ok_weaken: "stream_ok first L f es \<Longrightarrow> (f' \<longrightarrow> f) \<Longrightarrow> stream_ok first L f' es"
  by (auto simp: stream_ok_def)

lemma stream_ok_cut: "stream_ok first L f (es @ fs) \<Longrightarrow> stream_ok first L False es"
  by (auto simp: stream_ok_def simp del: upt_Suc dest: append_prefixD)

lemma tail_step_keeps:
  assumes "tail_step c x y" and "tail_inv c start first x"
  shows "tail_inv c start first y"
  using assms
proof (induction rule: tail_step.induct)
  case (Deliver es s sub sent)
  from offer_keeps [OF Deliver(2,1)] show ?case .
next
  case (Yield sub e sub' s sent)
  then have "sent @ sb_backlog sub @ sb_queue sub = (sent @ [e]) @ sb_backlog sub' @ sb_queue sub'"
    "queue_ok c sub \<Longrightarrow> queue_ok c sub'" "sb_last_delivered sub' = sb_last_delivered sub"
    "following sub' \<longleftrightarrow> following sub"
    by (auto simp: next_event_def queue_ok_def split: list.splits)
  with Yield(2) show ?case unfolding tail_inv_def by simp
next
  case (Mark e sent s sub)
  then have "le_sequence e \<le> ls_last_sequence s" by (auto simp: tail_inv_def stream_ok_def)
  with Mark(2) show ?case
    unfolding tail_inv_def mark_delivered_def queue_ok_def by auto
next
  case (Finish s sub sent reason)
  then have "stream_ok first (ls_last_sequence s) False sent"
    unfolding tail_inv_def by (auto dest: stream_ok_cut)
  moreover from Finish have "stream_ok first (ls_last_sequence s) False (sent @ sb_backlog sub @ sb_queue sub)"
    unfolding tail_inv_def by (auto elim: stream_ok_weaken)
  ultimately show ?case using Finish
    unfolding tail_inv_def finish_def queue_ok_def by (auto elim: stream_ok_weaken)
qed

section \<open>Where a connection starts\<close>

text \<open>The first slot asked for, and the first one a new connection is given.\<close>

definition tail_start :: "from_spec \<Rightarrow> string option \<Rightarrow> live_session \<Rightarrow> nat" where
  "tail_start spec last_event_id s =
     (case last_event_id of
        Some l \<Rightarrow> (case resume_point s l of Inl _ \<Rightarrow> 2 | Inr cursor \<Rightarrow> cursor + 1)
      | None \<Rightarrow> (case spec of From_Live \<Rightarrow> ls_last_sequence s + 1 | From_Number n \<Rightarrow> max 2 n | From_Start \<Rightarrow> 2))"

definition tail_first :: "from_spec \<Rightarrow> string option \<Rightarrow> live_session \<Rightarrow> nat" where
  "tail_first spec last_event_id s =
     max (tail_start spec last_event_id s) (max (available_from_sequence s) 2)"

lemma slots_window:
  assumes "window_ok c s"
  shows "slots (filter (\<lambda>e. le_sequence e \<ge> max start 2) (ls_events s))
    = [max start (max (available_from_sequence s) 2)..<Suc (ls_last_sequence s)]"
proof -
  have "slots (filter (\<lambda>e. le_sequence e \<ge> max start 2) (ls_events s))
      = filter (\<lambda>q. max start 2 \<le> q) (sequences (ls_events s))"
    by (simp add: slots_def filter_map comp_def)
  also have "\<dots> = [max (max start 2) (available_from_sequence s)..<Suc (ls_last_sequence s)]"
    using assms by (simp only: window_ok_def filter_upt_from)
  finally show ?thesis by (simp add: max.commute max.left_commute)
qed

lemma window_available: "window_ok c s \<Longrightarrow> available_from_sequence s \<le> ls_last_sequence s"
  by (cases "available_from_sequence s \<le> ls_last_sequence s") (auto simp: window_ok_def)

lemma open_tail_fields:
  "sb_queue (open_tail dump spec l s) = [] \<and> sb_queued_bytes (open_tail dump spec l s) = 0
   \<and> following (open_tail dump spec l s)
   \<and> sb_last_delivered (open_tail dump spec l s) = max 1 (tail_start spec l s - 1)
   \<and> (\<exists>pre. sb_backlog (open_tail dump spec l s)
        = pre @ filter (\<lambda>e. le_sequence e \<ge> max (tail_start spec l s) 2) (ls_events s)
      \<and> set pre \<subseteq> {ls_open_event s} \<union> {e. le_sequence e = 0})"
  by (simp add: open_tail_def tail_start_def Let_def split: option.splits sum.splits)
     (auto simp: make_event_def)

lemma open_tail_inv:
  assumes w: "window_ok c s" and o: "le_sequence (ls_open_event s) = 1"
  shows "tail_inv c (tail_start spec l s) (tail_first spec l s) (s, open_tail dump spec l s, [])"
proof -
  let ?sub = "open_tail dump spec l s"
  note a = window_available [OF w]
  from w have one: "1 \<le> ls_last_sequence s" using a by (auto simp: window_ok_def)
  obtain pre where pre: "sb_backlog ?sub = pre @ filter (\<lambda>e. le_sequence e \<ge> max (tail_start spec l s) 2) (ls_events s)"
    "set pre \<subseteq> {ls_open_event s} \<union> {e. le_sequence e = 0}"
    using open_tail_fields [of dump spec l s] by blast
  from pre(2) o have "slots pre = []" by (force simp: slots_def filter_empty_conv)
  with pre(1) slots_window [OF w, of "tail_start spec l s"]
  have sl: "slots (sb_backlog ?sub) = [tail_first spec l s..<Suc (ls_last_sequence s)]"
    by (simp add: tail_first_def del: upt_Suc)
  have "le_sequence e \<le> ls_last_sequence s" if "e \<in> set (ls_events s)" for e
  proof -
    from that have "le_sequence e \<in> set (sequences (ls_events s))" by simp
    with w a show ?thesis by (auto simp: window_ok_def)
  qed
  with pre o one have "\<forall>e \<in> set (sb_backlog ?sub). le_sequence e \<le> ls_last_sequence s" by auto
  with sl have "stream_ok (tail_first spec l s) (ls_last_sequence s) (following ?sub) (sb_backlog ?sub)"
    by (simp add: stream_ok_def del: upt_Suc)
  with w a open_tail_fields [of dump spec l s] show ?thesis
    by (auto simp: tail_inv_def queue_ok_def tail_first_def)
qed

lemma tail_run_inv:
  assumes "(tail_step c)\<^sup>*\<^sup>* x y" "tail_inv c start first x"
  shows "tail_inv c start first y"
  using assms by (induction rule: rtranclp_induct) (auto intro: tail_step_keeps)

section \<open>Properties\<close>

text \<open>
  C6. A live tail never skips silently: from the first slot it is given, a connection is sent every
  journal slot once and in order, whatever interleaving of deliveries, sends and endings; and when it
  is still following and has nothing pending, it has been sent every slot the session holds up to its
  last. What it has queued stays within its bounds.
\<close>

theorem tail_is_gap_free:
  assumes "window_ok c s0" and "le_sequence (ls_open_event s0) = 1"
    and "(tail_step c)\<^sup>*\<^sup>* (s0, open_tail dump spec l s0, []) (s, sub, sent)"
  shows "prefix (slots sent) [tail_first spec l s0..<Suc (ls_last_sequence s)]
    \<and> (following sub \<and> sb_backlog sub = [] \<and> sb_queue sub = [] \<longrightarrow>
         slots sent = [tail_first spec l s0..<Suc (ls_last_sequence s)])
    \<and> length (sb_queue sub) \<le> lc_max_queue_records c
    \<and> sum_list (map size_bytes (sb_queue sub)) \<le> lc_max_queue_bytes c"
proof -
  from tail_run_inv [OF assms(3) open_tail_inv [OF assms(1,2)]]
  have inv: "tail_inv c (tail_start spec l s0) (tail_first spec l s0) (s, sub, sent)" .
  then have "stream_ok (tail_first spec l s0) (ls_last_sequence s) (following sub)
      (sent @ sb_backlog sub @ sb_queue sub)" and q: "queue_ok c sub"
    by (simp_all add: tail_inv_def)
  with stream_ok_cut [OF this(1)] show ?thesis
    by (auto simp: stream_ok_def queue_ok_def simp del: upt_Suc)
qed

text \<open>A session with four slots and a window of two events.\<close>

definition sample_live_config :: live_config where
  "sample_live_config = \<lparr>lc_stale_after = 30, lc_session_ttl = 900, lc_max_sessions = 2,
     lc_max_sessions_per_project = 2, lc_max_records_per_session = 2, lc_max_replay_bytes = 100,
     lc_max_seal_bytes = 100, lc_max_connections = 8, lc_max_connections_per_project = 4,
     lc_max_subscribers_per_session = 4, lc_max_queue_records = 1, lc_max_queue_bytes = 100,
     lc_max_frame_bytes = 16, lc_max_journal_records = 100\<rparr>"

definition sample_event :: "event_name \<Rightarrow> nat \<Rightarrow> live_event" where
  "sample_event name n = \<lparr>le_name = name, le_journal_id = ''ab'', le_sequence = n, le_payload = ''x''\<rparr>"

definition sample_live :: live_session where
  "sample_live = deliver_session sample_live_config
     [sample_event Event_Open 1, sample_event Event_Record 2, sample_event Event_Record 3,
      sample_event Event_Record 4]
     (new_session ''s'' ''p'' Source_Checkpoint sample_header (sample_event Event_Open 1) 0 True)"

lemma sample_live_eval:
  "ls_events sample_live = [sample_event Event_Record 3, sample_event Event_Record 4]"
  "ls_last_sequence sample_live = 4" "ls_open_event sample_live = sample_event Event_Open 1"
  "ls_retained_bytes sample_live = 2" "ls_header sample_live = sample_header"
  by (simp_all add: sample_live_def deliver_session_def append_event_def new_session_def
      sample_live_config_def sample_event_def size_bytes_def)

lemma sample_live_window: "window_ok sample_live_config sample_live"
  by (simp add: window_ok_def available_from_sequence_def sample_live_eval sample_event_def
      sample_live_config_def size_bytes_def upt_conv_Cons)

theorem tail_is_gap_free_witness:
  "prefix (slots [sample_event Event_Open 1]) [3..<Suc 4]"
proof -
  let ?s = "sample_live" and ?o = "sample_event Event_Open 1"
  let ?sub = "open_tail (\<lambda>j. ''x'') From_Start None ?s"
  have first: "tail_first From_Start None ?s = 3"
    by (simp add: tail_first_def tail_start_def available_from_sequence_def sample_live_eval sample_event_def)
  have "fst (next_event ?sub) = Some ?o"
    by (simp add: open_tail_def next_event_def sample_live_eval Let_def)
  then obtain sub' where "next_event ?sub = (Some ?o, sub')" by (cases "next_event ?sub") auto
  then have "tail_step sample_live_config (?s, ?sub, []) (?s, sub', [] @ [?o])" by (rule tail_step.Yield)
  then have run: "(tail_step sample_live_config)\<^sup>*\<^sup>* (?s, ?sub, []) (?s, sub', [?o])" by simp
  have "le_sequence (ls_open_event ?s) = 1" by (simp add: sample_live_eval sample_event_def)
  from tail_is_gap_free [OF sample_live_window this run] show ?thesis
    by (simp only: first sample_live_eval)
qed

lemma resumed_backlog:
  assumes "l = Some i" "resume_point s i = Inr cursor"
  shows "\<exists>mid P. sb_backlog (open_tail dump spec l s) = mid @ filter P (ls_events s)
    \<and> (\<forall>e \<in> set mid. le_name e = Event_Replay_Truncated)
    \<and> (mid \<noteq> [] \<longleftrightarrow> 0 < min (max (available_from_sequence s) 2) (Suc (ls_last_sequence s)) - Suc cursor)"
  using assms
  by (intro exI conjI, simp only: open_tail_def Let_def option.case sum.case prod.case subscription.select_convs
        append_Nil if_True) (auto simp: make_event_def)

lemma fresh_backlog:
  assumes "\<not> (\<exists>i cursor. l = Some i \<and> resume_point s i = Inr cursor)"
  shows "\<exists>pre mid P. sb_backlog (open_tail dump spec l s)
      = pre @ [ls_open_event s] @ mid @ filter P (ls_events s)
    \<and> (\<forall>e \<in> set pre. le_name e = Event_Reset) \<and> (\<forall>e \<in> set mid. le_name e = Event_Replay_Truncated)
    \<and> (mid \<noteq> [] \<longleftrightarrow> 0 < min (max (tail_start spec l s) (max (available_from_sequence s) 2))
          (Suc (ls_last_sequence s)) - 2)"
proof (cases l)
  case None
  then show ?thesis
    by (intro exI [of _ "[]"] exI conjI, simp only: open_tail_def Let_def option.case prod.case
          subscription.select_convs append_Nil append_Cons append_assoc if_False)
       (auto simp: make_event_def tail_start_def)
next
  case (Some i)
  with assms obtain reason where r: "resume_point s i = Inl reason" by (cases "resume_point s i") auto
  let ?reset = "make_event dump Event_Reset (ls_journal_id s) 0 (JObject
    [(''reason'', JString (reset_reason_value reason)),
     (''previous_journal_id'',
        if fst (partition_colon i) = [] then JNull else JString (fst (partition_colon i))),
     (''journal_id'', JString (ls_journal_id s))])"
  show ?thesis
    unfolding Some
    by (intro exI [of _ "[?reset]"] exI conjI, simp only: open_tail_def Let_def option.case sum.case r prod.case
          subscription.select_convs append_Nil append_Cons append_assoc if_False)
       (auto simp: make_event_def tail_start_def r)
qed

text \<open>
  Absence is declared: a new connection's backlog holds a \<^verbatim>\<open>replay_truncated\<close> event exactly
  when the session has already passed a slot that the connection will not be shown, counting from
  the resumed cursor, or from the first slot after the header for a fresh connection.
\<close>

theorem truncation_is_announced:
  assumes "window_ok c s" and "\<forall>e \<in> set (ls_open_event s # ls_events s). le_name e \<noteq> Event_Replay_Truncated"
  shows "(\<exists>e \<in> set (sb_backlog (open_tail dump spec l s)). le_name e = Event_Replay_Truncated)
    \<longleftrightarrow> (\<exists>q. (if \<exists>i cursor. l = Some i \<and> resume_point s i = Inr cursor then tail_start spec l s else 2) \<le> q
          \<and> q < tail_first spec l s \<and> q \<le> ls_last_sequence s)"
proof -
  note a = window_available [OF assms(1)]
  have none: "\<not> (\<exists>e \<in> set (filter P (ls_events s)). le_name e = Event_Replay_Truncated)" for P
    using assms(2) by auto
  show ?thesis
  proof (cases "\<exists>i cursor. l = Some i \<and> resume_point s i = Inr cursor")
    case True
    then obtain i cursor where l: "l = Some i" "resume_point s i = Inr cursor" by blast
    obtain mid P where f: "sb_backlog (open_tail dump spec l s) = mid @ filter P (ls_events s)"
      "\<forall>e \<in> set mid. le_name e = Event_Replay_Truncated"
      "mid \<noteq> [] \<longleftrightarrow> 0 < min (max (available_from_sequence s) 2) (Suc (ls_last_sequence s)) - Suc cursor"
      using resumed_backlog [OF l, of dump spec] by (elim exE conjE) (rule that)
    have "(\<exists>e \<in> set (sb_backlog (open_tail dump spec l s)). le_name e = Event_Replay_Truncated)
      \<longleftrightarrow> mid \<noteq> []" using f(1,2) none [of P] by (cases mid) auto
    also have "\<dots> \<longleftrightarrow> 0 < min (max (available_from_sequence s) 2) (Suc (ls_last_sequence s)) - Suc cursor"
      by (rule f(3))
    also have "\<dots> \<longleftrightarrow> (\<exists>q. Suc cursor \<le> q \<and> q < max (Suc cursor) (max (available_from_sequence s) 2) \<and> q \<le> ls_last_sequence s)"
      by (rule iffI, rule exI [of _ "Suc cursor"]) auto
    finally show ?thesis using True l by (simp add: tail_first_def tail_start_def)
  next
    case False
    let ?n = "min (max (tail_start spec l s) (max (available_from_sequence s) 2)) (Suc (ls_last_sequence s))"
    obtain pre mid P where f: "sb_backlog (open_tail dump spec l s)
        = pre @ [ls_open_event s] @ mid @ filter P (ls_events s)"
      "\<forall>e \<in> set pre. le_name e = Event_Reset" "\<forall>e \<in> set mid. le_name e = Event_Replay_Truncated"
      "mid \<noteq> [] \<longleftrightarrow> 0 < ?n - 2"
      using fresh_backlog [OF False, of dump spec] by (elim exE conjE) (rule that)
    have "(\<exists>e \<in> set (sb_backlog (open_tail dump spec l s)). le_name e = Event_Replay_Truncated) \<longleftrightarrow> mid \<noteq> []"
      using f(1-3) none [of P] assms(2) by (cases mid) auto
    also have "\<dots> \<longleftrightarrow> 0 < ?n - 2" by (rule f(4))
    also have "\<dots> \<longleftrightarrow> (\<exists>q. 2 \<le> q \<and> q < tail_first spec l s \<and> q \<le> ls_last_sequence s)"
      unfolding tail_first_def by (rule iffI, rule exI [of _ 2]) auto
    finally show ?thesis unfolding if_not_P [OF False] .
  qed
qed

theorem truncation_is_announced_witness:
  "\<exists>e \<in> set (sb_backlog (open_tail (\<lambda>j. ''x'') From_Start None sample_live)). le_name e = Event_Replay_Truncated"
proof -
  have n: "\<forall>e \<in> set (ls_open_event sample_live # ls_events sample_live). le_name e \<noteq> Event_Replay_Truncated"
    by (simp add: sample_live_eval sample_event_def)
  have "tail_first From_Start None sample_live = 3" "2 \<le> ls_last_sequence sample_live"
    by (simp_all add: tail_first_def tail_start_def available_from_sequence_def sample_live_eval sample_event_def)
  then show ?thesis
    using truncation_is_announced [OF sample_live_window n, of "\<lambda>j. ''x''" From_Start None]
    by (auto intro: exI [of _ 2])
qed

end
