(* ===== verification/Uploader.thy ===== *)
theory Uploader
  imports Journal
begin

text \<open>
  The checkpoint uploader (\<^verbatim>\<open>checkpoint/uploader.py\<close>) and the size ladder it obeys
  (\<^verbatim>\<open>checkpoint/limits.py\<close>): planning a batch, the flush state machine and the durable
  offset marker. The backend is a state \<open>'b\<close> and a function that answers a POST; the journal file
  is what each read of it returns. The thread that calls \<open>flush\<close> in a loop is the sequence of
  flushes of a run.
\<close>

section \<open>The size ladder\<close>

definition DEFAULT_MAX_FRAME_BYTES :: nat where "DEFAULT_MAX_FRAME_BYTES = 33554432"
definition DEFAULT_MAX_JOURNAL_RECORDS :: nat where "DEFAULT_MAX_JOURNAL_RECORDS = 100000"
definition MAX_CHECKPOINT_BATCH_BYTES :: nat where "MAX_CHECKPOINT_BATCH_BYTES = 1048576"
definition MAX_CHECKPOINT_FRAME_BYTES :: nat where
  "MAX_CHECKPOINT_FRAME_BYTES = MAX_CHECKPOINT_BATCH_BYTES"
definition MAX_CHECKPOINT_FRAME_BODY_BYTES :: nat where
  "MAX_CHECKPOINT_FRAME_BODY_BYTES = MAX_CHECKPOINT_FRAME_BYTES - FRAME_OVERHEAD"
definition DEFAULT_MAX_BATCH_BYTES :: nat where "DEFAULT_MAX_BATCH_BYTES = 524288"

lemmas limit_defs = DEFAULT_MAX_FRAME_BYTES_def MAX_CHECKPOINT_BATCH_BYTES_def
  MAX_CHECKPOINT_FRAME_BYTES_def MAX_CHECKPOINT_FRAME_BODY_BYTES_def DEFAULT_MAX_BATCH_BYTES_def

section \<open>Planning a batch\<close>

text \<open>
  The plan is where the batch ends and the sequence and size of a frame that can never be sent.
\<close>

type_synonym batch_plan = "nat \<times> (nat \<times> nat) option"

function plan_loop :: "bytes \<Rightarrow> nat \<Rightarrow> nat \<Rightarrow> nat \<Rightarrow> batch_plan" where
  "plan_loop data offset budget end_at =
     (if end_at + HEADER_SIZE \<le> length data then
        if data ! end_at \<noteq> SEPARATOR then (end_at, None)
        else let len = unpack32 data (end_at + 5);
                 frame_end = end_at + HEADER_SIZE + len + CHECKSUM_SIZE;
                 size = frame_end - end_at
          in if size > MAX_CHECKPOINT_FRAME_BYTES then
               (if end_at > offset then (end_at, None)
                else (end_at, Some (unpack32 data (end_at + 1), size)))
             else if frame_end > length data then (end_at, None)
             else if frame_end - offset > budget \<and> end_at > offset then (end_at, None)
             else plan_loop data offset budget frame_end
      else (end_at, None))"
  by pat_completeness auto
termination
  by (relation "measure (\<lambda>(data, offset, budget, end_at). length data - end_at)")
     (auto simp: frame_sizes)

declare plan_loop.simps [simp del]

definition plan_batch :: "bytes \<Rightarrow> nat \<Rightarrow> nat \<Rightarrow> batch_plan" where
  "plan_batch data offset budget = plan_loop data offset budget offset"

section \<open>Asking whether the backend lost the session\<close>

text \<open>\<open>he_body\<close> is the decoded error body, \<open>None\<close> when it cannot be read as JSON. (A body cut off by
  the peer raises \<^verbatim>\<open>http.client.IncompleteRead\<close>, which the code does not catch; it is not modelled.)\<close>

record http_error =
  he_code :: int
  he_body :: "json option"

fun is_lost_issue :: "json \<Rightarrow> bool" where
  "is_lost_issue (JObject issue) \<longleftrightarrow>
     map_of issue ''path'' = Some (JArray [JString ''expected_sequence''])
     \<and> map_of issue ''message'' = Some (JString ''1'')"
| "is_lost_issue _ \<longleftrightarrow> False"

definition backend_lost_session :: "http_error \<Rightarrow> bool" where
  "backend_lost_session error =
     (if he_code error \<noteq> 409 then False
      else case he_body error of
        Some (JObject payload) \<Rightarrow>
          (case map_of payload ''error'' of
             Some (JObject problem) \<Rightarrow>
               (if map_of problem ''code'' \<noteq> Some (JString ''EARSHOT_CHECKPOINT_SEQUENCE_GAP'') then False
                else case map_of problem ''issues'' of
                  Some (JArray issues) \<Rightarrow> list_ex is_lost_issue issues
                | _ \<Rightarrow> False)
           | _ \<Rightarrow> False)
      | _ \<Rightarrow> False)"

section \<open>The uploader\<close>

datatype upload_state = Upload_Ready | Upload_Degraded | Upload_Undeliverable

datatype upload_diagnostic = Upload_Failed | Frame_Undeliverable

record uploader =
  up_offset :: nat
  up_uploaded :: nat
  up_batches :: nat
  up_state :: upload_state
  up_last_failure :: "string option"
  up_undeliverable :: "(nat \<times> nat) option"
  up_marker :: "bytes option"
  up_diagnostics :: "upload_diagnostic list"

text \<open>
  What opening the request yields: a response with a status, an HTTP error, or another exception
  (named by its type).
\<close>

datatype transport = Response nat | Refused http_error | Broke string

datatype upload_error = Upload_Http http_error | Upload_Error string

definition post_batch :: "('b \<Rightarrow> bytes \<Rightarrow> transport \<times> 'b) \<Rightarrow> 'b \<Rightarrow> bytes \<Rightarrow> upload_error option \<times> 'b" where
  "post_batch post b batch =
     (case post b batch of
        (Response status, b') \<Rightarrow> (if status \<noteq> 202 then Some (Upload_Error ''RuntimeError'') else None, b')
      | (Refused error, b') \<Rightarrow> (Some (Upload_Http error), b')
      | (Broke name, b') \<Rightarrow> (Some (Upload_Error name), b'))"

fun error_name :: "upload_error \<Rightarrow> string" where
  "error_name (Upload_Http _) = ''HTTPError''"
| "error_name (Upload_Error name) = name"

definition fail_upload :: "upload_error \<Rightarrow> uploader \<Rightarrow> uploader" where
  "fail_upload error s =
     (if up_state s \<noteq> Upload_Ready then s
      else s\<lparr>up_state := Upload_Degraded, up_last_failure := Some (error_name error),
             up_diagnostics := up_diagnostics s @ [Upload_Failed]\<rparr>)"

definition stop_at_undeliverable :: "nat \<times> nat \<Rightarrow> uploader \<Rightarrow> uploader" where
  "stop_at_undeliverable frame s =
     (if up_state s \<noteq> Upload_Ready then s
      else s\<lparr>up_state := Upload_Undeliverable, up_undeliverable := Some frame,
             up_last_failure := Some ''CheckpointFrameUndeliverable'',
             up_diagnostics := up_diagnostics s @ [Frame_Undeliverable]\<rparr>)"

text \<open>\<^verbatim>\<open>str(offset).encode("ascii")\<close>.\<close>

definition offset_text :: "nat \<Rightarrow> bytes" where
  "offset_text n = map (\<lambda>c. of_nat (of_char c)) (show_nat n)"

text \<open>\<open>persisted\<close>: no system call of the write failed. (The code ignores how many bytes \<^verbatim>\<open>os.write\<close>
  wrote; a short write of these at most twenty digits is not modelled.)\<close>

definition persist_offset :: "bool \<Rightarrow> nat \<Rightarrow> uploader \<Rightarrow> uploader" where
  "persist_offset persisted offset s =
     (if persisted then s\<lparr>up_marker := Some (offset_text offset)\<rparr> else s)"

definition acknowledge :: "bool \<Rightarrow> nat \<Rightarrow> bytes \<Rightarrow> uploader \<Rightarrow> uploader" where
  "acknowledge persisted end_at batch s =
     persist_offset persisted end_at
       (s\<lparr>up_offset := end_at, up_uploaded := up_uploaded s + length batch,
          up_batches := up_batches s + 1\<rparr>)"

text \<open>The branch of \<open>flush\<close> that replays the journal to a backend that lost the session.\<close>

definition replay_session ::
  "('b \<Rightarrow> bytes \<Rightarrow> transport \<times> 'b) \<Rightarrow> nat \<Rightarrow> bytes \<Rightarrow> bool \<Rightarrow> 'b \<Rightarrow> uploader \<Rightarrow> bool \<times> uploader \<times> 'b" where
  "replay_session post budget data persisted b s =
     (case plan_batch data 0 budget of
        (end_at, _) \<Rightarrow>
          if end_at \<le> 0 then (False, fail_upload (Upload_Error ''RuntimeError'') s, b)
          else let batch = take end_at data
            in case post_batch post b batch of
              (None, b') \<Rightarrow> (True, acknowledge persisted end_at batch s, b')
            | (Some replay_error, b') \<Rightarrow> (False, fail_upload replay_error s, b'))"

text \<open>\<open>journal\<close> is what reading the file gives: its bytes or an \<^verbatim>\<open>OSError\<close>.\<close>

definition flush ::
  "('b \<Rightarrow> bytes \<Rightarrow> transport \<times> 'b) \<Rightarrow> nat \<Rightarrow> bytes option \<Rightarrow> bool \<Rightarrow> 'b \<Rightarrow> uploader \<Rightarrow> bool \<times> uploader \<times> 'b" where
  "flush post budget journal persisted b s =
     (if up_state s \<noteq> Upload_Ready then (False, s, b)
      else case journal of
        None \<Rightarrow> (False, fail_upload (Upload_Error ''OSError'') s, b)
      | Some data \<Rightarrow>
          (let offset = up_offset s;
               (end_at, undeliverable) = plan_batch data offset budget
           in if end_at \<le> offset then
                (False, (case undeliverable of
                           Some frame \<Rightarrow> stop_at_undeliverable frame s | None \<Rightarrow> s), b)
              else let batch = take (end_at - offset) (drop offset data)
                in case post_batch post b batch of
                  (None, b1) \<Rightarrow> (True, acknowledge persisted end_at batch s, b1)
                | (Some (Upload_Http error), b1) \<Rightarrow>
                    (if offset = 0 \<or> \<not> backend_lost_session error
                     then (False, fail_upload (Upload_Http error) s, b1)
                     else replay_session post budget data persisted b1 s)
                | (Some error, b1) \<Rightarrow> (False, fail_upload error s, b1)))"

section \<open>The durable offset\<close>

text \<open>
  \<^verbatim>\<open>int(raw.decode("ascii").strip())\<close>: an optional sign, then digits with single underscores
  between them, with white space around. \<open>None\<close> is an undecodable or malformed marker. (A marker
  of more than 4300 digits is a \<^verbatim>\<open>ValueError\<close> in Python and past the journal's end here: both
  give the offset 0.)
\<close>

definition is_space :: "byte \<Rightarrow> bool" where
  "is_space c \<longleftrightarrow> c = 32 \<or> 9 \<le> unat c \<and> unat c \<le> 13 \<or> 28 \<le> unat c \<and> unat c \<le> 31"

definition is_digit :: "byte \<Rightarrow> bool" where
  "is_digit c \<longleftrightarrow> 48 \<le> unat c \<and> unat c \<le> 57"

fun parse_digits :: "nat \<Rightarrow> bytes \<Rightarrow> nat option" where
  "parse_digits acc [] = Some acc"
| "parse_digits acc (c # cs) =
     (if is_digit c then parse_digits (acc * 10 + (unat c - 48)) cs
      else if c = 95 \<and> cs \<noteq> [] \<and> is_digit (hd cs) then parse_digits acc cs
      else None)"

definition strip :: "bytes \<Rightarrow> bytes" where
  "strip cs = rev (dropWhile is_space (rev (dropWhile is_space cs)))"

definition parse_int :: "bytes \<Rightarrow> int option" where
  "parse_int raw =
     (if list_ex (\<lambda>c. 128 \<le> unat c) raw then None
      else case strip raw of
        [] \<Rightarrow> None
      | c # cs \<Rightarrow>
          (let ds = (if c = 43 \<or> c = 45 then cs else c # cs)
           in if ds = [] \<or> \<not> is_digit (hd ds) then None
              else map_option (\<lambda>n. if c = 45 then - int n else int n) (parse_digits 0 ds)))"

definition load_offset :: "bytes option \<Rightarrow> bytes option \<Rightarrow> nat" where
  "load_offset marker journal =
     (case marker of
        None \<Rightarrow> 0
      | Some raw \<Rightarrow>
          (case parse_int raw of
             None \<Rightarrow> 0
           | Some offset \<Rightarrow>
               (if offset \<le> 0 then 0
                else case journal of
                  None \<Rightarrow> 0
                | Some data \<Rightarrow>
                    (if offset > int (length data) then 0
                     else if offset < int (length data) \<and> data ! nat offset \<noteq> SEPARATOR then 0
                     else nat offset))))"

text \<open>
  A constructed uploader, over the marker an earlier one may have left beside the journal;
  \<open>readable\<close> says whether reading the marker succeeds.
\<close>

definition start_uploader :: "bytes option \<Rightarrow> bool \<Rightarrow> bytes option \<Rightarrow> uploader" where
  "start_uploader marker readable journal =
     \<lparr>up_offset = load_offset (if readable then marker else None) journal, up_uploaded = 0, up_batches = 0,
      up_state = Upload_Ready, up_last_failure = None, up_undeliverable = None,
      up_marker = marker, up_diagnostics = []\<rparr>"

section \<open>Batches end at frame boundaries\<close>

text \<open>The offset of the \<open>k\<close>-th frame boundary.\<close>

abbreviation boundary :: "bytes list \<Rightarrow> nat \<Rightarrow> nat" where
  "boundary bs k \<equiv> frames_size (take k bs)"

lemma boundary_Suc: "k < length bs \<Longrightarrow> boundary bs (Suc k) = boundary bs k + length (bs ! k) + FRAME_OVERHEAD"
  by (simp add: take_Suc_conv_app_nth)

lemma boundary_strict: "i < j \<Longrightarrow> j \<le> length bs \<Longrightarrow> boundary bs i < boundary bs j"
  using boundary_Suc [of i bs] frames_size_take_mono [of "Suc i" j bs] by (simp add: frame_sizes)

lemma boundary_inject: "i \<le> length bs \<Longrightarrow> j \<le> length bs \<Longrightarrow> boundary bs i = boundary bs j \<Longrightarrow> i = j"
  using boundary_strict [of i j bs] boundary_strict [of j i bs] by (cases i j rule: linorder_cases) auto

text \<open>What the header fields hold at a boundary of a journal that is still being written.\<close>

lemma peek_frame:
  assumes enc: "encode_frames m 1 bs = Inr w" and pre: "prefix data w" and k: "k \<le> length bs"
    and room: "boundary bs k + HEADER_SIZE \<le> length data"
  shows "k < length bs \<and> data ! boundary bs k = SEPARATOR
    \<and> unpack32 data (boundary bs k + 1) = Suc k
    \<and> unpack32 data (boundary bs k + 5) = length (bs ! k)"
proof -
  note len = encode_frames_length [OF enc]
  have "k < length bs"
    using room prefix_length_le [OF pre] len k by (cases "k = length bs") (auto simp: frame_sizes)
  then have bs: "bs = take k bs @ bs ! k # drop (Suc k) bs" by (rule id_take_nth_drop)
  with enc obtain v f x where v: "encode_frames m 1 (take k bs) = Inr v"
    and f: "encode_frame (1 + k) (bs ! k) m = Inr f" and w: "w = v @ f @ x"
    using encode_frames_append [of m 1 "take k bs" "bs ! k # drop (Suc k) bs"] \<open>k < length bs\<close>
    by (auto split: sum.splits)
  from encode_frames_length [OF v] have lv: "length v = boundary bs k" .
  from f obtain s l c where p: "pack32 (1 + k) = Some s" "pack32 (length (bs ! k)) = Some l"
    and f': "f = [SEPARATOR] @ s @ l @ bs ! k @ c" by (rule encode_frame_Inr)
  obtain rest where w': "w = data @ rest" using pre by (auto simp: prefix_def)
  have at: "take n (drop (boundary bs k + i) data) = take n (drop (length v + i) w)"
    if "i + n \<le> HEADER_SIZE" for i n using that room lv w' by simp
  have "unpack32 data (boundary bs k + 1) = unpack32 w (length v + 1)"
    "unpack32 data (boundary bs k + 5) = unpack32 w (length v + 5)"
    using at [of 1 4] at [of 5 4] by (simp_all add: unpack32_def frame_sizes)
  moreover have "unpack32 w (length v + 1) = Suc k"
    using unpack32_pack32 [OF p(1), of "v @ [SEPARATOR]" "l @ bs ! k @ c @ x"] by (simp add: w f')
  moreover have "unpack32 w (length v + 5) = length (bs ! k)"
    using unpack32_pack32 [OF p(2), of "v @ [SEPARATOR] @ s" "bs ! k @ c @ x"] p(1)
    by (simp add: w f')
  moreover have "data ! boundary bs k = SEPARATOR"
  proof -
    have "data ! boundary bs k = w ! length v"
      using w' room lv by (simp add: nth_append frame_sizes)
    then show ?thesis by (simp add: w f' nth_append)
  qed
  ultimately show ?thesis using \<open>k < length bs\<close> by simp
qed

text \<open>What a plan from the boundary \<open>k0\<close> says, when the walk has reached the boundary \<open>k\<close>.\<close>

definition plan_ok :: "bytes list \<Rightarrow> bytes \<Rightarrow> nat \<Rightarrow> nat \<Rightarrow> batch_plan \<Rightarrow> bool" where
  "plan_ok bs data budget k0 p \<longleftrightarrow>
     (\<exists>k. k0 \<le> k \<and> k \<le> length bs \<and> fst p = boundary bs k \<and> boundary bs k \<le> length data
        \<and> (k0 < k \<longrightarrow> boundary bs k - boundary bs k0 \<le> budget \<or> k = Suc k0)
        \<and> (\<forall>i. k0 \<le> i \<and> i < k \<longrightarrow> length (bs ! i) + FRAME_OVERHEAD \<le> MAX_CHECKPOINT_FRAME_BYTES)
        \<and> (case snd p of
             None \<Rightarrow> k = k0 \<longrightarrow> k0 = length bs \<or> length data < boundary bs (Suc k0)
           | Some (sequence, n) \<Rightarrow> k = k0 \<and> k0 < length bs \<and> sequence = Suc k0
               \<and> n = length (bs ! k0) + FRAME_OVERHEAD \<and> n > MAX_CHECKPOINT_FRAME_BYTES))"

lemma plan_loop_ok:
  assumes enc: "encode_frames m 1 bs = Inr w" and pre: "prefix data w"
    and "k0 \<le> k" "k \<le> length bs" "boundary bs k \<le> length data"
    and "k0 < k \<longrightarrow> boundary bs k - boundary bs k0 \<le> budget \<or> k = Suc k0"
    and "\<forall>i. k0 \<le> i \<and> i < k \<longrightarrow> length (bs ! i) + FRAME_OVERHEAD \<le> MAX_CHECKPOINT_FRAME_BYTES"
  shows "plan_ok bs data budget k0 (plan_loop data (boundary bs k0) budget (boundary bs k))"
  using assms(3-)
proof (induction "length bs - k" arbitrary: k rule: less_induct)
  case less
  let ?e = "boundary bs k"
  have gt: "?e > boundary bs k0 \<longleftrightarrow> k0 < k"
    using boundary_strict [of k0 k bs] less.prems(1,2) by (cases "k = k0") auto
  have stop: "plan_ok bs data budget k0 (?e, None)"
    if "k = k0 \<longrightarrow> k0 = length bs \<or> length data < boundary bs (Suc k0)"
    unfolding plan_ok_def using that less.prems by (intro exI [of _ k]) simp
  show ?case
  proof (cases "?e + HEADER_SIZE \<le> length data")
    case False
    have "k < length bs \<longrightarrow> length data < boundary bs (Suc k)"
      using False boundary_Suc [of k bs] by (simp add: frame_sizes)
    with False stop less.prems(2) show ?thesis by (subst plan_loop.simps) auto
  next
    case True
    from peek_frame [OF enc pre less.prems(2) True] have kl: "k < length bs"
      and peek: "data ! ?e = SEPARATOR" "unpack32 data (?e + 1) = Suc k"
        "unpack32 data (?e + 5) = length (bs ! k)" by auto
    let ?size = "length (bs ! k) + FRAME_OVERHEAD"
    have next_end: "?e + HEADER_SIZE + length (bs ! k) + CHECKSUM_SIZE = boundary bs (Suc k)"
      using boundary_Suc [OF kl] by (simp add: frame_sizes)
    have size: "boundary bs (Suc k) - ?e = ?size" using boundary_Suc [OF kl] by simp
    have ovh: "HEADER_SIZE + (n + CHECKSUM_SIZE) = n + FRAME_OVERHEAD" for n
      by (simp add: FRAME_OVERHEAD_def)
    have unfold: "plan_loop data (boundary bs k0) budget ?e =
      (if ?size > MAX_CHECKPOINT_FRAME_BYTES
         then (if k0 < k then (?e, None) else (?e, Some (Suc k, ?size)))
       else if boundary bs (Suc k) > length data then (?e, None)
       else if boundary bs (Suc k) - boundary bs k0 > budget \<and> k0 < k then (?e, None)
       else plan_loop data (boundary bs k0) budget (boundary bs (Suc k)))"
      using True peek by (subst plan_loop.simps) (simp add: Let_def next_end size gt ovh)
    consider (big) "?size > MAX_CHECKPOINT_FRAME_BYTES" "\<not> k0 < k"
      | (stay) "plan_loop data (boundary bs k0) budget ?e = (?e, None)"
          "k = k0 \<longrightarrow> k0 = length bs \<or> length data < boundary bs (Suc k0)"
      | (step) "?size \<le> MAX_CHECKPOINT_FRAME_BYTES" "boundary bs (Suc k) \<le> length data"
          "\<not> (boundary bs (Suc k) - boundary bs k0 > budget \<and> k0 < k)"
      using unfold by (auto split: if_splits)
    then show ?thesis
    proof cases
      case big
      with less.prems(1) have "k = k0" by simp
      with unfold big kl less.prems show ?thesis
        unfolding plan_ok_def by (intro exI [of _ k0]) simp
    next
      case stay
      with stop show ?thesis by simp
    next
      case step
      have "plan_ok bs data budget k0 (plan_loop data (boundary bs k0) budget (boundary bs (Suc k)))"
      proof (rule less.hyps)
        show "k0 < Suc k \<longrightarrow> boundary bs (Suc k) - boundary bs k0 \<le> budget \<or> Suc k = Suc k0"
          using step(3) less.prems(1) by auto
        show "\<forall>i. k0 \<le> i \<and> i < Suc k \<longrightarrow> length (bs ! i) + FRAME_OVERHEAD \<le> MAX_CHECKPOINT_FRAME_BYTES"
          using less.prems(5) step(1) by (auto simp: less_Suc_eq)
      qed (use kl step less.prems in auto)
      with unfold step show ?thesis by (simp add: not_less [symmetric])
    qed
  qed
qed

lemma plan_batch_ok:
  assumes "encode_frames m 1 bs = Inr w" "prefix data w" "k \<le> length bs" "boundary bs k \<le> length data"
  shows "plan_ok bs data budget k (plan_batch data (boundary bs k) budget)"
  unfolding plan_batch_def by (rule plan_loop_ok [OF assms(1,2)]) (use assms in auto)

text \<open>The bytes between two boundaries are a run of whole frames.\<close>

lemma batch_frames:
  assumes enc: "encode_frames m 1 bs = Inr w" and pre: "prefix data w" and ij: "i \<le> j" "j \<le> length bs"
    and room: "boundary bs j \<le> length data"
  shows "encode_frames m (i + 1) (drop i (take j bs))
    = Inr (take (boundary bs j - boundary bs i) (drop (boundary bs i) data))"
proof -
  let ?as = "take i bs" and ?cs = "drop i (take j bs)" and ?ds = "drop j bs"
  have bs: "bs = ?as @ ?cs @ ?ds"
    using ij by (metis append.assoc append_take_drop_id min_absorb1 take_take)
  with enc obtain v x y where v: "encode_frames m 1 ?as = Inr v"
    and x: "encode_frames m (1 + i) ?cs = Inr x" and w: "w = v @ x @ y"
    using encode_frames_append [of m 1 ?as "?cs @ ?ds"] encode_frames_append [of m "1 + i" ?cs ?ds] ij
    by (auto split: sum.splits)
  have lv: "length v = boundary bs i" by (rule encode_frames_length [OF v])
  have lx: "length x = boundary bs j - boundary bs i"
  proof -
    have "take j bs = ?as @ ?cs" using ij by (metis append_take_drop_id min_absorb1 take_take)
    then have "boundary bs j = boundary bs i + frames_size ?cs" by (metis frames_size_simps(3))
    with encode_frames_length [OF x] show ?thesis by simp
  qed
  obtain rest where "w = data @ rest" using pre by (auto simp: prefix_def)
  then have "take (length x) (drop (length v) data) = take (length x) (drop (length v) w)"
    using room lv lx by simp
  also have "\<dots> = x" by (simp add: w)
  finally show ?thesis using x lv lx by (simp add: add.commute)
qed

section \<open>The marker's text\<close>

lemma parse_digits_all:
  "list_all is_digit cs \<Longrightarrow> parse_digits acc cs = Some (foldl (\<lambda>a c. a * 10 + (unat c - 48)) acc cs)"
  by (induction cs arbitrary: acc) auto

lemma digit_byte:
  assumes "k < 10"
  shows "is_digit (of_nat (of_char (char_of (48 + k) :: char)))"
    "unat (of_nat (of_char (char_of (48 + k) :: char)) :: byte) - 48 = k"
proof -
  have "(of_char (char_of (48 + k) :: char) :: nat) = 48 + k"
    using assms by (simp only: of_char_of) simp
  moreover have "unat (of_nat (48 + k) :: byte) = 48 + k"
    unfolding unat_of_nat using assms by simp
  ultimately have "unat (of_nat (of_char (char_of (48 + k) :: char)) :: byte) = 48 + k" by simp
  with assms show "is_digit (of_nat (of_char (char_of (48 + k) :: char)))"
    "unat (of_nat (of_char (char_of (48 + k) :: char)) :: byte) - 48 = k"
    by (simp_all add: is_digit_def)
qed

lemma offset_text_digits:
  "list_all is_digit (offset_text n) \<and> offset_text n \<noteq> []
   \<and> foldl (\<lambda>a c. a * 10 + (unat c - 48)) 0 (offset_text n) = n"
proof (induction n rule: show_nat.induct)
  case (1 n)
  show ?case
  proof (cases "n < 10")
    case True
    then show ?thesis
      using digit_byte [of n] by (subst show_nat.simps | simp add: offset_text_def show_nat.simps [of n])+
  next
    case False
    then have "offset_text n = offset_text (n div 10) @ [of_nat (of_char (char_of (48 + n mod 10) :: char))]"
      by (simp add: offset_text_def show_nat.simps [of n])
    with 1 [OF False] digit_byte [of "n mod 10"] show ?thesis by simp
  qed
qed

lemma digit_not_space: "is_digit c \<Longrightarrow> \<not> is_space c"
  by (auto simp: is_digit_def is_space_def)

lemma strip_digits: "list_all is_digit cs \<Longrightarrow> strip cs = cs"
proof -
  have keep: "dropWhile is_space ds = ds" if "list_all is_digit ds" for ds
    using that by (cases ds) (auto dest: digit_not_space)
  assume "list_all is_digit cs"
  then have "list_all is_digit (rev cs)" by (simp add: list_all_iff)
  with keep keep [OF \<open>list_all is_digit cs\<close>] show ?thesis by (simp add: strip_def)
qed

lemma parse_offset_text: "parse_int (offset_text n) = Some (int n)"
proof -
  from offset_text_digits [of n] obtain c cs where cs: "offset_text n = c # cs"
    and d: "list_all is_digit (c # cs)" and v: "foldl (\<lambda>a c. a * 10 + (unat c - 48)) 0 (c # cs) = n"
    by (cases "offset_text n") auto
  from d have "\<not> list_ex (\<lambda>c. 128 \<le> unat c) (c # cs)"
    by (force simp: list_all_iff list_ex_iff is_digit_def)
  moreover from d have "c \<noteq> 43 \<and> c \<noteq> 45" by (auto simp: is_digit_def)
  ultimately show ?thesis
    using d v strip_digits [OF d] parse_digits_all [OF d, of 0] by (simp add: parse_int_def cs Let_def)
qed

lemma load_boundary:
  assumes "encode_frames m 1 bs = Inr w" "prefix data w" "k \<le> length bs"
  shows "load_offset (Some (offset_text (boundary bs k))) (Some data)
    = (if boundary bs k \<le> length data then boundary bs k else 0)"
proof -
  have "data ! boundary bs k = SEPARATOR" if "boundary bs k < length data"
  proof -
    obtain v x where v: "encode_frames m 1 (take k bs) = Inr v"
      and x: "encode_frames m (1 + length (take k bs)) (drop k bs) = Inr x" and w: "w = v @ x"
      using assms(1) encode_frames_append [of m 1 "take k bs" "drop k bs"]
      by (auto split: sum.splits)
    obtain rest where rest: "w = data @ rest" using assms(2) by (auto simp: prefix_def)
    have lv: "length v = boundary bs k" by (rule encode_frames_length [OF v])
    have "x \<noteq> []" using that w lv rest by auto
    then obtain b bs' where "drop k bs = b # bs'" using x by (cases "drop k bs") auto
    with x obtain f y where "encode_frame (1 + length (take k bs)) b m = Inr f" "x = f @ y"
      by (auto split: sum.splits)
    then have "x ! 0 = SEPARATOR" by (elim encode_frame_Inr) simp
    moreover have "data ! boundary bs k = w ! length v" using that rest lv by (simp add: nth_append)
    ultimately show ?thesis using \<open>x \<noteq> []\<close> by (simp add: w nth_append)
  qed
  then show ?thesis by (auto simp: load_offset_def parse_offset_text)
qed

section \<open>The branches of a flush\<close>

lemma flush_stopped: "up_state s \<noteq> Upload_Ready \<Longrightarrow> flush post budget journal p b s = (False, s, b)"
  by (simp add: flush_def)

lemma flush_unreadable:
  "up_state s = Upload_Ready \<Longrightarrow>
   flush post budget None p b s = (False, fail_upload (Upload_Error ''OSError'') s, b)"
  by (simp add: flush_def)

lemma flush_idle:
  "up_state s = Upload_Ready \<Longrightarrow> plan_batch data (up_offset s) budget = (e, u) \<Longrightarrow> e \<le> up_offset s \<Longrightarrow>
   flush post budget (Some data) p b s
     = (False, (case u of Some frame \<Rightarrow> stop_at_undeliverable frame s | None \<Rightarrow> s), b)"
  by (simp add: flush_def)

lemma flush_posts:
  "up_state s = Upload_Ready \<Longrightarrow> plan_batch data (up_offset s) budget = (e, u) \<Longrightarrow> \<not> e \<le> up_offset s \<Longrightarrow>
   batch = take (e - up_offset s) (drop (up_offset s) data) \<Longrightarrow> post_batch post b batch = (z, b1) \<Longrightarrow>
   flush post budget (Some data) p b s =
     (case z of
        None \<Rightarrow> (True, acknowledge p e batch s, b1)
      | Some (Upload_Http error) \<Rightarrow>
          (if up_offset s = 0 \<or> \<not> backend_lost_session error
           then (False, fail_upload (Upload_Http error) s, b1)
           else replay_session post budget data p b1 s)
      | Some error \<Rightarrow> (False, fail_upload error s, b1))"
  by (simp add: flush_def Let_def split: option.split upload_error.split)

section \<open>What a backend promises, and what the uploader makes of it\<close>

text \<open>
  The contract of the checkpoint endpoint: the backend keeps a ledger of the checksums of the frames it
  holds; a batch it accepts is a run of whole frames that agrees with the ledger and extends it
  without a gap, or starts the journal afresh; a batch it refuses changes nothing. A batch whose answer
  was lost may have been accepted.
\<close>

definition extends :: "nat \<Rightarrow> 32 word list \<Rightarrow> bytes \<Rightarrow> 32 word list \<Rightarrow> bool" where
  "extends m l batch l' \<longleftrightarrow>
     (\<exists>n cs. cs \<noteq> [] \<and> encode_frames m (Suc n) cs = Inr batch
        \<and> (n = 0 \<and> l' = map crc32 cs
           \<or> n \<le> length l \<and> l' = l @ drop (length l - n) (map crc32 cs)
               \<and> (\<forall>i < length cs. n + i < length l \<longrightarrow> l ! (n + i) = crc32 (cs ! i))))"

section \<open>Runs of an uploader\<close>

text \<open>
  The journal grows towards \<open>w\<close>; the uploader flushes, or its process restarts and a new one
  starts from the marker; the backend may change by itself (\<open>env\<close>: it restarts, or forgets the
  session).
\<close>

inductive upload_step ::
  "('b \<Rightarrow> bytes \<Rightarrow> transport \<times> 'b) \<Rightarrow> ('b \<Rightarrow> 'b \<Rightarrow> bool) \<Rightarrow> nat \<Rightarrow> bytes
     \<Rightarrow> bytes \<times> uploader \<times> 'b \<Rightarrow> bytes \<times> uploader \<times> 'b \<Rightarrow> bool"
  for post env budget w where
  Grow: "prefix data data' \<Longrightarrow> prefix data' w \<Longrightarrow>
    upload_step post env budget w (data, s, b) (data', s, b)"
| Flush: "journal = None \<or> journal = Some data \<Longrightarrow>
    flush post budget journal persisted b s = (r, s', b') \<Longrightarrow>
    upload_step post env budget w (data, s, b) (data, s', b')"
| Restart: "journal = None \<or> journal = Some data \<Longrightarrow>
    upload_step post env budget w (data, s, b) (data, start_uploader (up_marker s) readable journal, b)"
| Backend: "env b b' \<Longrightarrow> upload_step post env budget w (data, s, b) (data, s, b')"

inductive_cases upload_stepE: "upload_step post env budget w (data, s, b) (data', s', b')"

text \<open>A batch determines its frames.\<close>

lemma encode_frames_inject:
  assumes "encode_frames m (Suc n) bs = Inr w" "encode_frames m' (Suc n') cs = Inr w" "bs \<noteq> []"
  shows "n = n' \<and> bs = cs"
proof -
  let ?M = "max m m'"
  have e: "encode_frames ?M (Suc n) bs = Inr w" "encode_frames ?M (Suc n') cs = Inr w"
    using encode_frames_mono [OF assms(1), of ?M] encode_frames_mono [OF assms(2), of ?M] by auto
  obtain b bs' f x where b: "bs = b # bs'" and f: "encode_frame (Suc n) b ?M = Inr f" "w = f @ x"
    using e(1) assms(3) by (cases bs) (auto split: sum.splits)
  from f have "w \<noteq> []" using encode_frame_length [OF f(1)] by (auto simp: frame_sizes)
  then obtain c cs' g y where c: "cs = c # cs'" and g: "encode_frame (Suc n') c ?M = Inr g" "w = g @ y"
    using e(2) by (cases cs) (auto split: sum.splits)
  have seq: "unpack32 (h @ z) 1 = k" if "encode_frame k d M = Inr h" for h z k d M
    using that unpack32_pack32 [of k _ "[SEPARATOR]"]
    by (elim encode_frame_Inr) (metis append.assoc append_Cons append_Nil length_Cons list.size(3) One_nat_def)
  have "n = n'" using seq [OF f(1), of x] seq [OF g(1), of y] f(2) g(2) by simp
  moreover from this fl.scan_enc [of "Suc n" ?M bs w] fl.scan_enc [of "Suc n" ?M cs w] e
  have "bs = cs" by (simp add: journal_bytes_iff)
  ultimately show ?thesis ..
qed

locale checkpoint_sink =
  fixes post :: "'b \<Rightarrow> bytes \<Rightarrow> transport \<times> 'b"
    and ledger :: "'b \<Rightarrow> 32 word list"
    and valid :: "'b \<Rightarrow> bool"
    and m :: nat
  assumes valid_post: "valid b \<Longrightarrow> valid (snd (post b batch))"
    and accepted: "valid b \<Longrightarrow> fst (post b batch) = Response 202 \<Longrightarrow>
      extends m (ledger b) batch (ledger (snd (post b batch)))"
    and refused: "valid b \<Longrightarrow> fst (post b batch) \<noteq> Response 202 \<Longrightarrow>
      ledger (snd (post b batch)) = ledger b
      \<or> extends m (ledger b) batch (ledger (snd (post b batch)))"
begin

lemma extends_journal:
  assumes enc: "encode_frames M 1 bs = Inr w" and pre: "prefix data w"
    and ij: "i < j" "j \<le> length bs" "boundary bs j \<le> length data"
    and batch: "batch = take (boundary bs j - boundary bs i) (drop (boundary bs i) data)"
    and l: "prefix l (map crc32 bs)" and ext: "extends m l batch l'"
  shows "prefix l' (map crc32 bs) \<and> j \<le> length l'"
proof -
  from ext obtain n cs where cs: "cs \<noteq> []" "encode_frames m (Suc n) cs = Inr batch"
    and l': "n = 0 \<and> l' = map crc32 cs
      \<or> n \<le> length l \<and> l' = l @ drop (length l - n) (map crc32 cs)"
    by (auto simp: extends_def)
  have "encode_frames M (Suc i) (drop i (take j bs)) = Inr batch"
    using batch_frames [OF enc pre _ ij(2,3), of i] ij(1) batch by simp
  with cs have "n = i" and c: "cs = drop i (take j bs)" using encode_frames_inject by blast+
  from l obtain q where q: "l = take q (map crc32 bs)" "q = length l" "q \<le> length bs"
    by (metis append_eq_conv_conj length_map prefix_def prefix_length_le)
  have "l' = take (max q j) (map crc32 bs)" if "n \<le> length l" "l' = l @ drop (length l - n) (map crc32 cs)"
  proof -
    have "drop (length l - n) (map crc32 cs) = drop q (take j (map crc32 bs))"
      using that(1) q(2) \<open>n = i\<close> c by (simp add: drop_map take_map)
    with that(2) q(1) have "l' = take q (map crc32 bs) @ drop q (take j (map crc32 bs))" by simp
    then show ?thesis
      by (cases "q \<le> j") (simp_all add: max_def take_add [symmetric] drop_take min_def)
  qed
  moreover have "l' = take j (map crc32 bs)" if "n = 0" "l' = map crc32 cs"
    using that c \<open>n = i\<close> by (simp add: take_map)
  ultimately obtain k where "l' = take k (map crc32 bs)" "j \<le> k" using l' by (metis max.cobounded2 order_refl)
  then show ?thesis using ij(2) by (simp add: take_is_prefix)
qed

lemma post_batch_journal:
  assumes b: "valid b" and enc: "encode_frames M 1 bs = Inr w" and pre: "prefix data w"
    and ij: "i < j" "j \<le> length bs" "boundary bs j \<le> length data"
    and batch: "batch = take (boundary bs j - boundary bs i) (drop (boundary bs i) data)"
    and l: "prefix (ledger b) (map crc32 bs)" and p: "post_batch post b batch = (e, b')"
  shows "valid b' \<and> prefix (ledger b') (map crc32 bs) \<and> (e = None \<longrightarrow> j \<le> length (ledger b'))"
proof -
  have b': "b' = snd (post b batch)" and e: "e = None \<longleftrightarrow> fst (post b batch) = Response 202"
    using p by (auto simp: post_batch_def split: prod.splits transport.splits if_splits)
  note ext = extends_journal [OF enc pre ij batch l]
  show ?thesis
  proof (cases "e = None")
    case True
    with e accepted [OF b] ext b' valid_post [OF b] show ?thesis by simp
  next
    case False
    with e refused [OF b, of batch] ext b' valid_post [OF b] l show ?thesis by auto
  qed
qed

lemma replay_journal:
  assumes b: "valid b" and enc: "encode_frames M 1 bs = Inr w" and pre: "prefix data w"
    and l: "prefix (ledger b) (map crc32 bs)"
    and r: "replay_session post budget data persisted b s = (r, s', b')"
  shows "valid b' \<and> prefix (ledger b') (map crc32 bs)
    \<and> (if r then \<exists>k' \<le> length (ledger b'). up_offset s' = boundary bs k' \<and> 0 < k'
            \<and> up_marker s' = (if persisted then Some (offset_text (up_offset s')) else up_marker s)
       else up_offset s' = up_offset s \<and> up_marker s' = up_marker s)"
proof -
  have same: "up_offset (fail_upload e s) = up_offset s \<and> up_marker (fail_upload e s) = up_marker s"
    for e by (simp add: fail_upload_def)
  obtain e u where plan: "plan_batch data 0 budget = (e, u)" by (metis prod.exhaust)
  from plan_batch_ok [OF enc pre, of 0 budget] plan obtain i where
    i: "i \<le> length bs" "e = boundary bs i" "boundary bs i \<le> length data"
    by (auto simp: plan_ok_def)
  show ?thesis
  proof (cases "e \<le> 0")
    case True
    with r plan b l same show ?thesis by (auto simp: replay_session_def)
  next
    case False
    with i(2) have "0 < i" by (cases i) auto
    obtain z c where p: "post_batch post b (take e data) = (z, c)" by (metis prod.exhaust)
    have "valid c" "prefix (ledger c) (map crc32 bs)" "z = None \<longrightarrow> i \<le> length (ledger c)"
      using post_batch_journal [OF b enc pre \<open>0 < i\<close> i(1,3) _ l p] i(2) by auto
    with r plan False p same i(2) \<open>0 < i\<close> show ?thesis
      by (cases z) (auto simp: replay_session_def acknowledge_def persist_offset_def)
  qed
qed

text \<open>One flush, from a backend that holds a prefix of the journal.\<close>

lemma flush_journal:
  assumes b: "valid b" and enc: "encode_frames M 1 bs = Inr w"
    and data: "\<forall>data. journal = Some data \<longrightarrow> prefix data w"
    and k: "k \<le> length bs" "up_offset s = boundary bs k"
    and l: "prefix (ledger b) (map crc32 bs)"
    and fl: "flush post budget journal persisted b s = (r, s', b')"
  shows "valid b' \<and> prefix (ledger b') (map crc32 bs)
    \<and> (if r then \<exists>k' \<le> length (ledger b'). up_offset s' = boundary bs k' \<and> 0 < k'
            \<and> up_marker s' = (if persisted then Some (offset_text (up_offset s')) else up_marker s)
       else up_offset s' = up_offset s \<and> up_marker s' = up_marker s)"
proof -
  have same: "up_offset (fail_upload e s) = up_offset s \<and> up_marker (fail_upload e s) = up_marker s"
    "up_offset (stop_at_undeliverable f s) = up_offset s \<and> up_marker (stop_at_undeliverable f s) = up_marker s"
    for e f by (auto simp: fail_upload_def stop_at_undeliverable_def)
  note post = post_batch_journal [OF _ enc]
  show ?thesis
  proof (cases "up_state s = Upload_Ready \<and> journal \<noteq> None")
    case False
    then consider "up_state s \<noteq> Upload_Ready" | "up_state s = Upload_Ready" "journal = None" by blast
    then show ?thesis using fl b l same by cases (auto simp: flush_stopped flush_unreadable)
  next
    case True
    then obtain data where j: "journal = Some data" and ready: "up_state s = Upload_Ready" by auto
    with data have pre: "prefix data w" by simp
    obtain e u where plan: "plan_batch data (boundary bs k) budget = (e, u)" by (metis prod.exhaust)
    show ?thesis
    proof (cases "e \<le> boundary bs k")
      case True
      have "r = False" "b' = b"
        "s' = (case u of Some frame \<Rightarrow> stop_at_undeliverable frame s | None \<Rightarrow> s)"
        using fl j flush_idle [OF ready plan [folded k(2)], of post persisted b] k(2) True by simp_all
      with b l same show ?thesis by (cases u) auto
    next
      case False
      have kd: "boundary bs k \<le> length data"
      proof (rule ccontr)
        assume "\<not> ?thesis"
        then have "plan_batch data (boundary bs k) budget = (boundary bs k, None)"
          by (simp add: plan_batch_def plan_loop.simps)
        with plan False show False by simp
      qed
      from plan_batch_ok [OF enc pre k(1) kd, of budget] plan False obtain j' where
        j': "k \<le> j'" "j' \<le> length bs" "e = boundary bs j'" "boundary bs j' \<le> length data"
        by (auto simp: plan_ok_def)
      have kj: "k < j'" using False j'(1,3) by (cases "k = j'") auto
      let ?batch = "take (e - up_offset s) (drop (up_offset s) data)"
      obtain r1 b1 where p1: "post_batch post b ?batch = (r1, b1)" by (metis prod.exhaust)
      have one: "valid b1" "prefix (ledger b1) (map crc32 bs)" "r1 = None \<longrightarrow> j' \<le> length (ledger b1)"
        using post [OF b pre kj j'(2,4) _ l p1] k(2) j'(3) by auto
      note posted = flush_posts [OF ready plan [folded k(2)] _ refl p1, of persisted]
      show ?thesis
      proof (cases r1)
        case None
        with fl j posted k(2) False one j' kj have
          "r = True" "s' = acknowledge persisted e ?batch s" "b' = b1" by simp_all
        with None one j' kj show ?thesis
          by (auto simp: acknowledge_def persist_offset_def)
      next
        case (Some z)
        have "r = False \<and> s' = fail_upload z s \<and> b' = b1
          \<or> replay_session post budget data persisted b1 s = (r, s', b')"
          using fl j posted k(2) False Some by (cases z) (auto split: if_splits)
        then show ?thesis
        proof
          assume "r = False \<and> s' = fail_upload z s \<and> b' = b1"
          with one same show ?thesis by simp
        next
          assume r: "replay_session post budget data persisted b1 s = (r, s', b')"
          show ?thesis by (rule replay_journal [OF one(1) enc pre one(2) r])
        qed
      qed
    qed
  qed
qed

text \<open>Whatever happens, in whatever order, the backend holds a prefix of the journal.\<close>

lemma upload_run_journal:
  assumes enc: "encode_frames M 1 bs = Inr w"
    and env: "\<And>b b'. env b b' \<Longrightarrow> valid b \<Longrightarrow> valid b' \<and> (ledger b' = ledger b \<or> ledger b' = [])"
    and run: "(upload_step post env budget w)\<^sup>*\<^sup>* (data0, start_uploader None readable None, b0) (data, s, b)"
    and init: "prefix data0 w" "valid b0" "ledger b0 = []"
  shows "valid b \<and> prefix data w \<and> prefix (ledger b) (map crc32 bs)
    \<and> (\<exists>k \<le> length bs. up_offset s = boundary bs k)
    \<and> (up_marker s = None \<or> (\<exists>k \<le> length bs. up_marker s = Some (offset_text (boundary bs k))))"
    (is "?inv data s b")
  using run
proof (induction "(data, s, b)" arbitrary: data s b rule: rtranclp_induct)
  case base
  with init show ?case
    by (auto simp: start_uploader_def load_offset_def intro: exI [of _ 0])
next
  case (step y)
  obtain data1 s1 b1 where y: "y = (data1, s1, b1)" by (metis prod.exhaust)
  from step.hyps(3) [OF y] have inv: "?inv data1 s1 b1" .
  from step.hyps(2) [unfolded y] show ?case
  proof (rule upload_stepE)
    assume "prefix data1 data" "prefix data w" "s = s1" "b = b1"
    with inv show ?thesis by simp
  next
    fix journal persisted r
    assume data: "data = data1" and jr: "journal = None \<or> journal = Some data1"
      and fl: "flush post budget journal persisted b1 s1 = (r, s, b)"
    from inv obtain k where k: "k \<le> length bs" "up_offset s1 = boundary bs k" by blast
    have j: "\<forall>d. journal = Some d \<longrightarrow> prefix d w" using jr inv by auto
    from inv have b1: "valid b1" "prefix (ledger b1) (map crc32 bs)" by blast+
    note f = flush_journal [OF b1(1) enc j k b1(2) fl]
    then have "length (ledger b) \<le> length bs" by (auto dest: prefix_length_le)
    show ?thesis
    proof (cases r)
      case True
      from f obtain k' where k': "k' \<le> length (ledger b)" "up_offset s = boundary bs k'"
        "up_marker s = (if persisted then Some (offset_text (up_offset s)) else up_marker s1)"
        unfolding if_P [OF True] by (elim conjE exE)
      then have "k' \<le> length bs" using \<open>length (ledger b) \<le> length bs\<close> by simp
      with k' f inv data show ?thesis by (cases persisted) auto
    next
      case False
      with f inv data k show ?thesis by simp
    qed
  next
    fix journal readable
    assume jr: "data1 = data" "journal = None \<or> journal = Some data"
      and s: "s = start_uploader (up_marker s1) readable journal" and b: "b = b1"
    have "\<exists>k \<le> length bs. up_offset s = boundary bs k"
    proof (cases "readable \<and> up_marker s1 \<noteq> None \<and> journal \<noteq> None")
      case True
      then obtain k where k: "journal = Some data" "up_marker s1 = Some (offset_text (boundary bs k))"
        "k \<le> length bs" "prefix data w" using inv jr by auto
      have "up_offset s = boundary bs k \<or> up_offset s = 0"
        unfolding s start_uploader_def using load_boundary [OF enc k(4,3)] True k(1,2) by simp
      then show ?thesis using k(3) by (auto intro: exI [of _ 0])
    next
      case False
      then have "up_offset s = 0"
        unfolding s by (auto simp: start_uploader_def load_offset_def split: option.splits)
      then show ?thesis by (auto intro: exI [of _ 0])
    qed
    with s b jr inv show ?thesis by (auto simp: start_uploader_def)
  next
    assume "env b1 b" "data = data1" "s = s1"
    with inv env [of b1 b] show ?thesis by auto
  qed
qed

end

section \<open>Properties\<close>

text \<open>
  C16. Planning: from a frame boundary of a journal still being written, the next batch ends at a
  frame boundary within the bytes read, exceeds the budget only to carry one whole frame, and holds no
  frame above the wire bound. Nothing is planned only if no whole frame is there yet; an undeliverable
  frame is the very next one, named by its sequence and size, and it is above the wire bound.
\<close>

theorem plan_batch_whole_frames:
  assumes "encode_frames m 1 bs = Inr w" and "prefix data w" and "k \<le> length bs"
    and "boundary bs k \<le> length data" and "plan_batch data (boundary bs k) budget = (e, u)"
  shows "\<exists>j \<ge> k. j \<le> length bs \<and> e = boundary bs j \<and> e \<le> length data
    \<and> (k < j \<longrightarrow> e - boundary bs k \<le> budget \<or> j = Suc k)
    \<and> (\<forall>i. k \<le> i \<and> i < j \<longrightarrow> length (bs ! i) + FRAME_OVERHEAD \<le> MAX_CHECKPOINT_FRAME_BYTES)
    \<and> (j = k \<and> u = None \<longrightarrow> k = length bs \<or> length data < boundary bs (Suc k))
    \<and> (\<forall>q n. u = Some (q, n) \<longrightarrow> j = k \<and> k < length bs \<and> q = Suc k
         \<and> n = length (bs ! k) + FRAME_OVERHEAD \<and> n > MAX_CHECKPOINT_FRAME_BYTES)"
proof -
  from plan_batch_ok [OF assms(1-4), of budget] assms(5) obtain j where
    "k \<le> j" "j \<le> length bs" "e = boundary bs j" "boundary bs j \<le> length data"
    "k < j \<longrightarrow> boundary bs j - boundary bs k \<le> budget \<or> j = Suc k"
    "\<forall>i. k \<le> i \<and> i < j \<longrightarrow> length (bs ! i) + FRAME_OVERHEAD \<le> MAX_CHECKPOINT_FRAME_BYTES"
    "case u of None \<Rightarrow> j = k \<longrightarrow> k = length bs \<or> length data < boundary bs (Suc k)
       | Some (q, n) \<Rightarrow> j = k \<and> k < length bs \<and> q = Suc k
           \<and> n = length (bs ! k) + FRAME_OVERHEAD \<and> n > MAX_CHECKPOINT_FRAME_BYTES"
    unfolding plan_ok_def by auto
  then show ?thesis by (intro exI [of _ j]) (cases u, simp_all, auto)
qed

theorem plan_batch_whole_frames_witness:
  "\<exists>j \<ge> 0. j \<le> 1 \<and> fst (plan_batch sample_frame 0 1) = boundary [[0x41]] j
     \<and> (0 = j \<and> snd (plan_batch sample_frame 0 1) = None \<longrightarrow> length sample_frame < boundary [[0x41]] 1)"
  using plan_batch_whole_frames [OF encode_sample prefix_order.order_refl, where k = 0 and budget = 1
      and e = "fst (plan_batch sample_frame 0 1)" and u = "snd (plan_batch sample_frame 0 1)"]
  by auto

text \<open>
  C17. A flush fails closed: whatever the backend does, a flush that returns \<^verbatim>\<open>False\<close> leaves
  the delivered offset, its marker and the counters as they were, and either changes nothing at all or
  stops the uploader for good with one diagnostic; a stopped uploader never posts again.
\<close>

theorem flush_fails_closed:
  assumes "flush post budget journal persisted b s = (False, s', b')"
  shows "up_offset s' = up_offset s \<and> up_marker s' = up_marker s
    \<and> up_uploaded s' = up_uploaded s \<and> up_batches s' = up_batches s
    \<and> (s' = s \<or> up_state s = Upload_Ready \<and> up_state s' \<noteq> Upload_Ready \<and> up_last_failure s' \<noteq> None
         \<and> (\<exists>d. up_diagnostics s' = up_diagnostics s @ [d]))
    \<and> (up_state s \<noteq> Upload_Ready \<longrightarrow> s' = s \<and> b' = b)
    \<and> (up_state s' \<noteq> Upload_Ready \<longrightarrow>
         flush post budget journal' persisted' b' s' = (False, s', b'))"
proof -
  have stop: "s' = s \<or> (\<exists>z. s' = fail_upload z s) \<or> (\<exists>f. s' = stop_at_undeliverable f s)"
    "up_state s \<noteq> Upload_Ready \<longrightarrow> s' = s \<and> b' = b"
    using assms
    by (auto simp: flush_def replay_session_def Let_def split: if_splits option.splits prod.splits upload_error.splits)
  then show ?thesis
    by (auto simp: flush_stopped fail_upload_def stop_at_undeliverable_def)
qed

theorem flush_fails_closed_witness:
  "up_offset (fst (snd (flush (\<lambda>b batch. (Response 500, b)) 9 (Some sample_frame) True ()
     (start_uploader None True None)))) = 0"
proof -
  let ?s = "start_uploader None True None"
  have f: "flush (\<lambda>b batch. (Response 500, b)) 9 (Some sample_frame) True () ?s
      = (False, fail_upload (Upload_Error ''RuntimeError'') ?s, ())"
    by (simp add: flush_def start_uploader_def load_offset_def plan_batch_def plan_loop.simps post_batch_def
        Let_def frame_sizes unpack32_def from_be_def limit_defs)
  show ?thesis
    unfolding f fst_conv snd_conv conjunct1 [OF flush_fails_closed [OF f]]
    by (simp add: start_uploader_def load_offset_def)
qed

text \<open>
  C18. Resuming: an uploader restarted over the marker its predecessor persisted resumes at exactly
  that frame boundary of the journal, and whatever the marker and the journal hold (torn, stale,
  foreign or unreadable), the offset it resumes at is within the journal and at a separator byte
  or at the end.
\<close>

theorem load_offset_resumes:
  assumes "encode_frames m 1 bs = Inr w" and "prefix data w" and "k \<le> length bs"
    and "boundary bs k \<le> length data"
  shows "up_offset (start_uploader (up_marker (persist_offset True (boundary bs k) s)) True (Some data)) = boundary bs k
    \<and> (\<forall>marker journal. load_offset marker (Some journal) \<le> length journal
        \<and> (0 < load_offset marker (Some journal) \<and> load_offset marker (Some journal) < length journal \<longrightarrow>
             journal ! load_offset marker (Some journal) = SEPARATOR))"
  using load_boundary [OF assms(1-3)] assms(4)
  by (auto simp: start_uploader_def persist_offset_def load_offset_def split: option.splits)

theorem load_offset_resumes_witness:
  "up_offset (start_uploader (up_marker (persist_offset True 14 (start_uploader None True None))) True
     (Some sample_frame)) = 14"
proof -
  have b: "boundary [[0x41]] 1 = 14" by (simp add: frame_sizes)
  show ?thesis
    using load_offset_resumes [OF encode_sample prefix_order.order_refl, of 1 "start_uploader None True None"]
    unfolding b by simp
qed

end
