(* ===== verification/LiveRegistry.thy ===== *)
theory LiveRegistry
  imports LiveTail Uploader
begin

text \<open>
  The registry of live sessions (\<^verbatim>\<open>live.py\<close>, \<open>LiveSessionRegistry\<close>) for sessions
  fed by checkpoint uploads: accepting a batch of frames, quotas, connections, dropping and expiring
  sessions, and sealing, with the HTTP answers of the checkpoint endpoint (\<^verbatim>\<open>api.py\<close>).
  Local journal polling and browser captures are not modelled; capture sessions may be present.

  The entry codec, the capture policies and the governed projection of an entry are parameters.
\<close>

section \<open>State\<close>

type_synonym session_key = "string \<times> string"

text \<open>A connection is named by a number; \<open>lr_next\<close> is the next fresh one.\<close>

record live_registry =
  lr_sessions :: "(session_key \<times> live_session) list"
  lr_subs :: "(nat \<times> subscription) list"
  lr_next :: nat
  lr_connections :: nat
  lr_project_connections :: "(string \<times> nat) list"

text \<open>
  \<open>lv_policy\<close> is the policy a header declares when it is readable, \<open>lv_preflight\<close> whether an
  entry is one the recorder would admit under a policy, \<open>lv_event\<close> the governed projection.
\<close>

record ('j, 'p) live_env =
  lv_config :: live_config
  lv_decode :: "'j decoder"
  lv_policy :: "journal_open \<Rightarrow> 'p option"
  lv_metadata_only :: 'p
  lv_preflight :: "'p \<Rightarrow> 'j journal_entry \<Rightarrow> bool"
  lv_event :: "journal_open \<Rightarrow> 'j journal_entry \<Rightarrow> event_name \<times> json"
  lv_open_payload :: "journal_open \<Rightarrow> live_source \<Rightarrow> json"
  lv_dump :: "json \<Rightarrow> string"

datatype accept_error =
    Source_Conflict
  | Frames_Invalid
  | Sequence_Expected nat
  | Journal_Finalized
  | Diverged nat
  | Capacity

record accepted_checkpoint =
  ac_journal_id :: string
  ac_accepted_through :: nat
  ac_accepted_records :: nat
  ac_state :: live_status
  ac_sealable :: bool

section \<open>Accepting frames\<close>

definition frame_end :: "bytes \<Rightarrow> nat \<Rightarrow> nat" where
  "frame_end payload offset = offset + HEADER_SIZE + unpack32 payload (offset + 5) + CHECKSUM_SIZE"

text \<open>Decoding the scanned frames, each with its own bytes.\<close>

type_synonym 'j decoded = "(nat \<times> 'j journal_entry \<times> bytes) list"

fun decode_batch :: "'j decoder \<Rightarrow> bytes \<Rightarrow> nat \<Rightarrow> frame list \<Rightarrow> 'j decoded option" where
  "decode_batch decode payload offset [] = Some []"
| "decode_batch decode payload offset (f # fs) =
     (let stop = frame_end payload offset
      in case decode (fr_body f) of
        None \<Rightarrow> None
      | Some entry \<Rightarrow>
          map_option (\<lambda>rest. (fr_sequence f, entry, take (stop - offset) (drop offset payload)) # rest)
            (decode_batch decode payload stop fs))"

text \<open>\<^verbatim>\<open>int.from_bytes(frame[-CHECKSUM_SIZE:], "big")\<close>.\<close>

definition frame_crc_bytes :: "bytes \<Rightarrow> bytes" where
  "frame_crc_bytes frame = drop (length frame - CHECKSUM_SIZE) frame"

fun assert_continues ::
  "live_session option \<Rightarrow> bool \<Rightarrow> 'j decoded \<Rightarrow> accept_error option" where
  "assert_continues session closed [] = None"
| "assert_continues session closed ((sequence, entry, frame) # rest) =
     (if is_open entry \<and> sequence \<noteq> 1 then Some Frames_Invalid
      else case session of
        Some s \<Rightarrow>
          (if sequence \<le> ls_last_sequence s then
             (case checksum s sequence of
                None \<Rightarrow> Some (Diverged sequence)
              | Some recorded \<Rightarrow>
                  (if recorded \<noteq> from_be (frame_crc_bytes frame) then Some (Diverged sequence)
                   else assert_continues session closed rest))
           else if closed then Some Journal_Finalized
           else assert_continues session (is_finalize entry) rest)
      | None \<Rightarrow>
          (if closed then Some Journal_Finalized
           else assert_continues session (is_finalize entry) rest))"

definition starts_closed :: "live_session option \<Rightarrow> bool" where
  "starts_closed session = (case session of Some s \<Rightarrow> ls_close_observed s | None \<Rightarrow> False)"

text \<open>The header of a batch that starts a journal; \<open>Inr None\<close> when the batch continues one.\<close>

definition batch_header ::
  "string \<Rightarrow> nat \<Rightarrow> 'j decoded \<Rightarrow> accept_error + journal_open option" where
  "batch_header session_id first_sequence decoded =
     (if first_sequence \<noteq> 1 then Inr None
      else case decoded of
        (_, Open_Entry h, _) # _ \<Rightarrow>
          (if jo_version h \<noteq> JOURNAL_FORMAT_VERSION then Inl Frames_Invalid
           else if jo_session_id h \<noteq> session_id then Inl Frames_Invalid
           else Inr (Some h))
      | _ \<Rightarrow> Inl Frames_Invalid)"

definition batch_policy ::
  "('j, 'p) live_env \<Rightarrow> live_session option \<Rightarrow> journal_open option \<Rightarrow> 'p" where
  "batch_policy E session header =
     (case Option.bind session (\<lambda>s. lv_policy E (ls_header s)) of
        Some p \<Rightarrow> p
      | None \<Rightarrow> (case header of
          Some h \<Rightarrow> (case lv_policy E h of Some p \<Rightarrow> p | None \<Rightarrow> lv_metadata_only E)
        | None \<Rightarrow> lv_metadata_only E))"

text \<open>The new entries of the batch are preflighted; those the session holds already are skipped.\<close>

definition preflight_ok ::
  "('j, 'p) live_env \<Rightarrow> live_session option \<Rightarrow> 'p \<Rightarrow> 'j decoded \<Rightarrow> bool" where
  "preflight_ok E session policy decoded \<longleftrightarrow>
     list_all (\<lambda>(sequence, entry, _).
       (case session of Some s \<Rightarrow> sequence \<le> ls_last_sequence s | None \<Rightarrow> False)
       \<or> (\<not> (is_open entry \<and> \<not> (session = None \<and> sequence = 1)) \<and> lv_preflight E policy entry)) decoded"

text \<open>Everything that can refuse a batch before anything is recorded, except the quota.\<close>

definition check_batch ::
  "('j, 'p) live_env \<Rightarrow> string \<Rightarrow> bytes \<Rightarrow> live_session option
     \<Rightarrow> accept_error + ('j decoded \<times> journal_open option \<times> bool)" where
  "check_batch E session_id payload session =
     (if (case session of Some s \<Rightarrow> ls_source s = Source_Capture | None \<Rightarrow> False) then Inl Source_Conflict
      else if length payload < HEADER_SIZE then Inl Frames_Invalid
      else let first_sequence = unpack32 payload 1
        in if first_sequence \<noteq> 1 \<and> session = None then Inl (Sequence_Expected 1)
           else if first_sequence \<noteq> 1 \<and> first_sequence > ls_last_sequence (the session) + 1
             then Inl (Sequence_Expected (ls_last_sequence (the session) + 1))
           else let scan = plain_scan payload (lc_max_frame_bytes (lv_config E)) first_sequence
             in if fs_torn scan \<noteq> 0 \<or> fs_frames scan = [] then Inl Frames_Invalid
                else if last_sequence scan > lc_max_journal_records (lv_config E) then Inl Frames_Invalid
                else case decode_batch (lv_decode E) payload 0 (fs_frames scan) of
                  None \<Rightarrow> Inl Frames_Invalid
                | Some decoded \<Rightarrow>
                    (case batch_header session_id first_sequence decoded of
                       Inl e \<Rightarrow> Inl e
                     | Inr header \<Rightarrow>
                         (let replace = (case (session, header) of
                                (Some s, Some h) \<Rightarrow> ls_journal_id s \<noteq> jo_journal_id h | _ \<Rightarrow> False);
                              candidate = (if replace then None else session)
                          in case assert_continues candidate (starts_closed candidate) decoded of
                            Some e \<Rightarrow> Inl e
                          | None \<Rightarrow>
                              (if preflight_ok E candidate (batch_policy E candidate header) decoded
                               then Inr (decoded, header, replace)
                               else Inl Frames_Invalid))))"

section \<open>Recording a batch\<close>

definition get_session :: "live_registry \<Rightarrow> session_key \<Rightarrow> live_session option" where
  "get_session R key = map_of (lr_sessions R) key"

definition put_session :: "session_key \<Rightarrow> live_session \<Rightarrow> live_registry \<Rightarrow> live_registry" where
  "put_session key s R = R\<lparr>lr_sessions := AList.update key s (lr_sessions R)\<rparr>"

definition pop_session :: "session_key \<Rightarrow> live_registry \<Rightarrow> live_registry" where
  "pop_session key R = R\<lparr>lr_sessions := AList.delete key (lr_sessions R)\<rparr>"

text \<open>Applying a change to some connections.\<close>

definition map_subs :: "nat list \<Rightarrow> (subscription \<Rightarrow> subscription) \<Rightarrow> live_registry \<Rightarrow> live_registry" where
  "map_subs ids f R =
     R\<lparr>lr_subs := map (\<lambda>(i, sub). (i, if i \<in> set ids then f sub else sub)) (lr_subs R)\<rparr>"

definition session_count :: "live_registry \<Rightarrow> nat" where
  "session_count R = length (lr_sessions R)"

definition project_sessions :: "live_registry \<Rightarrow> string \<Rightarrow> nat" where
  "project_sessions R project = length (filter (\<lambda>(k, _). fst k = project) (lr_sessions R))"

text \<open>\<^verbatim>\<open>_enforce_quota\<close>: whether a session may be added.\<close>

definition quota_ok :: "live_config \<Rightarrow> string \<Rightarrow> live_registry \<Rightarrow> bool" where
  "quota_ok c project R \<longleftrightarrow>
     session_count R < lc_max_sessions c \<and> project_sessions R project < lc_max_sessions_per_project c"

definition register ::
  "('j, 'p) live_env \<Rightarrow> string \<Rightarrow> string \<Rightarrow> live_source \<Rightarrow> journal_open \<Rightarrow> bool \<Rightarrow> int \<Rightarrow> live_session" where
  "register E session_id project source header retain now =
     new_session session_id project source header
       (make_event (lv_dump E) Event_Open (jo_journal_id header) 1 (lv_open_payload E header source))
       now retain"

text \<open>
  \<^verbatim>\<open>_reset_session\<close>: the connections of the replaced session are told, and the session goes.
  The prose of the reset event is left out.
\<close>

definition reset_session :: "('j, 'p) live_env \<Rightarrow> session_key \<Rightarrow> live_session \<Rightarrow> string \<Rightarrow> live_registry \<Rightarrow> live_registry" where
  "reset_session E key s journal_id R =
     (let event = make_event (lv_dump E) Event_Reset (ls_journal_id s) 0 (JObject
            [(''reason'', JString ''journal_identity_changed''),
             (''previous_journal_id'', JString (ls_journal_id s)),
             (''journal_id'', JString journal_id)])
      in pop_session key
           (map_subs (ls_subscribers s)
             (\<lambda>sub. finish End_Session_Superseded (offer (lv_config E) [event] sub)) R))"

text \<open>\<^verbatim>\<open>_deliver\<close> on the session under \<open>key\<close>.\<close>

definition deliver :: "live_config \<Rightarrow> session_key \<Rightarrow> live_event list \<Rightarrow> live_session \<Rightarrow> live_registry \<Rightarrow> live_registry" where
  "deliver c key events s R =
     map_subs (ls_subscribers s) (offer c events) (put_session key (deliver_session c events s) R)"

definition entry_event :: "('j, 'p) live_env \<Rightarrow> live_session \<Rightarrow> nat \<Rightarrow> 'j journal_entry \<Rightarrow> live_event" where
  "entry_event E s sequence entry =
     (case lv_event E (ls_header s) entry of
        (name, data) \<Rightarrow> make_event (lv_dump E) name (ls_journal_id s) sequence data)"

text \<open>The loop over the decoded frames: what is new is retained, remembered and absorbed.\<close>

fun record_frames ::
  "('j, 'p) live_env \<Rightarrow> nat \<Rightarrow> 'j decoded \<Rightarrow> live_session \<Rightarrow> live_event list \<times> live_session" where
  "record_frames E retained_through [] s = ([], s)"
| "record_frames E retained_through ((sequence, entry, frame) # rest) s =
     (if sequence > retained_through then
        let s1 = remember_checksum sequence (frame_crc_bytes frame)
                   (retain_memory_frame (lv_config E) frame s)
        in if sequence > 1 then
             (case record_frames E retained_through rest (absorb entry s1) of
                (events, s') \<Rightarrow> (entry_event E s1 sequence entry # events, s'))
           else record_frames E retained_through rest s1
      else record_frames E retained_through rest s)"

definition accept_frames ::
  "('j, 'p) live_env \<Rightarrow> int \<Rightarrow> string \<Rightarrow> string \<Rightarrow> bytes \<Rightarrow> live_registry
     \<Rightarrow> (accept_error + accepted_checkpoint) \<times> live_registry" where
  "accept_frames E now project session_id payload R =
     (let key = (project, session_id); c = lv_config E
      in case check_batch E session_id payload (get_session R key) of
        Inl e \<Rightarrow> (Inl e, R)
      | Inr (decoded, header, replace) \<Rightarrow>
          (let R1 = (if replace then reset_session E key (the (get_session R key)) (jo_journal_id (the header)) R
                     else R);
               session = (if replace then None else get_session R key)
           in if session = None \<and> \<not> quota_ok c project R1 then (Inl Capacity, R1)
              else let (s0, R2, retained_through) =
                  (case session of
                     None \<Rightarrow>
                       (let s = register E session_id project Source_Checkpoint (the header) True now;
                            R2 = deliver c key [ls_open_event s] s R1
                        in (the (get_session R2 key), R2, 0))
                   | Some s \<Rightarrow> (s, R1, ls_last_sequence s));
                  (events, s1) = record_frames E retained_through decoded s0;
                  s2 = (if events = [] then s1 else s1\<lparr>ls_last_append := now\<rparr>);
                  R3 = deliver c key events s2 R2;
                  s3 = the (get_session R3 key)
                in (Inr \<lparr>ac_journal_id = ls_journal_id s3, ac_accepted_through = ls_last_sequence s3,
                        ac_accepted_records = length events, ac_state = session_state c now s3,
                        ac_sealable = sealable s3\<rparr>, R3)))"

section \<open>The endpoint\<close>

text \<open>What \<^verbatim>\<open>POST /v1/live/sessions/{id}/checkpoints\<close> answers.\<close>

definition api_problem :: "int \<Rightarrow> string \<Rightarrow> string \<Rightarrow> (string \<times> json) list list \<Rightarrow> transport" where
  "api_problem status code message issues =
     Refused \<lparr>he_code = status,
       he_body = Some (JObject [(''error'', JObject
         ([(''code'', JString code), (''message'', JString message)]
          @ (if issues = [] then [] else [(''issues'', JArray (map JObject issues))])))])\<rparr>"

definition issue :: "string \<Rightarrow> string \<Rightarrow> nat \<Rightarrow> (string \<times> json) list" where
  "issue code path n =
     [(''code'', JString code), (''path'', JArray [JString path]), (''message'', JString (show_nat n)),
      (''severity'', JString ''error'')]"

definition checkpoint_response :: "accept_error + accepted_checkpoint \<Rightarrow> transport" where
  "checkpoint_response r =
     (case r of
        Inr accepted \<Rightarrow> Response 202
      | Inl (Sequence_Expected n) \<Rightarrow>
          api_problem 409 ''EARSHOT_CHECKPOINT_SEQUENCE_GAP''
            ''checkpoint batch does not continue the accepted sequence''
            [issue ''EARSHOT_CHECKPOINT_SEQUENCE_GAP'' ''expected_sequence'' n]
      | Inl Journal_Finalized \<Rightarrow>
          api_problem 409 ''EARSHOT_CHECKPOINT_JOURNAL_FINALIZED''
            ''this journal is finalized and accepts no further frames'' []
      | Inl (Diverged n) \<Rightarrow>
          api_problem 409 ''EARSHOT_CHECKPOINT_DIVERGED''
            ''checkpoint batch rewrites a sequence the server already recorded''
            [issue ''EARSHOT_CHECKPOINT_DIVERGED'' ''sequence'' n]
      | Inl Source_Conflict \<Rightarrow>
          api_problem 409 ''EARSHOT_CHECKPOINT_CAPTURE_OWNED''
            ''browser capture sessions accept drains only through the capture endpoint'' []
      | Inl Frames_Invalid \<Rightarrow>
          api_problem 400 ''EARSHOT_CHECKPOINT_FRAMES_INVALID''
            ''checkpoint batch is not an intact run of journal frames'' []
      | Inl Capacity \<Rightarrow>
          api_problem 429 ''EARSHOT_LIVE_CAPACITY''
            ''this project is holding as many live sessions as it will'' [])"

text \<open>
  The endpoint as an uploader's backend: the server's clock and the network are functions of the
  number of requests made, and the network may lose a request or its answer.
\<close>

datatype net_fault = Net_Ok | Request_Lost | Answer_Lost

definition post_checkpoint ::
  "('j, 'p) live_env \<Rightarrow> (nat \<Rightarrow> int) \<Rightarrow> (nat \<Rightarrow> net_fault) \<Rightarrow> string \<Rightarrow> string
     \<Rightarrow> nat \<times> live_registry \<Rightarrow> bytes \<Rightarrow> transport \<times> (nat \<times> live_registry)" where
  "post_checkpoint E clock net project session_id b payload =
     (case b of (n, R) \<Rightarrow>
        (case net n of
           Request_Lost \<Rightarrow> (Broke ''URLError'', (n + 1, R))
         | Answer_Lost \<Rightarrow>
             (Broke ''TimeoutError'', (n + 1, snd (accept_frames E (clock n) project session_id payload R)))
         | Net_Ok \<Rightarrow>
             (case accept_frames E (clock n) project session_id payload R of
                (r, R') \<Rightarrow> (checkpoint_response r, (n + 1, R')))))"

section \<open>Connections and the end of a session\<close>

datatype subscribe_error = Session_Not_Live | Tail_Capacity

definition connections_of :: "live_registry \<Rightarrow> string \<Rightarrow> nat" where
  "connections_of R project = (case map_of (lr_project_connections R) project of Some n \<Rightarrow> n | None \<Rightarrow> 0)"

definition subscribe ::
  "('j, 'p) live_env \<Rightarrow> string \<Rightarrow> string \<Rightarrow> from_spec \<Rightarrow> string option \<Rightarrow> live_registry
     \<Rightarrow> (subscribe_error + nat) \<times> live_registry" where
  "subscribe E project session_id spec last_event_id R =
     (let key = (project, session_id); c = lv_config E
      in case get_session R key of
        None \<Rightarrow> (Inl Session_Not_Live, R)
      | Some s \<Rightarrow>
          (if lr_connections R \<ge> lc_max_connections c then (Inl Tail_Capacity, R)
           else if connections_of R project \<ge> lc_max_connections_per_project c then (Inl Tail_Capacity, R)
           else if length (ls_subscribers s) \<ge> lc_max_subscribers_per_session c then (Inl Tail_Capacity, R)
           else let i = lr_next R
             in (Inr i, put_session key (s\<lparr>ls_subscribers := ls_subscribers s @ [i]\<rparr>)
                  (R\<lparr>lr_subs := lr_subs R @ [(i, open_tail (lv_dump E) spec last_event_id s)],
                     lr_next := i + 1, lr_connections := lr_connections R + 1,
                     lr_project_connections := AList.update project (connections_of R project + 1)
                       (lr_project_connections R)\<rparr>))))"

text \<open>\<^verbatim>\<open>Subscription.close\<close>, which releases the connection's slot once.\<close>

definition release_connection :: "nat \<Rightarrow> live_registry \<Rightarrow> live_registry" where
  "release_connection i R =
     (case map_of (lr_subs R) i of
        None \<Rightarrow> R
      | Some sub \<Rightarrow>
          (if sb_closed sub then R
           else let key = (sb_project_id sub, sb_session_id sub);
                    R1 = map_subs [i] (\<lambda>sub. sub\<lparr>sb_closed := True\<rparr>) R;
                    R2 = (case get_session R1 key of
                        Some s \<Rightarrow> put_session key (s\<lparr>ls_subscribers := removeAll i (ls_subscribers s)\<rparr>) R1
                      | None \<Rightarrow> R1);
                    held = connections_of R2 (sb_project_id sub) - 1
             in R2\<lparr>lr_connections := lr_connections R2 - 1,
                   lr_project_connections := (if held > 0
                     then AList.update (sb_project_id sub) held (lr_project_connections R2)
                     else AList.delete (sb_project_id sub) (lr_project_connections R2))\<rparr>))"

definition drop_session :: "string \<Rightarrow> string \<Rightarrow> end_reason \<Rightarrow> live_registry \<Rightarrow> bool \<times> live_registry" where
  "drop_session project session_id reason R =
     (case get_session R (project, session_id) of
        None \<Rightarrow> (False, R)
      | Some s \<Rightarrow> (True, map_subs (ls_subscribers s) (finish reason) (pop_session (project, session_id) R)))"

definition drop_project :: "string \<Rightarrow> live_registry \<Rightarrow> nat \<times> live_registry" where
  "drop_project project R =
     (let gone = filter (\<lambda>(k, _). fst k = project) (lr_sessions R);
          R1 = R\<lparr>lr_sessions := filter (\<lambda>(k, _). fst k \<noteq> project) (lr_sessions R)\<rparr>
      in (length gone, map_subs (concat (map (\<lambda>(_, s). ls_subscribers s) gone)) (finish End_Project_Deleted) R1))"

text \<open>
  \<open>expire\<close> for sessions without a capture owner: the sessions abandoned when the scan runs are
  dropped one by one.
\<close>

definition expire :: "live_config \<Rightarrow> int \<Rightarrow> live_registry \<Rightarrow> live_registry" where
  "expire c now R =
     fold (\<lambda>(project, session_id) R. snd (drop_session project session_id End_Session_Expired R))
       (map fst (filter (\<lambda>(_, s). session_state c now s = Status_Abandoned) (lr_sessions R))) R"

datatype seal_error = Seal_Not_Live | Not_Sealable

text \<open>The branch of \<open>seal_snapshot\<close> for sessions held in memory.\<close>

definition seal_snapshot :: "string \<Rightarrow> string \<Rightarrow> live_registry \<Rightarrow> seal_error + bytes" where
  "seal_snapshot project session_id R =
     (case get_session R (project, session_id) of
        None \<Rightarrow> Inl Seal_Not_Live
      | Some s \<Rightarrow>
          (case ls_frames s of
             None \<Rightarrow> Inl Not_Sealable
           | Some data \<Rightarrow> if ls_frames_complete s then Inr data else Inl Not_Sealable))"

section \<open>The ledger of a session\<close>

abbreviation crc_bytes :: "bytes \<Rightarrow> bytes" where
  "crc_bytes b \<equiv> to_be 4 (unat (crc32 b))"

abbreviation ledger_bytes :: "bytes list \<Rightarrow> bytes" where
  "ledger_bytes bs \<equiv> concat (map crc_bytes bs)"

lemma length_ledger_bytes: "length (ledger_bytes bs) = 4 * length bs"
  by (induction bs) auto

lemma crc_less: "unat (crc32 b) < 2 ^ 32"
  using unsigned_less [of "crc32 b"] by simp

lemma ledger_lookup:
  assumes "ls_checksums s = ledger_bytes bs" "1 \<le> i"
  shows "checksum s i = (if i \<le> length bs then Some (unat (crc32 (bs ! (i - 1)))) else None)"
proof (cases "i \<le> length bs")
  case True
  let ?k = "i - 1"
  have k: "?k < length bs" using True assms(2) by simp
  have bs: "bs = take ?k bs @ [bs ! ?k] @ drop (Suc ?k) bs" using id_take_nth_drop [OF k] by simp
  have eq: "ledger_bytes bs = ledger_bytes (take ?k bs) @ crc_bytes (bs ! ?k) @ ledger_bytes (drop (Suc ?k) bs)"
    by (subst bs) (simp only: map_append concat_append list.map concat.simps append_Nil2)
  have p: "pack32 (unat (crc32 (bs ! ?k))) = Some (crc_bytes (bs ! ?k))"
    unfolding pack32_def by (rule if_P [OF crc_less])
  have "length (ledger_bytes (take ?k bs)) = ?k * 4"
    unfolding length_ledger_bytes using k by simp
  with unpack32_pack32 [OF p, of "ledger_bytes (take ?k bs)" "ledger_bytes (drop (Suc ?k) bs)"]
  have "unpack32 (ledger_bytes bs) (?k * 4) = unat (crc32 (bs ! ?k))"
    unfolding eq by simp
  moreover have "?k * 4 + 4 \<le> length (ledger_bytes bs)" unfolding length_ledger_bytes using k by simp
  ultimately show ?thesis using True assms by (simp add: checksum_def Let_def frame_sizes)
next
  case False
  then have "length (ls_checksums s) < (i - 1) * 4 + 4"
    unfolding assms(1) length_ledger_bytes by simp
  with False assms(2) show ?thesis by (simp add: checksum_def Let_def frame_sizes)
qed

definition ledger_of :: "live_session \<Rightarrow> 32 word list" where
  "ledger_of s = map (\<lambda>i. of_nat (the (checksum s i))) [1..<Suc (ls_last_sequence s)]"

lemma ledger_of_eq:
  assumes "ls_checksums s = ledger_bytes bs" "length bs = ls_last_sequence s"
  shows "ledger_of s = map crc32 bs"
proof (rule nth_equalityI)
  show "length (ledger_of s) = length (map crc32 bs)" using assms(2) by (simp add: ledger_of_def del: upt_Suc)
next
  fix i assume "i < length (ledger_of s)"
  then have i: "i < length bs" using assms(2) by (simp add: ledger_of_def del: upt_Suc)
  have "ledger_of s ! i = of_nat (the (checksum s ([1..<Suc (ls_last_sequence s)] ! i)))"
    unfolding ledger_of_def by (rule nth_map) (use i assms(2) in simp)
  also have "[1..<Suc (ls_last_sequence s)] ! i = Suc i" using i assms(2) by (subst nth_upt) auto
  finally show "ledger_of s ! i = map crc32 bs ! i" using ledger_lookup [OF assms(1), of "Suc i"] i by simp
qed

section \<open>What a batch holds\<close>

text \<open>A frame's own bytes end with the checksum of its body.\<close>

lemma frame_crc:
  assumes "encode_frame n b m = Inr f"
  shows "frame_crc_bytes f = crc_bytes b"
proof -
  from assms obtain s l c where "pack32 (unat (crc32 b)) = Some c" "f = [SEPARATOR] @ s @ l @ b @ c"
    by (rule encode_frame_Inr)
  then show ?thesis by (auto simp: frame_crc_bytes_def frame_sizes pack32_def split: if_splits)
qed

definition decoded_as :: "nat \<Rightarrow> 'j decoder \<Rightarrow> nat \<Rightarrow> bytes list \<Rightarrow> 'j decoded \<Rightarrow> bool" where
  "decoded_as m decode n cs d \<longleftrightarrow> map fst d = [n..<n + length cs]
     \<and> list_all2 (\<lambda>b (q, e, f). encode_frame q b m = Inr f \<and> decode b = Some e) cs d"

lemma frame_end_eq:
  assumes "encode_frame n b m = Inr f"
  shows "frame_end (pre @ f @ rest) (length pre) = length pre + length f"
proof -
  from assms obtain s l c where p: "pack32 n = Some s" "pack32 (length b) = Some l"
    "pack32 (unat (crc32 b)) = Some c" and f: "f = [SEPARATOR] @ s @ l @ b @ c" by (rule encode_frame_Inr)
  have "unpack32 (pre @ f @ rest) (length pre + 5) = length b"
    using unpack32_pack32 [OF p(2), of "pre @ [SEPARATOR] @ s" "b @ c @ rest"] p(1) by (simp add: f)
  with p show ?thesis by (simp add: frame_end_def f frame_sizes)
qed

lemma decode_batch_frames:
  assumes "encode_frames m n cs = Inr v" "payload = pre @ v @ rest"
    and "decode_batch decode payload (length pre) (number n cs) = Some d"
  shows "decoded_as m decode n cs d"
  using assms
proof (induction cs arbitrary: n v pre d)
  case Nil
  then show ?case by (simp add: decoded_as_def)
next
  case (Cons b cs)
  then obtain f w where f: "encode_frame n b m = Inr f" and w: "encode_frames m (n + 1) cs = Inr w"
    and v: "v = f @ w" by (auto split: sum.splits)
  have stop: "frame_end payload (length pre) = length (pre @ f)"
    using frame_end_eq [OF f, of pre "w @ rest"] Cons.prems(2) v by simp
  have bytes: "take (length (pre @ f) - length pre) (drop (length pre) payload) = f"
    using Cons.prems(2) v by simp
  from Cons.prems(3) obtain e d' where e: "decode b = Some e"
    and d': "decode_batch decode payload (length (pre @ f)) (number (n + 1) cs) = Some d'"
    and d: "d = (n, e, f) # d'"
    by (auto simp: Let_def stop bytes [simplified] split: option.splits)
  from Cons.IH [OF w _ d'] Cons.prems(2) v have "decoded_as m decode (n + 1) cs d'" by simp
  with f e d show ?case by (simp add: decoded_as_def upt_conv_Cons del: upt_Suc)
qed

text \<open>Only a batch that agrees with the ledger continues a session.\<close>

lemma assert_continues_agrees:
  "assert_continues (Some s) closed d = None \<Longrightarrow> (q, e, f) \<in> set d \<Longrightarrow> q \<le> ls_last_sequence s \<Longrightarrow>
   checksum s q = Some (from_be (frame_crc_bytes f))"
  by (induction "Some s" closed d rule: assert_continues.induct)
     (auto split: if_splits option.splits)

section \<open>What recording does\<close>

text \<open>
  The frames a session holds in its first \<open>n\<close> slots are those of some bodies: in the ledger, and in
  the retained buffer while that is complete.
\<close>

definition holds :: "live_config \<Rightarrow> nat \<Rightarrow> live_session \<Rightarrow> bytes list \<Rightarrow> bool" where
  "holds c n s bs \<longleftrightarrow> length bs = n \<and> ls_checksums s = ledger_bytes bs
     \<and> (ls_frames s = None \<longleftrightarrow> \<not> ls_frames_complete s)
     \<and> (\<forall>w. ls_frames s = Some w \<longrightarrow>
          encode_frames (lc_max_frame_bytes c) 1 bs = Inr w \<and> length w \<le> lc_max_seal_bytes c)"

text \<open>The fields recording never writes.\<close>

definition same_stream :: "live_session \<Rightarrow> live_session \<Rightarrow> bool" where
  "same_stream s t \<longleftrightarrow> ls_events t = ls_events s \<and> ls_retained_bytes t = ls_retained_bytes s
     \<and> ls_last_sequence t = ls_last_sequence s \<and> ls_open_event t = ls_open_event s
     \<and> ls_header t = ls_header s \<and> ls_source t = ls_source s \<and> ls_subscribers t = ls_subscribers s
     \<and> ls_session_id t = ls_session_id s \<and> ls_project_id t = ls_project_id s"

lemma same_stream_simps [simp]: "same_stream s s" by (simp add: same_stream_def)

lemma same_stream_trans: "same_stream s t \<Longrightarrow> same_stream t u \<Longrightarrow> same_stream s u"
  by (simp add: same_stream_def)

lemma same_stream_steps:
  "same_stream s (remember_checksum q f s)" "same_stream s (retain_memory_frame c f s)"
  "same_stream s (absorb e s)"
  by (auto simp: same_stream_def remember_checksum_def retain_memory_frame_def split: option.splits)
     (cases e; simp)+

lemma retain_holds:
  assumes h: "holds c n s bs" and f: "encode_frame (Suc n) b (lc_max_frame_bytes c) = Inr f"
  shows "holds c (Suc n) (remember_checksum (Suc n) (frame_crc_bytes f) (retain_memory_frame c f s)) (bs @ [b])"
proof -
  from h have len: "length bs = n" and ck: "ls_checksums s = ledger_bytes bs" by (auto simp: holds_def)
  have "ls_checksums (retain_memory_frame c f s) = ledger_bytes bs"
    using ck by (auto simp: retain_memory_frame_def split: option.splits)
  then have "ls_checksums (remember_checksum (Suc n) (frame_crc_bytes f) (retain_memory_frame c f s))
      = ledger_bytes (bs @ [b])"
    by (simp add: remember_checksum_def length_ledger_bytes len frame_crc [OF f] frame_sizes)
  moreover have "encode_frames (lc_max_frame_bytes c) 1 (bs @ [b]) = Inr (w @ f)"
    if "encode_frames (lc_max_frame_bytes c) 1 bs = Inr w" for w
    using that f len by (simp add: encode_frames_append)
  ultimately show ?thesis
    using h len
    by (auto simp: holds_def retain_memory_frame_def remember_checksum_def split: option.splits if_splits)
qed

lemma absorb_holds: "holds c n s bs \<Longrightarrow> holds c n (absorb e s) bs"
  by (cases e) (simp_all add: holds_def)

lemma record_frames_skip:
  "\<forall>(q, e, f) \<in> set d. q \<le> rt \<Longrightarrow> record_frames E rt d s = ([], s)"
  by (induction d) auto

lemma record_frames_append:
  "record_frames E rt (d1 @ d2) s =
     (case record_frames E rt d1 s of (ev1, s1) \<Rightarrow>
        (case record_frames E rt d2 s1 of (ev2, s2) \<Rightarrow> (ev1 @ ev2, s2)))"
  by (induction E rt d1 s rule: record_frames.induct) (auto simp: Let_def split: prod.splits)

lemma record_frames_new:
  assumes "decoded_as (lc_max_frame_bytes (lv_config E)) decode (Suc n) cs d" "rt \<le> n"
    and "holds (lv_config E) n s bs"
  shows "\<exists>ev t. record_frames E rt d s = (ev, t) \<and> holds (lv_config E) (n + length cs) t (bs @ cs)
    \<and> sequences ev = [max 2 (Suc n)..<Suc (n + length cs)] \<and> same_stream s t"
  using assms
proof (induction cs arbitrary: n d s bs)
  case Nil
  then show ?case by (auto simp: decoded_as_def)
next
  case (Cons b cs)
  let ?c = "lv_config E"
  from Cons.prems(1) obtain e f d' where d: "d = (Suc n, e, f) # d'"
    and f: "encode_frame (Suc n) b (lc_max_frame_bytes ?c) = Inr f"
    and d': "decoded_as (lc_max_frame_bytes ?c) decode (Suc (Suc n)) cs d'"
    by (cases d) (auto simp: decoded_as_def upt_conv_Cons simp del: upt_Suc)
  let ?s1 = "remember_checksum (Suc n) (frame_crc_bytes f) (retain_memory_frame ?c f s)"
  let ?s2 = "if 1 < Suc n then absorb e ?s1 else ?s1"
  have h: "holds ?c (Suc n) ?s2 (bs @ [b])"
    using retain_holds [OF Cons.prems(3) f] absorb_holds by auto
  have ss: "same_stream s ?s2"
    using same_stream_trans [OF same_stream_steps(2) same_stream_trans [OF same_stream_steps(1) same_stream_steps(3)]]
      same_stream_trans [OF same_stream_steps(2) same_stream_steps(1)] by auto
  from Cons.IH [OF d' _ h] Cons.prems(2) obtain ev t where
    r: "record_frames E rt d' ?s2 = (ev, t)" and t: "holds ?c (Suc n + length cs) t ((bs @ [b]) @ cs)"
    and q: "sequences ev = [max 2 (Suc (Suc n))..<Suc (Suc n + length cs)]" and st: "same_stream ?s2 t" by auto
  let ?ev = "if 1 < Suc n then entry_event E ?s1 (Suc n) e # ev else ev"
  have "record_frames E rt d s = (?ev, t)"
    using d Cons.prems(2) r by (auto simp: Let_def split: if_splits)
  moreover have "sequences ?ev = [max 2 (Suc n)..<Suc (n + length (b # cs))]"
    using q by (cases n) (auto simp: entry_event_def make_event_def max_def upt_conv_Cons numeral_2_eq_2 simp del: upt_Suc split: prod.splits)
  ultimately show ?case using t same_stream_trans [OF ss st] by (intro exI [of _ ?ev] exI [of _ t]) simp
qed

text \<open>A whole batch from the slot \<open>n + 1\<close> over a session that holds \<open>bs\<close>, where they overlap or meet.\<close>

lemma record_frames_batch:
  assumes d: "decoded_as (lc_max_frame_bytes (lv_config E)) decode (Suc n) cs d"
    and h: "holds (lv_config E) rt s bs" and n: "n \<le> rt"
  shows "\<exists>ev t. record_frames E rt d s = (ev, t)
    \<and> holds (lv_config E) (max rt (n + length cs)) t (bs @ drop (rt - n) cs)
    \<and> sequences ev = [max 2 (Suc rt)..<Suc (max rt (n + length cs))] \<and> same_stream s t"
proof -
  let ?k = "min (rt - n) (length cs)"
  let ?d1 = "take ?k d" and ?d2 = "drop ?k d"
  have len: "length d = length cs" using d by (auto simp: decoded_as_def dest: list_all2_lengthD)
  have "map fst ?d1 = [Suc n..<Suc n + ?k]"
    using d by (simp add: decoded_as_def take_map [symmetric] take_upt del: upt_Suc)
  then have in_range: "set (map fst ?d1) = {Suc n..<Suc n + ?k}" by (simp only: set_upt)
  have "fst x \<le> rt" if "x \<in> set ?d1" for x
  proof -
    from that have "fst x \<in> set (map fst ?d1)" by simp
    then show ?thesis using n min.cobounded1 [of "rt - n" "length cs"] unfolding in_range by auto
  qed
  then have skip: "record_frames E rt ?d1 s = ([], s)" by (intro record_frames_skip) auto
  show ?thesis
  proof (cases "rt - n < length cs")
    case False
    then have k: "?k = length cs" by simp
    then have "record_frames E rt d s = ([], s)" using skip len by simp
    moreover have "max rt (n + length cs) = rt" using False n by simp
    ultimately show ?thesis using h False by simp
  next
    case True
    then have k: "?k = rt - n" by simp
    have "decoded_as (lc_max_frame_bytes (lv_config E)) decode (Suc rt) (drop ?k cs) ?d2"
      using d n True
      by (auto simp: decoded_as_def drop_map [symmetric] list_all2_dropI k add.commute simp del: upt_Suc)
    from record_frames_new [OF this order_refl h] obtain ev t where
      r: "record_frames E rt ?d2 s = (ev, t)" "holds (lv_config E) (rt + length (drop ?k cs)) t (bs @ drop ?k cs)"
      "sequences ev = [max 2 (Suc rt)..<Suc (rt + length (drop ?k cs))]" "same_stream s t" by blast
    have "record_frames E rt d s = (ev, t)"
      using record_frames_append [of E rt ?d1 ?d2 s] skip r(1) by simp
    moreover have e: "rt + length (drop ?k cs) = max rt (n + length cs)" using True n by simp
    ultimately show ?thesis using r(2-4) unfolding e unfolding k by blast
  qed
qed

section \<open>The registry's invariant\<close>

definition session_inv :: "live_config \<Rightarrow> live_session \<Rightarrow> bool" where
  "session_inv c s \<longleftrightarrow> window_ok c s \<and> le_sequence (ls_open_event s) = 1
     \<and> (\<exists>bs. holds c (ls_last_sequence s) s bs)"

definition registry_inv :: "live_config \<Rightarrow> live_registry \<Rightarrow> bool" where
  "registry_inv c R \<longleftrightarrow> distinct (map fst (lr_sessions R))
     \<and> (\<forall>key s. get_session R key = Some s \<longrightarrow> ls_source s = Source_Capture
          \<or> ls_source s = Source_Checkpoint \<and> session_inv c s)
     \<and> session_count R \<le> lc_max_sessions c
     \<and> (\<forall>project. project_sessions R project \<le> lc_max_sessions_per_project c)"

lemma get_session_simps [simp]:
  "get_session (map_subs ids f R) key = get_session R key"
  "get_session (put_session key s R) key' = (if key' = key then Some s else get_session R key')"
  "get_session (pop_session key R) key' = (if key' = key then None else get_session R key')"
  "get_session (R\<lparr>lr_subs := x\<rparr>) key = get_session R key"
  "get_session (R\<lparr>lr_next := n\<rparr>) key = get_session R key"
  "get_session (R\<lparr>lr_connections := n\<rparr>) key = get_session R key"
  "get_session (R\<lparr>lr_project_connections := y\<rparr>) key = get_session R key"
  by (simp_all add: get_session_def map_subs_def put_session_def pop_session_def dict_simps)

lemma map_subs_sessions [simp]: "lr_sessions (map_subs ids f R) = lr_sessions R"
  by (simp add: map_subs_def)

lemma registry_inv_cong: "lr_sessions R' = lr_sessions R \<Longrightarrow> registry_inv c R' = registry_inv c R"
  by (simp add: registry_inv_def get_session_def session_count_def project_sessions_def)

lemma update_keys_present:
  "k \<in> set (map fst d) \<Longrightarrow> map fst (AList.update k v d) = map fst d"
  by (induction d) auto

lemma update_absent: "k \<notin> set (map fst d) \<Longrightarrow> AList.update k v d = d @ [(k, v)]"
  by (induction d) auto

lemma count_by_key:
  "map fst d = map fst d' \<Longrightarrow> length (filter (\<lambda>(k, _). P k) d) = length (filter (\<lambda>(k, _). P k) d')"
proof -
  assume "map fst d = map fst d'"
  moreover have "length (filter (\<lambda>(k, _). P k) e) = length (filter P (map fst e))" for e :: "('a \<times> 'c) list"
    by (induction e) auto
  moreover have "length (filter (\<lambda>(k, _). P k) e) = length (filter P (map fst e))" for e :: "('a \<times> 'b) list"
    by (induction e) auto
  ultimately show ?thesis by metis
qed

lemma put_present_inv:
  assumes "registry_inv c R" "get_session R key = Some s0"
    and "ls_source s = Source_Capture \<or> ls_source s = Source_Checkpoint \<and> session_inv c s"
  shows "registry_inv c (put_session key s R)"
proof -
  have "key \<in> set (map fst (lr_sessions R))"
    using assms(2) by (auto simp: get_session_def dest: map_of_SomeD intro: rev_image_eqI)
  then have k: "map fst (lr_sessions (put_session key s R)) = map fst (lr_sessions R)"
    by (simp add: put_session_def update_keys_present)
  then have "session_count (put_session key s R) = session_count R"
    unfolding session_count_def by (metis length_map)
  moreover have "project_sessions (put_session key s R) project = project_sessions R project" for project
    unfolding project_sessions_def by (rule count_by_key [OF k])
  ultimately show ?thesis using assms k by (auto simp: registry_inv_def)
qed

lemma put_new_inv:
  assumes "registry_inv c R" "get_session R (project, sid) = None" "quota_ok c project R"
    and "ls_source s = Source_Capture \<or> ls_source s = Source_Checkpoint \<and> session_inv c s"
  shows "registry_inv c (put_session (project, sid) s R)"
proof -
  have "(project, sid) \<notin> set (map fst (lr_sessions R))"
    using assms(2) by (auto simp: get_session_def map_of_eq_None_iff)
  then have k: "lr_sessions (put_session (project, sid) s R) = lr_sessions R @ [((project, sid), s)]"
    by (simp add: put_session_def update_absent)
  have "get_session (put_session (project, sid) s R) key = Some t \<Longrightarrow>
      ls_source t = Source_Capture \<or> ls_source t = Source_Checkpoint \<and> session_inv c t" for key t
    using assms(1,4) by (cases key) (auto simp: registry_inv_def split: if_splits)
  moreover have "distinct (map fst (lr_sessions (put_session (project, sid) s R)))"
    using \<open>(project, sid) \<notin> _\<close> assms(1) by (simp add: k registry_inv_def)
  moreover have "session_count (put_session (project, sid) s R) \<le> lc_max_sessions c"
    using assms(3) by (simp add: k session_count_def quota_ok_def)
  moreover have "project_sessions (put_session (project, sid) s R) q \<le> lc_max_sessions_per_project c" for q
  proof (cases "q = project")
    case True
    with assms(3) show ?thesis by (simp add: k project_sessions_def quota_ok_def)
  next
    case False
    with assms(1) show ?thesis by (auto simp: k project_sessions_def registry_inv_def)
  qed
  ultimately show ?thesis by (simp add: registry_inv_def del: get_session_simps)
qed

lemma delete_filter: "AList.delete k d = filter (\<lambda>(k', _). k' \<noteq> k) d"
  by (auto simp: AList.delete_eq case_prod_beta intro: filter_cong)

lemma filter_sessions_inv:
  assumes "registry_inv c R" "lr_sessions R' = filter (\<lambda>(k, _). P k) (lr_sessions R)"
  shows "registry_inv c R'"
proof -
  have "distinct (map fst (lr_sessions R'))"
    using assms by (auto simp: registry_inv_def intro: distinct_map_filter)
  moreover have "get_session R' key = Some s \<longrightarrow> get_session R key = Some s" for key s
    using assms \<open>distinct (map fst (lr_sessions R'))\<close>
    by (auto simp: get_session_def registry_inv_def dest!: map_of_SomeD intro: map_of_is_SomeI)
  moreover have "session_count R' \<le> session_count R"
    by (simp add: session_count_def assms(2))
  moreover have "project_sessions R' project \<le> project_sessions R project" for project
  proof -
    have "filter (\<lambda>(k, _). fst k = project) (filter (\<lambda>(k, _). P k) (lr_sessions R))
        = filter (\<lambda>(k, _). P k) (filter (\<lambda>(k, _). fst k = project) (lr_sessions R))"
      by (simp add: conj_commute case_prod_beta)
    then show ?thesis unfolding project_sessions_def assms(2) by (metis length_filter_le)
  qed
  ultimately show ?thesis using assms(1) unfolding registry_inv_def by (meson order_trans)
qed

lemma pop_inv: "registry_inv c R \<Longrightarrow> registry_inv c (pop_session key R)"
  by (rule filter_sessions_inv [of c R _ "\<lambda>k. k \<noteq> key"]) (auto simp: pop_session_def delete_filter)

section \<open>What an accepted batch is\<close>

lemma scan_loop_first:
  "scan_loop m None data e off fs s = ((fs', off', st), s') \<Longrightarrow>
   \<exists>gs. fs' = fs @ gs \<and> (gs \<noteq> [] \<longrightarrow> fr_sequence (hd gs) = e)"
proof (induction "length data - off" arbitrary: e off fs rule: less_induct)
  case less
  show ?case
  proof (cases "off < length data \<and> (\<exists>b en. frame_at m data e off = Inr (b, en))")
    case False
    with less.prems show ?thesis
      by (subst (asm) scan_loop.simps) (auto split: if_splits sum.splits)
  next
    case True
    then obtain b en where fa: "frame_at m data e off = Inr (b, en)" and off: "off < length data" by blast
    from frame_at_end [OF fa] have "length data - en < length data - off" using off by auto
    moreover from less.prems fa off have
      "scan_loop m None data (e + 1) en (fs @ [\<lparr>fr_sequence = e, fr_body = b\<rparr>]) s = ((fs', off', st), s')"
      by (subst (asm) scan_loop.simps) simp
    ultimately obtain gs where "fs' = (fs @ [\<lparr>fr_sequence = e, fr_body = b\<rparr>]) @ gs"
      using less.hyps by blast
    then show ?thesis by (intro exI [of _ "\<lparr>fr_sequence = e, fr_body = b\<rparr> # gs"]) simp
  qed
qed

lemma plain_scan_first:
  "fs_frames (plain_scan data m first) \<noteq> [] \<Longrightarrow> fr_sequence (hd (fs_frames (plain_scan data m first))) = first"
  using scan_loop_first [of m data first 0 "[]" "()"]
  by (auto simp: scan_frames_def split: prod.splits)

lemma slot_zero_refused:
  "d \<noteq> [] \<Longrightarrow> fst (hd d) = 0 \<Longrightarrow> assert_continues (Some s) closed d \<noteq> None"
  by (cases d) (auto simp: checksum_def)

lemma decode_batch_hd:
  "decode_batch decode payload off fs = Some d \<Longrightarrow> fs \<noteq> [] \<Longrightarrow> d \<noteq> [] \<and> fst (hd d) = fr_sequence (hd fs)"
  by (cases fs) (auto simp: Let_def split: option.splits)

definition accepted_run ::
  "('j, 'p) live_env \<Rightarrow> live_session option \<Rightarrow> bytes \<Rightarrow> nat \<Rightarrow> bytes list \<Rightarrow> 'j decoded
     \<Rightarrow> journal_open option \<Rightarrow> bool \<Rightarrow> bool" where
  "accepted_run E session payload n cs decoded header replace \<longleftrightarrow>
     cs \<noteq> [] \<and> encode_frames (lc_max_frame_bytes (lv_config E)) (Suc n) cs = Inr payload
     \<and> decoded_as (lc_max_frame_bytes (lv_config E)) (lv_decode E) (Suc n) cs decoded
     \<and> (\<forall>s. session = Some s \<longrightarrow> ls_source s \<noteq> Source_Capture)
     \<and> (n = 0 \<longleftrightarrow> header \<noteq> None) \<and> (session = None \<longrightarrow> n = 0 \<and> \<not> replace) \<and> (replace \<longrightarrow> n = 0)
     \<and> (replace \<longrightarrow> (\<forall>s h. session = Some s \<and> header = Some h \<longrightarrow> ls_journal_id s \<noteq> jo_journal_id h))
     \<and> (\<not> replace \<longrightarrow> (\<forall>s h. session = Some s \<and> header = Some h \<longrightarrow> ls_journal_id s = jo_journal_id h))
     \<and> (\<not> replace \<longrightarrow> (\<forall>s. session = Some s \<longrightarrow> n \<le> ls_last_sequence s
          \<and> (\<forall>(q, e, f) \<in> set decoded. q \<le> ls_last_sequence s \<longrightarrow>
                checksum s q = Some (from_be (frame_crc_bytes f)))))"

lemma check_batch_ok:
  assumes "check_batch E sid payload session = Inr (decoded, header, replace)"
  shows "\<exists>n cs. accepted_run E session payload n cs decoded header replace"
proof -
  let ?m = "lc_max_frame_bytes (lv_config E)" and ?first = "unpack32 payload 1"
  let ?scan = "plain_scan payload ?m ?first" and ?cand = "if replace then None else session"
  from assms have c: "\<forall>s. session = Some s \<longrightarrow> ls_source s \<noteq> Source_Capture"
    "?first \<noteq> 1 \<longrightarrow> session \<noteq> None \<and> ?first \<le> ls_last_sequence (the session) + 1"
    "fs_torn ?scan = 0" "fs_frames ?scan \<noteq> []"
    "decode_batch (lv_decode E) payload 0 (fs_frames ?scan) = Some decoded"
    "batch_header sid ?first decoded = Inr header"
    "replace = (case (session, header) of (Some s, Some h) \<Rightarrow> ls_journal_id s \<noteq> jo_journal_id h | _ \<Rightarrow> False)"
    "assert_continues ?cand (starts_closed ?cand) decoded = None"
    by (auto simp: check_batch_def Let_def split: if_splits option.splits sum.splits)
  have hdr: "header \<noteq> None \<longleftrightarrow> ?first = 1"
    using c(6) by (auto simp: batch_header_def split: if_splits list.splits journal_entry.splits)
  have "?first \<noteq> 0"
  proof
    assume z: "?first = 0"
    with hdr c(7) have "\<not> replace" by (auto split: option.splits)
    moreover from z c(2) obtain s where "session = Some s" by auto
    ultimately show False
      using slot_zero_refused [of decoded s "starts_closed (Some s)"] decode_batch_hd [OF c(5,4)] plain_scan_first [OF c(4)] z c(8)
      by auto
  qed
  then obtain n where n: "?first = Suc n" by (cases ?first) auto
  then have one: "1 \<le> ?first" by simp
  from plain_scan_cases [OF one, of payload ?m] obtain cs w where
    cs: "fs_frames ?scan = number ?first cs" "encode_frames ?m ?first cs = Inr w"
    "take (fs_consumed ?scan) payload = w" "fs_torn ?scan = length payload - fs_consumed ?scan" by metis
  have w: "w = payload" using cs(3,4) c(3) by simp
  have "cs \<noteq> []" using c(4) cs(1) by auto
  moreover have "decoded_as ?m (lv_decode E) ?first cs decoded"
    using decode_batch_frames [OF cs(2), of payload "[]" "[]" "lv_decode E" decoded] w c(5) cs(1) by simp
  moreover have "\<not> replace \<longrightarrow> (\<forall>s. session = Some s \<longrightarrow>
      (\<forall>(q, e, f) \<in> set decoded. q \<le> ls_last_sequence s \<longrightarrow> checksum s q = Some (from_be (frame_crc_bytes f))))"
  proof (intro impI allI)
    fix s assume "\<not> replace" "session = Some s"
    with c(8) have "assert_continues (Some s) (starts_closed (Some s)) decoded = None" by simp
    from assert_continues_agrees [OF this] show "\<forall>(q, e, f) \<in> set decoded. q \<le> ls_last_sequence s \<longrightarrow>
        checksum s q = Some (from_be (frame_crc_bytes f))" by auto
  qed
  moreover have "replace \<longrightarrow> header \<noteq> None \<and> session \<noteq> None"
    "replace \<longrightarrow> (\<forall>s h. session = Some s \<and> header = Some h \<longrightarrow> ls_journal_id s \<noteq> jo_journal_id h)"
    "\<not> replace \<longrightarrow> (\<forall>s h. session = Some s \<and> header = Some h \<longrightarrow> ls_journal_id s = jo_journal_id h)"
    using c(7) by (auto split: option.splits)
  moreover have "(n = 0 \<longleftrightarrow> header \<noteq> None) \<and> (session = None \<longrightarrow> n = 0)
      \<and> (\<forall>s. session = Some s \<longrightarrow> n \<noteq> 0 \<longrightarrow> n \<le> ls_last_sequence s)"
    using c(2) n hdr by auto
  ultimately have "accepted_run E session payload n cs decoded header replace"
    using c(1) cs(2) w n unfolding accepted_run_def by auto
  then show ?thesis by blast
qed

section \<open>Accepting a batch keeps the invariant and extends the ledger\<close>

definition session_ledger :: "live_registry \<Rightarrow> session_key \<Rightarrow> 32 word list" where
  "session_ledger R key = (case get_session R key of Some s \<Rightarrow> ledger_of s | None \<Rightarrow> [])"

lemma deliver_get:
  "get_session (deliver c key events s R) key' =
     (if key' = key then Some (deliver_session c events s) else get_session R key')"
  by (simp add: deliver_def)

lemma deliver_session_fields [simp]:
  "ls_checksums (deliver_session c es s) = ls_checksums s"
  "ls_frames (deliver_session c es s) = ls_frames s"
  "ls_frames_complete (deliver_session c es s) = ls_frames_complete s"
  "ls_source (deliver_session c es s) = ls_source s"
  "ls_open_event (deliver_session c es s) = ls_open_event s"
  "ls_header (deliver_session c es s) = ls_header s"
  "ls_close_observed (deliver_session c es s) = ls_close_observed s"
  by (induction es arbitrary: s) (simp_all add: deliver_session_def append_event_def split: prod.splits)

lemma window_ok_cong:
  assumes "window_ok c s" "ls_events t = ls_events s" "ls_retained_bytes t = ls_retained_bytes s"
    "ls_last_sequence t = ls_last_sequence s"
  shows "window_ok c t"
proof -
  have "available_from_sequence t = available_from_sequence s"
    using assms by (cases "ls_events s") (simp_all add: available_from_sequence_def)
  with assms show ?thesis by (auto simp: window_ok_def simp del: upt_Suc)
qed

lemma holds_cong:
  "holds c n s bs \<Longrightarrow> ls_checksums t = ls_checksums s \<Longrightarrow> ls_frames t = ls_frames s \<Longrightarrow>
   ls_frames_complete t = ls_frames_complete s \<Longrightarrow> holds c n t bs"
  by (simp add: holds_def)

lemma holds_ledger: "holds c (ls_last_sequence s) s bs \<Longrightarrow> ledger_of s = map crc32 bs"
  by (rule ledger_of_eq) (simp_all add: holds_def)

text \<open>The common end of both branches: recording the batch over a session that holds \<open>rt\<close> slots.\<close>

lemma record_and_deliver:
  assumes d: "decoded_as (lc_max_frame_bytes (lv_config E)) decode (Suc n) cs decoded" "cs \<noteq> []"
    and h: "holds (lv_config E) rt s bs" "n \<le> rt"
    and w: "window_ok (lv_config E) s" "le_sequence (ls_open_event s) = 1" "ls_last_sequence s = max 1 rt"
    and r: "record_frames E rt decoded s = (events, s1)"
    and s2: "s2 = (if events = [] then s1 else s1\<lparr>ls_last_append := now\<rparr>)"
  shows "session_inv (lv_config E) (deliver_session (lv_config E) events s2)
    \<and> ls_source (deliver_session (lv_config E) events s2) = ls_source s
    \<and> ls_header (deliver_session (lv_config E) events s2) = ls_header s
    \<and> ls_last_sequence (deliver_session (lv_config E) events s2) = max rt (n + length cs)
    \<and> ledger_of (deliver_session (lv_config E) events s2) = map crc32 (bs @ drop (rt - n) cs)"
proof -
  let ?c = "lv_config E" and ?N = "max rt (n + length cs)"
  have N: "1 \<le> ?N" using d(2) by (cases cs) auto
  from record_frames_batch [OF d(1) h] r have
    hs: "holds ?c ?N s1 (bs @ drop (rt - n) cs)" and sq: "sequences events = [max 2 (Suc rt)..<Suc ?N]"
    and ss: "same_stream s s1" by auto
  from ss w(3) have f2: "ls_last_sequence s2 = max 1 rt" "ls_open_event s2 = ls_open_event s"
      "ls_source s2 = ls_source s" "ls_header s2 = ls_header s" "ls_events s2 = ls_events s"
      "ls_retained_bytes s2 = ls_retained_bytes s"
    by (auto simp: s2 same_stream_def)
  then have w2: "window_ok ?c s2" "ls_last_sequence s2 = max 1 rt" "ls_open_event s2 = ls_open_event s"
      "ls_source s2 = ls_source s" "ls_header s2 = ls_header s"
    using window_ok_cong [OF w(1)] w(3) by auto
  have "length events = ?N - max 1 rt"
    using arg_cong [OF sq, of length] N by (simp add: max_def split: if_splits)
  moreover have "max 2 (Suc rt) = Suc (max 1 rt)" by simp
  ultimately have sq': "sequences events = [Suc (ls_last_sequence s2)..<Suc (ls_last_sequence s2 + length events)]"
  proof -
    have "ls_last_sequence s2 + length events = ?N" using w2(2) \<open>length events = _\<close> N by simp
    then show ?thesis using sq w2(2) \<open>max 2 (Suc rt) = _\<close> by (simp only:)
  qed
  from deliver_session_window [OF w2(1) sq'] w2(2) \<open>length events = _\<close> N
  have win: "window_ok ?c (deliver_session ?c events s2)"
    and last: "ls_last_sequence (deliver_session ?c events s2) = ?N" by auto
  have "holds ?c ?N (deliver_session ?c events s2) (bs @ drop (rt - n) cs)"
    by (rule holds_cong [OF hs]) (simp_all add: s2)
  with win last w2 w(2) holds_ledger [of ?c "deliver_session ?c events s2"] show ?thesis
    by (auto simp: session_inv_def)
qed

lemma register_window:
  fixes E :: "('j, 'p) live_env"
  shows "window_ok c (deliver_session c [ls_open_event (register E sid project source header retain now)]
        (register E sid project source header retain now))
    \<and> ls_last_sequence (deliver_session c [ls_open_event (register E sid project source header retain now)]
        (register E sid project source header retain now)) = 1"
  by (simp add: register_def deliver_session_def append_event_def new_session_def window_ok_def
      available_from_sequence_def make_event_def)

lemma update_twice: "AList.update k v' (AList.update k v d) = AList.update k v' d"
  by (induction d) auto

lemma deliver_sessions:
  "lr_sessions (deliver c key events s R) = AList.update key (deliver_session c events s) (lr_sessions R)"
  by (simp add: deliver_def put_session_def)

lemma accept_refused:
  "check_batch E sid payload (get_session R (project, sid)) = Inl e \<Longrightarrow>
   accept_frames E now project sid payload R = (Inl e, R)"
  by (simp add: accept_frames_def Let_def)

lemma reset_sessions [simp]:
  "get_session (reset_session E key s j R) key' = (if key' = key then None else get_session R key')"
  "registry_inv c R \<Longrightarrow> registry_inv c (reset_session E key s j R)"
  by (simp_all add: reset_session_def Let_def pop_inv registry_inv_cong [OF map_subs_sessions])

lemma pop_makes_room:
  assumes "registry_inv c R" "get_session R (project, sid) = Some s"
  shows "quota_ok c project (pop_session (project, sid) R)"
proof -
  let ?P = "\<lambda>(k, _). k \<noteq> (project, sid)" and ?d = "lr_sessions R"
  have pop: "lr_sessions (pop_session (project, sid) R) = filter ?P ?d"
    by (simp add: pop_session_def delete_filter)
  from assms(2) have mem: "((project, sid), s) \<in> set ?d"
    by (auto simp: get_session_def dest: map_of_SomeD)
  let ?own = "filter (\<lambda>(k, _). fst k = project) ?d"
  have a: "length (filter ?P ?d) < length ?d" by (rule length_filter_less [OF mem]) simp
  have "((project, sid), s) \<in> set ?own" using mem by simp
  then have b: "length (filter ?P ?own) < length ?own" by (rule length_filter_less) simp
  have c: "filter (\<lambda>(k, _). fst k = project) (filter ?P ?d) = filter ?P ?own"
    unfolding filter_filter by (rule filter_cong) auto
  have q: "length ?d \<le> lc_max_sessions c" "length ?own \<le> lc_max_sessions_per_project c"
    using assms(1) by (simp_all add: registry_inv_def session_count_def project_sessions_def)
  show ?thesis
    unfolding quota_ok_def session_count_def project_sessions_def pop c
    by (rule conjI [OF less_le_trans [OF a q(1)] less_le_trans [OF b q(2)]])
qed

lemma quota_ok_cong: "lr_sessions R' = lr_sessions R \<Longrightarrow> quota_ok c p R' = quota_ok c p R"
  by (simp add: quota_ok_def session_count_def project_sessions_def)

text \<open>What an accepted batch leaves: the session extended by its frames, and nothing else touched.\<close>

definition accept_ok ::
  "('j, 'p) live_env \<Rightarrow> session_key \<Rightarrow> bytes \<Rightarrow> live_registry \<Rightarrow> accepted_checkpoint \<Rightarrow> live_registry \<Rightarrow> bool" where
  "accept_ok E key payload R a R' \<longleftrightarrow>
     (\<exists>s' n cs header replace decoded. accepted_run E (get_session R key) payload n cs decoded header replace
        \<and> registry_inv (lv_config E) R' \<and> get_session R' key = Some s'
        \<and> (\<forall>key'. key' \<noteq> key \<longrightarrow> get_session R' key' = get_session R key')
        \<and> ac_accepted_through a = ls_last_sequence s' \<and> session_inv (lv_config E) s'
        \<and> extends (lc_max_frame_bytes (lv_config E)) (session_ledger R key) payload (ledger_of s')
        \<and> (ls_journal_id s' = (case header of Some h \<Rightarrow> jo_journal_id h
              | None \<Rightarrow> ls_journal_id (the (get_session R key))))
        \<and> (get_session R key \<noteq> None \<and> \<not> replace \<longrightarrow> prefix (session_ledger R key) (ledger_of s')))"

lemma accept_okI:
  assumes "r = Inr a" "accepted_run E (get_session R key) payload n cs decoded header replace"
    "registry_inv (lv_config E) R'" "get_session R' key = Some s'"
    "\<And>key'. key' \<noteq> key \<Longrightarrow> get_session R' key' = get_session R key'"
    "ac_accepted_through a = ls_last_sequence s'" "session_inv (lv_config E) s'"
    "extends (lc_max_frame_bytes (lv_config E)) (session_ledger R key) payload (ledger_of s')"
    "ls_journal_id s' = (case header of Some h \<Rightarrow> jo_journal_id h
       | None \<Rightarrow> ls_journal_id (the (get_session R key)))"
    "get_session R key \<noteq> None \<and> \<not> replace \<longrightarrow> prefix (session_ledger R key) (ledger_of s')"
  shows "\<exists>a. r = Inr a \<and> accept_ok E key payload R a R'"
  unfolding accept_ok_def assms(1)
  by (rule exI [of _ a], rule conjI, rule refl, rule exI [of _ s'], rule exI [of _ n], rule exI [of _ cs],
      rule exI [of _ header], rule exI [of _ replace], rule exI [of _ decoded])
     (intro conjI allI impI assms(2-))

text \<open>Every outcome of \<open>accept_frames\<close>, on a registry that satisfies the invariant.\<close>

lemma accept_frames_cases:
  assumes inv: "registry_inv (lv_config E) R"
    and acc: "accept_frames E now project sid payload R = (r, R')"
  shows "(\<exists>e. r = Inl e \<and> R' = R) \<or> (\<exists>a. r = Inr a \<and> accept_ok E (project, sid) payload R a R')"
proof (cases "check_batch E sid payload (get_session R (project, sid))")
  case (Inl e)
  with accept_refused acc show ?thesis by fastforce
next
  case (Inr x)
  obtain decoded header replace where x: "x = (decoded, header, replace)" by (metis prod.exhaust)
  let ?c = "lv_config E" and ?key = "(project, sid)" and ?ses = "get_session R (project, sid)"
  from check_batch_ok [OF Inr [unfolded x]] obtain n cs where
    run: "accepted_run E ?ses payload n cs decoded header replace" by blast
  then have cs: "cs \<noteq> []" and enc: "encode_frames (lc_max_frame_bytes ?c) (Suc n) cs = Inr payload"
    and d: "decoded_as (lc_max_frame_bytes ?c) (lv_decode E) (Suc n) cs decoded"
    by (auto simp: accepted_run_def)
  let ?R1 = "if replace then reset_session E ?key (the ?ses) (jo_journal_id (the header)) R else R"
  have inv1: "registry_inv ?c ?R1" using inv by simp
  show ?thesis
  proof (cases "?ses = None \<or> replace")
    case True
    then have n0: "n = 0" and hdr: "header \<noteq> None" using run by (auto simp: accepted_run_def)
    have none: "get_session ?R1 ?key = None" using True by auto
    show ?thesis
    proof (cases "quota_ok ?c project ?R1")
      case False
      have "\<not> replace"
      proof
        assume r: "replace"
        with run obtain s where "?ses = Some s" by (cases ?ses) (auto simp: accepted_run_def)
        from pop_makes_room [OF inv this] have "quota_ok ?c project ?R1"
          using r by (simp add: reset_session_def Let_def quota_ok_def pop_session_def session_count_def project_sessions_def)
        with False show False ..
      qed
      with True False acc Inr x show ?thesis by (auto simp: accept_frames_def Let_def)
    next
      case room: True
      let ?new = "register E sid project Source_Checkpoint (the header) True now"
      let ?s0 = "deliver_session ?c [ls_open_event ?new] ?new"
      let ?R2 = "deliver ?c ?key [ls_open_event ?new] ?new ?R1"
      obtain events s1 where rec: "record_frames E 0 decoded ?s0 = (events, s1)" by (metis prod.exhaust)
      let ?s2 = "if events = [] then s1 else s1\<lparr>ls_last_append := now\<rparr>"
      let ?R3 = "deliver ?c ?key events ?s2 ?R2" and ?s3 = "deliver_session ?c events ?s2"
      have seq: "le_sequence (ls_open_event ?new) = 1" by (simp add: register_def new_session_def make_event_def)
      have "window_ok ?c ?s0" "ls_last_sequence ?s0 = 1"
        using register_window [of ?c E sid project Source_Checkpoint "the header" True now] by blast+
      moreover have "holds ?c 0 ?s0 []" by (simp add: holds_def register_def new_session_def)
      ultimately have s3: "session_inv ?c ?s3" "ls_source ?s3 = Source_Checkpoint"
        "ls_header ?s3 = the header" "ledger_of ?s3 = map crc32 cs"
        using record_and_deliver [OF d cs, of 0 ?s0 "[]" events s1 ?s2 now] seq rec n0
        by (simp_all add: register_def new_session_def)
      have out: "r = Inr \<lparr>ac_journal_id = ls_journal_id ?s3, ac_accepted_through = ls_last_sequence ?s3,
          ac_accepted_records = length events, ac_state = session_state ?c now ?s3, ac_sealable = sealable ?s3\<rparr>"
        "R' = ?R3"
        using acc True room Inr x rec by (auto simp: accept_frames_def Let_def deliver_get split: if_splits)
      have "lr_sessions ?R3 = lr_sessions (put_session ?key ?s3 ?R1)"
        by (simp add: deliver_sessions put_session_def update_twice)
      moreover have "registry_inv ?c (put_session ?key ?s3 ?R1)"
        using put_new_inv [OF inv1 none room, of ?s3] s3 by simp
      ultimately have inv': "registry_inv ?c R'"
        unfolding out using registry_inv_cong [of ?R3 "put_session ?key ?s3 ?R1" ?c] by blast
      have get: "get_session R' ?key = Some ?s3"
        "\<And>key. key \<noteq> ?key \<Longrightarrow> get_session R' key = get_session R key"
        unfolding out by (auto simp: deliver_get)
      have "extends (lc_max_frame_bytes ?c) (session_ledger R ?key) payload (ledger_of ?s3)"
        unfolding extends_def s3(4) using cs enc n0 by (intro exI [of _ 0] exI [of _ cs]) simp
      moreover have "ls_journal_id ?s3 = (case header of Some h \<Rightarrow> jo_journal_id h
          | None \<Rightarrow> ls_journal_id (the ?ses))" using hdr s3(3) by auto
      moreover have "?ses \<noteq> None \<and> \<not> replace \<longrightarrow> prefix (session_ledger R ?key) (ledger_of ?s3)"
        by (rule impI) (use True in \<open>elim conjE disjE; simp\<close>)
      ultimately show ?thesis using run inv' get s3(1)
        by (intro disjI2) (rule accept_okI [OF out(1)], simp_all)
    qed
  next
    case False
    then obtain s where s: "?ses = Some s" and nr: "\<not> replace" by auto
    let ?rt = "ls_last_sequence s"
    from run s have src: "ls_source s \<noteq> Source_Capture" and n: "n \<le> ?rt"
      and agree: "\<forall>(q, e, f) \<in> set decoded. q \<le> ?rt \<longrightarrow> checksum s q = Some (from_be (frame_crc_bytes f))"
      using nr by (auto simp: accepted_run_def)
    from inv s src have si: "session_inv ?c s" "ls_source s = Source_Checkpoint"
      unfolding registry_inv_def by blast+
    then obtain bs where h: "holds ?c ?rt s bs" by (auto simp: session_inv_def)
    have lb: "ledger_of s = map crc32 bs" by (rule holds_ledger [OF h])
    have len: "length bs = ?rt" using h by (simp add: holds_def)
    obtain events s1 where rec: "record_frames E ?rt decoded s = (events, s1)" by (metis prod.exhaust)
    let ?s2 = "if events = [] then s1 else s1\<lparr>ls_last_append := now\<rparr>"
    let ?R3 = "deliver ?c ?key events ?s2 R" and ?s3 = "deliver_session ?c events ?s2"
    have w: "window_ok ?c s" "le_sequence (ls_open_event s) = 1" using si by (auto simp: session_inv_def)
    then have "?rt = max 1 ?rt" using window_available [OF w(1)] by (auto simp: window_ok_def)
    from record_and_deliver [OF d cs h n w this rec refl, of now]
    have s3: "session_inv ?c ?s3" "ls_source ?s3 = Source_Checkpoint" "ls_header ?s3 = ls_header s"
      "ledger_of ?s3 = map crc32 (bs @ drop (?rt - n) cs)" using si(2) by simp_all
    have out: "r = Inr \<lparr>ac_journal_id = ls_journal_id ?s3, ac_accepted_through = ls_last_sequence ?s3,
        ac_accepted_records = length events, ac_state = session_state ?c now ?s3, ac_sealable = sealable ?s3\<rparr>"
      "R' = ?R3"
      using acc nr Inr x rec s by (auto simp: accept_frames_def Let_def deliver_get split: if_splits)
    have "lr_sessions ?R3 = lr_sessions (put_session ?key ?s3 R)"
      by (simp add: deliver_sessions put_session_def)
    moreover have "registry_inv ?c (put_session ?key ?s3 R)"
      using put_present_inv [OF inv s, of ?s3] s3 by simp
    ultimately have inv': "registry_inv ?c R'"
      unfolding out using registry_inv_cong [of ?R3 "put_session ?key ?s3 R" ?c] by blast
    have get: "get_session R' ?key = Some ?s3"
      "\<And>key. key \<noteq> ?key \<Longrightarrow> get_session R' key = get_session R key"
      unfolding out by (auto simp: deliver_get)
    have led: "session_ledger R ?key = map crc32 bs" by (simp add: session_ledger_def s lb)
    have same: "map crc32 bs ! (n + i) = crc32 (cs ! i)" if "i < length cs" "n + i < length bs" for i
    proof -
      from d have all2: "list_all2 (\<lambda>b (q, e, f). encode_frame q b (lc_max_frame_bytes ?c) = Inr f
          \<and> lv_decode E b = Some e) cs decoded" and sq: "map fst decoded = [Suc n..<Suc n + length cs]"
        by (simp_all add: decoded_as_def)
      obtain q e f where q: "decoded ! i = (q, e, f)" by (metis prod_cases3)
      have len_d: "i < length decoded" using list_all2_lengthD [OF all2] that(1) by simp
      with q have dec: "(q, e, f) \<in> set decoded" by (metis nth_mem)
      have f: "encode_frame q (cs ! i) (lc_max_frame_bytes ?c) = Inr f"
        using list_all2_nthD [OF all2 that(1)] q by simp
      have "q = map fst decoded ! i" using q len_d by simp
      also have "\<dots> = Suc n + i" using that(1) by (simp add: sq del: upt_Suc)
      finally have q: "q = Suc (n + i)" by simp
      then have "q \<le> ?rt" using that(2) len by simp
      with agree dec have "checksum s q = Some (from_be (frame_crc_bytes f))" by auto
      moreover have "checksum s q = Some (unat (crc32 (bs ! (n + i))))"
        using ledger_lookup [of s bs q] h q that(2) len by (simp add: holds_def)
      moreover have "from_be (frame_crc_bytes f) = unat (crc32 (cs ! i))"
        using frame_crc [OF f] crc_less [of "cs ! i"] by (simp add: from_be_to_be)
      ultimately show ?thesis using that(2) by (simp add: word_unat_eq_iff)
    qed
    have "extends (lc_max_frame_bytes ?c) (session_ledger R ?key) payload (ledger_of ?s3)"
      unfolding extends_def s3(4) led using cs enc n len same
      by (intro exI [of _ n] exI [of _ cs]) (simp add: drop_map)
    moreover have "ls_journal_id ?s3 = (case header of Some h \<Rightarrow> jo_journal_id h
        | None \<Rightarrow> ls_journal_id (the ?ses))"
      using run nr s s3(3) by (auto simp: accepted_run_def split: option.split)
    moreover have "?ses \<noteq> None \<and> \<not> replace \<longrightarrow> prefix (session_ledger R ?key) (ledger_of ?s3)"
      unfolding s3(4) led by simp
    ultimately show ?thesis using run inv' get s3(1)
      by (intro disjI2) (rule accept_okI [OF out(1)], simp_all)
  qed
qed

section \<open>The endpoint is a sink\<close>

lemma accept_keeps:
  assumes "registry_inv (lv_config E) R"
  shows "registry_inv (lv_config E) (snd (accept_frames E now project sid payload R))"
  using accept_frames_cases [OF assms prod.collapse [symmetric], of now project sid payload] assms
  by (auto simp: accept_ok_def)

lemma accept_ledger:
  assumes "registry_inv (lv_config E) R" "accept_frames E now project sid payload R = (r, R')"
  shows "(\<forall>e. r = Inl e \<longrightarrow> R' = R)
    \<and> (\<forall>a. r = Inr a \<longrightarrow> extends (lc_max_frame_bytes (lv_config E)) (session_ledger R (project, sid))
         payload (session_ledger R' (project, sid)))"
  using accept_frames_cases [OF assms] by (auto simp: accept_ok_def session_ledger_def)

lemma response_accepted: "checkpoint_response r = Response 202 \<longleftrightarrow> (\<exists>a. r = Inr a)"
  by (auto simp: checkpoint_response_def api_problem_def split: sum.splits accept_error.splits)

interpretation live: checkpoint_sink "post_checkpoint E clock net project sid"
  "\<lambda>b. session_ledger (snd b) (project, sid)" "\<lambda>b. registry_inv (lv_config E) (snd b)"
  "lc_max_frame_bytes (lv_config E)"
  for E clock net project sid
proof unfold_locales
  fix b :: "nat \<times> live_registry" and batch
  assume inv: "registry_inv (lv_config E) (snd b)"
  obtain n R where b: "b = (n, R)" by (metis prod.exhaust)
  obtain r R' where acc: "accept_frames E (clock n) project sid batch R = (r, R')" by (metis prod.exhaust)
  note keeps = accept_keeps [of E R "clock n" project sid batch] and led = accept_ledger [of E R, OF _ acc]
  show "registry_inv (lv_config E) (snd (snd (post_checkpoint E clock net project sid b batch)))"
    using inv keeps by (auto simp: post_checkpoint_def b split: net_fault.splits prod.splits)
  {
    assume "fst (post_checkpoint E clock net project sid b batch) = Response 202"
    then have "net n = Net_Ok" "\<exists>a. r = Inr a"
      using acc by (auto simp: post_checkpoint_def b response_accepted split: net_fault.splits)
    then show "extends (lc_max_frame_bytes (lv_config E)) (session_ledger (snd b) (project, sid)) batch
        (session_ledger (snd (snd (post_checkpoint E clock net project sid b batch))) (project, sid))"
      using led inv acc by (auto simp: post_checkpoint_def b)
  }
  {
    assume "fst (post_checkpoint E clock net project sid b batch) \<noteq> Response 202"
    then show "session_ledger (snd (snd (post_checkpoint E clock net project sid b batch))) (project, sid)
          = session_ledger (snd b) (project, sid)
        \<or> extends (lc_max_frame_bytes (lv_config E)) (session_ledger (snd b) (project, sid)) batch
          (session_ledger (snd (snd (post_checkpoint E clock net project sid b batch))) (project, sid))"
      using led inv acc
      by (cases "net n"; cases r) (auto simp: post_checkpoint_def b)
  }
qed

section \<open>What the server does by itself\<close>

definition empty_registry :: live_registry where
  "empty_registry = \<lparr>lr_sessions = [], lr_subs = [], lr_next = 0, lr_connections = 0,
     lr_project_connections = []\<rparr>"

lemma empty_registry_simps [simp]:
  "get_session empty_registry key = None" "registry_inv c empty_registry"
  "session_ledger empty_registry key = []"
  by (simp_all add: empty_registry_def get_session_def registry_inv_def session_count_def
      project_sessions_def session_ledger_def)

text \<open>
  Between two requests of an uploader the server may restart with nothing in memory, drop or expire
  sessions, and accept other producers' batches.
\<close>

inductive server_step ::
  "('j, 'p) live_env \<Rightarrow> session_key \<Rightarrow> nat \<times> live_registry \<Rightarrow> nat \<times> live_registry \<Rightarrow> bool"
  for E key where
  Server_Restart: "server_step E key (n, R) (n, empty_registry)"
| Server_Drop: "server_step E key (n, R) (n, snd (drop_session project sid reason R))"
| Server_Expire: "server_step E key (n, R) (n, expire (lv_config E) now R)"
| Server_Other: "(project, sid) \<noteq> key \<Longrightarrow>
    server_step E key (n, R) (n, snd (accept_frames E now project sid payload R))"

lemma drop_session_keeps:
  assumes "registry_inv c R"
  shows "registry_inv c (snd (drop_session project sid reason R))
    \<and> (session_ledger (snd (drop_session project sid reason R)) key \<in> {session_ledger R key, []})"
  using pop_inv [OF assms, of "(project, sid)"]
  by (auto simp: drop_session_def session_ledger_def registry_inv_cong [OF map_subs_sessions] assms
      split: option.splits)

lemma expire_keeps:
  assumes "registry_inv c R"
  shows "registry_inv c (expire c now R) \<and> session_ledger (expire c now R) key \<in> {session_ledger R key, []}"
proof -
  have "registry_inv c (fold (\<lambda>(p, i) R. snd (drop_session p i End_Session_Expired R)) ks R)
      \<and> session_ledger (fold (\<lambda>(p, i) R. snd (drop_session p i End_Session_Expired R)) ks R) key
        \<in> {session_ledger R key, []}" for ks
    using assms
  proof (induction ks arbitrary: R)
    case (Cons x ks)
    with drop_session_keeps [OF Cons.prems, of "fst x" "snd x" End_Session_Expired key] show ?case
      by (cases x) force
  qed simp
  then show ?thesis by (simp add: expire_def)
qed

lemma server_step_keeps:
  assumes "server_step E key b b'" "registry_inv (lv_config E) (snd b)"
  shows "registry_inv (lv_config E) (snd b')
    \<and> (session_ledger (snd b') key = session_ledger (snd b) key \<or> session_ledger (snd b') key = [])"
  using assms
proof (induction rule: server_step.induct)
  case (Server_Other project sid n R now payload)
  obtain r R' where acc: "accept_frames E now project sid payload R = (r, R')" by (metis prod.exhaust)
  from Server_Other have inv: "registry_inv (lv_config E) R" and other: "key \<noteq> (project, sid)" by auto
  have "get_session R' key = get_session R key"
  proof (cases r)
    case (Inl e)
    with accept_frames_cases [OF inv acc] show ?thesis by auto
  next
    case (Inr a)
    with accept_frames_cases [OF inv acc] have "accept_ok E (project, sid) payload R a R'" by auto
    with other show ?thesis unfolding accept_ok_def by blast
  qed
  moreover have "registry_inv (lv_config E) R'" using accept_keeps [OF inv] acc by (metis snd_conv)
  ultimately show ?case by (simp add: acc session_ledger_def)
qed (use drop_session_keeps expire_keeps in auto)

section \<open>Samples\<close>

text \<open>A server that decodes the sample journal, and the registry after its first upload.\<close>

definition sample_live_env :: "(unit, unit) live_env" where
  "sample_live_env = \<lparr>lv_config = sample_live_config, lv_decode = sample_decoder, lv_policy = (\<lambda>_. Some ()),
     lv_metadata_only = (), lv_preflight = (\<lambda>_ _. True), lv_event = (\<lambda>_ _. (Event_Record, JNull)),
     lv_open_payload = (\<lambda>_ _. JNull), lv_dump = (\<lambda>_. ''x'')\<rparr>"

definition sample_uploaded :: live_session where
  "sample_uploaded =
     (new_session ''s'' ''p'' Source_Checkpoint sample_header
       (make_event (\<lambda>_. ''x'') Event_Open ''ab'' 1 JNull) 0 True)
     \<lparr>ls_last_sequence := 1, ls_events := [make_event (\<lambda>_. ''x'') Event_Open ''ab'' 1 JNull],
      ls_retained_bytes := size_bytes (make_event (\<lambda>_. ''x'') Event_Open ''ab'' 1 JNull), ls_frames := Some sample_frame,
      ls_checksums := [0xD3, 0xD9, 0x9E, 0x8B]\<rparr>"

definition sample_registry :: live_registry where
  "sample_registry = empty_registry\<lparr>lr_sessions := [((''p'', ''s''), sample_uploaded)]\<rparr>"

lemma sample_live_env_fields [simp]:
  "lv_config sample_live_env = sample_live_config" "lv_decode sample_live_env = sample_decoder"
  "lv_policy sample_live_env h = Some ()" "lv_preflight sample_live_env p x"
  "lv_open_payload sample_live_env h q = JNull" "lv_dump sample_live_env j = ''x''"
  by (simp_all add: sample_live_env_def)

lemma sample_check:
  "check_batch sample_live_env ''s'' sample_frame None =
     Inr ([(1, Open_Entry sample_header, sample_frame)], Some sample_header, False)"
proof -
  have "plain_scan sample_frame 16 1 =
      \<lparr>fs_frames = [\<lparr>fr_sequence = 1, fr_body = [0x41]\<rparr>], fs_consumed = 14, fs_torn = 0, fs_stop = None\<rparr>"
    by (simp add: frame_eval)
  then show ?thesis
    by (simp add: check_batch_def sample_live_config_def sample_decoder_def unpack32_def
      from_be_def frame_sizes frame_end_def batch_header_def preflight_ok_def last_sequence_def starts_closed_def
      sample_header_def JOURNAL_FORMAT_VERSION_def)
qed

lemma sample_accept:
  "accept_frames sample_live_env 0 ''p'' ''s'' sample_frame empty_registry =
     (Inr \<lparr>ac_journal_id = ''ab'', ac_accepted_through = 1, ac_accepted_records = 0,
        ac_state = session_state sample_live_config 0 sample_uploaded, ac_sealable = True\<rparr>, sample_registry)"
  by (simp add: accept_frames_def sample_check Let_def quota_ok_def register_def deliver_get deliver_def
    put_session_def sample_live_config_def make_event_def new_session_def get_session_def session_count_def
    project_sessions_def empty_registry_def map_subs_def frame_crc_bytes_def CHECKSUM_SIZE_def
    deliver_session_def append_event_def sample_uploaded_def sample_registry_def retain_memory_frame_def
    remember_checksum_def sealable_def sample_header_def)

lemma sample_registry_inv: "registry_inv (lv_config sample_live_env) sample_registry"
  using accept_keeps [of sample_live_env empty_registry 0 "''p''" "''s''" sample_frame]
  by (simp add: sample_accept)

lemma sample_registry_get: "get_session sample_registry (''p'', ''s'') = Some sample_uploaded"
  by (simp add: sample_registry_def get_session_def)

lemma sample_flush:
  "flush (post_checkpoint sample_live_env (\<lambda>_. 0) (\<lambda>_. Net_Ok) ''p'' ''s'') 9 (Some sample_frame) True
     (0, empty_registry) (start_uploader None True None)
   = (True, acknowledge True 14 sample_frame (start_uploader None True None), (1, sample_registry))"
proof -
  have "plan_batch sample_frame 0 9 = (14, None)"
    by (simp add: plan_batch_def plan_loop.simps Let_def frame_sizes unpack32_def from_be_def limit_defs)
  then show ?thesis
    by (simp add: flush_def start_uploader_def load_offset_def post_batch_def post_checkpoint_def
        sample_accept checkpoint_response_def)
qed

section \<open>Properties\<close>

text \<open>
  C4. Accepting a batch is atomic and only appends: a refused batch changes nothing at all; an
  accepted one leaves every other session as it was and extends this session's ledger by the batch's own
  checksums, keeping what was recorded as long as the journal is the same; the registry's invariant
  (quotas, ledgers, retained frames, replay windows) holds after either.
\<close>

theorem accept_frames_atomic:
  assumes "registry_inv (lv_config E) R" and "accept_frames E now project sid payload R = (r, R')"
  shows "registry_inv (lv_config E) R'
    \<and> (case r of
         Inl e \<Rightarrow> R' = R
       | Inr a \<Rightarrow> (\<forall>key. key \<noteq> (project, sid) \<longrightarrow> get_session R' key = get_session R key)
           \<and> ac_accepted_through a = length (session_ledger R' (project, sid))
           \<and> extends (lc_max_frame_bytes (lv_config E)) (session_ledger R (project, sid)) payload
                (session_ledger R' (project, sid))
           \<and> (\<forall>s s'. get_session R (project, sid) = Some s \<and> get_session R' (project, sid) = Some s'
                \<and> ls_journal_id s' = ls_journal_id s \<longrightarrow>
                prefix (session_ledger R (project, sid)) (session_ledger R' (project, sid))))"
proof (cases r)
  case (Inl e)
  with accept_frames_cases [OF assms] assms(1) show ?thesis by auto
next
  case (Inr a)
  with accept_frames_cases [OF assms] have "accept_ok E (project, sid) payload R a R'" by auto
  then obtain s' n cs header replace decoded where
    run: "accepted_run E (get_session R (project, sid)) payload n cs decoded header replace"
    and ok: "registry_inv (lv_config E) R'" "get_session R' (project, sid) = Some s'"
      "\<forall>key'. key' \<noteq> (project, sid) \<longrightarrow> get_session R' key' = get_session R key'"
      "ac_accepted_through a = ls_last_sequence s'" "session_inv (lv_config E) s'"
      "extends (lc_max_frame_bytes (lv_config E)) (session_ledger R (project, sid)) payload (ledger_of s')"
      "ls_journal_id s' = (case header of Some h \<Rightarrow> jo_journal_id h
         | None \<Rightarrow> ls_journal_id (the (get_session R (project, sid))))"
      "get_session R (project, sid) \<noteq> None \<and> \<not> replace \<longrightarrow> prefix (session_ledger R (project, sid)) (ledger_of s')"
    unfolding accept_ok_def by blast
  have "\<not> replace" if "get_session R (project, sid) = Some s" "ls_journal_id s' = ls_journal_id s" for s
    using run that ok(7) by (auto simp: accepted_run_def split: option.splits)
  moreover have "length (ledger_of s') = ls_last_sequence s'" by (simp add: ledger_of_def del: upt_Suc)
  ultimately show ?thesis using ok Inr by (auto simp: session_ledger_def)
qed

theorem accept_frames_atomic_witness:
  "registry_inv (lv_config sample_live_env) sample_registry
   \<and> length (session_ledger sample_registry (''p'', ''s'')) = 1"
  using accept_frames_atomic [OF _ sample_accept] by simp

text \<open>
  What an operator seals is the journal: the bytes of a seal snapshot scan as intact frames, from
  the first slot to the session's last, with no torn tail, and their checksums are the ledger's.
\<close>

theorem seal_snapshot_is_whole:
  assumes "registry_inv (lv_config E) R" and "seal_snapshot project sid R = Inr data"
    and "get_session R (project, sid) = Some s" and "ls_source s = Source_Checkpoint"
  shows "fs_torn (plain_scan data (lc_max_frame_bytes (lv_config E)) 1) = 0
    \<and> map fr_sequence (fs_frames (plain_scan data (lc_max_frame_bytes (lv_config E)) 1))
        = [1..<Suc (ls_last_sequence s)]
    \<and> map (crc32 \<circ> fr_body) (fs_frames (plain_scan data (lc_max_frame_bytes (lv_config E)) 1)) = ledger_of s
    \<and> length data \<le> lc_max_seal_bytes (lv_config E) \<and> sealable s"
proof -
  let ?c = "lv_config E"
  from assms(1,3) have "ls_source s = Source_Capture \<or> session_inv ?c s"
    unfolding registry_inv_def by blast
  with assms(4) have "session_inv ?c s" by simp
  then obtain bs where h: "holds ?c (ls_last_sequence s) s bs" by (auto simp: session_inv_def)
  from assms(2,3) have f: "ls_frames s = Some data" "ls_frames_complete s"
    by (auto simp: seal_snapshot_def split: option.splits if_splits)
  with h have enc: "encode_frames (lc_max_frame_bytes ?c) 1 bs = Inr data" and len: "length data \<le> lc_max_seal_bytes ?c"
    and n: "length bs = ls_last_sequence s" by (auto simp: holds_def)
  have one: "1 \<le> (1::nat)" by simp
  from plain_scan_cases [OF one, of data "lc_max_frame_bytes ?c"]
  obtain cs w where c: "fs_frames (plain_scan data (lc_max_frame_bytes ?c) 1) = number 1 cs"
    "encode_frames (lc_max_frame_bytes ?c) 1 cs = Inr w"
    "take (fs_consumed (plain_scan data (lc_max_frame_bytes ?c) 1)) data = w"
    "fs_torn (plain_scan data (lc_max_frame_bytes ?c) 1)
      = length data - fs_consumed (plain_scan data (lc_max_frame_bytes ?c) 1)" by metis
  have "cs = bs"
    using fl.scan_enc [of 1 "lc_max_frame_bytes ?c" bs data] enc c(1)
    by (simp add: journal_bytes_iff scanned_bodies_def)
  with c enc have "fs_torn (plain_scan data (lc_max_frame_bytes ?c) 1) = 0"
    by (metis diff_is_0_eq order_refl sum.inject(2) length_take min.cobounded2 min_def)
  with c(1) \<open>cs = bs\<close> n holds_ledger [OF h] len f assms(4) show ?thesis
    by (simp add: sealable_def flip: map_map del: upt_Suc)
qed

theorem seal_snapshot_is_whole_witness:
  "fs_torn (plain_scan sample_frame (lc_max_frame_bytes (lv_config sample_live_env)) 1) = 0
   \<and> sealable sample_uploaded"
proof -
  have seal: "seal_snapshot ''p'' ''s'' sample_registry = Inr sample_frame"
    by (simp add: seal_snapshot_def sample_registry_get) (simp add: sample_uploaded_def new_session_def)
  have src: "ls_source sample_uploaded = Source_Checkpoint"
    by (simp add: sample_uploaded_def new_session_def)
  show ?thesis
    using seal_snapshot_is_whole [OF sample_registry_inv seal sample_registry_get src] by simp
qed

text \<open>
  C2. End to end, the server's copy of a session is a gap-free prefix of the producer's journal:
  whatever requests or answers the network loses, however often the uploader or the server
  restarts, sessions expire and other producers upload, the ledger the server holds for the session
  is the checksums of the journal's first frames, and the uploader's offset is a frame boundary.
\<close>

theorem uploads_stay_a_prefix:
  assumes "encode_frames M 1 bs = Inr w" and "prefix data0 w"
    and "(upload_step (post_checkpoint E clock net project sid) (server_step E (project, sid)) budget w)\<^sup>*\<^sup>*
           (data0, start_uploader None readable None, (0, empty_registry)) (data, s, (n, R))"
  shows "prefix (session_ledger R (project, sid)) (map crc32 bs) \<and> registry_inv (lv_config E) R
    \<and> prefix data w \<and> (\<exists>k \<le> length bs. up_offset s = boundary bs k)"
proof -
  have env: "registry_inv (lv_config E) (snd b')
      \<and> (session_ledger (snd b') (project, sid) = session_ledger (snd b) (project, sid)
         \<or> session_ledger (snd b') (project, sid) = [])"
    if "server_step E (project, sid) b b'" "registry_inv (lv_config E) (snd b)" for b b'
    using server_step_keeps [OF that] .
  show ?thesis
    using live.upload_run_journal [where env = "server_step E (project, sid)", OF assms(1) env assms(3,2)]
    by simp
qed

theorem uploads_stay_a_prefix_witness:
  "prefix (session_ledger sample_registry (''p'', ''s'')) (map crc32 [[0x41]])"
proof -
  have "(upload_step (post_checkpoint sample_live_env (\<lambda>_. 0) (\<lambda>_. Net_Ok) ''p'' ''s'')
      (server_step sample_live_env (''p'', ''s'')) 9 sample_frame)\<^sup>*\<^sup>*
      (sample_frame, start_uploader None True None, (0, empty_registry))
      (sample_frame, acknowledge True 14 sample_frame (start_uploader None True None), (1, sample_registry))"
    using upload_step.Flush [OF _ sample_flush] by blast
  from uploads_stay_a_prefix [OF encode_sample prefix_order.order_refl this] show ?thesis by simp
qed

text \<open>
  C23. An acknowledged flush is held: when a flush returns \<^verbatim>\<open>True\<close>, the server's ledger covers
  every frame before the uploader's new offset, which is past the first frame.
\<close>

theorem acknowledged_frames_are_held:
  assumes "encode_frames M 1 bs = Inr w" and "prefix data w" and "k \<le> length bs"
    and "up_offset s = boundary bs k" and "registry_inv (lv_config E) R"
    and "prefix (session_ledger R (project, sid)) (map crc32 bs)"
    and "flush (post_checkpoint E clock net project sid) budget (Some data) persisted (n, R) s
           = (True, s', (n', R'))"
  shows "prefix (session_ledger R' (project, sid)) (map crc32 bs)
    \<and> (\<exists>j. 0 < j \<and> j \<le> length (session_ledger R' (project, sid)) \<and> up_offset s' = boundary bs j)"
  using live.flush_journal [OF _ assms(1) _ assms(3,4) _ assms(7)] assms(2,5,6) by auto

theorem acknowledged_frames_are_held_witness:
  "\<exists>j. 0 < j \<and> j \<le> length (session_ledger sample_registry (''p'', ''s''))
     \<and> up_offset (acknowledge True 14 sample_frame (start_uploader None True None)) = boundary [[0x41]] j"
proof -
  have k: "0 \<le> length [[0x41 :: byte]]" "up_offset (start_uploader None True None) = boundary [[0x41]] 0"
    by (simp_all add: start_uploader_def load_offset_def)
  have b: "registry_inv (lv_config sample_live_env) empty_registry"
    "prefix (session_ledger empty_registry (''p'', ''s'')) (map crc32 [[0x41]])" by simp_all
  show ?thesis
    using acknowledged_frames_are_held [OF encode_sample prefix_order.order_refl k b sample_flush] by simp
qed

text \<open>
  The handshake after a lost session: the uploader recognises exactly the server's demand for the
  header, and no other answer, as the sign that the backend lost the session.
\<close>

theorem lost_session_is_recognised:
  "(\<exists>error. checkpoint_response r = Refused error \<and> backend_lost_session error)
    \<longleftrightarrow> r = Inl (Sequence_Expected 1)"
proof -
  have "show_nat 1 = ''1''" by code_simp
  then have one: "show_nat n = ''1'' \<longleftrightarrow> n = 1" for n
    using show_nat_inject [of n 1] by metis
  have "(\<exists>error. t = Refused error \<and> backend_lost_session error)
      \<longleftrightarrow> (case t of Refused error \<Rightarrow> backend_lost_session error | _ \<Rightarrow> False)" for t
    by (cases t) auto
  then show ?thesis
    by (auto simp: checkpoint_response_def api_problem_def issue_def backend_lost_session_def one
        split: sum.splits accept_error.splits)
qed

end
