(* ===== verification/Writer.thy ===== *)
theory Writer
  imports Journal
begin

text \<open>
  The crash journal's writer (\<^verbatim>\<open>checkpoint/writer.py\<close>, \<open>CheckpointWriter\<close>): its
  state, every operation that changes it, and the guarantee that what it admitted is what the reader
  of \<^verbatim>\<open>Journal\<close> replays after the process dies.

  The operating system is an environment: the outcome of the n-th system call (a write, an fsync) and
  the n-th random nonce are functions of \<open>n\<close>, and \<open>ws_calls\<close> counts the calls made.
  \<open>ws_file\<close> is the content of the journal file and \<open>ws_linked\<close> whether its name exists.
  The fsync thread is the operation \<open>fsync_tick\<close>, one turn of its loop; a directory fsync
  changes no state here. An error is the name of its Python type.
\<close>

section \<open>Configuration and environment\<close>

datatype fsync_mode = Fsync_Interval | Fsync_Always | Fsync_Never

record checkpoint_config =
  wc_fsync_mode :: fsync_mode
  wc_fsync_interval_ms :: int
  wc_max_journal_bytes :: int
  wc_max_records :: int
  wc_max_frame_bytes :: int
  wc_keep_finalized :: bool

definition config_valid :: "checkpoint_config \<Rightarrow> bool" where
  "config_valid c \<longleftrightarrow> 1 \<le> wc_fsync_interval_ms c \<and> 1 \<le> wc_max_journal_bytes c
     \<and> 1 \<le> wc_max_records c \<and> 1 \<le> wc_max_frame_bytes c"

text \<open>
  \<open>we_encode\<close> is \<^verbatim>\<open>encode_entry\<close> (an error names its type), \<open>we_encrypt\<close> the
  optional \<^verbatim>\<open>AESGCM(key).encrypt\<close>.
\<close>

record 'j writer_env =
  we_config :: checkpoint_config
  we_encode :: "'j journal_entry \<Rightarrow> string + bytes"
  we_encrypt :: "(bytes \<Rightarrow> bytes \<Rightarrow> string \<Rightarrow> bytes) option"
  we_nonce :: "nat \<Rightarrow> bytes"
  we_write :: "nat \<Rightarrow> string + nat"
  we_fsync :: "nat \<Rightarrow> string option"

datatype diagnostic = Write_Failed | Journal_Full

record writer_state =
  ws_journal_id :: "string option"
  ws_descriptor :: bool
  ws_sequence :: nat
  ws_journal_bytes :: nat
  ws_degraded :: bool
  ws_journal_complete :: bool
  ws_dropped_records :: nat
  ws_closed :: bool
  ws_finalized :: bool
  ws_last_failure :: "string option"
  ws_pending_fsync :: bool
  ws_file :: bytes
  ws_linked :: bool
  ws_calls :: nat
  ws_diagnostics :: "diagnostic list"

definition initial_writer :: writer_state where
  "initial_writer = \<lparr>ws_journal_id = None, ws_descriptor = False, ws_sequence = 0,
     ws_journal_bytes = 0, ws_degraded = False, ws_journal_complete = True, ws_dropped_records = 0,
     ws_closed = False, ws_finalized = False, ws_last_failure = None, ws_pending_fsync = False,
     ws_file = [], ws_linked = False, ws_calls = 0, ws_diagnostics = []\<rparr>"

section \<open>Appending\<close>

definition notify :: "diagnostic \<Rightarrow> writer_state \<Rightarrow> writer_state" where
  "notify code s = s\<lparr>ws_diagnostics := ws_diagnostics s @ [code]\<rparr>"

definition fail_locked :: "string \<Rightarrow> writer_state \<Rightarrow> writer_state" where
  "fail_locked error s =
     (if ws_degraded s then s
      else notify Write_Failed
        (s\<lparr>ws_degraded := True, ws_journal_complete := False, ws_last_failure := Some error\<rparr>))"

text \<open>The body as it goes to disk: sealed under a fresh nonce when a key is configured.\<close>

definition seal_body :: "'j writer_env \<Rightarrow> writer_state \<Rightarrow> nat \<Rightarrow> bytes \<Rightarrow> bytes" where
  "seal_body E s sequence body =
     (case we_encrypt E of
        None \<Rightarrow> body
      | Some encrypt \<Rightarrow>
          (let nonce = we_nonce E (ws_calls s)
           in nonce @ encrypt nonce body
                (journal_frame_aad (if sequence = 1 then None else ws_journal_id s) sequence)))"

text \<open>
  \<open>write_frame\<close> is the part of \<^verbatim>\<open>_append_locked\<close> from \<^verbatim>\<open>os.write\<close> on.
\<close>

definition write_frame :: "'j writer_env \<Rightarrow> bytes \<Rightarrow> bool \<Rightarrow> writer_state \<Rightarrow> bool \<times> writer_state" where
  "write_frame E frame force_fsync s =
     (let s1 = s\<lparr>ws_calls := ws_calls s + 1\<rparr>
      in case we_write E (ws_calls s) of
        Inl error \<Rightarrow> (False, fail_locked error s1)
      | Inr written \<Rightarrow>
          (let k = min written (length frame);
               s2 = s1\<lparr>ws_file := ws_file s1 @ take k frame,
                       ws_journal_bytes := ws_journal_bytes s1 + k\<rparr>
           in if k \<noteq> length frame then (False, fail_locked ''OSError'' s2)
              else let s3 = s2\<lparr>ws_sequence := ws_sequence s2 + 1\<rparr>
                in if wc_fsync_mode (we_config E) = Fsync_Always \<or> force_fsync
                   then (case we_fsync E (ws_calls s3) of
                           Some error \<Rightarrow> (False, fail_locked error (s3\<lparr>ws_calls := ws_calls s3 + 1\<rparr>))
                         | None \<Rightarrow> (True, s3\<lparr>ws_calls := ws_calls s3 + 1\<rparr>))
                   else (True, s3\<lparr>ws_pending_fsync := True\<rparr>)))"

function append_locked ::
    "'j writer_env \<Rightarrow> 'j journal_entry \<Rightarrow> bool \<Rightarrow> bool \<Rightarrow> writer_state \<Rightarrow> bool \<times> writer_state"
  and exhaust_locked :: "'j writer_env \<Rightarrow> writer_state \<Rightarrow> writer_state" where
  "append_locked E entry force_fsync bypass_caps s =
     (if \<not> ws_descriptor s \<or> ws_degraded s \<or> ws_closed s then (False, s)
      else if \<not> ws_journal_complete s \<and> \<not> bypass_caps
        then (False, s\<lparr>ws_dropped_records := ws_dropped_records s + 1\<rparr>)
      else case we_encode E entry of
        Inl error \<Rightarrow> (False, fail_locked error s)
      | Inr body \<Rightarrow>
          (case encode_frame (ws_sequence s + 1) (seal_body E s (ws_sequence s + 1) body)
                  (nat (wc_max_frame_bytes (we_config E))) of
             Inl _ \<Rightarrow> (False, exhaust_locked E s)
           | Inr frame \<Rightarrow>
               if \<not> bypass_caps
                  \<and> (int (ws_journal_bytes s + length frame) > wc_max_journal_bytes (we_config E)
                     \<or> int (ws_sequence s) \<ge> wc_max_records (we_config E))
               then (False, exhaust_locked E s)
               else write_frame E frame force_fsync s))"
| "exhaust_locked E s =
     (if \<not> ws_journal_complete s
      then s\<lparr>ws_dropped_records := ws_dropped_records s + 1\<rparr>
      else notify Journal_Full
        (snd (append_locked E (Exhausted_Entry REASON_JOURNAL_FULL) True True
          (s\<lparr>ws_journal_complete := False, ws_dropped_records := ws_dropped_records s + 1\<rparr>))))"
  by pat_completeness auto
termination
  by (relation "measure (\<lambda>x. case x of
        Inl (E, entry, f, b, s) \<Rightarrow> (if ws_journal_complete s then 3 else 1)
      | Inr (E, s) \<Rightarrow> (if ws_journal_complete s then 2 else 0))") auto

declare append_locked.simps [simp del] exhaust_locked.simps [simp del]

section \<open>Operations\<close>

text \<open>
  \<open>opened\<close> is the outcome of creating the file (\<^verbatim>\<open>O_EXCL\<close>): an error, or a new
  empty file. \<open>header journal_id\<close> is the header the call's arguments make for a fresh identifier.
\<close>

definition open_journal ::
  "'j writer_env \<Rightarrow> string \<Rightarrow> (string \<Rightarrow> journal_open) \<Rightarrow> string option \<Rightarrow> writer_state \<Rightarrow> writer_state" where
  "open_journal E journal_id header opened s =
     (if ws_journal_id s \<noteq> None \<or> ws_closed s then s
      else case opened of
        Some error \<Rightarrow> fail_locked error s
      | None \<Rightarrow> snd (append_locked E (Open_Entry (header journal_id)) True False
          (s\<lparr>ws_descriptor := True, ws_linked := True, ws_file := [],
             ws_journal_id := Some journal_id\<rparr>)))"

definition append_entry :: "'j writer_env \<Rightarrow> 'j journal_entry \<Rightarrow> writer_state \<Rightarrow> bool \<times> writer_state" where
  "append_entry E entry s = append_locked E entry False False s"

text \<open>
  The three \<^verbatim>\<open>append_*\<close> operations build their entry and append it. A mutation carries its
  record already dumped; \<open>with_payload\<close> adds the base64 payload to it. \<open>None\<close> is the
  validation error of an incoherent mutation.
\<close>

record 'j record_mutation =
  mu_kind :: record_kind
  mu_record :: "'j option"
  mu_omissions :: "(string \<times> capture_class \<times> string) list"
  mu_retained_classes :: "capture_class list"
  mu_replaces_index :: "nat option"
  mu_raw_payload :: "bytes option"

definition mutation_entry ::
  "('j option \<Rightarrow> bytes \<Rightarrow> 'j) \<Rightarrow> 'j record_mutation \<Rightarrow> 'j journal_record option" where
  "mutation_entry with_payload mu =
     (let r = \<lparr>jr_kind = mu_kind mu,
               jr_value = (case mu_raw_payload mu of
                  Some payload \<Rightarrow> Some (with_payload (mu_record mu) payload)
                | None \<Rightarrow> mu_record mu),
               jr_omissions = map (\<lambda>(key, c, reason).
                  \<lparr>jm_field_key_sha256 = key, jm_capture_class = class_value c, jm_reason = reason\<rparr>)
                  (mu_omissions mu),
               jr_retained_classes = map class_value (mu_retained_classes mu),
               jr_replaces_index = mu_replaces_index mu\<rparr>
      in if keeps_the_mutation_coherent r then Some r else None)"

definition append_record ::
  "'j writer_env \<Rightarrow> ('j option \<Rightarrow> bytes \<Rightarrow> 'j) \<Rightarrow> 'j record_mutation \<Rightarrow> writer_state
     \<Rightarrow> (bool \<times> writer_state) option" where
  "append_record E with_payload mu s =
     map_option (\<lambda>r. append_entry E (Record_Entry r) s) (mutation_entry with_payload mu)"

definition append_limit ::
  "'j writer_env \<Rightarrow> string \<Rightarrow> string \<Rightarrow> capture_class \<Rightarrow> int \<Rightarrow> bool \<Rightarrow> bool \<Rightarrow> writer_state
     \<Rightarrow> bool \<times> writer_state" where
  "append_limit E reason kind c estimated_bytes whole_record freeze s =
     append_entry E (Limit_Entry \<lparr>jl_reason = reason, jl_kind = kind,
       jl_capture_class = class_value c, jl_estimated_bytes = nat (max 0 estimated_bytes),
       jl_whole_record = whole_record, jl_freeze = freeze\<rparr>) s"

definition append_operation_open ::
  "'j writer_env \<Rightarrow> 'j journal_operation_open \<Rightarrow> writer_state \<Rightarrow> bool \<times> writer_state" where
  "append_operation_open E opened s = append_entry E (Operation_Open_Entry opened) s"

text \<open>
  \<open>finalize\<close> takes the entry its arguments make; the writer fills in
  \<^verbatim>\<open>journal_complete\<close>.
\<close>

definition finalize_journal :: "'j writer_env \<Rightarrow> 'j journal_finalize \<Rightarrow> writer_state \<Rightarrow> writer_state" where
  "finalize_journal E f s =
     (if ws_journal_id s = None \<or> ws_closed s \<or> ws_finalized s then s
      else case append_locked E
          (Finalize_Entry (f\<lparr>jf_journal_complete := ws_journal_complete s\<rparr>)) True True s of
        (ok, s') \<Rightarrow> if ok then s'\<lparr>ws_finalized := True\<rparr> else s')"

text \<open>\<open>unlinked\<close> says whether removing the file succeeds.\<close>

definition release_journal :: "'j writer_env \<Rightarrow> bool \<Rightarrow> bool \<Rightarrow> writer_state \<Rightarrow> writer_state" where
  "release_journal E delivered unlinked s =
     (if ws_closed s then s
      else s\<lparr>ws_closed := True, ws_descriptor := False,
             ws_linked := ws_linked s \<and> \<not> (ws_finalized s \<and> delivered
               \<and> \<not> wc_keep_finalized (we_config E) \<and> unlinked)\<rparr>)"

definition fsync_tick :: "'j writer_env \<Rightarrow> writer_state \<Rightarrow> writer_state" where
  "fsync_tick E s =
     (let s1 = s\<lparr>ws_pending_fsync := False\<rparr>
      in if \<not> ws_descriptor s \<or> \<not> ws_pending_fsync s then s1
         else case we_fsync E (ws_calls s) of
           None \<Rightarrow> s1\<lparr>ws_calls := ws_calls s + 1\<rparr>
         | Some _ \<Rightarrow> fail_locked ''OSError'' (s1\<lparr>ws_calls := ws_calls s + 1\<rparr>))"

section \<open>Runs\<close>

text \<open>
  What a recorder does with an open journal. \<open>writer_step\<close> also returns the entries the operation
  admitted: those whose append returned \<^verbatim>\<open>True\<close>.
\<close>

datatype 'j writer_op =
    Op_Append "'j journal_entry"
  | Op_Finalize "'j journal_finalize"
  | Op_Release bool bool
  | Op_Fsync

fun writer_step ::
  "'j writer_env \<Rightarrow> 'j writer_op \<Rightarrow> writer_state \<Rightarrow> 'j journal_entry list \<times> writer_state" where
  "writer_step E (Op_Append e) s =
     (case append_entry E e s of (ok, s') \<Rightarrow> (if ok then [e] else [], s'))"
| "writer_step E (Op_Finalize f) s =
     (let s' = finalize_journal E f s
      in (if ws_finalized s' \<and> \<not> ws_finalized s
          then [Finalize_Entry (f\<lparr>jf_journal_complete := ws_journal_complete s\<rparr>)] else [], s'))"
| "writer_step E (Op_Release delivered unlinked) s = ([], release_journal E delivered unlinked s)"
| "writer_step E Op_Fsync s = ([], fsync_tick E s)"

fun writer_run ::
  "'j writer_env \<Rightarrow> 'j writer_op list \<Rightarrow> writer_state \<Rightarrow> 'j journal_entry list \<times> writer_state" where
  "writer_run E [] s = ([], s)"
| "writer_run E (op # ops) s =
     (case writer_step E op s of (adm, s') \<Rightarrow>
        (case writer_run E ops s' of (adm', s'') \<Rightarrow> (adm @ adm', s'')))"

fun appendable :: "'j journal_entry \<Rightarrow> bool" where
  "appendable (Record_Entry r) = True"
| "appendable (Limit_Entry l) = True"
| "appendable (Operation_Open_Entry p) = True"
| "appendable _ = False"

text \<open>The recorder appends records, limits and operations, and none after it has finalized.\<close>

fun appends_before_finalize :: "'j writer_op list \<Rightarrow> bool" where
  "appends_before_finalize [] = True"
| "appends_before_finalize (Op_Append e # ops) = (appendable e \<and> appends_before_finalize ops)"
| "appends_before_finalize (Op_Finalize f # ops) =
     (\<forall>op \<in> set ops. case op of Op_Append e \<Rightarrow> False | _ \<Rightarrow> True)"
| "appends_before_finalize (op # ops) = appends_before_finalize ops"

text \<open>
  The third-party codec and cipher do what they document: decoding inverts encoding, and decrypting
  under the same nonce and authenticated data inverts encrypting.
\<close>

definition codec_ok :: "'j writer_env \<Rightarrow> 'j decoder \<Rightarrow> cipher option \<Rightarrow> bool" where
  "codec_ok E decode cipher \<longleftrightarrow>
     (\<forall>e b. we_encode E e = Inr b \<longrightarrow> decode b = Some e)
     \<and> (case (we_encrypt E, cipher) of
          (None, None) \<Rightarrow> True
        | (Some encrypt, Some decrypt) \<Rightarrow>
            (\<forall>i. length (we_nonce E i) = AT_REST_NONCE_BYTES)
            \<and> (\<forall>n b a. length n = AT_REST_NONCE_BYTES \<longrightarrow>
                 encrypt n b a \<noteq> [] \<and> decrypt n (encrypt n b a) a = Some b)
        | _ \<Rightarrow> False)"

lemma seal_body_opens:
  assumes "codec_ok E decode cipher" "we_encode E e = Inr b" "ws_journal_id s = Some j"
  shows "Option.bind (decrypt_body cipher n (seal_body E s n b) (if n = 1 then None else Some j)) decode
    = Some e"
  using assms
  by (cases "we_encrypt E"; cases cipher)
     (auto simp: codec_ok_def seal_body_def decrypt_body_def Let_def AT_REST_NONCE_BYTES_def)

section \<open>The invariant\<close>

abbreviation max_frame :: "'j writer_env \<Rightarrow> nat" where
  "max_frame E \<equiv> nat (wc_max_frame_bytes (we_config E))"

text \<open>
  The file is a cut of the encoding of some bodies that open as entries \<open>all\<close>, the cut being at the
  end unless the writer is degraded; \<open>es\<close> are the entries whose frames are whole.
\<close>

definition writer_inv ::
  "'j writer_env \<Rightarrow> 'j decoder \<Rightarrow> cipher option \<Rightarrow> writer_state \<Rightarrow> 'j journal_entry list \<Rightarrow> bool" where
  "writer_inv E decode cipher s es \<longleftrightarrow>
     (\<exists>j bs all w. ws_journal_id s = Some j \<and> encode_frames (max_frame E) 1 bs = Inr w
        \<and> opens_as decode cipher j 1 bs all
        \<and> prefix (ws_file s) w \<and> frames_within (length (ws_file s)) bs = ws_sequence s
        \<and> es = take (ws_sequence s) all \<and> (\<not> ws_degraded s \<longrightarrow> ws_file s = w)
        \<and> (all = [] \<or> journal_shape all \<and> (\<exists>h. hd all = Open_Entry h \<and> jo_journal_id h = j))
        \<and> ws_journal_bytes s = length (ws_file s))"

text \<open>The fields appending never writes.\<close>

definition same_session :: "writer_state \<Rightarrow> writer_state \<Rightarrow> bool" where
  "same_session s s' \<longleftrightarrow> ws_journal_id s' = ws_journal_id s \<and> ws_descriptor s' = ws_descriptor s
     \<and> ws_closed s' = ws_closed s \<and> ws_finalized s' = ws_finalized s \<and> ws_linked s' = ws_linked s
     \<and> (ws_journal_complete s' \<longrightarrow> ws_journal_complete s) \<and> (ws_degraded s \<longrightarrow> ws_degraded s')"

lemma same_session_simps [simp]:
  "same_session s s"
  "same_session s (notify c t) = same_session s t"
  "same_session s (s\<lparr>ws_dropped_records := d\<rparr>)"
  by (auto simp: same_session_def notify_def)

lemma same_session_trans: "same_session s t \<Longrightarrow> same_session t u \<Longrightarrow> same_session s u"
  by (auto simp: same_session_def)

text \<open>What may follow \<open>es\<close> in a journal under the identifier \<open>j\<close>.\<close>

definition may_follow :: "string \<Rightarrow> 'j journal_entry list \<Rightarrow> 'j journal_entry \<Rightarrow> bool" where
  "may_follow j es e \<longleftrightarrow>
     (if es = [] then (\<exists>h. e = Open_Entry h \<and> jo_version h = JOURNAL_FORMAT_VERSION
                          \<and> jo_journal_id h = j)
      else \<not> is_open e \<and> \<not> is_finalize (last es))"

lemma opens_as_snoc:
  "opens_as decode cipher j n bs es \<Longrightarrow>
   Option.bind (decrypt_body cipher (n + length bs) b (if n + length bs = 1 then None else Some j)) decode
     = Some e \<Longrightarrow> opens_as decode cipher j n (bs @ [b]) (es @ [e])"
  by (induction decode cipher j n bs es rule: opens_as.induct) auto

lemma encode_frames_snoc:
  assumes "encode_frames m 1 bs = Inr w" "encode_frame (length bs + 1) b m = Inr f"
  shows "encode_frames m 1 (bs @ [b]) = Inr (w @ f)"
  using assms by (simp add: encode_frames_append)

text \<open>A healthy writer's file, and what cutting one more frame at \<open>k\<close> bytes leaves.\<close>

lemma writer_inv_extend:
  assumes inv: "writer_inv E decode cipher s es" and ok: "\<not> ws_degraded s"
    and cod: "codec_ok E decode cipher" and e: "we_encode E e = Inr b"
    and j: "ws_journal_id s = Some j" and fol: "may_follow j es e"
    and f: "encode_frame (ws_sequence s + 1) (seal_body E s (ws_sequence s + 1) b) (max_frame E) = Inr f"
    and s': "ws_journal_id s' = Some j" "ws_file s' = ws_file s @ take k f" "k \<le> length f"
      "ws_journal_bytes s' = ws_journal_bytes s + k"
      "ws_sequence s' = ws_sequence s + (if k = length f then 1 else 0)"
      "k = length f \<or> ws_degraded s'"
  shows "writer_inv E decode cipher s' (if k = length f then es @ [e] else es)"
proof -
  from inv ok j obtain bs all where bs: "encode_frames (max_frame E) 1 bs = Inr (ws_file s)"
    "opens_as decode cipher j 1 bs all" "frames_within (length (ws_file s)) bs = ws_sequence s"
    "es = take (ws_sequence s) all"
    "all = [] \<or> journal_shape all \<and> (\<exists>h. hd all = Open_Entry h \<and> jo_journal_id h = j)"
    "ws_journal_bytes s = length (ws_file s)"
    by (auto simp: writer_inv_def)
  note len = encode_frames_length [OF bs(1)]
  have n: "length bs = ws_sequence s" using bs(3) len frames_within_all [of bs "length (ws_file s)"] by simp
  have all: "all = es" using bs(2,4) n opens_as_length by fastforce
  let ?b = "seal_body E s (ws_sequence s + 1) b"
  have enc: "encode_frames (max_frame E) 1 (bs @ [?b]) = Inr (ws_file s @ f)"
    using encode_frames_snoc [OF bs(1)] f n by simp
  have op: "opens_as decode cipher j 1 (bs @ [?b]) (es @ [e])"
    using opens_as_snoc [of decode cipher j 1 bs es ?b e] bs(2) all n
      seal_body_opens [OF cod e j, of "ws_sequence s + 1"] by (simp add: add.commute)
  have shape: "journal_shape (es @ [e]) \<and> (\<exists>h. hd (es @ [e]) = Open_Entry h \<and> jo_journal_id h = j)"
  proof (cases "es = []")
    case True
    with fol show ?thesis by (auto simp: may_follow_def journal_shape_def)
  next
    case False
    with fol bs(5) all journal_shape_snoc [of es e] show ?thesis by (auto simp: may_follow_def)
  qed
  have within: "frames_within (length (ws_file s) + k) (bs @ [?b]) = ws_sequence s'"
  proof (cases "k = length f")
    case True
    then have "frames_size (bs @ [?b]) \<le> length (ws_file s) + k"
      using encode_frames_length [OF enc] by simp
    from frames_within_all [OF this] show ?thesis using True s'(5) n by simp
  next
    case False
    let ?n = "frames_within (length (ws_file s) + k) (bs @ [?b])"
    have "?n \<noteq> length (bs @ [?b])"
      using frames_within_size [of "length (ws_file s) + k" "bs @ [?b]"] encode_frames_length [OF enc]
        False s'(3) by auto
    moreover have "\<not> ?n < length bs"
      using frames_within_next [of "length (ws_file s) + k" "bs @ [?b]"] len
        frames_size_take_mono [of "Suc ?n" "length bs" "bs @ [?b]"] by auto
    ultimately have "?n = length bs"
      using frames_within_le [of "length (ws_file s) + k" "bs @ [?b]"] by simp
    then show ?thesis using False s'(5) n by simp
  qed
  have pre: "prefix (ws_file s') (ws_file s @ f)"
    unfolding s'(2) by (metis same_prefix_prefix take_is_prefix)
  have len': "length (ws_file s') = length (ws_file s) + k" using s'(2,3) by simp
  have es': "(if k = length f then es @ [e] else es) = take (ws_sequence s') (es @ [e])"
    using s'(5) n opens_as_length [OF op] by auto
  show ?thesis
    unfolding writer_inv_def
    by (rule exI [of _ j], rule exI [of _ "bs @ [?b]"], rule exI [of _ "es @ [e]"],
        rule exI [of _ "ws_file s @ f"])
       (use enc op pre within len' es' shape s' bs(6) in auto)
qed

section \<open>Appending keeps the invariant\<close>

lemma fail_locked_simps [simp]:
  "ws_degraded (fail_locked e s)"
  "ws_file (fail_locked e s) = ws_file s"
  "ws_sequence (fail_locked e s) = ws_sequence s"
  "ws_journal_bytes (fail_locked e s) = ws_journal_bytes s"
  "ws_journal_id (fail_locked e s) = ws_journal_id s"
  "ws_linked (fail_locked e s) = ws_linked s"
  "same_session s (fail_locked e s)"
  by (auto simp: fail_locked_def notify_def same_session_def)

lemma notify_simps [simp]:
  "ws_degraded (notify c s) = ws_degraded s"
  "ws_file (notify c s) = ws_file s"
  "ws_sequence (notify c s) = ws_sequence s"
  "ws_journal_bytes (notify c s) = ws_journal_bytes s"
  "ws_journal_id (notify c s) = ws_journal_id s"
  "ws_journal_complete (notify c s) = ws_journal_complete s"
  by (auto simp: notify_def)

lemma writer_inv_cong:
  assumes "writer_inv E decode cipher s es" "ws_journal_id s' = ws_journal_id s"
    "ws_file s' = ws_file s" "ws_sequence s' = ws_sequence s"
    "ws_journal_bytes s' = ws_journal_bytes s"
    "ws_degraded s \<longrightarrow> ws_degraded s'"
  shows "writer_inv E decode cipher s' es"
proof -
  from assms(1) obtain j bs all w where
    "ws_journal_id s = Some j \<and> encode_frames (max_frame E) 1 bs = Inr w
      \<and> opens_as decode cipher j 1 bs all
      \<and> prefix (ws_file s) w \<and> frames_within (length (ws_file s)) bs = ws_sequence s
      \<and> es = take (ws_sequence s) all \<and> (\<not> ws_degraded s \<longrightarrow> ws_file s = w)
      \<and> (all = [] \<or> journal_shape all \<and> (\<exists>h. hd all = Open_Entry h \<and> jo_journal_id h = j))
      \<and> ws_journal_bytes s = length (ws_file s)"
    unfolding writer_inv_def by blast
  with assms(2-) show ?thesis
    unfolding writer_inv_def
    by (intro exI [of _ j] exI [of _ bs] exI [of _ all] exI [of _ w]) auto
qed

text \<open>
  \<open>grows E decode cipher s es e ok s'\<close>: an append of \<open>e\<close> that returned \<open>ok\<close> left the invariant,
  with the entry on disk if \<open>ok\<close>, and otherwise nothing new, or the entry under a writer that is
  now degraded.
\<close>

definition grows ::
  "'j writer_env \<Rightarrow> 'j decoder \<Rightarrow> cipher option \<Rightarrow> writer_state \<Rightarrow> 'j journal_entry list
     \<Rightarrow> 'j journal_entry \<Rightarrow> bool \<Rightarrow> writer_state \<Rightarrow> bool" where
  "grows E decode cipher s es e ok s' \<longleftrightarrow> same_session s s' \<and>
     (\<exists>xs. writer_inv E decode cipher s' (es @ xs)
        \<and> (if ok then xs = [e] \<and> \<not> ws_degraded s'
           else xs = [] \<or> xs = [e] \<and> ws_degraded s'))"

lemma write_frame_grows:
  assumes inv: "writer_inv E decode cipher s es" and ok: "\<not> ws_degraded s"
    and cod: "codec_ok E decode cipher" and e: "we_encode E e = Inr b"
    and j: "ws_journal_id s = Some j" and fol: "may_follow j es e"
    and f: "encode_frame (ws_sequence s + 1) (seal_body E s (ws_sequence s + 1) b) (max_frame E) = Inr f"
    and w: "write_frame E f force s = (r, s')"
  shows "grows E decode cipher s es e r s'"
proof (cases "we_write E (ws_calls s)")
  case (Inl error)
  with w have "r = False" "s' = fail_locked error (s\<lparr>ws_calls := ws_calls s + 1\<rparr>)"
    by (auto simp: write_frame_def)
  then show ?thesis
    unfolding grows_def using writer_inv_cong [OF inv, of s']
    by (auto simp: fail_locked_def notify_def same_session_def intro!: exI [of _ "[]"])
next
  case (Inr n)
  let ?k = "min n (length f)"
  have ext: "writer_inv E decode cipher s' (if ?k = length f then es @ [e] else es)"
    by (rule writer_inv_extend [OF inv ok cod e j fol f, of _ ?k])
       (use w Inr j in \<open>auto simp: write_frame_def Let_def split: if_splits option.splits\<close>)
  have "same_session s s'" "r \<longrightarrow> ?k = length f \<and> \<not> ws_degraded s'"
    "\<not> r \<and> ?k = length f \<longrightarrow> ws_degraded s'"
    using w Inr ok
    by (auto simp: write_frame_def Let_def fail_locked_def notify_def same_session_def
        split: if_splits option.splits)
  with ext show ?thesis
    unfolding grows_def
    by (cases r; cases "?k = length f") (auto intro: exI [of _ "[e]"] exI [of _ "[]"])
qed

lemma grows_refl:
  "writer_inv E decode cipher s es \<Longrightarrow> same_session s s' \<Longrightarrow> ws_file s' = ws_file s \<Longrightarrow>
   ws_sequence s' = ws_sequence s \<Longrightarrow> ws_journal_bytes s' = ws_journal_bytes s \<Longrightarrow>
   grows E decode cipher s es e False s'"
proof -
  assume "writer_inv E decode cipher s es" and s: "same_session s s'" "ws_file s' = ws_file s"
    "ws_sequence s' = ws_sequence s" "ws_journal_bytes s' = ws_journal_bytes s"
  from writer_inv_cong [OF this(1), of s'] s have "writer_inv E decode cipher s' (es @ [])"
    by (simp add: same_session_def)
  with s(1) show ?thesis unfolding grows_def by (auto simp only: if_False)
qed

text \<open>Once the journal is incomplete, a failed append of a marker only counts.\<close>

lemma append_incomplete_grows:
  assumes inv: "writer_inv E decode cipher s es" and cod: "codec_ok E decode cipher"
    and j: "ws_journal_id s = Some j" and fol: "may_follow j es e"
    and inc: "\<not> ws_journal_complete s" and a: "append_locked E e force bypass s = (r, s')"
  shows "grows E decode cipher s es e r s'"
proof (cases "\<not> ws_descriptor s \<or> ws_degraded s \<or> ws_closed s \<or> \<not> bypass")
  case True
  with a inc inv show ?thesis
    by (auto simp: append_locked.simps [of E e] split: if_splits intro!: grows_refl)
next
  case False
  show ?thesis
  proof (cases "we_encode E e")
    case (Inl error)
    with a False inc have "r = False" "s' = fail_locked error s"
      by (auto simp: append_locked.simps [of E e])
    with inv show ?thesis by (auto intro!: grows_refl)
  next
    case (Inr b)
    show ?thesis
    proof (cases "encode_frame (ws_sequence s + 1) (seal_body E s (ws_sequence s + 1) b) (max_frame E)")
      case (Inl x)
      with a False inc Inr have "r = False" "s' = exhaust_locked E s"
        by (auto simp: append_locked.simps [of E e])
      with inv inc show ?thesis by (auto simp: exhaust_locked.simps intro!: grows_refl)
    next
      case (Inr f)
      with a False inc \<open>we_encode E e = Inr b\<close> have "write_frame E f force s = (r, s')"
        by (auto simp: append_locked.simps [of E e])
      from write_frame_grows [OF inv _ cod \<open>we_encode E e = Inr b\<close> j fol Inr this] False
      show ?thesis by blast
    qed
  qed
qed

text \<open>Reaching a cap leaves the journal incomplete, with at most the exhausted marker added.\<close>

lemma exhaust_grows:
  assumes inv: "writer_inv E decode cipher s es" and cod: "codec_ok E decode cipher"
    and j: "ws_journal_id s = Some j"
    and fol: "may_follow j es (Exhausted_Entry REASON_JOURNAL_FULL)"
  shows "\<exists>ok. grows E decode cipher s es (Exhausted_Entry REASON_JOURNAL_FULL) ok (exhaust_locked E s)"
    and "\<not> ws_journal_complete (exhaust_locked E s)"
proof -
  let ?x = "Exhausted_Entry REASON_JOURNAL_FULL" and
    ?s = "s\<lparr>ws_journal_complete := False, ws_dropped_records := ws_dropped_records s + 1\<rparr>"
  have inv1: "writer_inv E decode cipher ?s es" by (rule writer_inv_cong [OF inv]) auto
  obtain r t where a: "append_locked E ?x True True ?s = (r, t)" by (metis prod.exhaust)
  from append_incomplete_grows [OF inv1 cod _ fol _ a] j
  have g: "grows E decode cipher ?s es ?x r t" by simp
  have x: "exhaust_locked E s = (if \<not> ws_journal_complete s
      then s\<lparr>ws_dropped_records := ws_dropped_records s + 1\<rparr> else notify Journal_Full t)"
    using a by (subst exhaust_locked.simps) auto
  have "same_session s ?s" by (auto simp: same_session_def)
  show "\<exists>ok. grows E decode cipher s es ?x ok (exhaust_locked E s)"
  proof (cases "ws_journal_complete s")
    case False
    with inv have "grows E decode cipher s es ?x False (exhaust_locked E s)"
      unfolding x by (auto intro!: grows_refl)
    then show ?thesis ..
  next
    case True
    from g obtain xs where xs: "writer_inv E decode cipher t (es @ xs)" "same_session ?s t"
      "if r then xs = [?x] \<and> \<not> ws_degraded t else xs = [] \<or> xs = [?x] \<and> ws_degraded t"
      by (auto simp: grows_def)
    have "writer_inv E decode cipher (notify Journal_Full t) (es @ xs)"
      by (rule writer_inv_cong [OF xs(1)]) auto
    with xs same_session_trans [OF \<open>same_session s ?s\<close> xs(2)] True
    have "grows E decode cipher s es ?x r (exhaust_locked E s)"
      unfolding x grows_def by auto
    then show ?thesis ..
  qed
  show "\<not> ws_journal_complete (exhaust_locked E s)"
    using g unfolding x by (auto simp: grows_def same_session_def)
qed

lemma append_grows:
  assumes inv: "writer_inv E decode cipher s es" and cod: "codec_ok E decode cipher"
    and es: "es \<noteq> []" and open_e: "\<not> is_open e" and fin: "\<not> is_finalize (last es)"
    and a: "append_locked E e force bypass s = (r, s')"
  shows "same_session s s' \<and> (\<exists>xs. writer_inv E decode cipher s' (es @ xs)
    \<and> (if r then xs = [e] \<and> \<not> ws_degraded s'
       else xs = [] \<or> xs = [e] \<and> ws_degraded s' \<or> xs = [Exhausted_Entry REASON_JOURNAL_FULL]))"
proof -
  from inv obtain j where j: "ws_journal_id s = Some j" by (auto simp: writer_inv_def)
  have fol: "may_follow j es x" if "\<not> is_open x" for x using es fin that by (simp add: may_follow_def)
  let ?body = "\<lambda>b. seal_body E s (ws_sequence s + 1) b"
  consider (plain) "grows E decode cipher s es e r s'" | (full) "r = False" "s' = exhaust_locked E s"
  proof (cases "ws_journal_complete s \<and> ws_descriptor s \<and> \<not> ws_degraded s \<and> \<not> ws_closed s")
    case False
    then show ?thesis
    proof (cases "ws_journal_complete s")
      case True
      with False a inv have "grows E decode cipher s es e r s'"
        by (auto simp: append_locked.simps [of E e] intro!: grows_refl)
      then show ?thesis by (rule plain)
    next
      case False
      show ?thesis
        by (rule plain [OF append_incomplete_grows [OF inv cod j fol [OF open_e] False a]])
    qed
  next
    case True
    show ?thesis
    proof (cases "we_encode E e")
      case (Inl error)
      with a True have "r = False" "s' = fail_locked error s"
        by (auto simp: append_locked.simps [of E e])
      with inv show ?thesis by (intro plain) (auto intro!: grows_refl)
    next
      case (Inr b)
      show ?thesis
      proof (cases "encode_frame (ws_sequence s + 1) (?body b) (max_frame E)")
        case (Inl x)
        with a True Inr show ?thesis by (intro full) (auto simp: append_locked.simps [of E e])
      next
        case f: (Inr f)
        show ?thesis
        proof (cases "write_frame E f force s = (r, s')")
          case True
          from write_frame_grows [OF inv _ cod Inr j fol [OF open_e] f True]
            \<open>ws_journal_complete s \<and> _\<close>
          show ?thesis by (intro plain) blast
        next
          case False
          with a True Inr f show ?thesis
            by (intro full) (auto simp: append_locked.simps [of E e] split: if_splits)
        qed
      qed
    qed
  qed
  then show ?thesis
  proof cases
    case plain
    then show ?thesis unfolding grows_def by (auto split: if_splits)
  next
    case full
    from exhaust_grows(1) [OF inv cod j fol] obtain ok where
      "grows E decode cipher s es (Exhausted_Entry REASON_JOURNAL_FULL) ok s'"
      using full by auto
    with full show ?thesis unfolding grows_def by (auto split: if_splits)
  qed
qed

text \<open>
  The invariant of a run: a finalize entry is last on disk exactly when the writer is finalized, or
  when its fsync failed and the writer is degraded.
\<close>

definition run_inv ::
  "'j writer_env \<Rightarrow> 'j decoder \<Rightarrow> cipher option \<Rightarrow> writer_state \<Rightarrow> 'j journal_entry list \<Rightarrow> bool" where
  "run_inv E decode cipher s es \<longleftrightarrow> writer_inv E decode cipher s es \<and> es \<noteq> []
     \<and> (is_finalize (last es) \<longrightarrow> ws_finalized s \<or> ws_degraded s)
     \<and> (ws_finalized s \<longrightarrow> is_finalize (last es))
     \<and> (ws_linked s \<or> ws_finalized s)"

definition exhausted :: "'j journal_entry \<Rightarrow> bool" where
  "exhausted e = (case e of Exhausted_Entry r \<Rightarrow> True | _ \<Rightarrow> False)"

definition adds ::
  "'j writer_env \<Rightarrow> 'j decoder \<Rightarrow> cipher option \<Rightarrow> writer_state \<Rightarrow> 'j journal_entry list
     \<Rightarrow> 'j journal_entry list \<Rightarrow> writer_state \<Rightarrow> 'j journal_entry list \<Rightarrow> bool" where
  "adds E decode cipher s es adm s' xs \<longleftrightarrow>
     run_inv E decode cipher s' (es @ xs) \<and> subseq adm xs \<and> (ws_degraded s \<longrightarrow> ws_degraded s')
     \<and> (\<not> ws_degraded s' \<longrightarrow> filter (\<lambda>e. \<not> exhausted e) xs = adm)"

lemma append_step_adds:
  assumes inv: "run_inv E decode cipher s es" and cod: "codec_ok E decode cipher"
    and e: "appendable e" and fin: "\<not> is_finalize (last es)"
    and st: "writer_step E (Op_Append e) s = (adm, s')"
  shows "\<exists>xs. adds E decode cipher s es adm s' xs \<and> \<not> is_finalize (last (es @ xs))"
proof -
  from e have ne: "\<not> is_open e" "\<not> is_finalize e" "\<not> exhausted e"
    by (cases e; simp add: exhausted_def)+
  obtain r where a: "append_locked E e False False s = (r, s')" and adm: "adm = (if r then [e] else [])"
    using st by (auto simp: append_entry_def split: prod.splits)
  from inv have i: "writer_inv E decode cipher s es" "es \<noteq> []" by (auto simp: run_inv_def)
  from append_grows [OF i(1) cod i(2) ne(1) fin a] obtain xs where
    ss: "same_session s s'" and xs: "writer_inv E decode cipher s' (es @ xs)"
    and c: "if r then xs = [e] \<and> \<not> ws_degraded s'
       else xs = [] \<or> xs = [e] \<and> ws_degraded s' \<or> xs = [Exhausted_Entry REASON_JOURNAL_FULL]"
    by blast
  from inv fin have "\<not> ws_finalized s" "ws_linked s" by (auto simp: run_inv_def)
  with ss have ss': "\<not> ws_finalized s'" "ws_linked s'" by (auto simp: same_session_def)
  have nf: "\<not> is_finalize (last (es @ xs))" using c fin ne by (auto split: if_splits)
  with xs ss' i(2) have "run_inv E decode cipher s' (es @ xs)" by (simp add: run_inv_def)
  with c adm ne ss nf show ?thesis
    unfolding adds_def
    by (intro exI [of _ xs]) (auto simp: same_session_def exhausted_def split: if_splits)
qed

lemma finalize_step_adds:
  assumes inv: "run_inv E decode cipher s es" and cod: "codec_ok E decode cipher"
    and st: "writer_step E (Op_Finalize f) s = (adm, s')"
  shows "\<exists>xs. adds E decode cipher s es adm s' xs"
proof -
  from inv have i: "writer_inv E decode cipher s es" "es \<noteq> []"
    "ws_finalized s \<longrightarrow> is_finalize (last es)" "ws_linked s \<or> ws_finalized s"
    by (auto simp: run_inv_def)
  let ?f = "Finalize_Entry (f\<lparr>jf_journal_complete := ws_journal_complete s\<rparr>)"
  show ?thesis
  proof (cases "ws_journal_id s = None \<or> ws_closed s \<or> ws_finalized s \<or> ws_degraded s")
    case True
    then have "s' = s" "adm = []"
      using st by (auto simp: finalize_journal_def append_locked.simps Let_def split: if_splits)
    with inv show ?thesis by (intro exI [of _ "[]"]) (simp add: adds_def)
  next
    case False
    with inv have fin: "\<not> is_finalize (last es)" by (auto simp: run_inv_def)
    obtain r t where a: "append_locked E ?f True True s = (r, t)" by (metis prod.exhaust)
    from append_grows [OF i(1) cod i(2) _ fin a] obtain xs where
      ss: "same_session s t" and xs: "writer_inv E decode cipher t (es @ xs)"
      and c: "if r then xs = [?f] \<and> \<not> ws_degraded t
         else xs = [] \<or> xs = [?f] \<and> ws_degraded t \<or> xs = [Exhausted_Entry REASON_JOURNAL_FULL]"
      by auto
    have s': "s' = (if r then t\<lparr>ws_finalized := True\<rparr> else t)"
      and adm: "adm = (if r then [?f] else [])"
      using st a False ss by (auto simp: finalize_journal_def Let_def same_session_def)
    have "writer_inv E decode cipher s' (es @ xs)"
      unfolding s' by (cases r) (auto intro!: writer_inv_cong [OF xs] xs)
    with c ss False i fin s' adm show ?thesis
      by (intro exI [of _ xs])
         (auto simp: adds_def run_inv_def same_session_def exhausted_def split: if_splits)
  qed
qed

lemma quiet_step_adds:
  assumes inv: "run_inv E decode cipher s es"
    and st: "writer_step E op s = (adm, s')" and op: "op = Op_Fsync \<or> op = Op_Release d u"
  shows "adds E decode cipher s es adm s' []"
proof -
  have "ws_journal_id s' = ws_journal_id s" "ws_file s' = ws_file s" "ws_sequence s' = ws_sequence s"
    "ws_journal_bytes s' = ws_journal_bytes s" "ws_finalized s' = ws_finalized s" "adm = []"
    "ws_degraded s \<longrightarrow> ws_degraded s'" "ws_linked s' \<or> ws_finalized s' \<or> \<not> ws_linked s"
    using st op
    by (auto simp: fsync_tick_def release_journal_def Let_def fail_locked_def notify_def
        split: option.splits if_splits)
  with inv writer_inv_cong [of E decode cipher s es s'] show ?thesis
    by (auto simp: adds_def run_inv_def)
qed

lemma writer_run_adds:
  assumes "run_inv E decode cipher s es" and cod: "codec_ok E decode cipher"
    and "writer_run E ops s = (adm, s')"
    and "appends_before_finalize ops"
    and "is_finalize (last es) \<longrightarrow> (\<forall>op \<in> set ops. case op of Op_Append e \<Rightarrow> False | _ \<Rightarrow> True)"
  shows "\<exists>xs. adds E decode cipher s es adm s' xs"
  using assms(1,3-)
proof (induction ops arbitrary: s es adm)
  case Nil
  then show ?case by (intro exI [of _ "[]"]) (simp add: adds_def)
next
  case (Cons op ops)
  obtain a1 t where st: "writer_step E op s = (a1, t)" by (metis prod.exhaust)
  with Cons.prems(2) obtain a2 where run: "writer_run E ops t = (a2, s')" and adm: "adm = a1 @ a2"
    by (auto split: prod.splits)
  have "\<exists>xs. adds E decode cipher s es a1 t xs \<and> appends_before_finalize ops
    \<and> (is_finalize (last (es @ xs)) \<longrightarrow> (\<forall>op \<in> set ops. case op of Op_Append e \<Rightarrow> False | _ \<Rightarrow> True))"
  proof (cases op)
    case (Op_Append e)
    with Cons.prems have "appendable e" "appends_before_finalize ops" "\<not> is_finalize (last es)" by auto
    with append_step_adds [OF Cons.prems(1) cod _ _ st [unfolded Op_Append]] show ?thesis by blast
  next
    case (Op_Finalize f)
    with Cons.prems(3) have no: "\<forall>op \<in> set ops. case op of Op_Append e \<Rightarrow> False | _ \<Rightarrow> True" by simp
    then have "appends_before_finalize ops"
    proof (induction ops)
      case (Cons op ops)
      then show ?case by (cases op) auto
    qed simp
    with no finalize_step_adds [OF Cons.prems(1) cod st [unfolded Op_Finalize]] show ?thesis by blast
  next
    case (Op_Release d u)
    with Cons.prems quiet_step_adds [OF Cons.prems(1) st, of d u] show ?thesis
      by (intro exI [of _ "[]"]) simp
  next
    case Op_Fsync
    with Cons.prems quiet_step_adds [OF Cons.prems(1) st] show ?thesis
      by (intro exI [of _ "[]"]) simp
  qed
  then obtain xs where xs: "adds E decode cipher s es a1 t xs" "appends_before_finalize ops"
    "is_finalize (last (es @ xs)) \<longrightarrow> (\<forall>op \<in> set ops. case op of Op_Append e \<Rightarrow> False | _ \<Rightarrow> True)"
    by blast
  from xs(1) have "run_inv E decode cipher t (es @ xs)" by (simp add: adds_def)
  from Cons.IH [OF this run xs(2,3)] obtain ys where "adds E decode cipher t (es @ xs) a2 s' ys" ..
  with xs(1) adm show ?case
    by (intro exI [of _ "xs @ ys"]) (auto simp: adds_def intro: list_emb_append_mono)
qed

section \<open>Reading what a writer left\<close>

lemma writer_inv_replay:
  assumes inv: "writer_inv E decode cipher s es" and es: "es \<noteq> []" and m: "max_frame E \<le> m"
  shows "\<exists>r. read_journal decode cipher m (ws_file s) = Some r
    \<and> es = Open_Entry (rp_header r) # rp_entries r
    \<and> (\<not> ws_degraded s \<longrightarrow> rp_torn_tail_bytes r = 0)"
proof -
  from inv obtain j bs all w where bs: "encode_frames (max_frame E) 1 bs = Inr w"
    "opens_as decode cipher j 1 bs all" "prefix (ws_file s) w"
    "frames_within (length (ws_file s)) bs = ws_sequence s" "es = take (ws_sequence s) all"
    "\<not> ws_degraded s \<longrightarrow> ws_file s = w"
    "all = [] \<or> journal_shape all \<and> (\<exists>h. hd all = Open_Entry h \<and> jo_journal_id h = j)"
    unfolding writer_inv_def by blast
  with es obtain h rest where all: "all = Open_Entry h # rest" "jo_journal_id h = j"
    and shape: "journal_shape (Open_Entry h # rest)" by (cases all) auto
  from bs(5) es obtain n where n: "ws_sequence s = Suc n" by (cases "ws_sequence s") auto
  have enc: "encode_frames m 1 bs = Inr w" by (rule encode_frames_mono [OF bs(1) m])
  let ?k = "length (ws_file s)"
  from bs(3) have cut: "take ?k w = ws_file s" "?k \<le> length w"
    by (auto simp: prefix_def)
  from read_journal_prefix [OF shape _ enc, of decode cipher ?k] bs(2,4) all n obtain r where
    r: "read_journal decode cipher m (ws_file s) = Some r" "rp_header r = h" "rp_entries r = take n rest"
      "rp_torn_tail_bytes r = min ?k (length w) - frames_size (take (Suc n) bs)"
    unfolding cut(1) by auto
  have "rp_torn_tail_bytes r = 0" if "\<not> ws_degraded s"
  proof -
    from that bs(6) have "?k = frames_size bs" using encode_frames_length [OF enc] by simp
    then have "frames_within ?k bs = length bs" by (simp add: frames_within_all)
    with bs(4) n r(4) \<open>?k = frames_size bs\<close> show ?thesis by simp
  qed
  with r bs(5) all n show ?thesis by auto
qed

lemma append_stays_incomplete:
  "append_locked E e force bypass s = (r, s') \<Longrightarrow> \<not> ws_journal_complete s \<Longrightarrow> \<not> ws_journal_complete s'"
  by (subst (asm) append_locked.simps)
     (auto simp: exhaust_locked.simps write_frame_def Let_def fail_locked_def notify_def
       split: if_splits sum.splits option.splits)

lemma exhaust_incomplete: "\<not> ws_journal_complete (exhaust_locked E s)"
proof -
  let ?s = "s\<lparr>ws_journal_complete := False, ws_dropped_records := ws_dropped_records s + 1\<rparr>"
  obtain r t where a: "append_locked E (Exhausted_Entry REASON_JOURNAL_FULL) True True ?s = (r, t)"
    by (metis prod.exhaust)
  from append_stays_incomplete [OF a] a show ?thesis
    by (subst exhaust_locked.simps) (simp add: notify_def)
qed

lemma open_journal_inv:
  assumes cod: "codec_ok E decode cipher" and h: "jo_version (header j) = JOURNAL_FORMAT_VERSION"
    "jo_journal_id (header j) = j"
    and op: "open_journal E j header None initial_writer = s1" and full: "ws_journal_complete s1"
  shows "run_inv E decode cipher s1 [Open_Entry (header j)] \<and> \<not> ws_degraded s1 \<and> ws_linked s1"
proof -
  let ?s = "initial_writer\<lparr>ws_descriptor := True, ws_linked := True, ws_file := [],
    ws_journal_id := Some j\<rparr>" and ?e = "Open_Entry (header j)"
  obtain r t where "append_locked E ?e True False ?s = (r, t)" by (metis prod.exhaust)
  moreover from this have "t = s1" using op by (simp add: open_journal_def initial_writer_def)
  ultimately have a: "append_locked E ?e True False ?s = (r, s1)" by simp
  have inv: "writer_inv E decode cipher ?s []"
    unfolding writer_inv_def
    by (rule exI [of _ j], rule exI [of _ "[]"], rule exI [of _ "[]"]) (simp add: initial_writer_def)
  have fol: "may_follow j [] ?e" using h by (simp add: may_follow_def)
  obtain b where b: "we_encode E ?e = Inr b"
    using a full by (subst (asm) append_locked.simps)
      (auto simp: fail_locked_def notify_def initial_writer_def split: sum.splits)
  obtain f where f: "encode_frame (ws_sequence ?s + 1) (seal_body E ?s (ws_sequence ?s + 1) b)
      (max_frame E) = Inr f" and w: "write_frame E f True ?s = (r, s1)"
    using a full b exhaust_incomplete [of E ?s] by (subst (asm) append_locked.simps)
      (auto simp: initial_writer_def split: sum.splits if_splits)
  from write_frame_grows [OF inv _ cod b _ fol f w] obtain xs where
    g: "same_session ?s s1" "writer_inv E decode cipher s1 xs"
      "if r then xs = [?e] \<and> \<not> ws_degraded s1 else xs = [] \<or> xs = [?e] \<and> ws_degraded s1"
    by (auto simp: grows_def initial_writer_def)
  have r using w full
    by (auto simp: write_frame_def Let_def fail_locked_def notify_def initial_writer_def
        split: sum.splits if_splits option.splits)
  with g show ?thesis by (auto simp: run_inv_def same_session_def initial_writer_def)
qed

section \<open>Disk bounds\<close>

text \<open>
  Only the exhausted marker and the finalize entry bypass the caps, each at most once: \<open>slack\<close>
  counts how many of them the state may hold (a degraded writer may have lost count, and is frozen).
\<close>

definition slack :: "writer_state \<Rightarrow> int" where
  "slack s = (if ws_degraded s then 2
     else (if ws_journal_complete s then 0 else 1) + (if ws_finalized s then 1 else 0))"

definition max_stored_frame :: "'j writer_env \<Rightarrow> int" where
  "max_stored_frame E = wc_max_frame_bytes (we_config E) + int FRAME_OVERHEAD"

definition caps_inv :: "'j writer_env \<Rightarrow> writer_state \<Rightarrow> bool" where
  "caps_inv E s \<longleftrightarrow>
     int (ws_journal_bytes s) \<le> wc_max_journal_bytes (we_config E) + slack s * max_stored_frame E
     \<and> int (ws_sequence s) \<le> wc_max_records (we_config E) + slack s"

lemma encode_frame_bound:
  "encode_frame n b m = Inr f \<Longrightarrow> length f \<le> m + FRAME_OVERHEAD"
  by (auto simp: encode_frame_def frame_sizes split: if_splits option.splits)

lemma stored_frame_bound:
  "encode_frame n b (max_frame E) = Inr f \<Longrightarrow> config_valid (we_config E) \<Longrightarrow>
   int (length f) \<le> max_stored_frame E"
  by (drule encode_frame_bound) (simp add: max_stored_frame_def config_valid_def; linarith)

lemma max_stored_frame_nonneg: "config_valid (we_config E) \<Longrightarrow> 0 \<le> max_stored_frame E"
  by (simp add: max_stored_frame_def config_valid_def)

lemma caps_inv_cong:
  "caps_inv E s \<Longrightarrow> ws_journal_bytes t = ws_journal_bytes s \<Longrightarrow> ws_sequence t = ws_sequence s \<Longrightarrow>
   ws_degraded t = ws_degraded s \<Longrightarrow> ws_journal_complete t = ws_journal_complete s \<Longrightarrow>
   ws_finalized t = ws_finalized s \<Longrightarrow> caps_inv E t"
  unfolding caps_inv_def slack_def by (simp only:)

lemma write_frame_caps:
  assumes "write_frame E f force s = (r, s')"
  shows "ws_journal_bytes s' \<le> ws_journal_bytes s + length f \<and> ws_sequence s' \<le> ws_sequence s + 1
    \<and> ws_finalized s' = ws_finalized s
    \<and> (ws_degraded s' \<or> ws_journal_complete s' = ws_journal_complete s \<and> r)"
  using assms
  by (auto simp: write_frame_def Let_def fail_locked_def notify_def
      split: sum.splits if_splits option.splits)

text \<open>An append that bypasses the caps and is not diverted to the marker stores one frame.\<close>

lemma forced_append_caps:
  assumes "append_locked E e force True s = (r, s')" and "config_valid (we_config E)"
    and "\<not> ws_journal_complete s"
  shows "int (ws_journal_bytes s') \<le> int (ws_journal_bytes s) + max_stored_frame E
    \<and> ws_sequence s' \<le> ws_sequence s + 1 \<and> ws_finalized s' = ws_finalized s
    \<and> (ws_degraded s \<longrightarrow> s' = s)"
proof -
  note bound = stored_frame_bound [OF _ assms(2)] and pos = max_stored_frame_nonneg [OF assms(2)]
  consider "r = False" "s' = s \<or> s' = exhaust_locked E s \<or> (\<exists>z. s' = fail_locked z s \<and> \<not> ws_degraded s)"
    | f where "write_frame E f force s = (r, s')" "int (length f) \<le> max_stored_frame E"
        "\<not> ws_degraded s"
    using assms(1) bound
    by (subst (asm) append_locked.simps) (auto split: if_splits sum.splits)
  then show ?thesis
  proof cases
    case 1
    with assms(1,3) pos show ?thesis
      by (auto simp: exhaust_locked.simps fail_locked_def notify_def append_locked.simps)
  next
    case 2
    with write_frame_caps [OF 2(1)] show ?thesis by auto
  qed
qed

lemma exhaust_caps:
  assumes inv: "caps_inv E s" and cfg: "config_valid (we_config E)"
  shows "caps_inv E (exhaust_locked E s)
    \<and> ws_finalized (exhaust_locked E s) = ws_finalized s
    \<and> \<not> ws_journal_complete (exhaust_locked E s)"
proof (cases "ws_journal_complete s")
  case False
  with caps_inv_cong [OF inv, of "exhaust_locked E s"] show ?thesis by (simp add: exhaust_locked.simps)
next
  case True
  let ?s = "s\<lparr>ws_journal_complete := False, ws_dropped_records := ws_dropped_records s + 1\<rparr>"
  obtain r t where a: "append_locked E (Exhausted_Entry REASON_JOURNAL_FULL) True True ?s = (r, t)"
    by (metis prod.exhaust)
  have x: "exhaust_locked E s = notify Journal_Full t"
    using True a by (simp add: exhaust_locked.simps)
  note F = max_stored_frame_nonneg [OF cfg]
  from forced_append_caps [OF a cfg]
  have b: "int (ws_journal_bytes t) \<le> int (ws_journal_bytes s) + max_stored_frame E"
    "ws_sequence t \<le> ws_sequence s + 1" "ws_finalized t = ws_finalized s"
    "ws_degraded s \<Longrightarrow> t = ?s" by auto
  have nc: "\<not> ws_journal_complete t" using append_stays_incomplete [OF a] by simp
  have "caps_inv E t"
  proof (cases "ws_degraded s")
    case True
    with b(4) inv show ?thesis by (auto simp: caps_inv_def slack_def)
  next
    case False
    then have "slack s + 1 \<le> slack t" using \<open>ws_journal_complete s\<close> nc b(3) by (simp add: slack_def)
    from mult_right_mono [OF this F] this inv b(1,2) show ?thesis
      by (simp add: caps_inv_def distrib_right)
  qed
  from caps_inv_cong [OF this, of "exhaust_locked E s"] x b(3) nc show ?thesis
    by (simp add: notify_def)
qed

lemma degraded_caps:
  assumes "caps_inv E s" "config_valid (we_config E)" "ws_degraded t"
    "ws_journal_bytes t = ws_journal_bytes s" "ws_sequence t = ws_sequence s"
  shows "caps_inv E t"
proof -
  have "slack s \<le> slack t" using assms(3) by (simp add: slack_def)
  moreover note max_stored_frame_nonneg [OF assms(2)]
  ultimately have "slack s * max_stored_frame E \<le> slack t * max_stored_frame E"
    by (rule mult_right_mono)
  with \<open>slack s \<le> slack t\<close> assms show ?thesis by (simp add: caps_inv_def)
qed

text \<open>Either append; \<open>bypass\<close> is finalize's, which marks the writer finalized when it returns.\<close>

lemma append_caps:
  assumes inv: "caps_inv E s" and cfg: "config_valid (we_config E)"
    and a: "append_locked E e force bypass s = (r, s')" and fin: "bypass \<longrightarrow> \<not> ws_finalized s"
  shows "caps_inv E (if bypass \<and> r then s'\<lparr>ws_finalized := True\<rparr> else s')"
proof -
  note F = max_stored_frame_nonneg [OF cfg]
  consider (stay) "r = False" "caps_inv E s'"
    | (stored) f where "\<not> ws_degraded s" "write_frame E f force s = (r, s')"
        "int (length f) \<le> max_stored_frame E"
        "bypass \<or> int (ws_journal_bytes s + length f) \<le> wc_max_journal_bytes (we_config E)
           \<and> int (ws_sequence s) < wc_max_records (we_config E)"
  proof (cases "\<not> ws_descriptor s \<or> ws_degraded s \<or> ws_closed s")
    case True
    with a inv stay show ?thesis by (auto simp: append_locked.simps)
  next
    case False
    show ?thesis
    proof (cases "\<not> ws_journal_complete s \<and> \<not> bypass")
      case True
      with a False have "r = False" "s' = s\<lparr>ws_dropped_records := ws_dropped_records s + 1\<rparr>"
        by (auto simp: append_locked.simps)
      with caps_inv_cong [OF inv, of s'] stay show ?thesis by simp
    next
      case admit: False
      show ?thesis
      proof (cases "we_encode E e")
        case (Inl error)
        have "caps_inv E (fail_locked error s)"
          by (rule degraded_caps [OF inv cfg]) simp_all
        with a False admit Inl stay show ?thesis by (auto simp: append_locked.simps)
      next
        case body: (Inr b)
        let ?f = "encode_frame (ws_sequence s + 1) (seal_body E s (ws_sequence s + 1) b) (max_frame E)"
        show ?thesis
        proof (cases ?f)
          case (Inl z)
          with a False admit body stay exhaust_caps [OF inv cfg] show ?thesis
            by (auto simp: append_locked.simps)
        next
          case (Inr f)
          note stored_frame_bound [OF Inr cfg]
          with a False admit body Inr stay stored exhaust_caps [OF inv cfg] show ?thesis
            by (auto simp: append_locked.simps split: if_splits)
        qed
      qed
    qed
  qed
  then show ?thesis
  proof cases
    case stay
    then show ?thesis by simp
  next
    case (stored f)
    note w = write_frame_caps [OF stored(2)]
    let ?t = "if bypass \<and> r then s'\<lparr>ws_finalized := True\<rparr> else s'"
    show ?thesis
    proof (cases bypass)
      case True
      then have "slack s + 1 \<le> slack ?t" using w fin stored(1) by (auto simp: slack_def)
      from mult_right_mono [OF this F] this inv w stored(3) show ?thesis
        by (auto simp: caps_inv_def distrib_right)
    next
      case False
      have "0 \<le> slack s'" by (simp add: slack_def)
      with mult_nonneg_nonneg [OF this F] False w stored(4) show ?thesis
        by (auto simp: caps_inv_def)
    qed
  qed
qed

lemma run_caps:
  assumes "caps_inv E s" and "config_valid (we_config E)" and "writer_run E ops s = (adm, s')"
  shows "caps_inv E s'"
  using assms(1,3)
proof (induction ops arbitrary: s adm)
  case (Cons op ops)
  obtain a1 t where st: "writer_step E op s = (a1, t)" by (metis prod.exhaust)
  with Cons.prems(2) obtain a2 where run: "writer_run E ops t = (a2, s')" by (auto split: prod.splits)
  have "caps_inv E t"
  proof (cases op)
    case (Op_Append e)
    obtain r u where "append_locked E e False False s = (r, u)" by (metis prod.exhaust)
    with append_caps [OF Cons.prems(1) assms(2) this] st Op_Append show ?thesis
      by (simp add: append_entry_def)
  next
    case (Op_Finalize f)
    let ?f = "Finalize_Entry (f\<lparr>jf_journal_complete := ws_journal_complete s\<rparr>)"
    obtain r u where "append_locked E ?f True True s = (r, u)" by (metis prod.exhaust)
    with append_caps [OF Cons.prems(1) assms(2) this] st Op_Finalize Cons.prems(1) show ?thesis
      by (auto simp: finalize_journal_def Let_def split: if_splits)
  next
    case (Op_Release d u)
    with st have "t = release_journal E d u s" by simp
    with Cons.prems(1) show ?thesis by (auto simp: release_journal_def elim: caps_inv_cong)
  next
    case Op_Fsync
    have "caps_inv E (fsync_tick E s)"
    proof (cases "ws_degraded (fsync_tick E s)")
      case True
      then show ?thesis
        by (rule degraded_caps [OF Cons.prems(1) assms(2)])
           (simp_all add: fsync_tick_def Let_def split: option.splits)
    next
      case False
      with Cons.prems(1) show ?thesis
        by (auto simp: fsync_tick_def Let_def split: option.splits if_splits elim: caps_inv_cong)
    qed
    with st Op_Fsync show ?thesis by simp
  qed
  from Cons.IH [OF this run] show ?case .
qed simp

lemma open_caps:
  assumes "config_valid (we_config E)" and "open_journal E j header opened initial_writer = s1"
  shows "caps_inv E s1"
proof -
  let ?s = "initial_writer\<lparr>ws_descriptor := True, ws_linked := True, ws_file := [],
    ws_journal_id := Some j\<rparr>"
  have init: "caps_inv E ?s" "caps_inv E initial_writer"
    using assms(1) by (simp_all add: caps_inv_def slack_def initial_writer_def config_valid_def)
  obtain r t where a: "append_locked E (Open_Entry (header j)) True False ?s = (r, t)"
    by (metis prod.exhaust)
  show ?thesis
  proof (cases opened)
    case None
    with a assms(2) have "t = s1" by (simp add: open_journal_def initial_writer_def)
    with append_caps [OF init(1) assms(1) a] show ?thesis by simp
  next
    case (Some z)
    with assms(2) have "s1 = fail_locked z initial_writer"
      by (simp add: open_journal_def initial_writer_def)
    with degraded_caps [OF init(2) assms(1)] show ?thesis by simp
  qed
qed

lemma write_file_grows: "write_frame E f force s = (r, s') \<Longrightarrow> prefix (ws_file s) (ws_file s')"
  by (auto simp: write_frame_def Let_def split: sum.splits if_splits option.splits)

lemma append_file_grows:
  assumes "append_locked E e force bypass s = (r, s')"
  shows "prefix (ws_file s) (ws_file s')"
proof -
  have inc: "prefix (ws_file t) (ws_file (snd (append_locked E e' force' bypass' t)))" if "\<not> ws_journal_complete t" for e' force' bypass' t
    using that write_file_grows [of E _ force' t]
    by (subst append_locked.simps)
       (auto simp: exhaust_locked.simps split: sum.splits intro: write_file_grows [OF prod.collapse [symmetric]])
  have full: "prefix (ws_file s) (ws_file (exhaust_locked E s))"
    using inc [of "s\<lparr>ws_journal_complete := False, ws_dropped_records := ws_dropped_records s + 1\<rparr>" "Exhausted_Entry REASON_JOURNAL_FULL" True True]
    by (subst exhaust_locked.simps) simp
  show ?thesis
    using assms full by (subst (asm) append_locked.simps) (auto split: sum.splits if_splits dest: write_file_grows)
qed

text \<open>
  A closed journal reads back to the same entries whatever is appended to it: the reader refuses
  every frame after the finalize entry.
\<close>

lemma open_run_append:
  "open_run f n as s = (ps, t, False) \<Longrightarrow>
   open_run f n (as @ bs) s = (case open_run f (n + length as) bs t of (qs, u, r) \<Rightarrow> (ps @ qs, u, r))"
  by (induction as arbitrary: n s ps) (auto split: prod.splits option.splits)

lemma open_run_refused:
  "rs_finalize_sequence t \<noteq> None \<Longrightarrow> fst (snd (open_run (open_entry decode cipher) n bs t)) = t"
  by (cases bs) (auto simp: open_entry_def)

lemma read_closed_extended:
  assumes inv: "writer_inv E decode cipher s es" and ok: "\<not> ws_degraded s" and es: "es \<noteq> []"
    and fin: "is_finalize (last es)" and m: "max_frame E \<le> m"
  shows "\<exists>r. read_journal decode cipher m (ws_file s @ x) = Some r \<and> es = Open_Entry (rp_header r) # rp_entries r"
proof -
  from inv ok obtain j bs all where bs: "encode_frames (max_frame E) 1 bs = Inr (ws_file s)"
    "opens_as decode cipher j 1 bs all" "frames_within (length (ws_file s)) bs = ws_sequence s"
    "es = take (ws_sequence s) all"
    "all = [] \<or> journal_shape all \<and> (\<exists>h. hd all = Open_Entry h \<and> jo_journal_id h = j)"
    unfolding writer_inv_def by blast
  have "length bs = ws_sequence s"
    using bs(3) encode_frames_length [OF bs(1)] frames_within_all [of bs "length (ws_file s)"] by simp
  then have all: "all = es" using bs(2,4) opens_as_length by fastforce
  with es bs(5) obtain h rest where h: "es = Open_Entry h # rest" "jo_journal_id h = j"
    and shape: "journal_shape (Open_Entry h # rest)" by (cases es) auto
  have enc: "encode_frames m 1 bs = Inr (ws_file s)" by (rule encode_frames_mono [OF bs(1) m])
  obtain scan t where sc: "scan_frames (ws_file s @ x) m (Some (open_entry decode cipher)) 1 initial_reader
      = (scan, t)" by (metis prod.exhaust)
  from scan_entries [OF sc] obtain cs ps rf where cs: "cs = scanned_bodies m (ws_file s @ x) 1"
    and run: "open_run (open_entry decode cipher) 1 cs initial_reader = (ps, t, rf)" by metis
  from plain_scan_maximal [OF order_refl enc refl, of x] cs obtain more where more: "cs = bs @ more"
    by (auto simp: prefix_def)
  from open_run_journal [OF bs(2) [unfolded all] shape _ h(2) [symmetric]] h(1) obtain qs u where
    u: "open_run (open_entry decode cipher) 1 bs initial_reader = (qs, u, False)" "rs_decoded u = es"
    by auto
  have "reader_inv (1 + length qs) u"
    by (rule open_run_inv [of "open_entry decode cipher" reader_inv, OF open_entry_inv open_entry_refused u(1) reader_inv_initial])
  then have "rs_finalize_sequence u \<noteq> None"
    using u(2) es fin by (auto simp: reader_inv_def split: if_splits)
  from open_run_refused [OF this, of decode cipher "1 + length bs" more] open_run_append [OF u(1), of more] run more
  have "t = u" by (auto split: prod.splits)
  then show ?thesis using sc u(2) h(1) by (simp add: read_journal_def)
qed

lemma step_file_grows: "writer_step E op s = (adm, s') \<Longrightarrow> prefix (ws_file s) (ws_file s')"
proof (cases op)
  case (Op_Append e)
  moreover assume "writer_step E op s = (adm, s')"
  ultimately show ?thesis using append_file_grows by (fastforce simp: append_entry_def split: prod.splits)
next
  case (Op_Finalize f)
  moreover assume "writer_step E op s = (adm, s')"
  ultimately show ?thesis
    using append_file_grows by (fastforce simp: finalize_journal_def Let_def split: prod.splits if_splits)
qed (auto simp: fsync_tick_def release_journal_def Let_def split: option.splits if_splits)

section \<open>Runs with appends after the close\<close>

text \<open>The acknowledged entries up to the first finalize entry.\<close>

fun until_close :: "'j journal_entry list \<Rightarrow> 'j journal_entry list" where
  "until_close [] = []"
| "until_close (e # es) = (if is_finalize e then [e] else e # until_close es)"

definition appends_typed :: "'j writer_op list \<Rightarrow> bool" where
  "appends_typed ops = list_all (\<lambda>op. case op of Op_Append e \<Rightarrow> appendable e | _ \<Rightarrow> True) ops"

lemma until_close_append: "\<not> list_ex is_finalize as \<Longrightarrow> until_close (as @ bs) = as @ until_close bs"
  by (induction as) auto

lemma until_close_stops: "list_ex is_finalize as \<Longrightarrow> until_close (as @ bs) = until_close as"
  by (induction as) auto

lemma until_close_subseq: "subseq (until_close as) as"
  by (induction as) auto

definition closed_file ::
  "'j writer_env \<Rightarrow> 'j decoder \<Rightarrow> cipher option \<Rightarrow> writer_state \<Rightarrow> 'j journal_entry list \<Rightarrow> bool" where
  "closed_file E decode cipher s es \<longleftrightarrow> is_finalize (last es)
     \<and> (\<exists>t. writer_inv E decode cipher t es \<and> \<not> ws_degraded t \<and> prefix (ws_file t) (ws_file s))"

lemma run_file_grows: "writer_run E ops s = (adm, s') \<Longrightarrow> prefix (ws_file s) (ws_file s')"
proof (induction ops arbitrary: s adm)
  case (Cons op ops)
  obtain a1 t where st: "writer_step E op s = (a1, t)" by (metis prod.exhaust)
  with Cons.prems obtain a2 where "writer_run E ops t = (a2, s')" by (auto split: prod.splits)
  from Cons.IH [OF this] step_file_grows [OF st] show ?case by auto
qed simp

lemma run_frozen:
  assumes "ws_degraded s" and "writer_run E ops s = (admitted, s')"
  shows "ws_file s' = ws_file s \<and> ws_sequence s' = ws_sequence s
    \<and> ws_journal_bytes s' = ws_journal_bytes s \<and> ws_journal_id s' = ws_journal_id s \<and> ws_degraded s' \<and> admitted = []"
  using assms
proof (induction ops arbitrary: s admitted)
  case (Cons op ops)
  obtain a1 t where st: "writer_step E op s = (a1, t)" by (metis prod.exhaust)
  with Cons.prems(2) obtain a2 where run: "writer_run E ops t = (a2, s')" "admitted = a1 @ a2"
    by (auto split: prod.splits)
  have "ws_file t = ws_file s \<and> ws_sequence t = ws_sequence s
    \<and> ws_journal_bytes t = ws_journal_bytes s \<and> ws_journal_id t = ws_journal_id s \<and> ws_degraded t \<and> a1 = []"
    using st Cons.prems(1)
    by (cases op) (auto simp: append_entry_def append_locked.simps finalize_journal_def Let_def
        release_journal_def fsync_tick_def fail_locked_def split: if_splits option.splits)
  with Cons.IH [OF _ run(1)] run(2) show ?case by simp
qed simp

lemma step_admits: "writer_step E op s = (adm, s') \<Longrightarrow> length adm \<le> 1"
  by (cases op) (auto simp: Let_def split: prod.splits)

lemma writer_inv_open_before: "writer_inv E decode cipher s es \<Longrightarrow> es \<noteq> [] \<Longrightarrow> \<not> list_ex is_finalize (butlast es)"
proof -
  assume inv: "writer_inv E decode cipher s es" and es: "es \<noteq> []"
  from inv obtain all where all: "es = take (ws_sequence s) all" "all = [] \<or> journal_shape all"
    unfolding writer_inv_def by blast
  have "prefix es all" unfolding all(1) by (rule take_is_prefix)
  moreover have "journal_shape all" using all es by auto
  ultimately have "journal_shape es" using journal_shape_prefix es by blast
  then obtain h rest where "es = Open_Entry h # rest" "\<forall>e \<in> set (butlast rest). \<not> is_finalize e"
    by (rule journal_shape_cases)
  then show ?thesis by (cases rest) (simp_all add: list_ex_iff)
qed

text \<open>What a run adds to a journal that is still open.\<close>

definition run_adds ::
  "'j writer_env \<Rightarrow> 'j decoder \<Rightarrow> cipher option \<Rightarrow> 'j journal_entry list \<Rightarrow> 'j journal_entry list
     \<Rightarrow> writer_state \<Rightarrow> 'j journal_entry list \<Rightarrow> bool" where
  "run_adds E decode cipher es adm s' xs \<longleftrightarrow>
     (writer_inv E decode cipher s' (es @ xs) \<or> closed_file E decode cipher s' (es @ xs))
     \<and> subseq (until_close adm) xs \<and> (\<not> ws_degraded s' \<longrightarrow> filter (\<lambda>e. \<not> exhausted e) xs = until_close adm)"

lemma writer_run_replays:
  assumes "run_inv E decode cipher s es" and cod: "codec_ok E decode cipher" and "writer_run E ops s = (adm, s')"
    and "appends_typed ops" and "\<not> is_finalize (last es)"
  shows "\<exists>xs. run_adds E decode cipher es adm s' xs"
  using assms(1,3-)
proof (induction ops arbitrary: s es adm)
  case Nil
  then show ?case by (intro exI [of _ "[]"]) (simp add: run_adds_def run_inv_def)
next
  case (Cons op ops)
  obtain a1 t where st: "writer_step E op s = (a1, t)" by (metis prod.exhaust)
  with Cons.prems(2) obtain a2 where run: "writer_run E ops t = (a2, s')" and adm: "adm = a1 @ a2"
    by (auto split: prod.splits)
  have typed: "appends_typed ops" using Cons.prems(3) by (simp add: appends_typed_def)
  have "\<exists>xs. adds E decode cipher s es a1 t xs"
  proof (cases op)
    case (Op_Append e)
    then show ?thesis
      using append_step_adds [OF Cons.prems(1) cod _ Cons.prems(4) st [unfolded Op_Append]] Cons.prems(3)
      by (auto simp: appends_typed_def)
  next
    case (Op_Finalize f)
    then show ?thesis using finalize_step_adds [OF Cons.prems(1) cod st [unfolded Op_Finalize]] by simp
  qed (use quiet_step_adds [OF Cons.prems(1) st] in blast)+
  then obtain xs where xs: "run_inv E decode cipher t (es @ xs)" "subseq a1 xs" "ws_degraded s \<longrightarrow> ws_degraded t"
    "\<not> ws_degraded t \<longrightarrow> filter (\<lambda>e. \<not> exhausted e) xs = a1" by (auto simp: adds_def)
  have inv: "writer_inv E decode cipher t (es @ xs)" and es: "es \<noteq> []"
    using xs(1) Cons.prems(1) by (simp_all add: run_inv_def)
  show ?case
  proof (cases "is_finalize (last (es @ xs))")
    case False
    have "\<not> list_ex is_finalize (es @ xs)"
    proof -
      obtain ys y where y: "es @ xs = ys @ [y]" using es by (cases "es @ xs" rule: rev_cases) auto
      show ?thesis using writer_inv_open_before [OF inv] False unfolding y by simp
    qed
    then have a1: "\<not> list_ex is_finalize a1"
      using list_emb_set [OF xs(2)] by (auto simp: list_ex_iff)
    from Cons.IH [OF xs(1) run typed False] obtain ys where ys: "run_adds E decode cipher (es @ xs) a2 s' ys" ..
    have "ws_degraded t \<longrightarrow> ws_degraded s'" using run_frozen [OF _ run] by blast
    moreover have "until_close adm = a1 @ until_close a2" unfolding adm by (rule until_close_append [OF a1])
    moreover have "subseq (a1 @ until_close a2) (xs @ ys)"
      using xs(2) ys by (auto simp: run_adds_def intro: list_emb_append_mono)
    ultimately show ?thesis
      using ys xs(4) by (intro exI [of _ "xs @ ys"]) (auto simp: run_adds_def)
  next
    case fin: True
    show ?thesis
    proof (cases "ws_degraded t")
      case True
      from run_frozen [OF True run] have fr: "a2 = []" "ws_degraded s'" "writer_inv E decode cipher s' (es @ xs)"
        using writer_inv_cong [OF inv, of s'] by auto
      have "subseq (until_close a1) xs" using until_close_subseq xs(2) by (rule subseq_order.trans)
      then show ?thesis using fr adm by (intro exI [of _ xs]) (simp add: run_adds_def)
    next
      case False
      have ne: "xs \<noteq> []" using fin Cons.prems(4) by auto
      have closed: "closed_file E decode cipher s' (es @ xs)"
        unfolding closed_file_def using fin inv False run_file_grows [OF run] by blast
      have a1: "filter (\<lambda>e. \<not> exhausted e) xs = a1" using xs(4) False by simp
      have "last xs \<in> set a1"
        unfolding a1 [symmetric] using fin ne by (auto simp: is_finalize_iff exhausted_def)
      then have ex: "list_ex is_finalize a1" using fin ne by (auto simp: list_ex_iff)
      moreover have "until_close a1 = a1" using step_admits [OF st] by (cases a1) auto
      ultimately have "until_close adm = a1" by (simp add: adm until_close_stops)
      then show ?thesis using closed a1 xs(2) by (intro exI [of _ xs]) (simp add: run_adds_def)
    qed
  qed
qed

lemma closed_file_replay:
  assumes "closed_file E decode cipher s es" "es \<noteq> []" "max_frame E \<le> m"
  shows "\<exists>r. read_journal decode cipher m (ws_file s) = Some r \<and> es = Open_Entry (rp_header r) # rp_entries r"
proof -
  from assms(1) obtain t x where t: "writer_inv E decode cipher t es" "\<not> ws_degraded t" "is_finalize (last es)"
    "ws_file s = ws_file t @ x" by (auto simp: closed_file_def prefix_def)
  from read_closed_extended [OF t(1,2) assms(2) t(3) assms(3), of x] show ?thesis by (simp only: t(4))
qed

lemma appends_before_finalize_typed: "appends_before_finalize ops \<Longrightarrow> appends_typed ops"
proof (induction ops rule: appends_before_finalize.induct)
  case (3 f ops)
  then show ?case by (auto simp: appends_typed_def list_all_iff split: writer_op.splits)
qed (auto simp: appends_typed_def)

section \<open>A concrete writer\<close>

text \<open>Four entries have bodies; every call succeeds except that the \<open>n\<close>-th write is short.\<close>

definition sample_limit :: journal_limit where
  "sample_limit = \<lparr>jl_reason = ''max_records'', jl_kind = ''event'', jl_capture_class = ''metadata'',
     jl_estimated_bytes = 3, jl_whole_record = True, jl_freeze = False\<rparr>"

definition sample_close :: "unit journal_finalize" where
  "sample_close = \<lparr>jf_status = ''completed'', jf_status_attributes = [], jf_ended = (),
     jf_journal_complete = True, jf_first_limit_reason = None, jf_truncated_records = 0,
     jf_estimated_omitted_bytes = 0, jf_omitted_by_kind = [], jf_omitted_by_class = [],
     jf_retained_classes = [], jf_record_counts = []\<rparr>"

definition sample_encode :: "unit journal_entry \<Rightarrow> string + bytes" where
  "sample_encode e =
     (if e = Open_Entry sample_header then Inr [0x41]
      else if e = Limit_Entry sample_limit then Inr [0x42]
      else if e = Finalize_Entry sample_close then Inr [0x43]
      else if e = Exhausted_Entry REASON_JOURNAL_FULL then Inr [] else Inl ''ValueError'')"

definition sample_decode :: "unit decoder" where
  "sample_decode b =
     (if b = [0x41] then Some (Open_Entry sample_header)
      else if b = [0x42] then Some (Limit_Entry sample_limit)
      else if b = [0x43] then Some (Finalize_Entry sample_close)
      else if b = [] then Some (Exhausted_Entry REASON_JOURNAL_FULL) else None)"

definition sample_env :: "int \<Rightarrow> nat \<Rightarrow> unit writer_env" where
  "sample_env max_records short =
     \<lparr>we_config = \<lparr>wc_fsync_mode = Fsync_Interval, wc_fsync_interval_ms = 250,
        wc_max_journal_bytes = 1000, wc_max_records = max_records, wc_max_frame_bytes = 16,
        wc_keep_finalized = False\<rparr>,
      we_encode = sample_encode, we_encrypt = None, we_nonce = (\<lambda>n. []),
      we_write = (\<lambda>n. Inr (if n = short then 5 else 100)), we_fsync = (\<lambda>n. None)\<rparr>"

definition sample_open :: "int \<Rightarrow> nat \<Rightarrow> writer_state" where
  "sample_open max_records short =
     open_journal (sample_env max_records short) ''ab'' (\<lambda>j. sample_header) None initial_writer"

lemma sample_codec_ok: "codec_ok (sample_env r n) sample_decode None"
  by (auto simp: codec_ok_def sample_env_def sample_encode_def sample_decode_def split: if_splits)

lemma sample_crcs: "crc32 [0x42] = 0x4AD0CF31" "crc32 [0x43] = 0x3DD7FFA7"
  by (simp_all add: crc32_def crc_byte_def crc_bit_def)

lemmas writer_eval = sample_open_def open_journal_def initial_writer_def append_entry_def
  append_locked.simps exhaust_locked.simps write_frame_def seal_body_def fail_locked_def notify_def
  finalize_journal_def release_journal_def fsync_tick_def sample_env_def sample_encode_def
  frame_eval sample_crcs

lemma sample_header_fields [simp]:
  "jo_version sample_header = JOURNAL_FORMAT_VERSION" "jo_journal_id sample_header = ''ab''"
  by (simp_all add: sample_header_def JOURNAL_FORMAT_VERSION_def)

section \<open>Properties\<close>



text \<open>
  The journal's name is removed only after its finalize entry is on disk: if a run ends with the
  file unlinked, the bytes it removed replay to an observed close.
\<close>

theorem unlink_only_after_close:
  assumes "codec_ok E decode cipher" and "jo_version (header j) = JOURNAL_FORMAT_VERSION"
    and "jo_journal_id (header j) = j" and "open_journal E j header None initial_writer = s1"
    and "ws_journal_complete s1" and "appends_before_finalize ops"
    and "writer_run E ops s1 = (admitted, s2)" and "max_frame E \<le> m" and "\<not> ws_linked s2"
  shows "\<exists>r. read_journal decode cipher m (ws_file s2) = Some r \<and> close_observed r"
proof -
  from open_journal_inv [OF assms(1-5)]
  have "run_inv E decode cipher s1 [Open_Entry (header j)]" by blast
  from writer_run_adds [OF this assms(1,7,6)] obtain xs where
    xs: "run_inv E decode cipher s2 (Open_Entry (header j) # xs)" by (auto simp: adds_def)
  with assms(9) have fin: "is_finalize (last (Open_Entry (header j) # xs))" by (auto simp: run_inv_def)
  then obtain ys f where y: "xs = ys @ [Finalize_Entry f]"
    by (cases xs rule: rev_cases) (auto simp: is_finalize_iff)
  from xs assms(9) have nd: "writer_inv E decode cipher s2 (Open_Entry (header j) # xs)"
    by (simp add: run_inv_def)
  from writer_inv_replay [OF nd _ assms(8)] y obtain r where
    "read_journal decode cipher m (ws_file s2) = Some r" "rp_entries r = ys @ [Finalize_Entry f]"
    by auto
  then show ?thesis by (auto simp: close_observed_def replay_finalize_def)
qed

theorem unlink_only_after_close_witness:
  "\<exists>r. read_journal sample_decode None 16 (ws_file (snd (writer_run (sample_env 9 99)
       [Op_Append (Limit_Entry sample_limit), Op_Finalize sample_close, Op_Release True True]
       (sample_open 9 99)))) = Some r \<and> close_observed r"
proof -
  let ?ops = "[Op_Append (Limit_Entry sample_limit), Op_Finalize sample_close, Op_Release True True]"
  obtain adm s where run: "writer_run (sample_env 9 99) ?ops (sample_open 9 99) = (adm, s)"
    by (metis prod.exhaust)
  have full: "ws_journal_complete (sample_open 9 99)" by (simp add: writer_eval)
  have "\<not> ws_linked (snd (writer_run (sample_env 9 99) ?ops (sample_open 9 99)))"
    by (simp add: writer_eval sample_close_def)
  then have gone: "\<not> ws_linked s" by (simp only: run) simp
  have aps: "appends_before_finalize ?ops" by simp
  have mx: "max_frame (sample_env 9 99) \<le> 16" by (simp add: sample_env_def)
  show ?thesis
    unfolding run snd_conv
    using unlink_only_after_close [OF sample_codec_ok _ _ sample_open_def [symmetric] full aps run mx gone]
    by simp
qed

text \<open>
  A degraded writer is frozen: no operation changes the file, the sequence or the byte count, or
  admits an entry, so nothing is ever appended across a gap.
\<close>

theorem degraded_writer_frozen:
  assumes "ws_degraded s" and "writer_run E ops s = (admitted, s')"
  shows "ws_file s' = ws_file s \<and> ws_sequence s' = ws_sequence s
    \<and> ws_journal_bytes s' = ws_journal_bytes s \<and> ws_degraded s' \<and> admitted = []"
  using run_frozen [OF assms] by simp

theorem degraded_writer_frozen_witness:
  "ws_file (snd (writer_run (sample_env 9 0) [Op_Append (Limit_Entry sample_limit), Op_Fsync]
     (sample_open 9 0))) = [0x1E, 0, 0, 0, 1]"
proof -
  have d: "ws_degraded (sample_open 9 0)" by (simp add: writer_eval)
  have f: "ws_file (sample_open 9 0) = [0x1E, 0, 0, 0, 1]" by (simp add: writer_eval)
  show ?thesis by (simp only: degraded_writer_frozen [OF d prod.collapse [symmetric]] f)
qed

text \<open>
  Disk bounds: whatever is appended and whatever the system calls do, the journal never exceeds
  its caps by more than the two entries that bypass them (the exhausted marker and the finalize
  entry), and while the journal is complete and not finalized it is within the caps.
\<close>

theorem writer_disk_bounded:
  assumes "config_valid (we_config E)" and "open_journal E j header opened initial_writer = s1"
    and "writer_run E ops s1 = (admitted, s2)"
  shows "int (ws_journal_bytes s2) \<le> wc_max_journal_bytes (we_config E) + 2 * max_stored_frame E
    \<and> int (ws_sequence s2) \<le> wc_max_records (we_config E) + 2
    \<and> (ws_journal_complete s2 \<and> \<not> ws_finalized s2 \<and> \<not> ws_degraded s2 \<longrightarrow>
        int (ws_journal_bytes s2) \<le> wc_max_journal_bytes (we_config E)
        \<and> int (ws_sequence s2) \<le> wc_max_records (we_config E))"
proof -
  have inv: "caps_inv E s2"
    by (rule run_caps [OF open_caps [OF assms(1,2)] assms(1,3)])
  have "slack s2 \<le> 2" by (simp add: slack_def)
  with mult_right_mono [OF this max_stored_frame_nonneg [OF assms(1)]] inv show ?thesis
    by (auto simp: caps_inv_def slack_def)
qed

theorem writer_disk_bounded_witness:
  "ws_sequence (snd (writer_run (sample_env 2 99)
     (replicate 7 (Op_Append (Limit_Entry sample_limit))) (sample_open 2 99))) \<le> 4"
proof -
  have c: "config_valid (we_config (sample_env 2 99))" by (simp add: config_valid_def sample_env_def)
  show ?thesis
    using writer_disk_bounded [OF c sample_open_def [symmetric] prod.collapse [symmetric]]
    by (simp add: sample_env_def)
qed

end
