(* ===== verification/Transport.thy ===== *)
theory Transport
  imports Prelude Complex_Main
begin

text \<open>
  What the three incident exporters share (\<^verbatim>\<open>exporter.py\<close>): the item, the
  diagnostics, the outcome of one send with its classification by the HTTP transport, and the delay
  before a retry.

  Seconds (Python floats) are exact rationals: rounding is not modelled, and neither are the infinite
  and undefined floats a \<^verbatim>\<open>Retry-After\<close> header could spell.
\<close>

type_synonym seconds = rat

record export_item =
  ei_bundle_id :: string
  ei_payload :: bytes
  ei_content_type :: string

record export_diagnostic =
  ed_code :: string
  ed_bundle_id :: string
  ed_attempt :: nat
  ed_retryable :: bool

section \<open>One send\<close>

text \<open>What a call of \<^verbatim>\<open>transport.send\<close> ends in: it returns or raises.\<close>

datatype send_outcome =
    Sent
  | Permanent
  | Retryable "seconds option"
  | Failure

text \<open>
  What the HTTP library answers: a response, an \<^verbatim>\<open>HTTPError\<close> with its code and
  \<^verbatim>\<open>Retry-After\<close> header, or any other exception. A header is read as seconds, or as a date
  (given as the seconds to it from now), or not at all.
\<close>

datatype retry_header = Delta_Seconds seconds | Until_Date seconds | Unreadable_Header

datatype http_result =
    Http_Response int
  | Http_Error int "retry_header option"
  | Http_Exception

definition read_retry_after :: "retry_header option \<Rightarrow> seconds option" where
  "read_retry_after header =
     (case header of
        None \<Rightarrow> None
      | Some (Delta_Seconds s) \<Rightarrow> Some (max 0 s)
      | Some (Until_Date s) \<Rightarrow> Some (max 0 s)
      | Some Unreadable_Header \<Rightarrow> None)"

definition http_send :: "http_result \<Rightarrow> send_outcome" where
  "http_send r =
     (case r of
        Http_Response status \<Rightarrow> if status \<notin> {200, 201} then Failure else Sent
      | Http_Error code header \<Rightarrow>
          (if code = 408 \<or> code = 429 \<or> code \<ge> 500 then Retryable (read_retry_after header)
           else if code < 500 then Permanent else Failure)
      | Http_Exception \<Rightarrow> Failure)"

text \<open>\<^verbatim>\<open>send_with_timeout\<close> refuses an attempt whose deadline has passed.\<close>

definition send_with_timeout :: "seconds \<Rightarrow> http_result \<Rightarrow> send_outcome" where
  "send_with_timeout timeout r = (if timeout \<le> 0 then Failure else http_send r)"

section \<open>Retries\<close>

record retry_config =
  rc_max_attempts :: nat
  rc_base_backoff :: seconds
  rc_jitter_ratio :: rat
  rc_max_backoff :: seconds
  rc_deadline :: seconds

definition retry_config_valid :: "retry_config \<Rightarrow> bool" where
  "retry_config_valid c \<longleftrightarrow> \<not> rc_max_attempts c < 1 \<and> \<not> rc_base_backoff c < 0
     \<and> 0 \<le> rc_jitter_ratio c \<and> rc_jitter_ratio c \<le> 1 \<and> \<not> rc_max_backoff c \<le> 0 \<and> \<not> rc_deadline c \<le> 0"

text \<open>\<open>jitter\<close> is what \<^verbatim>\<open>random.uniform\<close> drew.\<close>

definition backoff_delay :: "retry_config \<Rightarrow> nat \<Rightarrow> rat \<Rightarrow> seconds option \<Rightarrow> seconds" where
  "backoff_delay c attempt jitter retry_after =
     (let exponential = rc_base_backoff c * 2 ^ (attempt - 1);
          jittered = exponential * jitter
      in min (max jittered (case retry_after of None \<Rightarrow> 0 | Some r \<Rightarrow> r)) (rc_max_backoff c))"

text \<open>
  The environment of one turn of a retry loop: the outcome of the send, the draw, the clock readings
  before the send and after it failed, the wall clock, and whether a wait was cut short.
\<close>

record turn =
  tn_before :: seconds
  tn_outcome :: send_outcome
  tn_after :: seconds
  tn_jitter :: rat
  tn_time_ns :: int
  tn_stopped :: bool

definition retry_after_of :: "send_outcome \<Rightarrow> seconds option" where
  "retry_after_of r = (case r of Retryable after \<Rightarrow> after | _ \<Rightarrow> None)"

definition failure_of :: "send_outcome \<Rightarrow> string" where
  "failure_of r = (case r of Retryable _ \<Rightarrow> ''transport.retryable'' | _ \<Rightarrow> ''transport.failure'')"

definition item_diagnostic :: "string \<Rightarrow> export_item \<Rightarrow> nat \<Rightarrow> bool \<Rightarrow> export_diagnostic" where
  "item_diagnostic code item attempt retryable =
     \<lparr>ed_code = code, ed_bundle_id = ei_bundle_id item, ed_attempt = attempt, ed_retryable = retryable\<rparr>"

lemma backoff_delay_bounds:
  assumes "retry_config_valid c"
  shows "0 \<le> backoff_delay c n j r \<and> backoff_delay c n j r \<le> rc_max_backoff c
    \<or> (\<exists>s. r = Some s \<and> s < 0) \<or> j < 0"
  using assms
  by (auto simp: backoff_delay_def Let_def retry_config_valid_def le_max_iff_disj min_def
      intro!: mult_nonneg_nonneg)

end
