(* ===== verification/AsyncExporter.thy ===== *)
theory AsyncExporter
  imports Transport
begin

text \<open>
  The bounded in-memory exporter (\<^verbatim>\<open>exporter.py\<close>, \<open>BoundedAsyncExporter\<close>):
  \<^verbatim>\<open>submit\<close> on any thread, one worker thread, \<^verbatim>\<open>shutdown\<close> and the reset after a fork.
  The worker's thread is a program counter (\<open>phase\<close>) and one function for its next atomic
  step, so other threads' calls interleave between its steps.
\<close>

section \<open>State\<close>

record pending_export =
  pe_item :: export_item
  pe_enqueued_at :: seconds

text \<open>How an accepted item ended: which \<^verbatim>\<open>return\<close> of the retry loop was taken.\<close>

datatype fate = Fate_Sent | Fate_Rejected | Fate_Failed

text \<open>
  Where the worker is: at \<^verbatim>\<open>queue.get\<close>, holding an item not yet accounted for, before the send
  of an attempt (with the deadline), in the wait before the next attempt, or in the
  \<^verbatim>\<open>finally\<close> block.
\<close>

datatype phase =
    Idle
  | Taken pending_export
  | Sending pending_export nat seconds
  | Backing_Off pending_export nat seconds
  | Finishing pending_export fate

record async_config =
  ae_capacity :: nat
  ae_max_queue_bytes :: int
  ae_retry :: retry_config

definition async_config_valid :: "async_config \<Rightarrow> bool" where
  "async_config_valid c \<longleftrightarrow> \<not> ae_capacity c < 1 \<and> \<not> ae_max_queue_bytes c < 1
     \<and> retry_config_valid (ae_retry c)"

record async_exporter =
  ax_queue :: "pending_export list"
  ax_unfinished :: nat
  ax_phase :: phase
  ax_closed :: bool
  ax_stop_requested :: bool
  ax_queued_bytes :: int
  ax_in_flight_bytes :: int
  ax_in_flight_enqueued_at :: "seconds option"
  ax_queued_times :: "seconds list"
  ax_high_water_bytes :: int
  ax_accepted :: nat
  ax_sent :: nat
  ax_dropped :: nat
  ax_failed :: nat
  ax_rejected :: nat
  ax_retried :: nat
  ax_overflow :: nat
  ax_last_success :: "int option"
  ax_last_failure :: "string option"
  ax_diagnostics :: "export_diagnostic list"

definition new_async :: async_exporter where
  "new_async =
     \<lparr>ax_queue = [], ax_unfinished = 0, ax_phase = Idle, ax_closed = False, ax_stop_requested = False,
      ax_queued_bytes = 0, ax_in_flight_bytes = 0, ax_in_flight_enqueued_at = None, ax_queued_times = [],
      ax_high_water_bytes = 0, ax_accepted = 0, ax_sent = 0, ax_dropped = 0, ax_failed = 0,
      ax_rejected = 0, ax_retried = 0, ax_overflow = 0, ax_last_success = None, ax_last_failure = None,
      ax_diagnostics = []\<rparr>"

text \<open>The state of a forked child; \<open>ax_diagnostics\<close> is what this process has reported.\<close>

definition ensure_pid :: "async_exporter \<Rightarrow> async_exporter" where
  "ensure_pid s = new_async\<lparr>ax_closed := ax_closed s\<rparr>"

definition notify_async :: "export_diagnostic \<Rightarrow> async_exporter \<Rightarrow> async_exporter" where
  "notify_async d s = s\<lparr>ax_diagnostics := ax_diagnostics s @ [d]\<rparr>"

abbreviation payload_size :: "export_item \<Rightarrow> int" where
  "payload_size item \<equiv> int (length (ei_payload item))"

section \<open>Submitting and closing\<close>

definition drop_item :: "string \<Rightarrow> export_item \<Rightarrow> async_exporter \<Rightarrow> async_exporter" where
  "drop_item code item s =
     notify_async (item_diagnostic code item 0 False)
       (s\<lparr>ax_dropped := ax_dropped s + 1, ax_last_failure := Some code\<rparr>)"

definition submit_async ::
  "async_config \<Rightarrow> export_item \<Rightarrow> seconds \<Rightarrow> async_exporter \<Rightarrow> bool \<times> async_exporter" where
  "submit_async c item enqueued_at s =
     (if ax_closed s then (False, drop_item ''exporter.closed'' item s)
      else if ax_queued_bytes s + ax_in_flight_bytes s + payload_size item > ae_max_queue_bytes c
        then (False, drop_item ''exporter.queue_bytes_full'' item (s\<lparr>ax_overflow := ax_overflow s + 1\<rparr>))
      else if length (ax_queue s) \<ge> ae_capacity c
        then (False, drop_item ''exporter.queue_full'' item (s\<lparr>ax_overflow := ax_overflow s + 1\<rparr>))
      else
        let queued = ax_queued_bytes s + payload_size item
        in (True, s\<lparr>ax_queue := ax_queue s @ [\<lparr>pe_item = item, pe_enqueued_at = enqueued_at\<rparr>],
              ax_unfinished := ax_unfinished s + 1,
              ax_queued_bytes := queued,
              ax_queued_times := ax_queued_times s @ [enqueued_at],
              ax_high_water_bytes := max (ax_high_water_bytes s) (queued + ax_in_flight_bytes s),
              ax_accepted := ax_accepted s + 1\<rparr>))"

text \<open>What \<^verbatim>\<open>shutdown\<close> changes; it then waits for the worker.\<close>

definition close_async :: "async_exporter \<Rightarrow> async_exporter" where
  "close_async s = s\<lparr>ax_closed := True, ax_stop_requested := True\<rparr>"

text \<open>\<^verbatim>\<open>flush\<close> returns \<^verbatim>\<open>True\<close> once this holds.\<close>

definition flushed :: "async_exporter \<Rightarrow> bool" where
  "flushed s \<longleftrightarrow> ax_unfinished s = 0"

section \<open>The worker\<close>

text \<open>The turn of \<^verbatim>\<open>_send_with_retry\<close> for one attempt.\<close>

definition send_attempt ::
  "async_config \<Rightarrow> turn \<Rightarrow> pending_export \<Rightarrow> nat \<Rightarrow> seconds \<Rightarrow> async_exporter \<Rightarrow> async_exporter" where
  "send_attempt c t p attempt deadline s =
     (let item = pe_item p; r = ae_retry c
      in case tn_outcome t of
        Sent \<Rightarrow> s\<lparr>ax_sent := ax_sent s + 1, ax_last_success := Some (tn_time_ns t),
                  ax_phase := Finishing p Fate_Sent\<rparr>
      | Permanent \<Rightarrow>
          notify_async (item_diagnostic ''exporter.rejected'' item attempt False)
            (s\<lparr>ax_rejected := ax_rejected s + 1, ax_last_failure := Some ''transport.permanent_rejection'',
               ax_phase := Finishing p Fate_Rejected\<rparr>)
      | outcome \<Rightarrow>
          (let s1 = s\<lparr>ax_last_failure := Some (failure_of outcome)\<rparr>
           in if \<not> attempt < rc_max_attempts r then
                notify_async (item_diagnostic ''exporter.failed'' item attempt False)
                  (s1\<lparr>ax_failed := ax_failed s1 + 1, ax_phase := Finishing p Fate_Failed\<rparr>)
              else
                let delay = backoff_delay r attempt (tn_jitter t) (retry_after_of outcome)
                in if tn_after t + delay \<ge> deadline then
                     notify_async (item_diagnostic ''exporter.failed'' item attempt False)
                       (s1\<lparr>ax_failed := ax_failed s1 + 1,
                           ax_last_failure := Some ''exporter.attempt_deadline_exceeded'',
                           ax_phase := Finishing p Fate_Failed\<rparr>)
                   else
                     notify_async (item_diagnostic ''exporter.failed'' item attempt True)
                       (s1\<lparr>ax_retried := ax_retried s1 + 1, ax_phase := Backing_Off p attempt deadline\<rparr>)))"

text \<open>The end of the wait: the event was set, or the delay passed.\<close>

definition wake_up :: "pending_export \<Rightarrow> nat \<Rightarrow> seconds \<Rightarrow> async_exporter \<Rightarrow> async_exporter" where
  "wake_up p attempt deadline s =
     (if ax_stop_requested s then
        notify_async (item_diagnostic ''exporter.failed'' (pe_item p) attempt False)
          (s\<lparr>ax_failed := ax_failed s + 1, ax_last_failure := Some ''exporter.shutdown_during_retry'',
             ax_phase := Finishing p Fate_Failed\<rparr>)
      else s\<lparr>ax_phase := Sending p (attempt + 1) deadline\<rparr>)"

text \<open>
  The worker's next step. \<open>Idle\<close> with an empty queue, it waits (or returns, once stopped).
\<close>

definition worker :: "async_config \<Rightarrow> turn \<Rightarrow> async_exporter \<Rightarrow> async_exporter" where
  "worker c t s =
     (case ax_phase s of
        Idle \<Rightarrow> (case ax_queue s of [] \<Rightarrow> s | p # ps \<Rightarrow> s\<lparr>ax_queue := ps, ax_phase := Taken p\<rparr>)
      | Taken p \<Rightarrow>
          s\<lparr>ax_queued_bytes := ax_queued_bytes s - payload_size (pe_item p),
            ax_in_flight_bytes := ax_in_flight_bytes s + payload_size (pe_item p),
            ax_in_flight_enqueued_at := Some (pe_enqueued_at p),
            ax_queued_times := tl (ax_queued_times s),
            ax_phase := Sending p 1 (tn_before t + rc_deadline (ae_retry c))\<rparr>
      | Sending p attempt deadline \<Rightarrow> send_attempt c t p attempt deadline s
      | Backing_Off p attempt deadline \<Rightarrow> wake_up p attempt deadline s
      | Finishing p _ \<Rightarrow>
          s\<lparr>ax_in_flight_bytes := ax_in_flight_bytes s - payload_size (pe_item p),
            ax_in_flight_enqueued_at := None, ax_unfinished := ax_unfinished s - 1, ax_phase := Idle\<rparr>)"

definition worker_returns :: "async_exporter \<Rightarrow> bool" where
  "worker_returns s \<longleftrightarrow> ax_phase s = Idle \<and> ax_stop_requested s \<and> ax_queue s = []"

section \<open>Status\<close>

record exporter_report =
  as_state :: string
  as_pending :: nat
  as_queued_bytes :: int
  as_in_flight_bytes :: int
  as_high_water_bytes :: int
  as_oldest_age :: "seconds option"

definition oldest_enqueued_at :: "async_exporter \<Rightarrow> seconds option" where
  "oldest_enqueued_at s =
     (case (ax_queued_times s, ax_in_flight_enqueued_at s) of
        ([], None) \<Rightarrow> None
      | ([], Some b) \<Rightarrow> Some b
      | (a # _, None) \<Rightarrow> Some a
      | (a # _, Some b) \<Rightarrow> Some (min a b))"

text \<open>The counters of the status are the state's own fields.\<close>

definition async_status :: "bool \<Rightarrow> seconds \<Rightarrow> async_exporter \<Rightarrow> exporter_report" where
  "async_status alive now s =
     \<lparr>as_state = (if ax_closed s \<and> alive then ''closing'' else if ax_closed s then ''closed'' else ''running''),
      as_pending = ax_unfinished s, as_queued_bytes = ax_queued_bytes s,
      as_in_flight_bytes = ax_in_flight_bytes s, as_high_water_bytes = ax_high_water_bytes s,
      as_oldest_age = map_option (\<lambda>t. max 0 (now - t)) (oldest_enqueued_at s)\<rparr>"

section \<open>Runs\<close>

text \<open>
  Every interleaving of calls with the worker's steps, with two ghost lists: the items accepted so far
  and the fates of those the worker is done with. A fork's child starts with none of its parent's.
\<close>

type_synonym async_run = "async_exporter \<times> export_item list \<times> (export_item \<times> fate) list"

fun settle :: "phase \<Rightarrow> (export_item \<times> fate) list" where
  "settle (Finishing p f) = [(pe_item p, f)]"
| "settle _ = []"

inductive async_step :: "async_config \<Rightarrow> async_run \<Rightarrow> async_run \<Rightarrow> bool" for c where
  Submit: "submit_async c item now s = (ok, s') \<Longrightarrow>
    async_step c (s, acc, fates) (s', if ok then acc @ [item] else acc, fates)"
| Worker: "async_step c (s, acc, fates) (worker c t s, acc, fates @ settle (ax_phase s))"
| Close: "async_step c (s, acc, fates) (close_async s, acc, fates)"
| Fork: "async_step c (s, acc, fates) (ensure_pid s, [], [])"

inductive_cases async_stepE: "async_step c (s, acc, fates) r"

section \<open>The invariant\<close>

fun held :: "phase \<Rightarrow> pending_export list" where
  "held Idle = []"
| "held (Taken p) = [p]"
| "held (Sending p _ _) = [p]"
| "held (Backing_Off p _ _) = [p]"
| "held (Finishing p _) = [p]"

fun taken :: "phase \<Rightarrow> pending_export list" where
  "taken (Taken p) = [p]"
| "taken _ = []"

fun in_flight :: "phase \<Rightarrow> pending_export list" where
  "in_flight (Sending p _ _) = [p]"
| "in_flight (Backing_Off p _ _) = [p]"
| "in_flight (Finishing p _) = [p]"
| "in_flight _ = []"

fun attempts_ok :: "nat \<Rightarrow> phase \<Rightarrow> bool" where
  "attempts_ok m (Sending _ n _) \<longleftrightarrow> 1 \<le> n \<and> n \<le> m"
| "attempts_ok m (Backing_Off _ n _) \<longleftrightarrow> 1 \<le> n \<and> n < m"
| "attempts_ok m _ \<longleftrightarrow> True"

abbreviation bytes_of :: "pending_export list \<Rightarrow> int" where
  "bytes_of ps \<equiv> sum_list (map (payload_size \<circ> pe_item) ps)"

definition counted :: "fate \<Rightarrow> (export_item \<times> fate) list \<Rightarrow> phase \<Rightarrow> nat" where
  "counted f fates ph = length (filter (\<lambda>(_, g). g = f) (fates @ settle ph))"

text \<open>The parts of the invariant: where the items are, the bytes, and the counters.\<close>

definition items_inv :: "async_run \<Rightarrow> bool" where
  "items_inv r \<longleftrightarrow> (case r of (s, acc, fates) \<Rightarrow>
     acc = map fst fates @ map pe_item (held (ax_phase s) @ ax_queue s)
     \<and> ax_unfinished s = length (held (ax_phase s)) + length (ax_queue s))"

definition bytes_inv :: "async_config \<Rightarrow> async_exporter \<Rightarrow> bool" where
  "bytes_inv c s \<longleftrightarrow>
     ax_queued_bytes s = bytes_of (taken (ax_phase s) @ ax_queue s)
     \<and> ax_in_flight_bytes s = bytes_of (in_flight (ax_phase s))
     \<and> ax_queued_times s = map pe_enqueued_at (taken (ax_phase s) @ ax_queue s)
     \<and> ax_in_flight_enqueued_at s = (case in_flight (ax_phase s) of [] \<Rightarrow> None | p # _ \<Rightarrow> Some (pe_enqueued_at p))
     \<and> length (ax_queue s) \<le> ae_capacity c
     \<and> ax_queued_bytes s + ax_in_flight_bytes s \<le> ax_high_water_bytes s
     \<and> ax_high_water_bytes s \<le> ae_max_queue_bytes c"

abbreviation reported :: "bool \<Rightarrow> async_exporter \<Rightarrow> nat" where
  "reported retryable s \<equiv> length (filter (\<lambda>d. ed_retryable d = retryable) (ax_diagnostics s))"

definition counters_inv :: "async_run \<Rightarrow> bool" where
  "counters_inv r \<longleftrightarrow> (case r of (s, acc, fates) \<Rightarrow>
     ax_accepted s = length acc
     \<and> ax_sent s = counted Fate_Sent fates (ax_phase s)
     \<and> ax_rejected s = counted Fate_Rejected fates (ax_phase s)
     \<and> ax_failed s = counted Fate_Failed fates (ax_phase s)
     \<and> reported False s = ax_dropped s + ax_rejected s + ax_failed s
     \<and> reported True s = ax_retried s)"

definition async_inv :: "async_config \<Rightarrow> async_run \<Rightarrow> bool" where
  "async_inv c r \<longleftrightarrow> items_inv r \<and> bytes_inv c (fst r) \<and> counters_inv r
     \<and> attempts_ok (rc_max_attempts (ae_retry c)) (ax_phase (fst r))"

lemmas async_inv_defs = async_inv_def items_inv_def bytes_inv_def counters_inv_def counted_def
  item_diagnostic_def

lemma new_async_inv: "async_config_valid c \<Longrightarrow> async_inv c (new_async, [], [])"
  by (simp add: async_inv_defs new_async_def async_config_valid_def)

lemma ensure_pid_inv: "async_config_valid c \<Longrightarrow> async_inv c (ensure_pid s, [], [])"
  by (simp add: async_inv_defs ensure_pid_def new_async_def async_config_valid_def)

lemma submit_inv:
  assumes "async_inv c (s, acc, fates)" "submit_async c item now s = (ok, s')"
  shows "async_inv c (s', if ok then acc @ [item] else acc, fates)"
  using assms
  by (auto simp: submit_async_def drop_item_def notify_async_def Let_def async_inv_defs split: if_splits)

lemma close_inv: "async_inv c (s, acc, fates) \<Longrightarrow> async_inv c (close_async s, acc, fates)"
  by (simp add: close_async_def async_inv_defs)

lemma send_attempt_frame [simp]:
  "ax_queue (send_attempt c t p n d s) = ax_queue s"
  "ax_unfinished (send_attempt c t p n d s) = ax_unfinished s"
  "ax_closed (send_attempt c t p n d s) = ax_closed s"
  "ax_stop_requested (send_attempt c t p n d s) = ax_stop_requested s"
  "ax_queued_bytes (send_attempt c t p n d s) = ax_queued_bytes s"
  "ax_in_flight_bytes (send_attempt c t p n d s) = ax_in_flight_bytes s"
  "ax_in_flight_enqueued_at (send_attempt c t p n d s) = ax_in_flight_enqueued_at s"
  "ax_queued_times (send_attempt c t p n d s) = ax_queued_times s"
  "ax_high_water_bytes (send_attempt c t p n d s) = ax_high_water_bytes s"
  "ax_accepted (send_attempt c t p n d s) = ax_accepted s"
  "ax_dropped (send_attempt c t p n d s) = ax_dropped s"
  by (cases "tn_outcome t"; simp add: send_attempt_def Let_def notify_async_def)+

text \<open>How an attempt leaves the counters and the program counter.\<close>

definition settled_as :: "pending_export \<Rightarrow> fate \<Rightarrow> async_exporter \<Rightarrow> async_exporter \<Rightarrow> bool" where
  "settled_as p f s s' \<longleftrightarrow> ax_phase s' = Finishing p f
     \<and> ax_sent s' = ax_sent s + (if f = Fate_Sent then 1 else 0)
     \<and> ax_rejected s' = ax_rejected s + (if f = Fate_Rejected then 1 else 0)
     \<and> ax_failed s' = ax_failed s + (if f = Fate_Failed then 1 else 0)
     \<and> reported False s' = reported False s + (if f = Fate_Sent then 0 else 1)
     \<and> reported True s' = reported True s \<and> ax_retried s' = ax_retried s"

definition waits :: "async_config \<Rightarrow> pending_export \<Rightarrow> nat \<Rightarrow> seconds \<Rightarrow> async_exporter \<Rightarrow> async_exporter \<Rightarrow> bool" where
  "waits c p n d s s' \<longleftrightarrow> ax_phase s' = Backing_Off p n d \<and> n < rc_max_attempts (ae_retry c)
     \<and> ax_sent s' = ax_sent s \<and> ax_rejected s' = ax_rejected s \<and> ax_failed s' = ax_failed s
     \<and> reported False s' = reported False s
     \<and> reported True s' = reported True s + 1 \<and> ax_retried s' = ax_retried s + 1"

lemma send_attempt_cases:
  "(\<exists>f. settled_as p f s (send_attempt c t p n d s)) \<or> waits c p n d s (send_attempt c t p n d s)"
proof (cases "tn_outcome t")
  case Sent
  then have "settled_as p Fate_Sent s (send_attempt c t p n d s)"
    by (simp add: settled_as_def send_attempt_def)
  then show ?thesis by blast
next
  case Permanent
  then have "settled_as p Fate_Rejected s (send_attempt c t p n d s)"
    by (simp add: settled_as_def send_attempt_def notify_async_def item_diagnostic_def)
  then show ?thesis by blast
next
  case (Retryable r)
  then have "settled_as p Fate_Failed s (send_attempt c t p n d s) \<or> waits c p n d s (send_attempt c t p n d s)"
    by (simp add: settled_as_def waits_def send_attempt_def notify_async_def item_diagnostic_def Let_def)
  then show ?thesis by blast
next
  case Failure
  then have "settled_as p Fate_Failed s (send_attempt c t p n d s) \<or> waits c p n d s (send_attempt c t p n d s)"
    by (simp add: settled_as_def waits_def send_attempt_def notify_async_def item_diagnostic_def Let_def)
  then show ?thesis by blast
qed

lemma send_attempt_inv:
  assumes inv: "async_inv c (s, acc, fates)" and ph: "ax_phase s = Sending p n d"
  shows "async_inv c (send_attempt c t p n d s, acc, fates)"
  using send_attempt_cases [of p s c t n d]
proof (elim disjE exE)
  fix f assume "settled_as p f s (send_attempt c t p n d s)"
  with inv ph show ?thesis by (cases f) (auto simp: settled_as_def async_inv_defs)
next
  assume "waits c p n d s (send_attempt c t p n d s)"
  with inv ph show ?thesis by (auto simp: waits_def async_inv_defs)
qed

lemma worker_inv:
  assumes inv: "async_inv c (s, acc, fates)" and c: "async_config_valid c"
  shows "async_inv c (worker c t s, acc, fates @ settle (ax_phase s))"
proof (cases "ax_phase s")
  case Idle
  with inv show ?thesis
    by (cases "ax_queue s") (auto simp: worker_def async_inv_defs)
next
  case (Taken p)
  with inv c show ?thesis
    by (auto simp: worker_def async_inv_defs async_config_valid_def retry_config_valid_def)
next
  case (Sending p n d)
  with send_attempt_inv [OF inv Sending] show ?thesis by (simp add: worker_def)
next
  case (Backing_Off p n d)
  with inv show ?thesis
    by (auto simp: worker_def wake_up_def notify_async_def async_inv_defs)
next
  case (Finishing p f)
  with inv show ?thesis by (cases f) (auto simp: worker_def async_inv_defs)
qed

lemma async_reachable:
  assumes "async_config_valid c" "(async_step c)\<^sup>*\<^sup>* (new_async, [], []) r"
  shows "async_inv c r"
  using assms(2)
proof (induction rule: rtranclp_induct)
  case base
  show ?case using assms(1) by (rule new_async_inv)
next
  case (step r r')
  from step(2,3) show ?case
    by cases (simp_all add: submit_inv worker_inv close_inv ensure_pid_inv assms(1))
qed

section \<open>Draining\<close>

text \<open>How many steps of its own the worker still needs, at most.\<close>

fun phase_work :: "nat \<Rightarrow> phase \<Rightarrow> nat" where
  "phase_work m Idle = 0"
| "phase_work m (Taken p) = 2 * m + 1"
| "phase_work m (Sending p n d) = 2 * (m - n) + 2"
| "phase_work m (Backing_Off p n d) = 2 * (m - n) + 1"
| "phase_work m (Finishing p f) = 1"

definition work :: "nat \<Rightarrow> async_exporter \<Rightarrow> nat" where
  "work m s = length (ax_queue s) * (2 * m + 2) + phase_work m (ax_phase s)"

lemma worker_work:
  assumes "async_config_valid c" "m = rc_max_attempts (ae_retry c)" "attempts_ok m (ax_phase s)"
  shows "work m (worker c t s) \<le> work m s - 1"
proof (cases "ax_phase s")
  case Idle
  then show ?thesis by (cases "ax_queue s") (auto simp: worker_def work_def)
next
  case (Taken p)
  with assms show ?thesis
    by (auto simp: worker_def work_def async_config_valid_def retry_config_valid_def)
next
  case (Sending p n d)
  with assms send_attempt_cases [of p s c t n d] show ?thesis
    by (auto simp: worker_def work_def settled_as_def waits_def)
next
  case (Backing_Off p n d)
  with assms show ?thesis by (auto simp: worker_def work_def wake_up_def notify_async_def)
next
  case (Finishing p f)
  then show ?thesis by (simp add: worker_def work_def)
qed

lemma worker_drains:
  assumes "async_config_valid c" "m = rc_max_attempts (ae_retry c)" "async_inv c (s, acc, fates)"
    and "work m s \<le> length ts"
  shows "\<exists>fates'. async_inv c (fold (worker c) ts s, acc, fates') \<and> work m (fold (worker c) ts s) = 0"
  using assms(3,4)
proof (induction ts arbitrary: s fates)
  case (Cons t ts)
  have "attempts_ok m (ax_phase s)" using Cons.prems(1) assms(2) by (simp add: async_inv_def)
  from worker_work [OF assms(1,2) this, of t] Cons.prems(2)
  have "work m (worker c t s) \<le> length ts" by simp
  from Cons.IH [OF worker_inv [OF Cons.prems(1) assms(1)] this] show ?case by simp
qed auto

lemma work_bound: "async_inv c (s, acc, fates) \<Longrightarrow>
    work (rc_max_attempts (ae_retry c)) s \<le> ax_unfinished s * (2 * rc_max_attempts (ae_retry c) + 2)"
  by (cases "ax_phase s") (auto simp: work_def async_inv_def items_inv_def)

lemma work_zero: "async_inv c (s, acc, fates) \<Longrightarrow> work m s = 0 \<Longrightarrow> flushed s \<and> acc = map fst fates"
  by (cases "ax_phase s") (auto simp: work_def async_inv_def items_inv_def flushed_def)

lemma fates_partition: "length fs = length (filter (\<lambda>(_, g). g = Fate_Sent) fs)
    + length (filter (\<lambda>(_, g). g = Fate_Rejected) fs) + length (filter (\<lambda>(_, g). g = Fate_Failed) fs)"
  by (induction fs) (auto intro: fate.exhaust)

section \<open>Samples\<close>

definition sample_retry :: retry_config where
  "sample_retry = \<lparr>rc_max_attempts = 2, rc_base_backoff = 1, rc_jitter_ratio = 0, rc_max_backoff = 4,
     rc_deadline = 30\<rparr>"

definition sample_async_config :: async_config where
  "sample_async_config = \<lparr>ae_capacity = 1, ae_max_queue_bytes = 10, ae_retry = sample_retry\<rparr>"

definition sample_item :: export_item where
  "sample_item = \<lparr>ei_bundle_id = ''b'', ei_payload = [1], ei_content_type = ''t''\<rparr>"

definition sample_turn :: "send_outcome \<Rightarrow> turn" where
  "sample_turn r = \<lparr>tn_before = 0, tn_outcome = r, tn_after = 1, tn_jitter = 1, tn_time_ns = 0, tn_stopped = False\<rparr>"

definition sample_queued :: async_exporter where
  "sample_queued = snd (submit_async sample_async_config sample_item 0 new_async)"

lemma sample_async_valid: "async_config_valid sample_async_config"
  by (simp add: async_config_valid_def sample_async_config_def retry_config_valid_def sample_retry_def)

lemma sample_queued_run: "(async_step sample_async_config)\<^sup>*\<^sup>* (new_async, [], []) (sample_queued, [sample_item], [])"
proof -
  have "fst (submit_async sample_async_config sample_item 0 new_async)"
    by (simp add: submit_async_def new_async_def sample_async_config_def sample_item_def Let_def)
  then have "submit_async sample_async_config sample_item 0 new_async = (True, sample_queued)"
    by (simp add: sample_queued_def prod_eq_iff)
  from async_step.Submit [OF this, of "[]" "[]"] show ?thesis by simp
qed

section \<open>Properties\<close>

text \<open>
  C25. No item is lost silently or settled twice: in every interleaving of submissions, worker steps,
  shutdown and forks, the accepted items are, in order, those with exactly one fate each, the one the
  worker holds and the queue; the counters are the numbers of these, and every drop, rejection and
  failure has been reported by one final diagnostic.
\<close>

theorem async_accounts_for_items:
  assumes "async_config_valid c" "(async_step c)\<^sup>*\<^sup>* (new_async, [], []) (s, acc, fates)"
  shows "acc = map fst fates @ map pe_item (held (ax_phase s) @ ax_queue s)
    \<and> ax_accepted s = length acc
    \<and> ax_accepted s + length (settle (ax_phase s)) = ax_sent s + ax_rejected s + ax_failed s + ax_unfinished s
    \<and> length (filter (\<lambda>d. \<not> ed_retryable d) (ax_diagnostics s)) = ax_dropped s + ax_rejected s + ax_failed s"
proof -
  have inv: "async_inv c (s, acc, fates)" using assms by (rule async_reachable)
  from fates_partition [of "fates @ settle (ax_phase s)"] inv show ?thesis
    by (auto simp: async_inv_def items_inv_def counters_inv_def counted_def)
qed

theorem async_accounts_for_items_witness:
  "ax_accepted sample_queued = 1
   \<and> map pe_item (held (ax_phase sample_queued) @ ax_queue sample_queued) = [sample_item]"
  using async_accounts_for_items [OF sample_async_valid sample_queued_run] by simp

text \<open>
  The bounds hold at every moment: the queue is within its capacity, and the bytes queued and in
  flight are exactly those of the unsettled items and never exceed the byte bound, nor the high-water mark.
\<close>

theorem async_queue_bounded:
  assumes "async_config_valid c" "(async_step c)\<^sup>*\<^sup>* (new_async, [], []) (s, acc, fates)"
  shows "length (ax_queue s) \<le> ae_capacity c
    \<and> ax_queued_bytes s + ax_in_flight_bytes s
        = sum_list (map (\<lambda>p. int (length (ei_payload (pe_item p)))) (held (ax_phase s) @ ax_queue s))
    \<and> ax_queued_bytes s + ax_in_flight_bytes s \<le> ax_high_water_bytes s
    \<and> ax_high_water_bytes s \<le> ae_max_queue_bytes c"
proof -
  have inv: "async_inv c (s, acc, fates)" using assms by (rule async_reachable)
  then show ?thesis
    by (cases "ax_phase s") (auto simp: async_inv_def bytes_inv_def comp_def)
qed

theorem async_queue_bounded_witness:
  "length (ax_queue sample_queued) \<le> 1 \<and> ax_high_water_bytes sample_queued \<le> 10"
  using async_queue_bounded [OF sample_async_valid sample_queued_run] by (simp add: sample_async_config_def)

text \<open>
  The worker drains: whatever the transport does, after at most \<open>2 * max_attempts + 2\<close> steps
  of its own for each unfinished item the worker has settled everything accepted, so that
  \<^verbatim>\<open>flush\<close> returns \<^verbatim>\<open>True\<close>.
\<close>

theorem async_worker_drains:
  assumes "async_config_valid c" "(async_step c)\<^sup>*\<^sup>* (new_async, [], []) (s, acc, fates)"
    and "ax_unfinished s * (2 * rc_max_attempts (ae_retry c) + 2) \<le> length ts"
  shows "flushed (fold (worker c) ts s)
    \<and> ax_accepted (fold (worker c) ts s)
      = ax_sent (fold (worker c) ts s) + ax_rejected (fold (worker c) ts s) + ax_failed (fold (worker c) ts s)"
proof -
  have inv: "async_inv c (s, acc, fates)" using assms(1,2) by (rule async_reachable)
  with work_bound [OF inv] assms(3) obtain fates' where
    inv': "async_inv c (fold (worker c) ts s, acc, fates')"
    and w: "work (rc_max_attempts (ae_retry c)) (fold (worker c) ts s) = 0"
    using worker_drains [OF assms(1) refl inv] by (meson le_trans)
  from fates_partition [of "fates' @ settle (ax_phase (fold (worker c) ts s))"] inv' work_zero [OF inv' w] w show ?thesis
    by (cases "ax_phase (fold (worker c) ts s)")
       (auto simp: async_inv_def counters_inv_def counted_def work_def)
qed

theorem async_worker_drains_witness:
  "flushed (fold (worker sample_async_config) (replicate 6 (sample_turn (Retryable None))) sample_queued)"
proof -
  have "ax_unfinished sample_queued = 1"
    by (simp add: sample_queued_def submit_async_def new_async_def sample_async_config_def sample_item_def Let_def)
  then have n: "ax_unfinished sample_queued * (2 * rc_max_attempts (ae_retry sample_async_config) + 2)
      \<le> length (replicate 6 (sample_turn (Retryable None)))"
    by (simp add: sample_async_config_def sample_retry_def)
  from async_worker_drains [OF sample_async_valid sample_queued_run n] show ?thesis by simp
qed

end
