(* ===== verification/SyncExporter.thy ===== *)
theory SyncExporter
  imports Transport
begin

text \<open>
  The exporter that delivers on the caller's thread (\<^verbatim>\<open>exporter.py\<close>,
  \<open>SynchronousExporter\<close>). A submission's environment is one \<open>turn\<close> per attempt; the
  calls of the transport and of \<^verbatim>\<open>time.sleep\<close> are recorded.
\<close>

record sync_exporter =
  sy_closed :: bool
  sy_accepted :: nat
  sy_sent :: nat
  sy_dropped :: nat
  sy_failed :: nat
  sy_rejected :: nat
  sy_retried :: nat
  sy_last_success :: "int option"
  sy_last_failure :: "string option"
  sy_diagnostics :: "export_diagnostic list"
  sy_sends :: "export_item list"
  sy_sleeps :: "seconds list"

definition new_sync :: sync_exporter where
  "new_sync = \<lparr>sy_closed = False, sy_accepted = 0, sy_sent = 0, sy_dropped = 0, sy_failed = 0,
     sy_rejected = 0, sy_retried = 0, sy_last_success = None, sy_last_failure = None,
     sy_diagnostics = [], sy_sends = [], sy_sleeps = []\<rparr>"

text \<open>After a fork; the recorded effects are this process's own.\<close>

definition ensure_pid_sync :: "sync_exporter \<Rightarrow> sync_exporter" where
  "ensure_pid_sync s = new_sync\<lparr>sy_closed := sy_closed s\<rparr>"

definition notify_sync :: "export_diagnostic \<Rightarrow> sync_exporter \<Rightarrow> sync_exporter" where
  "notify_sync d s = s\<lparr>sy_diagnostics := sy_diagnostics s @ [d]\<rparr>"

definition sync_close :: "sync_exporter \<Rightarrow> bool \<times> sync_exporter" where
  "sync_close s = (True, s\<lparr>sy_closed := True\<rparr>)"

definition sync_give_up ::
  "string option \<Rightarrow> export_item \<Rightarrow> nat \<Rightarrow> sync_exporter \<Rightarrow> sync_exporter" where
  "sync_give_up failure item attempt s =
     notify_sync (item_diagnostic ''exporter.failed'' item attempt False)
       (s\<lparr>sy_failed := sy_failed s + 1,
          sy_last_failure := (case failure of None \<Rightarrow> sy_last_failure s | f \<Rightarrow> f)\<rparr>)"

text \<open>
  The loop over the attempts. An attempt whose deadline has passed is a
  \<^verbatim>\<open>TimeoutError\<close> before the transport is called.
\<close>

function sync_loop ::
  "retry_config \<Rightarrow> export_item \<Rightarrow> seconds \<Rightarrow> (nat \<Rightarrow> turn) \<Rightarrow> nat \<Rightarrow> sync_exporter
     \<Rightarrow> bool \<times> sync_exporter" where
  "sync_loop c item deadline turns attempt s =
     (if attempt > rc_max_attempts c then (False, s)
      else
        let t = turns attempt;
            sending = deadline - tn_before t > 0;
            s1 = (if sending then s\<lparr>sy_sends := sy_sends s @ [item]\<rparr> else s);
            outcome = (if sending then tn_outcome t else Failure)
        in case outcome of
          Sent \<Rightarrow> (True, s1\<lparr>sy_accepted := sy_accepted s1 + 1, sy_sent := sy_sent s1 + 1,
                           sy_last_success := Some (tn_time_ns t)\<rparr>)
        | Permanent \<Rightarrow>
            (False, notify_sync (item_diagnostic ''exporter.rejected'' item attempt False)
               (s1\<lparr>sy_rejected := sy_rejected s1 + 1,
                   sy_last_failure := Some ''transport.permanent_rejection''\<rparr>))
        | _ \<Rightarrow>
            (let remaining = deadline - tn_after t;
                 s2 = s1\<lparr>sy_last_failure := Some (failure_of outcome)\<rparr>
             in if \<not> (attempt < rc_max_attempts c \<and> remaining > 0)
                then (False, sync_give_up None item attempt s2)
                else
                  let delay = backoff_delay c attempt (tn_jitter t) (retry_after_of outcome)
                  in if delay \<ge> remaining
                     then (False, sync_give_up (Some ''exporter.attempt_deadline_exceeded'') item attempt s2)
                     else
                       let s3 = notify_sync (item_diagnostic ''exporter.failed'' item attempt True) s2
                       in sync_loop c item deadline turns (attempt + 1)
                            (s3\<lparr>sy_retried := sy_retried s3 + 1, sy_sleeps := sy_sleeps s3 @ [delay]\<rparr>)))"
  by pat_completeness auto
termination
  by (relation "measure (\<lambda>(c, item, d, ts, n, s). rc_max_attempts c + 1 - n)") auto

declare sync_loop.simps [simp del]

definition sync_submit ::
  "retry_config \<Rightarrow> export_item \<Rightarrow> seconds \<Rightarrow> (nat \<Rightarrow> turn) \<Rightarrow> sync_exporter \<Rightarrow> bool \<times> sync_exporter" where
  "sync_submit c item now turns s =
     (if sy_closed s then
        (False, notify_sync (item_diagnostic ''exporter.closed'' item 0 False)
           (s\<lparr>sy_dropped := sy_dropped s + 1, sy_last_failure := Some ''exporter.closed''\<rparr>))
      else sync_loop c item (now + rc_deadline c) turns 1 s)"

section \<open>Accounting\<close>

abbreviation final_reports :: "sync_exporter \<Rightarrow> nat" where
  "final_reports s \<equiv> length (filter (\<lambda>d. \<not> ed_retryable d) (sy_diagnostics s))"

text \<open>One settlement: exactly one of the four counters moved, with its report.\<close>

definition settled_once :: "bool \<Rightarrow> sync_exporter \<Rightarrow> sync_exporter \<Rightarrow> bool" where
  "settled_once ok s s' \<longleftrightarrow>
     sy_sent s' + sy_rejected s' + sy_failed s' + sy_dropped s'
       = sy_sent s + sy_rejected s + sy_failed s + sy_dropped s + 1
     \<and> sy_sent s' = sy_sent s + (if ok then 1 else 0)
     \<and> sy_accepted s' = sy_accepted s + (if ok then 1 else 0)
     \<and> final_reports s' = final_reports s + (if ok then 0 else 1)
     \<and> sy_closed s' = sy_closed s"

text \<open>A turn that goes on: the delay is slept and nothing is settled.\<close>

definition retrying ::
  "retry_config \<Rightarrow> nat \<Rightarrow> turn \<Rightarrow> seconds \<Rightarrow> seconds \<Rightarrow> sync_exporter \<Rightarrow> sync_exporter \<Rightarrow> bool" where
  "retrying c n t deadline delay s s' \<longleftrightarrow>
     0 < deadline - tn_after t \<and> delay < deadline - tn_after t
     \<and> delay = backoff_delay c n (tn_jitter t)
         (retry_after_of (if deadline - tn_before t > 0 then tn_outcome t else Failure))
     \<and> sy_sent s' = sy_sent s \<and> sy_rejected s' = sy_rejected s \<and> sy_failed s' = sy_failed s
     \<and> sy_dropped s' = sy_dropped s \<and> sy_accepted s' = sy_accepted s \<and> sy_closed s' = sy_closed s
     \<and> final_reports s' = final_reports s \<and> sy_sleeps s' = sy_sleeps s @ [delay]"

definition sends_at_most :: "nat \<Rightarrow> export_item \<Rightarrow> sync_exporter \<Rightarrow> sync_exporter \<Rightarrow> bool" where
  "sends_at_most m item s s' \<longleftrightarrow> (\<exists>k \<le> m. sy_sends s' = sy_sends s @ replicate k item)"

lemma sends_at_most_trans:
  "sends_at_most m item s s' \<Longrightarrow> sends_at_most m' item s' s'' \<Longrightarrow> sends_at_most (m + m') item s s''"
  unfolding sends_at_most_def by (metis append.assoc replicate_add add_mono)

lemma sends_at_most_mono: "sends_at_most m item s s' \<Longrightarrow> m \<le> m' \<Longrightarrow> sends_at_most m' item s s'"
  unfolding sends_at_most_def by (meson le_trans)

lemma sync_loop_turn:
  fixes c item d turns n s
  assumes "n \<le> rc_max_attempts c"
  defines "r \<equiv> sync_loop c item d turns n s"
  shows "settled_once (fst r) s (snd r) \<and> sends_at_most 1 item s (snd r) \<and> sy_sleeps (snd r) = sy_sleeps s
    \<or> (\<exists>delay s'. n < rc_max_attempts c \<and> r = sync_loop c item d turns (n + 1) s'
        \<and> retrying c n (turns n) d delay s s' \<and> sends_at_most 1 item s s')"
proof -
  let ?t = "turns n"
  let ?sending = "d - tn_before ?t > 0"
  let ?s1 = "if ?sending then s\<lparr>sy_sends := sy_sends s @ [item]\<rparr> else s"
  let ?out = "if ?sending then tn_outcome ?t else Failure"
  let ?delay = "backoff_delay c n (tn_jitter ?t) (retry_after_of ?out)"
  let ?s2 = "?s1\<lparr>sy_last_failure := Some (failure_of ?out)\<rparr>"
  let ?s3 = "notify_sync (item_diagnostic ''exporter.failed'' item n True) ?s2"
  let ?s4 = "?s3\<lparr>sy_retried := sy_retried ?s3 + 1, sy_sleeps := sy_sleeps ?s3 @ [?delay]\<rparr>"
  have sends: "sends_at_most 1 item s x" if "sy_sends x = sy_sends ?s1" for x
    unfolding sends_at_most_def using that by (intro exI [of _ "if ?sending then 1 else 0"]) auto
  consider (sent) "?out = Sent" | (permanent) "?out = Permanent"
    | (over) "?out \<noteq> Sent" "?out \<noteq> Permanent" "\<not> (n < rc_max_attempts c \<and> d - tn_after ?t > 0)"
    | (late) "?out \<noteq> Sent" "?out \<noteq> Permanent" "n < rc_max_attempts c \<and> d - tn_after ?t > 0"
        "?delay \<ge> d - tn_after ?t"
    | (again) "?out \<noteq> Sent" "?out \<noteq> Permanent" "n < rc_max_attempts c \<and> d - tn_after ?t > 0"
        "?delay < d - tn_after ?t" by linarith
  then show ?thesis
  proof cases
    case sent
    then have "r = (True, ?s1\<lparr>sy_accepted := sy_accepted ?s1 + 1, sy_sent := sy_sent ?s1 + 1,
        sy_last_success := Some (tn_time_ns ?t)\<rparr>)"
      unfolding r_def using assms(1) by (subst sync_loop.simps) (simp add: Let_def)
    then show ?thesis using sends by (simp add: settled_once_def)
  next
    case permanent
    then have "r = (False, notify_sync (item_diagnostic ''exporter.rejected'' item n False)
        (?s1\<lparr>sy_rejected := sy_rejected ?s1 + 1, sy_last_failure := Some ''transport.permanent_rejection''\<rparr>))"
      unfolding r_def using assms(1) by (subst sync_loop.simps) (simp add: Let_def)
    then show ?thesis using sends by (simp add: settled_once_def notify_sync_def item_diagnostic_def)
  next
    case over
    then have "r = (False, sync_give_up None item n ?s2)"
      unfolding r_def using assms(1)
      by (subst sync_loop.simps) (cases ?out; simp add: Let_def)
    then show ?thesis using sends
      by (simp add: settled_once_def sync_give_up_def notify_sync_def item_diagnostic_def)
  next
    case late
    then have "r = (False, sync_give_up (Some ''exporter.attempt_deadline_exceeded'') item n ?s2)"
      unfolding r_def using assms(1)
      by (subst sync_loop.simps) (cases ?out; simp add: Let_def)
    then show ?thesis using sends
      by (simp add: settled_once_def sync_give_up_def notify_sync_def item_diagnostic_def)
  next
    case again
    then have "r = sync_loop c item d turns (n + 1) ?s4"
      unfolding r_def using assms(1)
      by (subst sync_loop.simps) (cases ?out; simp add: Let_def)
    moreover have "retrying c n ?t d ?delay s ?s4"
      using again(3,4) by (simp add: retrying_def notify_sync_def item_diagnostic_def)
    moreover have "sends_at_most 1 item s ?s4" by (rule sends) (simp add: notify_sync_def)
    ultimately show ?thesis using again(3) by blast
  qed
qed

lemma settled_after_retry:
  "retrying c n t d delay s s' \<Longrightarrow> settled_once ok s' s'' \<Longrightarrow> settled_once ok s s''"
  by (simp add: retrying_def settled_once_def)

lemma sync_loop_settles:
  assumes "n \<le> rc_max_attempts c"
  shows "settled_once (fst (sync_loop c item d turns n s)) s (snd (sync_loop c item d turns n s))
    \<and> sends_at_most (rc_max_attempts c + 1 - n) item s (snd (sync_loop c item d turns n s))"
  using assms
proof (induction "rc_max_attempts c - n" arbitrary: n s)
  case 0
  with sync_loop_turn [of n c item d turns s] show ?case by auto
next
  case (Suc m)
  from sync_loop_turn [OF Suc.prems, of item d turns s] show ?case
  proof (elim disjE exE conjE)
    assume "settled_once (fst (sync_loop c item d turns n s)) s (snd (sync_loop c item d turns n s))"
      "sends_at_most 1 item s (snd (sync_loop c item d turns n s))"
    then show ?thesis using Suc.prems sends_at_most_mono [of 1 item s _ "rc_max_attempts c + 1 - n"] by simp
  next
    fix delay s'
    assume n: "n < rc_max_attempts c" and eq: "sync_loop c item d turns n s = sync_loop c item d turns (n + 1) s'"
      and r: "retrying c n (turns n) d delay s s'" and one: "sends_at_most 1 item s s'"
    have "settled_once (fst (sync_loop c item d turns (n + 1) s')) s' (snd (sync_loop c item d turns (n + 1) s'))
        \<and> sends_at_most (rc_max_attempts c + 1 - (n + 1)) item s' (snd (sync_loop c item d turns (n + 1) s'))"
      using Suc.hyps n by (intro Suc.hyps(1)) auto
    moreover have "1 + (rc_max_attempts c + 1 - (n + 1)) = rc_max_attempts c + 1 - n" using n by simp
    ultimately show ?thesis
      unfolding eq using settled_after_retry [OF r] sends_at_most_trans [OF one] by metis
  qed
qed

section \<open>The deadline\<close>

text \<open>
  A clock that does not run backwards and sleeps at least as long as asked: each attempt starts no
  earlier than the previous one failed plus its delay.
\<close>

definition clock_ok :: "retry_config \<Rightarrow> seconds \<Rightarrow> (nat \<Rightarrow> turn) \<Rightarrow> bool" where
  "clock_ok c now turns \<longleftrightarrow> now \<le> tn_before (turns 1)
     \<and> (\<forall>k. tn_before (turns k) \<le> tn_after (turns k))
     \<and> (\<forall>k. tn_after (turns k) + backoff_delay c k (tn_jitter (turns k)) (retry_after_of (tn_outcome (turns k)))
            \<le> tn_before (turns (k + 1)))"

lemma sync_loop_in_time:
  assumes "n \<le> rc_max_attempts c" "clock_ok c now turns"
    and "now + slept \<le> tn_before (turns n)" "slept < d - now"
  shows "\<exists>ds. sy_sleeps (snd (sync_loop c item d turns n s)) = sy_sleeps s @ ds \<and> slept + sum_list ds < d - now"
  using assms(1,3,4)
proof (induction "rc_max_attempts c - n" arbitrary: n s slept rule: less_induct)
  case less
  from sync_loop_turn [OF less.prems(1), of item d turns s] show ?case
  proof (elim disjE exE conjE)
    assume "sy_sleeps (snd (sync_loop c item d turns n s)) = sy_sleeps s"
    with less.prems(3) show ?thesis by (intro exI [of _ "[]"]) simp
  next
    fix delay s'
    assume n: "n < rc_max_attempts c" and eq: "sync_loop c item d turns n s = sync_loop c item d turns (n + 1) s'"
      and r: "retrying c n (turns n) d delay s s'"
    have ba: "tn_before (turns n) \<le> tn_after (turns n)"
      and next_turn: "tn_after (turns n) + backoff_delay c n (tn_jitter (turns n)) (retry_after_of (tn_outcome (turns n)))
        \<le> tn_before (turns (n + 1))"
      using assms(2) by (auto simp: clock_ok_def)
    have lt: "delay < d - tn_after (turns n)" using r by (simp add: retrying_def)
    have "d > tn_before (turns n)" using r ba by (simp add: retrying_def)
    then have delay: "delay = backoff_delay c n (tn_jitter (turns n)) (retry_after_of (tn_outcome (turns n)))"
      using r by (simp add: retrying_def)
    have "now + (slept + delay) \<le> tn_before (turns (n + 1))" "slept + delay < d - now"
      using delay next_turn ba lt less.prems(2) by linarith+
    moreover have "rc_max_attempts c - (n + 1) < rc_max_attempts c - n" "n + 1 \<le> rc_max_attempts c"
      using n by simp_all
    ultimately obtain ds where
      "sy_sleeps (snd (sync_loop c item d turns (n + 1) s')) = sy_sleeps s' @ ds"
      "slept + delay + sum_list ds < d - now" using less.hyps by blast
    with r show ?thesis unfolding eq by (intro exI [of _ "delay # ds"]) (simp add: retrying_def)
  qed
qed

section \<open>Properties\<close>

text \<open>
  A synchronous submission is settled exactly once: of the counters of sent, rejected, failed and
  dropped items exactly one moves, by one; \<^verbatim>\<open>True\<close> is returned exactly when the transport
  acknowledged the item, a refusal has exactly one final diagnostic, and the transport is called at
  most \<open>max_attempts\<close> times, always with this item, and never once the exporter is closed.
\<close>

theorem sync_submit_settles_once:
  assumes "retry_config_valid c" and "sync_submit c item now turns s = (ok, s')"
  shows "settled_once ok s s'
    \<and> (\<exists>k \<le> (if sy_closed s then 0 else rc_max_attempts c). sy_sends s' = sy_sends s @ replicate k item)"
proof (cases "sy_closed s")
  case True
  with assms(2) show ?thesis
    by (auto simp: sync_submit_def settled_once_def notify_sync_def item_diagnostic_def)
next
  case False
  moreover have "1 \<le> rc_max_attempts c" using assms(1) by (simp add: retry_config_valid_def)
  ultimately show ?thesis
    using sync_loop_settles [of 1 c item "now + rc_deadline c" turns s] assms(2)
    by (auto simp: sync_submit_def sends_at_most_def)
qed

text \<open>
  The caller's thread is held within the deadline: under a clock that does not run backwards and
  sleeps as long as asked, all the delays of a submission together stay below \<open>max_elapsed\<close>.
\<close>

theorem sync_submit_in_time:
  assumes "retry_config_valid c" and "clock_ok c now turns" and "sync_submit c item now turns s = (ok, s')"
  shows "\<exists>ds. sy_sleeps s' = sy_sleeps s @ ds \<and> sum_list ds < rc_deadline c"
proof (cases "sy_closed s")
  case True
  with assms(1,3) show ?thesis
    by (auto simp: sync_submit_def notify_sync_def retry_config_valid_def)
next
  case False
  have one: "1 \<le> rc_max_attempts c" and d: "0 < rc_deadline c"
    using assms(1) by (simp_all add: retry_config_valid_def)
  have "now + 0 \<le> tn_before (turns 1)" using assms(2) by (simp add: clock_ok_def)
  from sync_loop_in_time [OF one assms(2) this, of "now + rc_deadline c" item s] d False assms(3)
  show ?thesis by (auto simp: sync_submit_def)
qed

section \<open>Witnesses\<close>

definition sample_sync_retry :: retry_config where
  "sample_sync_retry = \<lparr>rc_max_attempts = 2, rc_base_backoff = 1, rc_jitter_ratio = 0, rc_max_backoff = 4,
     rc_deadline = 30\<rparr>"

definition sample_sync_turns :: "nat \<Rightarrow> turn" where
  "sample_sync_turns k = \<lparr>tn_before = 5 * of_nat k, tn_outcome = (if k = 1 then Failure else Sent),
     tn_after = 5 * of_nat k, tn_jitter = 1, tn_time_ns = 7, tn_stopped = False\<rparr>"

definition sample_sync_item :: export_item where
  "sample_sync_item = \<lparr>ei_bundle_id = ''b'', ei_payload = [1], ei_content_type = ''t''\<rparr>"

lemma sample_sync_valid: "retry_config_valid sample_sync_retry"
  by (simp add: retry_config_valid_def sample_sync_retry_def)

lemma sample_sync_submit:
  "sync_submit sample_sync_retry sample_sync_item 0 sample_sync_turns new_sync
   = (True, snd (sync_submit sample_sync_retry sample_sync_item 0 sample_sync_turns new_sync))"
  by (simp add: sync_submit_def new_sync_def sync_loop.simps sample_sync_turns_def sample_sync_retry_def
      backoff_delay_def retry_after_of_def notify_sync_def Let_def)

theorem sync_submit_settles_once_witness:
  "sy_sent (snd (sync_submit sample_sync_retry sample_sync_item 0 sample_sync_turns new_sync)) = 1"
  using sync_submit_settles_once [OF sample_sync_valid sample_sync_submit]
  by (simp add: settled_once_def new_sync_def)

lemma sample_clock: "clock_ok sample_sync_retry 0 sample_sync_turns"
proof -
  have "min (max x y) (4 :: rat) \<le> 5" for x y by (simp add: min_def)
  then have "backoff_delay sample_sync_retry k 1 None \<le> 5" for k
    unfolding backoff_delay_def Let_def sample_sync_retry_def by simp
  then have "5 * rat_of_nat k + backoff_delay sample_sync_retry k 1 None \<le> 5 + 5 * rat_of_nat k" for k
    by (simp add: add.commute)
  then show ?thesis
    by (auto simp: clock_ok_def sample_sync_turns_def retry_after_of_def)
qed

theorem sync_submit_in_time_witness:
  "\<exists>ds. sy_sleeps (snd (sync_submit sample_sync_retry sample_sync_item 0 sample_sync_turns new_sync)) = ds
     \<and> sum_list ds < 30"
  using sync_submit_in_time [OF sample_sync_valid sample_clock sample_sync_submit]
  by (simp add: new_sync_def sample_sync_retry_def)

end
