(* ===== verification/SpoolRecord.thy ===== *)
theory SpoolRecord
  imports Transport "HOL-Library.Countable"
begin

text \<open>
  The records of the durable spool (\<^verbatim>\<open>exporter.py\<close>, \<open>DurableExporter._encode\<close> and
  \<open>_decode\<close>): a JSON document that names its route and item and carries the payload, in clear
  or under AES-GCM with the route, bundle and content type as associated data.

  The JSON text codec, base64, SHA-256 and the cipher are parameters.
\<close>

record spool_codec =
  sc_dumps :: "json \<Rightarrow> bytes"
  sc_loads :: "bytes \<Rightarrow> json option"
  sc_b64encode :: "bytes \<Rightarrow> string"
  sc_b64decode :: "string \<Rightarrow> bytes option"
  sc_sha256 :: "bytes \<Rightarrow> string"
  sc_encrypt :: "bytes \<Rightarrow> bytes \<Rightarrow> bytes \<Rightarrow> bytes"
  sc_decrypt :: "bytes \<Rightarrow> bytes \<Rightarrow> bytes \<Rightarrow> bytes option"

text \<open>
  The documented behaviour of these libraries: a JSON object reads back with the same members, base64
  reads back, and the cipher opens what it sealed under the same nonce and associated data.
\<close>

definition codec_laws :: "spool_codec \<Rightarrow> bool" where
  "codec_laws K \<longleftrightarrow>
     (\<forall>ms. distinct (map fst ms) \<longrightarrow>
        (\<exists>ms'. sc_loads K (sc_dumps K (JObject ms)) = Some (JObject ms') \<and> map_of ms' = map_of ms))
     \<and> (\<forall>b. sc_b64decode K (sc_b64encode K b) = Some b)
     \<and> (\<forall>nonce payload aad. sc_decrypt K nonce (sc_encrypt K nonce payload aad) aad = Some payload)"

section \<open>Encoding\<close>

definition SPOOL_VERSION :: int where "SPOOL_VERSION = 1"
definition SPOOL_FORMAT_AESGCM_V1 :: string where "SPOOL_FORMAT_AESGCM_V1 = ''aesgcm-v1''"

definition spool_aad :: "spool_codec \<Rightarrow> string \<Rightarrow> string \<Rightarrow> string \<Rightarrow> bytes" where
  "spool_aad K fingerprint bundle_id content_type =
     sc_dumps K (JObject
       [(''spool_format'', JString SPOOL_FORMAT_AESGCM_V1), (''version'', JNumber SPOOL_VERSION),
        (''destination_fingerprint'', JString fingerprint), (''bundle_id'', JString bundle_id),
        (''content_type'', JString content_type)])"

text \<open>\<open>nonce\<close> is the fresh nonce when the spool has a key.\<close>

definition spool_encode :: "spool_codec \<Rightarrow> string \<Rightarrow> bytes option \<Rightarrow> export_item \<Rightarrow> bytes" where
  "spool_encode K fingerprint nonce item =
     sc_dumps K (JObject
       ([(''version'', JNumber SPOOL_VERSION), (''destination_fingerprint'', JString fingerprint),
         (''bundle_id'', JString (ei_bundle_id item)), (''content_type'', JString (ei_content_type item)),
         (''payload_sha256'', JString (sc_sha256 K (ei_payload item)))]
        @ (case nonce of
             None \<Rightarrow> [(''payload_base64'', JString (sc_b64encode K (ei_payload item)))]
           | Some n \<Rightarrow>
               [(''spool_format'', JString SPOOL_FORMAT_AESGCM_V1), (''nonce_b64'', JString (sc_b64encode K n)),
                (''ciphertext_b64'', JString (sc_b64encode K (sc_encrypt K n (ei_payload item)
                   (spool_aad K fingerprint (ei_bundle_id item) (ei_content_type item)))))])))"

section \<open>Decoding\<close>

text \<open>\<^verbatim>\<open>document.get(key)\<close> for a member that must be a string.\<close>

definition get_string :: "(string \<times> json) list \<Rightarrow> string \<Rightarrow> string option" where
  "get_string ms key = (case map_of ms key of Some (JString v) \<Rightarrow> Some v | _ \<Rightarrow> None)"

text \<open>\<open>keyed\<close> says whether a spool key is present; every \<open>None\<close> is a \<^verbatim>\<open>ValueError\<close>.\<close>

definition decrypt_record ::
  "spool_codec \<Rightarrow> string \<Rightarrow> bool \<Rightarrow> (string \<times> json) list \<Rightarrow> json \<Rightarrow> bytes option" where
  "decrypt_record K fingerprint keyed ms spool_format =
     (if spool_format \<noteq> JString SPOOL_FORMAT_AESGCM_V1 then None
      else case (get_string ms ''bundle_id'', get_string ms ''content_type'', get_string ms ''nonce_b64'',
                 get_string ms ''ciphertext_b64'') of
        (Some bundle_id, Some content_type, Some nonce_b64, Some ciphertext_b64) \<Rightarrow>
          (if \<not> keyed then None
           else case (sc_b64decode K nonce_b64, sc_b64decode K ciphertext_b64) of
             (Some nonce, Some ciphertext) \<Rightarrow>
               sc_decrypt K nonce ciphertext (spool_aad K fingerprint bundle_id content_type)
           | _ \<Rightarrow> None)
      | _ \<Rightarrow> None)"

definition plain_payload :: "spool_codec \<Rightarrow> (string \<times> json) list \<Rightarrow> bytes option" where
  "plain_payload K ms =
     (if get_string ms ''payload_sha256'' = None then None
      else Option.bind (get_string ms ''payload_base64'') (sc_b64decode K))"

definition spool_decode :: "spool_codec \<Rightarrow> string \<Rightarrow> bool \<Rightarrow> bytes \<Rightarrow> export_item option" where
  "spool_decode K fingerprint keyed data =
     (case sc_loads K data of
        Some (JObject ms) \<Rightarrow>
          (if map_of ms ''version'' \<noteq> Some (JNumber SPOOL_VERSION) then None
           else if map_of ms ''destination_fingerprint'' \<noteq> Some (JString fingerprint) then None
           else
             let spool_format = (case map_of ms ''spool_format'' of None \<Rightarrow> JNull | Some v \<Rightarrow> v);
                 payload = (if spool_format \<noteq> JNull then decrypt_record K fingerprint keyed ms spool_format
                            else plain_payload K ms)
             in case (payload, get_string ms ''bundle_id'', get_string ms ''content_type'') of
               (Some p, Some bundle_id, Some content_type) \<Rightarrow>
                 (if get_string ms ''payload_sha256'' \<noteq> Some (sc_sha256 K p) then None
                  else Some \<lparr>ei_bundle_id = bundle_id, ei_payload = p, ei_content_type = content_type\<rparr>)
             | _ \<Rightarrow> None)
      | _ \<Rightarrow> None)"

lemma decode_encode_members:
  assumes K: "codec_laws K"
  obtains ms where "sc_loads K (spool_encode K fingerprint nonce item) = Some (JObject ms)"
    "map_of ms ''version'' = Some (JNumber SPOOL_VERSION)"
    "map_of ms ''destination_fingerprint'' = Some (JString fingerprint)"
    "get_string ms ''bundle_id'' = Some (ei_bundle_id item)"
    "get_string ms ''content_type'' = Some (ei_content_type item)"
    "get_string ms ''payload_sha256'' = Some (sc_sha256 K (ei_payload item))"
    "nonce = None \<Longrightarrow> map_of ms ''spool_format'' = None
       \<and> get_string ms ''payload_base64'' = Some (sc_b64encode K (ei_payload item))"
    "\<And>n. nonce = Some n \<Longrightarrow> map_of ms ''spool_format'' = Some (JString SPOOL_FORMAT_AESGCM_V1)
       \<and> get_string ms ''nonce_b64'' = Some (sc_b64encode K n)
       \<and> get_string ms ''ciphertext_b64'' = Some (sc_b64encode K (sc_encrypt K n (ei_payload item)
            (spool_aad K fingerprint (ei_bundle_id item) (ei_content_type item))))"
proof -
  let ?ms = "[(''version'', JNumber SPOOL_VERSION), (''destination_fingerprint'', JString fingerprint),
         (''bundle_id'', JString (ei_bundle_id item)), (''content_type'', JString (ei_content_type item)),
         (''payload_sha256'', JString (sc_sha256 K (ei_payload item)))]
        @ (case nonce of
             None \<Rightarrow> [(''payload_base64'', JString (sc_b64encode K (ei_payload item)))]
           | Some n \<Rightarrow>
               [(''spool_format'', JString SPOOL_FORMAT_AESGCM_V1), (''nonce_b64'', JString (sc_b64encode K n)),
                (''ciphertext_b64'', JString (sc_b64encode K (sc_encrypt K n (ei_payload item)
                   (spool_aad K fingerprint (ei_bundle_id item) (ei_content_type item)))))])"
  have "distinct (map fst ?ms)" by (cases nonce) simp_all
  with K obtain ms where "sc_loads K (sc_dumps K (JObject ?ms)) = Some (JObject ms)" "map_of ms = map_of ?ms"
    unfolding codec_laws_def by blast
  then show thesis by (intro that [of ms]) (simp_all add: spool_encode_def get_string_def)
qed

lemma spool_decode_encode:
  assumes K: "codec_laws K" and keyed: "nonce \<noteq> None \<longrightarrow> keyed"
  shows "spool_decode K fingerprint keyed (spool_encode K fingerprint nonce item) = Some item"
proof -
  from K have b: "sc_b64decode K (sc_b64encode K x) = Some x"
    "sc_decrypt K n (sc_encrypt K n x aad) aad = Some x" for x n aad
    by (simp_all add: codec_laws_def)
  show ?thesis
    by (rule decode_encode_members [OF K, of fingerprint nonce item]; cases nonce)
       (use keyed b in \<open>simp_all add: spool_decode_def decrypt_record_def plain_payload_def Let_def\<close>)
qed

section \<open>Properties\<close>

text \<open>
  A spool record gives back exactly the item it was written for, in clear or sealed, on its own
  route; on another route it is refused, and a sealed record is refused once the key is gone. Whatever
  bytes are read, an accepted record names this route and carries its payload's own checksum.
\<close>

theorem spool_record_roundtrip:
  assumes "codec_laws K"
  shows "((nonce \<noteq> None \<longrightarrow> keyed) \<longrightarrow>
      spool_decode K route keyed (spool_encode K route nonce item) = Some item)
    \<and> (route' \<noteq> route \<longrightarrow> spool_decode K route' keyed (spool_encode K route nonce item) = None)
    \<and> (nonce \<noteq> None \<longrightarrow> spool_decode K route False (spool_encode K route nonce item) = None)
    \<and> (spool_decode K route keyed data = Some item' \<longrightarrow>
      (\<exists>ms. sc_loads K data = Some (JObject ms)
        \<and> map_of ms ''destination_fingerprint'' = Some (JString route)
        \<and> get_string ms ''payload_sha256'' = Some (sc_sha256 K (ei_payload item'))))"
proof (intro conjI)
  show "(nonce \<noteq> None \<longrightarrow> keyed) \<longrightarrow>
      spool_decode K route keyed (spool_encode K route nonce item) = Some item"
    using spool_decode_encode [OF assms] by blast
  show "route' \<noteq> route \<longrightarrow> spool_decode K route' keyed (spool_encode K route nonce item) = None"
    by (rule decode_encode_members [OF assms, of route nonce item]) (simp add: spool_decode_def)
  show "nonce \<noteq> None \<longrightarrow> spool_decode K route False (spool_encode K route nonce item) = None"
    by (rule decode_encode_members [OF assms, of route nonce item])
       (auto simp: spool_decode_def decrypt_record_def Let_def)
  show "spool_decode K route keyed data = Some item' \<longrightarrow>
      (\<exists>ms. sc_loads K data = Some (JObject ms)
        \<and> map_of ms ''destination_fingerprint'' = Some (JString route)
        \<and> get_string ms ''payload_sha256'' = Some (sc_sha256 K (ei_payload item')))"
    by (auto simp: spool_decode_def Let_def split: option.splits json.splits if_splits)
qed

text \<open>A codec for which the laws hold: JSON values numbered, in unary, and a cipher that seals nothing.\<close>

instance json :: countable by countable_datatype

definition sample_codec :: spool_codec where
  "sample_codec = \<lparr>sc_dumps = (\<lambda>j. replicate (to_nat j) 0), sc_loads = (\<lambda>b. Some (from_nat (length b))),
     sc_b64encode = map (\<lambda>b. char_of (unat b)), sc_b64decode = (\<lambda>s. Some (map (\<lambda>c. of_nat (of_char c)) s)),
     sc_sha256 = (\<lambda>_. ''h''), sc_encrypt = (\<lambda>nonce payload aad. payload),
     sc_decrypt = (\<lambda>nonce payload aad. Some payload)\<rparr>"

lemma sample_codec_laws: "codec_laws sample_codec"
proof -
  have "of_nat (of_char (char_of (unat b) :: char)) = b" for b :: byte
    by (simp add: of_char_of take_bit_nat_eq_self)
  then show ?thesis by (simp add: codec_laws_def sample_codec_def comp_def map_idI)
qed

definition sample_export_item :: export_item where
  "sample_export_item = \<lparr>ei_bundle_id = ''b'', ei_payload = [1], ei_content_type = ''t''\<rparr>"

theorem spool_record_roundtrip_witness:
  "spool_decode sample_codec ''d'' True (spool_encode sample_codec ''d'' (Some [9]) sample_export_item)
     = Some sample_export_item
   \<and> spool_decode sample_codec ''e'' True (spool_encode sample_codec ''d'' (Some [9]) sample_export_item) = None"
  using spool_record_roundtrip [OF sample_codec_laws, of "Some [9]" True "''d''" sample_export_item "''e''"]
  by simp

end
