(* ===== verification/DurableExporter.thy ===== *)
theory DurableExporter
  imports SpoolRecord "HOL-Library.List_Lexorder" "HOL-Library.Char_ord"
begin

text \<open>
  The durable exporter (\<^verbatim>\<open>exporter.py\<close>, \<open>DurableExporter\<close>): a private
  directory of spool records, \<^verbatim>\<open>submit\<close>, the worker thread as a program counter
  (\<open>durable_phase\<close>) with its next atomic step, and restarts over whatever a crash left on disk.

  The directory belongs to one process at a time, as its documentation demands; a fork's child, which
  would share it with its parent, is not modelled.
\<close>

section \<open>The directory\<close>

datatype spool_kind = Active | Retained | Temporary | Quarantined

record spool_file =
  sf_kind :: spool_kind
  sf_data :: bytes

text \<open>
  A file is named by the route's fingerprint and the rest of its name, which is unique
  (\<^verbatim>\<open>time_ns\<close> and \<^verbatim>\<open>uuid4\<close>); its suffix and directory are its kind. Only files of
  these kinds with a well-formed fingerprint are counted, so only these are in the model.
\<close>

type_synonym file_key = "string \<times> string"
type_synonym directory = "(file_key \<times> spool_file) list"

definition file_name :: "spool_kind \<Rightarrow> file_key \<Rightarrow> string" where
  "file_name kind key =
     (let prefix = fst key @ ''-'' @ snd key
      in case kind of
        Active \<Rightarrow> prefix @ ''.spool'' | Retained \<Rightarrow> prefix @ ''.rejected''
      | Temporary \<Rightarrow> ''.'' @ prefix @ ''.tmp'' | Quarantined \<Rightarrow> prefix @ ''.corrupt'')"

text \<open>\<^verbatim>\<open>os.replace\<close> and \<^verbatim>\<open>unlink\<close> on a path, which names one kind; a missing file is ignored.\<close>

definition rename_file :: "spool_kind \<Rightarrow> spool_kind \<Rightarrow> file_key \<Rightarrow> directory \<Rightarrow> directory" where
  "rename_file source target key disk =
     map (\<lambda>(k, f). (k, if k = key \<and> sf_kind f = source then f\<lparr>sf_kind := target\<rparr> else f)) disk"

definition unlink_file :: "spool_kind \<Rightarrow> file_key \<Rightarrow> directory \<Rightarrow> directory" where
  "unlink_file kind key disk = filter (\<lambda>(k, f). \<not> (k = key \<and> sf_kind f = kind)) disk"

definition disk_bytes :: "directory \<Rightarrow> nat" where
  "disk_bytes disk = sum_list (map (\<lambda>(_, f). length (sf_data f)) disk)"

definition spool_files :: "string \<Rightarrow> directory \<Rightarrow> string list" where
  "spool_files fingerprint disk =
     sort (map (snd \<circ> fst) (filter (\<lambda>(k, f). fst k = fingerprint \<and> sf_kind f = Active) disk))"

text \<open>\<open>_disk_status\<close>: active files of this route, all files, their bytes, the others, the retained ones.\<close>

definition disk_status :: "string \<Rightarrow> directory \<Rightarrow> nat \<times> nat \<times> nat \<times> nat \<times> nat" where
  "disk_status fingerprint disk =
     (let active = length (spool_files fingerprint disk)
      in (active, length disk, disk_bytes disk, length disk - active,
          length (filter (\<lambda>(_, f). sf_kind f = Retained) disk)))"

section \<open>State\<close>

record durable_config =
  dc_fingerprint :: string
  dc_codec :: spool_codec
  dc_keyed :: bool
  dc_max_items :: nat
  dc_max_bytes :: nat
  dc_retain :: bool
  dc_retry :: retry_config

definition durable_config_valid :: "durable_config \<Rightarrow> bool" where
  "durable_config_valid c \<longleftrightarrow> \<not> (dc_max_items c < 1 \<or> dc_max_bytes c < 1) \<and> retry_config_valid (dc_retry c)"

text \<open>
  Where the worker is: choosing files, between two of them, before a send, after an acknowledged one,
  after a refused one, waiting to try again, killed by an escaped exception, or returned. All but the
  first and the last two carry the rest of the batch and whether it has made progress.
\<close>

type_synonym batch = "string list \<times> bool"

datatype durable_phase =
    Scanning
  | Between batch
  | Attempting string export_item nat seconds batch
  | Acknowledged string export_item nat seconds batch
  | Refused_File string export_item batch
  | Waiting string export_item nat seconds batch
  | Killed
  | Returned

record durable_exporter =
  du_disk :: directory
  du_phase :: durable_phase
  du_closed :: bool
  du_stop_requested :: bool
  du_accepted :: nat
  du_sent :: nat
  du_dropped :: nat
  du_failed :: nat
  du_rejected :: nat
  du_retried :: nat
  du_overflow :: nat
  du_replayed :: nat
  du_in_flight :: "string list"
  du_new_records :: "string list"
  du_retry_cycles :: "(string \<times> nat) list"
  du_retry_not_before :: "(string \<times> seconds) list"
  du_high_water_bytes :: nat
  du_last_success :: "int option"
  du_last_failure :: "string option"
  du_diagnostics :: "export_diagnostic list"

definition notify_durable :: "export_diagnostic \<Rightarrow> durable_exporter \<Rightarrow> durable_exporter" where
  "notify_durable d s = s\<lparr>du_diagnostics := du_diagnostics s @ [d]\<rparr>"

definition forget_record :: "string \<Rightarrow> durable_exporter \<Rightarrow> durable_exporter" where
  "forget_record name s =
     s\<lparr>du_new_records := removeAll name (du_new_records s),
       du_retry_cycles := AList.delete name (du_retry_cycles s),
       du_retry_not_before := AList.delete name (du_retry_not_before s)\<rparr>"

definition quarantine :: "durable_config \<Rightarrow> spool_kind \<Rightarrow> string \<Rightarrow> durable_exporter \<Rightarrow> durable_exporter" where
  "quarantine c kind name s =
     (let s1 = forget_record name (s\<lparr>du_disk := rename_file kind Quarantined (dc_fingerprint c, name) (du_disk s)\<rparr>)
      in notify_durable
           \<lparr>ed_code = ''exporter.spool_corrupt'', ed_bundle_id = file_name kind (dc_fingerprint c, name),
            ed_attempt = 0, ed_retryable = False\<rparr>
           (s1\<lparr>du_last_failure := Some ''exporter.spool_corrupt''\<rparr>))"

text \<open>A fresh exporter over the directory; temporary files of its route are quarantined.\<close>

definition temporary_files :: "string \<Rightarrow> directory \<Rightarrow> string list" where
  "temporary_files fingerprint disk =
     map (snd \<circ> fst) (filter (\<lambda>(k, f). fst k = fingerprint \<and> sf_kind f = Temporary) disk)"

definition start_durable :: "durable_config \<Rightarrow> directory \<Rightarrow> durable_exporter" where
  "start_durable c disk =
     fold (quarantine c Temporary) (temporary_files (dc_fingerprint c) disk)
       \<lparr>du_disk = disk, du_phase = Scanning, du_closed = False, du_stop_requested = False,
        du_accepted = 0, du_sent = 0, du_dropped = 0, du_failed = 0, du_rejected = 0, du_retried = 0,
        du_overflow = 0, du_replayed = 0, du_in_flight = [], du_new_records = [], du_retry_cycles = [],
        du_retry_not_before = [], du_high_water_bytes = disk_bytes disk, du_last_success = None,
        du_last_failure = None, du_diagnostics = []\<rparr>"

section \<open>Submitting\<close>

text \<open>
  How the commit ends: the record is renamed into place and the directory synced; an error before the
  rename, after which the temporary file is unlinked; or an error after it, when the directory is synced.
\<close>

datatype commit = Committed | Commit_Failed | Committed_Unsynced

definition has_room :: "durable_config \<Rightarrow> bytes \<Rightarrow> directory \<Rightarrow> bool" where
  "has_room c encoded disk \<longleftrightarrow>
     \<not> (length disk \<ge> dc_max_items c \<or> disk_bytes disk + length encoded > dc_max_bytes c)"

definition drop_durable :: "string \<Rightarrow> export_item \<Rightarrow> durable_exporter \<Rightarrow> durable_exporter" where
  "drop_durable code item s =
     notify_durable (item_diagnostic code item 0 False)
       (s\<lparr>du_dropped := du_dropped s + 1, du_last_failure := Some code\<rparr>)"

definition commit_record :: "durable_config \<Rightarrow> string \<Rightarrow> bytes \<Rightarrow> directory \<Rightarrow> directory" where
  "commit_record c name encoded disk =
     ((dc_fingerprint c, name), \<lparr>sf_kind = Active, sf_data = encoded\<rparr>) # disk"

definition durable_submit ::
  "durable_config \<Rightarrow> bytes option \<Rightarrow> string \<Rightarrow> commit \<Rightarrow> export_item \<Rightarrow> durable_exporter
     \<Rightarrow> bool \<times> durable_exporter" where
  "durable_submit c nonce name outcome item s =
     (let encoded = spool_encode (dc_codec c) (dc_fingerprint c) nonce item;
          used = disk_bytes (du_disk s)
      in if du_closed s then (False, drop_durable ''exporter.closed'' item s)
         else if \<not> has_room c encoded (du_disk s)
           then (False, drop_durable ''exporter.spool_full'' item (s\<lparr>du_overflow := du_overflow s + 1\<rparr>))
         else case outcome of
           Committed \<Rightarrow>
             (True, s\<lparr>du_disk := commit_record c name encoded (du_disk s),
                      du_accepted := du_accepted s + 1, du_new_records := name # du_new_records s,
                      du_high_water_bytes := max (du_high_water_bytes s) (used + length encoded)\<rparr>)
         | Commit_Failed \<Rightarrow>
             (False, drop_durable ''exporter.spool_write_failed'' item (s\<lparr>du_failed := du_failed s + 1\<rparr>))
         | Committed_Unsynced \<Rightarrow>
             (False, drop_durable ''exporter.spool_write_failed'' item
                (s\<lparr>du_disk := commit_record c name encoded (du_disk s), du_failed := du_failed s + 1\<rparr>)))"

definition close_durable :: "durable_exporter \<Rightarrow> durable_exporter" where
  "close_durable s = s\<lparr>du_closed := True, du_stop_requested := True\<rparr>"

text \<open>What \<^verbatim>\<open>flush\<close> waits for.\<close>

definition durable_flushed :: "durable_config \<Rightarrow> durable_exporter \<Rightarrow> bool" where
  "durable_flushed c s \<longleftrightarrow> spool_files (dc_fingerprint c) (du_disk s) = [] \<and> du_in_flight s = []"

section \<open>The worker\<close>

text \<open>
  The environment of a worker step: that of a retry turn, what removing, renaming or quarantining
  a file comes to (done, done but its mode or the directory could not be settled, or not done), and
  whether the operating system lets a record be inspected and read.
\<close>

datatype removal = Removed | Removed_Unsynced | Not_Removed

record disk_turn = turn +
  dt_removal :: removal
  dt_read :: bool

definition delete_file :: "durable_config \<Rightarrow> string \<Rightarrow> durable_exporter \<Rightarrow> durable_exporter" where
  "delete_file c name s = s\<lparr>du_disk := unlink_file Active (dc_fingerprint c, name) (du_disk s)\<rparr>"

definition schedule_retry_cycle ::
  "durable_config \<Rightarrow> seconds \<Rightarrow> string \<Rightarrow> durable_exporter \<Rightarrow> durable_exporter" where
  "schedule_retry_cycle c now name s =
     (let cycle = (case map_of (du_retry_cycles s) name of None \<Rightarrow> 0 | Some n \<Rightarrow> n) + 1;
          delay = min (rc_max_backoff (dc_retry c))
            (max (1/20) (rc_base_backoff (dc_retry c)) * 2 ^ min (cycle - 1) 20)
      in s\<lparr>du_retry_cycles := AList.update name cycle (du_retry_cycles s),
           du_retry_not_before := AList.update name (now + delay) (du_retry_not_before s)\<rparr>)"

text \<open>\<open>_send_file\<close> returned \<open>ok\<close> to the loop over the batch.\<close>

definition file_done ::
  "durable_config \<Rightarrow> seconds \<Rightarrow> bool \<Rightarrow> string \<Rightarrow> batch \<Rightarrow> durable_exporter \<Rightarrow> durable_exporter" where
  "file_done c now ok name b s =
     (let s1 = (if ok then s else schedule_retry_cycle c now name s)
      in s1\<lparr>du_in_flight := removeAll name (du_in_flight s1),
            du_phase := Between (fst b, snd b \<or> ok)\<rparr>)"

text \<open>An exception escaped \<open>_send_file\<close>: the \<^verbatim>\<open>finally\<close> runs and the thread dies.\<close>

definition kill_worker :: "string \<Rightarrow> durable_exporter \<Rightarrow> durable_exporter" where
  "kill_worker name s = s\<lparr>du_in_flight := removeAll name (du_in_flight s), du_phase := Killed\<rparr>"

definition failed_turn ::
  "durable_config \<Rightarrow> disk_turn \<Rightarrow> send_outcome \<Rightarrow> string \<Rightarrow> export_item \<Rightarrow> nat \<Rightarrow> seconds \<Rightarrow> batch
     \<Rightarrow> durable_exporter \<Rightarrow> durable_exporter" where
  "failed_turn c t outcome name item attempt deadline b s =
     (let r = dc_retry c;
          remaining = deadline - tn_after t;
          report = notify_durable (item_diagnostic ''exporter.failed'' item attempt True);
          retried = (\<lambda>f. report (s\<lparr>du_retried := du_retried s + 1, du_last_failure := Some f\<rparr>))
      in if \<not> (attempt < rc_max_attempts r \<and> remaining > 0)
         then file_done c (tn_after t) False name b (retried ''transport.retryable_pending'')
         else let delay = backoff_delay r attempt (tn_jitter t) (retry_after_of outcome)
           in if delay \<ge> remaining
              then file_done c (tn_after t) False name b (retried ''exporter.attempt_deadline_exceeded'')
              else (retried (failure_of outcome))\<lparr>du_phase := Waiting name item attempt deadline b\<rparr>)"

text \<open>
  Any exception while a record is inspected, read or decoded quarantines it, a failing read included.
  An exception of the quarantine itself escapes, after the file was moved if the move was done.
\<close>

definition move_to_quarantine :: "durable_config \<Rightarrow> string \<Rightarrow> durable_exporter \<Rightarrow> durable_exporter" where
  "move_to_quarantine c name s = s\<lparr>du_disk := rename_file Active Quarantined (dc_fingerprint c, name) (du_disk s)\<rparr>"

definition start_file :: "durable_config \<Rightarrow> disk_turn \<Rightarrow> string \<Rightarrow> batch \<Rightarrow> durable_exporter \<Rightarrow> durable_exporter" where
  "start_file c t name b s =
     (let s1 = s\<lparr>du_in_flight := name # removeAll name (du_in_flight s)\<rparr>;
          item = (case map_of (du_disk s) (dc_fingerprint c, name) of
              Some f \<Rightarrow> (if sf_kind f = Active \<and> dt_read t
                         then spool_decode (dc_codec c) (dc_fingerprint c) (dc_keyed c) (sf_data f) else None)
            | None \<Rightarrow> None)
      in case item of
        Some item \<Rightarrow> s1\<lparr>du_phase := Attempting name item 1 (tn_before t + rc_deadline (dc_retry c)) b\<rparr>
      | None \<Rightarrow>
          (case dt_removal t of
             Removed \<Rightarrow> file_done c (tn_after t) True name b (quarantine c Active name s1)
           | Removed_Unsynced \<Rightarrow> kill_worker name (move_to_quarantine c name s1)
           | Not_Removed \<Rightarrow> kill_worker name s1))"

definition attempt_send ::
  "durable_config \<Rightarrow> disk_turn \<Rightarrow> string \<Rightarrow> export_item \<Rightarrow> nat \<Rightarrow> seconds \<Rightarrow> batch
     \<Rightarrow> durable_exporter \<Rightarrow> durable_exporter" where
  "attempt_send c t name item attempt deadline b s =
     (if deadline - tn_before t \<le> 0 then failed_turn c t Failure name item attempt deadline b s
      else case tn_outcome t of
        Sent \<Rightarrow> s\<lparr>du_phase := Acknowledged name item attempt deadline b\<rparr>
      | Permanent \<Rightarrow>
          notify_durable (item_diagnostic ''exporter.rejected'' item attempt False)
            (s\<lparr>du_rejected := du_rejected s + 1, du_last_failure := Some ''transport.permanent_rejection'',
               du_phase := Refused_File name item b\<rparr>)
      | outcome \<Rightarrow> failed_turn c t outcome name item attempt deadline b s)"

text \<open>
  After the acknowledgement, an error while the file is removed is treated as a failed send; after a
  refusal, it escapes.
\<close>

definition remove_sent ::
  "durable_config \<Rightarrow> disk_turn \<Rightarrow> string \<Rightarrow> export_item \<Rightarrow> nat \<Rightarrow> seconds \<Rightarrow> batch
     \<Rightarrow> durable_exporter \<Rightarrow> durable_exporter" where
  "remove_sent c t name item attempt deadline b s =
     (case dt_removal t of
        Removed \<Rightarrow>
          (let s1 = delete_file c name s;
               s2 = s1\<lparr>du_sent := du_sent s1 + 1,
                       du_replayed := du_replayed s1 + (if name \<in> set (du_new_records s1) then 0 else 1),
                       du_last_success := Some (tn_time_ns t)\<rparr>
           in file_done c (tn_after t) True name b (forget_record name s2))
      | Removed_Unsynced \<Rightarrow> failed_turn c t Failure name item attempt deadline b (delete_file c name s)
      | Not_Removed \<Rightarrow> failed_turn c t Failure name item attempt deadline b s)"

definition remove_refused ::
  "durable_config \<Rightarrow> disk_turn \<Rightarrow> string \<Rightarrow> batch \<Rightarrow> durable_exporter \<Rightarrow> durable_exporter" where
  "remove_refused c t name b s =
     (let moved = (if dc_retain c
             then s\<lparr>du_disk := rename_file Active Retained (dc_fingerprint c, name) (du_disk s)\<rparr>
             else delete_file c name s)
      in case dt_removal t of
        Removed \<Rightarrow> file_done c (tn_after t) True name b (forget_record name moved)
      | Removed_Unsynced \<Rightarrow> kill_worker name moved
      | Not_Removed \<Rightarrow> kill_worker name s)"

definition ready_files :: "durable_config \<Rightarrow> seconds \<Rightarrow> durable_exporter \<Rightarrow> string list" where
  "ready_files c now s =
     filter (\<lambda>name. (case map_of (du_retry_not_before s) name of None \<Rightarrow> 0 | Some t \<Rightarrow> t) \<le> now)
       (spool_files (dc_fingerprint c) (du_disk s))"

definition durable_worker :: "durable_config \<Rightarrow> disk_turn \<Rightarrow> durable_exporter \<Rightarrow> durable_exporter" where
  "durable_worker c t s =
     (case du_phase s of
        Scanning \<Rightarrow>
          (if du_stop_requested s then s\<lparr>du_phase := Returned\<rparr>
           else if ready_files c (tn_before t) s = [] then s
           else s\<lparr>du_phase := Between (ready_files c (tn_before t) s, False)\<rparr>)
      | Between ([], progress) \<Rightarrow> s\<lparr>du_phase := Scanning\<rparr>
      | Between (name # rest, progress) \<Rightarrow>
          (if du_stop_requested s then s\<lparr>du_phase := Returned\<rparr> else start_file c t name (rest, progress) s)
      | Attempting name item attempt deadline b \<Rightarrow> attempt_send c t name item attempt deadline b s
      | Acknowledged name item attempt deadline b \<Rightarrow> remove_sent c t name item attempt deadline b s
      | Refused_File name item b \<Rightarrow> remove_refused c t name b s
      | Waiting name item attempt deadline b \<Rightarrow>
          (if du_stop_requested s then file_done c (tn_after t) False name b s
           else s\<lparr>du_phase := Attempting name item (attempt + 1) deadline b\<rparr>)
      | Killed \<Rightarrow> s
      | Returned \<Rightarrow> s)"

section \<open>Runs\<close>

text \<open>
  The ghost lists: the records a \<^verbatim>\<open>True\<close> was returned for, and the items the server
  acknowledged and refused; \<open>rd\<close> says that no read of a record fails. A crash loses everything but the directory, and may leave a partial temporary
  file, or a committed record whose submission never returned.
\<close>

type_synonym durable_run =
  "durable_exporter \<times> (string \<times> export_item) list \<times> export_item list \<times> export_item list"

definition answered :: "send_outcome \<Rightarrow> disk_turn \<Rightarrow> durable_phase \<Rightarrow> export_item list" where
  "answered r t ph = (case ph of
       Attempting name item attempt deadline b \<Rightarrow>
         (if \<not> deadline - tn_before t \<le> 0 \<and> tn_outcome t = r then [item] else [])
     | _ \<Rightarrow> [])"

text \<open>The name in use by the worker.\<close>

fun phase_name :: "durable_phase \<Rightarrow> string option" where
  "phase_name (Attempting name _ _ _ _) = Some name"
| "phase_name (Acknowledged name _ _ _ _) = Some name"
| "phase_name (Refused_File name _ _) = Some name"
| "phase_name (Waiting name _ _ _ _) = Some name"
| "phase_name _ = None"

definition unused_name :: "durable_config \<Rightarrow> string \<Rightarrow> durable_exporter \<Rightarrow> (string \<times> export_item) list \<Rightarrow> bool" where
  "unused_name c name s acc \<longleftrightarrow> map_of (du_disk s) (dc_fingerprint c, name) = None \<and> name \<notin> fst ` set acc
     \<and> phase_name (du_phase s) \<noteq> Some name"

inductive durable_step :: "durable_config \<Rightarrow> bool \<Rightarrow> durable_run \<Rightarrow> durable_run \<Rightarrow> bool" for c rd where
  Submit: "unused_name c name s acc \<Longrightarrow> (nonce \<noteq> None) = dc_keyed c \<Longrightarrow>
    durable_submit c nonce name outcome item s = (ok, s') \<Longrightarrow>
    durable_step c rd (s, acc, sent, refused) (s', if ok then acc @ [(name, item)] else acc, sent, refused)"
| Worker: "(rd \<Longrightarrow> dt_read t) \<Longrightarrow> durable_step c rd (s, acc, sent, refused)
    (durable_worker c t s, acc, sent @ answered Sent t (du_phase s), refused @ answered Permanent t (du_phase s))"
| Close: "durable_step c rd (s, acc, sent, refused) (close_durable s, acc, sent, refused)"
| Crash: "durable_step c rd (s, acc, sent, refused) (start_durable c (du_disk s), acc, sent, refused)"
| Crash_Writing: "unused_name c name s acc \<Longrightarrow> has_room c encoded (du_disk s) \<Longrightarrow> prefix written encoded \<Longrightarrow>
    durable_step c rd (s, acc, sent, refused)
      (start_durable c (((dc_fingerprint c, name), \<lparr>sf_kind = Temporary, sf_data = written\<rparr>) # du_disk s),
       acc, sent, refused)"
| Crash_Committed: "unused_name c name s acc \<Longrightarrow> has_room c encoded (du_disk s) \<Longrightarrow> encoded = spool_encode (dc_codec c) (dc_fingerprint c) nonce item \<Longrightarrow>
    durable_step c rd (s, acc, sent, refused)
      (start_durable c (commit_record c name encoded (du_disk s)), acc, sent, refused)"

section \<open>What the operations do to the directory\<close>

lemma map_of_rename_file [simp]:
  "map_of (rename_file source target key disk) k =
     map_option (\<lambda>f. if k = key \<and> sf_kind f = source then f\<lparr>sf_kind := target\<rparr> else f) (map_of disk k)"
  by (induction disk) (auto simp: rename_file_def)

lemma map_fst_rename_file [simp]: "map fst (rename_file source target key disk) = map fst disk"
  by (induction disk) (auto simp: rename_file_def)

lemma disk_bytes_rename_file [simp]: "disk_bytes (rename_file source target key disk) = disk_bytes disk"
  by (induction disk) (auto simp: rename_file_def disk_bytes_def)

lemma length_rename_file [simp]: "length (rename_file source target key disk) = length disk"
  by (simp add: rename_file_def)

lemma map_of_unlink_file:
  "distinct (map fst disk) \<Longrightarrow> map_of (unlink_file kind key disk) k =
     (case map_of disk k of Some f \<Rightarrow> if k = key \<and> sf_kind f = kind then None else Some f | None \<Rightarrow> None)"
proof (induction disk)
  case (Cons x disk)
  then have "map_of disk (fst x) = None" by (simp add: map_of_eq_None_iff)
  with Cons show ?case by (cases x) (auto simp: unlink_file_def split: option.splits)
qed (simp add: unlink_file_def)

lemma unlink_file_bounds:
  "length (unlink_file kind key disk) \<le> length disk" "disk_bytes (unlink_file kind key disk) \<le> disk_bytes disk"
proof -
  show "length (unlink_file kind key disk) \<le> length disk" by (simp add: unlink_file_def)
  show "disk_bytes (unlink_file kind key disk) \<le> disk_bytes disk"
    by (induction disk) (auto simp: unlink_file_def disk_bytes_def)
qed

lemma distinct_unlink_file: "distinct (map fst disk) \<Longrightarrow> distinct (map fst (unlink_file kind key disk))"
  by (simp add: unlink_file_def distinct_map_filter)

text \<open>The fields the helpers leave alone.\<close>

lemma disk_frames [simp]:
  "du_disk (notify_durable d s) = du_disk s" "du_phase (notify_durable d s) = du_phase s"
  "du_disk (forget_record n s) = du_disk s" "du_phase (forget_record n s) = du_phase s"
  "du_disk (schedule_retry_cycle c now n s) = du_disk s"
  "du_phase (schedule_retry_cycle c now n s) = du_phase s"
  "du_disk (file_done c now ok n b s) = du_disk s"
  "du_phase (file_done c now ok n b s) = Between (fst b, snd b \<or> ok)"
  "du_disk (kill_worker n s) = du_disk s" "du_phase (kill_worker n s) = Killed"
  "du_disk (quarantine c kind n s) = rename_file kind Quarantined (dc_fingerprint c, n) (du_disk s)"
  "du_phase (quarantine c kind n s) = du_phase s"
  "du_disk (delete_file c n s) = unlink_file Active (dc_fingerprint c, n) (du_disk s)"
  "du_disk (drop_durable code item s) = du_disk s" "du_phase (drop_durable code item s) = du_phase s"
  by (simp_all add: notify_durable_def forget_record_def schedule_retry_cycle_def file_done_def kill_worker_def
      quarantine_def delete_file_def drop_durable_def Let_def)

lemma failed_turn_frame [simp]: "du_disk (failed_turn c t r n i a d b s) = du_disk s"
  by (simp add: failed_turn_def Let_def)

lemma failed_turn_phase:
  "du_phase (failed_turn c t r n i a d b s) = Between (fst b, snd b)
   \<or> du_phase (failed_turn c t r n i a d b s) = Waiting n i a d b"
  by (simp add: failed_turn_def Let_def)

section \<open>The invariant\<close>

definition file_holds :: "durable_config \<Rightarrow> spool_kind \<Rightarrow> directory \<Rightarrow> string \<Rightarrow> export_item \<Rightarrow> bool" where
  "file_holds c kind disk name item \<longleftrightarrow> (case map_of disk (dc_fingerprint c, name) of
       None \<Rightarrow> False
     | Some f \<Rightarrow> sf_kind f = kind
         \<and> spool_decode (dc_codec c) (dc_fingerprint c) (dc_keyed c) (sf_data f) = Some item)"

lemma file_holds_rename [simp]:
  "source \<noteq> target \<Longrightarrow> file_holds c kind (rename_file source target key disk) n i \<longleftrightarrow>
     (if key = (dc_fingerprint c, n) then
        (if kind = target then file_holds c source disk n i \<or> file_holds c target disk n i
         else kind \<noteq> source \<and> file_holds c kind disk n i)
      else file_holds c kind disk n i)"
  by (cases "map_of disk (dc_fingerprint c, n)") (auto simp: file_holds_def)

lemma file_holds_unlink:
  "distinct (map fst disk) \<Longrightarrow> file_holds c kind (unlink_file source key disk) n i \<longleftrightarrow>
     \<not> (key = (dc_fingerprint c, n) \<and> kind = source) \<and> file_holds c kind disk n i"
  by (cases "map_of disk (dc_fingerprint c, n)") (auto simp: file_holds_def map_of_unlink_file)

lemma file_holds_Cons [simp]:
  "key \<noteq> (dc_fingerprint c, n) \<Longrightarrow> file_holds c kind ((key, f) # disk) n i = file_holds c kind disk n i"
  by (simp add: file_holds_def)

lemma file_holds_inject: "file_holds c kind disk n i \<Longrightarrow> file_holds c kind disk n j \<Longrightarrow> i = j"
  by (auto simp: file_holds_def split: option.splits)

text \<open>An accepted record is on disk, or was acknowledged, or was refused (and retained, if so configured), or a read
  of it failed and it lies intact in the quarantine.\<close>

definition accounted ::
  "durable_config \<Rightarrow> bool \<Rightarrow> directory \<Rightarrow> export_item list \<Rightarrow> export_item list \<Rightarrow> string \<Rightarrow> export_item \<Rightarrow> bool" where
  "accounted c rd disk sent refused name item \<longleftrightarrow>
     file_holds c Active disk name item \<or> item \<in> set sent
     \<or> item \<in> set refused \<and> (dc_retain c \<longrightarrow> file_holds c Retained disk name item)
     \<or> \<not> rd \<and> file_holds c Quarantined disk name item"

definition file_matches :: "durable_config \<Rightarrow> directory \<Rightarrow> string \<Rightarrow> export_item \<Rightarrow> bool" where
  "file_matches c disk name item \<longleftrightarrow> (\<forall>j. file_holds c Active disk name j \<longrightarrow> j = item)"

fun phase_inv :: "durable_config \<Rightarrow> directory \<Rightarrow> export_item list \<Rightarrow> export_item list \<Rightarrow> durable_phase \<Rightarrow> bool" where
  "phase_inv c disk sent refused (Attempting n i _ _ _) \<longleftrightarrow> file_matches c disk n i"
| "phase_inv c disk sent refused (Waiting n i _ _ _) \<longleftrightarrow> file_matches c disk n i"
| "phase_inv c disk sent refused (Acknowledged n i _ _ _) \<longleftrightarrow> file_matches c disk n i \<and> i \<in> set sent"
| "phase_inv c disk sent refused (Refused_File n i _) \<longleftrightarrow> file_matches c disk n i \<and> i \<in> set refused"
| "phase_inv c disk sent refused _ \<longleftrightarrow> True"

definition all_accounted ::
  "durable_config \<Rightarrow> bool \<Rightarrow> directory \<Rightarrow> export_item list \<Rightarrow> export_item list \<Rightarrow> (string \<times> export_item) list \<Rightarrow> bool" where
  "all_accounted c rd disk sent refused acc \<longleftrightarrow> list_all (\<lambda>(name, item). accounted c rd disk sent refused name item) acc"

lemma all_accounted_mono:
  "all_accounted c rd disk sent refused acc \<Longrightarrow>
   (\<And>n i. (n, i) \<in> set acc \<Longrightarrow> accounted c rd disk sent refused n i \<Longrightarrow> accounted c rd disk' sent' refused' n i) \<Longrightarrow>
   all_accounted c rd disk' sent' refused' acc"
  unfolding all_accounted_def list_all_iff by blast

definition disk_inv :: "durable_config \<Rightarrow> directory \<Rightarrow> bool" where
  "disk_inv c disk \<longleftrightarrow> distinct (map fst disk) \<and> length disk \<le> dc_max_items c \<and> disk_bytes disk \<le> dc_max_bytes c"

definition durable_inv :: "durable_config \<Rightarrow> bool \<Rightarrow> durable_run \<Rightarrow> bool" where
  "durable_inv c rd r \<longleftrightarrow> (case r of (s, acc, sent, refused) \<Rightarrow>
     disk_inv c (du_disk s)
     \<and> all_accounted c rd (du_disk s) sent refused acc
     \<and> phase_inv c (du_disk s) sent refused (du_phase s))"

lemma disk_inv_rename [simp]: "disk_inv c (rename_file a b key disk) = disk_inv c disk"
  by (simp add: disk_inv_def)

lemma disk_inv_unlink: "disk_inv c disk \<Longrightarrow> disk_inv c (unlink_file kind key disk)"
  using unlink_file_bounds [of kind key disk] by (auto simp: disk_inv_def distinct_unlink_file)

lemma disk_inv_add:
  assumes "disk_inv c disk" "has_room c encoded disk" "map_of disk key = None" "length (sf_data f) \<le> length encoded"
  shows "disk_inv c ((key, f) # disk)"
  using assms by (auto simp: disk_inv_def has_room_def disk_bytes_def map_of_eq_None_iff)

lemma accounted_mono:
  "accounted c rd disk sent refused n i \<Longrightarrow> accounted c rd disk (sent @ x) (refused @ y) n i"
  by (auto simp: accounted_def)

lemma accounted_rename_temporary:
  "accounted c rd disk sent refused n i \<Longrightarrow> accounted c rd (rename_file Temporary Quarantined key disk) sent refused n i"
  by (auto simp: accounted_def)

lemma accounted_add:
  "accounted c rd disk sent refused n i \<Longrightarrow> key \<noteq> (dc_fingerprint c, n) \<Longrightarrow>
   accounted c rd ((key, f) # disk) sent refused n i"
  by (simp add: accounted_def)

lemma accounted_quarantine:
  "accounted c rd disk sent refused n i \<Longrightarrow> rd \<longrightarrow> (\<forall>j. \<not> file_holds c Active disk n' j) \<Longrightarrow>
   accounted c rd (rename_file Active Quarantined (dc_fingerprint c, n') disk) sent refused n i"
  by (auto simp: accounted_def)

lemma accounted_retain:
  "accounted c rd disk sent refused n i \<Longrightarrow> file_matches c disk n' i' \<Longrightarrow> i' \<in> set refused \<Longrightarrow>
   accounted c rd (rename_file Active Retained (dc_fingerprint c, n') disk) sent refused n i"
  by (auto simp: accounted_def file_matches_def)

lemma accounted_unlink:
  assumes "distinct (map fst disk)" "accounted c rd disk sent refused n i" "file_matches c disk n' i'"
    and "i' \<in> set sent \<or> i' \<in> set refused \<and> \<not> dc_retain c"
  shows "accounted c rd (unlink_file Active (dc_fingerprint c, n') disk) sent refused n i"
  using assms by (auto simp: accounted_def file_matches_def file_holds_unlink)

lemma file_matches_unlink:
  "distinct (map fst disk) \<Longrightarrow> file_matches c disk n i \<Longrightarrow> file_matches c (unlink_file Active key disk) n i"
  by (simp add: file_matches_def file_holds_unlink)

lemma file_matches_add:
  "key \<noteq> (dc_fingerprint c, n) \<Longrightarrow> file_matches c ((key, f) # disk) n i = file_matches c disk n i"
  by (simp add: file_matches_def)

lemma phase_inv_mono:
  "phase_inv c disk sent refused ph \<Longrightarrow> phase_inv c disk (sent @ x) (refused @ y) ph"
  by (cases ph) auto

lemma phase_inv_add:
  "phase_inv c disk sent refused ph \<Longrightarrow> phase_name ph \<noteq> Some name \<Longrightarrow>
   phase_inv c (((dc_fingerprint c, name), f) # disk) sent refused ph"
  by (cases ph) (auto simp: file_matches_add)

lemma start_durable_inv:
  assumes "disk_inv c disk" "all_accounted c rd disk sent refused acc"
  shows "durable_inv c rd (start_durable c disk, acc, sent, refused)"
proof -
  have "disk_inv c (du_disk (fold (quarantine c Temporary) names s))
      \<and> all_accounted c rd (du_disk (fold (quarantine c Temporary) names s)) sent refused acc
      \<and> du_phase (fold (quarantine c Temporary) names s) = Scanning"
    if "disk_inv c (du_disk s)" "all_accounted c rd (du_disk s) sent refused acc" "du_phase s = Scanning" for names s
    using that
  proof (induction names arbitrary: s)
    case (Cons n names)
    have "all_accounted c rd (du_disk (quarantine c Temporary n s)) sent refused acc"
      using all_accounted_mono [OF Cons.prems(2)] by (simp add: accounted_rename_temporary)
    with Cons show ?case by simp
  qed simp
  then show ?thesis using assms by (simp add: durable_inv_def start_durable_def)
qed

lemma submit_durable_inv:
  assumes inv: "durable_inv c rd (s, acc, sent, refused)" and laws: "codec_laws (dc_codec c)"
    and fresh: "unused_name c name s acc" "(nonce \<noteq> None) = dc_keyed c"
    and sub: "durable_submit c nonce name outcome item s = (ok, s')"
  shows "durable_inv c rd (s', if ok then acc @ [(name, item)] else acc, sent, refused)"
proof -
  let ?enc = "spool_encode (dc_codec c) (dc_fingerprint c) nonce item"
  let ?disk = "commit_record c name ?enc (du_disk s)"
  have dec: "spool_decode (dc_codec c) (dc_fingerprint c) (dc_keyed c) ?enc = Some item"
    using spool_decode_encode [OF laws, of nonce "dc_keyed c"] fresh(2) by simp
  have phase: "phase_inv c ?disk sent refused (du_phase s)"
    using inv fresh(1) by (simp add: durable_inv_def commit_record_def unused_name_def phase_inv_add)
  have others: "all_accounted c rd ?disk sent refused acc"
  proof (rule all_accounted_mono)
    show "all_accounted c rd (du_disk s) sent refused acc" using inv by (simp add: durable_inv_def)
    show "accounted c rd ?disk sent refused n i" if "(n, i) \<in> set acc" "accounted c rd (du_disk s) sent refused n i" for n i
      unfolding commit_record_def using that fresh(1)
      by (intro accounted_add) (auto simp: unused_name_def rev_image_eqI)
  qed
  have mine: "accounted c rd ?disk sent refused name item"
    using dec by (simp add: accounted_def file_holds_def commit_record_def)
  have room: "disk_inv c ?disk" if "has_room c ?enc (du_disk s)"
    using inv fresh(1) that unfolding commit_record_def
    by (intro disk_inv_add) (auto simp: durable_inv_def unused_name_def)
  consider (refused) "du_disk s' = du_disk s" "du_phase s' = du_phase s" "\<not> ok"
    | (stored) "du_disk s' = ?disk" "du_phase s' = du_phase s" "has_room c ?enc (du_disk s)"
    using sub by (auto simp: durable_submit_def Let_def split: if_splits commit.splits)
  then show ?thesis
  proof cases
    case refused
    with inv show ?thesis by (simp add: durable_inv_def)
  next
    case stored
    with others mine room phase show ?thesis by (simp add: durable_inv_def all_accounted_def)
  qed
qed

section \<open>The worker keeps the invariant\<close>

lemma durable_inv_disk:
  assumes "durable_inv c rd (s, acc, sent, refused)" "du_disk s' = du_disk s"
    and "phase_inv c (du_disk s) (sent @ x) (refused @ y) (du_phase s')"
  shows "durable_inv c rd (s', acc, sent @ x, refused @ y)"
proof -
  have "all_accounted c rd (du_disk s) (sent @ x) (refused @ y) acc"
    using assms(1) all_accounted_mono [of c rd "du_disk s" sent refused acc] accounted_mono
    by (simp add: durable_inv_def)
  with assms show ?thesis by (simp add: durable_inv_def)
qed

lemma failed_turn_inv:
  assumes "durable_inv c rd (s, acc, sent, refused)" "file_matches c (du_disk s) n i"
  shows "durable_inv c rd (failed_turn c t r n i a d b s, acc, sent, refused)"
  using assms failed_turn_phase [of c t r n i a d b s]
  by (auto simp: durable_inv_def)

lemma attempt_send_inv:
  assumes inv: "durable_inv c rd (s, acc, sent, refused)" and ph: "du_phase s = Attempting n i a d b"
  shows "durable_inv c rd (attempt_send c t n i a d b s, acc,
    sent @ answered Sent t (du_phase s), refused @ answered Permanent t (du_phase s))"
proof -
  have m: "file_matches c (du_disk s) n i" using inv ph by (simp add: durable_inv_def)
  note failed = failed_turn_inv [OF inv m, of t]
  show ?thesis
  proof (cases "d - tn_before t \<le> 0")
    case True
    with failed ph show ?thesis by (simp add: attempt_send_def answered_def)
  next
    case False
    show ?thesis
    proof (cases "tn_outcome t")
      case Sent
      have "durable_inv c rd (attempt_send c t n i a d b s, acc, sent @ [i], refused @ [])"
        using inv by (rule durable_inv_disk) (use False Sent m in \<open>simp_all add: attempt_send_def\<close>)
      with False Sent ph show ?thesis by (simp add: answered_def)
    next
      case Permanent
      have "durable_inv c rd (attempt_send c t n i a d b s, acc, sent @ [], refused @ [i])"
        using inv by (rule durable_inv_disk) (use False Permanent m in \<open>simp_all add: attempt_send_def\<close>)
      with False Permanent ph show ?thesis by (simp add: answered_def)
    qed (use False failed ph in \<open>simp_all add: attempt_send_def answered_def\<close>)
  qed
qed

lemma start_file_inv:
  assumes inv: "durable_inv c rd (s, acc, sent, refused)" and read: "rd \<Longrightarrow> dt_read t"
  shows "durable_inv c rd (start_file c t n b s, acc, sent, refused)"
proof (cases "dt_read t \<and> (\<exists>i. file_holds c Active (du_disk s) n i)")
  case True
  then obtain i f where "map_of (du_disk s) (dc_fingerprint c, n) = Some f" "sf_kind f = Active"
    "spool_decode (dc_codec c) (dc_fingerprint c) (dc_keyed c) (sf_data f) = Some i"
    "file_holds c Active (du_disk s) n i" "dt_read t"
    by (auto simp: file_holds_def split: option.splits)
  then have "file_matches c (du_disk s) n i"
    "start_file c t n b s = s\<lparr>du_in_flight := n # removeAll n (du_in_flight s),
       du_phase := Attempting n i 1 (tn_before t + rc_deadline (dc_retry c)) b\<rparr>"
    using file_holds_inject by (auto simp: file_matches_def start_file_def Let_def)
  with inv show ?thesis by (simp add: durable_inv_def)
next
  case False
  let ?disk = "rename_file Active Quarantined (dc_fingerprint c, n) (du_disk s)"
  let ?s = "s\<lparr>du_in_flight := n # removeAll n (du_in_flight s)\<rparr>"
  have "start_file c t n b s = (case dt_removal t of
      Removed \<Rightarrow> file_done c (tn_after t) True n b (quarantine c Active n ?s)
    | Removed_Unsynced \<Rightarrow> kill_worker n (move_to_quarantine c n ?s)
    | Not_Removed \<Rightarrow> kill_worker n ?s)"
    using False by (auto simp: start_file_def file_holds_def Let_def split: option.splits if_splits)
  moreover have "all_accounted c rd ?disk sent refused acc"
    using inv all_accounted_mono [of c rd "du_disk s" sent refused acc] accounted_quarantine False read
    by (simp add: durable_inv_def)
  ultimately show ?thesis using inv
    by (cases "dt_removal t") (simp_all add: durable_inv_def move_to_quarantine_def)
qed

lemma remove_sent_inv:
  assumes inv: "durable_inv c rd (s, acc, sent, refused)" and ph: "du_phase s = Acknowledged n i a d b"
  shows "durable_inv c rd (remove_sent c t n i a d b s, acc, sent, refused)"
proof -
  let ?disk = "unlink_file Active (dc_fingerprint c, n) (du_disk s)"
  have m: "file_matches c (du_disk s) n i" "i \<in> set sent" "distinct (map fst (du_disk s))"
    using inv ph by (simp_all add: durable_inv_def disk_inv_def)
  have acc: "all_accounted c rd ?disk sent refused acc"
    using inv all_accounted_mono [of c rd "du_disk s" sent refused acc] accounted_unlink [OF m(3) _ m(1)] m(2)
    by (simp add: durable_inv_def)
  have disk: "disk_inv c ?disk" using inv by (simp add: durable_inv_def disk_inv_unlink)
  have del: "durable_inv c rd (delete_file c n s, acc, sent, refused)"
    using acc disk m ph by (simp add: durable_inv_def delete_file_def file_matches_unlink)
  show ?thesis
  proof (cases "dt_removal t")
    case Removed
    with acc disk show ?thesis by (simp add: remove_sent_def durable_inv_def Let_def)
  next
    case Removed_Unsynced
    with failed_turn_inv [OF del] m show ?thesis
      by (simp add: remove_sent_def file_matches_unlink)
  next
    case Not_Removed
    with failed_turn_inv [OF inv m(1)] show ?thesis by (simp add: remove_sent_def)
  qed
qed

lemma remove_refused_inv:
  assumes inv: "durable_inv c rd (s, acc, sent, refused)" and ph: "du_phase s = Refused_File n i b"
  shows "durable_inv c rd (remove_refused c t n b s, acc, sent, refused)"
proof -
  let ?disk = "if dc_retain c then rename_file Active Retained (dc_fingerprint c, n) (du_disk s)
    else unlink_file Active (dc_fingerprint c, n) (du_disk s)"
  have m: "file_matches c (du_disk s) n i" "i \<in> set refused" "distinct (map fst (du_disk s))"
    using inv ph by (simp_all add: durable_inv_def disk_inv_def)
  have "all_accounted c rd ?disk sent refused acc"
    using inv all_accounted_mono [of c rd "du_disk s" sent refused acc]
      accounted_unlink [OF m(3) _ m(1)] accounted_retain [OF _ m(1)] m(2)
    by (simp add: durable_inv_def)
  moreover have "disk_inv c ?disk" using inv by (simp add: durable_inv_def disk_inv_unlink)
  ultimately show ?thesis
    using inv
    by (cases "dt_removal t"; cases "dc_retain c")
       (simp_all add: remove_refused_def durable_inv_def Let_def delete_file_def)
qed

lemma durable_worker_inv:
  assumes inv: "durable_inv c rd (s, acc, sent, refused)" and read: "rd \<Longrightarrow> dt_read t"
  shows "durable_inv c rd (durable_worker c t s, acc,
    sent @ answered Sent t (du_phase s), refused @ answered Permanent t (du_phase s))"
proof (cases "du_phase s")
  case (Between b)
  obtain names p where b: "b = (names, p)" by (cases b)
  show ?thesis
    using inv start_file_inv [OF inv read]
    by (cases names) (auto simp: durable_worker_def Between b answered_def durable_inv_def)
next
  case (Attempting n i a d b)
  with attempt_send_inv [OF inv Attempting, of t] show ?thesis by (simp add: durable_worker_def)
next
  case (Acknowledged n i a d b)
  with remove_sent_inv [OF inv Acknowledged, of t] show ?thesis
    by (simp add: durable_worker_def answered_def)
next
  case (Refused_File n i b)
  with remove_refused_inv [OF inv Refused_File, of t] show ?thesis
    by (simp add: durable_worker_def answered_def)
next
  case (Waiting n i a d b)
  with inv show ?thesis by (simp add: durable_worker_def answered_def durable_inv_def)
qed (use inv in \<open>simp_all add: durable_worker_def answered_def durable_inv_def\<close>)

lemma crash_inv:
  assumes inv: "durable_inv c rd (s, acc, sent, refused)" and fresh: "unused_name c name s acc"
    and room: "has_room c encoded (du_disk s)" and size: "length (sf_data f) \<le> length encoded"
  shows "durable_inv c rd (start_durable c (((dc_fingerprint c, name), f) # du_disk s), acc, sent, refused)"
proof (rule start_durable_inv)
  show "disk_inv c (((dc_fingerprint c, name), f) # du_disk s)"
    using disk_inv_add [OF _ room] inv fresh size
    by (simp add: durable_inv_def unused_name_def)
  show "all_accounted c rd (((dc_fingerprint c, name), f) # du_disk s) sent refused acc"
  proof (rule all_accounted_mono)
    show "all_accounted c rd (du_disk s) sent refused acc" using inv by (simp add: durable_inv_def)
    show "accounted c rd (((dc_fingerprint c, name), f) # du_disk s) sent refused n i"
      if "(n, i) \<in> set acc" "accounted c rd (du_disk s) sent refused n i" for n i
      using that fresh by (intro accounted_add) (auto simp: unused_name_def rev_image_eqI)
  qed
qed

lemma durable_reachable:
  assumes laws: "codec_laws (dc_codec c)" and disk: "disk_inv c disk0"
    and run: "(durable_step c rd)\<^sup>*\<^sup>* (start_durable c disk0, [], [], []) r"
  shows "durable_inv c rd r"
  using run
proof (induction rule: rtranclp_induct)
  case base
  show ?case using disk by (intro start_durable_inv) (simp_all add: all_accounted_def)
next
  case (step r r')
  from step(2,3) show ?case
  proof cases
    case (Submit name s acc nonce outcome item ok s' sent refused)
    then show ?thesis using submit_durable_inv [OF _ laws] step(3) by simp
  next
    case (Worker t s acc sent refused)
    then show ?thesis using durable_worker_inv [of c rd s acc sent refused t] step(3) by simp
  next
    case (Close s acc sent refused)
    then show ?thesis using step(3) by (simp add: durable_inv_def close_durable_def)
  next
    case (Crash s acc sent refused)
    from step(3) have "disk_inv c (du_disk s)" "all_accounted c rd (du_disk s) sent refused acc"
      unfolding Crash(1) by (simp_all add: durable_inv_def)
    with Crash(2) start_durable_inv show ?thesis by simp
  next
    case (Crash_Writing name s acc encoded written sent refused)
    then have "length written \<le> length encoded" by (simp add: prefix_length_le)
    with Crash_Writing step(3) show ?thesis using crash_inv [of c rd s acc sent refused name encoded] by simp
  next
    case (Crash_Committed name s acc encoded nonce item sent refused)
    then show ?thesis using step(3) crash_inv [of c rd s acc sent refused name encoded]
      by (simp add: commit_record_def)
  qed
qed

section \<open>Draining towards a server that answers\<close>

text \<open>A turn in which the server acknowledges and the file can be removed, at a fixed time.\<close>

definition acknowledging :: "disk_turn \<Rightarrow> bool" where
  "acknowledging t \<longleftrightarrow> tn_outcome t = Sent \<and> dt_removal t = Removed \<and> dt_read t"

lemma set_spool_files:
  "set (spool_files fp disk) = set (map (snd \<circ> fst) (filter (\<lambda>(k, f). fst k = fp \<and> sf_kind f = Active) disk))"
  by (simp add: spool_files_def)

lemma spool_files_rename:
  "set (spool_files fp (rename_file Active Quarantined (fp, n) disk)) = set (spool_files fp disk) - {n}"
  unfolding set_spool_files by (induction disk) (auto simp: rename_file_def)

lemma spool_files_unlink:
  "set (spool_files fp (unlink_file Active (fp, n) disk)) = set (spool_files fp disk) - {n}"
  unfolding set_spool_files by (induction disk) (auto simp: unlink_file_def)

definition drained_of :: "durable_config \<Rightarrow> string \<Rightarrow> durable_exporter \<Rightarrow> durable_exporter \<Rightarrow> bool" where
  "drained_of c n s s' \<longleftrightarrow> du_stop_requested s' = du_stop_requested s
     \<and> set (du_in_flight s') = set (du_in_flight s) - {n}
     \<and> set (spool_files (dc_fingerprint c) (du_disk s')) = set (spool_files (dc_fingerprint c) (du_disk s)) - {n}"

lemma worker_file:
  assumes "acknowledging t" "durable_config_valid c" "\<not> du_stop_requested s" "du_phase s = Between (n # rest, p)"
  shows "\<exists>k s'. k \<le> 3 \<and> (durable_worker c t ^^ k) s = s' \<and> du_phase s' = Between (rest, True) \<and> drained_of c n s s'"
proof (cases "\<exists>i. file_holds c Active (du_disk s) n i")
  case True
  then obtain i where i: "start_file c t n (rest, p) s = s\<lparr>du_in_flight := n # removeAll n (du_in_flight s),
       du_phase := Attempting n i 1 (tn_before t + rc_deadline (dc_retry c)) (rest, p)\<rparr>"
    using assms(1) by (auto simp: file_holds_def start_file_def acknowledging_def Let_def split: option.splits)
  let ?s1 = "start_file c t n (rest, p) s"
  have pos: "0 < rc_deadline (dc_retry c)"
    using assms(2) by (simp add: durable_config_valid_def retry_config_valid_def)
  have one: "durable_worker c t s = ?s1" using assms(3,4) by (simp add: durable_worker_def)
  have two: "durable_worker c t ?s1
      = ?s1\<lparr>du_phase := Acknowledged n i 1 (tn_before t + rc_deadline (dc_retry c)) (rest, p)\<rparr>" (is "_ = ?s2")
    using assms(1) pos by (simp add: i durable_worker_def attempt_send_def acknowledging_def)
  have three: "durable_worker c t ?s2 = remove_sent c t n i 1 (tn_before t + rc_deadline (dc_retry c)) (rest, p) ?s2"
    by (simp add: i durable_worker_def)
  have "drained_of c n s (remove_sent c t n i 1 (tn_before t + rc_deadline (dc_retry c)) (rest, p) ?s2)"
    using assms(1)
    by (simp add: drained_of_def remove_sent_def acknowledging_def Let_def i spool_files_unlink delete_file_def
        forget_record_def file_done_def)
  moreover have "du_phase (remove_sent c t n i 1 (tn_before t + rc_deadline (dc_retry c)) (rest, p) ?s2) = Between (rest, True)"
    using assms(1) by (simp add: remove_sent_def acknowledging_def Let_def)
  moreover have "(durable_worker c t ^^ 3) s
      = remove_sent c t n i 1 (tn_before t + rc_deadline (dc_retry c)) (rest, p) ?s2"
    by (simp only: numeral_3_eq_3 funpow.simps comp_apply id_apply one two three)
  ultimately show ?thesis by (metis order_refl)
next
  case False
  then have "start_file c t n (rest, p) s = file_done c (tn_after t) True n (rest, p)
      (quarantine c Active n (s\<lparr>du_in_flight := n # removeAll n (du_in_flight s)\<rparr>))" (is "_ = ?s1")
    using assms(1)
    by (auto simp: start_file_def file_holds_def acknowledging_def Let_def split: option.splits if_splits)
  then have "durable_worker c t s = ?s1" using assms(3,4) by (simp add: durable_worker_def)
  moreover have "drained_of c n s ?s1"
    by (simp add: drained_of_def spool_files_rename)
       (auto simp: file_done_def quarantine_def forget_record_def notify_durable_def Let_def)
  moreover have "du_phase ?s1 = Between (rest, True)" by simp
  moreover have "(durable_worker c t ^^ 1) s = durable_worker c t s" by simp
  ultimately show ?thesis by (metis one_le_numeral)
qed

lemma worker_batch:
  assumes "acknowledging t" "durable_config_valid c" "\<not> du_stop_requested s" "du_phase s = Between (names, p)"
  shows "\<exists>k. k \<le> 3 * length names \<and> (\<exists>q. du_phase ((durable_worker c t ^^ k) s) = Between ([], q))
    \<and> \<not> du_stop_requested ((durable_worker c t ^^ k) s)
    \<and> set (du_in_flight ((durable_worker c t ^^ k) s)) = set (du_in_flight s) - set names
    \<and> set (spool_files (dc_fingerprint c) (du_disk ((durable_worker c t ^^ k) s)))
        = set (spool_files (dc_fingerprint c) (du_disk s)) - set names"
  using assms(3,4)
proof (induction names arbitrary: s p)
  case Nil
  then show ?case by (intro exI [of _ 0]) auto
next
  case (Cons n names)
  from worker_file [OF assms(1,2) Cons.prems] obtain j s' where
    j: "j \<le> 3" "(durable_worker c t ^^ j) s = s'" "du_phase s' = Between (names, True)" "drained_of c n s s'" by blast
  from Cons.IH [OF _ j(3)] j(4) Cons.prems(1) obtain k where
    k: "k \<le> 3 * length names" "\<exists>q. du_phase ((durable_worker c t ^^ k) s') = Between ([], q)"
      "\<not> du_stop_requested ((durable_worker c t ^^ k) s')"
      "set (du_in_flight ((durable_worker c t ^^ k) s')) = set (du_in_flight s') - set names"
      "set (spool_files (dc_fingerprint c) (du_disk ((durable_worker c t ^^ k) s')))
        = set (spool_files (dc_fingerprint c) (du_disk s')) - set names"
    by (auto simp: drained_of_def)
  have "(durable_worker c t ^^ (k + j)) s = (durable_worker c t ^^ k) s'" by (simp add: funpow_add j(2))
  with j(1,4) k show ?case by (intro exI [of _ "k + j"]) (auto simp: drained_of_def)
qed

lemma worker_rests:
  assumes "du_phase s = Scanning" "\<not> du_stop_requested s" "spool_files (dc_fingerprint c) (du_disk s) = []"
  shows "(durable_worker c t ^^ k) s = s"
  using assms by (induction k) (simp_all add: durable_worker_def ready_files_def)

section \<open>Samples\<close>

definition sample_spooled :: bytes where
  "sample_spooled = spool_encode sample_codec ''d'' None sample_export_item"

definition sample_durable :: durable_config where
  "sample_durable = \<lparr>dc_fingerprint = ''d'', dc_codec = sample_codec, dc_keyed = False, dc_max_items = 1,
     dc_max_bytes = length sample_spooled + 1, dc_retain = True,
     dc_retry = \<lparr>rc_max_attempts = 1, rc_base_backoff = 0, rc_jitter_ratio = 0, rc_max_backoff = 1, rc_deadline = 1\<rparr>\<rparr>"

definition sample_spool :: durable_exporter where
  "sample_spool = snd (durable_submit sample_durable None ''n'' Committed sample_export_item (start_durable sample_durable []))"

lemma sample_spool_fields:
  "fst (durable_submit sample_durable None ''n'' Committed sample_export_item (start_durable sample_durable []))"
  "du_disk sample_spool = [((''d'', ''n''), \<lparr>sf_kind = Active, sf_data = sample_spooled\<rparr>)]"
  "du_phase sample_spool = Scanning" "du_stop_requested sample_spool = False" "du_in_flight sample_spool = []"
  "du_retry_not_before sample_spool = []"
  by (simp_all add: sample_spool_def durable_submit_def start_durable_def temporary_files_def has_room_def
      sample_durable_def sample_spooled_def commit_record_def disk_bytes_def Let_def)

lemma sample_spool_run:
  "(durable_step sample_durable rd)\<^sup>*\<^sup>* (start_durable sample_durable [], [], [], [])
     (sample_spool, [(''n'', sample_export_item)], [], [])"
proof -
  have sub: "durable_submit sample_durable None ''n'' Committed sample_export_item (start_durable sample_durable [])
      = (True, sample_spool)"
    using sample_spool_fields(1) by (simp add: sample_spool_def prod_eq_iff)
  have "unused_name sample_durable ''n'' (start_durable sample_durable []) []"
    by (simp add: unused_name_def start_durable_def temporary_files_def)
  from durable_step.Submit [OF this _ sub, of rd "[]" "[]"] show ?thesis
    by (simp add: sample_durable_def)
qed

lemma sample_durable_laws: "codec_laws (dc_codec sample_durable)"
  by (simp add: sample_durable_def sample_codec_laws)

section \<open>Properties\<close>



text \<open>
  The spool never outgrows its caps: through every submission, failure, crash and restart, all
  the files of the directory together (active, retained, temporary and quarantined) stay within the item
  and byte caps it started within.
\<close>

theorem spool_within_caps:
  assumes "codec_laws (dc_codec c)" "length disk0 \<le> dc_max_items c" "disk_bytes disk0 \<le> dc_max_bytes c"
    "distinct (map fst disk0)"
    and "(durable_step c rd)\<^sup>*\<^sup>* (start_durable c disk0, [], [], []) (s, acc, sent, refused)"
  shows "case disk_status (dc_fingerprint c) (du_disk s) of
      (active, depth, used, others, retained) \<Rightarrow> depth \<le> dc_max_items c \<and> used \<le> dc_max_bytes c"
  using durable_reachable [OF assms(1) _ assms(5)] assms(2-4)
  by (simp add: durable_inv_def disk_inv_def disk_status_def Let_def)

theorem spool_within_caps_witness: "length (du_disk sample_spool) \<le> 1"
  using spool_within_caps [OF sample_durable_laws _ _ _ sample_spool_run [of True]]
  by (simp add: disk_bytes_def disk_status_def sample_durable_def Let_def)

text \<open>
  A running spool drains: from a worker about to scan, once every backoff is over and the
  server acknowledges what it is sent, at most \<open>3 * n + 2\<close> steps of the worker empty the route's
  spool of its \<open>n\<close> records, with nothing in flight, so that \<^verbatim>\<open>flush\<close> returns
  \<^verbatim>\<open>True\<close>.
\<close>

theorem durable_drains:
  assumes "acknowledging t" "durable_config_valid c" "\<not> du_stop_requested s" "du_phase s = Scanning"
    and "du_in_flight s = []" and "\<forall>(name, due) \<in> set (du_retry_not_before s). due \<le> tn_before t" "0 \<le> tn_before t"
    and "3 * length (spool_files (dc_fingerprint c) (du_disk s)) + 2 \<le> k"
  shows "durable_flushed c ((durable_worker c t ^^ k) s)"
proof -
  let ?files = "spool_files (dc_fingerprint c) (du_disk s)"
  have ready: "ready_files c (tn_before t) s = ?files"
    using assms(6,7) by (auto simp: ready_files_def filter_id_conv dest!: map_of_SomeD split: option.splits)
  show ?thesis
  proof (cases "?files = []")
    case True
    with worker_rests [OF assms(4,3) True] assms(5) show ?thesis by (simp add: durable_flushed_def)
  next
    case False
    let ?s1 = "s\<lparr>du_phase := Between (?files, False)\<rparr>"
    have one: "durable_worker c t s = ?s1"
      using assms(3,4) ready False by (simp add: durable_worker_def)
    from worker_batch [OF assms(1,2), of ?s1 ?files False] assms(3,5) obtain j q where
      j: "j \<le> 3 * length ?files" "du_phase ((durable_worker c t ^^ j) ?s1) = Between ([], q)"
        "\<not> du_stop_requested ((durable_worker c t ^^ j) ?s1)"
        "du_in_flight ((durable_worker c t ^^ j) ?s1) = []"
        "spool_files (dc_fingerprint c) (du_disk ((durable_worker c t ^^ j) ?s1)) = []"
      by auto
    let ?s2 = "durable_worker c t ((durable_worker c t ^^ j) ?s1)"
    have s2: "?s2 = ((durable_worker c t ^^ j) ?s1)\<lparr>du_phase := Scanning\<rparr>"
      using j(2) by (simp add: durable_worker_def)
    have "(durable_worker c t ^^ (k - (j + 2) + (1 + (j + 1)))) s = (durable_worker c t ^^ (k - (j + 2))) ?s2"
      by (simp only: funpow_add comp_apply) (simp add: one funpow_swap1)
    also have "k - (j + 2) + (1 + (j + 1)) = k" using j(1) assms(8) by simp
    also have "(durable_worker c t ^^ (k - (j + 2))) ?s2 = ?s2"
      by (rule worker_rests) (use j in \<open>simp_all add: s2\<close>)
    finally show ?thesis using j by (simp add: s2 durable_flushed_def)
  qed
qed

definition sample_disk_turn :: disk_turn where
  "sample_disk_turn = \<lparr>tn_before = 0, tn_outcome = Sent, tn_after = 0, tn_jitter = 1, tn_time_ns = 0,
     tn_stopped = False, dt_removal = Removed, dt_read = True\<rparr>"

theorem durable_drains_witness:
  "durable_flushed sample_durable ((durable_worker sample_durable sample_disk_turn ^^ 5) sample_spool)"
proof -
  have files: "spool_files (dc_fingerprint sample_durable) (du_disk sample_spool) = [''n'']"
    by (simp add: spool_files_def sample_spool_fields) (simp add: sample_durable_def)
  show ?thesis
    by (rule durable_drains)
       (simp_all add: files sample_spool_fields(3-6) sample_disk_turn_def acknowledging_def,
        simp_all add: sample_durable_def durable_config_valid_def retry_config_valid_def)
qed

end
