(* ===== verification/LeasedJobs.thy ===== *)
theory LeasedJobs
  imports Prelude "HOL-Library.Multiset"
begin

text \<open>
  The leased jobs of one catalog table (\<^verbatim>\<open>leased_jobs.py\<close>): \<open>due\<close>, \<open>claim\<close>, \<open>holds\<close>,
  \<open>complete\<close>, \<open>retry\<close> and \<open>release\<close> over a table that is the list of its rows.

  The statements are read with SQL's meaning: a comparison with \<^verbatim>\<open>NULL\<close> does not hold, an
  \<^verbatim>\<open>UPDATE\<close> rewrites every row its \<^verbatim>\<open>WHERE\<close> selects and reports how many they were, and
  \<^verbatim>\<open>ORDER BY\<close> leaves rows of equal rank in whatever order the engine visits them. That visiting
  order is the parameter \<open>eng\<close>; all that is relied on is that it visits the rows of the table.
  The columns of the table's owner are one value \<open>jr_columns\<close>, and the \<^verbatim>\<open>columns\<close> a caller
  assigns are a function on it. The key columns are the primary key.

  The random token (\<^verbatim>\<open>secrets.randbelow\<close>) is an argument of \<open>claim\<close>; in the step relation a
  claim's token is one no earlier claim drew.
\<close>

section \<open>Tables\<close>

definition select_where :: "('r list \<Rightarrow> 'r list) \<Rightarrow> ('r \<Rightarrow> bool) \<Rightarrow> ('r list \<Rightarrow> 'r list) \<Rightarrow> nat \<Rightarrow> 'r list \<Rightarrow> 'r list" where
  "select_where eng p order_by limit table = take limit (order_by (filter p (eng table)))"

definition update_where :: "('r \<Rightarrow> bool) \<Rightarrow> ('r \<Rightarrow> 'r) \<Rightarrow> 'r list \<Rightarrow> nat \<times> 'r list" where
  "update_where p f table = (length (filter p table), map (\<lambda>r. if p r then f r else r) table)"

definition null_less :: "int option \<Rightarrow> int \<Rightarrow> bool" where
  "null_less a b = (case a of None \<Rightarrow> False | Some x \<Rightarrow> x < b)"

definition null_le :: "int option \<Rightarrow> int \<Rightarrow> bool" where
  "null_le a b = (case a of None \<Rightarrow> False | Some x \<Rightarrow> x \<le> b)"

section \<open>Jobs and leases\<close>

definition SECOND :: int where "SECOND = 1000000000"
definition PENDING :: string where "PENDING = ''pending''"
definition RUNNING :: string where "RUNNING = ''running''"
definition FAILED :: string where "FAILED = ''failed''"
definition DEFAULT_RETRY_DELAYS_SECONDS :: "int list" where
  "DEFAULT_RETRY_DELAYS_SECONDS = [60, 240, 960]"
definition TOKEN_RANGE :: nat where "TOKEN_RANGE = 2 ^ 63 - 1"

record ('k, 'x) job_row =
  jr_key :: 'k
  jr_state :: string
  jr_attempts :: nat
  jr_lease_until :: "int option"
  jr_token :: nat
  jr_next_attempt :: "int option"
  jr_error :: "string option"
  jr_updated :: int
  jr_columns :: 'x

record 'k job_lease =
  jl_key :: 'k
  jl_token :: nat
  jl_lease_until :: int
  jl_attempts :: nat
  jl_taken_over :: bool

definition lease_expired :: "int \<Rightarrow> ('k, 'x) job_row \<Rightarrow> bool" where
  "lease_expired now r = (jr_state r = RUNNING \<and> null_less (jr_lease_until r) now)"

definition never_put_off :: "('k, 'x) job_row \<Rightarrow> bool" where
  "never_put_off r = (jr_state r = PENDING \<and> jr_next_attempt r = None)"

definition backoff_over :: "int \<Rightarrow> ('k, 'x) job_row \<Rightarrow> bool" where
  "backoff_over now r = (jr_state r = PENDING \<and> null_le (jr_next_attempt r) now)"

text \<open>\<open>due_reads\<close> is the loop over the three reads of \<open>due\<close>.\<close>

fun due_reads :: "(('k, 'x) job_row list \<Rightarrow> ('k, 'x) job_row list) \<Rightarrow> ('k, 'x) job_row list \<Rightarrow> nat
    \<Rightarrow> ((('k, 'x) job_row \<Rightarrow> bool) \<times> (('k, 'x) job_row list \<Rightarrow> ('k, 'x) job_row list)) list
    \<Rightarrow> 'k list \<Rightarrow> 'k list" where
  "due_reads eng table limit [] keys = keys"
| "due_reads eng table limit ((p, order_by) # reads) keys =
     (if length keys \<ge> limit then keys
      else due_reads eng table limit reads
        (keys @ map jr_key (select_where eng p order_by (limit - length keys) table)))"

definition due :: "(('k, 'x) job_row list \<Rightarrow> ('k, 'x) job_row list) \<Rightarrow> ('k, 'x) job_row list \<Rightarrow> int
    \<Rightarrow> nat \<Rightarrow> 'k list" where
  "due eng table now limit = due_reads eng table limit
     [(lease_expired now, sort_key (\<lambda>r. the (jr_lease_until r))),
      (never_put_off, \<lambda>rs. rs),
      (backoff_over now, sort_key (\<lambda>r. the (jr_next_attempt r)))] []"

definition fetch_row :: "'k \<Rightarrow> ('k, 'x) job_row list \<Rightarrow> ('k, 'x) job_row option" where
  "fetch_row k table = find (\<lambda>r. jr_key r = k) table"

definition claimable :: "int \<Rightarrow> ('k, 'x) job_row \<Rightarrow> bool" where
  "claimable now r =
     (jr_state r = RUNNING \<and> null_less (jr_lease_until r) now
      \<or> jr_state r = PENDING \<and> (jr_next_attempt r = None \<or> null_le (jr_next_attempt r) now))"

text \<open>\<open>claim_keys\<close> is the loop of \<open>claim\<close> over the due keys; \<open>draw\<close> is what
  \<^verbatim>\<open>randbelow\<close> returns.\<close>

fun claim_keys :: "int \<Rightarrow> ('k \<Rightarrow> int) \<Rightarrow> nat \<Rightarrow> 'k list \<Rightarrow> ('k, 'x) job_row list
    \<Rightarrow> 'k job_lease option \<times> ('k, 'x) job_row list" where
  "claim_keys now lease_nano draw [] table = (None, table)"
| "claim_keys now lease_nano draw (k # keys) table =
     (case fetch_row k table of
        None \<Rightarrow> claim_keys now lease_nano draw keys table
      | Some before \<Rightarrow>
          let token = 1 + draw;
              lease_until = now + lease_nano k;
              (claimed, table') = update_where (\<lambda>r. jr_key r = k \<and> claimable now r)
                (\<lambda>r. r\<lparr>jr_state := RUNNING, jr_token := token, jr_lease_until := Some lease_until,
                       jr_updated := now\<rparr>) table
          in if claimed \<noteq> 1 then claim_keys now lease_nano draw keys table'
             else (Some \<lparr>jl_key = k, jl_token = token, jl_lease_until = lease_until,
                         jl_attempts = jr_attempts before,
                         jl_taken_over = (jr_state before = RUNNING)\<rparr>, table'))"

definition claim :: "(('k, 'x) job_row list \<Rightarrow> ('k, 'x) job_row list) \<Rightarrow> ('k, 'x) job_row list \<Rightarrow> int
    \<Rightarrow> ('k \<Rightarrow> int) \<Rightarrow> nat \<Rightarrow> 'k job_lease option \<times> ('k, 'x) job_row list" where
  "claim eng table now lease_nano draw =
     claim_keys now lease_nano draw (due eng table now 1) table"

text \<open>\<open>lease_matches\<close> is the condition every write of a holder carries.\<close>

definition lease_matches :: "'k job_lease \<Rightarrow> ('k, 'x) job_row \<Rightarrow> bool" where
  "lease_matches lease r =
     (jr_key r = jl_key lease \<and> jr_state r = RUNNING \<and> jr_token r = jl_token lease)"

definition holds :: "('k, 'x) job_row list \<Rightarrow> 'k job_lease \<Rightarrow> bool" where
  "holds table lease = (find (lease_matches lease) table \<noteq> None)"

definition complete_job :: "'k job_lease \<Rightarrow> int \<Rightarrow> string \<Rightarrow> string option \<Rightarrow> ('x \<Rightarrow> 'x)
    \<Rightarrow> ('k, 'x) job_row list \<Rightarrow> bool \<times> ('k, 'x) job_row list" where
  "complete_job lease now state error_code columns table =
     (let (n, table') = update_where (lease_matches lease)
        (\<lambda>r. r\<lparr>jr_state := state, jr_error := error_code, jr_lease_until := None,
               jr_next_attempt := None, jr_updated := now, jr_columns := columns (jr_columns r)\<rparr>) table
      in (n = 1, table'))"

definition retry_job :: "int list \<Rightarrow> 'k job_lease \<Rightarrow> int \<Rightarrow> string \<Rightarrow> ('x \<Rightarrow> 'x)
    \<Rightarrow> ('k, 'x) job_row list \<Rightarrow> string option \<times> ('k, 'x) job_row list" where
  "retry_job delays lease now error_code columns table =
     (let attempts = jl_attempts lease + 1;
          (state, next_attempt) =
            (if attempts > length delays then (FAILED, None)
             else (PENDING, Some (now + delays ! (attempts - 1) * SECOND)));
          assign = (if state = FAILED then columns else (\<lambda>x. x));
          (n, table') = update_where (lease_matches lease)
            (\<lambda>r. r\<lparr>jr_state := state, jr_attempts := attempts, jr_error := Some error_code,
                   jr_lease_until := None, jr_next_attempt := next_attempt, jr_updated := now,
                   jr_columns := assign (jr_columns r)\<rparr>) table
      in (if n = 1 then Some state else None, table'))"

definition release_jobs :: "int \<Rightarrow> ('k, 'x) job_row list \<Rightarrow> nat \<times> ('k, 'x) job_row list" where
  "release_jobs now table = update_where (\<lambda>r. jr_state r = RUNNING)
     (\<lambda>r. r\<lparr>jr_state := PENDING, jr_lease_until := None, jr_next_attempt := None,
            jr_updated := now\<rparr>) table"

text \<open>
  An owner may queue jobs again that are over (\<^verbatim>\<open>requeue\<close> of \<^verbatim>\<open>storage_analysis.py\<close>);
  \<open>selected\<close> is the rest of its selection, by algorithm version, error code and limit.
\<close>

definition requeue_jobs :: "(('k, 'x) job_row \<Rightarrow> bool) \<Rightarrow> int \<Rightarrow> ('k, 'x) job_row list \<Rightarrow> nat \<times> ('k, 'x) job_row list" where
  "requeue_jobs selected now table = update_where (\<lambda>r. jr_state r \<noteq> PENDING \<and> jr_state r \<noteq> RUNNING \<and> selected r)
     (\<lambda>r. r\<lparr>jr_state := PENDING, jr_attempts := 0, jr_error := None, jr_lease_until := None,
            jr_next_attempt := None, jr_updated := now\<rparr>) table"

section \<open>Runs of a table\<close>

text \<open>
  The holders, the server's start and the owner of the table act in any order, at any clock
  readings. \<open>jw_issued\<close> lists the leases handed out, oldest first, and \<open>jw_settled\<close> the
  tokens of those whose \<open>complete\<close> or \<open>retry\<close> reported success. An owner inserts jobs as new
  pending rows, deletes them (a purge), queues jobs that are over again and writes its own columns; it completes a job in a state
  of its own, which is neither \<open>PENDING\<close> nor \<open>RUNNING\<close>.
\<close>

record ('k, 'x) job_world =
  jw_table :: "('k, 'x) job_row list"
  jw_issued :: "'k job_lease list"
  jw_settled :: "nat list"

definition settle_token :: "bool \<Rightarrow> 'k job_lease \<Rightarrow> nat list \<Rightarrow> nat list" where
  "settle_token ok lease ts = (if ok then ts @ [jl_token lease] else ts)"

definition new_job :: "'k \<Rightarrow> int \<Rightarrow> 'x \<Rightarrow> ('k, 'x) job_row" where
  "new_job k now x = \<lparr>jr_key = k, jr_state = PENDING, jr_attempts = 0, jr_lease_until = None,
     jr_token = 0, jr_next_attempt = None, jr_error = None, jr_updated = now, jr_columns = x\<rparr>"

inductive job_step :: "(('k, 'x) job_row list \<Rightarrow> ('k, 'x) job_row list) \<Rightarrow> int list
    \<Rightarrow> ('k, 'x) job_world \<Rightarrow> ('k, 'x) job_world \<Rightarrow> bool"
  for eng delays where
  Claim: "\<lbrakk>claim eng (jw_table w) now lease_nano draw = (Some l, t);
           draw < TOKEN_RANGE; jl_token l \<notin> jl_token ` set (jw_issued w)\<rbrakk> \<Longrightarrow>
     job_step eng delays w (w\<lparr>jw_table := t, jw_issued := jw_issued w @ [l]\<rparr>)"
| Idle: "claim eng (jw_table w) now lease_nano draw = (None, t) \<Longrightarrow>
     job_step eng delays w (w\<lparr>jw_table := t\<rparr>)"
| Complete: "\<lbrakk>l \<in> set (jw_issued w); state \<noteq> PENDING; state \<noteq> RUNNING;
              complete_job l now state error_code columns (jw_table w) = (ok, t)\<rbrakk> \<Longrightarrow>
     job_step eng delays w (w\<lparr>jw_table := t, jw_settled := settle_token ok l (jw_settled w)\<rparr>)"
| Retry: "\<lbrakk>l \<in> set (jw_issued w);
           retry_job delays l now error_code columns (jw_table w) = (result, t)\<rbrakk> \<Longrightarrow>
     job_step eng delays w
       (w\<lparr>jw_table := t, jw_settled := settle_token (result \<noteq> None) l (jw_settled w)\<rparr>)"
| Release: "release_jobs now (jw_table w) = (n, t) \<Longrightarrow> job_step eng delays w (w\<lparr>jw_table := t\<rparr>)"
| Insert: "k \<notin> jr_key ` set (jw_table w) \<Longrightarrow>
     job_step eng delays w (w\<lparr>jw_table := jw_table w @ [new_job k now x]\<rparr>)"
| Delete: "job_step eng delays w (w\<lparr>jw_table := filter (\<lambda>r. jr_key r \<noteq> k) (jw_table w)\<rparr>)"
| Owner: "job_step eng delays w (w\<lparr>jw_table := snd (update_where p
     (\<lambda>r. r\<lparr>jr_updated := now, jr_columns := columns (jr_columns r)\<rparr>) (jw_table w))\<rparr>)"
| Requeue: "requeue_jobs selected now (jw_table w) = (n, t) \<Longrightarrow> job_step eng delays w (w\<lparr>jw_table := t\<rparr>)"

inductive_cases job_stepE: "job_step eng delays w w'"

definition empty_jobs :: "('k, 'x) job_world" where
  "empty_jobs = \<lparr>jw_table = [], jw_issued = [], jw_settled = []\<rparr>"

definition jobs_reachable :: "(('k, 'x) job_row list \<Rightarrow> ('k, 'x) job_row list) \<Rightarrow> int list
    \<Rightarrow> ('k, 'x) job_world \<Rightarrow> bool" where
  "jobs_reachable eng delays w = (job_step eng delays)\<^sup>*\<^sup>* empty_jobs w"


section \<open>Updates by key\<close>

named_theorems job_simps "projections of the rows and leases an operation writes"

lemma update_where_none:
  "(\<And>r. r \<in> set t \<Longrightarrow> \<not> p r) \<Longrightarrow> update_where p f t = (0, t)"
  by (auto simp: update_where_def filter_empty_conv intro: map_idI)

text \<open>An update whose condition fixes the key rewrites at most one row.\<close>

lemma filter_key:
  assumes "distinct (map jr_key t)" "\<And>r. p r \<Longrightarrow> jr_key r = k"
  shows "length (filter p t) = (if \<exists>r\<in>set t. p r then 1 else 0)"
  using assms(1)
proof (induction t)
  case (Cons r t)
  show ?case
  proof (cases "p r")
    case True
    with Cons.prems assms(2) have "\<not> (\<exists>r'\<in>set t. p r')"
      by (metis distinct.simps(2) image_eqI list.set_map list.simps(9))
    with True show ?thesis by (auto simp: filter_empty_conv)
  qed (use Cons in auto)
qed simp

lemma update_where_keyed:
  assumes "distinct (map jr_key t)" "\<And>r. p r \<Longrightarrow> jr_key r = k"
  shows "update_where p f t =
    (if \<exists>r\<in>set t. p r then (1, map (\<lambda>r. if p r then f r else r) t) else (0, t))"
  using filter_key [OF assms] update_where_none [of t p f]
  by (auto simp: update_where_def intro: map_idI)

lemma key_unique:
  "\<lbrakk>distinct (map jr_key t); r \<in> set t; r' \<in> set t; jr_key r = jr_key r'\<rbrakk> \<Longrightarrow> r = r'"
  by (auto simp: distinct_map dest: inj_onD)

lemma fetch_row_Some: "fetch_row k t = Some r \<Longrightarrow> r \<in> set t \<and> jr_key r = k"
  by (auto simp: fetch_row_def find_Some_iff)

lemma fetch_row_None: "fetch_row k t = None \<longleftrightarrow> k \<notin> jr_key ` set t"
  by (auto simp: fetch_row_def find_None_iff)

lemma fetch_row_mem:
  "\<lbrakk>distinct (map jr_key t); r \<in> set t\<rbrakk> \<Longrightarrow> fetch_row (jr_key r) t = Some r"
  by (cases "fetch_row (jr_key r) t")
     (auto simp: fetch_row_None dest: fetch_row_Some intro: key_unique [of t])

lemma claimable_iff: "claimable now r \<longleftrightarrow> lease_expired now r \<or> never_put_off r \<or> backoff_over now r"
  by (auto simp: claimable_def lease_expired_def never_put_off_def backoff_over_def)

section \<open>What a claim does\<close>

definition claimed_row :: "'k job_lease \<Rightarrow> int \<Rightarrow> ('k, 'x) job_row \<Rightarrow> ('k, 'x) job_row" where
  "claimed_row l now r = r\<lparr>jr_state := RUNNING, jr_token := jl_token l,
     jr_lease_until := Some (jl_lease_until l), jr_updated := now\<rparr>"

definition claim_effect :: "int \<Rightarrow> ('k \<Rightarrow> int) \<Rightarrow> nat \<Rightarrow> ('k, 'x) job_row list \<Rightarrow> 'k job_lease
    \<Rightarrow> ('k, 'x) job_row \<Rightarrow> ('k, 'x) job_row list \<Rightarrow> bool" where
  "claim_effect now lease_nano draw t l r t' =
     (r \<in> set t \<and> claimable now r \<and> jl_key l = jr_key r \<and> jl_token l = 1 + draw \<and>
      jl_lease_until l = now + lease_nano (jr_key r) \<and> jl_attempts l = jr_attempts r \<and>
      jl_taken_over l = (jr_state r = RUNNING) \<and>
      t' = map (\<lambda>r'. if jr_key r' = jr_key r then claimed_row l now r' else r') t)"

lemma claim_one:
  assumes "distinct (map jr_key t)"
  shows "claim_keys now lease_nano draw [k] t =
    (case fetch_row k t of None \<Rightarrow> (None, t)
     | Some r \<Rightarrow> if claimable now r
         then (let l = \<lparr>jl_key = k, jl_token = 1 + draw, jl_lease_until = now + lease_nano k,
                        jl_attempts = jr_attempts r, jl_taken_over = (jr_state r = RUNNING)\<rparr>
               in (Some l, map (\<lambda>r'. if jr_key r' = k then claimed_row l now r' else r') t))
         else (None, t))"
proof (cases "fetch_row k t")
  case (Some r)
  then have r: "r \<in> set t" "jr_key r = k" by (auto dest: fetch_row_Some)
  have only: "r' \<in> set t \<Longrightarrow> jr_key r' = k \<longleftrightarrow> r' = r" for r'
    using r key_unique [OF assms, of r' r] by auto
  show ?thesis
  proof (cases "claimable now r")
    case True
    then have "(\<exists>r\<in>set t. jr_key r = k \<and> claimable now r)" using r by blast
    moreover have "map (\<lambda>r'. if jr_key r' = k \<and> claimable now r' then g r' else r') t
        = map (\<lambda>r'. if jr_key r' = k then g r' else r') t" for g
      using True only by (auto simp: map_eq_conv)
    ultimately have "update_where (\<lambda>r'. jr_key r' = k \<and> claimable now r') g t
        = (Suc 0, map (\<lambda>r'. if jr_key r' = k then g r' else r') t)" for g
      using update_where_keyed [OF assms, of "\<lambda>r'. jr_key r' = k \<and> claimable now r'" k g] by simp
    with True show ?thesis by (simp add: Some Let_def claimed_row_def)
  next
    case False
    then have "\<And>r'. r' \<in> set t \<Longrightarrow> \<not> (jr_key r' = k \<and> claimable now r')" using only by blast
    then have "update_where (\<lambda>r'. jr_key r' = k \<and> claimable now r') f t = (0, t)" for f
      by (rule update_where_none)
    with False show ?thesis by (simp add: Some)
  qed
qed simp

lemma length_select: "length (select_where eng p order_by n t) \<le> n"
  by (simp add: select_where_def)

lemma length_due_reads: "length keys \<le> limit \<Longrightarrow> length (due_reads eng t limit reads keys) \<le> limit"
proof (induction eng t limit reads keys rule: due_reads.induct)
  case (2 eng t limit p order_by reads keys)
  have "length keys + length (select_where eng p order_by (limit - length keys) t) \<le> limit"
    using 2(2) length_select [of eng p order_by "limit - length keys" t] by linarith
  with 2 show ?case by simp
qed simp

lemma due_one: "due eng t now 1 = [] \<or> (\<exists>k. due eng t now 1 = [k])"
proof -
  have "length (due eng t now 1) \<le> 1" unfolding due_def by (rule length_due_reads) simp
  then show ?thesis by (cases "due eng t now 1") auto
qed

lemma claim_cases:
  assumes "distinct (map jr_key t)" and "claim eng t now lease_nano draw = (res, t')"
  obtains (none) "res = None" "t' = t"
  | (some) l r where "res = Some l" "claim_effect now lease_nano draw t l r t'"
      "due eng t now 1 = [jr_key r]"
proof (cases "due eng t now 1 = []")
  case True
  with assms(2) show ?thesis by (auto simp: claim_def intro: none)
next
  case False
  with due_one [of eng t now] obtain k where k: "due eng t now 1 = [k]" by auto
  with assms(2) have "claim_keys now lease_nano draw [k] t = (res, t')" by (simp add: claim_def)
  note c = this [unfolded claim_one [OF assms(1)]]
  show ?thesis
  proof (cases "\<exists>r. fetch_row k t = Some r \<and> claimable now r")
    case True
    then obtain r where r: "fetch_row k t = Some r" "claimable now r" by auto
    with fetch_row_Some have "r \<in> set t" "jr_key r = k" by fastforce+
    with r c k show ?thesis
      by (auto simp: Let_def claim_effect_def intro!: some)
  next
    case False
    with c show ?thesis
      by (intro none) (auto simp: Let_def split: option.splits if_splits)
  qed
qed

lemma map_key_update:
  "(\<And>r. jr_key (f r) = jr_key r) \<Longrightarrow> map jr_key (map (\<lambda>r. if p r then f r else r) t) = map jr_key t"
  by simp


section \<open>The invariant\<close>

text \<open>
  A running row is held by the last lease handed out for its key, which has not settled and knows
  the row's failed attempts.
\<close>

definition last_lease :: "'k job_lease list \<Rightarrow> 'k \<Rightarrow> 'k job_lease option" where
  "last_lease ls k = find (\<lambda>l. jl_key l = k) (rev ls)"

definition row_ok :: "int list \<Rightarrow> 'k job_lease list \<Rightarrow> nat set \<Rightarrow> ('k, 'x) job_row \<Rightarrow> bool" where
  "row_ok delays ls settled r =
     ((jr_state r = RUNNING \<longrightarrow> (\<exists>l. last_lease ls (jr_key r) = Some l \<and> jl_token l = jr_token r \<and>
         jl_attempts l = jr_attempts r \<and> jl_token l \<notin> settled)) \<and>
      (jr_state r \<in> {PENDING, RUNNING} \<longrightarrow> jr_attempts r \<le> length delays) \<and>
      jr_attempts r \<le> length delays + 1)"

definition jobs_inv :: "int list \<Rightarrow> ('k, 'x) job_world \<Rightarrow> bool" where
  "jobs_inv delays w =
     (distinct (map jr_key (jw_table w)) \<and> distinct (map jl_token (jw_issued w)) \<and>
      distinct (jw_settled w) \<and> set (jw_settled w) \<subseteq> jl_token ` set (jw_issued w) \<and>
      (\<forall>r\<in>set (jw_table w). row_ok delays (jw_issued w) (set (jw_settled w)) r))"

lemma states_distinct [simp]:
  "PENDING \<noteq> RUNNING" "RUNNING \<noteq> PENDING" "FAILED \<noteq> RUNNING" "RUNNING \<noteq> FAILED"
  "FAILED \<noteq> PENDING" "PENDING \<noteq> FAILED"
  by (simp_all add: PENDING_def RUNNING_def FAILED_def)

lemma last_lease_snoc [simp]:
  "last_lease (ls @ [l]) k = (if jl_key l = k then Some l else last_lease ls k)"
  by (simp add: last_lease_def)

lemma last_lease_mem: "last_lease ls k = Some l \<Longrightarrow> l \<in> set ls \<and> jl_key l = k"
  by (auto simp: last_lease_def find_Some_iff) (metis length_rev nth_mem set_rev)

lemma token_unique:
  "\<lbrakk>distinct (map jl_token ls); l \<in> set ls; l' \<in> set ls; jl_token l = jl_token l'\<rbrakk> \<Longrightarrow> l = l'"
  by (auto simp: distinct_map dest: inj_onD)

lemma holds_iff: "holds t l \<longleftrightarrow> (\<exists>r\<in>set t. lease_matches l r)"
  by (auto simp: holds_def find_None_iff)

lemma claimable_not_terminal: "claimable now r \<Longrightarrow> jr_state r \<in> {PENDING, RUNNING}"
  by (auto simp: claimable_def)

text \<open>The holder of a matched row is its last lease, unsettled.\<close>

lemma matched_lease:
  assumes "jobs_inv delays w" "r \<in> set (jw_table w)" "lease_matches l r" "l \<in> set (jw_issued w)"
  shows "last_lease (jw_issued w) (jr_key r) = Some l \<and> jl_attempts l = jr_attempts r \<and>
         jl_token l \<notin> set (jw_settled w)"
proof -
  from assms obtain l' where l': "last_lease (jw_issued w) (jr_key r) = Some l'"
      "jl_token l' = jr_token r" "jl_attempts l' = jr_attempts r" "jl_token l' \<notin> set (jw_settled w)"
    by (auto simp: jobs_inv_def row_ok_def lease_matches_def)
  moreover have "l' = l"
    using token_unique [of "jw_issued w" l' l] last_lease_mem [OF l'(1)] l'(2) assms
    by (auto simp: jobs_inv_def lease_matches_def)
  ultimately show ?thesis by simp
qed

lemma claim_inv:
  assumes "jobs_inv delays w" "claim_effect now lease_nano draw (jw_table w) l r t"
    "jl_token l \<notin> jl_token ` set (jw_issued w)"
  shows "jobs_inv delays (w\<lparr>jw_table := t, jw_issued := jw_issued w @ [l]\<rparr>)"
proof -
  have r: "r \<in> set (jw_table w)" "jl_key l = jr_key r" "jl_attempts l = jr_attempts r"
      "jr_state r \<in> {PENDING, RUNNING}"
    and t: "t = map (\<lambda>r'. if jr_key r' = jr_key r then claimed_row l now r' else r') (jw_table w)"
    using assms(2) claimable_not_terminal by (auto simp: claim_effect_def)
  have fresh: "jl_token l \<notin> set (jw_settled w)"
    using assms(1,3) by (auto simp: jobs_inv_def)
  have "row_ok delays (jw_issued w @ [l]) (set (jw_settled w))
      (if jr_key r' = jr_key r then claimed_row l now r' else r')" if "r' \<in> set (jw_table w)" for r'
  proof (cases "jr_key r' = jr_key r")
    case True
    with key_unique [of "jw_table w" r' r] that r assms(1) have "r' = r" by (auto simp: jobs_inv_def)
    with r fresh assms(1) show ?thesis by (auto simp: jobs_inv_def row_ok_def claimed_row_def)
  next
    case False
    with that r assms(1) show ?thesis by (auto simp: jobs_inv_def row_ok_def)
  qed
  then have "\<forall>r\<in>set t. row_ok delays (jw_issued w @ [l]) (set (jw_settled w)) r"
    unfolding t set_map ball_simps by blast
  moreover have "map jr_key t = map jr_key (jw_table w)"
    unfolding t by (simp add: claimed_row_def)
  ultimately show ?thesis using assms(1,3) unfolding jobs_inv_def by auto
qed

text \<open>
  A write under a lease: \<open>f\<close> takes the matched row to a row that is not running and within
  the attempts' bounds.
\<close>

definition lease_write :: "'k job_lease \<Rightarrow> (('k, 'x) job_row \<Rightarrow> ('k, 'x) job_row)
    \<Rightarrow> ('k, 'x) job_row list \<Rightarrow> ('k, 'x) job_row list" where
  "lease_write l f t = map (\<lambda>r. if lease_matches l r then f r else r) t"

lemma lease_update:
  assumes "distinct (map jr_key t)"
  shows "update_where (lease_matches l) f t = (if holds t l then (1, lease_write l f t) else (0, t))"
  using update_where_keyed [OF assms, of "lease_matches l" "jl_key l" f]
  by (auto simp: holds_iff lease_matches_def lease_write_def)

lemma lease_write_inv:
  assumes inv: "jobs_inv delays w" and l: "l \<in> set (jw_issued w)" "holds (jw_table w) l"
    and f: "\<And>r. jr_key (f r) = jr_key r" "\<And>r. jr_state (f r) \<noteq> RUNNING"
    and ok: "\<And>r. \<lbrakk>r \<in> set (jw_table w); lease_matches l r; jl_attempts l = jr_attempts r;
                 jr_attempts r \<le> length delays\<rbrakk> \<Longrightarrow>
               (jr_state (f r) = PENDING \<longrightarrow> jr_attempts (f r) \<le> length delays) \<and>
               jr_attempts (f r) \<le> length delays + 1"
  shows "jobs_inv delays (w\<lparr>jw_table := lease_write l f (jw_table w),
           jw_settled := jw_settled w @ [jl_token l]\<rparr>)"
proof -
  from l(2) obtain r where r: "r \<in> set (jw_table w)" "lease_matches l r" by (auto simp: holds_iff)
  note m = matched_lease [OF inv r l(1)]
  have "row_ok delays (jw_issued w) (insert (jl_token l) (set (jw_settled w)))
      (if lease_matches l r' then f r' else r')" if "r' \<in> set (jw_table w)" for r'
  proof (cases "lease_matches l r'")
    case True
    then have "jr_attempts r' \<le> length delays"
      using inv that by (auto simp: jobs_inv_def row_ok_def lease_matches_def)
    with ok [OF that True] matched_lease [OF inv that True l(1)] f(2) [of r'] True show ?thesis
      by (simp add: row_ok_def)
  next
    case False
    have base: "row_ok delays (jw_issued w) (set (jw_settled w)) r'"
      using inv that by (simp add: jobs_inv_def)
    have "jr_token r' \<noteq> jl_token l" if run: "jr_state r' = RUNNING"
    proof
      assume tok: "jr_token r' = jl_token l"
      from base run obtain l' where l': "last_lease (jw_issued w) (jr_key r') = Some l'"
          "jl_token l' = jr_token r'" by (auto simp: row_ok_def)
      with tok token_unique [of "jw_issued w" l' l] last_lease_mem [OF l'(1)] l(1) inv
      have "l' = l" by (auto simp: jobs_inv_def)
      with last_lease_mem [OF l'(1)] tok run False show False by (simp add: lease_matches_def)
    qed
    with base False show ?thesis by (auto simp: row_ok_def)
  qed
  then have "\<forall>r\<in>set (lease_write l f (jw_table w)).
      row_ok delays (jw_issued w) (insert (jl_token l) (set (jw_settled w))) r"
    unfolding lease_write_def set_map ball_simps by blast
  moreover have "map jr_key (lease_write l f (jw_table w)) = map jr_key (jw_table w)"
    by (simp add: lease_write_def f(1))
  ultimately show ?thesis using inv m l(1) unfolding jobs_inv_def by auto
qed

text \<open>A write that leaves keys alone, keeps or clears the attempts, and makes no row running.\<close>

lemma quiet_update_inv:
  assumes "jobs_inv delays w"
    and "\<And>r. r \<in> set (jw_table w) \<Longrightarrow> jr_key (f r) = jr_key r \<and> jr_attempts (f r) = jr_attempts r \<and>
        (jr_state (f r) = jr_state r \<and> jr_token (f r) = jr_token r \<or>
         jr_state r = RUNNING \<and> jr_state (f r) = PENDING) \<or>
       jr_key (f r) = jr_key r \<and> jr_attempts (f r) = 0 \<and> jr_state (f r) = PENDING"
  shows "jobs_inv delays (w\<lparr>jw_table := map f (jw_table w)\<rparr>)"
proof -
  have "row_ok delays (jw_issued w) (set (jw_settled w)) (f r)" if "r \<in> set (jw_table w)" for r
    using assms(1) assms(2) [OF that] that unfolding jobs_inv_def row_ok_def
    by (metis insertI1 insertI2 states_distinct(1) le0)
  moreover have "map (jr_key \<circ> f) (jw_table w) = map jr_key (jw_table w)"
    using assms(2) by (auto simp: map_eq_conv)
  then have "distinct (map jr_key (map f (jw_table w)))"
    using assms(1) by (simp only: map_map jobs_inv_def)
  ultimately show ?thesis using assms(1) unfolding jobs_inv_def by simp
qed

lemma complete_effect:
  assumes "distinct (map jr_key t)"
  shows "complete_job l now state error_code columns t =
    (if holds t l then (True, lease_write l (\<lambda>r. r\<lparr>jr_state := state, jr_error := error_code,
        jr_lease_until := None, jr_next_attempt := None, jr_updated := now,
        jr_columns := columns (jr_columns r)\<rparr>) t)
     else (False, t))"
  by (simp add: complete_job_def lease_update [OF assms])

lemma retry_effect:
  assumes "distinct (map jr_key t)"
  shows "retry_job delays l now error_code columns t =
    (if \<not> holds t l then (None, t)
     else if jl_attempts l < length delays
       then (Some PENDING, lease_write l (\<lambda>r. r\<lparr>jr_state := PENDING, jr_attempts := jl_attempts l + 1,
              jr_error := Some error_code, jr_lease_until := None,
              jr_next_attempt := Some (now + delays ! jl_attempts l * SECOND),
              jr_updated := now\<rparr>) t)
       else (Some FAILED, lease_write l (\<lambda>r. r\<lparr>jr_state := FAILED, jr_attempts := jl_attempts l + 1,
              jr_error := Some error_code, jr_lease_until := None, jr_next_attempt := None,
              jr_updated := now, jr_columns := columns (jr_columns r)\<rparr>) t))"
  by (auto simp: retry_job_def lease_update [OF assms] lease_write_def)

lemma complete_inv:
  assumes inv: "jobs_inv delays w" and l: "l \<in> set (jw_issued w)"
    and st: "state \<noteq> PENDING" "state \<noteq> RUNNING"
    and c: "complete_job l now state error_code columns (jw_table w) = (ok, t)"
  shows "jobs_inv delays (w\<lparr>jw_table := t, jw_settled := settle_token ok l (jw_settled w)\<rparr>)"
proof -
  have dist: "distinct (map jr_key (jw_table w))" using inv by (simp add: jobs_inv_def)
  note c = c [unfolded complete_effect [OF dist]]
  show ?thesis
  proof (cases "holds (jw_table w) l")
    case True
    with c have "ok" and t: "t = lease_write l (\<lambda>r. r\<lparr>jr_state := state, jr_error := error_code,
        jr_lease_until := None, jr_next_attempt := None, jr_updated := now,
        jr_columns := columns (jr_columns r)\<rparr>) (jw_table w)" by auto
    then show ?thesis unfolding t settle_token_def
      by (simp only: if_True) (rule lease_write_inv [OF inv l True], use st in auto)
  qed (use c inv in \<open>auto simp: settle_token_def\<close>)
qed

lemma retry_inv:
  assumes inv: "jobs_inv delays w" and l: "l \<in> set (jw_issued w)"
    and c: "retry_job delays l now error_code columns (jw_table w) = (result, t)"
  shows "jobs_inv delays (w\<lparr>jw_table := t,
    jw_settled := settle_token (result \<noteq> None) l (jw_settled w)\<rparr>)"
proof -
  have dist: "distinct (map jr_key (jw_table w))" using inv by (simp add: jobs_inv_def)
  note c = c [unfolded retry_effect [OF dist]]
  show ?thesis
  proof (cases "holds (jw_table w) l")
    case held: True
    show ?thesis
    proof (cases "jl_attempts l < length delays")
      case True
      with c held have t: "t = lease_write l (\<lambda>r. r\<lparr>jr_state := PENDING, jr_attempts := jl_attempts l + 1,
              jr_error := Some error_code, jr_lease_until := None,
              jr_next_attempt := Some (now + delays ! jl_attempts l * SECOND),
              jr_updated := now\<rparr>) (jw_table w)" "result \<noteq> None" by auto
      show ?thesis unfolding t(1) settle_token_def if_P [OF t(2)]
        by (rule lease_write_inv [OF inv l held]) (use True in auto)
    next
      case False
      with c held have t: "t = lease_write l (\<lambda>r. r\<lparr>jr_state := FAILED, jr_attempts := jl_attempts l + 1,
              jr_error := Some error_code, jr_lease_until := None, jr_next_attempt := None,
              jr_updated := now, jr_columns := columns (jr_columns r)\<rparr>) (jw_table w)"
          "result \<noteq> None" by auto
      show ?thesis unfolding t(1) settle_token_def if_P [OF t(2)]
        by (rule lease_write_inv [OF inv l held]) auto
    qed
  qed (use c inv in \<open>auto simp: settle_token_def\<close>)
qed

lemma job_step_inv:
  assumes "job_step eng delays w w'" "jobs_inv delays w"
  shows "jobs_inv delays w'"
proof -
  note inv = assms(2)
  have dist: "distinct (map jr_key (jw_table w))" using inv by (simp add: jobs_inv_def)
  show ?thesis using assms(1)
  proof (rule job_stepE, goal_cases)
    case (1 now lease_nano draw l t)
    show ?thesis
    proof (cases rule: claim_cases [OF dist 1(2)])
      case (2 l r)
      with 1 inv show ?thesis by (simp add: claim_inv)
    qed simp
  next
    case (2 now lease_nano draw t)
    with inv show ?thesis by (cases rule: claim_cases [OF dist 2(2)]) simp_all
  next
    case 3
    with inv show ?thesis by (simp add: complete_inv)
  next
    case (4 l now error_code columns result t)
    with retry_inv [OF inv 4(2,3)] show ?thesis by simp
  next
    case (5 now n t)
    then show ?thesis using quiet_update_inv [OF inv]
      by (auto simp: release_jobs_def update_where_def)
  next
    case (6 k now x)
    with inv show ?thesis by (auto simp: jobs_inv_def new_job_def row_ok_def)
  next
    case (7 k)
    with inv show ?thesis by (auto simp: jobs_inv_def distinct_map_filter)
  next
    case (8 p now columns)
    then show ?thesis using quiet_update_inv [OF inv] by (auto simp: update_where_def)
  next
    case (9 selected now n t)
    then show ?thesis using quiet_update_inv [OF inv]
      by (auto simp: requeue_jobs_def update_where_def)
  qed
qed

lemma jobs_inv_reachable: "jobs_reachable eng delays w \<Longrightarrow> jobs_inv delays w"
  unfolding jobs_reachable_def
proof (induction rule: rtranclp_induct)
  case base
  show ?case by (simp add: empty_jobs_def jobs_inv_def)
next
  case (step w w')
  then show ?case by (blast intro: job_step_inv)
qed


section \<open>The order of the queue\<close>

text \<open>The whole queue in the order \<open>due\<close> serves it: expired leases, jobs never put off,
  jobs whose backoff is over.\<close>

definition job_queue :: "(('k, 'x) job_row list \<Rightarrow> ('k, 'x) job_row list) \<Rightarrow> ('k, 'x) job_row list \<Rightarrow> int
    \<Rightarrow> ('k, 'x) job_row list" where
  "job_queue eng t now = sort_key (\<lambda>r. the (jr_lease_until r)) (filter (lease_expired now) (eng t))
     @ filter never_put_off (eng t)
     @ sort_key (\<lambda>r. the (jr_next_attempt r)) (filter (backoff_over now) (eng t))"

lemma due_reads_take:
  "length keys \<le> limit \<Longrightarrow> due_reads eng t limit reads keys =
     take limit (keys @ map jr_key (concat (map (\<lambda>(p, order_by). order_by (filter p (eng t))) reads)))"
proof (induction eng t limit reads keys rule: due_reads.induct)
  case (2 eng t limit p order_by reads keys)
  show ?case
  proof (cases "length keys = limit")
    case False
    have "length keys + length (select_where eng p order_by (limit - length keys) t) \<le> limit"
      using 2(2) length_select [of eng p order_by "limit - length keys" t] by linarith
    with 2 False show ?thesis
      by (simp add: select_where_def take_map min_def split: if_splits)
  qed (use 2 in simp)
qed simp

lemma due_queue: "due eng t now limit = take limit (map jr_key (job_queue eng t now))"
  unfolding due_def by (subst due_reads_take) (simp_all add: job_queue_def)

lemma set_job_queue:
  "mset (eng t) = mset t \<Longrightarrow> set (job_queue eng t now) = {r \<in> set t. claimable now r}"
  using set_mset_mset [of "eng t"] by (auto simp: job_queue_def claimable_iff)

lemma sorted_hd_least:
  "r # rest = sort_key f xs \<Longrightarrow> y \<in> set xs \<Longrightarrow> f r \<le> f y"
  by (metis set_ConsD set_sort sorted_simps(2) list.simps(9) sorted_sort_key imageI image_set order_refl)


definition claim_is_first :: "int \<Rightarrow> ('k, 'x) job_row list \<Rightarrow> ('k, 'x) job_row \<Rightarrow> bool" where
  "claim_is_first now t r =
     (if \<exists>r'\<in>set t. lease_expired now r'
      then lease_expired now r \<and>
        (\<forall>r'\<in>set t. lease_expired now r' \<longrightarrow> the (jr_lease_until r) \<le> the (jr_lease_until r'))
      else if \<exists>r'\<in>set t. never_put_off r' then never_put_off r
      else backoff_over now r \<and>
        (\<forall>r'\<in>set t. backoff_over now r' \<longrightarrow> the (jr_next_attempt r) \<le> the (jr_next_attempt r')))"

lemma queue_head_first:
  assumes "mset (eng t) = mset t" "job_queue eng t now = r # rest"
  shows "claim_is_first now t r"
proof -
  have set_eng: "set (eng t) = set t" using assms(1) by (metis set_mset_mset)
  let ?e = "filter (lease_expired now) (eng t)" and ?n = "filter never_put_off (eng t)"
    and ?b = "filter (backoff_over now) (eng t)"
  show ?thesis
  proof (cases "sort_key (\<lambda>r. the (jr_lease_until r)) ?e")
    case (Cons r' xs)
    with assms(2) have "r' = r" by (simp add: job_queue_def)
    moreover have "set (sort_key (\<lambda>r. the (jr_lease_until r)) ?e) = {r \<in> set t. lease_expired now r}"
      by (auto simp: set_eng)
    ultimately show ?thesis
      using Cons sorted_hd_least [OF Cons [symmetric]] by (auto simp: claim_is_first_def set_eng)
  next
    case Nil
    then have e: "\<not> (\<exists>r'\<in>set t. lease_expired now r')"
      using set_sort [of "\<lambda>r. the (jr_lease_until r)" ?e] by (auto simp: set_eng)
    show ?thesis
    proof (cases ?n)
      case n: Nil
      with Nil assms(2) have b: "r # rest = sort_key (\<lambda>r. the (jr_next_attempt r)) ?b"
        by (simp add: job_queue_def)
      then have "r \<in> set ?b" by (metis list.set_intros(1) set_sort)
      with e n sorted_hd_least [OF b] show ?thesis
        by (auto simp: claim_is_first_def set_eng filter_empty_conv)
    next
      case (Cons r' xs)
      with Nil assms(2) have "r' = r" by (simp add: job_queue_def)
      with Cons have "r \<in> set ?n" by simp
      with e show ?thesis by (auto simp: claim_is_first_def set_eng)
    qed
  qed
qed

section \<open>Properties\<close>

lemma unheld_step:
  assumes "job_step eng delays w w'" "jobs_inv delays w" "l \<in> set (jw_issued w)"
    "\<not> holds (jw_table w) l"
  shows "l \<in> set (jw_issued w') \<and> \<not> holds (jw_table w') l"
proof -
  have dist: "distinct (map jr_key (jw_table w))" using assms(2) by (simp add: jobs_inv_def)
  have un: "\<not> lease_matches l r" if "r \<in> set (jw_table w)" for r
    using assms(4) that by (auto simp: holds_iff)
  show ?thesis using assms(1)
  proof (rule job_stepE, goal_cases)
    case (1 now lease_nano draw l' t)
    show ?thesis
    proof (cases rule: claim_cases [OF dist 1(2)])
      case (2 l'' r)
      with 1 assms(3) have "jl_token l'' \<noteq> jl_token l" by auto
      with 1 2 un assms(3) show ?thesis
        by (auto simp: claim_effect_def holds_iff claimed_row_def lease_matches_def split: if_splits)
    qed (use 1 in simp)
  next
    case (2 now lease_nano draw t)
    with assms(3,4) show ?thesis by (cases rule: claim_cases [OF dist 2(2)]) simp_all
  next
    case (3 l' state now error_code columns ok t)
    then have "t = (if holds (jw_table w) l' then lease_write l' (\<lambda>r. r\<lparr>jr_state := state,
        jr_error := error_code, jr_lease_until := None, jr_next_attempt := None, jr_updated := now,
        jr_columns := columns (jr_columns r)\<rparr>) (jw_table w) else jw_table w)"
      by (auto simp: complete_effect [OF dist])
    with 3 un assms(3) show ?thesis
      by (auto simp: holds_iff lease_write_def lease_matches_def split: if_splits)
  next
    case (4 now l' error_code columns result t)
    have "\<not> lease_matches l r" if "r \<in> set t" for r
      using 4(3) un that
      by (auto simp: retry_effect [OF dist] lease_write_def lease_matches_def split: if_splits)
    with 4 assms(3) show ?thesis by (auto simp: holds_iff)
  next
    case (5 now n t)
    with un assms(3) show ?thesis
      by (auto simp: holds_iff release_jobs_def update_where_def lease_matches_def split: if_splits)
  next
    case (6 k now x)
    with un assms(3) show ?thesis by (auto simp: holds_iff lease_matches_def new_job_def)
  next
    case (7 k)
    with un assms(3) show ?thesis by (auto simp: holds_iff)
  next
    case (8 p now columns)
    with un assms(3) show ?thesis
      by (auto simp: holds_iff update_where_def lease_matches_def split: if_splits)
  next
    case (9 selected now n t)
    with un assms(3) show ?thesis
      by (auto simp: holds_iff requeue_jobs_def update_where_def lease_matches_def split: if_splits)
  qed
qed

lemma unheld_run:
  assumes "(job_step eng delays)\<^sup>*\<^sup>* w w'" "jobs_inv delays w" "l \<in> set (jw_issued w)"
    "\<not> holds (jw_table w) l"
  shows "\<not> holds (jw_table w') l"
proof -
  from assms(1) have "jobs_inv delays w' \<and> l \<in> set (jw_issued w') \<and> \<not> holds (jw_table w') l"
  proof (induction rule: rtranclp_induct)
    case base
    with assms show ?case by simp
  next
    case (step w1 w2)
    then show ?case using unheld_step job_step_inv by blast
  qed
  then show ?thesis by simp
qed

lemma holder_settles:
  assumes "distinct (map jr_key t)" "holds t l" "state \<noteq> RUNNING"
    "complete_job l now state e columns t = (ok, t')"
  shows "ok \<and> \<not> holds t' l"
  using assms by (auto simp: complete_effect [OF assms(1)] holds_iff lease_write_def lease_matches_def
      split: if_splits)

text \<open>C19. Fencing. In every run of a job table, with any number of holders, expired leases, purges,
  requeues and restarts: a lease is held only by the last claim of its key, one that has not settled, so
  no two leases hold one job and each claim settles at most once. A lease that is lost is never held
  again, and a holder that lost it gets \<open>False\<close> from \<open>complete\<close> and \<open>None\<close> from \<open>retry\<close>, which
  leave the table as it is; a holder that did not gets \<open>True\<close> from \<open>complete\<close> and no longer
  holds the job.\<close>

theorem leased_jobs_fenced:
  assumes "jobs_reachable eng delays w"
  shows "distinct (jw_settled w) \<and>
    (\<forall>l\<in>set (jw_issued w).
      if holds (jw_table w) l
      then last_lease (jw_issued w) (jl_key l) = Some l \<and> jl_token l \<notin> set (jw_settled w) \<and>
        (\<forall>l'\<in>set (jw_issued w). holds (jw_table w) l' \<and> jl_key l' = jl_key l \<longrightarrow> l' = l) \<and>
        (\<forall>now state e columns. state \<noteq> RUNNING \<longrightarrow>
          (case complete_job l now state e columns (jw_table w) of (ok, t) \<Rightarrow> ok \<and> \<not> holds t l))
      else (\<forall>now state e columns.
          complete_job l now state e columns (jw_table w) = (False, jw_table w)) \<and>
        (\<forall>now e columns. retry_job delays l now e columns (jw_table w) = (None, jw_table w)) \<and>
        (\<forall>w'. (job_step eng delays)\<^sup>*\<^sup>* w w' \<longrightarrow> \<not> holds (jw_table w') l))"
proof -
  from assms have inv: "jobs_inv delays w" by (rule jobs_inv_reachable)
  then have dist: "distinct (map jr_key (jw_table w))" by (simp add: jobs_inv_def)
  have last: "last_lease (jw_issued w) (jl_key l) = Some l \<and> jl_token l \<notin> set (jw_settled w)"
    if l: "l \<in> set (jw_issued w)" "holds (jw_table w) l" for l
  proof -
    from l(2) obtain r where r: "r \<in> set (jw_table w)" "lease_matches l r" by (auto simp: holds_iff)
    from matched_lease [OF inv r l(1)] r(2) show ?thesis by (simp add: lease_matches_def)
  qed
  show ?thesis
  proof (intro conjI ballI, goal_cases)
    case 1
    then show ?case using inv by (simp add: jobs_inv_def)
  next
    case (2 l)
    show ?case
    proof (cases "holds (jw_table w) l")
      case True
      with 2 last have "\<forall>l'\<in>set (jw_issued w). holds (jw_table w) l' \<and> jl_key l' = jl_key l \<longrightarrow> l' = l"
        by (metis option.inject)
      moreover have "\<forall>now state e columns. state \<noteq> RUNNING \<longrightarrow>
          (case complete_job l now state e columns (jw_table w) of (ok, t) \<Rightarrow> ok \<and> \<not> holds t l)"
        by (auto split: prod.split dest: holder_settles [OF dist True])
      ultimately show ?thesis using True last [OF 2 True] by simp
    next
      case False
      with 2 unheld_run [OF _ inv] show ?thesis
        by (auto simp: complete_effect [OF dist] retry_effect [OF dist])
    qed
  qed
qed


lemma claim_in_queue_order:
  assumes "\<And>t. mset (eng t) = mset t" "distinct (map jr_key t)"
    and "claim eng t now lease_nano draw = (res, t')"
  shows "(case res of
      None \<Rightarrow> t' = t \<and> (\<forall>r\<in>set t. \<not> claimable now r)
    | Some l \<Rightarrow> \<exists>r. claim_effect now lease_nano draw t l r t' \<and> claim_is_first now t r \<and>
        (\<forall>now'. now' \<le> jl_lease_until l \<longrightarrow> \<not> claimable now' (claimed_row l now r))) \<and>
    (\<forall>limit. due eng t now limit = take limit (map jr_key (job_queue eng t now)))"
proof (cases rule: claim_cases [OF assms(2,3)])
  case 1
  have "due eng t now 1 = []"
  proof (rule ccontr)
    assume "due eng t now 1 \<noteq> []"
    then obtain r rest where q: "job_queue eng t now = r # rest"
      by (auto simp: due_queue neq_Nil_conv)
    then have r: "r \<in> set t" "claimable now r"
      using set_job_queue [of eng t now] assms(1) by auto
    have "due eng t now 1 = [jr_key r]" by (simp add: due_queue q)
    moreover have "fetch_row (jr_key r) t = Some r" by (rule fetch_row_mem [OF assms(2) r(1)])
    ultimately have "fst (claim eng t now lease_nano draw) \<noteq> None"
      unfolding claim_def using r(2) by (simp only: claim_one [OF assms(2)]) (simp add: Let_def)
    with assms(3) 1 show False by simp
  qed
  then have "job_queue eng t now = []" by (simp add: due_queue)
  then show ?thesis
    using 1 set_job_queue [of eng t now] assms(1) by (auto simp: due_queue)
next
  case (2 l r)
  then obtain r' rest where q: "job_queue eng t now = r' # rest" "jr_key r' = jr_key r"
    by (cases "job_queue eng t now") (auto simp: due_queue)
  then have "r' \<in> set t" using set_job_queue [of eng t now] assms(1) by auto
  with q 2 key_unique [OF assms(2)] have "r' = r" by (auto simp: claim_effect_def)
  with q queue_head_first [of eng t now] assms(1) have "claim_is_first now t r" by simp
  moreover have "\<not> claimable now' (claimed_row l now r)" if "now' \<le> jl_lease_until l" for now'
    using that by (simp add: claimable_def claimed_row_def null_less_def)
  ultimately show ?thesis using 2 by (auto simp: due_queue)
qed

text \<open>C21. The queue. \<open>claim\<close> finds nothing only when no job is due; otherwise it leases exactly one
  due job, the first of the documented order (the earliest expired lease, else a job never put
  off, else the earliest backoff), under the drawn token and the lease the caller sized, leaves
  every other row alone, tells whether the job was taken over from an expired holder, and until
  that lease ends the job is not due again. \<open>due\<close> returns the first \<open>limit\<close> keys of the whole
  queue in that order.\<close>

theorem claim_serves_the_queue:
  assumes "\<And>t. mset (eng t) = mset t" "distinct (map jr_key t)"
    and "claim eng t now lease_nano draw = (res, t')"
  shows "(case res of
      None \<Rightarrow> t' = t \<and> (\<forall>r\<in>set t. \<not> claimable now r)
    | Some l \<Rightarrow> \<exists>r. claim_effect now lease_nano draw t l r t' \<and> claim_is_first now t r \<and>
        (\<forall>now'. now' \<le> jl_lease_until l \<longrightarrow> \<not> claimable now' (claimed_row l now r))) \<and>
    (\<forall>limit. due eng t now limit = take limit (map jr_key (job_queue eng t now)))"
  by (rule claim_in_queue_order [OF assms])

text \<open>Giving up. In every run no job counts more than one failed attempt past its retry delays,
  and one that has is neither pending nor running. \<open>retry\<close> by the holder adds exactly one failed
  attempt: while a delay is left the job is pending and not due before that delay has passed,
  past the last one it is terminal \<open>FAILED\<close> and never due again.\<close>

theorem failed_attempts_bounded:
  assumes "jobs_reachable eng delays w"
  shows "(\<forall>r\<in>set (jw_table w). jr_attempts r \<le> length delays + 1 \<and>
       (jr_attempts r = length delays + 1 \<longrightarrow> jr_state r \<notin> {PENDING, RUNNING})) \<and>
    (\<forall>l\<in>set (jw_issued w). \<forall>r\<in>set (jw_table w). lease_matches l r \<longrightarrow>
      (\<forall>now e columns. case retry_job delays l now e columns (jw_table w) of (result, t) \<Rightarrow>
        (\<exists>r'\<in>set t. jr_key r' = jr_key r \<and> jr_attempts r' = jr_attempts r + 1 \<and>
          (if jr_attempts r < length delays
           then result = Some PENDING \<and>
             (\<forall>now'. claimable now' r' = (now + delays ! jr_attempts r * SECOND \<le> now'))
           else result = Some FAILED \<and> jr_state r' = FAILED \<and> (\<forall>now'. \<not> claimable now' r')))))"
proof -
  from assms have inv: "jobs_inv delays w" by (rule jobs_inv_reachable)
  then have dist: "distinct (map jr_key (jw_table w))" by (simp add: jobs_inv_def)
  have one: "\<forall>r\<in>set (jw_table w). jr_attempts r \<le> length delays + 1 \<and>
      (jr_attempts r = length delays + 1 \<longrightarrow> jr_state r \<notin> {PENDING, RUNNING})"
    using inv by (auto simp: jobs_inv_def row_ok_def)
  have two: "\<exists>r'\<in>set t. jr_key r' = jr_key r \<and> jr_attempts r' = jr_attempts r + 1 \<and>
        (if jr_attempts r < length delays
         then result = Some PENDING \<and>
           (\<forall>now'. claimable now' r' = (now + delays ! jr_attempts r * SECOND \<le> now'))
         else result = Some FAILED \<and> jr_state r' = FAILED \<and> (\<forall>now'. \<not> claimable now' r'))"
    if l: "l \<in> set (jw_issued w)" and r: "r \<in> set (jw_table w)" "lease_matches l r"
      and c: "retry_job delays l now e columns (jw_table w) = (result, t)" for l r now e columns result t
  proof -
    have held: "holds (jw_table w) l" using r by (auto simp: holds_iff)
    have a: "jl_attempts l = jr_attempts r" using matched_lease [OF inv r l] by simp
    have mem: "f r \<in> set (lease_write l f (jw_table w))" for f
      using r by (force simp: lease_write_def)
    show ?thesis
    proof (cases "jr_attempts r < length delays")
      case True
      with c held a show ?thesis
        by (auto simp: retry_effect [OF dist] claimable_def null_le_def intro!: bexI [OF _ mem])
    next
      case False
      with c held a show ?thesis
        by (auto simp: retry_effect [OF dist] claimable_def intro!: bexI [OF _ mem])
    qed
  qed
  show ?thesis
  proof (intro conjI one ballI allI impI, goal_cases)
    case (1 l r now e columns)
    then show ?case
      by (cases "retry_job delays l now e columns (jw_table w)") (simp only: prod.case two)
  qed
qed

section \<open>A job taken over\<close>

definition sample_jobs_table :: "(string, unit) job_row list" where
  "sample_jobs_table = [\<lparr>jr_key = ''a'', jr_state = RUNNING, jr_attempts = 0, jr_lease_until = Some 25,
     jr_token = 9, jr_next_attempt = None, jr_error = None, jr_updated = 20, jr_columns = ()\<rparr>]"

definition sample_lease :: "nat \<Rightarrow> int \<Rightarrow> bool \<Rightarrow> string job_lease" where
  "sample_lease token until taken = \<lparr>jl_key = ''a'', jl_token = token, jl_lease_until = until,
     jl_attempts = 0, jl_taken_over = taken\<rparr>"

definition sample_jobs :: "(string, unit) job_world" where
  "sample_jobs = \<lparr>jw_table = sample_jobs_table,
     jw_issued = [sample_lease 7 15 False, sample_lease 9 25 True], jw_settled = []\<rparr>"

lemmas job_eval = claim_def due_def select_where_def update_where_def fetch_row_def claimable_def
  lease_expired_def never_put_off_def backoff_over_def null_less_def null_le_def new_job_def

lemma sample_jobs_reachable:
  "jobs_reachable (\<lambda>t. t) DEFAULT_RETRY_DELAYS_SECONDS sample_jobs"
proof -
  let ?R = "job_step (\<lambda>t. t) DEFAULT_RETRY_DELAYS_SECONDS"
  let ?w1 = "\<lparr>jw_table = [new_job ''a'' 0 ()], jw_issued = [], jw_settled = []\<rparr>"
  let ?r2 = "(new_job ''a'' 0 ())\<lparr>jr_state := RUNNING, jr_lease_until := Some 15, jr_token := 7,
    jr_updated := 10\<rparr>"
  let ?w2 = "\<lparr>jw_table = [?r2], jw_issued = [sample_lease 7 15 False], jw_settled = []\<rparr>"
  have "?R empty_jobs ?w1"
    using job_step.Insert [of "''a''" empty_jobs "\<lambda>t. t" _ 0 "()"] by (simp add: empty_jobs_def)
  moreover have "claim (\<lambda>t. t) (jw_table ?w1) 10 (\<lambda>_. 5) 6 = (Some (sample_lease 7 15 False), [?r2])"
    by (simp add: job_eval sample_lease_def)
  then have "?R ?w1 ?w2"
    using job_step.Claim [of "\<lambda>t. t" ?w1 10 "\<lambda>_. 5" 6] by (simp add: TOKEN_RANGE_def)
  moreover have "claim (\<lambda>t. t) (jw_table ?w2) 20 (\<lambda>_. 5) 8 = (Some (sample_lease 9 25 True), sample_jobs_table)"
    by (simp add: job_eval sample_lease_def sample_jobs_table_def)
  then have "?R ?w2 sample_jobs"
    using job_step.Claim [of "\<lambda>t. t" ?w2 20 "\<lambda>_. 5" 8]
    by (simp add: TOKEN_RANGE_def sample_jobs_def sample_lease_def)
  ultimately show ?thesis unfolding jobs_reachable_def
    by (meson rtranclp.rtrancl_into_rtrancl rtranclp.rtrancl_refl)
qed

theorem leased_jobs_fenced_witness:
  "retry_job DEFAULT_RETRY_DELAYS_SECONDS (sample_lease 7 15 False) 30 ''late'' (\<lambda>x. x) sample_jobs_table
     = (None, sample_jobs_table)"
proof -
  have "\<not> holds sample_jobs_table (sample_lease 7 15 False)"
    by (simp add: holds_def lease_matches_def sample_jobs_table_def sample_lease_def)
  then show ?thesis
    using leased_jobs_fenced [OF sample_jobs_reachable] by (auto simp: sample_jobs_def)
qed

theorem claim_serves_the_queue_witness:
  "claim_is_first 20 [new_job ''a'' 0 ()] (new_job ''a'' 0 ())"
proof -
  let ?t = "[new_job ''a'' 0 ()]"
  obtain res t' where c: "claim (\<lambda>t. t) ?t 20 (\<lambda>_. 5) 8 = (res, t')" by fastforce
  then have "res \<noteq> None" by (auto simp: job_eval)
  moreover have "distinct (map jr_key ?t)" by simp
  note claim_serves_the_queue [OF refl this c]
  ultimately show ?thesis by (auto simp: claim_effect_def)
qed

theorem failed_attempts_bounded_witness:
  "jr_attempts (hd (jw_table sample_jobs)) \<le> 4"
proof -
  have "hd (jw_table sample_jobs) \<in> set (jw_table sample_jobs)"
    by (simp add: sample_jobs_def sample_jobs_table_def)
  with failed_attempts_bounded [OF sample_jobs_reachable] show ?thesis
    by (simp add: DEFAULT_RETRY_DELAYS_SECONDS_def eval_nat_numeral)
qed

end
