(* ===== verification/RecordingFetches.thy ===== *)
theory RecordingFetches
  imports LeasedJobs "HOL-Library.Char_ord"
begin

text \<open>
  The recording fetch jobs (\<^verbatim>\<open>FetchStore\<close> of \<^verbatim>\<open>storage_fetches.py\<close>, the rows
  \<^verbatim>\<open>storage_deliveries.py\<close> inserts and the URLs it refreshes): the first client of the leased
  jobs. The catalog holds the fetch table, the recordings it serves and the connectors; each
  operation is one transaction, so it is a function of the catalog. \<open>json_loads\<close> is the
  library's JSON decoder (\<open>None\<close> is its \<^verbatim>\<open>ValueError\<close>).

  Downloading and storing the bytes is not modelled: a holder may, at any time and in any order,
  have its upload finished (\<^verbatim>\<open>finish_upload\<close>, which stores only a pending recording), fail, or
  settle. That over-approximates \<^verbatim>\<open>FetchRunner.run_next\<close>.
\<close>

section \<open>Connector configuration\<close>

definition MERGE_SESSION_KEYS :: string where "MERGE_SESSION_KEYS = ''merge_session_keys''"
definition API_KEY_REF :: string where "API_KEY_REF = ''api_key_ref''"

record connector_settings =
  cs_merge_session_keys :: bool
  cs_api_key_ref :: "string option"

definition upper_char :: "char \<Rightarrow> bool" where
  "upper_char c = (CHR ''A'' \<le> c \<and> c \<le> CHR ''Z'')"

definition digit_char :: "char \<Rightarrow> bool" where
  "digit_char c = (CHR ''0'' \<le> c \<and> c \<le> CHR ''9'')"

text \<open>\<^verbatim>\<open>env:[A-Z][A-Z0-9_]{0,127}\<close>, matched in full.\<close>

definition env_reference :: "string \<Rightarrow> bool" where
  "env_reference s = (take 4 s = ''env:'' \<and> (case drop 4 s of
       [] \<Rightarrow> False
     | c # cs \<Rightarrow> upper_char c \<and> length cs \<le> 127 \<and>
         list_all (\<lambda>c. upper_char c \<or> digit_char c \<or> c = CHR ''_'') cs))"

text \<open>\<open>None\<close> is a \<^verbatim>\<open>ValueError\<close>.\<close>

definition validated_config :: "(string \<times> json) list \<Rightarrow> connector_settings option" where
  "validated_config values =
     (if \<not> list_all (\<lambda>(k, v). k \<in> {MERGE_SESSION_KEYS, API_KEY_REF}) values then None
      else case (case map_of values MERGE_SESSION_KEYS of None \<Rightarrow> JBool False | Some v \<Rightarrow> v) of
        JBool merge \<Rightarrow>
          (case (case map_of values API_KEY_REF of None \<Rightarrow> JNull | Some v \<Rightarrow> v) of
             JNull \<Rightarrow> Some \<lparr>cs_merge_session_keys = merge, cs_api_key_ref = None\<rparr>
           | JString ref \<Rightarrow> (if env_reference ref
               then Some \<lparr>cs_merge_session_keys = merge, cs_api_key_ref = Some ref\<rparr> else None)
           | _ \<Rightarrow> None)
      | _ \<Rightarrow> None)"

definition connector_config :: "(string \<Rightarrow> json option) \<Rightarrow> string option \<Rightarrow> connector_settings option" where
  "connector_config json_loads stored = (case stored of
       None \<Rightarrow> Some \<lparr>cs_merge_session_keys = False, cs_api_key_ref = None\<rparr>
     | Some s \<Rightarrow> (case json_loads s of Some (JObject values) \<Rightarrow> validated_config values | _ \<Rightarrow> None))"

definition api_key_ref :: "(string \<Rightarrow> json option) \<Rightarrow> string option \<Rightarrow> string option" where
  "api_key_ref json_loads config_json = (case connector_config json_loads config_json of
       None \<Rightarrow> None | Some settings \<Rightarrow> cs_api_key_ref settings)"

section \<open>The catalog\<close>

definition STORED :: string where "STORED = ''stored''"
definition EXPIRED :: string where "EXPIRED = ''expired''"
definition RETRY :: string where "RETRY = ''retry''"
definition PROVIDER_API :: string where "PROVIDER_API = ''provider_api''"
definition PAYLOAD_URL :: string where "PAYLOAD_URL = ''payload_url''"
definition FETCH_URL_EXPIRED :: string where "FETCH_URL_EXPIRED = ''EARSHOT_FETCH_URL_EXPIRED''"
definition FETCH_RECORDING_FAILED :: string where
  "FETCH_RECORDING_FAILED = ''EARSHOT_FETCH_RECORDING_FAILED''"

type_synonym rec_key = "string \<times> string"

record fetch_columns =
  fc_endpoint_id :: string
  fc_source_kind :: string
  fc_provider_call_id :: string
  fc_track :: string
  fc_url :: "string option"
  fc_url_expires :: "int option"

record recording_row =
  rc_key :: rec_key
  rc_call_id :: string
  rc_state :: string
  rc_content_type :: string

type_synonym fetch_table = "(rec_key, fetch_columns) job_row list"

record catalog =
  ct_fetches :: fetch_table
  ct_recordings :: "recording_row list"
  ct_connectors :: "(string \<times> (string \<times> string option)) list"

record fetch_claim =
  fl_lease :: "rec_key job_lease"
  fl_provider :: string
  fl_source_kind :: string
  fl_provider_call_id :: string
  fl_track :: string
  fl_url :: "string option"
  fl_url_expires :: "int option"
  fl_api_key_ref :: "string option"
  fl_content_type :: string

record fetch_outcome =
  fo_key :: rec_key
  fo_result :: string
  fo_error :: "string option"

definition outcome_of :: "rec_key job_lease \<Rightarrow> string option \<Rightarrow> string option \<Rightarrow> fetch_outcome" where
  "outcome_of lease state code = \<lparr>fo_key = jl_key lease,
     fo_result = (case state of None \<Rightarrow> ''lost'' | Some st \<Rightarrow> st), fo_error = code\<rparr>"

definition no_url :: "fetch_columns \<Rightarrow> fetch_columns" where
  "no_url c = c\<lparr>fc_url := None\<rparr>"

definition recording_state :: "rec_key \<Rightarrow> recording_row list \<Rightarrow> string option" where
  "recording_state k rs = map_option rc_state (find (\<lambda>r. rc_key r = k) rs)"

definition fail_recording :: "rec_key job_lease \<Rightarrow> catalog \<Rightarrow> catalog" where
  "fail_recording lease cat = cat\<lparr>ct_recordings := snd (update_where
     (\<lambda>r. rc_key r = jl_key lease \<and> rc_state r = PENDING) (\<lambda>r. r\<lparr>rc_state := FAILED\<rparr>)
     (ct_recordings cat))\<rparr>"

definition complete_in :: "rec_key job_lease \<Rightarrow> int \<Rightarrow> string \<Rightarrow> string option \<Rightarrow> catalog
    \<Rightarrow> bool \<times> catalog" where
  "complete_in lease now state code cat =
     (let (ok, t) = complete_job lease now state code no_url (ct_fetches cat)
      in (ok, cat\<lparr>ct_fetches := t\<rparr>))"

definition end_fetch :: "rec_key job_lease \<Rightarrow> int \<Rightarrow> string \<Rightarrow> string \<Rightarrow> catalog
    \<Rightarrow> fetch_outcome \<times> catalog" where
  "end_fetch lease now state code cat =
     (let (ended, cat') = complete_in lease now state (Some code) cat;
          cat'' = (if ended then fail_recording lease cat' else cat')
      in (outcome_of lease (if ended then Some state else None) (Some code), cat''))"

definition settle_fetch :: "rec_key job_lease \<Rightarrow> int \<Rightarrow> string option \<Rightarrow> catalog
    \<Rightarrow> fetch_outcome \<times> catalog" where
  "settle_fetch lease now recording cat =
     (if recording = Some STORED
      then (let (ended, cat') = complete_in lease now STORED None cat
            in (outcome_of lease (if ended then Some STORED else None) None, cat'))
      else if recording = Some FAILED
      then end_fetch lease now FAILED FETCH_RECORDING_FAILED cat
      else (outcome_of lease None None, cat))"

text \<open>
  \<^verbatim>\<open>FetchStore.claim\<close>. \<open>Join_Missing\<close> is the error of reading a missing join row (the
  transaction is rolled back); the foreign keys of the catalog rule it out.
\<close>

datatype claim_result = Nothing_Due | Claimed fetch_claim | Ended fetch_outcome | Join_Missing

definition url_expired :: "int \<Rightarrow> fetch_columns \<Rightarrow> bool" where
  "url_expired now c = (fc_source_kind c = PAYLOAD_URL \<and>
     (case fc_url_expires c of None \<Rightarrow> False | Some at \<Rightarrow> now \<ge> at))"

definition claim_fetch :: "(string \<Rightarrow> json option) \<Rightarrow> (fetch_table \<Rightarrow> fetch_table) \<Rightarrow> int \<Rightarrow> int \<Rightarrow> nat
    \<Rightarrow> catalog \<Rightarrow> claim_result \<times> catalog" where
  "claim_fetch json_loads eng lease_nano now draw cat =
     (if due eng (ct_fetches cat) now 1 = [] then (Nothing_Due, cat)
      else case claim eng (ct_fetches cat) now (\<lambda>_. lease_nano) draw of
        (None, t) \<Rightarrow> (Nothing_Due, cat\<lparr>ct_fetches := t\<rparr>)
      | (Some lease, t) \<Rightarrow>
          let cat' = cat\<lparr>ct_fetches := t\<rparr> in
          (case (fetch_row (jl_key lease) t,
                 find (\<lambda>r. rc_key r = jl_key lease) (ct_recordings cat)) of
             (Some row, Some recording) \<Rightarrow>
               (case map_of (ct_connectors cat) (fc_endpoint_id (jr_columns row)) of
                  None \<Rightarrow> (Join_Missing, cat)
                | Some (provider, config_json) \<Rightarrow>
                    let c = jr_columns row in
                    if rc_state recording \<noteq> PENDING
                    then (case settle_fetch lease now (Some (rc_state recording)) cat' of
                            (outcome, cat'') \<Rightarrow> (Ended outcome, cat''))
                    else if url_expired now c
                    then (case end_fetch lease now EXPIRED FETCH_URL_EXPIRED cat' of
                            (outcome, cat'') \<Rightarrow> (Ended outcome, cat''))
                    else (Claimed \<lparr>fl_lease = lease, fl_provider = provider,
                            fl_source_kind = fc_source_kind c,
                            fl_provider_call_id = fc_provider_call_id c, fl_track = fc_track c,
                            fl_url = fc_url c, fl_url_expires = fc_url_expires c,
                            fl_api_key_ref = api_key_ref json_loads config_json,
                            fl_content_type = rc_content_type recording\<rparr>, cat'))
           | _ \<Rightarrow> (Join_Missing, cat)))"

definition complete_stored :: "fetch_claim \<Rightarrow> int \<Rightarrow> catalog \<Rightarrow> bool \<times> catalog" where
  "complete_stored fclaim now cat = complete_in (fl_lease fclaim) now STORED None cat"

definition settle :: "fetch_claim \<Rightarrow> int \<Rightarrow> catalog \<Rightarrow> fetch_outcome \<times> catalog" where
  "settle fclaim now cat = settle_fetch (fl_lease fclaim) now
     (recording_state (jl_key (fl_lease fclaim)) (ct_recordings cat)) cat"

definition fail_fetch :: "int list \<Rightarrow> fetch_claim \<Rightarrow> int \<Rightarrow> string \<Rightarrow> string \<Rightarrow> catalog
    \<Rightarrow> fetch_outcome \<times> catalog" where
  "fail_fetch delays fclaim now code state cat =
     (let lease = fl_lease fclaim in
      if state \<noteq> RETRY then end_fetch lease now state code cat
      else
        let attempt = jl_attempts lease + 1;
            retry_at = (if attempt \<le> length delays
                        then Some (now + delays ! (attempt - 1) * SECOND) else None)
        in if fl_source_kind fclaim = PAYLOAD_URL \<and>
              (case (retry_at, fl_url_expires fclaim) of
                 (Some at, Some expires) \<Rightarrow> at \<ge> expires | _ \<Rightarrow> False)
           then end_fetch lease now EXPIRED FETCH_URL_EXPIRED cat
           else (let (retried, t) = retry_job delays lease now code no_url (ct_fetches cat);
                     cat' = cat\<lparr>ct_fetches := t\<rparr>;
                     cat'' = (if retried = Some FAILED then fail_recording lease cat' else cat')
                 in (outcome_of lease retried (Some code), cat'')))"

definition release_leases :: "int \<Rightarrow> catalog \<Rightarrow> nat \<times> catalog" where
  "release_leases now cat =
     (let (n, t) = release_jobs now (ct_fetches cat) in (n, cat\<lparr>ct_fetches := t\<rparr>))"

text \<open>
  What other parts of the server do to these rows: \<open>hold_recording\<close> is the loop body of
  \<^verbatim>\<open>_hold_recordings\<close> (a known recording has its URL refreshed, a new one is inserted
  pending with its fetch), \<open>store_recording\<close> the update of \<^verbatim>\<open>finish_upload\<close>,
  \<open>expire_upload\<close> that of the upload deadline's sweep, \<open>purge_recording\<close> a deletion, which
  cascades to the fetch.
\<close>

definition refresh_url :: "rec_key \<Rightarrow> string option \<Rightarrow> int option \<Rightarrow> int \<Rightarrow> catalog \<Rightarrow> catalog" where
  "refresh_url k url expires now cat = (case url of
       None \<Rightarrow> cat
     | Some u \<Rightarrow> cat\<lparr>ct_fetches := snd (update_where
         (\<lambda>r. jr_key r = k \<and> fc_source_kind (jr_columns r) = PAYLOAD_URL \<and>
              jr_state r \<in> {PENDING, RUNNING} \<and> fc_url (jr_columns r) \<noteq> Some u)
         (\<lambda>r. r\<lparr>jr_updated := now,
                jr_columns := (jr_columns r)\<lparr>fc_url := Some u, fc_url_expires := expires\<rparr>\<rparr>)
         (ct_fetches cat))\<rparr>)"

definition MAX_REVISION_RECORDINGS :: nat where "MAX_REVISION_RECORDINGS = 16"

definition hold_recording :: "rec_key \<Rightarrow> string \<Rightarrow> string \<Rightarrow> fetch_columns \<Rightarrow> int \<Rightarrow> catalog
    \<Rightarrow> catalog" where
  "hold_recording k call_id content_type c now cat =
     (if recording_state k (ct_recordings cat) \<noteq> None
      then refresh_url k (fc_url c) (fc_url_expires c) now cat
      else if length (filter (\<lambda>r. fst (rc_key r) = fst k \<and> rc_call_id r = call_id)
                (ct_recordings cat)) \<ge> MAX_REVISION_RECORDINGS
      then cat
      else cat\<lparr>ct_recordings := ct_recordings cat
                 @ [\<lparr>rc_key = k, rc_call_id = call_id, rc_state = PENDING, rc_content_type = content_type\<rparr>],
               ct_fetches := ct_fetches cat @ [new_job k now c]\<rparr>)"

definition store_recording :: "rec_key \<Rightarrow> catalog \<Rightarrow> bool \<times> catalog" where
  "store_recording k cat =
     (let (n, rs) = update_where (\<lambda>r. rc_key r = k \<and> rc_state r = PENDING)
        (\<lambda>r. r\<lparr>rc_state := STORED\<rparr>) (ct_recordings cat)
      in (n \<noteq> 0, cat\<lparr>ct_recordings := rs\<rparr>))"

definition expire_upload :: "rec_key \<Rightarrow> catalog \<Rightarrow> catalog" where
  "expire_upload k cat = cat\<lparr>ct_recordings := snd (update_where
     (\<lambda>r. rc_key r = k \<and> rc_state r = PENDING) (\<lambda>r. r\<lparr>rc_state := FAILED\<rparr>)
     (ct_recordings cat))\<rparr>"

definition purge_recording :: "rec_key \<Rightarrow> catalog \<Rightarrow> catalog" where
  "purge_recording k cat = cat\<lparr>ct_recordings := filter (\<lambda>r. rc_key r \<noteq> k) (ct_recordings cat),
     ct_fetches := filter (\<lambda>r. jr_key r \<noteq> k) (ct_fetches cat)\<rparr>"


section \<open>Runs of the catalog\<close>

text \<open>
  \<open>fw_issued\<close> lists the leases handed out, \<open>fw_uploaded\<close> the tokens of the claims whose
  upload stored the recording; only those call \<open>complete_stored\<close>, as \<^verbatim>\<open>_fetch\<close> does. A
  failure is reported with one of the three states \<^verbatim>\<open>run_next\<close> passes.
\<close>

record fetch_world =
  fw_catalog :: catalog
  fw_issued :: "rec_key job_lease list"
  fw_claims :: "fetch_claim list"
  fw_uploaded :: "nat list"

inductive fetch_step :: "(string \<Rightarrow> json option) \<Rightarrow> (fetch_table \<Rightarrow> fetch_table) \<Rightarrow> int list
    \<Rightarrow> fetch_world \<Rightarrow> fetch_world \<Rightarrow> bool"
  for json_loads eng delays where
  Take: "\<lbrakk>claim_fetch json_loads eng lease_nano now draw (fw_catalog w) = (Claimed c, cat);
          draw < TOKEN_RANGE; jl_token (fl_lease c) \<notin> jl_token ` set (fw_issued w)\<rbrakk> \<Longrightarrow>
     fetch_step json_loads eng delays w (w\<lparr>fw_catalog := cat, fw_claims := fw_claims w @ [c],
       fw_issued := fw_issued w @ [fl_lease c]\<rparr>)"
| Take_End: "\<lbrakk>claim_fetch json_loads eng lease_nano now draw (fw_catalog w) = (Ended out, cat);
          claim eng (ct_fetches (fw_catalog w)) now (\<lambda>_. lease_nano) draw = (Some l, t);
          draw < TOKEN_RANGE; jl_token l \<notin> jl_token ` set (fw_issued w)\<rbrakk> \<Longrightarrow>
     fetch_step json_loads eng delays w (w\<lparr>fw_catalog := cat, fw_issued := fw_issued w @ [l]\<rparr>)"
| Upload: "\<lbrakk>c \<in> set (fw_claims w);
            store_recording (jl_key (fl_lease c)) (fw_catalog w) = (True, cat)\<rbrakk> \<Longrightarrow>
     fetch_step json_loads eng delays w (w\<lparr>fw_catalog := cat,
       fw_uploaded := fw_uploaded w @ [jl_token (fl_lease c)]\<rparr>)"
| Store: "store_recording k (fw_catalog w) = (ok, cat) \<Longrightarrow>
     fetch_step json_loads eng delays w (w\<lparr>fw_catalog := cat\<rparr>)"
| Done: "\<lbrakk>c \<in> set (fw_claims w); jl_token (fl_lease c) \<in> set (fw_uploaded w);
          complete_stored c now (fw_catalog w) = (ok, cat)\<rbrakk> \<Longrightarrow>
     fetch_step json_loads eng delays w (w\<lparr>fw_catalog := cat\<rparr>)"
| Settle: "\<lbrakk>c \<in> set (fw_claims w); settle c now (fw_catalog w) = (out, cat)\<rbrakk> \<Longrightarrow>
     fetch_step json_loads eng delays w (w\<lparr>fw_catalog := cat\<rparr>)"
| Fail: "\<lbrakk>c \<in> set (fw_claims w); state \<in> {RETRY, FAILED, EXPIRED};
          fail_fetch delays c now code state (fw_catalog w) = (out, cat)\<rbrakk> \<Longrightarrow>
     fetch_step json_loads eng delays w (w\<lparr>fw_catalog := cat\<rparr>)"
| Release: "release_leases now (fw_catalog w) = (n, cat) \<Longrightarrow>
     fetch_step json_loads eng delays w (w\<lparr>fw_catalog := cat\<rparr>)"
| Hold: "map_of (ct_connectors (fw_catalog w)) (fc_endpoint_id c) \<noteq> None \<Longrightarrow>
     fetch_step json_loads eng delays w
       (w\<lparr>fw_catalog := hold_recording k call_id content_type c now (fw_catalog w)\<rparr>)"
| Expire: "fetch_step json_loads eng delays w (w\<lparr>fw_catalog := expire_upload k (fw_catalog w)\<rparr>)"
| Purge: "fetch_step json_loads eng delays w (w\<lparr>fw_catalog := purge_recording k (fw_catalog w)\<rparr>)"

inductive_cases fetch_stepE: "fetch_step json_loads eng delays w w'"

definition new_catalog :: "(string \<times> (string \<times> string option)) list \<Rightarrow> fetch_world" where
  "new_catalog connectors = \<lparr>fw_catalog = \<lparr>ct_fetches = [], ct_recordings = [],
     ct_connectors = connectors\<rparr>, fw_issued = [], fw_claims = [], fw_uploaded = []\<rparr>"

definition fetches_reachable :: "(string \<Rightarrow> json option) \<Rightarrow> (fetch_table \<Rightarrow> fetch_table) \<Rightarrow> int list
    \<Rightarrow> fetch_world \<Rightarrow> bool" where
  "fetches_reachable json_loads eng delays w =
     (\<exists>connectors. (fetch_step json_loads eng delays)\<^sup>*\<^sup>* (new_catalog connectors) w)"

section \<open>The invariant\<close>

text \<open>How a fetch and its recording agree; \<open>up\<close> are the tokens of finished uploads.\<close>

definition ended_state :: "string \<Rightarrow> bool" where
  "ended_state st = (st \<in> {STORED, FAILED, EXPIRED})"

definition agree :: "nat set \<Rightarrow> (rec_key, fetch_columns) job_row \<Rightarrow> recording_row \<Rightarrow> bool" where
  "agree up row rec =
     (rc_key rec = jr_key row \<and> rc_state rec \<in> {PENDING, STORED, FAILED} \<and>
      (jr_state row \<in> {PENDING, RUNNING} \<or> ended_state (jr_state row)) \<and>
      (jr_state row = STORED \<longrightarrow> rc_state rec = STORED) \<and>
      (ended_state (jr_state row) \<longrightarrow> rc_state rec \<noteq> PENDING \<and> fc_url (jr_columns row) = None) \<and>
      (jr_state row = RUNNING \<and> jr_token row \<in> up \<longrightarrow> rc_state rec = STORED))"

definition row_agrees :: "nat set \<Rightarrow> catalog \<Rightarrow> (rec_key, fetch_columns) job_row \<Rightarrow> bool" where
  "row_agrees up cat row =
     ((\<exists>rec\<in>set (ct_recordings cat). agree up row rec) \<and>
      map_of (ct_connectors cat) (fc_endpoint_id (jr_columns row)) \<noteq> None)"

definition leases_ok :: "int list \<Rightarrow> rec_key job_lease list \<Rightarrow> fetch_table \<Rightarrow> bool" where
  "leases_ok delays issued t =
     (\<exists>ts. jobs_inv delays \<lparr>jw_table = t, jw_issued = issued, jw_settled = ts\<rparr>)"

definition fetch_inv :: "int list \<Rightarrow> fetch_world \<Rightarrow> bool" where
  "fetch_inv delays w =
     (leases_ok delays (fw_issued w) (ct_fetches (fw_catalog w)) \<and>
      distinct (map rc_key (ct_recordings (fw_catalog w))) \<and>
      (\<forall>row\<in>set (ct_fetches (fw_catalog w)). row_agrees (set (fw_uploaded w)) (fw_catalog w) row) \<and>
      set (fw_uploaded w) \<subseteq> jl_token ` set (fw_issued w) \<and>
      fl_lease ` set (fw_claims w) \<subseteq> set (fw_issued w))"

lemma fetch_states_distinct [simp]:
  "STORED \<noteq> PENDING" "PENDING \<noteq> STORED" "STORED \<noteq> RUNNING" "RUNNING \<noteq> STORED" "STORED \<noteq> FAILED"
  "FAILED \<noteq> STORED" "EXPIRED \<noteq> PENDING" "PENDING \<noteq> EXPIRED" "EXPIRED \<noteq> RUNNING" "RUNNING \<noteq> EXPIRED"
  "EXPIRED \<noteq> STORED" "STORED \<noteq> EXPIRED" "EXPIRED \<noteq> FAILED" "FAILED \<noteq> EXPIRED" "RETRY \<noteq> FAILED"
  "FAILED \<noteq> RETRY" "RETRY \<noteq> EXPIRED" "EXPIRED \<noteq> RETRY"
  by (simp_all add: STORED_def PENDING_def RUNNING_def FAILED_def EXPIRED_def RETRY_def)

lemma ended_state_simps [simp]:
  "ended_state STORED" "ended_state FAILED" "ended_state EXPIRED" "\<not> ended_state PENDING" "\<not> ended_state RUNNING"
  by (simp_all add: ended_state_def)

lemma leases_dist: "leases_ok delays issued t \<Longrightarrow> distinct (map jr_key t)"
  by (auto simp: leases_ok_def jobs_inv_def)

text \<open>The leased jobs' laws, over the leases alone.\<close>

lemma leases_claim:
  assumes "leases_ok delays issued t" "claim_effect now nano draw t l r t'"
    "jl_token l \<notin> jl_token ` set issued"
  shows "leases_ok delays (issued @ [l]) t'"
  using assms claim_inv [of delays "\<lparr>jw_table = t, jw_issued = issued, jw_settled = _\<rparr>" now nano draw l r t']
  unfolding leases_ok_def by fastforce

lemma leases_complete:
  assumes "leases_ok delays issued t" "l \<in> set issued" "ended_state state"
    "complete_job l now state code columns t = (ok, t')"
  shows "leases_ok delays issued t'"
proof -
  from assms(1) obtain ts where
    inv: "jobs_inv delays \<lparr>jw_table = t, jw_issued = issued, jw_settled = ts\<rparr>"
    by (auto simp: leases_ok_def)
  have "state \<noteq> PENDING" "state \<noteq> RUNNING" using assms(3) by auto
  with complete_inv [OF inv, of l state now code columns ok t'] assms(2,4) show ?thesis
    by (auto simp: leases_ok_def)
qed

lemma leases_retry:
  assumes "leases_ok delays issued t" "l \<in> set issued"
    "retry_job delays l now code columns t = (result, t')"
  shows "leases_ok delays issued t'"
proof -
  from assms(1) obtain ts where
    inv: "jobs_inv delays \<lparr>jw_table = t, jw_issued = issued, jw_settled = ts\<rparr>"
    by (auto simp: leases_ok_def)
  from retry_inv [OF inv, of l now code columns result t'] assms(2,3) show ?thesis
    by (auto simp: leases_ok_def)
qed

lemma leases_quiet:
  assumes "leases_ok delays issued t"
    "\<And>ts. job_step (\<lambda>t. t) delays \<lparr>jw_table = t, jw_issued = issued, jw_settled = ts\<rparr>
       \<lparr>jw_table = t', jw_issued = issued, jw_settled = ts\<rparr>"
  shows "leases_ok delays issued t'"
  using assms job_step_inv unfolding leases_ok_def by blast

lemma leases_token_key:
  assumes "leases_ok delays issued t" "r \<in> set t" "jr_state r = RUNNING" "l \<in> set issued"
    "jr_token r = jl_token l"
  shows "jr_key r = jl_key l"
proof -
  from assms(1-3) obtain l' where l': "last_lease issued (jr_key r) = Some l'" "jl_token l' = jr_token r"
    and dist: "distinct (map jl_token issued)"
    by (auto simp: leases_ok_def jobs_inv_def row_ok_def)
  with last_lease_mem [OF l'(1)] token_unique [OF dist, of l' l] assms(4,5) show ?thesis by auto
qed

text \<open>A recording that was pending becomes stored or failed.\<close>

definition set_pending :: "rec_key \<Rightarrow> string \<Rightarrow> recording_row list \<Rightarrow> recording_row list" where
  "set_pending k st rs =
     map (\<lambda>r. if rc_key r = k \<and> rc_state r = PENDING then r\<lparr>rc_state := st\<rparr> else r) rs"

lemma recording_ops:
  "fail_recording lease cat =
     cat\<lparr>ct_recordings := set_pending (jl_key lease) FAILED (ct_recordings cat)\<rparr>"
  "expire_upload k cat = cat\<lparr>ct_recordings := set_pending k FAILED (ct_recordings cat)\<rparr>"
  "store_recording k cat =
     (\<exists>r\<in>set (ct_recordings cat). rc_key r = k \<and> rc_state r = PENDING,
      cat\<lparr>ct_recordings := set_pending k STORED (ct_recordings cat)\<rparr>)"
  by (auto simp: fail_recording_def expire_upload_def store_recording_def update_where_def
      set_pending_def Let_def filter_empty_conv)

lemma keys_set_pending [simp]: "map rc_key (set_pending k st rs) = map rc_key rs"
  by (simp add: set_pending_def)

lemma agree_set_pending:
  assumes "agree up row rec" "st \<in> {STORED, FAILED}"
  shows "agree up row (if rc_key rec = k \<and> rc_state rec = PENDING then rec\<lparr>rc_state := st\<rparr> else rec)"
  using assms by (auto simp: agree_def)

lemma row_agrees_set_pending:
  assumes "row_agrees up cat row" "st \<in> {STORED, FAILED}"
  shows "row_agrees up (cat\<lparr>ct_recordings := set_pending k st (ct_recordings cat)\<rparr>) row"
  using assms(1) agree_set_pending [OF _ assms(2)] unfolding row_agrees_def set_pending_def by fastforce

lemma row_agrees_fetches [simp]:
  "row_agrees up (cat\<lparr>ct_fetches := t\<rparr>) row = row_agrees up cat row"
  "row_agrees up (cat\<lparr>ct_recordings := rs, ct_fetches := t\<rparr>) row =
   row_agrees up (cat\<lparr>ct_recordings := rs\<rparr>) row"
  by (simp_all add: row_agrees_def)

lemma recording_inv:
  assumes "fetch_inv delays w" "st \<in> {STORED, FAILED}"
  shows "fetch_inv delays (w\<lparr>fw_catalog := (fw_catalog w)
           \<lparr>ct_recordings := set_pending k st (ct_recordings (fw_catalog w))\<rparr>\<rparr>)"
  using assms row_agrees_set_pending by (simp add: fetch_inv_def)

text \<open>The recording of a row is the only one with its key.\<close>

lemma recording_unique:
  "\<lbrakk>distinct (map rc_key rs); rec \<in> set rs; rec' \<in> set rs; rc_key rec = rc_key rec'\<rbrakk> \<Longrightarrow> rec = rec'"
  by (auto simp: distinct_map dest: inj_onD)

text \<open>A write under a lease that ends the fetch, the recording following.\<close>

lemma row_agrees_write:
  assumes "row_agrees up cat row" "jr_key row' = jr_key row"
    "fc_endpoint_id (jr_columns row') = fc_endpoint_id (jr_columns row)"
    "\<And>rec. \<lbrakk>rec \<in> set (ct_recordings cat); agree up row rec\<rbrakk> \<Longrightarrow>
       \<exists>rec'\<in>set rs. agree up row' rec'"
  shows "row_agrees up (cat\<lparr>ct_recordings := rs\<rparr>) row'"
  using assms by (auto simp: row_agrees_def)

lemma complete_in_eq:
  assumes "distinct (map jr_key (ct_fetches cat))"
  shows "complete_in l now state code cat = (holds (ct_fetches cat) l,
    if holds (ct_fetches cat) l then cat\<lparr>ct_fetches := lease_write l (\<lambda>r. r\<lparr>jr_state := state,
      jr_error := code, jr_lease_until := None, jr_next_attempt := None, jr_updated := now,
      jr_columns := no_url (jr_columns r)\<rparr>) (ct_fetches cat)\<rparr> else cat)"
  by (simp add: complete_in_def complete_effect [OF assms])

lemma complete_in_leases:
  assumes "leases_ok delays issued (ct_fetches cat)" "l \<in> set issued" "ended_state state"
    "complete_in l now state code cat = (ok, cat')"
  shows "leases_ok delays issued (ct_fetches cat')"
  using assms leases_complete [OF assms(1-3)]
  by (auto simp: complete_in_def split: prod.splits)

lemma complete_in_rows:
  assumes dist: "distinct (map jr_key (ct_fetches cat))"
    and c: "complete_in l now state code cat = (True, cat')" and ended: "ended_state state"
    and rows: "\<forall>row\<in>set (ct_fetches cat). row_agrees up cat row"
    and mono: "\<And>row rec. agree up row rec \<Longrightarrow> agree up row (g rec)"
    and held: "\<And>row rec. \<lbrakk>row \<in> set (ct_fetches cat); lease_matches l row; agree up row rec;
        rec \<in> set (ct_recordings cat)\<rbrakk> \<Longrightarrow> rc_state (g rec) \<in> {STORED, FAILED} \<and>
        (state = STORED \<longrightarrow> rc_state (g rec) = STORED) \<and> rc_key (g rec) = rc_key rec"
  shows "\<forall>row\<in>set (ct_fetches cat').
    row_agrees up (cat'\<lparr>ct_recordings := map g (ct_recordings cat)\<rparr>) row"
proof
  fix row' assume "row' \<in> set (ct_fetches cat')"
  moreover have cat': "cat' = cat\<lparr>ct_fetches := lease_write l (\<lambda>r. r\<lparr>jr_state := state,
      jr_error := code, jr_lease_until := None, jr_next_attempt := None, jr_updated := now,
      jr_columns := no_url (jr_columns r)\<rparr>) (ct_fetches cat)\<rparr>"
    using c by (auto simp: complete_in_eq [OF dist])
  ultimately obtain row where row: "row \<in> set (ct_fetches cat)" and row': "row' =
      (if lease_matches l row then row\<lparr>jr_state := state, jr_error := code, jr_lease_until := None,
         jr_next_attempt := None, jr_updated := now, jr_columns := no_url (jr_columns row)\<rparr> else row)"
    by (auto simp: lease_write_def)
  from rows row obtain rec where rec: "rec \<in> set (ct_recordings cat)" "agree up row rec"
    and con: "map_of (ct_connectors cat) (fc_endpoint_id (jr_columns row)) \<noteq> None"
    by (auto simp: row_agrees_def)
  have "agree up row' (g rec)"
  proof (cases "lease_matches l row")
    case True
    from held [OF row True rec(2,1)] rec(2) ended row' True show ?thesis
      by (auto simp: agree_def no_url_def)
  qed (use mono rec row' in simp)
  with rec con row' show "row_agrees up (cat'\<lparr>ct_recordings := map g (ct_recordings cat)\<rparr>) row'"
    by (auto simp: row_agrees_def cat' no_url_def)
qed


definition cat_inv :: "int list \<Rightarrow> rec_key job_lease list \<Rightarrow> nat set \<Rightarrow> catalog \<Rightarrow> bool" where
  "cat_inv delays issued up cat =
     (leases_ok delays issued (ct_fetches cat) \<and> distinct (map rc_key (ct_recordings cat)) \<and>
      (\<forall>row\<in>set (ct_fetches cat). row_agrees up cat row))"

lemma fetch_inv_iff:
  "fetch_inv delays w = (cat_inv delays (fw_issued w) (set (fw_uploaded w)) (fw_catalog w) \<and>
     set (fw_uploaded w) \<subseteq> jl_token ` set (fw_issued w) \<and>
     fl_lease ` set (fw_claims w) \<subseteq> set (fw_issued w))"
  by (auto simp: fetch_inv_def cat_inv_def)

lemma complete_stored_inv:
  assumes inv: "cat_inv delays issued up cat" and l: "l \<in> set issued"
    and stored: "\<And>row rec. \<lbrakk>row \<in> set (ct_fetches cat); lease_matches l row;
        rec \<in> set (ct_recordings cat); agree up row rec\<rbrakk> \<Longrightarrow> rc_state rec = STORED"
    and c: "complete_in l now STORED code cat = (ok, cat')"
  shows "cat_inv delays issued up cat'"
proof (cases ok)
  case True
  with c have ct: "complete_in l now STORED code cat = (True, cat')" by simp
  have dist: "distinct (map jr_key (ct_fetches cat))"
    using inv leases_dist by (auto simp: cat_inv_def)
  have rows: "\<forall>row\<in>set (ct_fetches cat').
      row_agrees up (cat'\<lparr>ct_recordings := map (\<lambda>r. r) (ct_recordings cat)\<rparr>) row"
    by (rule complete_in_rows [OF dist ct])
       (use inv stored in \<open>auto simp: cat_inv_def\<close>)
  have recs: "ct_recordings cat' = ct_recordings cat"
    using c by (auto simp: complete_in_eq [OF dist] split: if_splits)
  have same: "cat'\<lparr>ct_recordings := map (\<lambda>r. r) (ct_recordings cat)\<rparr> = cat'"
    by (simp add: recs [symmetric])
  show ?thesis
    using inv rows [unfolded same] complete_in_leases [OF _ l _ c] by (simp add: cat_inv_def recs)
next
  case False
  have dist: "distinct (map jr_key (ct_fetches cat))"
    using inv leases_dist by (auto simp: cat_inv_def)
  with c False inv show ?thesis by (auto simp: complete_in_eq [OF dist] split: if_splits)
qed

lemma end_fetch_inv:
  assumes inv: "cat_inv delays issued up cat" and l: "l \<in> set issued"
    and st: "state \<in> {FAILED, EXPIRED}" and e: "end_fetch l now state code cat = (out, cat')"
  shows "cat_inv delays issued up cat'"
proof -
  have dist: "distinct (map jr_key (ct_fetches cat))"
    using inv leases_dist by (auto simp: cat_inv_def)
  have t: "ended_state state" using st by auto
  obtain ok cat1 where c: "complete_in l now state (Some code) cat = (ok, cat1)" by fastforce
  show ?thesis
  proof (cases ok)
    case True
    let ?g = "\<lambda>r. if rc_key r = jl_key l \<and> rc_state r = PENDING then r\<lparr>rc_state := FAILED\<rparr> else r"
    have recs: "ct_recordings cat1 = ct_recordings cat"
      using c by (auto simp: complete_in_eq [OF dist] split: if_splits)
    then have cat': "cat' = cat1\<lparr>ct_recordings := map ?g (ct_recordings cat)\<rparr>"
      using e c True by (simp add: end_fetch_def recording_ops set_pending_def)
    have "\<forall>row\<in>set (ct_fetches cat1). row_agrees up (cat1\<lparr>ct_recordings := map ?g (ct_recordings cat)\<rparr>) row"
    proof (rule complete_in_rows [OF dist _ t])
      show "complete_in l now state (Some code) cat = (True, cat1)" using c True by simp
      show "\<forall>row\<in>set (ct_fetches cat). row_agrees up cat row" using inv by (simp add: cat_inv_def)
      show "agree up row (?g rec)" if "agree up row rec" for row rec
        using agree_set_pending [OF that, of FAILED] by simp
      show "rc_state (?g rec) \<in> {STORED, FAILED} \<and> (state = STORED \<longrightarrow> rc_state (?g rec) = STORED) \<and>
          rc_key (?g rec) = rc_key rec"
        if "lease_matches l row" "agree up row rec" for row rec
        using that st by (auto simp: lease_matches_def agree_def)
    qed
    moreover have "distinct (map rc_key (map ?g (ct_recordings cat)))"
      using inv unfolding set_pending_def [symmetric] keys_set_pending by (simp add: cat_inv_def)
    moreover have "leases_ok delays issued (ct_fetches cat1)"
      using inv complete_in_leases [OF _ l t c] by (simp add: cat_inv_def)
    ultimately show ?thesis unfolding cat' by (simp add: cat_inv_def)
  next
    case False
    with e c inv show ?thesis by (auto simp: end_fetch_def complete_in_eq [OF dist] split: if_splits)
  qed
qed

lemma recording_state_Some:
  assumes "distinct (map rc_key rs)" "recording_state k rs = Some st" "rec \<in> set rs" "rc_key rec = k"
  shows "rc_state rec = st"
proof -
  from assms(2) obtain rec' where "find (\<lambda>r. rc_key r = k) rs = Some rec'" "rc_state rec' = st"
    by (auto simp: recording_state_def)
  then have "rec' \<in> set rs" "rc_key rec' = k" by (auto simp: find_Some_iff)
  with recording_unique [OF assms(1) assms(3)] assms(4) \<open>rc_state rec' = st\<close> show ?thesis by auto
qed

lemma settle_fetch_inv:
  assumes inv: "cat_inv delays issued up cat" and l: "l \<in> set issued"
    and s: "settle_fetch l now recording cat = (out, cat')"
    and stored: "\<And>row rec. \<lbrakk>recording = Some STORED; row \<in> set (ct_fetches cat); lease_matches l row;
        rec \<in> set (ct_recordings cat); agree up row rec\<rbrakk> \<Longrightarrow> rc_state rec = STORED"
  shows "cat_inv delays issued up cat'"
proof (cases "recording = Some STORED")
  case True
  obtain ok cat1 where c: "complete_in l now STORED None cat = (ok, cat1)" by fastforce
  from complete_stored_inv [OF inv l stored [OF True] c] s c True show ?thesis
    by (simp add: settle_fetch_def)
next
  case False
  show ?thesis
  proof (cases "recording = Some FAILED")
    case True
    with s have "end_fetch l now FAILED FETCH_RECORDING_FAILED cat = (out, cat')"
      by (simp add: settle_fetch_def)
    from end_fetch_inv [OF inv l _ this] show ?thesis by simp
  qed (use False s inv in \<open>simp add: settle_fetch_def\<close>)
qed

lemma retry_fetch_inv:
  assumes inv: "cat_inv delays issued up cat" and l: "l \<in> set issued"
    and r: "retry_job delays l now code no_url (ct_fetches cat) = (retried, t)"
    and cat': "cat' = (if retried = Some FAILED then fail_recording l (cat\<lparr>ct_fetches := t\<rparr>)
                 else cat\<lparr>ct_fetches := t\<rparr>)"
  shows "cat_inv delays issued up cat'"
proof -
  have lo: "leases_ok delays issued (ct_fetches cat)" using inv by (simp add: cat_inv_def)
  note dist = leases_dist [OF lo]
  have lo': "leases_ok delays issued t" by (rule leases_retry [OF lo l r])
  note r' = r [unfolded retry_effect [OF dist]]
  let ?rs = "if retried = Some FAILED then set_pending (jl_key l) FAILED (ct_recordings cat)
    else ct_recordings cat"
  have cat'_eq: "cat' = cat\<lparr>ct_recordings := ?rs, ct_fetches := t\<rparr>"
    by (simp add: cat' recording_ops)
  have "row_agrees up (cat\<lparr>ct_recordings := ?rs\<rparr>) row'" if row': "row' \<in> set t" for row'
  proof -
    have "\<exists>row\<in>set (ct_fetches cat). jr_key row' = jr_key row \<and>
        fc_endpoint_id (jr_columns row') = fc_endpoint_id (jr_columns row) \<and>
        (row' = row \<or> lease_matches l row \<and>
          (jr_state row' = PENDING \<and> retried \<noteq> Some FAILED \<or>
           jr_state row' = FAILED \<and> retried = Some FAILED \<and> fc_url (jr_columns row') = None))"
    proof -
      from r' consider (lost) "t = ct_fetches cat" | (wrote) f where "t = lease_write l f (ct_fetches cat)"
        "\<And>r. jr_key (f r) = jr_key r \<and> fc_endpoint_id (jr_columns (f r)) = fc_endpoint_id (jr_columns r) \<and>
          (jr_state (f r) = PENDING \<and> retried \<noteq> Some FAILED \<or>
           jr_state (f r) = FAILED \<and> retried = Some FAILED \<and> fc_url (jr_columns (f r)) = None)"
        by (auto simp: no_url_def split: if_splits)
      then show ?thesis
      proof cases
        case (wrote f)
        from row' obtain row where "row \<in> set (ct_fetches cat)"
            "row' = (if lease_matches l row then f row else row)"
          by (auto simp: wrote(1) lease_write_def)
        with wrote(2) show ?thesis by (intro bexI [of _ row]) auto
      qed (use row' in blast)
    qed
    then obtain row where row: "row \<in> set (ct_fetches cat)" "jr_key row' = jr_key row"
        "fc_endpoint_id (jr_columns row') = fc_endpoint_id (jr_columns row)"
      and form: "row' = row \<or> lease_matches l row \<and>
          (jr_state row' = PENDING \<and> retried \<noteq> Some FAILED \<or>
           jr_state row' = FAILED \<and> retried = Some FAILED \<and> fc_url (jr_columns row') = None)"
      by blast
    have base: "row_agrees up cat row" using inv row(1) by (simp add: cat_inv_def)
    show ?thesis
    proof (rule row_agrees_write [OF base row(2,3)])
      fix rec assume rec: "rec \<in> set (ct_recordings cat)" "agree up row rec"
      show "\<exists>rec'\<in>set ?rs. agree up row' rec'"
      proof (cases "retried = Some FAILED")
        case True
        let ?rec = "if rc_key rec = jl_key l \<and> rc_state rec = PENDING then rec\<lparr>rc_state := FAILED\<rparr> else rec"
        have "agree up row ?rec" by (rule agree_set_pending [OF rec(2)]) simp
        with form True rec(2) row(2) have "agree up row' ?rec"
          by (auto simp: agree_def lease_matches_def)
        moreover have "?rec \<in> set ?rs" using True rec(1) by (simp add: set_pending_def)
        ultimately show ?thesis by blast
      next
        case False
        with form rec row(2) show ?thesis by (auto simp: agree_def lease_matches_def)
      qed
    qed
  qed
  then show ?thesis using lo' inv unfolding cat'_eq cat_inv_def by (simp add: if_distrib)
qed


lemma claimed_inv:
  assumes inv: "cat_inv delays issued up cat"
    and c: "claim eng (ct_fetches cat) now nano draw = (Some l, t)"
    and fresh: "jl_token l \<notin> jl_token ` set issued" and up: "up \<subseteq> jl_token ` set issued"
  shows "cat_inv delays (issued @ [l]) up (cat\<lparr>ct_fetches := t\<rparr>)"
proof -
  have lo: "leases_ok delays issued (ct_fetches cat)" using inv by (simp add: cat_inv_def)
  show ?thesis
  proof (cases rule: claim_cases [OF leases_dist [OF lo] c])
    case (2 l' r)
    then have ce: "claim_effect now nano draw (ct_fetches cat) l r t" by simp
    have "row_agrees up cat row'" if row': "row' \<in> set t" for row'
    proof -
      from ce row' obtain row where row: "row \<in> set (ct_fetches cat)"
          "row' = (if jr_key row = jr_key r then claimed_row l now row else row)"
        by (auto simp: claim_effect_def)
      have base: "row_agrees up cat row" using inv row(1) by (simp add: cat_inv_def)
      have "jr_key row = jr_key r \<Longrightarrow> row = r"
        using key_unique [OF leases_dist [OF lo] row(1)] ce by (auto simp: claim_effect_def)
      then have live: "jr_key row = jr_key r \<Longrightarrow> \<not> ended_state (jr_state row)"
        using ce claimable_not_terminal [of now r] by (auto simp: claim_effect_def)
      show ?thesis
      proof (cases "jr_key row = jr_key r")
        case True
        with base row(2) live fresh up show ?thesis
          by (auto simp: row_agrees_def agree_def claimed_row_def)
      qed (use base row in simp)
    qed
    then show ?thesis using leases_claim [OF lo ce fresh] inv by (simp add: cat_inv_def)
  qed simp
qed

lemma claim_fetch_inv:
  assumes inv: "cat_inv delays issued up cat"
    and f: "claim_fetch json_loads eng lease_nano now draw cat = (res, cat')"
    and c: "claim eng (ct_fetches cat) now (\<lambda>_. lease_nano) draw = (Some l, t)"
    and res: "res \<noteq> Join_Missing"
    and fresh: "jl_token l \<notin> jl_token ` set issued" and up: "up \<subseteq> jl_token ` set issued"
  shows "cat_inv delays (issued @ [l]) up cat' \<or> res = Nothing_Due"
proof (cases "due eng (ct_fetches cat) now 1 = []")
  case False
  let ?cat = "cat\<lparr>ct_fetches := t\<rparr>"
  note inv1 = claimed_inv [OF inv c fresh up]
  have l: "l \<in> set (issued @ [l])" by simp
  from f c False res obtain row recording where
      rec: "find (\<lambda>r. rc_key r = jl_key l) (ct_recordings cat) = Some recording"
    and cases: "(\<exists>out. settle_fetch l now (Some (rc_state recording)) ?cat = (out, cat')) \<or>
      (\<exists>out. end_fetch l now EXPIRED FETCH_URL_EXPIRED ?cat = (out, cat')) \<or> cat' = ?cat"
    by (auto simp: claim_fetch_def Let_def split: option.splits if_splits prod.splits)
  from cases consider (settled) out where "settle_fetch l now (Some (rc_state recording)) ?cat = (out, cat')"
    | (ended) out where "end_fetch l now EXPIRED FETCH_URL_EXPIRED ?cat = (out, cat')" | "cat' = ?cat"
    by blast
  then show ?thesis
  proof cases
    case settled
    have "rc_state rec = STORED" if "Some (rc_state recording) = Some STORED" "lease_matches l row"
        "rec \<in> set (ct_recordings ?cat)" "agree up row rec" for row rec
    proof -
      have "recording \<in> set (ct_recordings cat)" "rc_key recording = jl_key l"
        using rec by (auto simp: find_Some_iff)
      with that recording_unique [of "ct_recordings cat" rec recording] inv
      have "rec = recording" by (auto simp: cat_inv_def agree_def lease_matches_def)
      with that show ?thesis by simp
    qed
    with settle_fetch_inv [OF inv1 l settled] show ?thesis by blast
  next
    case ended
    from end_fetch_inv [OF inv1 l _ ended] show ?thesis by simp
  next
    case 3
    with inv1 show ?thesis by simp
  qed
qed (use f in \<open>simp add: claim_fetch_def\<close>)

lemma quiet_fetches:
  assumes "cat_inv delays issued up cat"
    "\<And>ts. job_step (\<lambda>t. t) delays \<lparr>jw_table = ct_fetches cat, jw_issued = issued, jw_settled = ts\<rparr>
       \<lparr>jw_table = t', jw_issued = issued, jw_settled = ts\<rparr>"
    "\<And>row'. row' \<in> set t' \<Longrightarrow> row_agrees up cat row'"
  shows "cat_inv delays issued up (cat\<lparr>ct_fetches := t'\<rparr>)"
  using assms leases_quiet [OF _ assms(2)] by (simp add: cat_inv_def)

lemma row_agrees_live:
  assumes "row_agrees up cat row" "jr_state row \<in> {PENDING, RUNNING}" "jr_key row' = jr_key row"
    "fc_endpoint_id (jr_columns row') = fc_endpoint_id (jr_columns row)"
    "jr_state row' = PENDING \<or> jr_state row' = jr_state row \<and> jr_token row' = jr_token row"
  shows "row_agrees up cat row'"
  using assms by (auto simp: row_agrees_def agree_def)

lemma release_leases_inv:
  assumes inv: "cat_inv delays issued up cat" and r: "release_leases now cat = (n, cat')"
  shows "cat_inv delays issued up cat'"
proof -
  obtain t where t: "release_jobs now (ct_fetches cat) = (n, t)" "cat' = cat\<lparr>ct_fetches := t\<rparr>"
    using r by (auto simp: release_leases_def split: prod.splits)
  show ?thesis unfolding t(2)
  proof (rule quiet_fetches [OF inv])
    show "job_step (\<lambda>t. t) delays \<lparr>jw_table = ct_fetches cat, jw_issued = issued, jw_settled = ts\<rparr>
       \<lparr>jw_table = t, jw_issued = issued, jw_settled = ts\<rparr>" for ts
      using job_step.Release [of now "\<lparr>jw_table = ct_fetches cat, jw_issued = issued, jw_settled = ts\<rparr>" n t] t(1)
      by simp
    show "row_agrees up cat row'" if "row' \<in> set t" for row'
    proof -
      from that t(1) obtain row where row: "row \<in> set (ct_fetches cat)"
          "row' = (if jr_state row = RUNNING then row\<lparr>jr_state := PENDING, jr_lease_until := None,
             jr_next_attempt := None, jr_updated := now\<rparr> else row)"
        by (auto simp: release_jobs_def update_where_def)
      then have "row_agrees up cat row" using inv by (simp add: cat_inv_def)
      with row(2) row_agrees_live [of up cat row row'] show ?thesis
        by (cases "jr_state row = RUNNING") simp_all
    qed
  qed
qed

lemma refresh_url_inv:
  assumes inv: "cat_inv delays issued up cat"
  shows "cat_inv delays issued up (refresh_url k url expires now cat)"
proof (cases url)
  case (Some u)
  let ?p = "\<lambda>r. jr_key r = k \<and> fc_source_kind (jr_columns r) = PAYLOAD_URL \<and>
      jr_state r \<in> {PENDING, RUNNING} \<and> fc_url (jr_columns r) \<noteq> Some u"
  let ?f = "\<lambda>c. c\<lparr>fc_url := Some u, fc_url_expires := expires\<rparr>"
  show ?thesis unfolding refresh_url_def Some option.case
  proof (rule quiet_fetches [OF inv])
    show "job_step (\<lambda>t. t) delays \<lparr>jw_table = ct_fetches cat, jw_issued = issued, jw_settled = ts\<rparr>
       \<lparr>jw_table = snd (update_where ?p (\<lambda>r. r\<lparr>jr_updated := now, jr_columns := ?f (jr_columns r)\<rparr>)
          (ct_fetches cat)), jw_issued = issued, jw_settled = ts\<rparr>" for ts
      using job_step.Owner [where w = "\<lparr>jw_table = ct_fetches cat, jw_issued = issued, jw_settled = ts\<rparr>"
          and p = ?p and now = now and columns = ?f] by simp
    show "row_agrees up cat row'"
      if row': "row' \<in> set (snd (update_where ?p (\<lambda>r. r\<lparr>jr_updated := now, jr_columns := ?f (jr_columns r)\<rparr>)
          (ct_fetches cat)))" for row'
    proof -
      from row' obtain row where row: "row \<in> set (ct_fetches cat)"
          "row' = (if ?p row then row\<lparr>jr_updated := now, jr_columns := ?f (jr_columns row)\<rparr> else row)"
        unfolding update_where_def by auto
      then have base: "row_agrees up cat row" using inv by (simp add: cat_inv_def)
      show ?thesis
      proof (cases "?p row")
        case True
        show ?thesis unfolding row(2) if_P [OF True]
          by (rule row_agrees_live [OF base]) (use True in auto)
      next
        case False
        show ?thesis unfolding row(2) if_not_P [OF False] by (rule base)
      qed
    qed
  qed
qed (use inv in \<open>simp add: refresh_url_def\<close>)


lemma row_recording:
  assumes "cat_inv delays issued up cat" "row \<in> set (ct_fetches cat)"
  obtains rec where "rec \<in> set (ct_recordings cat)" "agree up row rec" "rc_key rec = jr_key row"
    "map_of (ct_connectors cat) (fc_endpoint_id (jr_columns row)) \<noteq> None"
proof -
  have "row_agrees up cat row" using assms by (simp add: cat_inv_def)
  then show ?thesis using that by (auto simp: row_agrees_def agree_def)
qed

lemma hold_recording_inv:
  assumes inv: "cat_inv delays issued up cat"
    and con: "map_of (ct_connectors cat) (fc_endpoint_id c) \<noteq> None"
  shows "cat_inv delays issued up (hold_recording k call_id content_type c now cat)"
proof (cases "recording_state k (ct_recordings cat) = None")
  case True
  then have new: "k \<notin> rc_key ` set (ct_recordings cat)"
    by (auto simp: recording_state_def find_None_iff)
  have newrow: "k \<notin> jr_key ` set (ct_fetches cat)"
  proof
    assume "k \<in> jr_key ` set (ct_fetches cat)"
    then obtain row where "row \<in> set (ct_fetches cat)" "jr_key row = k" by auto
    with new show False using row_recording [OF inv] by (metis image_eqI)
  qed
  have "leases_ok delays issued (ct_fetches cat @ [new_job k now c])"
  proof (rule leases_quiet)
    show "leases_ok delays issued (ct_fetches cat)" using inv by (simp add: cat_inv_def)
    show "job_step (\<lambda>t. t) delays \<lparr>jw_table = ct_fetches cat, jw_issued = issued, jw_settled = ts\<rparr>
      \<lparr>jw_table = ct_fetches cat @ [new_job k now c], jw_issued = issued, jw_settled = ts\<rparr>" for ts
      using job_step.Insert [where w = "\<lparr>jw_table = ct_fetches cat, jw_issued = issued, jw_settled = ts\<rparr>"
          and k = k and now = now and x = c] newrow by simp
  qed
  moreover have "row_agrees up (cat\<lparr>ct_recordings := ct_recordings cat @ [r]\<rparr>) row"
    if "row \<in> set (ct_fetches cat)" for row r
    using inv that by (auto simp: cat_inv_def row_agrees_def)
  moreover have "row_agrees up (cat\<lparr>ct_recordings := ct_recordings cat
      @ [\<lparr>rc_key = k, rc_call_id = call_id, rc_state = PENDING, rc_content_type = content_type\<rparr>]\<rparr>) (new_job k now c)"
    using con by (simp add: row_agrees_def agree_def new_job_def)
  ultimately show ?thesis using True new inv by (simp add: cat_inv_def hold_recording_def Let_def)
next
  case False
  then show ?thesis using refresh_url_inv [OF inv] by (simp add: hold_recording_def)
qed

lemma purge_recording_inv:
  assumes inv: "cat_inv delays issued up cat"
  shows "cat_inv delays issued up (purge_recording k cat)"
proof -
  have "leases_ok delays issued (filter (\<lambda>r. jr_key r \<noteq> k) (ct_fetches cat))"
  proof (rule leases_quiet)
    show "leases_ok delays issued (ct_fetches cat)" using inv by (simp add: cat_inv_def)
    show "job_step (\<lambda>t. t) delays \<lparr>jw_table = ct_fetches cat, jw_issued = issued, jw_settled = ts\<rparr>
      \<lparr>jw_table = filter (\<lambda>r. jr_key r \<noteq> k) (ct_fetches cat), jw_issued = issued, jw_settled = ts\<rparr>" for ts
      using job_step.Delete [where w = "\<lparr>jw_table = ct_fetches cat, jw_issued = issued, jw_settled = ts\<rparr>"
          and k = k] by simp
  qed
  moreover have "row_agrees up (purge_recording k cat) row"
    if "row \<in> set (ct_fetches cat)" "jr_key row \<noteq> k" for row
  proof (rule row_recording [OF inv that(1)])
    fix rec assume "rec \<in> set (ct_recordings cat)" "agree up row rec" "rc_key rec = jr_key row"
      "map_of (ct_connectors cat) (fc_endpoint_id (jr_columns row)) \<noteq> None"
    with that(2) show ?thesis by (auto simp: row_agrees_def purge_recording_def)
  qed
  ultimately show ?thesis using inv
    by (auto simp: cat_inv_def purge_recording_def distinct_map_filter)
qed

lemma cat_inv_set_pending:
  assumes "cat_inv delays issued up cat" "st \<in> {STORED, FAILED}"
  shows "cat_inv delays issued up (cat\<lparr>ct_recordings := set_pending k st (ct_recordings cat)\<rparr>)"
  using assms row_agrees_set_pending by (simp add: cat_inv_def)

text \<open>A finished upload: the recording of the claim's fetch is stored.\<close>

lemma upload_inv:
  assumes inv: "cat_inv delays issued up cat" and l: "l \<in> set issued"
    and pend: "\<exists>r\<in>set (ct_recordings cat). rc_key r = jl_key l \<and> rc_state r = PENDING"
  shows "cat_inv delays issued (insert (jl_token l) up)
    (cat\<lparr>ct_recordings := set_pending (jl_key l) STORED (ct_recordings cat)\<rparr>)"
proof -
  let ?cat = "cat\<lparr>ct_recordings := set_pending (jl_key l) STORED (ct_recordings cat)\<rparr>"
  have base: "cat_inv delays issued up ?cat" by (rule cat_inv_set_pending [OF inv]) simp
  have "row_agrees (insert (jl_token l) up) ?cat row" if row: "row \<in> set (ct_fetches cat)" for row
  proof -
    from base row have ra: "row_agrees up ?cat row" by (simp add: cat_inv_def)
    show ?thesis
    proof (cases "jr_state row = RUNNING \<and> jr_token row = jl_token l")
      case True
      have key: "jr_key row = jl_key l"
        using leases_token_key [of delays issued "ct_fetches cat" row l] inv row l True
        by (simp add: cat_inv_def)
      from ra obtain rec where rec: "rec \<in> set (set_pending (jl_key l) STORED (ct_recordings cat))"
          "agree up row rec" by (auto simp: row_agrees_def)
      then obtain rec0 where rec0: "rec0 \<in> set (ct_recordings cat)" "rec =
          (if rc_key rec0 = jl_key l \<and> rc_state rec0 = PENDING then rec0\<lparr>rc_state := STORED\<rparr> else rec0)"
        by (auto simp: set_pending_def)
      have "rc_key rec0 = jl_key l" using rec(2) rec0(2) key by (auto simp: agree_def split: if_splits)
      moreover obtain r where r: "r \<in> set (ct_recordings cat)" "rc_key r = jl_key l" "rc_state r = PENDING"
        using pend by blast
      ultimately have "r = rec0"
        using recording_unique [of "ct_recordings cat" r rec0] inv rec0(1) by (simp add: cat_inv_def)
      with r have "rc_state rec0 = PENDING" by simp
      with rec0 \<open>rc_key rec0 = jl_key l\<close> have "rc_state rec = STORED" by simp
      with rec have "agree (insert (jl_token l) up) row rec" by (simp add: agree_def)
      with rec ra show ?thesis by (auto simp: row_agrees_def)
    next
      case False
      then have "agree (insert (jl_token l) up) row rec = agree up row rec" for rec
        by (auto simp: agree_def)
      with ra show ?thesis by (simp add: row_agrees_def)
    qed
  qed
  then show ?thesis using base by (simp add: cat_inv_def)
qed


lemma fail_fetch_inv:
  assumes inv: "cat_inv delays issued up cat" and l: "fl_lease c \<in> set issued"
    and st: "state \<in> {RETRY, FAILED, EXPIRED}"
    and f: "fail_fetch delays c now code state cat = (out, cat')"
  shows "cat_inv delays issued up cat'"
proof -
  obtain retried t where r: "retry_job delays (fl_lease c) now code no_url (ct_fetches cat) = (retried, t)"
    by fastforce
  from f st have "(\<exists>st' code'. st' \<in> {FAILED, EXPIRED} \<and>
        end_fetch (fl_lease c) now st' code' cat = (out, cat')) \<or>
      cat' = (if retried = Some FAILED then fail_recording (fl_lease c) (cat\<lparr>ct_fetches := t\<rparr>)
              else cat\<lparr>ct_fetches := t\<rparr>)"
    unfolding fail_fetch_def Let_def r prod.case by (auto split: if_splits)
  then show ?thesis using end_fetch_inv [OF inv l] retry_fetch_inv [OF inv l r] by blast
qed

lemma claim_fetch_Claimed:
  assumes "claim_fetch json_loads eng lease_nano now draw cat = (Claimed c, cat')"
  obtains t where "claim eng (ct_fetches cat) now (\<lambda>_. lease_nano) draw = (Some (fl_lease c), t)"
    "cat' = cat\<lparr>ct_fetches := t\<rparr>"
  using assms by (auto simp: claim_fetch_def Let_def split: option.splits if_splits prod.splits)

lemma fetch_step_inv:
  assumes "fetch_step json_loads eng delays w w'" "fetch_inv delays w"
  shows "fetch_inv delays w'"
proof -
  let ?cat = "fw_catalog w" and ?up = "set (fw_uploaded w)"
  have inv: "cat_inv delays (fw_issued w) ?up ?cat" and up: "?up \<subseteq> jl_token ` set (fw_issued w)"
    and cl: "fl_lease ` set (fw_claims w) \<subseteq> set (fw_issued w)"
    using assms(2) by (auto simp: fetch_inv_iff)
  note lease = cl [THEN subsetD, OF imageI]
  have quiet: "cat_inv delays (fw_issued w) ?up cat \<Longrightarrow> fetch_inv delays (w\<lparr>fw_catalog := cat\<rparr>)" for cat
    using up cl by (simp add: fetch_inv_iff)
  show ?thesis using assms(1)
  proof (rule fetch_stepE, goal_cases)
    case (1 lease_nano now draw c cat)
    obtain t where "claim eng (ct_fetches ?cat) now (\<lambda>_. lease_nano) draw = (Some (fl_lease c), t)"
      using claim_fetch_Claimed [OF 1(2)] by blast
    from claim_fetch_inv [OF inv 1(2) this _ 1(4) up] 1(1) up cl show ?thesis
      by (auto simp: fetch_inv_iff)
  next
    case (2 lease_nano now draw out cat l t)
    from claim_fetch_inv [OF inv 2(2,3) _ 2(5) up] 2(1) up cl show ?thesis
      by (auto simp: fetch_inv_iff)
  next
    case (3 c cat)
    from 3(3) upload_inv [OF inv lease [OF 3(2)]]
    have "cat_inv delays (fw_issued w) (insert (jl_token (fl_lease c)) ?up) cat"
      by (auto simp: recording_ops)
    with 3(1) up cl lease [OF 3(2)] show ?thesis by (simp add: fetch_inv_iff)
  next
    case (4 k ok cat)
    with cat_inv_set_pending [OF inv, of STORED k] show ?thesis
      by (auto simp: recording_ops intro!: quiet)
  next
    case (5 c now ok cat)
    have "cat_inv delays (fw_issued w) ?up cat"
    proof (rule complete_stored_inv [OF inv lease [OF 5(2)]])
      show "complete_in (fl_lease c) now STORED None ?cat = (ok, cat)"
        using 5(4) by (simp add: complete_stored_def)
      show "rc_state rec = STORED" if "lease_matches (fl_lease c) row" "agree ?up row rec" for row rec
        using that 5(3) by (simp add: lease_matches_def agree_def)
    qed
    with 5(1) show ?thesis by (simp add: quiet)
  next
    case (6 c now out cat)
    have "cat_inv delays (fw_issued w) ?up cat"
    proof (rule settle_fetch_inv [OF inv lease [OF 6(2)] 6(3) [unfolded settle_def]])
      fix row rec
      assume a: "recording_state (jl_key (fl_lease c)) (ct_recordings ?cat) = Some STORED"
        "lease_matches (fl_lease c) row" "rec \<in> set (ct_recordings ?cat)" "agree ?up row rec"
      then have "rc_key rec = jl_key (fl_lease c)" by (auto simp: lease_matches_def agree_def)
      with recording_state_Some [OF _ a(1,3)] inv show "rc_state rec = STORED"
        by (simp add: cat_inv_def)
    qed
    with 6(1) show ?thesis by (simp add: quiet)
  next
    case (7 c state now code out cat)
    then have st: "state \<in> {RETRY, FAILED, EXPIRED}" by simp
    from fail_fetch_inv [OF inv lease [OF 7(2)] st 7(4)] 7(1) show ?thesis by (simp add: quiet)
  next
    case (8 now n cat)
    with release_leases_inv [OF inv 8(2)] show ?thesis by (simp add: quiet)
  next
    case (9 c k call_id content_type now)
    then have "map_of (ct_connectors ?cat) (fc_endpoint_id c) \<noteq> None" by simp
    from hold_recording_inv [OF inv this] 9(1) show ?thesis by (simp add: quiet)
  next
    case (10 k)
    with cat_inv_set_pending [OF inv, of FAILED k] show ?thesis by (simp add: recording_ops quiet)
  next
    case (11 k)
    with purge_recording_inv [OF inv] show ?thesis by (simp add: quiet)
  qed
qed

lemma fetch_inv_reachable:
  assumes "fetches_reachable json_loads eng delays w"
  shows "fetch_inv delays w"
proof -
  from assms obtain connectors where
    "(fetch_step json_loads eng delays)\<^sup>*\<^sup>* (new_catalog connectors) w"
    by (auto simp: fetches_reachable_def)
  then show ?thesis
  proof (induction rule: rtranclp_induct)
    case base
    have "jobs_inv delays \<lparr>jw_table = [], jw_issued = [], jw_settled = []\<rparr>" by (simp add: jobs_inv_def)
    then show ?case by (auto simp: fetch_inv_iff cat_inv_def leases_ok_def new_catalog_def)
  next
    case (step w1 w2)
    then show ?case using fetch_step_inv by blast
  qed
qed


section \<open>Properties\<close>

text \<open>C20. A fetch never contradicts its recording. In every run of the catalog, whatever order
  holders, takeovers, other uploads, deadline sweeps, purges, re-deliveries and restarts come in:
  each fetch has its recording, a stored fetch has a stored recording, a failed or expired one
  never leaves its recording waiting, and a fetch that has ended keeps no payload URL.\<close>

theorem fetch_and_recording_agree:
  assumes "fetches_reachable json_loads eng delays w"
  shows "\<forall>row\<in>set (ct_fetches (fw_catalog w)).
    \<exists>rec\<in>set (ct_recordings (fw_catalog w)). rc_key rec = jr_key row \<and>
      (jr_state row = STORED \<longrightarrow> rc_state rec = STORED) \<and>
      (jr_state row \<in> {FAILED, EXPIRED} \<longrightarrow> rc_state rec \<in> {STORED, FAILED}) \<and>
      (jr_state row \<notin> {PENDING, RUNNING} \<longrightarrow> fc_url (jr_columns row) = None)"
proof
  fix row assume row: "row \<in> set (ct_fetches (fw_catalog w))"
  from fetch_inv_reachable [OF assms] have inv:
    "cat_inv delays (fw_issued w) (set (fw_uploaded w)) (fw_catalog w)" by (simp add: fetch_inv_iff)
  show "\<exists>rec\<in>set (ct_recordings (fw_catalog w)). rc_key rec = jr_key row \<and>
      (jr_state row = STORED \<longrightarrow> rc_state rec = STORED) \<and>
      (jr_state row \<in> {FAILED, EXPIRED} \<longrightarrow> rc_state rec \<in> {STORED, FAILED}) \<and>
      (jr_state row \<notin> {PENDING, RUNNING} \<longrightarrow> fc_url (jr_columns row) = None)"
  proof (rule row_recording [OF inv row])
    fix rec assume rec: "rec \<in> set (ct_recordings (fw_catalog w))"
      "agree (set (fw_uploaded w)) row rec"
    then show ?thesis by (intro bexI [OF _ rec(1)]) (auto simp: agree_def)
  qed
qed

lemma claim_held:
  assumes lo: "leases_ok delays issued t" and c: "claim eng t now nano draw = (Some l, t')"
  obtains row r where "row = claimed_row l now r" "r \<in> set t" "row \<in> set t'"
    "fetch_row (jl_key l) t' = Some row" "lease_matches l row" "holds t' l"
    "distinct (map jr_key t')"
proof (cases rule: claim_cases [OF leases_dist [OF lo] c])
  case (2 l' r)
  then have ce: "claim_effect now nano draw t l r t'" by simp
  let ?row = "claimed_row l now r"
  have t': "t' = map (\<lambda>r'. if jr_key r' = jr_key r then claimed_row l now r' else r') t"
    and r: "r \<in> set t" "jl_key l = jr_key r" using ce by (auto simp: claim_effect_def)
  have "map jr_key t' = map jr_key t" unfolding t'
    by (rule map_key_update) (simp add: claimed_row_def)
  then have keys: "distinct (map jr_key t')" using leases_dist [OF lo] by simp
  have row: "?row \<in> set t'" unfolding t' using r(1) by force
  have m: "lease_matches l ?row" using r(2) by (simp add: lease_matches_def claimed_row_def)
  have "jr_key ?row = jl_key l" using r(2) by (simp add: claimed_row_def)
  with fetch_row_mem [OF keys row] that [OF refl r(1) row _ m _ keys] m row show ?thesis
    by (auto simp: holds_iff)
qed simp


lemma complete_in_held:
  assumes keys: "distinct (map jr_key t)" and h: "holds t l"
  obtains row where "complete_in l now state code (cat\<lparr>ct_fetches := t\<rparr>) =
      (True, cat\<lparr>ct_fetches := lease_write l (\<lambda>r. r\<lparr>jr_state := state,
        jr_error := code, jr_lease_until := None, jr_next_attempt := None, jr_updated := now,
        jr_columns := no_url (jr_columns r)\<rparr>) t\<rparr>)"
    "row \<in> set (lease_write l (\<lambda>r. r\<lparr>jr_state := state,
        jr_error := code, jr_lease_until := None, jr_next_attempt := None, jr_updated := now,
        jr_columns := no_url (jr_columns r)\<rparr>) t)"
    "jr_key row = jl_key l" "jr_state row = state"
proof -
  let ?f = "\<lambda>r. r\<lparr>jr_state := state, jr_error := code, jr_lease_until := None,
     jr_next_attempt := None, jr_updated := now, jr_columns := no_url (jr_columns r)\<rparr>"
  from h obtain r where "r \<in> set t" "lease_matches l r" by (auto simp: holds_iff)
  then have "?f r \<in> set (lease_write l ?f t)" "jr_key (?f r) = jl_key l"
    by (force simp: lease_write_def, simp add: lease_matches_def)
  with that [of "?f r"] h keys show ?thesis by (simp add: complete_in_eq)
qed

lemma end_fetch_held:
  assumes "distinct (map jr_key t)" "holds t l"
    "end_fetch l now state code (cat\<lparr>ct_fetches := t\<rparr>) = (out, cat')"
  shows "fo_result out = state \<and> (\<exists>row\<in>set (ct_fetches cat'). jr_key row = fo_key out \<and> jr_state row = state)"
  by (rule complete_in_held [OF assms(1,2), of now state "Some code" cat])
     (use assms(3) in \<open>auto simp: end_fetch_def outcome_of_def recording_ops\<close>)

lemma settle_fetch_held:
  assumes "distinct (map jr_key t)" "holds t l" "st \<in> {STORED, FAILED}"
    "settle_fetch l now (Some st) (cat\<lparr>ct_fetches := t\<rparr>) = (out, cat')"
  shows "fo_result out = st \<and> (\<exists>row\<in>set (ct_fetches cat'). jr_key row = fo_key out \<and> jr_state row = st)"
proof (cases "st = STORED")
  case True
  show ?thesis
    by (rule complete_in_held [OF assms(1,2), of now STORED None cat])
       (use True assms(4) in \<open>auto simp: settle_fetch_def outcome_of_def\<close>)
next
  case False
  with assms(3) have "st = FAILED" by simp
  with assms(4) have "end_fetch l now FAILED FETCH_RECORDING_FAILED (cat\<lparr>ct_fetches := t\<rparr>) = (out, cat')"
    by (simp add: settle_fetch_def)
  from end_fetch_held [OF assms(1,2) this] \<open>st = FAILED\<close> show ?thesis by simp
qed

text \<open>What \<open>claim_fetch\<close> hands out. In every reachable catalog it never fails on a missing
  join row; it reports nothing due only when no fetch is; a claim it hands out holds its fetch,
  for a recording still waiting and, for a payload URL, one not yet expired; and a fetch with nothing left to do is ended
  in the state the outcome names.\<close>

theorem claim_fetch_hands_out_work:
  assumes "fetches_reachable json_loads eng delays w" "\<And>t. mset (eng t) = mset t"
    and f: "claim_fetch json_loads eng lease_nano now draw (fw_catalog w) = (res, cat')"
  shows "(case res of
      Join_Missing \<Rightarrow> False
    | Nothing_Due \<Rightarrow> cat' = fw_catalog w \<and>
        (\<forall>row\<in>set (ct_fetches (fw_catalog w)). \<not> claimable now row)
    | Claimed c \<Rightarrow> holds (ct_fetches cat') (fl_lease c) \<and>
        recording_state (jl_key (fl_lease c)) (ct_recordings cat') = Some PENDING \<and>
        (fl_source_kind c = PAYLOAD_URL \<longrightarrow> (\<forall>expires. fl_url_expires c = Some expires \<longrightarrow> now < expires))
    | Ended out \<Rightarrow> fo_result out \<in> {STORED, FAILED, EXPIRED} \<and>
        (\<exists>row\<in>set (ct_fetches cat'). jr_key row = fo_key out \<and> jr_state row = fo_result out))"
proof -
  let ?cat = "fw_catalog w"
  from fetch_inv_reachable [OF assms(1)] have inv:
    "cat_inv delays (fw_issued w) (set (fw_uploaded w)) ?cat" by (simp add: fetch_inv_iff)
  then have lo: "leases_ok delays (fw_issued w) (ct_fetches ?cat)" by (simp add: cat_inv_def)
  obtain l_opt t where c: "claim eng (ct_fetches ?cat) now (\<lambda>_. lease_nano) draw = (l_opt, t)"
    by fastforce
  have due: "due eng (ct_fetches ?cat) now 1 = [] \<Longrightarrow> l_opt = None" using c by (simp add: claim_def)
  show ?thesis
  proof (cases l_opt)
    case None
    from claim_in_queue_order [OF assms(2) leases_dist [OF lo] c] None
    have "t = ct_fetches ?cat" "\<forall>row\<in>set (ct_fetches ?cat). \<not> claimable now row" by auto
    with f c None show ?thesis by (auto simp: claim_fetch_def split: if_splits)
  next
    case (Some l)
    with c have c': "claim eng (ct_fetches ?cat) now (\<lambda>_. lease_nano) draw = (Some l, t)" by simp
    from claim_held [OF lo c'] obtain row r where row: "row = claimed_row l now r"
        "r \<in> set (ct_fetches ?cat)" "fetch_row (jl_key l) t = Some row" "lease_matches l row"
        "holds t l" "distinct (map jr_key t)" by metis
    have key: "jr_key r = jl_key l" "jr_columns row = jr_columns r"
      using row(1,4) by (simp_all add: lease_matches_def claimed_row_def)
    obtain rec where rec: "rec \<in> set (ct_recordings ?cat)" "agree (set (fw_uploaded w)) r rec"
        "rc_key rec = jr_key r" "map_of (ct_connectors ?cat) (fc_endpoint_id (jr_columns r)) \<noteq> None"
      by (rule row_recording [OF inv row(2)])
    then obtain provider config where con:
      "map_of (ct_connectors ?cat) (fc_endpoint_id (jr_columns row)) = Some (provider, config)"
      using key(2) by auto
    have "find (\<lambda>r. rc_key r = jl_key l) (ct_recordings ?cat) \<noteq> None"
      using rec(1,3) key(1) by (auto simp: find_None_iff)
    then obtain rec' where fnd: "find (\<lambda>r. rc_key r = jl_key l) (ct_recordings ?cat) = Some rec'" by auto
    then have "rec' \<in> set (ct_recordings ?cat)" "rc_key rec' = jl_key l" by (auto simp: find_Some_iff)
    with recording_unique [of "ct_recordings ?cat" rec' rec] inv rec key have "rec' = rec"
      by (auto simp: cat_inv_def)
    then have st: "rc_state rec' \<in> {PENDING, STORED, FAILED}" using rec(2) by (simp add: agree_def)
    have nd: "due eng (ct_fetches ?cat) now 1 \<noteq> []" using due Some by auto
    note f = f [unfolded claim_fetch_def if_not_P [OF nd] c', simplified, unfolded row(3) fnd, simplified,
      unfolded con Let_def, simplified]
    show ?thesis
    proof (cases "rc_state rec' = PENDING")
      case True
      show ?thesis
      proof (cases "url_expired now (jr_columns row)")
        case exp: True
        obtain out cat2 where e: "end_fetch l now EXPIRED FETCH_URL_EXPIRED (?cat\<lparr>ct_fetches := t\<rparr>) = (out, cat2)"
          by fastforce
        with f True exp end_fetch_held [OF row(6,5) e] show ?thesis by auto
      next
        case False
        with f True row(5) fnd show ?thesis
          by (auto simp: url_expired_def recording_state_def split: option.splits)
      qed
    next
      case False
      obtain out cat2 where e: "settle_fetch l now (Some (rc_state rec')) (?cat\<lparr>ct_fetches := t\<rparr>) = (out, cat2)"
        by fastforce
      have "rc_state rec' \<in> {STORED, FAILED}" using st False by auto
      from f False e settle_fetch_held [OF row(6,5) this e] this show ?thesis by auto
    qed
  qed
qed


section \<open>A fetch whose URL has expired\<close>

definition sample_fetch :: fetch_columns where
  "sample_fetch = \<lparr>fc_endpoint_id = ''e'', fc_source_kind = PAYLOAD_URL, fc_provider_call_id = ''c1'',
     fc_track = ''mixed'', fc_url = Some ''https://h/x'', fc_url_expires = Some 5\<rparr>"

definition sample_held :: fetch_world where
  "sample_held = (new_catalog [(''e'', (''vapi'', None))])\<lparr>fw_catalog :=
     hold_recording (''p'', ''r'') ''call'' ''audio/wav'' sample_fetch 0
       (fw_catalog (new_catalog [(''e'', (''vapi'', None))]))\<rparr>"

lemmas fetch_eval = job_eval claim_fetch_def url_expired_def end_fetch_def complete_in_def
  complete_job_def lease_matches_def fail_recording_def outcome_of_def no_url_def

lemma sample_held_catalog:
  "fw_catalog sample_held = \<lparr>ct_fetches = [new_job (''p'', ''r'') 0 sample_fetch],
     ct_recordings = [\<lparr>rc_key = (''p'', ''r''), rc_call_id = ''call'', rc_state = PENDING, rc_content_type = ''audio/wav''\<rparr>],
     ct_connectors = [(''e'', (''vapi'', None))]\<rparr>" "fw_issued sample_held = []"
  by (simp_all add: sample_held_def new_catalog_def hold_recording_def recording_state_def
      MAX_REVISION_RECORDINGS_def)

lemma sample_held_step: "(fetch_step json_loads eng delays)\<^sup>*\<^sup>* (new_catalog [(''e'', (''vapi'', None))]) sample_held"
  unfolding sample_held_def
  by (rule r_into_rtranclp, rule fetch_step.Hold) (simp add: new_catalog_def sample_fetch_def)

lemma sample_held_reachable: "fetches_reachable json_loads eng delays sample_held"
  unfolding fetches_reachable_def using sample_held_step by blast

definition sample_expired :: catalog where
  "sample_expired = snd (claim_fetch (\<lambda>_. None) (\<lambda>t. t) 60 10 6 (fw_catalog sample_held))"

lemma sample_expired_eval:
  "claim_fetch (\<lambda>_. None) (\<lambda>t. t) 60 10 6 (fw_catalog sample_held) =
     (Ended \<lparr>fo_key = (''p'', ''r''), fo_result = EXPIRED, fo_error = Some FETCH_URL_EXPIRED\<rparr>, sample_expired)"
  "claim (\<lambda>t. t) (ct_fetches (fw_catalog sample_held)) 10 (\<lambda>_. 60) 6 =
     (Some \<lparr>jl_key = (''p'', ''r''), jl_token = 7, jl_lease_until = 70, jl_attempts = 0,
            jl_taken_over = False\<rparr>,
      [(new_job (''p'', ''r'') 0 sample_fetch)\<lparr>jr_state := RUNNING, jr_token := 7,
         jr_lease_until := Some 70, jr_updated := 10\<rparr>])"
  "map jr_state (ct_fetches sample_expired) = [EXPIRED]"
  by (simp_all add: sample_expired_def sample_held_catalog fetch_eval sample_fetch_def)

theorem fetch_and_recording_agree_witness:
  "jr_state (hd (ct_fetches sample_expired)) = EXPIRED \<and>
   fc_url (jr_columns (hd (ct_fetches sample_expired))) = None"
proof -
  let ?w = "sample_held\<lparr>fw_catalog := sample_expired, fw_issued := fw_issued sample_held @
    [\<lparr>jl_key = (''p'', ''r''), jl_token = 7, jl_lease_until = 70, jl_attempts = 0,
      jl_taken_over = False\<rparr>]\<rparr>"
  have "fetch_step (\<lambda>_. None) (\<lambda>t. t) DEFAULT_RETRY_DELAYS_SECONDS sample_held ?w"
    by (rule fetch_step.Take_End [OF sample_expired_eval(1,2)])
       (simp_all add: TOKEN_RANGE_def sample_held_catalog)
  then have "fetches_reachable (\<lambda>_. None) (\<lambda>t. t) DEFAULT_RETRY_DELAYS_SECONDS ?w"
    unfolding fetches_reachable_def using sample_held_step by (meson rtranclp.rtrancl_into_rtrancl)
  note agree = fetch_and_recording_agree [OF this]
  from sample_expired_eval(3) obtain row where row: "ct_fetches sample_expired = [row]" "jr_state row = EXPIRED"
    by (auto simp: map_eq_Cons_conv)
  with agree show ?thesis by auto
qed

theorem claim_fetch_hands_out_work_witness:
  "\<exists>row\<in>set (ct_fetches sample_expired). jr_key row = (''p'', ''r'') \<and> jr_state row = EXPIRED"
  using claim_fetch_hands_out_work [OF sample_held_reachable refl sample_expired_eval(1)] by simp

end
