(* ===== verification/Recorder.thy ===== *)
theory Recorder
  imports Writer
begin

text \<open>
  The incident recorder (\<^verbatim>\<open>recorder.py\<close>): its capture limits, its loss counters, the
  critical sections that admit facts, the diff of the privacy ledger it journals, its finalize
  frame, and the undo state of a rejected batch.

  Sanitisation and model construction come before each critical section; their results (the
  governed fact, its omissions, the classes its attributes retain, its estimated size) are the
  arguments here. A fact is a coverage record, which the recorder looks into, or a model \<open>'m\<close> of
  one of the other kinds. The recorder keeps one list per kind (\<^verbatim>\<open>_participants\<close>,
  \<^verbatim>\<open>_operations\<close> and so on), which is \<open>rd_facts\<close> at that kind. The calls it makes on its
  checkpoint writer are collected in \<open>rd_calls\<close>, in order.
\<close>

section \<open>Configuration and state\<close>

definition MAX_COUNTER :: nat where "MAX_COUNTER = 9223372036854775807"
definition MAX_EXTRA_CLOCK_DOMAINS :: nat where "MAX_EXTRA_CLOCK_DOMAINS = 16"
definition MAX_CLOCK_RELATIONS :: nat where "MAX_CLOCK_RELATIONS = 64"

fun kind_name :: "record_kind \<Rightarrow> string" where
  "kind_name K_adapter = ''adapter''"
| "kind_name K_participant = ''participant''"
| "kind_name K_stream = ''stream''"
| "kind_name K_coverage = ''coverage''"
| "kind_name K_operation = ''operation''"
| "kind_name K_event = ''event''"
| "kind_name K_quality_sample = ''quality_sample''"
| "kind_name K_media = ''media''"
| "kind_name K_raw_otlp = ''raw_otlp''"
| "kind_name K_clock_domain = ''clock_domain''"
| "kind_name K_clock_relation = ''clock_relation''"
| "kind_name K_omission = ''omission''"
| "kind_name K_policy = ''policy''"

definition RECORD_KINDS :: "record_kind list" where
  "RECORD_KINDS = [K_adapter, K_coverage, K_event, K_media, K_omission, K_operation,
     K_participant, K_quality_sample, K_raw_otlp, K_stream]"

record coverage =
  cv_signal :: string
  cv_availability :: string
  cv_reason :: "string option"
  cv_dropped_count :: "nat option"

datatype 'm fact = Coverage_Fact coverage | Model_Fact 'm

type_synonym omission = "string \<times> capture_class \<times> string"

text \<open>
  The environment: the configured limits, whether a journal is configured, the identifier a
  model is deduplicated by (\<^verbatim>\<open>participant_id\<close>, \<^verbatim>\<open>stream_id\<close>, \<^verbatim>\<open>clock_domain_id\<close>,
  \<^verbatim>\<open>relation_id\<close>), \<^verbatim>\<open>model_dump\<close>, and the bounded structural size of a coverage record.
\<close>

record ('m, 'j) recorder_env =
  re_max_records :: nat
  re_max_capture_bytes :: nat
  re_max_raw_otlp_bytes :: nat
  re_max_value_bytes :: nat
  re_enabled :: bool
  re_clock_domain_id :: string
  re_id :: "'m \<Rightarrow> string"
  re_dump :: "'m fact \<Rightarrow> 'j"
  re_with_payload :: "'j option \<Rightarrow> bytes \<Rightarrow> 'j"
  re_coverage_size :: "coverage \<Rightarrow> nat"

datatype 'j writer_call =
    Append_Call "'j journal_entry"
  | Finalize_Call "'j journal_finalize"
  | Release_Call bool

record ('m, 'j) recorder =
  rd_facts :: "record_kind \<Rightarrow> 'm fact list"
  rd_omissions :: "omission list"
  rd_retained :: "capture_class set"
  rd_journaled_omissions :: nat
  rd_journaled_classes :: "capture_class set"
  rd_captured_records :: nat
  rd_captured_bytes :: nat
  rd_raw_otlp_bytes :: nat
  rd_truncated_records :: nat
  rd_omitted_bytes :: nat
  rd_first_limit :: "string option"
  rd_frozen :: bool
  rd_by_kind :: "(string \<times> nat) list"
  rd_by_class :: "(string \<times> nat) list"
  rd_pending_diagnostic :: bool
  rd_diagnostic_emitted :: bool
  rd_status :: string
  rd_closed :: bool
  rd_bundle :: bool
  rd_close_failed :: bool
  rd_close_notified :: bool
  rd_last_export_error :: "string option"
  rd_export_accepted :: "bool option"
  rd_calls :: "'j writer_call list"

definition new_recorder :: "('m, 'j) recorder" where
  "new_recorder = \<lparr>rd_facts = (\<lambda>k. []), rd_omissions = [], rd_retained = {METADATA},
     rd_journaled_omissions = 0, rd_journaled_classes = {METADATA},
     rd_captured_records = 0, rd_captured_bytes = 0, rd_raw_otlp_bytes = 0,
     rd_truncated_records = 0, rd_omitted_bytes = 0, rd_first_limit = None, rd_frozen = False,
     rd_by_kind = map (\<lambda>k. (kind_name k, 0)) RECORD_KINDS,
     rd_by_class = map (\<lambda>c. (class_value c, 0)) all_classes,
     rd_pending_diagnostic = False, rd_diagnostic_emitted = False,
     rd_status = ''running'', rd_closed = False, rd_bundle = False, rd_close_failed = False,
     rd_close_notified = False, rd_last_export_error = None, rd_export_accepted = None, rd_calls = []\<rparr>"

section \<open>The counters\<close>

definition saturating_add :: "nat \<Rightarrow> int \<Rightarrow> nat" where
  "saturating_add left right = min MAX_COUNTER (left + nat (max 0 right))"

text \<open>\<^verbatim>\<open>d[key] = saturating_add(d[key], 1)\<close> of a key the constructor put there.\<close>

definition bump :: "string \<Rightarrow> (string \<times> nat) list \<Rightarrow> (string \<times> nat) list" where
  "bump key d = (case map_of d key of None \<Rightarrow> d
     | Some n \<Rightarrow> AList.update key (saturating_add n 1) d)"

definition call_writer :: "('m, 'j) recorder_env \<Rightarrow> 'j writer_call \<Rightarrow> ('m, 'j) recorder \<Rightarrow> ('m, 'j) recorder" where
  "call_writer E c s = (if re_enabled E then s\<lparr>rd_calls := rd_calls s @ [c]\<rparr> else s)"

definition note_omission :: "('m, 'j) recorder_env \<Rightarrow> string \<Rightarrow> record_kind \<Rightarrow> capture_class \<Rightarrow> int
    \<Rightarrow> bool \<Rightarrow> bool \<Rightarrow> ('m, 'j) recorder \<Rightarrow> ('m, 'j) recorder" where
  "note_omission E reason kind c estimated_bytes whole_record freeze s =
     (let s1 = (if rd_first_limit s = None
                then s\<lparr>rd_first_limit := Some reason, rd_pending_diagnostic := True\<rparr> else s);
          s2 = (if freeze then s1\<lparr>rd_frozen := True\<rparr> else s1);
          s3 = (if whole_record
                then s2\<lparr>rd_truncated_records := saturating_add (rd_truncated_records s2) 1,
                        rd_by_kind := bump (kind_name kind) (rd_by_kind s2)\<rparr> else s2);
          s4 = s3\<lparr>rd_by_class := bump (class_value c) (rd_by_class s3),
                  rd_omitted_bytes := saturating_add (rd_omitted_bytes s3) estimated_bytes\<rparr>
      in call_writer E (Append_Call (Limit_Entry \<lparr>jl_reason = reason, jl_kind = kind_name kind,
           jl_capture_class = class_value c, jl_estimated_bytes = nat (max 0 estimated_bytes),
           jl_whole_record = whole_record, jl_freeze = freeze\<rparr>)) s4)"

definition default_reason :: "('m, 'j) recorder \<Rightarrow> string" where
  "default_reason s = (case rd_first_limit s of None \<Rightarrow> ''max_capture_bytes''
     | Some r \<Rightarrow> (if r = [] then ''max_capture_bytes'' else r))"

definition try_admit :: "('m, 'j) recorder_env \<Rightarrow> record_kind \<Rightarrow> capture_class \<Rightarrow> nat \<Rightarrow> nat
    \<Rightarrow> ('m, 'j) recorder \<Rightarrow> bool \<times> ('m, 'j) recorder" where
  "try_admit E kind c estimated raw s =
     (if rd_frozen s then (False, note_omission E (default_reason s) kind c (int estimated) True True s)
      else if raw \<noteq> 0 \<and> rd_raw_otlp_bytes s + raw > re_max_raw_otlp_bytes E
      then (False, note_omission E ''max_raw_otlp_bytes'' kind c (int raw) True True s)
      else if rd_captured_records s \<ge> re_max_records E
      then (False, note_omission E ''max_records'' kind c (int estimated) True True s)
      else if rd_captured_bytes s + estimated > re_max_capture_bytes E
      then (False, note_omission E ''max_capture_bytes'' kind c (int estimated) True True s)
      else (True, s\<lparr>rd_captured_records := rd_captured_records s + 1,
                    rd_captured_bytes := rd_captured_bytes s + estimated,
                    rd_raw_otlp_bytes := rd_raw_otlp_bytes s + raw\<rparr>))"

section \<open>Journaling a mutation\<close>

text \<open>Capture classes sort by their value, as the string enumeration does.\<close>

definition classes_by_value :: "capture_class list" where
  "classes_by_value = [AUDIO, DIAGNOSTIC_PAYLOAD, EXTENSION_PAYLOAD, IDENTITY, METADATA,
     MODEL_PAYLOAD, RAW_OTLP, TOOL_PAYLOAD, TRANSCRIPT]"

definition sorted_classes :: "capture_class set \<Rightarrow> capture_class list" where
  "sorted_classes cs = filter (\<lambda>c. c \<in> cs) classes_by_value"

definition journal_locked :: "('m, 'j) recorder_env \<Rightarrow> record_kind \<Rightarrow> 'm fact option \<Rightarrow> nat option
    \<Rightarrow> bytes option \<Rightarrow> ('m, 'j) recorder \<Rightarrow> ('m, 'j) recorder" where
  "journal_locked E kind f replaces_index raw_payload s =
     (if \<not> re_enabled E then s
      else
        let pending_omissions = drop (rd_journaled_omissions s) (rd_omissions s);
            pending_classes = sorted_classes (rd_retained s - rd_journaled_classes s);
            s1 = s\<lparr>rd_journaled_omissions := length (rd_omissions s),
                   rd_journaled_classes := rd_journaled_classes s \<union> set pending_classes\<rparr>
        in if f = None \<and> pending_omissions = [] \<and> pending_classes = [] then s1
           else case mutation_entry (re_with_payload E)
                  \<lparr>mu_kind = kind, mu_record = map_option (re_dump E) f,
                   mu_omissions = pending_omissions, mu_retained_classes = pending_classes,
                   mu_replaces_index = replaces_index, mu_raw_payload = raw_payload\<rparr> of
             None \<Rightarrow> s1
           | Some r \<Rightarrow> call_writer E (Append_Call (Record_Entry r)) s1)"

section \<open>Admission\<close>

datatype recorder_error = Recorder_Closed | Conflicting_Identity | Invalid_Media

definition add_fact :: "record_kind \<Rightarrow> 'm fact \<Rightarrow> omission list \<Rightarrow> capture_class set
    \<Rightarrow> ('m, 'j) recorder \<Rightarrow> ('m, 'j) recorder" where
  "add_fact kind f omitted classes s =
     s\<lparr>rd_facts := (rd_facts s)(kind := rd_facts s kind @ [f]),
       rd_omissions := rd_omissions s @ omitted, rd_retained := rd_retained s \<union> classes\<rparr>"

text \<open>
  \<open>record_fact\<close> is the critical section of the four operations below: \<open>classes\<close> are the
  classes it retains besides its own class \<open>c\<close>.
\<close>

definition record_fact :: "('m, 'j) recorder_env \<Rightarrow> record_kind \<Rightarrow> 'm \<Rightarrow> capture_class \<Rightarrow> nat
    \<Rightarrow> omission list \<Rightarrow> capture_class set \<Rightarrow> ('m, 'j) recorder
    \<Rightarrow> recorder_error + bool \<times> ('m, 'j) recorder" where
  "record_fact E kind m c estimated omitted classes s =
     (if rd_closed s then Inl Recorder_Closed
      else case try_admit E kind c estimated 0 s of
        (False, s1) \<Rightarrow> Inr (False, s1)
      | (True, s1) \<Rightarrow> Inr (True, journal_locked E kind (Some (Model_Fact m)) None None
            (add_fact kind (Model_Fact m) omitted (insert c classes) s1)))"

text \<open>
  The four operations. The omissions come in the groups their parts were sanitised in; \<open>tracked\<close>
  are the classes of the attributes they track, and the flags say which of the schema URLs are not
  the canonical ones and whether a part has extensions.
\<close>

definition extension_class :: "bool list \<Rightarrow> capture_class set" where
  "extension_class flags = (if True \<in> set flags then {EXTENSION_PAYLOAD} else {})"

definition record_operation :: "('m, 'j) recorder_env \<Rightarrow> 'm \<Rightarrow> capture_class \<Rightarrow> nat \<Rightarrow> omission list list
    \<Rightarrow> capture_class set \<Rightarrow> bool list \<Rightarrow> (capture_class \<times> capture_class set) option \<Rightarrow> ('m, 'j) recorder
    \<Rightarrow> recorder_error + bool \<times> ('m, 'j) recorder" where
  "record_operation E m c estimated omitted tracked flags error s =
     record_fact E K_operation m c estimated (concat omitted)
       (tracked \<union> extension_class flags \<union> (case error of None \<Rightarrow> {} | Some (ec, et) \<Rightarrow> insert ec et)) s"

definition record_event :: "('m, 'j) recorder_env \<Rightarrow> 'm \<Rightarrow> capture_class \<Rightarrow> nat \<Rightarrow> omission list list
    \<Rightarrow> capture_class set \<Rightarrow> bool list \<Rightarrow> ('m, 'j) recorder
    \<Rightarrow> recorder_error + bool \<times> ('m, 'j) recorder" where
  "record_event E m c estimated omitted tracked flags s =
     record_fact E K_event m c estimated (concat omitted) (tracked \<union> extension_class flags) s"

definition record_quality_sample :: "('m, 'j) recorder_env \<Rightarrow> 'm \<Rightarrow> capture_class \<Rightarrow> nat
    \<Rightarrow> omission list list \<Rightarrow> capture_class set list \<Rightarrow> bool list \<Rightarrow> ('m, 'j) recorder
    \<Rightarrow> recorder_error + bool \<times> ('m, 'j) recorder" where
  "record_quality_sample E m c estimated omitted governed flags s =
     record_fact E K_quality_sample m c estimated (concat omitted)
       (\<Union> (set governed) \<union> extension_class flags) s"

text \<open>
  \<open>exceeded\<close> is the size of a media reference past \<^verbatim>\<open>max_value_bytes\<close>, \<open>coherent\<close> what
  its session, class and custody checks say, \<open>om\<close> the omission of a class not allowed.
\<close>

definition add_media_ref :: "('m, 'j) recorder_env \<Rightarrow> nat option \<Rightarrow> bool \<Rightarrow> bool \<Rightarrow> omission \<Rightarrow> nat
    \<Rightarrow> 'm \<Rightarrow> nat \<Rightarrow> omission list \<Rightarrow> capture_class set \<Rightarrow> bool \<Rightarrow> ('m, 'j) recorder
    \<Rightarrow> recorder_error + bool \<times> ('m, 'j) recorder" where
  "add_media_ref E exceeded coherent allowed om om_estimated m estimated omitted tracked ext s =
     (case exceeded of
        Some source_bytes \<Rightarrow>
          if rd_closed s then Inl Recorder_Closed
          else Inr (False, note_omission E ''max_value_bytes'' K_media AUDIO (int source_bytes) True True s)
      | None \<Rightarrow>
          if \<not> coherent then Inl Invalid_Media
          else if \<not> allowed
          then if rd_closed s then Inl Recorder_Closed
               else (case try_admit E K_omission AUDIO om_estimated 0 s of
                   (False, s1) \<Rightarrow> Inr (False, s1)
                 | (True, s1) \<Rightarrow> Inr (False, journal_locked E K_omission None None None
                     (s1\<lparr>rd_omissions := rd_omissions s1 @ [om]\<rparr>)))
          else record_fact E K_media m AUDIO estimated omitted (tracked \<union> extension_class [ext]) s)"

definition known_fact :: "('m, 'j) recorder_env \<Rightarrow> string \<Rightarrow> 'm fact list \<Rightarrow> 'm option" where
  "known_fact E ident fs = (case find (\<lambda>f. case f of Model_Fact m \<Rightarrow> re_id E m = ident
        | Coverage_Fact _ \<Rightarrow> False) fs of
      Some (Model_Fact m) \<Rightarrow> Some m | _ \<Rightarrow> None)"

text \<open>\<open>add_identified\<close> is \<^verbatim>\<open>add_participant\<close> and \<^verbatim>\<open>add_stream\<close>: the first fact under an
  identifier is kept, an equal one is returned again, a different one is refused.\<close>

definition add_identified :: "('m, 'j) recorder_env \<Rightarrow> record_kind \<Rightarrow> 'm \<Rightarrow> capture_class \<Rightarrow> nat
    \<Rightarrow> omission list \<Rightarrow> capture_class set \<Rightarrow> ('m, 'j) recorder
    \<Rightarrow> recorder_error + 'm \<times> ('m, 'j) recorder" where
  "add_identified E kind m c estimated omitted classes s =
     (if rd_closed s then Inl Recorder_Closed
      else case known_fact E (re_id E m) (rd_facts s kind) of
        Some existing \<Rightarrow> if existing \<noteq> m then Inl Conflicting_Identity else Inr (existing, s)
      | None \<Rightarrow>
          (case try_admit E kind c estimated 0 s of
             (False, s1) \<Rightarrow> Inr (m, s1)
           | (True, s1) \<Rightarrow> Inr (m, journal_locked E kind (Some (Model_Fact m)) None None
               (add_fact kind (Model_Fact m) omitted (insert c classes) s1))))"

text \<open>\<^verbatim>\<open>register_clock_domain\<close> and \<^verbatim>\<open>register_clock_relation\<close>: not counted against the
  capture limits, but bounded in number.\<close>

definition register_clock :: "('m, 'j) recorder_env \<Rightarrow> record_kind \<Rightarrow> nat \<Rightarrow> 'm \<Rightarrow> ('m, 'j) recorder
    \<Rightarrow> recorder_error + ('m, 'j) recorder" where
  "register_clock E kind cap m s =
     (if rd_closed s then Inl Recorder_Closed
      else case known_fact E (re_id E m) (rd_facts s kind) of
        Some existing \<Rightarrow> if existing \<noteq> m then Inl Conflicting_Identity else Inr s
      | None \<Rightarrow>
          if length (rd_facts s kind) \<ge> cap then Inr s
          else Inr (journal_locked E kind (Some (Model_Fact m)) None None
                 (add_fact kind (Model_Fact m) [] {} s)))"

definition register_clock_domain :: "('m, 'j) recorder_env \<Rightarrow> 'm \<Rightarrow> ('m, 'j) recorder
    \<Rightarrow> recorder_error + ('m, 'j) recorder" where
  "register_clock_domain E m s =
     (if \<not> rd_closed s \<and> re_id E m = re_clock_domain_id E then Inr s
      else register_clock E K_clock_domain MAX_EXTRA_CLOCK_DOMAINS m s)"

definition register_clock_relation :: "('m, 'j) recorder_env \<Rightarrow> 'm \<Rightarrow> ('m, 'j) recorder
    \<Rightarrow> recorder_error + ('m, 'j) recorder" where
  "register_clock_relation E m s = register_clock E K_clock_relation MAX_CLOCK_RELATIONS m s"


text \<open>\<open>record_coverage\<close>: coverage of a signal is recorded once, and superseded in place only by
  \<^verbatim>\<open>available\<close>.\<close>

fun as_coverage :: "'m fact \<Rightarrow> coverage option" where
  "as_coverage (Coverage_Fact c) = Some c"
| "as_coverage (Model_Fact m) = None"

fun coverage_index :: "string \<Rightarrow> 'm fact list \<Rightarrow> (nat \<times> coverage) option" where
  "coverage_index signal [] = None"
| "coverage_index signal (f # fs) =
     (case as_coverage f of
        Some c \<Rightarrow> if cv_signal c = signal then Some (0, c)
                  else map_option (\<lambda>(i, c). (Suc i, c)) (coverage_index signal fs)
      | None \<Rightarrow> map_option (\<lambda>(i, c). (Suc i, c)) (coverage_index signal fs))"

definition record_coverage :: "('m, 'j) recorder_env \<Rightarrow> coverage \<Rightarrow> ('m, 'j) recorder
    \<Rightarrow> recorder_error + ('m, 'j) recorder" where
  "record_coverage E cov s =
     (if rd_closed s then Inl Recorder_Closed
      else let estimated = re_coverage_size E cov in
        case coverage_index (cv_signal cov) (rd_facts s K_coverage) of
          Some (index, existing) \<Rightarrow>
            if cv_availability existing = cv_availability cov \<and> cv_reason existing = cv_reason cov
               \<and> cv_dropped_count existing = cv_dropped_count cov
            then Inr s
            else if cv_availability cov = ''available'' \<and> cv_availability existing \<noteq> ''available''
            then (let delta = estimated - re_coverage_size E existing in
                  if rd_frozen s
                  then Inr (note_omission E (default_reason s) K_coverage METADATA (int estimated) True True s)
                  else if rd_captured_bytes s + delta > re_max_capture_bytes E
                  then Inr (note_omission E ''max_capture_bytes'' K_coverage METADATA (int estimated) True True s)
                  else Inr (journal_locked E K_coverage (Some (Coverage_Fact cov)) (Some index) None
                         (s\<lparr>rd_facts := (rd_facts s)(K_coverage :=
                              (rd_facts s K_coverage)[index := Coverage_Fact cov]),
                            rd_captured_bytes := rd_captured_bytes s + delta\<rparr>)))
            else Inr s
        | None \<Rightarrow>
            (case try_admit E K_coverage METADATA estimated 0 s of
               (False, s1) \<Rightarrow> Inr s1
             | (True, s1) \<Rightarrow> Inr (journal_locked E K_coverage (Some (Coverage_Fact cov)) None None
                 (add_fact K_coverage (Coverage_Fact cov) [] {} s1))))"

text \<open>\<open>record_omission\<close>, and below the branch of \<^verbatim>\<open>add_raw_otlp_chunk\<close> for a class the
  policy does not allow.\<close>

definition record_omission :: "('m, 'j) recorder_env \<Rightarrow> omission \<Rightarrow> nat \<Rightarrow> ('m, 'j) recorder
    \<Rightarrow> recorder_error + ('m, 'j) recorder" where
  "record_omission E om estimated s =
     (if rd_closed s then Inl Recorder_Closed
      else case try_admit E K_omission (fst (snd om)) estimated 0 s of
        (False, s1) \<Rightarrow> Inr s1
      | (True, s1) \<Rightarrow> Inr (journal_locked E K_omission None None None
            (s1\<lparr>rd_omissions := rd_omissions s1 @ [om]\<rparr>)))"

definition register_adapter :: "('m, 'j) recorder_env \<Rightarrow> 'm \<Rightarrow> nat \<Rightarrow> bool \<Rightarrow> ('m, 'j) recorder
    \<Rightarrow> recorder_error + ('m, 'j) recorder" where
  "register_adapter E m estimated has_extensions s =
     (if rd_closed s then Inl Recorder_Closed
      else
        let (admitted, s1) = (if Model_Fact m \<in> set (rd_facts s K_adapter) then (False, s)
              else case try_admit E K_adapter METADATA estimated 0 s of
                (False, s1) \<Rightarrow> (False, s1)
              | (True, s1) \<Rightarrow> (True, add_fact K_adapter (Model_Fact m) [] {} s1));
            s2 = (if Model_Fact m \<in> set (rd_facts s1 K_adapter) \<and> has_extensions
                  then s1\<lparr>rd_retained := insert EXTENSION_PAYLOAD (rd_retained s1)\<rparr> else s1)
        in Inr (if admitted then journal_locked E K_adapter (Some (Model_Fact m)) None None s2
                else journal_locked E K_policy None None None s2))"

definition add_raw_otlp_chunk :: "('m, 'j) recorder_env \<Rightarrow> bool \<Rightarrow> omission \<Rightarrow> nat \<Rightarrow> 'm \<Rightarrow> bytes
    \<Rightarrow> ('m, 'j) recorder \<Rightarrow> recorder_error + bool \<times> ('m, 'j) recorder" where
  "add_raw_otlp_chunk E allowed om om_estimated m payload s =
     (if rd_closed s then Inl Recorder_Closed
      else if \<not> allowed
      then (case try_admit E K_omission RAW_OTLP om_estimated 0 s of
              (False, s1) \<Rightarrow> Inr (False, s1)
            | (True, s1) \<Rightarrow> Inr (False, journal_locked E K_omission None None None
                  (s1\<lparr>rd_omissions := rd_omissions s1 @ [om]\<rparr>)))
      else case try_admit E K_raw_otlp RAW_OTLP
                  (min (re_max_capture_bytes E + 1) (length payload + 256)) (length payload) s of
             (False, s1) \<Rightarrow> Inr (False, s1)
           | (True, s1) \<Rightarrow> Inr (True, journal_locked E K_raw_otlp (Some (Model_Fact m)) None (Some payload)
                 (add_fact K_raw_otlp (Model_Fact m) [] {RAW_OTLP} s1)))"

text \<open>\<open>operation_opened\<close> is the journaling at the start of the \<^verbatim>\<open>operation\<close> context manager.\<close>

definition operation_opened :: "('m, 'j) recorder_env \<Rightarrow> 'j journal_operation_open
    \<Rightarrow> ('m, 'j) recorder \<Rightarrow> ('m, 'j) recorder" where
  "operation_opened E opened s = call_writer E (Append_Call (Operation_Open_Entry opened)) s"

section \<open>Closing\<close>

definition record_counts :: "('m, 'j) recorder \<Rightarrow> (string \<times> nat) list" where
  "record_counts s =
     [(''adapters'', length (rd_facts s K_adapter)),
      (''participants'', length (rd_facts s K_participant)),
      (''audio_streams'', length (rd_facts s K_stream)),
      (''clock_domains'', length (rd_facts s K_clock_domain)),
      (''clock_relations'', length (rd_facts s K_clock_relation)),
      (''coverage'', length (rd_facts s K_coverage)),
      (''operations'', length (rd_facts s K_operation)),
      (''events'', length (rd_facts s K_event)),
      (''quality_samples'', length (rd_facts s K_quality_sample)),
      (''media_refs'', length (rd_facts s K_media)),
      (''omissions'', length (rd_omissions s)),
      (''raw_otlp_chunks'', length (rd_facts s K_raw_otlp))]"

text \<open>The finalize frame; the writer fills in \<^verbatim>\<open>journal_complete\<close> and sorts the classes.\<close>

definition finalize_frame :: "string \<Rightarrow> (string \<times> string) list \<Rightarrow> 'j \<Rightarrow> ('m, 'j) recorder
    \<Rightarrow> 'j journal_finalize" where
  "finalize_frame status attributes ended s =
     \<lparr>jf_status = status, jf_status_attributes = attributes, jf_ended = ended,
      jf_journal_complete = True, jf_first_limit_reason = rd_first_limit s,
      jf_truncated_records = rd_truncated_records s,
      jf_estimated_omitted_bytes = rd_omitted_bytes s,
      jf_omitted_by_kind = rd_by_kind s, jf_omitted_by_class = rd_by_class s,
      jf_retained_classes = map class_value (sorted_classes (rd_retained s)),
      jf_record_counts = record_counts s\<rparr>"

text \<open>\<open>None\<close> is the \<^verbatim>\<open>ValueError\<close> for status attributes the recorder would not emit
  (\<open>governed\<close> says that they are as sanitised).\<close>

definition finalize_recorder :: "('m, 'j) recorder_env \<Rightarrow> string \<Rightarrow> (string \<times> string) list \<Rightarrow> bool \<Rightarrow> 'j
    \<Rightarrow> ('m, 'j) recorder \<Rightarrow> ('m, 'j) recorder option" where
  "finalize_recorder E status attributes governed ended s =
     (if rd_closed s \<or> rd_close_failed s then Some s
      else if \<not> governed then None
      else Some ((call_writer E (Finalize_Call (finalize_frame status attributes ended s)) s)
             \<lparr>rd_status := status, rd_closed := True\<rparr>))"

text \<open>
  What handing the bundle to the exporter comes to: there is none, its answer, the policy's refusal, or
  another exception (by its type).
\<close>

datatype export_attempt = No_Exporter | Submitted bool | Export_Denied string | Export_Raised string

definition export_bundle :: "export_attempt \<Rightarrow> ('m, 'j) recorder \<Rightarrow> ('m, 'j) recorder" where
  "export_bundle attempt s = (case attempt of
       No_Exporter \<Rightarrow> s
     | Submitted accepted \<Rightarrow> s\<lparr>rd_export_accepted := Some accepted\<rparr>
     | Export_Denied error \<Rightarrow> s\<lparr>rd_export_accepted := Some False, rd_last_export_error := Some error\<rparr>
     | Export_Raised error \<Rightarrow> s\<lparr>rd_last_export_error := Some error\<rparr>)"

text \<open>
  \<^verbatim>\<open>close\<close> after the pending diagnostic (\<^verbatim>\<open>emit_truncation\<close> below): \<open>invalid\<close> is the error of
  \<^verbatim>\<open>assert_valid_incident\<close>, if any, and \<open>owned\<close> says that the SDK owns the recorder (it has
  an \<^verbatim>\<open>on_close\<close>). A failed validation leaves a standalone recorder open. The callbacks run once.
\<close>

definition close_recorder :: "('m, 'j) recorder_env \<Rightarrow> string \<Rightarrow> (string \<times> string) list \<Rightarrow> 'j \<Rightarrow> string option
    \<Rightarrow> bool \<Rightarrow> export_attempt \<Rightarrow> ('m, 'j) recorder \<Rightarrow> ('m, 'j) recorder" where
  "close_recorder E status attributes ended invalid owned attempt s =
     (if rd_close_failed s \<or> rd_bundle s then s
      else let s1 = call_writer E (Finalize_Call (finalize_frame status attributes ended s)) s in
        case invalid of
          None \<Rightarrow>
            let s2 = export_bundle attempt (s1\<lparr>rd_status := status, rd_closed := True, rd_bundle := True\<rparr>)
            in (call_writer E (Release_Call (rd_export_accepted s2 \<noteq> Some False)) s2)\<lparr>rd_close_notified := True\<rparr>
        | Some error \<Rightarrow>
            let s2 = s1\<lparr>rd_last_export_error := Some error\<rparr>
            in if owned
               then (call_writer E (Release_Call False)
                      (s2\<lparr>rd_status := status, rd_closed := True, rd_close_failed := True\<rparr>))\<lparr>rd_close_notified := True\<rparr>
               else call_writer E (Release_Call False) s2)"

text \<open>An operation scope and the context manager keep the error of a recording that failed in them.\<close>

definition keep_recording_error :: "string \<Rightarrow> ('m, 'j) recorder \<Rightarrow> ('m, 'j) recorder" where
  "keep_recording_error error s = s\<lparr>rd_last_export_error := Some error\<rparr>"

text \<open>\<open>None\<close> is the \<^verbatim>\<open>ValueError\<close> for a status of \<^verbatim>\<open>completed\<close>; an invalid bundle is an
  exception that leaves the recorder as it was.\<close>

definition close_partial :: "string \<Rightarrow> bool \<Rightarrow> ('m, 'j) recorder \<Rightarrow> ('m, 'j) recorder option" where
  "close_partial status valid s =
     (if rd_close_failed s \<or> rd_bundle s then Some s
      else if status = ''completed'' \<or> \<not> valid then None
      else Some (s\<lparr>rd_status := status, rd_closed := True, rd_bundle := True\<rparr>))"

text \<open>\<^verbatim>\<open>_emit_pending_truncation_diagnostic\<close>: whether a diagnostic goes out, once ever.\<close>

definition emit_truncation :: "('m, 'j) recorder \<Rightarrow> bool \<times> ('m, 'j) recorder" where
  "emit_truncation s =
     (if \<not> rd_pending_diagnostic s \<or> rd_diagnostic_emitted s then (False, s)
      else (True, s\<lparr>rd_pending_diagnostic := False, rd_diagnostic_emitted := True\<rparr>))"

record recorder_status =
  rt_state :: string
  rt_truncated :: bool
  rt_frozen :: bool
  rt_captured_records :: nat
  rt_captured_bytes :: nat
  rt_raw_otlp_bytes :: nat
  rt_truncated_records :: nat
  rt_omitted_bytes :: nat
  rt_first_limit :: "string option"
  rt_by_kind :: "(string \<times> nat) list"
  rt_by_class :: "(string \<times> nat) list"

definition recorder_status_of :: "('m, 'j) recorder \<Rightarrow> recorder_status" where
  "recorder_status_of s =
     \<lparr>rt_state = (if rd_closed s then ''closed'' else rd_status s),
      rt_truncated = (rd_first_limit s \<noteq> None), rt_frozen = rd_frozen s,
      rt_captured_records = rd_captured_records s, rt_captured_bytes = rd_captured_bytes s,
      rt_raw_otlp_bytes = rd_raw_otlp_bytes s, rt_truncated_records = rd_truncated_records s,
      rt_omitted_bytes = rd_omitted_bytes s, rt_first_limit = rd_first_limit s,
      rt_by_kind = filter (\<lambda>(k, n). n \<noteq> 0) (rd_by_kind s),
      rt_by_class = filter (\<lambda>(k, n). n \<noteq> 0) (rd_by_class s)\<rparr>"

section \<open>Undoing a rejected batch\<close>

text \<open>
  A checkpoint keeps the length of every append-only list and the coverage list itself, which is
  the only one whose slots are replaced.
\<close>

record recorder_checkpoint =
  ck_lengths :: "record_kind \<Rightarrow> nat"
  ck_omissions :: nat
  ck_retained :: "capture_class set"
  ck_journaled_classes :: "capture_class set"
  ck_journaled_omissions :: nat
  ck_by_kind :: "(string \<times> nat) list"
  ck_by_class :: "(string \<times> nat) list"
  ck_captured_records :: nat
  ck_captured_bytes :: nat
  ck_raw_otlp_bytes :: nat
  ck_truncated_records :: nat
  ck_omitted_bytes :: nat
  ck_first_limit :: "string option"
  ck_frozen :: bool
  ck_pending_diagnostic :: bool
  ck_diagnostic_emitted :: bool
  ck_status :: string
  ck_closed :: bool
  ck_bundle :: bool
  ck_close_failed :: bool
  ck_close_notified :: bool
  ck_last_export_error :: "string option"
  ck_export_accepted :: "bool option"

definition recorder_rollback_checkpoint :: "('m, 'j) recorder \<Rightarrow> 'm fact list \<times> recorder_checkpoint" where
  "recorder_rollback_checkpoint s = (rd_facts s K_coverage,
     \<lparr>ck_lengths = (\<lambda>k. length (rd_facts s k)), ck_omissions = length (rd_omissions s),
      ck_retained = rd_retained s, ck_journaled_classes = rd_journaled_classes s,
      ck_journaled_omissions = rd_journaled_omissions s, ck_by_kind = rd_by_kind s,
      ck_by_class = rd_by_class s, ck_captured_records = rd_captured_records s,
      ck_captured_bytes = rd_captured_bytes s, ck_raw_otlp_bytes = rd_raw_otlp_bytes s,
      ck_truncated_records = rd_truncated_records s, ck_omitted_bytes = rd_omitted_bytes s,
      ck_first_limit = rd_first_limit s, ck_frozen = rd_frozen s,
      ck_pending_diagnostic = rd_pending_diagnostic s,
      ck_diagnostic_emitted = rd_diagnostic_emitted s, ck_status = rd_status s,
      ck_closed = rd_closed s, ck_bundle = rd_bundle s, ck_close_failed = rd_close_failed s,
      ck_close_notified = rd_close_notified s, ck_last_export_error = rd_last_export_error s,
      ck_export_accepted = rd_export_accepted s\<rparr>)"

definition restore_recorder :: "'m fact list \<times> recorder_checkpoint \<Rightarrow> ('m, 'j) recorder
    \<Rightarrow> ('m, 'j) recorder" where
  "restore_recorder checkpoint s = (case checkpoint of (cov, ck) \<Rightarrow>
     s\<lparr>rd_facts := (\<lambda>k. take (ck_lengths ck k) (rd_facts s k))(K_coverage := cov),
       rd_omissions := take (ck_omissions ck) (rd_omissions s),
       rd_retained := ck_retained ck, rd_journaled_classes := ck_journaled_classes ck,
       rd_journaled_omissions := ck_journaled_omissions ck, rd_by_kind := ck_by_kind ck,
       rd_by_class := ck_by_class ck, rd_captured_records := ck_captured_records ck,
       rd_captured_bytes := ck_captured_bytes ck, rd_raw_otlp_bytes := ck_raw_otlp_bytes ck,
       rd_truncated_records := ck_truncated_records ck, rd_omitted_bytes := ck_omitted_bytes ck,
       rd_first_limit := ck_first_limit ck, rd_frozen := ck_frozen ck,
       rd_pending_diagnostic := ck_pending_diagnostic ck,
       rd_diagnostic_emitted := ck_diagnostic_emitted ck, rd_status := ck_status ck,
       rd_closed := ck_closed ck, rd_bundle := ck_bundle ck, rd_close_failed := ck_close_failed ck,
       rd_close_notified := ck_close_notified ck, rd_last_export_error := ck_last_export_error ck,
       rd_export_accepted := ck_export_accepted ck\<rparr>)"

end
