(* ===== verification/ServerWriter.thy ===== *)
theory ServerWriter
  imports Recorder
begin

text \<open>
  The in-memory journal the server writes on a producer's behalf
  (\<^verbatim>\<open>checkpoint/server_writer.py\<close>). It satisfies the calls the recorder makes on its
  checkpoint writer; instead of framing bytes it collects the entries, which \<open>take_new\<close> hands on
  once each. \<open>digest\<close> is \<^verbatim>\<open>sha256(...).hexdigest()\<close> of the bundle id under the fixed prefix.
\<close>

section \<open>State and operations\<close>

record 'j server_writer =
  sv_header :: "journal_open option"
  sv_entries :: "'j journal_entry list"
  sv_entry_count :: nat
  sv_closed :: bool
  sv_journal_id :: "string option"

definition new_server_writer :: "'j server_writer" where
  "new_server_writer = \<lparr>sv_header = None, sv_entries = [], sv_entry_count = 0, sv_closed = False,
     sv_journal_id = None\<rparr>"

definition server_append :: "'j journal_entry \<Rightarrow> 'j server_writer \<Rightarrow> 'j server_writer" where
  "server_append e w = w\<lparr>sv_entries := sv_entries w @ [e], sv_entry_count := sv_entry_count w + 1\<rparr>"

text \<open>\<open>header journal_id\<close> is the header the call's arguments make for a journal identifier.\<close>

definition server_open :: "(string \<Rightarrow> string) \<Rightarrow> string \<Rightarrow> (string \<Rightarrow> journal_open) \<Rightarrow> 'j server_writer
    \<Rightarrow> 'j server_writer" where
  "server_open digest bundle_id header w =
     (if sv_header w \<noteq> None \<or> sv_closed w then w
      else let journal_id = take 32 (digest bundle_id); h = header journal_id
        in server_append (Open_Entry h) (w\<lparr>sv_journal_id := Some journal_id, sv_header := Some h\<rparr>))"

text \<open>The recorder's calls. \<^verbatim>\<open>append_record\<close>, \<^verbatim>\<open>append_limit\<close> and
  \<^verbatim>\<open>append_operation_open\<close> differ only in the entry they build, which is the on-disk
  writer's.\<close>

fun server_call :: "'j writer_call \<Rightarrow> 'j server_writer \<Rightarrow> 'j server_writer" where
  "server_call (Append_Call e) w = (if sv_closed w then w else server_append e w)"
| "server_call (Finalize_Call f) w =
     (if sv_header w = None \<or> sv_closed w then w
      else server_append (Finalize_Entry (f\<lparr>jf_journal_complete := True\<rparr>)) w)"
| "server_call (Release_Call delivered) w = w\<lparr>sv_closed := True\<rparr>"

definition take_new :: "'j server_writer \<Rightarrow> 'j journal_entry list \<times> 'j server_writer" where
  "take_new w = (sv_entries w, w\<lparr>sv_entries := []\<rparr>)"

definition server_checkpoint :: "'j server_writer \<Rightarrow> nat \<times> 'j journal_entry list" where
  "server_checkpoint w = (sv_entry_count w, sv_entries w)"

definition server_restore :: "nat \<times> 'j journal_entry list \<Rightarrow> 'j server_writer \<Rightarrow> 'j server_writer" where
  "server_restore ck w = w\<lparr>sv_entry_count := fst ck, sv_entries := snd ck\<rparr>"

datatype restore_error = Negative_Sequence | Entries_Pending

definition restore_sequence :: "int \<Rightarrow> 'j server_writer \<Rightarrow> restore_error + 'j server_writer" where
  "restore_sequence n w =
     (if n < 0 then Inl Negative_Sequence
      else if sv_entries w \<noteq> [] then Inl Entries_Pending
      else Inr (w\<lparr>sv_entry_count := nat n\<rparr>))"

record server_status =
  st_state :: string
  st_journal_id :: "string option"
  st_last_sequence :: nat

definition server_status_of :: "'j server_writer \<Rightarrow> server_status" where
  "server_status_of w = \<lparr>st_state = (if sv_closed w then ''closed'' else ''open''),
     st_journal_id = sv_journal_id w, st_last_sequence = sv_entry_count w\<rparr>"

section \<open>Drains\<close>

text \<open>
  A run of the writer under its owner: recorder calls, accepted drains (\<open>take_new\<close>, whose entries go to
  the registry, here \<open>taken\<close>), and rejected ones (a checkpoint, some calls, and the restore).
\<close>

datatype 'j drain_event = Call "'j writer_call" | Take | Rejected "'j writer_call list"

definition drain_event :: "'j drain_event \<Rightarrow> 'j journal_entry list \<times> 'j server_writer
    \<Rightarrow> 'j journal_entry list \<times> 'j server_writer" where
  "drain_event ev st = (case st of (taken, w) \<Rightarrow> (case ev of
       Call c \<Rightarrow> (taken, server_call c w)
     | Take \<Rightarrow> (case take_new w of (new, w') \<Rightarrow> (taken @ new, w'))
     | Rejected cs \<Rightarrow> (taken, server_restore (server_checkpoint w) (fold server_call cs w))))"

text \<open>What the calls append, had they all been accepted.\<close>

fun admitted :: "bool \<Rightarrow> 'j writer_call list \<Rightarrow> 'j journal_entry list" where
  "admitted closed [] = []"
| "admitted closed (Append_Call e # cs) = (if closed then [] else [e]) @ admitted closed cs"
| "admitted closed (Finalize_Call f # cs) =
     (if closed then [] else [Finalize_Entry (f\<lparr>jf_journal_complete := True\<rparr>)]) @ admitted closed cs"
| "admitted closed (Release_Call d # cs) = admitted True cs"

lemma fold_server_calls:
  "sv_header w \<noteq> None \<Longrightarrow>
   sv_entries (fold server_call cs w) = sv_entries w @ admitted (sv_closed w) cs \<and>
   sv_entry_count (fold server_call cs w) = sv_entry_count w + length (admitted (sv_closed w) cs) \<and>
   sv_header (fold server_call cs w) \<noteq> None"
  by (induction "sv_closed w" cs arbitrary: w rule: admitted.induct) (auto simp: server_append_def)


fun accepted_calls :: "'j drain_event list \<Rightarrow> 'j writer_call list" where
  "accepted_calls [] = []"
| "accepted_calls (Call c # evs) = c # accepted_calls evs"
| "accepted_calls (Take # evs) = accepted_calls evs"
| "accepted_calls (Rejected cs # evs) = accepted_calls evs"

fun rejects_only_appends :: "'j drain_event \<Rightarrow> bool" where
  "rejects_only_appends (Rejected cs) = list_all (\<lambda>c. case c of Release_Call d \<Rightarrow> False | _ \<Rightarrow> True) cs"
| "rejects_only_appends _ = True"

lemma rejected_keeps_open:
  "list_all (\<lambda>c. case c of Release_Call d \<Rightarrow> False | _ \<Rightarrow> True) cs \<Longrightarrow>
   server_restore (server_checkpoint w) (fold server_call cs w) = w"
proof -
  have "list_all (\<lambda>c. case c of Release_Call d \<Rightarrow> False | _ \<Rightarrow> True) cs \<Longrightarrow>
    \<exists>es n. fold server_call cs v = v\<lparr>sv_entries := es, sv_entry_count := n\<rparr>" for v :: "'a server_writer"
  proof (induction cs arbitrary: v)
    case Nil
    have "v = v\<lparr>sv_entries := sv_entries v, sv_entry_count := sv_entry_count v\<rparr>" by simp
    then show ?case by (metis fold_simps(1))
  next
    case (Cons c cs)
    have self: "\<exists>es n. v = v\<lparr>sv_entries := es, sv_entry_count := n\<rparr>" for v :: "'a server_writer"
      by (rule exI [of _ "sv_entries v"], rule exI [of _ "sv_entry_count v"]) simp
    have add: "\<exists>es n. server_append e v = v\<lparr>sv_entries := es, sv_entry_count := n\<rparr>" for e
      unfolding server_append_def by blast
    have "\<exists>es n. server_call c v = v\<lparr>sv_entries := es, sv_entry_count := n\<rparr>"
      using Cons.prems self [of v] add by (cases c) simp_all
    then obtain es n where c: "server_call c v = v\<lparr>sv_entries := es, sv_entry_count := n\<rparr>" by blast
    have "list_all (\<lambda>c. case c of Release_Call d \<Rightarrow> False | _ \<Rightarrow> True) cs" using Cons.prems by simp
    from Cons.IH [OF this, of "server_call c v"] obtain es' n' where
      "fold server_call cs (server_call c v) = (server_call c v)\<lparr>sv_entries := es', sv_entry_count := n'\<rparr>"
      by blast
    with c show ?case by (intro exI [of _ es'] exI [of _ n']) simp
  qed
  then show "list_all (\<lambda>c. case c of Release_Call d \<Rightarrow> False | _ \<Rightarrow> True) cs \<Longrightarrow>
    server_restore (server_checkpoint w) (fold server_call cs w) = w"
    by (auto simp: server_restore_def server_checkpoint_def dest!: meta_spec [of _ w])
qed

lemma drain_event_simps [simp]:
  "drain_event (Call c) (taken, w) = (taken, server_call c w)"
  "drain_event Take (taken, w) = (taken @ sv_entries w, w\<lparr>sv_entries := []\<rparr>)"
  "drain_event (Rejected cs) (taken, w) =
     (taken, server_restore (server_checkpoint w) (fold server_call cs w))"
  by (simp_all add: drain_event_def take_new_def)

text \<open>C22. Exactly once. However a server-side journal's owner interleaves the recorder's calls,
  accepted drains and rejected ones, the entries it was handed and those still pending are
  together exactly the entries of the accepted calls, in admission order and each once, and the
  writer's sequence is their number; a rejected drain leaves no trace.\<close>

theorem server_drains_exactly_once:
  assumes "sv_header w \<noteq> None" "list_all rejects_only_appends evs"
    and "fold drain_event evs ([], w) = (taken, w')"
  shows "taken @ sv_entries w' = sv_entries w @ admitted (sv_closed w) (accepted_calls evs) \<and>
    sv_entry_count w' = sv_entry_count w + length (admitted (sv_closed w) (accepted_calls evs))"
proof -
  have "sv_header w \<noteq> None \<Longrightarrow> list_all rejects_only_appends evs \<Longrightarrow>
    fold drain_event evs (pre, w) = (taken, w') \<Longrightarrow>
    taken @ sv_entries w' = pre @ sv_entries w @ admitted (sv_closed w) (accepted_calls evs) \<and>
    sv_entry_count w' = sv_entry_count w + length (admitted (sv_closed w) (accepted_calls evs))" for pre
  proof (induction evs arbitrary: pre w)
    case (Cons ev evs)
    show ?case
    proof (cases ev)
      case (Call c)
      with Cons.prems have f: "fold drain_event evs (pre, server_call c w) = (taken, w')"
        by simp
      have h: "sv_header (server_call c w) \<noteq> None"
        using fold_server_calls [OF Cons.prems(1), of "[c]"] by simp
      from Cons.IH [OF h _ f] Cons.prems Call show ?thesis
        by (cases c) (auto simp: server_append_def)
    next
      case Take
      with Cons.prems have f: "fold drain_event evs (pre @ sv_entries w, w\<lparr>sv_entries := []\<rparr>) = (taken, w')"
        by simp
      with Cons.IH [OF _ _ f] Cons.prems Take show ?thesis by simp
    next
      case (Rejected cs)
      with Cons.prems have "fold drain_event evs (pre, w) = (taken, w')"
        by (simp add: rejected_keeps_open)
      with Cons Rejected show ?thesis by simp
    qed
  qed simp
  from this [of "[]"] assms show ?thesis by simp
qed

text \<open>A drain rejected between two accepted ones.\<close>

definition sample_server :: "unit server_writer" where
  "sample_server = server_open (\<lambda>b. b) ''bundle'' (\<lambda>j. sample_header) new_server_writer"

theorem server_drains_exactly_once_witness:
  "fst (fold drain_event [Call (Append_Call (Exhausted_Entry ''a'')), Take,
      Rejected [Append_Call (Exhausted_Entry ''b'')], Call (Append_Call (Exhausted_Entry ''c'')), Take]
      ([], sample_server)) = [Open_Entry sample_header, Exhausted_Entry ''a'', Exhausted_Entry ''c'']"
proof -
  let ?evs = "[Call (Append_Call (Exhausted_Entry ''a'')), Take,
      Rejected [Append_Call (Exhausted_Entry ''b'')], Call (Append_Call (Exhausted_Entry ''c'')), Take]"
  obtain taken w' where r: "fold drain_event ?evs ([], sample_server) = (taken, w')" by fastforce
  have h: "sv_header sample_server \<noteq> None" "sv_entries sample_server = [Open_Entry sample_header]"
      "\<not> sv_closed sample_server"
    by (simp_all add: sample_server_def server_open_def new_server_writer_def server_append_def Let_def)
  have e: "sv_entries w' = []" using r by auto
  from server_drains_exactly_once [OF h(1) _ r] h e r show ?thesis by simp
qed

end
