(* ===== verification/Assembler.thy ===== *)
theory Assembler
  imports ServerWriter
begin

text \<open>
  The assembler (\<^verbatim>\<open>checkpoint/assembler.py\<close>): a journal's replay rebuilt into the snapshot
  an incident is made from, with the cross-check of the recorder's own totals.

  \<open>as_revalidate\<close> is \<^verbatim>\<open>validate_and_classify_record\<close> under the header's policy (a record of
  the journal back as a governed fact with the classes it shows, \<open>None\<close> a \<^verbatim>\<open>ValueError\<close>),
  \<open>as_nonrecord\<close> is \<^verbatim>\<open>validate_nonrecord_entry\<close>, \<open>as_policy\<close> says whether the header's policy
  reads. The profile builder and the bundle are a function of the snapshot, shared with
  \<^verbatim>\<open>close()\<close>, and are not modelled.
\<close>

section \<open>Time points and the observed extent\<close>

record time_point =
  tp_clock_domain :: "string option"
  tp_monotonic :: "int option"
  tp_source_unix :: "int option"
  tp_observed_unix :: "int option"

text \<open>The first basis both points have decides.\<close>

fun first_basis :: "(int option \<times> int option) list \<Rightarrow> bool" where
  "first_basis [] = False"
| "first_basis ((Some here, Some there) # bases) = (here < there)"
| "first_basis ((_, _) # bases) = first_basis bases"

definition strictly_before :: "time_point \<Rightarrow> time_point \<Rightarrow> bool" where
  "strictly_before p q =
     (if tp_clock_domain p = None \<or> tp_clock_domain p \<noteq> tp_clock_domain q then False
      else first_basis [(tp_monotonic p, tp_monotonic q), (tp_source_unix p, tp_source_unix q),
             (tp_observed_unix p, tp_observed_unix q)])"

section \<open>The state a journal replays into\<close>

record ('m, 'j) replay_state =
  ra_facts :: "record_kind \<Rightarrow> 'm fact list"
  ra_omissions :: "omission list"
  ra_retained :: "capture_class set"
  ra_open_operations :: "(string \<times> 'j journal_operation_open) list"
  ra_first_limit :: "string option"
  ra_truncated_records :: nat
  ra_omitted_bytes :: nat
  ra_by_kind :: "(string \<times> nat) list"
  ra_by_class :: "(string \<times> nat) list"
  ra_first_observation :: "time_point option"
  ra_last_observation :: "time_point option"

definition new_replay :: "('m, 'j) replay_state" where
  "new_replay = \<lparr>ra_facts = (\<lambda>k. []), ra_omissions = [], ra_retained = {METADATA},
     ra_open_operations = [], ra_first_limit = None, ra_truncated_records = 0,
     ra_omitted_bytes = 0, ra_by_kind = [], ra_by_class = map (\<lambda>c. (class_value c, 0)) all_classes,
     ra_first_observation = None, ra_last_observation = None\<rparr>"

definition observe :: "time_point option \<Rightarrow> ('m, 'j) replay_state \<Rightarrow> ('m, 'j) replay_state" where
  "observe point s = (case point of
       None \<Rightarrow> s
     | Some p \<Rightarrow>
         let first = (case ra_first_observation s of None \<Rightarrow> Some p
               | Some f \<Rightarrow> if strictly_before p f then Some p else Some f);
             last' = (case ra_last_observation s of None \<Rightarrow> Some p
               | Some l \<Rightarrow> if \<not> strictly_before p l then Some p else Some l)
         in s\<lparr>ra_first_observation := first, ra_last_observation := last'\<rparr>)"

datatype assembly_error =
    Unreadable_Policy | Ungoverned_Entry | Ungoverned_Record | Supersedes_Unadmitted
  | Trailing_Bytes | Counter_Mismatch | Bad_Time_Point

definition append_fact :: "record_kind \<Rightarrow> 'm fact \<Rightarrow> nat option \<Rightarrow> ('m, 'j) replay_state
    \<Rightarrow> assembly_error + ('m, 'j) replay_state" where
  "append_fact kind f replaces_index s =
     (let target = ra_facts s kind in
      case replaces_index of
        Some i \<Rightarrow> if i \<ge> length target then Inl Supersedes_Unadmitted
                  else Inr (s\<lparr>ra_facts := (ra_facts s)(kind := target[i := f])\<rparr>)
      | None \<Rightarrow> Inr (s\<lparr>ra_facts := (ra_facts s)(kind := target @ [f])\<rparr>))"

definition replay_counts :: "('m, 'j) replay_state \<Rightarrow> (string \<times> nat) list" where
  "replay_counts s =
     [(''adapters'', length (ra_facts s K_adapter)),
      (''participants'', length (ra_facts s K_participant)),
      (''audio_streams'', length (ra_facts s K_stream)),
      (''clock_domains'', length (ra_facts s K_clock_domain)),
      (''clock_relations'', length (ra_facts s K_clock_relation)),
      (''coverage'', length (ra_facts s K_coverage)),
      (''operations'', length (ra_facts s K_operation)),
      (''events'', length (ra_facts s K_event)),
      (''quality_samples'', length (ra_facts s K_quality_sample)),
      (''media_refs'', length (ra_facts s K_media)),
      (''omissions'', length (ra_omissions s)),
      (''raw_otlp_chunks'', length (ra_facts s K_raw_otlp))]"

text \<open>The times a governed fact shows, and its identifier as an operation.\<close>

record ('m, 'j) assembler_env =
  as_revalidate :: "record_kind \<Rightarrow> 'j \<Rightarrow> ('m fact \<times> capture_class set) option"
  as_nonrecord :: "'j journal_entry \<Rightarrow> bool"
  as_policy :: "journal_open \<Rightarrow> bool"
  as_time_point :: "'j \<Rightarrow> time_point option"
  as_window :: "'m fact \<Rightarrow> (time_point option \<times> time_point option) option"
  as_ended_at :: "'m fact \<Rightarrow> time_point option"
  as_started_at :: "'m fact \<Rightarrow> time_point option"
  as_time :: "'m fact \<Rightarrow> time_point option"
  as_operation_id :: "'m fact \<Rightarrow> string"
  as_unfinished :: "string \<Rightarrow> 'j journal_operation_open \<Rightarrow> time_point \<Rightarrow> 'm fact"

definition observe_time :: "('m, 'j) assembler_env \<Rightarrow> 'm fact \<Rightarrow> ('m, 'j) replay_state
    \<Rightarrow> ('m, 'j) replay_state" where
  "observe_time A f s = (case as_window A f of
       Some (a, b) \<Rightarrow> observe b (observe a s)
     | None \<Rightarrow>
         let candidate = (case as_ended_at A f of Some t \<Rightarrow> Some t | None \<Rightarrow> as_started_at A f);
             candidate' = (case candidate of Some t \<Rightarrow> Some t | None \<Rightarrow> as_time A f)
         in observe candidate' s)"

section \<open>Applying entries\<close>

fun apply_omissions :: "journal_omission list \<Rightarrow> nat \<Rightarrow> ('m, 'j) replay_state
    \<Rightarrow> nat \<times> ('m, 'j) replay_state" where
  "apply_omissions [] discarded s = (discarded, s)"
| "apply_omissions (o1 # os) discarded s = (case class_of_name (jm_capture_class o1) of
       Some c \<Rightarrow> apply_omissions os discarded
         (s\<lparr>ra_omissions := ra_omissions s @ [(jm_field_key_sha256 o1, c, jm_reason o1)]\<rparr>)
     | None \<Rightarrow> apply_omissions os (discarded + 1) s)"

fun apply_classes :: "string list \<Rightarrow> nat \<Rightarrow> ('m, 'j) replay_state \<Rightarrow> nat \<times> ('m, 'j) replay_state" where
  "apply_classes [] discarded s = (discarded, s)"
| "apply_classes (name # names) discarded s = (case class_of_name name of
       Some c \<Rightarrow> apply_classes names discarded (s\<lparr>ra_retained := insert c (ra_retained s)\<rparr>)
     | None \<Rightarrow> apply_classes names (discarded + 1) s)"

definition apply_record :: "('m, 'j) assembler_env \<Rightarrow> 'j journal_record \<Rightarrow> ('m, 'j) replay_state
    \<Rightarrow> assembly_error + nat \<times> ('m, 'j) replay_state" where
  "apply_record A e s =
     (let ledger = (\<lambda>s. case apply_omissions (jr_omissions e) 0 s of
           (d, s1) \<Rightarrow> apply_classes (jr_retained_classes e) d s1)
      in case jr_value e of
        None \<Rightarrow> Inr (ledger s)
      | Some v \<Rightarrow>
          (case as_revalidate A (jr_kind e) v of
             None \<Rightarrow> Inl Ungoverned_Record
           | Some (f, derived) \<Rightarrow>
               if jr_kind e = K_raw_otlp
               then Inr (ledger (s\<lparr>ra_facts := (ra_facts s)(K_raw_otlp := ra_facts s K_raw_otlp @ [f]),
                      ra_retained := ra_retained s \<union> derived\<rparr>))
               else if jr_kind e \<in> {K_omission, K_policy} then Inr (1, s)
               else (case append_fact (jr_kind e) f (jr_replaces_index e) s of
                       Inl er \<Rightarrow> Inl er
                     | Inr s1 \<Rightarrow>
                         let s2 = observe_time A f s1
                         in Inr (ledger (s2\<lparr>ra_retained := ra_retained s2 \<union> derived\<rparr>)))))"

definition count_up :: "string \<Rightarrow> (string \<times> nat) list \<Rightarrow> (string \<times> nat) list" where
  "count_up key d = AList.update key ((case map_of d key of None \<Rightarrow> 0 | Some n \<Rightarrow> n) + 1) d"

definition apply_limit :: "journal_limit \<Rightarrow> ('m, 'j) replay_state \<Rightarrow> ('m, 'j) replay_state" where
  "apply_limit e s =
     (let s1 = (if ra_first_limit s = None then s\<lparr>ra_first_limit := Some (jl_reason e)\<rparr> else s);
          s2 = (if jl_whole_record e
                then s1\<lparr>ra_truncated_records := ra_truncated_records s1 + 1,
                        ra_by_kind := count_up (jl_kind e) (ra_by_kind s1)\<rparr> else s1)
      in s2\<lparr>ra_by_class := count_up (jl_capture_class e) (ra_by_class s2),
            ra_omitted_bytes := ra_omitted_bytes s2 + jl_estimated_bytes e\<rparr>)"

text \<open>The loop over the entries: the records discarded, whether the journal filled up, the state.\<close>

fun replay_entries :: "('m, 'j) assembler_env \<Rightarrow> 'j journal_entry list \<Rightarrow> nat \<Rightarrow> bool
    \<Rightarrow> ('m, 'j) replay_state \<Rightarrow> assembly_error + nat \<times> bool \<times> ('m, 'j) replay_state" where
  "replay_entries A [] discarded full s = Inr (discarded, full, s)"
| "replay_entries A (e # es) discarded full s =
     (if \<not> as_nonrecord A e then Inl Ungoverned_Entry
      else case e of
        Record_Entry r \<Rightarrow> (case apply_record A r s of
            Inl er \<Rightarrow> Inl er
          | Inr (d, s1) \<Rightarrow> replay_entries A es (discarded + d) full s1)
      | Limit_Entry l \<Rightarrow> replay_entries A es discarded full (apply_limit l s)
      | Operation_Open_Entry p \<Rightarrow>
          (case as_time_point A (jp_started_at p) of
             None \<Rightarrow> Inl Bad_Time_Point
           | Some t \<Rightarrow> replay_entries A es discarded full (observe (Some t)
               (s\<lparr>ra_open_operations := AList.update (jp_operation_id p) p (ra_open_operations s)\<rparr>)))
      | Exhausted_Entry reason \<Rightarrow> replay_entries A es discarded True s
      | Finalize_Entry f \<Rightarrow> Inr (discarded, full, s)
      | Open_Entry h \<Rightarrow> replay_entries A es discarded full s)"

section \<open>The cross-check\<close>

text \<open>Python's equality of dictionaries; a dictionary built from pairs keeps the last of a key.\<close>

definition dict_eq :: "('a \<times> 'b) list \<Rightarrow> ('a \<times> 'b) list \<Rightarrow> bool" where
  "dict_eq d e = list_all (\<lambda>k. map_of d k = map_of e k) (map fst d @ map fst e)"

definition nonzero :: "(string \<times> nat) list \<Rightarrow> (string \<times> nat) list" where
  "nonzero d = filter (\<lambda>(k, n). n \<noteq> 0) d"

definition cross_check :: "('m, 'j) replay_state \<Rightarrow> 'j journal_finalize \<Rightarrow> bool" where
  "cross_check s f =
     (ra_first_limit s \<noteq> jf_first_limit_reason f
      \<or> ra_truncated_records s \<noteq> jf_truncated_records f
      \<or> ra_omitted_bytes s \<noteq> jf_estimated_omitted_bytes f
      \<or> \<not> dict_eq (nonzero (ra_by_kind s)) (nonzero (rev (jf_omitted_by_kind f)))
      \<or> \<not> dict_eq (nonzero (ra_by_class s)) (nonzero (rev (jf_omitted_by_class f)))
      \<or> map class_value (sorted_classes (ra_retained s)) \<noteq> jf_retained_classes f
      \<or> \<not> dict_eq (replay_counts s) (rev (jf_record_counts f)))"

section \<open>Unfinished operations and the snapshot\<close>

text \<open>\<open>None\<close> is a start time that is not a time point.\<close>

fun unfinished_loop :: "('m, 'j) assembler_env \<Rightarrow> string \<Rightarrow> string list
    \<Rightarrow> (string \<times> 'j journal_operation_open) list \<Rightarrow> 'm fact list option" where
  "unfinished_loop A session_id completed [] = Some []"
| "unfinished_loop A session_id completed ((ident, p) # ps) =
     (if ident \<in> set completed then unfinished_loop A session_id completed ps
      else case as_time_point A (jp_started_at p) of
        None \<Rightarrow> None
      | Some t \<Rightarrow> map_option ((#) (as_unfinished A session_id p t))
          (unfinished_loop A session_id completed ps))"

definition unfinished_operations :: "('m, 'j) assembler_env \<Rightarrow> string \<Rightarrow> ('m, 'j) replay_state
    \<Rightarrow> 'm fact list option" where
  "unfinished_operations A session_id s =
     unfinished_loop A session_id (map (as_operation_id A) (ra_facts s K_operation))
       (ra_open_operations s)"

record ('m, 'e) snapshot =
  sn_bundle_id :: string
  sn_session_id :: string
  sn_clock_domain_id :: string
  sn_started_wall :: nat
  sn_started_mono :: int
  sn_status :: string
  sn_attributes :: "(string \<times> string) list"
  sn_ended_at :: "'e option"
  sn_facts :: "record_kind \<Rightarrow> 'm fact list"
  sn_omissions :: "omission list"
  sn_retained :: "capture_class set"
  sn_first_limit :: "string option"
  sn_by_class :: "(string \<times> nat) list"
  sn_unfinished :: nat

record recovery =
  rv_method :: string
  rv_reason :: string
  rv_journal_id :: string
  rv_last_sequence :: nat
  rv_first_observation :: "time_point option"
  rv_last_observation :: "time_point option"
  rv_torn_tail_bytes :: nat
  rv_discarded_records :: nat
  rv_journal_complete :: bool

record assembly_report =
  ar_bundle_id :: string
  ar_last_sequence :: nat
  ar_close_observed :: bool
  ar_torn_tail_bytes :: nat
  ar_discarded_records :: nat
  ar_journal_complete :: bool
  ar_counter_mismatch :: bool
  ar_unfinished :: nat

definition make_snapshot :: "journal_open \<Rightarrow> string \<Rightarrow> string \<Rightarrow> (string \<times> string) list \<Rightarrow> 'e option \<Rightarrow> nat
    \<Rightarrow> ('m, 'j) replay_state \<Rightarrow> ('m, 'e) snapshot" where
  "make_snapshot h bundle_id status attributes ended unfinished s =
     \<lparr>sn_bundle_id = bundle_id, sn_session_id = jo_session_id h,
      sn_clock_domain_id = jo_clock_domain_id h, sn_started_wall = jo_started_wall h,
      sn_started_mono = jo_started_mono h, sn_status = status, sn_attributes = attributes,
      sn_ended_at = ended, sn_facts = ra_facts s, sn_omissions = ra_omissions s,
      sn_retained = ra_retained s, sn_first_limit = ra_first_limit s,
      sn_by_class = ra_by_class s, sn_unfinished = unfinished\<rparr>"

definition METHOD_CHECKPOINT_JOURNAL :: string where
  "METHOD_CHECKPOINT_JOURNAL = ''checkpoint_journal''"
definition REASON_BEFORE_CLOSE :: string where
  "REASON_BEFORE_CLOSE = ''process_terminated_before_close''"
definition RECOVERED_SESSION_STATUS :: string where "RECOVERED_SESSION_STATUS = ''interrupted''"

text \<open>\<open>or_default\<close> is Python's \<^verbatim>\<open>x or default\<close> of an optional string.\<close>

definition or_default :: "string option \<Rightarrow> string \<Rightarrow> string" where
  "or_default x d = (case x of None \<Rightarrow> d | Some s \<Rightarrow> if s = [] then d else s)"

definition assemble_incident :: "('m, 'j) assembler_env \<Rightarrow> bool \<Rightarrow> string option \<Rightarrow> string option
    \<Rightarrow> string option \<Rightarrow> 'j journal_replay
    \<Rightarrow> assembly_error + (('m, time_point) snapshot \<times> recovery option \<times> assembly_report)" where
  "assemble_incident A best_effort sfx recovery_method recovery_reason replay =
     (let h = rp_header replay; fin = replay_finalize replay; torn = rp_torn_tail_bytes replay in
      if fin \<noteq> None \<and> torn > 0 then Inl Trailing_Bytes
      else if \<not> as_policy A h \<or> \<not> as_nonrecord A (Open_Entry h) then Inl Unreadable_Policy
      else case replay_entries A (rp_entries replay) 0 False new_replay of
        Inl er \<Rightarrow> Inl er
      | Inr (discarded, full, s) \<Rightarrow>
          let complete = (\<not> full \<and> torn = 0 \<and>
                (case fin of None \<Rightarrow> True | Some f \<Rightarrow> jf_journal_complete f));
              mismatch = (case fin of None \<Rightarrow> False | Some f \<Rightarrow> cross_check s f);
              bundle_id = jo_bundle_id h @ (case sfx of None \<Rightarrow> [] | Some x \<Rightarrow> x);
              report = (\<lambda>unfinished. \<lparr>ar_bundle_id = bundle_id, ar_last_sequence = rp_last_sequence replay,
                ar_close_observed = (fin \<noteq> None), ar_torn_tail_bytes = torn,
                ar_discarded_records = discarded, ar_journal_complete = complete,
                ar_counter_mismatch = mismatch, ar_unfinished = unfinished\<rparr>)
          in if mismatch \<and> \<not> best_effort then Inl Counter_Mismatch
             else (case fin of
                 Some f \<Rightarrow> (case as_time_point A (jf_ended f) of
                     None \<Rightarrow> Inl Bad_Time_Point
                   | Some t \<Rightarrow> Inr (make_snapshot h bundle_id (jf_status f) (jf_status_attributes f)
                       (Some t) 0 s, None, report 0))
               | None \<Rightarrow> (case unfinished_operations A (jo_session_id h) s of
                     None \<Rightarrow> Inl Bad_Time_Point
                   | Some ops \<Rightarrow>
                       let s' = s\<lparr>ra_facts := (ra_facts s)(K_operation := ra_facts s K_operation @ ops)\<rparr>
                       in Inr (make_snapshot h bundle_id RECOVERED_SESSION_STATUS [] None (length ops) s',
                         Some \<lparr>rv_method = or_default recovery_method METHOD_CHECKPOINT_JOURNAL,
                           rv_reason = or_default recovery_reason REASON_BEFORE_CLOSE,
                           rv_journal_id = jo_journal_id h,
                           rv_last_sequence = rp_last_sequence replay,
                           rv_first_observation = ra_first_observation s,
                           rv_last_observation = ra_last_observation s,
                           rv_torn_tail_bytes = torn, rv_discarded_records = discarded,
                           rv_journal_complete = complete\<rparr>, report (length ops)))))"


section \<open>The observed extent\<close>

fun coherent_extent :: "time_point option \<Rightarrow> time_point option \<Rightarrow> bool" where
  "coherent_extent None None = True"
| "coherent_extent (Some f) (Some l) = (\<not> strictly_before l f)"
| "coherent_extent _ _ = False"

definition extent_coherent :: "('m, 'j) replay_state \<Rightarrow> bool" where
  "extent_coherent s = coherent_extent (ra_first_observation s) (ra_last_observation s)"

lemma strictly_before_asym: "strictly_before p q \<Longrightarrow> \<not> strictly_before q p"
proof -
  have "first_basis bs \<Longrightarrow> \<not> first_basis (map (\<lambda>(a, b). (b, a)) bs)" for bs
    by (induction bs rule: first_basis.induct) auto
  from this [of "[(tp_monotonic p, tp_monotonic q), (tp_source_unix p, tp_source_unix q),
       (tp_observed_unix p, tp_observed_unix q)]"]
  show "strictly_before p q \<Longrightarrow> \<not> strictly_before q p"
    by (auto simp: strictly_before_def split: if_splits)
qed

lemma observe_coherent: "extent_coherent s \<Longrightarrow> extent_coherent (observe point s)"
  using strictly_before_asym
  by (cases "ra_first_observation s"; cases "ra_last_observation s")
     (auto simp: extent_coherent_def observe_def Let_def split: option.splits)

lemma observe_fields [simp]:
  "ra_facts (observe p s) = ra_facts s" "ra_omissions (observe p s) = ra_omissions s"
  "ra_retained (observe p s) = ra_retained s" "ra_first_limit (observe p s) = ra_first_limit s"
  "ra_truncated_records (observe p s) = ra_truncated_records s"
  "ra_omitted_bytes (observe p s) = ra_omitted_bytes s" "ra_by_kind (observe p s) = ra_by_kind s"
  "ra_by_class (observe p s) = ra_by_class s"
  by (simp_all add: observe_def Let_def split: option.split)

lemma observe_time_fields [simp]:
  "ra_facts (observe_time A f s) = ra_facts s" "ra_omissions (observe_time A f s) = ra_omissions s"
  "ra_retained (observe_time A f s) = ra_retained s"
  "ra_first_limit (observe_time A f s) = ra_first_limit s"
  "ra_truncated_records (observe_time A f s) = ra_truncated_records s"
  "ra_omitted_bytes (observe_time A f s) = ra_omitted_bytes s"
  "ra_by_kind (observe_time A f s) = ra_by_kind s" "ra_by_class (observe_time A f s) = ra_by_class s"
  by (auto simp: observe_time_def Let_def split: option.split prod.split)

lemma observe_time_coherent: "extent_coherent s \<Longrightarrow> extent_coherent (observe_time A f s)"
  by (auto simp: observe_time_def Let_def intro!: observe_coherent split: option.split prod.split)

lemma apply_omissions_eq:
  "apply_omissions os d s = (d', s') \<Longrightarrow>
   \<exists>oms. s' = s\<lparr>ra_omissions := oms\<rparr>"
proof (induction os d s rule: apply_omissions.induct)
  case (1 d s)
  then have "s' = s\<lparr>ra_omissions := ra_omissions s\<rparr>" by simp
  then show ?case by blast
next
  case (2 o1 os d s)
  then show ?case by (cases "class_of_name (jm_capture_class o1)") fastforce+
qed

lemma apply_classes_eq:
  "apply_classes ns d s = (d', s') \<Longrightarrow> \<exists>cs. s' = s\<lparr>ra_retained := cs\<rparr>"
proof (induction ns d s rule: apply_classes.induct)
  case (1 d s)
  then have "s' = s\<lparr>ra_retained := ra_retained s\<rparr>" by simp
  then show ?case by blast
next
  case (2 n ns d s)
  then show ?case by (cases "class_of_name n") fastforce+
qed

lemma extent_coherent_simps [simp]:
  "extent_coherent (s\<lparr>ra_retained := cs\<rparr>) = extent_coherent s"
  "extent_coherent (s\<lparr>ra_facts := fs\<rparr>) = extent_coherent s"
  "extent_coherent (s\<lparr>ra_omissions := oms\<rparr>) = extent_coherent s"
  "extent_coherent (s\<lparr>ra_open_operations := ops\<rparr>) = extent_coherent s"
  "extent_coherent (s\<lparr>ra_facts := fs, ra_retained := cs\<rparr>) = extent_coherent s"
  "extent_coherent (s\<lparr>ra_omissions := oms, ra_retained := cs\<rparr>) = extent_coherent s"
  "extent_coherent (apply_limit l s) = extent_coherent s"
  by (simp_all add: extent_coherent_def apply_limit_def Let_def)

lemma apply_record_coherent:
  assumes "apply_record A e s = Inr (d, s')" "extent_coherent s"
  shows "extent_coherent s'"
proof -
  let ?ledger = "\<lambda>s. case apply_omissions (jr_omissions e) 0 s of
      (d, s1) \<Rightarrow> apply_classes (jr_retained_classes e) d s1"
  have ledger: "extent_coherent s'" if l: "?ledger t = (d, s')" and t: "extent_coherent t" for t
  proof -
    obtain d1 s1 where o: "apply_omissions (jr_omissions e) 0 t = (d1, s1)" by fastforce
    with l have "apply_classes (jr_retained_classes e) d1 s1 = (d, s')" by simp
    with apply_omissions_eq [OF o] t show ?thesis by (auto dest!: apply_classes_eq)
  qed
  show ?thesis
  proof (cases "jr_value e")
    case None
    with assms ledger show ?thesis by (simp add: apply_record_def)
  next
    case (Some v)
    with assms(1) obtain f derived where rv: "as_revalidate A (jr_kind e) v = Some (f, derived)"
      by (auto simp: apply_record_def split: option.splits)
    note e' = assms(1) [unfolded apply_record_def Let_def Some rv option.case prod.case]
    consider (raw) "jr_kind e = K_raw_otlp" | (bare) "jr_kind e \<in> {K_omission, K_policy}"
      | (typed) "jr_kind e \<noteq> K_raw_otlp" "jr_kind e \<notin> {K_omission, K_policy}" by blast
    then show ?thesis
    proof cases
      case raw
      with e' have "?ledger (s\<lparr>ra_facts := (ra_facts s)(K_raw_otlp := ra_facts s K_raw_otlp @ [f]),
          ra_retained := ra_retained s \<union> derived\<rparr>) = (d, s')" by simp
      from ledger [OF this] assms(2) show ?thesis by simp
    next
      case bare
      with e' assms(2) show ?thesis by auto
    next
      case typed
      with e' obtain s1 where s1: "append_fact (jr_kind e) f (jr_replaces_index e) s = Inr s1"
        by (auto split: sum.splits)
      with e' typed have "?ledger ((observe_time A f s1)
          \<lparr>ra_retained := ra_retained (observe_time A f s1) \<union> derived\<rparr>) = (d, s')" by simp
      moreover have "extent_coherent s1"
        using s1 assms(2) by (auto simp: append_fact_def Let_def split: option.splits if_splits)
      ultimately show ?thesis using ledger observe_time_coherent by fastforce
    qed
  qed
qed

lemma replay_coherent:
  "replay_entries A es d x s = Inr (d', x', s') \<Longrightarrow> extent_coherent s \<Longrightarrow> extent_coherent s'"
proof (induction A es d x s rule: replay_entries.induct)
  case (2 A e es d x s)
  show ?case
  proof (cases e)
    case (Record_Entry r)
    with "2.prems"(1) obtain d1 s1 where r: "apply_record A r s = Inr (d1, s1)" "as_nonrecord A e"
        "replay_entries A es (d + d1) x s1 = Inr (d', x', s')"
      by (auto split: if_splits sum.splits)
    from r(1) "2.prems"(2) have "extent_coherent s1" by (rule apply_record_coherent)
    moreover have "extent_coherent s1 \<Longrightarrow> extent_coherent s'"
      using 2(2) [OF _ _ r(1)] r(2,3) Record_Entry by simp
    ultimately show ?thesis by blast
  next
    case (Limit_Entry l)
    with 2 show ?thesis by (auto split: if_splits)
  next
    case (Operation_Open_Entry p)
    have "extent_coherent (observe t (s\<lparr>ra_open_operations :=
        AList.update (jp_operation_id p) p (ra_open_operations s)\<rparr>))" for t
      by (rule observe_coherent) (use "2.prems"(2) in simp)
    with 2 Operation_Open_Entry show ?thesis by (auto split: if_splits option.splits)
  qed (use 2 in \<open>auto split: if_splits\<close>)
qed simp

section \<open>Recovery\<close>

lemma observe_open [simp]: "ra_open_operations (observe p s) = ra_open_operations s"
  by (simp add: observe_def Let_def split: option.split)

lemma observe_time_open [simp]: "ra_open_operations (observe_time A f s) = ra_open_operations s"
  by (auto simp: observe_time_def Let_def split: option.split prod.split)

lemma ledger_open:
  "(case apply_omissions os 0 t of (d, s1) \<Rightarrow> apply_classes ns d s1) = (d', s') \<Longrightarrow>
   ra_open_operations s' = ra_open_operations t"
  by (auto split: prod.splits dest!: apply_omissions_eq apply_classes_eq)

lemma append_fact_open: "append_fact kind f i s = Inr s' \<Longrightarrow> ra_open_operations s' = ra_open_operations s"
  by (auto simp: append_fact_def Let_def split: option.splits if_splits)

lemma apply_record_open:
  "apply_record A e s = Inr (d, s') \<Longrightarrow> ra_open_operations s' = ra_open_operations s"
  by (auto simp: apply_record_def Let_def split: option.splits if_splits sum.splits
      dest!: ledger_open append_fact_open)

lemma apply_limit_open [simp]: "ra_open_operations (apply_limit l s) = ra_open_operations s"
  by (simp add: apply_limit_def Let_def)

definition opened_ids :: "'j journal_entry list \<Rightarrow> string set" where
  "opened_ids es = {jp_operation_id p | p. Operation_Open_Entry p \<in> set es}"

lemma opened_ids_simps [simp]:
  "opened_ids [] = {}" "opened_ids (Operation_Open_Entry p # es) = insert (jp_operation_id p) (opened_ids es)"
  "(\<And>p. e \<noteq> Operation_Open_Entry p) \<Longrightarrow> opened_ids (e # es) = opened_ids es"
  by (auto simp: opened_ids_def)

definition open_keyed :: "('m, 'j) replay_state \<Rightarrow> bool" where
  "open_keyed s = list_all (\<lambda>(k, p). k = jp_operation_id p) (ra_open_operations s)"

lemma open_keyed_update:
  "list_all (\<lambda>(k, p). k = jp_operation_id p) d \<Longrightarrow>
   list_all (\<lambda>(k, p). k = jp_operation_id p) (AList.update (jp_operation_id q) q d)"
  by (induction d) auto

lemma replay_open_operations:
  "replay_entries A es d x s = Inr (d', x', s') \<Longrightarrow> list_all (\<lambda>e. \<not> is_finalize e) es \<Longrightarrow> open_keyed s \<Longrightarrow>
   open_keyed s' \<and> fst ` set (ra_open_operations s') = fst ` set (ra_open_operations s) \<union> opened_ids es \<and>
   x' = (x \<or> (\<exists>r. Exhausted_Entry r \<in> set es))"
proof (induction A es d x s rule: replay_entries.induct)
  case (2 A e es d x s)
  show ?case
  proof (cases e)
    case (Record_Entry r)
    with "2.prems"(1) obtain d1 s1 where r: "apply_record A r s = Inr (d1, s1)" "as_nonrecord A e"
        "replay_entries A es (d + d1) x s1 = Inr (d', x', s')"
      by (auto split: if_splits sum.splits)
    have "open_keyed s1" using "2.prems"(3) apply_record_open [OF r(1)] by (simp add: open_keyed_def)
    then show ?thesis
      using 2(2) [OF _ _ r(1)] r(2,3) Record_Entry "2.prems"(2) apply_record_open [OF r(1)] by simp
  next
    case (Limit_Entry l)
    with 2 show ?thesis by (auto simp: open_keyed_def split: if_splits)
  next
    case (Operation_Open_Entry p)
    with "2.prems"(1) obtain t where t: "as_time_point A (jp_started_at p) = Some t" "as_nonrecord A e"
      by (auto split: if_splits option.splits)
    let ?s = "observe (Some t) (s\<lparr>ra_open_operations :=
        AList.update (jp_operation_id p) p (ra_open_operations s)\<rparr>)"
    have "open_keyed ?s" using "2.prems"(3) open_keyed_update by (simp add: open_keyed_def)
    moreover have "fst ` set (ra_open_operations ?s) = insert (jp_operation_id p) (fst ` set (ra_open_operations s))"
      by (simp add: update_conv' flip: dom_map_of_conv_image_fst)
    ultimately show ?thesis
      using 2(4) [OF _ Operation_Open_Entry t(1)] t "2.prems" Operation_Open_Entry by auto
  qed (use 2 in \<open>auto simp: is_finalize_iff split: if_splits\<close>)
qed simp

lemma unfinished_loop_ids:
  assumes "\<And>p t. as_operation_id A (as_unfinished A sid p t) = jp_operation_id p"
  shows "unfinished_loop A sid done d = Some ops \<Longrightarrow> list_all (\<lambda>(k, p). k = jp_operation_id p) d \<Longrightarrow>
    as_operation_id A ` set ops = fst ` set d - set done"
proof (induction d arbitrary: ops)
  case (Cons x d)
  obtain ident p where x: "x = (ident, p)" by fastforce
  show ?case
  proof (cases "ident \<in> set done")
    case True
    with Cons show ?thesis by (auto simp: x)
  next
    case False
    with Cons.prems(1) obtain t z where z: "unfinished_loop A sid done d = Some z"
        "ops = as_unfinished A sid p t # z"
      by (auto simp: x split: option.splits)
    have "as_operation_id A ` set z = fst ` set d - set done" using Cons.IH [OF z(1)] Cons.prems(2) by simp
    then show ?thesis using False Cons.prems(2) by (simp add: z(2) x assms insert_Diff_if)
  qed
qed simp

text \<open>
  C9. An incident rebuilt from a journal whose close was never observed says so: it is interrupted,
  has no end and carries a recovery record, whose observed extent never runs backwards and which
  claims a complete journal only when no tail was torn and the journal never filled up; and no
  operation the journal opened is lost, each appears as recorded or as unfinished.
\<close>

theorem recovered_incident_is_honest:
  assumes "assemble_incident A best_effort sfx method reason replay = Inr (sn, rec, report)"
    and "list_all (\<lambda>e. \<not> is_finalize e) (rp_entries replay)"
    and "\<And>sid p t. as_operation_id A (as_unfinished A sid p t) = jp_operation_id p"
  shows "\<exists>rv. rec = Some rv \<and> sn_status sn = ''interrupted'' \<and> sn_ended_at sn = None \<and>
     coherent_extent (rv_first_observation rv) (rv_last_observation rv) \<and>
     rv_journal_complete rv = (rp_torn_tail_bytes replay = 0 \<and>
       (\<exists>r. Exhausted_Entry r \<in> set (rp_entries replay)) = False) \<and>
     opened_ids (rp_entries replay) \<subseteq> as_operation_id A ` set (sn_facts sn K_operation)"
proof -
  have "replay_finalize replay = None"
    using assms(2) by (cases "rp_entries replay" rule: rev_cases)
      (auto simp: replay_finalize_def is_finalize_iff split: journal_entry.split)
  then have nf: "replay_finalize replay = None" .
  obtain d x s where r: "replay_entries A (rp_entries replay) 0 False new_replay = Inr (d, x, s)"
    using assms(1) by (auto simp: assemble_incident_def Let_def split: if_splits sum.splits)
  have "extent_coherent s"
    using replay_coherent [OF r] by (simp add: extent_coherent_def new_replay_def)
  moreover have ops: "open_keyed s" "fst ` set (ra_open_operations s) = opened_ids (rp_entries replay)"
      "x = (\<exists>r. Exhausted_Entry r \<in> set (rp_entries replay))"
    using replay_open_operations [OF r assms(2)] by (simp_all add: open_keyed_def new_replay_def)
  moreover obtain ops where u: "unfinished_operations A (jo_session_id (rp_header replay)) s = Some ops"
    using assms(1) r nf by (auto simp: assemble_incident_def Let_def split: if_splits option.splits)
  moreover have "as_operation_id A ` set ops
      = fst ` set (ra_open_operations s) - set (map (as_operation_id A) (ra_facts s K_operation))"
    using unfinished_loop_ids [OF assms(3) u [unfolded unfinished_operations_def]] ops(1)
    by (simp add: open_keyed_def)
  then have "opened_ids (rp_entries replay) \<subseteq> as_operation_id A ` (set (ra_facts s K_operation) \<union> set ops)"
    unfolding ops(2) image_Un set_map by blast
  ultimately show ?thesis
    using assms(1) r nf
    by (auto simp: assemble_incident_def Let_def make_snapshot_def RECOVERED_SESSION_STATUS_def
        extent_coherent_def split: if_splits)
qed

text \<open>A journal that opened one operation and ended there.\<close>

definition sample_point :: time_point where
  "sample_point = \<lparr>tp_clock_domain = Some ''main'', tp_monotonic = Some 9, tp_source_unix = None,
     tp_observed_unix = None\<rparr>"

definition sample_governance :: "(string, string fact) assembler_env" where
  "sample_governance = \<lparr>as_revalidate = (\<lambda>kind v. Some (v, {METADATA})), as_nonrecord = (\<lambda>e. True),
     as_policy = (\<lambda>h. True), as_time_point = (\<lambda>v. Some sample_point), as_window = (\<lambda>f. None),
     as_ended_at = (\<lambda>f. None), as_started_at = (\<lambda>f. None), as_time = (\<lambda>f. None),
     as_operation_id = (\<lambda>f. case f of Model_Fact m \<Rightarrow> m | Coverage_Fact c \<Rightarrow> []),
     as_unfinished = (\<lambda>i p t. Model_Fact (jp_operation_id p))\<rparr>"

definition sample_opened :: "string fact journal_operation_open" where
  "sample_opened = \<lparr>jp_operation_id = ''op-1'', jp_operation_name = ''lookup'', jp_operation_name_sha256 = None,
     jp_started_at = Model_Fact ''t'', jp_participant_id = None, jp_stream_id = None, jp_turn_id = None,
     jp_trace_id = None, jp_span_id = None, jp_parent_span_id = None, jp_parent_scope = ''unknown''\<rparr>"

definition sample_crashed :: "string fact journal_replay" where
  "sample_crashed = \<lparr>rp_header = sample_header, rp_entries = [Operation_Open_Entry sample_opened],
     rp_last_sequence = 2, rp_torn_tail_bytes = 3, rp_stop_reason = None, rp_total_bytes = 0\<rparr>"

definition sample_recovered :: "(string, time_point) snapshot \<times> recovery option \<times> assembly_report" where
  "sample_recovered = projr (assemble_incident sample_governance False None None None sample_crashed)"

lemma sample_recovered_eval:
  "assemble_incident sample_governance False None None None sample_crashed
   = Inr (fst sample_recovered, fst (snd sample_recovered), snd (snd sample_recovered))"
  by (simp add: sample_recovered_def assemble_incident_def sample_crashed_def sample_governance_def
      Let_def replay_finalize_def observe_def unfinished_operations_def new_replay_def)

theorem recovered_incident_is_honest_witness:
  "\<exists>rv. fst (snd sample_recovered) = Some rv \<and> sn_status (fst sample_recovered) = ''interrupted'' \<and>
     sn_ended_at (fst sample_recovered) = None \<and>
     coherent_extent (rv_first_observation rv) (rv_last_observation rv) \<and>
     rv_journal_complete rv = (rp_torn_tail_bytes sample_crashed = 0 \<and>
       (\<exists>r. Exhausted_Entry r \<in> set (rp_entries sample_crashed)) = False) \<and>
     opened_ids (rp_entries sample_crashed)
       \<subseteq> as_operation_id sample_governance ` set (sn_facts (fst sample_recovered) K_operation)"
  by (rule recovered_incident_is_honest [OF sample_recovered_eval])
     (simp_all add: sample_crashed_def is_finalize_iff sample_governance_def)

end
