(* ===== verification/RecorderReplay.thy ===== *)
theory RecorderReplay
  imports Assembler
begin

text \<open>
  The recorder and the assembler together: replaying what a recorder journaled re-derives its state,
  its privacy ledger and its loss counters, so an incident rebuilt from a finalized journal is made
  from the very snapshot \<^verbatim>\<open>close()\<close> was made from.

  \<open>governed\<close> is what the two rely on of the shared governance module: a fact the recorder sanitised
  validates back from its journaled value as itself, and shows no class the recorder did not retain.
\<close>

section \<open>Runs of a recorder\<close>

definition entries_of :: "'j writer_call list \<Rightarrow> 'j journal_entry list" where
  "entries_of cs = concat (map (\<lambda>c. case c of Append_Call e \<Rightarrow> [e] | _ \<Rightarrow> []) cs)"

definition governed :: "('m, 'j) assembler_env \<Rightarrow> ('m, 'j) recorder_env \<Rightarrow> record_kind \<Rightarrow> 'm fact
    \<Rightarrow> bytes option \<Rightarrow> capture_class set \<Rightarrow> bool" where
  "governed A E kind f payload classes =
     (case as_revalidate A kind (case payload of None \<Rightarrow> re_dump E f
          | Some p \<Rightarrow> re_with_payload E (Some (re_dump E f)) p) of
        None \<Rightarrow> False
      | Some (g, derived) \<Rightarrow> g = f \<and> derived \<subseteq> classes)"

text \<open>The envelopes pass the assembler's check of the small entries.\<close>

definition calls_ok :: "('m, 'j) assembler_env \<Rightarrow> 'j writer_call list \<Rightarrow> bool" where
  "calls_ok A cs = list_all (\<lambda>e. as_nonrecord A e \<and>
     (case e of Operation_Open_Entry p \<Rightarrow> as_time_point A (jp_started_at p) \<noteq> None | _ \<Rightarrow> True))
     (entries_of cs)"

inductive recorder_step :: "('m, 'j) assembler_env \<Rightarrow> ('m, 'j) recorder_env
    \<Rightarrow> ('m, 'j) recorder \<Rightarrow> ('m, 'j) recorder \<Rightarrow> bool" for A E where
  Operation: "\<lbrakk>record_operation E m c estimated omitted tracked flags err s = Inr (ok, s');
          governed A E K_operation (Model_Fact m) None (insert METADATA (insert c
            (tracked \<union> extension_class flags \<union> (case err of None \<Rightarrow> {} | Some (ec, et) \<Rightarrow> insert ec et))))\<rbrakk> \<Longrightarrow>
     recorder_step A E s s'"
| Event: "\<lbrakk>record_event E m c estimated omitted tracked flags s = Inr (ok, s');
          governed A E K_event (Model_Fact m) None
            (insert METADATA (insert c (tracked \<union> extension_class flags)))\<rbrakk> \<Longrightarrow> recorder_step A E s s'"
| Quality: "\<lbrakk>record_quality_sample E m c estimated omitted tracked_sets flags s = Inr (ok, s');
          governed A E K_quality_sample (Model_Fact m) None
            (insert METADATA (insert c (\<Union> (set tracked_sets) \<union> extension_class flags)))\<rbrakk> \<Longrightarrow>
     recorder_step A E s s'"
| Media: "\<lbrakk>add_media_ref E exceeded coherent allowed om om_estimated m estimated omits tracked ext s
            = Inr (ok, s');
          governed A E K_media (Model_Fact m) None
            (insert METADATA (insert AUDIO (tracked \<union> extension_class [ext])))\<rbrakk> \<Longrightarrow> recorder_step A E s s'"
| Identified: "\<lbrakk>kind \<in> {K_participant, K_stream};
          add_identified E kind m c estimated omitted classes s = Inr (kept, s');
          governed A E kind (Model_Fact m) None (insert METADATA (insert c classes))\<rbrakk> \<Longrightarrow>
     recorder_step A E s s'"
| Clock_Domain: "\<lbrakk>register_clock_domain E m s = Inr s';
          governed A E K_clock_domain (Model_Fact m) None {METADATA}\<rbrakk> \<Longrightarrow> recorder_step A E s s'"
| Clock_Relation: "\<lbrakk>register_clock_relation E m s = Inr s';
          governed A E K_clock_relation (Model_Fact m) None {METADATA}\<rbrakk> \<Longrightarrow> recorder_step A E s s'"
| Coverage: "\<lbrakk>record_coverage E cov s = Inr s';
          governed A E K_coverage (Coverage_Fact cov) None {METADATA}\<rbrakk> \<Longrightarrow> recorder_step A E s s'"
| Omission: "record_omission E om estimated s = Inr s' \<Longrightarrow> recorder_step A E s s'"
| Adapter: "\<lbrakk>register_adapter E m estimated ext s = Inr s';
          governed A E K_adapter (Model_Fact m) None
            (if ext then {METADATA, EXTENSION_PAYLOAD} else {METADATA})\<rbrakk> \<Longrightarrow> recorder_step A E s s'"
| Raw_Otlp: "\<lbrakk>add_raw_otlp_chunk E allowed om om_estimated m payload s = Inr (ok, s');
          governed A E K_raw_otlp (Model_Fact m) (Some payload) {RAW_OTLP}\<rbrakk> \<Longrightarrow> recorder_step A E s s'"
| Opened: "recorder_step A E s (operation_opened E opened s)"
| Value_Limit: "kind \<in> set RECORD_KINDS \<Longrightarrow>
     recorder_step A E s (note_omission E reason kind c estimated whole freeze s)"
| Diagnostic: "recorder_step A E s (snd (emit_truncation s))"

inductive_cases recorder_stepE: "recorder_step A E s s'"

section \<open>Replay of an extended journal\<close>

lemma entries_of_simps [simp]:
  "entries_of [] = []" "entries_of (cs @ ds) = entries_of cs @ entries_of ds"
  "entries_of [Append_Call e] = [e]" "entries_of [Finalize_Call f] = []" "entries_of [Release_Call d] = []"
  by (simp_all add: entries_of_def)

lemma calls_ok_append [simp]: "calls_ok A (cs @ ds) = (calls_ok A cs \<and> calls_ok A ds)"
  by (simp add: calls_ok_def)

lemma replay_append:
  "list_all (\<lambda>e. \<not> is_finalize e) es \<Longrightarrow> replay_entries A (es @ fs) d x s =
     (case replay_entries A es d x s of Inl er \<Rightarrow> Inl er
      | Inr (d', x', s') \<Rightarrow> replay_entries A fs d' x' s')"
  by (induction A es d x s rule: replay_entries.induct)
     (auto split: journal_entry.split sum.split option.split)

section \<open>Counters\<close>

definition saturated :: "(string \<times> nat) list \<Rightarrow> (string \<times> nat) list" where
  "saturated d = map (\<lambda>(k, n). (k, min MAX_COUNTER n)) d"

definition tally :: "(string \<times> nat) list \<Rightarrow> string \<Rightarrow> nat" where
  "tally d k = (case map_of d k of None \<Rightarrow> 0 | Some n \<Rightarrow> n)"

lemma saturate_twice: "min MAX_COUNTER (min MAX_COUNTER a + b) = min MAX_COUNTER (a + b)"
  by (simp add: min_def)

lemma saturating_add_min:
  "saturating_add (min MAX_COUNTER a) b = min MAX_COUNTER (a + nat (max 0 b))"
  by (simp add: saturating_add_def saturate_twice)

lemma map_of_saturated: "map_of (saturated d) k = map_option (min MAX_COUNTER) (map_of d k)"
  by (induction d) (auto simp: saturated_def)

lemma keys_saturated [simp]: "map fst (saturated d) = map fst d"
  by (induction d) (auto simp: saturated_def)

lemma saturated_update: "saturated (AList.update k n d) = AList.update k (min MAX_COUNTER n) (saturated d)"
  by (induction d) (auto simp: saturated_def)

lemma bump_saturated:
  assumes "k \<in> fst ` set d"
  shows "bump k (saturated d) = saturated (count_up k d)"
proof -
  from assms obtain n where "map_of d k = Some n" by (cases "map_of d k") (auto simp: map_of_eq_None_iff)
  then show ?thesis
    by (simp add: bump_def count_up_def map_of_saturated saturated_update saturating_add_min)
qed

lemma keys_count_up: "k \<in> fst ` set d \<Longrightarrow> map fst (count_up k d) = map fst d"
  by (simp add: count_up_def update_keys)

lemma tally_count_up: "tally (count_up k d) j = tally d j + (if j = k then 1 else 0)"
  by (simp add: tally_def count_up_def update_conv' split: option.split)

lemma map_of_bump: "map_of (bump k d) j =
    (if j = k then map_option (\<lambda>n. saturating_add n 1) (map_of d k) else map_of d j)"
  by (auto simp: bump_def update_conv' split: option.split)

lemma keys_bump: "map fst (bump k d) = map fst d"
proof (cases "map_of d k")
  case (Some n)
  then have "k \<in> fst ` set d" by (force dest: map_of_SomeD)
  then show ?thesis by (simp add: bump_def Some update_keys)
qed (simp add: bump_def)

definition counters_match :: "('m, 'j) recorder \<Rightarrow> ('m, 'j) replay_state \<Rightarrow> bool" where
  "counters_match s r =
     (ra_first_limit r = rd_first_limit s \<and>
      rd_truncated_records s = min MAX_COUNTER (ra_truncated_records r) \<and>
      rd_omitted_bytes s = min MAX_COUNTER (ra_omitted_bytes r) \<and>
      map fst (rd_by_kind s) = map kind_name RECORD_KINDS \<and>
      (\<forall>k. map_of (rd_by_kind s) k =
        (if k \<in> kind_name ` set RECORD_KINDS then Some (min MAX_COUNTER (tally (ra_by_kind r) k)) else None)) \<and>
      fst ` set (ra_by_kind r) \<subseteq> kind_name ` set RECORD_KINDS \<and> 0 \<notin> snd ` set (ra_by_kind r) \<and>
      distinct (map fst (ra_by_kind r)) \<and>
      map fst (ra_by_class r) = map class_value all_classes \<and>
      rd_by_class s = saturated (ra_by_class r))"

definition state_match :: "('m, 'j) recorder \<Rightarrow> ('m, 'j) replay_state \<Rightarrow> bool" where
  "state_match s r = (ra_facts r = rd_facts s \<and> ra_omissions r = rd_omissions s \<and>
     ra_retained r = rd_retained s \<and> counters_match s r)"


lemma nonzero_count_up: "0 \<notin> snd ` set d \<Longrightarrow> 0 \<notin> snd ` set (count_up k d)"
proof -
  have "0 \<notin> snd ` set d \<Longrightarrow> 0 < n \<Longrightarrow> 0 \<notin> snd ` set (AList.update k n d)" for n
    by (induction d) auto
  then show "0 \<notin> snd ` set d \<Longrightarrow> 0 \<notin> snd ` set (count_up k d)" by (simp add: count_up_def)
qed

lemma keys_count_up_subset: "fst ` set (count_up k d) = insert k (fst ` set d)"
  by (simp add: count_up_def update_conv' flip: dom_map_of_conv_image_fst)

lemma distinct_count_up: "distinct (map fst d) \<Longrightarrow> distinct (map fst (count_up k d))"
  by (simp add: count_up_def distinct_update)

text \<open>One omission, noted by the recorder and replayed from its limit entry.\<close>

definition limit_entry :: "string \<Rightarrow> record_kind \<Rightarrow> capture_class \<Rightarrow> int \<Rightarrow> bool \<Rightarrow> bool \<Rightarrow> journal_limit" where
  "limit_entry reason kind c estimated whole freeze =
     \<lparr>jl_reason = reason, jl_kind = kind_name kind, jl_capture_class = class_value c,
      jl_estimated_bytes = nat (max 0 estimated), jl_whole_record = whole, jl_freeze = freeze\<rparr>"

lemma note_omission_counters:
  assumes "counters_match s r" "kind \<in> set RECORD_KINDS"
  shows "counters_match (note_omission E reason kind c estimated whole freeze s)
           (apply_limit (limit_entry reason kind c estimated whole freeze) r)"
proof -
  have cls: "class_value c \<in> fst ` set (ra_by_class r)"
    using assms(1) by (metis counters_match_def image_eqI list.set_map set_all_classes UNIV_I)
  have k: "kind_name kind \<in> kind_name ` set RECORD_KINDS" using assms(2) by simp
  let ?s = "note_omission E reason kind c estimated whole freeze s"
  let ?r = "apply_limit (limit_entry reason kind c estimated whole freeze) r"
  have f: "rd_first_limit ?s = (case rd_first_limit s of None \<Rightarrow> Some reason | Some x \<Rightarrow> Some x)"
      "rd_truncated_records ?s = (if whole then saturating_add (rd_truncated_records s) 1
         else rd_truncated_records s)"
      "rd_omitted_bytes ?s = saturating_add (rd_omitted_bytes s) estimated"
      "rd_by_kind ?s = (if whole then bump (kind_name kind) (rd_by_kind s) else rd_by_kind s)"
      "rd_by_class ?s = bump (class_value c) (rd_by_class s)"
    by (auto simp: note_omission_def call_writer_def Let_def split: option.split)
  have g: "ra_first_limit ?r = (case ra_first_limit r of None \<Rightarrow> Some reason | Some x \<Rightarrow> Some x)"
      "ra_truncated_records ?r = (if whole then ra_truncated_records r + 1 else ra_truncated_records r)"
      "ra_omitted_bytes ?r = ra_omitted_bytes r + nat (max 0 estimated)"
      "ra_by_kind ?r = (if whole then count_up (kind_name kind) (ra_by_kind r) else ra_by_kind r)"
      "ra_by_class ?r = count_up (class_value c) (ra_by_class r)"
    by (auto simp: apply_limit_def limit_entry_def Let_def split: option.split)
  have one: "saturating_add (min MAX_COUNTER a) 1 = min MAX_COUNTER (a + 1)" for a
    using saturating_add_min [of a 1] by simp
  note m = assms(1) [unfolded counters_match_def]
  have kinds: "map_of (rd_by_kind ?s) j = (if j \<in> kind_name ` set RECORD_KINDS
      then Some (min MAX_COUNTER (tally (ra_by_kind ?r) j)) else None)" for j
    using m k by (auto simp: f g map_of_bump tally_count_up one)
  have "fst ` set (ra_by_kind ?r) \<subseteq> kind_name ` set RECORD_KINDS" "0 \<notin> snd ` set (ra_by_kind ?r)"
      "distinct (map fst (ra_by_kind ?r))"
    using m k by (auto simp: g keys_count_up_subset nonzero_count_up distinct_count_up
        simp del: distinct_map)
  moreover have "map fst (ra_by_class ?r) = map class_value all_classes"
      "rd_by_class ?s = saturated (ra_by_class ?r)" "map fst (rd_by_kind ?s) = map kind_name RECORD_KINDS"
    using m cls by (simp_all add: f g keys_count_up keys_bump bump_saturated)
  moreover have "ra_first_limit ?r = rd_first_limit ?s"
      "rd_truncated_records ?s = min MAX_COUNTER (ra_truncated_records ?r)"
      "rd_omitted_bytes ?s = min MAX_COUNTER (ra_omitted_bytes ?r)"
    using m by (simp_all add: f g one saturating_add_min)
  ultimately show ?thesis unfolding counters_match_def using kinds by blast
qed

section \<open>One mutation\<close>

lemma apply_omissions_dumped:
  "apply_omissions (map (\<lambda>(key, c, reason). \<lparr>jm_field_key_sha256 = key,
      jm_capture_class = class_value c, jm_reason = reason\<rparr>) oms) d r
   = (d, r\<lparr>ra_omissions := ra_omissions r @ oms\<rparr>)"
  by (induction oms arbitrary: r) auto

lemma apply_classes_dumped:
  "apply_classes (map class_value cs) d r = (d, r\<lparr>ra_retained := ra_retained r \<union> set cs\<rparr>)"
  by (induction cs arbitrary: r) auto

lemma set_sorted_classes [simp]: "set (sorted_classes cs) = cs"
proof -
  have "c \<in> set classes_by_value" for c by (cases c) (simp_all add: classes_by_value_def)
  then show ?thesis by (auto simp: sorted_classes_def)
qed

definition same_counters :: "('m, 'j) replay_state \<Rightarrow> ('m, 'j) replay_state \<Rightarrow> bool" where
  "same_counters r r' = (ra_first_limit r' = ra_first_limit r \<and>
     ra_truncated_records r' = ra_truncated_records r \<and> ra_omitted_bytes r' = ra_omitted_bytes r \<and>
     ra_by_kind r' = ra_by_kind r \<and> ra_by_class r' = ra_by_class r)"

text \<open>What replaying a mutation the recorder wrote does.\<close>

lemma mutation_replayed:
  assumes "mutation_entry payload_of \<lparr>mu_kind = kind, mu_record = v, mu_omissions = oms,
      mu_retained_classes = cs, mu_replaces_index = i, mu_raw_payload = p\<rparr> = Some e"
    and "kind \<notin> {K_omission, K_policy}"
    and "as_revalidate A kind (case p of None \<Rightarrow> the v | Some q \<Rightarrow> payload_of v q) = Some (f, derived)"
    and "i = None \<or> (kind = K_coverage \<and> the i < length (ra_facts r kind))"
  shows "\<exists>r'. apply_record A e r = Inr (0, r') \<and> same_counters r r' \<and>
     ra_facts r' = (ra_facts r)(kind := (case i of None \<Rightarrow> ra_facts r kind @ [f]
       | Some n \<Rightarrow> (ra_facts r kind)[n := f])) \<and>
     ra_omissions r' = ra_omissions r @ oms \<and> ra_retained r' = ra_retained r \<union> derived \<union> set cs"
proof -
  from assms(1,2) have e: "jr_kind e = kind" "jr_replaces_index e = i"
      "jr_value e = Some (case p of None \<Rightarrow> the v | Some q \<Rightarrow> payload_of v q)"
      "jr_omissions e = map (\<lambda>(key, c, reason). \<lparr>jm_field_key_sha256 = key,
         jm_capture_class = class_value c, jm_reason = reason\<rparr>) oms"
      "jr_retained_classes e = map class_value cs"
    by (auto simp: mutation_entry_def Let_def keeps_the_mutation_coherent_def
        split: if_splits option.splits)
  show ?thesis
  proof (cases "kind = K_raw_otlp")
    case True
    with assms(3,4) show ?thesis
      by (simp add: apply_record_def e apply_omissions_dumped apply_classes_dumped same_counters_def)
  next
    case False
    with assms(2,3,4) show ?thesis
      by (cases i) (simp_all add: apply_record_def e apply_omissions_dumped apply_classes_dumped
          same_counters_def append_fact_def Let_def, auto)
  qed
qed

text \<open>A mutation of the ledger alone.\<close>

lemma ledger_replayed:
  assumes "mutation_entry payload_of \<lparr>mu_kind = kind, mu_record = None, mu_omissions = oms,
      mu_retained_classes = cs, mu_replaces_index = i, mu_raw_payload = None\<rparr> = Some e"
  shows "apply_record A e r = Inr (0, r\<lparr>ra_omissions := ra_omissions r @ oms,
     ra_retained := ra_retained r \<union> set cs\<rparr>)"
proof -
  from assms have e: "jr_value e = None"
      "jr_omissions e = map (\<lambda>(key, c, reason). \<lparr>jm_field_key_sha256 = key,
         jm_capture_class = class_value c, jm_reason = reason\<rparr>) oms"
      "jr_retained_classes e = map class_value cs"
    by (auto simp: mutation_entry_def Let_def split: if_splits)
  show ?thesis by (simp add: apply_record_def e apply_omissions_dumped apply_classes_dumped)
qed

section \<open>The journal keeps up with the recorder\<close>

definition replays_to :: "('m, 'j) assembler_env \<Rightarrow> ('m, 'j) recorder \<Rightarrow> ('m, 'j) replay_state \<Rightarrow> bool" where
  "replays_to A s r = (replay_entries A (entries_of (rd_calls s)) 0 False new_replay = Inr (0, False, r)
     \<and> state_match s r)"

fun appends :: "'j writer_call \<Rightarrow> bool" where
  "appends (Append_Call e) = (\<not> is_finalize e)"
| "appends _ = False"

definition in_step :: "('m, 'j) assembler_env \<Rightarrow> ('m, 'j) recorder \<Rightarrow> bool" where
  "in_step A s = (rd_journaled_omissions s = length (rd_omissions s) \<and>
     rd_journaled_classes s = rd_retained s \<and> METADATA \<in> rd_retained s \<and>
     list_all appends (rd_calls s) \<and>
     (calls_ok A (rd_calls s) \<longrightarrow> (\<exists>r. replays_to A s r)))"

lemma counters_match_cong:
  "counters_match s r \<Longrightarrow> same_counters r r' \<Longrightarrow> rd_first_limit s' = rd_first_limit s \<Longrightarrow>
   rd_truncated_records s' = rd_truncated_records s \<Longrightarrow> rd_omitted_bytes s' = rd_omitted_bytes s \<Longrightarrow>
   rd_by_kind s' = rd_by_kind s \<Longrightarrow> rd_by_class s' = rd_by_class s \<Longrightarrow> counters_match s' r'"
  by (simp add: counters_match_def same_counters_def)

text \<open>Everything the replay looks at in a recorder.\<close>

definition same_record :: "('m, 'j) recorder \<Rightarrow> ('m, 'j) recorder \<Rightarrow> bool" where
  "same_record s s' = (rd_facts s' = rd_facts s \<and> rd_omissions s' = rd_omissions s \<and>
     rd_retained s' = rd_retained s \<and> rd_journaled_omissions s' = rd_journaled_omissions s \<and>
     rd_journaled_classes s' = rd_journaled_classes s \<and> rd_first_limit s' = rd_first_limit s \<and>
     rd_truncated_records s' = rd_truncated_records s \<and> rd_omitted_bytes s' = rd_omitted_bytes s \<and>
     rd_by_kind s' = rd_by_kind s \<and> rd_by_class s' = rd_by_class s \<and> rd_calls s' = rd_calls s)"

lemma in_step_same: "in_step A s \<Longrightarrow> same_record s s' \<Longrightarrow> in_step A s'"
  by (simp add: in_step_def same_record_def replays_to_def state_match_def counters_match_def)

lemma entries_of_appends:
  assumes "list_all appends cs"
  shows "list_all (\<lambda>e. \<not> is_finalize e) (entries_of cs)" "admitted False cs = entries_of cs"
  using assms by (induction cs) (auto simp: entries_of_def elim!: appends.elims)

text \<open>One more entry.\<close>

lemma in_step_entry:
  assumes "in_step A s" "rd_calls s' = rd_calls s @ [Append_Call e]" "\<not> is_finalize e"
    and "rd_journaled_omissions s' = length (rd_omissions s')" "rd_journaled_classes s' = rd_retained s'"
    and "rd_retained s \<subseteq> rd_retained s'"
    and "\<And>r. state_match s r \<Longrightarrow> calls_ok A [Append_Call e] \<Longrightarrow>
           \<exists>r'. replay_entries A [e] 0 False r = Inr (0, False, r') \<and> state_match s' r'"
  shows "in_step A s'"
proof -
  have "\<exists>r'. replays_to A s' r'" if ok: "calls_ok A (rd_calls s')"
  proof -
    from ok have "calls_ok A (rd_calls s)" "calls_ok A [Append_Call e]" by (simp_all add: assms(2))
    with assms(1) obtain r where "replays_to A s r" by (auto simp: in_step_def)
    with assms(7) [OF _ \<open>calls_ok A [Append_Call e]\<close>] assms(1) show ?thesis
      by (fastforce simp: replays_to_def assms(2) replay_append in_step_def entries_of_appends)
  qed
  with assms(1-6) show ?thesis by (auto simp: in_step_def)
qed

lemma note_omission_record:
  "rd_facts (note_omission E reason kind c est whole freeze s) = rd_facts s"
  "rd_omissions (note_omission E reason kind c est whole freeze s) = rd_omissions s"
  "rd_retained (note_omission E reason kind c est whole freeze s) = rd_retained s"
  "rd_journaled_omissions (note_omission E reason kind c est whole freeze s) = rd_journaled_omissions s"
  "rd_journaled_classes (note_omission E reason kind c est whole freeze s) = rd_journaled_classes s"
  "re_enabled E \<Longrightarrow> rd_calls (note_omission E reason kind c est whole freeze s)
     = rd_calls s @ [Append_Call (Limit_Entry (limit_entry reason kind c est whole freeze))]"
  by (simp_all add: note_omission_def call_writer_def Let_def limit_entry_def)

lemma apply_limit_record:
  "ra_facts (apply_limit l r) = ra_facts r" "ra_omissions (apply_limit l r) = ra_omissions r"
  "ra_retained (apply_limit l r) = ra_retained r"
  by (simp_all add: apply_limit_def Let_def)

lemma note_omission_in_step:
  assumes "in_step A s" "re_enabled E" "kind \<in> set RECORD_KINDS"
  shows "in_step A (note_omission E reason kind c estimated whole freeze s)"
proof (rule in_step_entry [OF assms(1)])
  let ?s = "note_omission E reason kind c estimated whole freeze s"
  let ?l = "limit_entry reason kind c estimated whole freeze"
  show "rd_calls ?s = rd_calls s @ [Append_Call (Limit_Entry ?l)]"
    by (simp add: note_omission_record assms(2))
  fix r assume r: "state_match s r" and ok: "calls_ok A [Append_Call (Limit_Entry ?l)]"
  from r assms(3) have "state_match ?s (apply_limit ?l r)"
    by (simp add: state_match_def note_omission_record apply_limit_record note_omission_counters)
  with ok show "\<exists>r'. replay_entries A [Limit_Entry ?l] 0 False r = Inr (0, False, r') \<and> state_match ?s r'"
    by (simp add: calls_ok_def)
qed (use assms(1) in \<open>simp_all add: in_step_def note_omission_record is_finalize_iff\<close>)

lemma try_admit_in_step:
  assumes "in_step A s" "re_enabled E" "kind \<in> set RECORD_KINDS" "try_admit E kind c est raw s = (ok, s')"
  shows "in_step A s'" "ok \<Longrightarrow> same_record s s'"
proof -
  show "ok \<Longrightarrow> same_record s s'"
    using assms(4) by (auto simp: try_admit_def same_record_def split: if_splits)
  then show "in_step A s'"
    using assms in_step_same note_omission_in_step
    by (cases ok) (fastforce simp: try_admit_def split: if_splits)+
qed

text \<open>A mutation: the recorder added facts and ledger entries to \<open>s\<close>, then journaled them.\<close>

definition adds_to :: "record_kind \<Rightarrow> 'm fact \<Rightarrow> nat option \<Rightarrow> ('m, 'j) recorder \<Rightarrow> ('m, 'j) recorder \<Rightarrow> bool" where
  "adds_to kind f i s s' = (rd_facts s' = (rd_facts s)(kind := (case i of
       None \<Rightarrow> rd_facts s kind @ [f] | Some n \<Rightarrow> (rd_facts s kind)[n := f])) \<and>
     (\<exists>oms. rd_omissions s' = rd_omissions s @ oms) \<and> rd_retained s \<subseteq> rd_retained s' \<and>
     same_record (s\<lparr>rd_facts := rd_facts s', rd_omissions := rd_omissions s',
       rd_retained := rd_retained s'\<rparr>) s')"

lemma journal_fact_in_step:
  assumes "in_step A s" "re_enabled E" "adds_to kind f i s s1"
    and "kind \<notin> {K_omission, K_policy}" "governed A E kind f payload classes" "classes \<subseteq> rd_retained s1"
    and "i = None \<or> kind = K_coverage \<and> the i < length (rd_facts s kind)"
  shows "in_step A (journal_locked E kind (Some f) i payload s1)"
proof -
  note a = assms(3) [unfolded adds_to_def same_record_def]
  from a obtain oms where oms: "rd_omissions s1 = rd_omissions s @ oms" by blast
  let ?cs = "sorted_classes (rd_retained s1 - rd_journaled_classes s1)"
  have j: "rd_journaled_omissions s1 = length (rd_omissions s)" "rd_journaled_classes s1 = rd_retained s"
    using a assms(1) by (simp_all add: in_step_def)
  define mu where "mu = \<lparr>mu_kind = kind, mu_record = Some (re_dump E f), mu_omissions = oms,
      mu_retained_classes = ?cs, mu_replaces_index = i, mu_raw_payload = payload\<rparr>"
  have "mutation_entry (re_with_payload E) mu \<noteq> None"
    using assms(4,7) by (auto simp: mu_def mutation_entry_def Let_def keeps_the_mutation_coherent_def
        split: option.splits)
  then obtain e where e: "mutation_entry (re_with_payload E) mu = Some e" by blast
  let ?s = "journal_locked E kind (Some f) i payload s1"
  have s: "?s = s1\<lparr>rd_journaled_omissions := length (rd_omissions s1),
      rd_journaled_classes := rd_journaled_classes s1 \<union> set ?cs,
      rd_calls := rd_calls s1 @ [Append_Call (Record_Entry e)]\<rparr>"
    using assms(2) e by (simp add: journal_locked_def j oms mu_def call_writer_def)
  show ?thesis
  proof (rule in_step_entry [OF assms(1)])
    show "rd_calls ?s = rd_calls s @ [Append_Call (Record_Entry e)]" using a by (simp add: s)
    show "rd_journaled_omissions ?s = length (rd_omissions ?s)" by (simp add: s)
    show "rd_journaled_classes ?s = rd_retained ?s" using a j by (auto simp: s)
    show "rd_retained s \<subseteq> rd_retained ?s" using a by (simp add: s)
    fix r assume r: "state_match s r" and ok: "calls_ok A [Append_Call (Record_Entry e)]"
    from assms(5) obtain derived where d: "derived \<subseteq> classes" "as_revalidate A kind
        (case payload of None \<Rightarrow> the (Some (re_dump E f)) | Some q \<Rightarrow> re_with_payload E (Some (re_dump E f)) q)
          = Some (f, derived)"
      by (auto simp: governed_def split: option.splits)
    have "i = None \<or> kind = K_coverage \<and> the i < length (ra_facts r kind)"
      using assms(7) r by (simp add: state_match_def)
    from mutation_replayed [OF e [unfolded mu_def] assms(4) d(2) this] obtain r' where r': "apply_record A e r = Inr (0, r')" "same_counters r r'"
        "ra_facts r' = (ra_facts r)(kind := (case i of None \<Rightarrow> ra_facts r kind @ [f]
          | Some n \<Rightarrow> (ra_facts r kind)[n := f]))"
        "ra_omissions r' = ra_omissions r @ oms" "ra_retained r' = ra_retained r \<union> derived \<union> set ?cs"
      by blast
    have "counters_match ?s r'"
      by (rule counters_match_cong [OF _ r'(2), of s]) (use r a in \<open>simp_all add: state_match_def s\<close>)
    moreover have "ra_facts r' = rd_facts ?s" "ra_omissions r' = rd_omissions ?s"
      using r r' a oms by (simp_all add: state_match_def s split: option.split)
    moreover have "ra_retained r' = rd_retained ?s"
      using r r'(5) a d(1) assms(6) j by (auto simp: state_match_def s)
    ultimately have "state_match ?s r'" by (simp add: state_match_def)
    with r'(1) ok show "\<exists>r'. replay_entries A [Record_Entry e] 0 False r = Inr (0, False, r') \<and>
        state_match ?s r'" by (simp add: calls_ok_def)
  qed (simp add: is_finalize_iff)
qed

text \<open>A mutation of the ledger alone; with nothing pending there is no entry.\<close>

lemma journal_ledger_in_step:
  assumes "in_step A s" "re_enabled E" "kind \<in> {K_omission, K_policy}"
    and "rd_omissions s1 = rd_omissions s @ oms" "rd_retained s \<subseteq> rd_retained s1"
    and "same_record (s\<lparr>rd_omissions := rd_omissions s1, rd_retained := rd_retained s1\<rparr>) s1"
  shows "in_step A (journal_locked E kind None None None s1)"
proof -
  note a = assms(6) [unfolded same_record_def]
  let ?cs = "sorted_classes (rd_retained s1 - rd_journaled_classes s1)"
  have j: "rd_journaled_omissions s1 = length (rd_omissions s)" "rd_journaled_classes s1 = rd_retained s"
    using a assms(1) by (simp_all add: in_step_def)
  define mu :: "'b record_mutation" where "mu = \<lparr>mu_kind = kind, mu_record = None, mu_omissions = oms,
      mu_retained_classes = ?cs, mu_replaces_index = None, mu_raw_payload = None\<rparr>"
  have "mutation_entry (re_with_payload E) mu \<noteq> None"
    using assms(3) by (auto simp: mu_def mutation_entry_def Let_def keeps_the_mutation_coherent_def)
  then obtain e where e: "mutation_entry (re_with_payload E) mu = Some e" by blast
  let ?s = "journal_locked E kind None None None s1"
  show ?thesis
  proof (cases "oms = [] \<and> ?cs = []")
    case True
    then have "set ?cs = {}" by simp
    then have "rd_retained s1 = rd_retained s" using j assms(5) by auto
    moreover have "?s = s1\<lparr>rd_journaled_omissions := length (rd_omissions s1)\<rparr>"
      using True assms(2) \<open>set ?cs = {}\<close> by (simp add: journal_locked_def j assms(4))
    ultimately have "same_record s ?s" using True assms(1,4) a by (simp add: same_record_def j in_step_def)
    with assms(1) show ?thesis by (rule in_step_same)
  next
    case False
    then have s: "?s = s1\<lparr>rd_journaled_omissions := length (rd_omissions s1),
        rd_journaled_classes := rd_journaled_classes s1 \<union> set ?cs,
        rd_calls := rd_calls s1 @ [Append_Call (Record_Entry e)]\<rparr>"
      using assms(2) e by (auto simp add: journal_locked_def j assms(4) mu_def call_writer_def)
    show ?thesis
    proof (rule in_step_entry [OF assms(1)])
      show "rd_calls ?s = rd_calls s @ [Append_Call (Record_Entry e)]" using a by (simp add: s)
      show "rd_journaled_omissions ?s = length (rd_omissions ?s)" by (simp add: s)
      show "rd_journaled_classes ?s = rd_retained ?s" using assms(5) j by (auto simp: s)
      show "rd_retained s \<subseteq> rd_retained ?s" using assms(5) by (simp add: s)
      fix r assume r: "state_match s r" and ok: "calls_ok A [Append_Call (Record_Entry e)]"
      let ?r = "r\<lparr>ra_omissions := ra_omissions r @ oms, ra_retained := ra_retained r \<union> set ?cs\<rparr>"
      have "counters_match ?s ?r"
        by (rule counters_match_cong [of s r]) (use r a in \<open>simp_all add: state_match_def same_counters_def s\<close>)
      moreover have "ra_retained ?r = rd_retained ?s"
        using r assms(5) j by (auto simp: state_match_def s)
      ultimately have "state_match ?s ?r" using r a assms(4) by (simp add: state_match_def s)
      with ledger_replayed [OF e [unfolded mu_def], of A r] ok
      show "\<exists>r'. replay_entries A [Record_Entry e] 0 False r = Inr (0, False, r') \<and>
          state_match ?s r'" by (simp add: calls_ok_def)
    qed (simp add: is_finalize_iff)
  qed
qed

section \<open>Every operation\<close>

lemma coverage_index_less: "coverage_index signal fs = Some (i, c) \<Longrightarrow> i < length fs"
  by (induction fs arbitrary: i) (auto split: option.splits if_splits)

lemma add_fact_adds: "adds_to kind f None s (add_fact kind f oms classes s)"
  by (auto simp: adds_to_def add_fact_def same_record_def)

lemma admitted_fact_in_step:
  assumes "in_step A s" "re_enabled E" "kind \<notin> {K_omission, K_policy}"
    and "governed A E kind f payload (insert METADATA classes)"
  shows "in_step A (journal_locked E kind (Some f) None payload (add_fact kind f oms classes s))"
  by (rule journal_fact_in_step [OF assms(1,2) add_fact_adds assms(3,4)])
     (use assms(1) in \<open>auto simp: add_fact_def in_step_def\<close>)

lemma added_omission_in_step:
  assumes "in_step A s" "re_enabled E"
  shows "in_step A (journal_locked E K_omission None None None (s\<lparr>rd_omissions := rd_omissions s @ oms\<rparr>))"
  by (rule journal_ledger_in_step [OF assms(1,2), of _ _ oms]) (simp_all add: same_record_def)

lemmas in_step_intros = try_admit_in_step(1) admitted_fact_in_step added_omission_in_step
  note_omission_in_step

lemma fact_kinds: "kind \<in> {K_operation, K_event, K_quality_sample, K_media, K_participant, K_stream,
    K_adapter, K_raw_otlp, K_coverage} \<Longrightarrow> kind \<in> set RECORD_KINDS \<and> kind \<notin> {K_omission, K_policy}"
  by (auto simp: RECORD_KINDS_def)

lemma record_fact_in_step:
  assumes "in_step A s" "re_enabled E" "kind \<in> {K_operation, K_event, K_quality_sample, K_media}"
    and "record_fact E kind m c est oms classes s = Inr (ok, s')"
    and "governed A E kind (Model_Fact m) None (insert METADATA (insert c classes))"
  shows "in_step A s'"
proof -
  from assms(3) have k: "kind \<in> set RECORD_KINDS" "kind \<notin> {K_omission, K_policy}"
    using fact_kinds by auto
  obtain b s1 where t: "try_admit E kind c est 0 s = (b, s1)" by fastforce
  from try_admit_in_step(1) [OF assms(1,2) k(1) t] have "in_step A s1" .
  with assms(4) t admitted_fact_in_step [OF _ assms(2) k(2) assms(5)] show ?thesis
    by (auto simp: record_fact_def split: if_splits bool.splits)
qed

lemma add_identified_in_step:
  assumes "in_step A s" "re_enabled E" "kind \<in> {K_participant, K_stream}"
    and "add_identified E kind m c est oms classes s = Inr (kept, s')"
    and "governed A E kind (Model_Fact m) None (insert METADATA (insert c classes))"
  shows "in_step A s'"
proof -
  from assms(3) have k: "kind \<in> set RECORD_KINDS" "kind \<notin> {K_omission, K_policy}"
    using fact_kinds by auto
  obtain b s1 where t: "try_admit E kind c est 0 s = (b, s1)" by fastforce
  from try_admit_in_step(1) [OF assms(1,2) k(1) t] have "in_step A s1" .
  with assms(1,4) t admitted_fact_in_step [OF _ assms(2) k(2) assms(5)] show ?thesis
    by (auto simp: add_identified_def split: if_splits bool.splits option.splits)
qed

lemma register_clock_in_step:
  assumes "in_step A s" "re_enabled E" "kind \<in> {K_clock_domain, K_clock_relation}"
    and "register_clock E kind cap m s = Inr s'" "governed A E kind (Model_Fact m) None {METADATA}"
  shows "in_step A s'"
proof -
  have "in_step A (journal_locked E kind (Some (Model_Fact m)) None None
      (add_fact kind (Model_Fact m) [] {} s))"
    by (rule admitted_fact_in_step) (use assms in auto)
  with assms(1,4) show ?thesis
    by (auto simp: register_clock_def split: if_splits option.splits)
qed

lemma record_coverage_in_step:
  assumes "in_step A s" "re_enabled E" "record_coverage E cov s = Inr s'"
    and "governed A E K_coverage (Coverage_Fact cov) None {METADATA}"
  shows "in_step A s'"
proof (cases "coverage_index (cv_signal cov) (rd_facts s K_coverage)")
  case None
  obtain b s1 where t: "try_admit E K_coverage METADATA (re_coverage_size E cov) 0 s = (b, s1)" by fastforce
  have "in_step A s1" by (rule try_admit_in_step(1) [OF assms(1,2) _ t]) (simp add: RECORD_KINDS_def)
  moreover from this have "in_step A (journal_locked E K_coverage (Some (Coverage_Fact cov)) None None
      (add_fact K_coverage (Coverage_Fact cov) [] {} s1))"
    by (rule admitted_fact_in_step) (use assms in auto)
  ultimately show ?thesis using assms(3) t
    by (auto simp: record_coverage_def None split: if_splits bool.splits)
next
  case (Some p)
  then obtain i old where p: "coverage_index (cv_signal cov) (rd_facts s K_coverage) = Some (i, old)"
    by (cases p) simp
  have less: "i < length (rd_facts s K_coverage)" using p by (rule coverage_index_less)
  have "in_step A (journal_locked E K_coverage (Some (Coverage_Fact cov)) (Some i) None
      (s\<lparr>rd_facts := (rd_facts s)(K_coverage := (rd_facts s K_coverage)[i := Coverage_Fact cov]),
         rd_captured_bytes := b\<rparr>))" for b
    by (rule journal_fact_in_step [OF assms(1,2) _ _ assms(4)])
       (use less assms(1) in \<open>simp_all add: adds_to_def same_record_def in_step_def\<close>)
  moreover have "in_step A (note_omission E reason K_coverage c est whole freeze s)" for reason c est whole freeze
    by (rule note_omission_in_step [OF assms(1,2)]) (simp add: RECORD_KINDS_def)
  ultimately show ?thesis using assms(1,3)
    by (auto simp: record_coverage_def p Let_def split: if_splits)
qed

lemma record_omission_in_step:
  assumes "in_step A s" "re_enabled E" "record_omission E om est s = Inr s'"
  shows "in_step A s'"
proof -
  obtain b s1 where t: "try_admit E K_omission (fst (snd om)) est 0 s = (b, s1)" by fastforce
  have "in_step A s1" by (rule try_admit_in_step(1) [OF assms(1,2) _ t]) (simp add: RECORD_KINDS_def)
  with added_omission_in_step [OF this assms(2), of "[om]"] assms(3) t show ?thesis
    by (auto simp: record_omission_def split: if_splits bool.splits)
qed

lemma add_raw_otlp_in_step:
  assumes "in_step A s" "re_enabled E" "add_raw_otlp_chunk E allowed om om_est m payload s = Inr (ok, s')"
    and "governed A E K_raw_otlp (Model_Fact m) (Some payload) {RAW_OTLP}"
  shows "in_step A s'"
proof (cases allowed)
  case False
  obtain b s1 where t: "try_admit E K_omission RAW_OTLP om_est 0 s = (b, s1)" by fastforce
  have "in_step A s1" by (rule try_admit_in_step(1) [OF assms(1,2) _ t]) (simp add: RECORD_KINDS_def)
  with added_omission_in_step [OF this assms(2), of "[om]"] assms(3) t False show ?thesis
    by (auto simp: add_raw_otlp_chunk_def split: if_splits bool.splits)
next
  case True
  obtain b s1 where t: "try_admit E K_raw_otlp RAW_OTLP
      (min (re_max_capture_bytes E + 1) (length payload + 256)) (length payload) s = (b, s1)" by fastforce
  have "in_step A s1" by (rule try_admit_in_step(1) [OF assms(1,2) _ t]) (simp add: RECORD_KINDS_def)
  moreover from this have "in_step A (journal_locked E K_raw_otlp (Some (Model_Fact m)) None (Some payload)
      (add_fact K_raw_otlp (Model_Fact m) [] {RAW_OTLP} s1))"
  proof (rule admitted_fact_in_step [OF _ assms(2)])
    show "governed A E K_raw_otlp (Model_Fact m) (Some payload) (insert METADATA {RAW_OTLP})"
      using assms(4) by (auto simp: governed_def split: option.splits)
  qed simp
  ultimately show ?thesis using assms(3) t True
    by (auto simp: add_raw_otlp_chunk_def split: if_splits bool.splits)
qed

lemma add_media_ref_in_step:
  assumes "in_step A s" "re_enabled E"
    and "add_media_ref E exceeded coherent allowed om om_est m est omits tracked ext s = Inr (ok, s')"
    and "governed A E K_media (Model_Fact m) None (insert METADATA (insert AUDIO (tracked \<union> extension_class [ext])))"
  shows "in_step A s'"
proof -
  have k: "K_media \<in> set RECORD_KINDS" "K_omission \<in> set RECORD_KINDS" by (simp_all add: RECORD_KINDS_def)
  consider (large) size where "exceeded = Some size" | (refused) "exceeded = None" "\<not> allowed"
    | (kept) "exceeded = None" "allowed" by (cases exceeded) auto
  then show ?thesis
  proof cases
    case large
    with assms(3) note_omission_in_step [OF assms(1,2) k(1)] show ?thesis
      by (auto simp: add_media_ref_def split: if_splits)
  next
    case refused
    obtain b s1 where t: "try_admit E K_omission AUDIO om_est 0 s = (b, s1)" by fastforce
    have "in_step A s1" by (rule try_admit_in_step(1) [OF assms(1,2) k(2) t])
    with added_omission_in_step [OF this assms(2), of "[om]"] assms(3) t refused show ?thesis
      by (auto simp: add_media_ref_def split: if_splits bool.splits)
  next
    case kept
    with assms(3) have "record_fact E K_media m AUDIO est omits (tracked \<union> extension_class [ext]) s = Inr (ok, s')"
      by (simp add: add_media_ref_def split: if_splits)
    from record_fact_in_step [OF assms(1,2) _ this assms(4)] show ?thesis by simp
  qed
qed

text \<open>An adapter and the class of its extensions, journaled in one mutation.\<close>

lemma register_adapter_in_step:
  assumes "in_step A s" "re_enabled E" "register_adapter E m est ext s = Inr s'"
    and "governed A E K_adapter (Model_Fact m) None (if ext then {METADATA, EXTENSION_PAYLOAD} else {METADATA})"
  shows "in_step A s'"
proof -
  define mark where "mark t = (if Model_Fact m \<in> set (rd_facts t K_adapter) \<and> ext
      then t\<lparr>rd_retained := insert EXTENSION_PAYLOAD (rd_retained t)\<rparr> else t)" for t :: "('a, 'b) recorder"
  have ledger: "in_step A (journal_locked E K_policy None None None (mark t))" if "in_step A t" for t
    by (rule journal_ledger_in_step [OF that assms(2), of _ _ "[]"]) (auto simp: mark_def same_record_def)
  show ?thesis
  proof (cases "Model_Fact m \<in> set (rd_facts s K_adapter)")
    case True
    with assms(3) have "s' = journal_locked E K_policy None None None (mark s)"
      by (simp add: register_adapter_def mark_def split: if_splits)
    with ledger [OF assms(1)] show ?thesis by simp
  next
    case False
    obtain b s1 where t: "try_admit E K_adapter METADATA est 0 s = (b, s1)" by fastforce
    have s1: "in_step A s1" by (rule try_admit_in_step(1) [OF assms(1,2) _ t]) (simp add: RECORD_KINDS_def)
    have "in_step A (journal_locked E K_adapter (Some (Model_Fact m)) None None
        (mark (add_fact K_adapter (Model_Fact m) [] {} s1)))"
    proof (rule journal_fact_in_step [OF s1 assms(2) _ _ assms(4)])
      show "adds_to K_adapter (Model_Fact m) None s1 (mark (add_fact K_adapter (Model_Fact m) [] {} s1))"
        by (auto simp: mark_def adds_to_def add_fact_def same_record_def)
      show "(if ext then {METADATA, EXTENSION_PAYLOAD} else {METADATA})
          \<subseteq> rd_retained (mark (add_fact K_adapter (Model_Fact m) [] {} s1))"
        using s1 by (auto simp: mark_def add_fact_def in_step_def)
    qed simp_all
    moreover have "s' = (if b then journal_locked E K_adapter (Some (Model_Fact m)) None None
          (mark (add_fact K_adapter (Model_Fact m) [] {} s1))
        else journal_locked E K_policy None None None (mark s1))"
      using assms(3) t False
      by (cases b) (auto simp: register_adapter_def mark_def Let_def split: if_splits)
    ultimately show ?thesis using ledger [OF s1] by (cases b) simp_all
  qed
qed

lemma operation_opened_in_step:
  assumes "in_step A s" "re_enabled E"
  shows "in_step A (operation_opened E opened s)"
proof (rule in_step_entry [OF assms(1)])
  fix r assume r: "state_match s r" and ok: "calls_ok A [Append_Call (Operation_Open_Entry opened)]"
  from ok obtain t where t: "as_time_point A (jp_started_at opened) = Some t" by (auto simp: calls_ok_def)
  let ?r = "r\<lparr>ra_open_operations := AList.update (jp_operation_id opened) opened (ra_open_operations r)\<rparr>"
  have "same_counters r (observe (Some t) ?r)" by (simp add: same_counters_def)
  then have "state_match (operation_opened E opened s) (observe (Some t) ?r)"
    using r by (auto simp: state_match_def operation_opened_def call_writer_def elim!: counters_match_cong)
  with ok t show "\<exists>r'. replay_entries A [Operation_Open_Entry opened] 0 False r = Inr (0, False, r') \<and>
      state_match (operation_opened E opened s) r'" by (simp add: calls_ok_def)
qed (use assms in \<open>simp_all add: operation_opened_def call_writer_def is_finalize_iff in_step_def\<close>)

lemma emit_truncation_in_step: "in_step A s \<Longrightarrow> in_step A (snd (emit_truncation s))"
  by (erule in_step_same) (simp add: emit_truncation_def same_record_def)

lemma recorder_step_in_step:
  "recorder_step A E s s' \<Longrightarrow> re_enabled E \<Longrightarrow> in_step A s \<Longrightarrow> in_step A s'"
proof (induction rule: recorder_step.induct)
  case (Clock_Domain m s s')
  then show ?case
    by (auto simp: register_clock_domain_def split: if_splits intro: register_clock_in_step)
next
  case (Clock_Relation m s s')
  then show ?case by (auto simp: register_clock_relation_def intro: register_clock_in_step)
next
  case Operation
  show ?case by (rule record_fact_in_step [OF Operation.prems(2,1) _
      Operation.hyps(1) [unfolded record_operation_def] Operation.hyps(2)]) simp
next
  case Event
  show ?case by (rule record_fact_in_step [OF Event.prems(2,1) _
      Event.hyps(1) [unfolded record_event_def] Event.hyps(2)]) simp
next
  case Quality
  show ?case by (rule record_fact_in_step [OF Quality.prems(2,1) _
      Quality.hyps(1) [unfolded record_quality_sample_def] Quality.hyps(2)]) simp
next
  case Media
  show ?case by (rule add_media_ref_in_step [OF Media.prems(2,1) Media.hyps])
next
  case Identified
  show ?case by (rule add_identified_in_step [OF Identified.prems(2,1) Identified.hyps])
next
  case Coverage
  show ?case by (rule record_coverage_in_step [OF Coverage.prems(2,1) Coverage.hyps])
next
  case Omission
  show ?case by (rule record_omission_in_step [OF Omission.prems(2,1) Omission.hyps])
next
  case Adapter
  show ?case by (rule register_adapter_in_step [OF Adapter.prems(2,1) Adapter.hyps])
next
  case Raw_Otlp
  show ?case by (rule add_raw_otlp_in_step [OF Raw_Otlp.prems(2,1) Raw_Otlp.hyps])
next
  case Opened
  show ?case by (rule operation_opened_in_step [OF Opened.prems(2,1)])
next
  case Value_Limit
  show ?case by (rule note_omission_in_step [OF Value_Limit.prems(2,1) Value_Limit.hyps])
next
  case Diagnostic
  show ?case by (rule emit_truncation_in_step [OF Diagnostic.prems(2)])
qed

lemma new_recorder_in_step: "in_step A new_recorder"
proof -
  have "map_of (map (\<lambda>k. (kind_name k, 0 :: nat)) ks) j = (if j \<in> kind_name ` set ks then Some 0 else None)"
    for ks j by (induction ks) auto
  then have "counters_match new_recorder new_replay"
    by (simp add: counters_match_def new_recorder_def new_replay_def saturated_def tally_def comp_def
        split_def)
  then have "replays_to A new_recorder new_replay"
    by (simp add: replays_to_def state_match_def new_recorder_def new_replay_def)
  then show ?thesis by (auto simp: in_step_def new_recorder_def)
qed

lemma recorder_run_in_step:
  "(recorder_step A E)\<^sup>*\<^sup>* new_recorder s \<Longrightarrow> re_enabled E \<Longrightarrow> in_step A s"
  by (induction rule: rtranclp_induct) (auto intro: new_recorder_in_step recorder_step_in_step)

section \<open>The cross-check of unsaturated counters\<close>

definition below_cap :: "('m, 'j) recorder \<Rightarrow> bool" where
  "below_cap s = (rd_truncated_records s < MAX_COUNTER \<and> rd_omitted_bytes s < MAX_COUNTER \<and>
     list_all (\<lambda>(k, n). n < MAX_COUNTER) (rd_by_kind s) \<and>
     list_all (\<lambda>(k, n). n < MAX_COUNTER) (rd_by_class s))"

lemma map_of_nonzero: "distinct (map fst d) \<Longrightarrow>
  map_of (nonzero d) k = (if tally d k = 0 then None else Some (tally d k))"
proof (induction d)
  case (Cons p d)
  obtain a n where p: "p = (a, n)" by fastforce
  from Cons have IH: "map_of (nonzero d) k = (if tally d k = 0 then None else Some (tally d k))" by simp
  have "k = a \<Longrightarrow> tally d k = 0"
    using Cons.prems by (force simp: p tally_def split: option.split dest: map_of_SomeD)
  moreover have "tally (p # d) k = (if k = a then n else tally d k)" by (simp add: p tally_def)
  moreover have "nonzero (p # d) = (if n = 0 then nonzero d else p # nonzero d)"
    by (simp add: p nonzero_def)
  ultimately show ?case using IH by (cases "k = a") (simp_all add: p)
qed (simp add: nonzero_def tally_def)

lemma map_of_rev_distinct:
  assumes "distinct (map fst d)"
  shows "map_of (rev d) = map_of d"
proof
  fix k
  from assms have "distinct (map fst (rev d))" by (simp flip: rev_map)
  then have "map_of (rev d) k = Some n \<longleftrightarrow> map_of d k = Some n" for n
    using assms by (simp only: map_of_eq_Some_iff set_rev)
  then show "map_of (rev d) k = map_of d k" by (cases "map_of d k"; cases "map_of (rev d) k") auto
qed

lemma dict_eq_nonzero:
  "distinct (map fst d) \<Longrightarrow> distinct (map fst e) \<Longrightarrow> (\<And>k. tally d k = tally e k) \<Longrightarrow>
   dict_eq (nonzero d) (nonzero (rev e))"
proof -
  assume d: "distinct (map fst d)" "distinct (map fst e)" and t: "\<And>k. tally d k = tally e k"
  have "distinct (map fst (rev e))" using d(2) by (simp flip: rev_map)
  moreover have "tally (rev e) k = tally e k" for k using d(2) by (simp add: tally_def map_of_rev_distinct)
  ultimately show ?thesis using d t by (simp add: dict_eq_def map_of_nonzero list_all_iff)
qed

lemma below_cap_tally:
  "list_all (\<lambda>(k, n). n < MAX_COUNTER) d \<Longrightarrow> map_of d k = Some (min MAX_COUNTER n) \<Longrightarrow> min MAX_COUNTER n = n"
  by (auto simp: list_all_iff dest!: map_of_SomeD)

lemma saturated_below: "list_all (\<lambda>(k, n). n < MAX_COUNTER) (saturated d) \<Longrightarrow> d = saturated d"
  by (induction d) (auto simp: saturated_def)

lemma distinct_counter_keys:
  "distinct (map kind_name RECORD_KINDS)" "distinct (map class_value all_classes)"
  by (simp_all add: RECORD_KINDS_def all_classes_def)

lemma cross_check_clean:
  assumes "state_match s r" "below_cap s"
  shows "\<not> cross_check r (finalize_frame status attributes ended s\<lparr>jf_journal_complete := c\<rparr>)"
proof -
  note m = assms(1) [unfolded state_match_def]
  note cm = m [THEN conjunct2, THEN conjunct2, THEN conjunct2, unfolded counters_match_def]
  note b = assms(2) [unfolded below_cap_def]
  have counts: "replay_counts r = record_counts s"
    using m by (simp add: replay_counts_def record_counts_def)
  have "distinct (map fst (record_counts s))" by (simp add: record_counts_def)
  then have "dict_eq (record_counts s) (rev (record_counts s))"
    by (simp add: dict_eq_def map_of_rev_distinct list_all_iff)
  moreover have "dict_eq (nonzero (ra_by_kind r)) (nonzero (rev (rd_by_kind s)))"
  proof (rule dict_eq_nonzero)
    show "distinct (map fst (rd_by_kind s))" using cm distinct_counter_keys by simp
    show "distinct (map fst (ra_by_kind r))" using cm by blast
    fix k
    show "tally (ra_by_kind r) k = tally (rd_by_kind s) k"
    proof (cases "k \<in> kind_name ` set RECORD_KINDS")
      case True
      then have "map_of (rd_by_kind s) k = Some (min MAX_COUNTER (tally (ra_by_kind r) k))"
        using cm by simp
      with below_cap_tally [of "rd_by_kind s"] b show ?thesis
        by (metis tally_def option.case(2))
    next
      case False
      then have "k \<notin> fst ` set (ra_by_kind r)" "map_of (rd_by_kind s) k = None" using cm by auto
      then show ?thesis by (simp add: tally_def map_of_eq_None_iff [THEN iffD2])
    qed
  qed
  moreover have "dict_eq (nonzero (ra_by_class r)) (nonzero (rev (rd_by_class s)))"
  proof (rule dict_eq_nonzero)
    show "distinct (map fst (ra_by_class r))" using cm distinct_counter_keys by simp
    then show "distinct (map fst (rd_by_class s))" using cm by simp
    fix k
    have "ra_by_class r = rd_by_class s" using cm b by (auto intro: saturated_below)
    then show "tally (ra_by_class r) k = tally (rd_by_class s) k" by simp
  qed
  moreover have "ra_truncated_records r = rd_truncated_records s" "ra_omitted_bytes r = rd_omitted_bytes s"
    using cm b by (simp_all add: min_def split: if_splits)
  ultimately show ?thesis
    using m cm counts by (simp add: cross_check_def finalize_frame_def)
qed

section \<open>The property\<close>

lemma server_collects:
  fixes cs :: "'j writer_call list"
  assumes "list_all appends cs"
  shows "sv_entries (fold server_call (cs @ [Finalize_Call f]) (server_open digest b header new_server_writer))
    = Open_Entry (header (take 32 (digest b))) # entries_of cs @ [Finalize_Entry (f\<lparr>jf_journal_complete := True\<rparr>)]"
proof -
  let ?w = "server_open digest b header new_server_writer :: 'j server_writer"
  have w: "sv_header ?w \<noteq> None" "\<not> sv_closed ?w"
      "sv_entries ?w = [Open_Entry (header (take 32 (digest b)))]"
    by (simp_all add: server_open_def new_server_writer_def server_append_def Let_def)
  have "admitted False (cs @ [Finalize_Call f]) = entries_of cs @ [Finalize_Entry (f\<lparr>jf_journal_complete := True\<rparr>)]"
    using assms by (induction cs) (auto simp: entries_of_def elim!: appends.elims)
  with fold_server_calls [OF w(1), of "cs @ [Finalize_Call f]"] w show ?thesis
    by simp
qed

text \<open>\<open>snapshot_locked\<close> is \<^verbatim>\<open>_snapshot_locked\<close>; the recorder's identity is what it opened its
  journal with, so it is read from the header. \<^verbatim>\<open>close\<close> has no unfinished operations.\<close>

definition snapshot_locked :: "journal_open \<Rightarrow> string \<Rightarrow> (string \<times> string) list \<Rightarrow> 'e option
    \<Rightarrow> ('m, 'j) recorder \<Rightarrow> ('m, 'e) snapshot" where
  "snapshot_locked h status attributes ended s =
     \<lparr>sn_bundle_id = jo_bundle_id h, sn_session_id = jo_session_id h,
      sn_clock_domain_id = jo_clock_domain_id h, sn_started_wall = jo_started_wall h,
      sn_started_mono = jo_started_mono h, sn_status = status, sn_attributes = attributes,
      sn_ended_at = ended, sn_facts = rd_facts s, sn_omissions = rd_omissions s,
      sn_retained = rd_retained s, sn_first_limit = rd_first_limit s,
      sn_by_class = rd_by_class s, sn_unfinished = 0\<rparr>"

text \<open>
  C3. After any run of a recorder that journals into a server writer and is then finalized, the
  entries the writer collected assemble into the snapshot of the recorder itself: every fact of
  every kind in order, the omissions, the retained classes, the first limit and the loss counters,
  with the status it was finalized with; nothing is discarded, and the assembler's cross-check
  agrees, as long as no counter has reached its cap. (Assumed of the governance the two share: a fact
  the recorder admitted validates back from its journaled value.)
\<close>

theorem replay_reproduces_the_recorder:
  assumes run: "(recorder_step A E)\<^sup>*\<^sup>* new_recorder s" "re_enabled E"
      "\<not> rd_closed s" "\<not> rd_close_failed s" "below_cap s"
    and closed: "finalize_recorder E status attributes True ended s = Some s'"
    and journal: "sv_entries (fold server_call (rd_calls s')
        (server_open digest bundle_id header new_server_writer))
          = Open_Entry (rp_header replay) # rp_entries replay"
      "rp_torn_tail_bytes replay = 0"
    and readable: "as_policy A (rp_header replay)" "as_nonrecord A (Open_Entry (rp_header replay))"
      "list_all (as_nonrecord A) (rp_entries replay)"
      "calls_ok A (rd_calls s)" "as_time_point A ended = Some t"
  shows "\<exists>report. assemble_incident A best_effort None method reason replay = Inr
    (snapshot_locked (rp_header replay) status attributes (Some t) s, None, report) \<and>
    \<not> ar_counter_mismatch report \<and> ar_journal_complete report \<and> ar_discarded_records report = 0"
proof -
  have "in_step A s" using run(1,2) by (rule recorder_run_in_step)
  with readable(4) obtain r where r: "replays_to A s r" and ap: "list_all appends (rd_calls s)"
    by (auto simp: in_step_def)
  let ?f = "(finalize_frame status attributes ended s)\<lparr>jf_journal_complete := True\<rparr>"
  have "rd_calls s' = rd_calls s @ [Finalize_Call (finalize_frame status attributes ended s)]"
    using closed run by (auto simp: finalize_recorder_def call_writer_def)
  then have es: "rp_entries replay = entries_of (rd_calls s) @ [Finalize_Entry ?f]"
    using server_collects [OF ap] journal(1) by simp
  then have fin: "replay_finalize replay = Some ?f" by (simp add: replay_finalize_def)
  have "replay_entries A (rp_entries replay) 0 False new_replay = Inr (0, False, r)"
    using readable(3) r unfolding es replays_to_def
    by (simp add: replay_append [OF entries_of_appends(1) [OF ap]])
  moreover have sm: "state_match s r" using r by (simp add: replays_to_def)
  moreover have "\<not> cross_check r ?f" by (rule cross_check_clean [OF sm run(5)])
  moreover have "ra_by_class r = rd_by_class s"
    using sm run(5) by (auto simp: state_match_def counters_match_def below_cap_def intro: saturated_below)
  ultimately show ?thesis
    using journal(2) readable(1,2,5)
    by (simp add: assemble_incident_def Let_def fin make_snapshot_def state_match_def counters_match_def
        finalize_frame_def snapshot_locked_def)
qed

text \<open>A recorder with room for one record: a participant fits, the event after it does not.\<close>

definition sample_limits :: "(string, string fact) recorder_env" where
  "sample_limits = \<lparr>re_max_records = 1, re_max_capture_bytes = 100, re_max_raw_otlp_bytes = 10,
     re_max_value_bytes = 10, re_enabled = True, re_clock_domain_id = ''main'', re_id = (\<lambda>m. m),
     re_dump = (\<lambda>f. f), re_with_payload = (\<lambda>v p. the v), re_coverage_size = (\<lambda>c. 10)\<rparr>"

definition sample_joined :: "(string, string fact) recorder" where
  "sample_joined = snd (projr (add_identified sample_limits K_participant ''caller'' METADATA 50
     [(''k1'', TRANSCRIPT, ''policy'')] {IDENTITY} new_recorder))"

definition sample_refused :: "(string, string fact) recorder" where
  "sample_refused = snd (projr (record_event sample_limits ''hello'' TRANSCRIPT 40 [] {} [] sample_joined))"

lemma sample_joined_eval:
  "add_identified sample_limits K_participant ''caller'' METADATA 50
     [(''k1'', TRANSCRIPT, ''policy'')] {IDENTITY} new_recorder = Inr (''caller'', sample_joined)"
  "rd_calls sample_joined = [Append_Call (Record_Entry \<lparr>jr_kind = K_participant,
     jr_value = Some (Model_Fact ''caller''),
     jr_omissions = [\<lparr>jm_field_key_sha256 = ''k1'', jm_capture_class = ''transcript'', jm_reason = ''policy''\<rparr>],
     jr_retained_classes = [''identity''], jr_replaces_index = None\<rparr>)]"
  "rd_closed sample_joined = False" "rd_close_failed sample_joined = False" "rd_frozen sample_joined = False"
  "rd_captured_records sample_joined = 1" "rd_first_limit sample_joined = None"
  "rd_truncated_records sample_joined = 0" "rd_omitted_bytes sample_joined = 0"
  "rd_by_kind sample_joined = map (\<lambda>k. (kind_name k, 0)) RECORD_KINDS"
  "rd_by_class sample_joined = map (\<lambda>c. (class_value c, 0)) all_classes"
  by (simp_all add: sample_joined_def add_identified_def new_recorder_def sample_limits_def
      try_admit_def known_fact_def journal_locked_def add_fact_def sorted_classes_def
      classes_by_value_def mutation_entry_def keeps_the_mutation_coherent_def call_writer_def Let_def)

lemma sample_refused_eval:
  "record_event sample_limits ''hello'' TRANSCRIPT 40 [] {} [] sample_joined = Inr (False, sample_refused)"
  "sample_refused = note_omission sample_limits ''max_records'' K_event TRANSCRIPT 40 True True sample_joined"
  by (simp_all add: sample_refused_def record_event_def record_fact_def sample_joined_eval sample_limits_def try_admit_def)

lemma sample_refused_fields:
  "rd_closed sample_refused = False" "rd_close_failed sample_refused = False" "below_cap sample_refused"
  "rd_calls sample_refused = rd_calls sample_joined @ [Append_Call (Limit_Entry
     (limit_entry ''max_records'' K_event TRANSCRIPT 40 True True))]"
  by (simp_all add: sample_refused_eval(2) note_omission_def call_writer_def sample_limits_def Let_def
      sample_joined_eval below_cap_def bump_def saturating_add_def MAX_COUNTER_def RECORD_KINDS_def
      all_classes_def limit_entry_def)

lemma sample_run: "(recorder_step sample_governance sample_limits)\<^sup>*\<^sup>* new_recorder sample_refused"
proof -
  have "recorder_step sample_governance sample_limits new_recorder sample_joined"
    by (rule recorder_step.Identified [OF _ sample_joined_eval(1)])
       (simp_all add: governed_def sample_governance_def sample_limits_def)
  moreover have "recorder_step sample_governance sample_limits sample_joined sample_refused"
    by (rule recorder_step.Event [OF sample_refused_eval(1)])
       (simp_all add: governed_def sample_governance_def sample_limits_def)
  ultimately show ?thesis by simp
qed

definition sample_finalized :: "(string, string fact) recorder" where
  "sample_finalized = the (finalize_recorder sample_limits ''completed'' [] True (Model_Fact ''t'') sample_refused)"

definition sample_recorded :: "string fact journal_replay" where
  "sample_recorded = \<lparr>rp_header = sample_header,
     rp_entries = tl (sv_entries (fold server_call (rd_calls sample_finalized)
       (server_open (\<lambda>b. b) ''b'' (\<lambda>j. sample_header) new_server_writer))),
     rp_last_sequence = 4, rp_torn_tail_bytes = 0, rp_stop_reason = None, rp_total_bytes = 0\<rparr>"

lemma sample_journal:
  "sv_entries (fold server_call (rd_calls sample_finalized)
     (server_open (\<lambda>b. b) ''b'' (\<lambda>j. sample_header) new_server_writer))
   = Open_Entry sample_header # rp_entries sample_recorded"
proof -
  have calls: "rd_calls sample_finalized = rd_calls sample_refused @ [Finalize_Call
      (finalize_frame ''completed'' [] (Model_Fact ''t'') sample_refused)]"
    by (simp add: sample_finalized_def finalize_recorder_def sample_refused_fields call_writer_def
        sample_limits_def)
  have "list_all appends (rd_calls sample_refused)"
    by (simp add: sample_refused_fields sample_joined_eval is_finalize_iff)
  from server_collects [OF this] show ?thesis
    by (simp add: sample_recorded_def calls del: fold_append)
qed

theorem replay_reproduces_the_recorder_witness:
  "\<exists>report. assemble_incident sample_governance False None None None sample_recorded = Inr
    (snapshot_locked (rp_header sample_recorded) ''completed'' []
      (Some sample_point) sample_refused, None, report) \<and>
    \<not> ar_counter_mismatch report \<and> ar_journal_complete report \<and> ar_discarded_records report = 0"
proof (rule replay_reproduces_the_recorder [OF sample_run, where header = "\<lambda>j. sample_header"
      and s' = sample_finalized and digest = "\<lambda>b. b" and bundle_id = "''b''" and ended = "Model_Fact ''t''"])
  show "sv_entries (fold server_call (rd_calls sample_finalized)
      (server_open (\<lambda>b. b) ''b'' (\<lambda>j. sample_header) new_server_writer))
    = Open_Entry (rp_header sample_recorded) # rp_entries sample_recorded"
    using sample_journal by (simp add: sample_recorded_def)
qed (simp_all add: sample_refused_fields sample_joined_eval sample_finalized_def finalize_recorder_def sample_recorded_def
        sample_governance_def calls_ok_def list_all_iff sample_limits_def entries_of_def)

end
