(* ===== verification/RecorderLimits.thy ===== *)
theory RecorderLimits
  imports RecorderReplay
begin

text \<open>
  What a recorder holds stays bounded, and a rejected batch can be undone: every step of a recorder
  is one of a few effects on what it has captured, from which the two properties follow.
\<close>

section \<open>The effect of a step\<close>

type_synonym 'm captured = "(record_kind \<Rightarrow> 'm fact list) \<times> omission list \<times> nat \<times> nat \<times> nat"

definition captured :: "('m, 'j) recorder \<Rightarrow> 'm captured" where
  "captured s = (rd_facts s, rd_omissions s, rd_captured_records s, rd_captured_bytes s, rd_raw_otlp_bytes s)"

definition counted_kinds :: "record_kind list" where
  "counted_kinds = [K_adapter, K_coverage, K_event, K_media, K_operation, K_participant,
     K_quality_sample, K_raw_otlp, K_stream]"

definition fact_ident :: "('m, 'j) recorder_env \<Rightarrow> 'm fact \<Rightarrow> string option" where
  "fact_ident E f = (case f of Model_Fact m \<Rightarrow> Some (re_id E m) | Coverage_Fact c \<Rightarrow> None)"

definition fact_signal :: "'m fact \<Rightarrow> string option" where
  "fact_signal f = (case f of Model_Fact m \<Rightarrow> None | Coverage_Fact c \<Rightarrow> Some (cv_signal c))"

text \<open>A fact of a kind that is kept once per identifier or signal is new.\<close>

definition fresh :: "('m, 'j) recorder_env \<Rightarrow> record_kind \<Rightarrow> 'm fact \<Rightarrow> 'm fact list \<Rightarrow> bool" where
  "fresh E kind f fs =
     (if kind = K_coverage then fact_signal f \<noteq> None \<and> fact_signal f \<notin> fact_signal ` set fs
      else if kind \<in> {K_participant, K_stream, K_clock_domain, K_clock_relation}
      then fact_ident E f \<noteq> None \<and> fact_ident E f \<notin> fact_ident E ` set fs
      else True)"

inductive effect :: "('m, 'j) recorder_env \<Rightarrow> ('m, 'j) recorder \<Rightarrow> ('m, 'j) recorder \<Rightarrow> bool" for E where
  Nothing: "captured s' = captured s \<Longrightarrow> rd_frozen s \<le> rd_frozen s' \<Longrightarrow> effect E s s'"
| Admitted: "\<lbrakk>\<not> rd_frozen s; rd_captured_records s < re_max_records E;
      rd_captured_bytes s + est \<le> re_max_capture_bytes E;
      raw = 0 \<or> rd_raw_otlp_bytes s + raw \<le> re_max_raw_otlp_bytes E;
      kind \<in> set counted_kinds; fresh E kind f (rd_facts s kind);
      captured s' = ((rd_facts s)(kind := rd_facts s kind @ [f]), rd_omissions s @ oms,
        rd_captured_records s + 1, rd_captured_bytes s + est, rd_raw_otlp_bytes s + raw)\<rbrakk> \<Longrightarrow> effect E s s'"
| Omitted: "\<lbrakk>\<not> rd_frozen s; rd_captured_records s < re_max_records E;
      rd_captured_bytes s + est \<le> re_max_capture_bytes E;
      captured s' = (rd_facts s, rd_omissions s @ oms, rd_captured_records s + 1,
        rd_captured_bytes s + est, rd_raw_otlp_bytes s)\<rbrakk> \<Longrightarrow> effect E s s'"
| Clock: "\<lbrakk>(kind, cap) \<in> {(K_clock_domain, MAX_EXTRA_CLOCK_DOMAINS), (K_clock_relation, MAX_CLOCK_RELATIONS)};
      length (rd_facts s kind) < cap; fresh E kind f (rd_facts s kind); rd_frozen s \<le> rd_frozen s';
      captured s' = ((rd_facts s)(kind := rd_facts s kind @ [f]), rd_omissions s,
        rd_captured_records s, rd_captured_bytes s, rd_raw_otlp_bytes s)\<rbrakk> \<Longrightarrow> effect E s s'"
| Superseded: "\<lbrakk>\<not> rd_frozen s; rd_captured_bytes s + est \<le> re_max_capture_bytes E;
      i < length (rd_facts s K_coverage); fact_signal (rd_facts s K_coverage ! i) = fact_signal f;
      captured s' = ((rd_facts s)(K_coverage := (rd_facts s K_coverage)[i := f]), rd_omissions s,
        rd_captured_records s, rd_captured_bytes s + est, rd_raw_otlp_bytes s)\<rbrakk> \<Longrightarrow> effect E s s'"

lemma captured_simps [simp]:
  "captured (note_omission E reason kind c est whole freeze s) = captured s"
  "captured (journal_locked E kind f i payload s) = captured s"
  "captured (call_writer E wc s) = captured s"
  "rd_frozen (journal_locked E kind f i payload s) = rd_frozen s"
  "rd_frozen (call_writer E wc s) = rd_frozen s"
  by (auto simp: captured_def note_omission_def journal_locked_def call_writer_def Let_def split: option.split)

lemma note_omission_effect: "effect E s (note_omission E reason kind c est whole freeze s)"
  by (rule Nothing) (simp, auto simp: note_omission_def call_writer_def Let_def)

lemma try_admit_effect:
  assumes "try_admit E kind c est raw s = (ok, s')"
  shows "\<not> ok \<Longrightarrow> effect E s s'"
    and "ok \<Longrightarrow> \<not> rd_frozen s \<and> rd_captured_records s < re_max_records E \<and>
      rd_captured_bytes s + est \<le> re_max_capture_bytes E \<and>
      (raw = 0 \<or> rd_raw_otlp_bytes s + raw \<le> re_max_raw_otlp_bytes E) \<and>
      s' = s\<lparr>rd_captured_records := rd_captured_records s + 1,
             rd_captured_bytes := rd_captured_bytes s + est,
             rd_raw_otlp_bytes := rd_raw_otlp_bytes s + raw\<rparr>"
  using assms by (auto simp: try_admit_def not_less not_le intro: note_omission_effect split: if_splits)

lemma admit_fact_effect:
  assumes "try_admit E kind c est raw s = (True, s1)" "kind \<in> set counted_kinds" "fresh E kind f (rd_facts s kind)"
  shows "effect E s (journal_locked E kind' f' i payload (add_fact kind f oms classes s1))"
  using try_admit_effect(2) [OF assms(1)] assms(2,3)
  by (intro Admitted [of s E est raw kind f _ oms]) (simp_all add: add_fact_def, simp add: captured_def)

lemma admit_omission_effect:
  assumes "try_admit E kind c est 0 s = (True, s1)"
  shows "effect E s (journal_locked E kind' f' i payload (s1\<lparr>rd_omissions := rd_omissions s1 @ oms\<rparr>))"
  using try_admit_effect(2) [OF assms]
  by (intro Omitted [of s E est _ oms]) (simp_all, simp add: captured_def)

lemma record_fact_effect:
  assumes "record_fact E kind m c est oms classes s = Inr (ok, s')"
    and "kind \<in> {K_operation, K_event, K_quality_sample, K_media}"
  shows "effect E s s'"
proof -
  obtain b s1 where t: "try_admit E kind c est 0 s = (b, s1)" by fastforce
  show ?thesis
  proof (cases b)
    case True
    have "fresh E kind (Model_Fact m) (rd_facts s kind)" "kind \<in> set counted_kinds"
      using assms(2) by (auto simp: fresh_def counted_kinds_def)
    with assms(1) t True admit_fact_effect show ?thesis by (auto simp: record_fact_def split: if_splits)
  next
    case False
    with assms(1) t try_admit_effect(1) [OF t] show ?thesis by (auto simp: record_fact_def split: if_splits)
  qed
qed

lemma known_fact_fresh:
  assumes "known_fact E (re_id E m) fs = None"
  shows "fact_ident E (Model_Fact m) \<notin> fact_ident E ` set fs"
  using assms by (fastforce simp: known_fact_def fact_ident_def find_None_iff find_Some_iff
      split: option.splits fact.splits)

lemma coverage_index_fresh:
  "coverage_index signal fs = None \<Longrightarrow> Some signal \<notin> fact_signal ` set fs"
  by (induction fs) (auto simp: fact_signal_def split: option.splits if_splits fact.splits
      elim!: as_coverage.elims)

lemma coverage_index_signal:
  "coverage_index signal fs = Some (i, c) \<Longrightarrow> i < length fs \<and> fact_signal (fs ! i) = Some signal"
proof (induction fs arbitrary: i)
  case (Cons f fs)
  then show ?case by (cases f) (auto simp: fact_signal_def split: if_splits)
qed simp

lemma add_identified_effect:
  assumes "add_identified E kind m c est oms classes s = Inr (kept, s')" "kind \<in> {K_participant, K_stream}"
  shows "effect E s s'"
proof (cases "known_fact E (re_id E m) (rd_facts s kind)")
  case None
  obtain b s1 where t: "try_admit E kind c est 0 s = (b, s1)" by fastforce
  show ?thesis
  proof (cases b)
    case True
    have "fresh E kind (Model_Fact m) (rd_facts s kind)" "kind \<in> set counted_kinds"
      using assms(2) known_fact_fresh [OF None] by (auto simp: fresh_def counted_kinds_def fact_ident_def)
    with assms(1) t True None admit_fact_effect show ?thesis
      by (auto simp: add_identified_def split: if_splits)
  next
    case False
    with assms(1) t None try_admit_effect(1) [OF t] show ?thesis
      by (auto simp: add_identified_def split: if_splits)
  qed
next
  case (Some m')
  with assms(1) show ?thesis by (auto simp: add_identified_def intro!: Nothing split: if_splits)
qed

lemma register_clock_effect:
  assumes "register_clock E kind cap m s = Inr s'"
    and "(kind, cap) \<in> {(K_clock_domain, MAX_EXTRA_CLOCK_DOMAINS), (K_clock_relation, MAX_CLOCK_RELATIONS)}"
  shows "effect E s s'"
proof (cases "known_fact E (re_id E m) (rd_facts s kind)")
  case None
  let ?s = "journal_locked E kind (Some (Model_Fact m)) None None (add_fact kind (Model_Fact m) [] {} s)"
  have "fresh E kind (Model_Fact m) (rd_facts s kind)"
    using assms(2) known_fact_fresh [OF None] by (auto simp: fresh_def fact_ident_def)
  then have "effect E s ?s" if "length (rd_facts s kind) < cap"
    using assms(2) that by (intro Clock [of kind cap s E "Model_Fact m"])
      (simp_all add: add_fact_def, simp add: captured_def)
  with assms(1) None show ?thesis
    by (auto simp: register_clock_def intro: Nothing split: if_splits)
next
  case (Some m')
  with assms(1) show ?thesis by (auto simp: register_clock_def intro!: Nothing split: if_splits)
qed

lemma record_coverage_effect:
  assumes "record_coverage E cov s = Inr s'"
  shows "effect E s s'"
proof (cases "coverage_index (cv_signal cov) (rd_facts s K_coverage)")
  case None
  obtain b s1 where t: "try_admit E K_coverage METADATA (re_coverage_size E cov) 0 s = (b, s1)" by fastforce
  show ?thesis
  proof (cases b)
    case True
    have "fresh E K_coverage (Coverage_Fact cov) (rd_facts s K_coverage)"
      using coverage_index_fresh [OF None] by (simp add: fresh_def fact_signal_def)
    moreover have "try_admit E K_coverage METADATA (re_coverage_size E cov) 0 s = (True, s1)" using t True by simp
    ultimately show ?thesis using admit_fact_effect [of E K_coverage] assms t True None
      by (auto simp: record_coverage_def counted_kinds_def split: if_splits)
  next
    case False
    with assms t None try_admit_effect(1) [OF t] show ?thesis
      by (auto simp: record_coverage_def split: if_splits)
  qed
next
  case (Some p)
  then obtain i old where p: "coverage_index (cv_signal cov) (rd_facts s K_coverage) = Some (i, old)"
    by (cases p) simp
  let ?delta = "re_coverage_size E cov - re_coverage_size E old"
  have "effect E s (journal_locked E K_coverage (Some (Coverage_Fact cov)) (Some i) None
      (s\<lparr>rd_facts := (rd_facts s)(K_coverage := (rd_facts s K_coverage)[i := Coverage_Fact cov]),
         rd_captured_bytes := rd_captured_bytes s + ?delta\<rparr>))"
    if "\<not> rd_frozen s" "\<not> rd_captured_bytes s + ?delta > re_max_capture_bytes E"
    using coverage_index_signal [OF p] that
    by (intro Superseded [of s ?delta E i "Coverage_Fact cov"])
       (simp_all add: fact_signal_def, simp add: captured_def)
  moreover have "effect E s s" by (rule Nothing) simp_all
  ultimately show ?thesis using assms note_omission_effect
    by (auto simp: record_coverage_def p Let_def split: if_splits)
qed

lemma record_omission_effect:
  assumes "record_omission E om est s = Inr s'"
  shows "effect E s s'"
proof -
  obtain b s1 where t: "try_admit E K_omission (fst (snd om)) est 0 s = (b, s1)" by fastforce
  with assms try_admit_effect(1) [OF t] admit_omission_effect show ?thesis
    by (cases b) (auto simp: record_omission_def split: if_splits)
qed

lemma add_raw_otlp_effect:
  assumes "add_raw_otlp_chunk E allowed om om_est m payload s = Inr (ok, s')"
  shows "effect E s s'"
proof (cases allowed)
  case False
  obtain b s1 where t: "try_admit E K_omission RAW_OTLP om_est 0 s = (b, s1)" by fastforce
  with False assms try_admit_effect(1) [OF t] admit_omission_effect show ?thesis
    by (cases b) (auto simp: add_raw_otlp_chunk_def split: if_splits)
next
  case True
  let ?est = "min (re_max_capture_bytes E + 1) (length payload + 256)"
  obtain b s1 where t: "try_admit E K_raw_otlp RAW_OTLP ?est (length payload) s = (b, s1)" by fastforce
  have "fresh E K_raw_otlp f fs" for f :: "'a fact" and fs by (simp add: fresh_def)
  moreover have "K_raw_otlp \<in> set counted_kinds" by (simp add: counted_kinds_def)
  ultimately have "effect E s (journal_locked E K_raw_otlp (Some (Model_Fact m)) None (Some payload)
      (add_fact K_raw_otlp (Model_Fact m) [] {RAW_OTLP} s1))" if b
    using admit_fact_effect [of E K_raw_otlp RAW_OTLP ?est "length payload" s s1] t that by simp
  with True assms t try_admit_effect(1) [OF t] show ?thesis
    by (cases b) (auto simp: add_raw_otlp_chunk_def split: if_splits)
qed

lemma register_adapter_effect:
  assumes "register_adapter E m est ext s = Inr s'"
  shows "effect E s s'"
proof -
  define mark where "mark t = (if Model_Fact m \<in> set (rd_facts t K_adapter) \<and> ext
      then t\<lparr>rd_retained := insert EXTENSION_PAYLOAD (rd_retained t)\<rparr> else t)" for t :: "('a, 'b) recorder"
  have mark: "captured (mark t) = captured t" "rd_frozen (mark t) = rd_frozen t" for t
    by (auto simp: mark_def captured_def)
  show ?thesis
  proof (cases "Model_Fact m \<in> set (rd_facts s K_adapter)")
    case True
    with assms have "s' = journal_locked E K_policy None None None (mark s)"
      by (simp add: register_adapter_def mark_def split: if_splits)
    then show ?thesis by (intro Nothing) (simp_all add: mark)
  next
    case False
    obtain b s1 where t: "try_admit E K_adapter METADATA est 0 s = (b, s1)" by fastforce
    have s': "s' = (if b then journal_locked E K_adapter (Some (Model_Fact m)) None None
          (mark (add_fact K_adapter (Model_Fact m) [] {} s1))
        else journal_locked E K_policy None None None (mark s1))"
      using assms t False
      by (cases b) (auto simp: register_adapter_def mark_def Let_def split: if_splits)
    show ?thesis
    proof (cases b)
      case True
      with try_admit_effect(2) [OF t] show ?thesis unfolding s'
        by (intro Admitted [of s E est 0 K_adapter "Model_Fact m" _ "[]"])
           (simp_all add: mark add_fact_def counted_kinds_def fresh_def, simp add: captured_def)
    next
      case False
      have "s1 = note_omission E (default_reason s) K_adapter METADATA (int est) True True s
          \<or> s1 = note_omission E ''max_records'' K_adapter METADATA (int est) True True s
          \<or> s1 = note_omission E ''max_capture_bytes'' K_adapter METADATA (int est) True True s"
        using t False by (auto simp: try_admit_def split: if_splits)
      moreover have "rd_frozen (note_omission E reason K_adapter METADATA (int est) True True s)" for reason
        by (simp add: note_omission_def call_writer_def Let_def)
      ultimately show ?thesis using False unfolding s' by (intro Nothing) (auto simp: mark)
    qed
  qed
qed

lemma add_media_ref_effect:
  assumes "add_media_ref E exceeded coherent allowed om om_est m est oms tracked ext s = Inr (ok, s')"
  shows "effect E s s'"
proof -
  obtain b s1 where t: "try_admit E K_omission AUDIO om_est 0 s = (b, s1)" by fastforce
  have "effect E s (journal_locked E K_omission None None None (s1\<lparr>rd_omissions := rd_omissions s1 @ [om]\<rparr>))" if b
    using admit_omission_effect t that by simp
  with assms t try_admit_effect(1) [OF t] note_omission_effect record_fact_effect show ?thesis
    by (cases exceeded; cases b)
       (auto simp: add_media_ref_def split: if_splits, (rule record_fact_effect, assumption, simp)+)
qed

lemma recorder_step_effect: "recorder_step A E s s' \<Longrightarrow> effect E s s'"
proof (induction rule: recorder_step.induct)
  case Operation
  from Operation.hyps(1) show ?case by (auto simp: record_operation_def intro: record_fact_effect)
next
  case Event
  from Event.hyps(1) show ?case by (auto simp: record_event_def intro: record_fact_effect)
next
  case Quality
  from Quality.hyps(1) show ?case by (auto simp: record_quality_sample_def intro: record_fact_effect)
next
  case Media
  from Media.hyps(1) show ?case by (rule add_media_ref_effect)
next
  case Identified
  from Identified.hyps(2,1) show ?case by (rule add_identified_effect)
next
  case Clock_Domain
  from Clock_Domain.hyps(1) show ?case
    by (auto simp: register_clock_domain_def split: if_splits intro: Nothing register_clock_effect)
next
  case Clock_Relation
  from Clock_Relation.hyps(1) show ?case
    by (auto simp: register_clock_relation_def intro: register_clock_effect)
next
  case Coverage
  from Coverage.hyps(1) show ?case by (rule record_coverage_effect)
next
  case Omission
  from Omission.hyps(1) show ?case by (rule record_omission_effect)
next
  case Adapter
  from Adapter.hyps(1) show ?case by (rule register_adapter_effect)
next
  case Raw_Otlp
  from Raw_Otlp.hyps(1) show ?case by (rule add_raw_otlp_effect)
next
  case Opened
  show ?case by (rule Nothing) (simp_all add: operation_opened_def)
next
  case Value_Limit
  show ?case by (rule note_omission_effect)
next
  case Diagnostic
  show ?case by (rule Nothing) (simp_all add: emit_truncation_def captured_def)
qed

section \<open>The bounds\<close>

definition within_limits :: "('m, 'j) recorder_env \<Rightarrow> ('m, 'j) recorder \<Rightarrow> bool" where
  "within_limits E s =
     (rd_captured_records s \<le> re_max_records E \<and> rd_captured_bytes s \<le> re_max_capture_bytes E \<and>
      rd_raw_otlp_bytes s \<le> re_max_raw_otlp_bytes E \<and>
      sum_list (map (\<lambda>k. length (rd_facts s k)) counted_kinds) \<le> rd_captured_records s \<and>
      length (rd_facts s K_clock_domain) \<le> MAX_EXTRA_CLOCK_DOMAINS \<and>
      length (rd_facts s K_clock_relation) \<le> MAX_CLOCK_RELATIONS \<and>
      distinct (map fact_signal (rd_facts s K_coverage)) \<and>
      list_all (\<lambda>k. distinct (map (fact_ident E) (rd_facts s k)))
        [K_participant, K_stream, K_clock_domain, K_clock_relation])"

lemma effect_within_limits: "effect E s s' \<Longrightarrow> within_limits E s \<Longrightarrow> within_limits E s'"
proof (induction rule: effect.induct)
  case (Nothing s' s)
  then show ?case by (simp add: captured_def within_limits_def)
next
  case (Admitted s est raw kind f s' oms)
  then show ?case
    by (auto simp: captured_def within_limits_def counted_kinds_def fresh_def split: if_splits)
next
  case (Omitted s est s' oms)
  then show ?case by (simp add: captured_def within_limits_def)
next
  case (Clock kind cap s f s')
  then show ?case by (auto simp: captured_def within_limits_def fresh_def counted_kinds_def)
next
  case (Superseded s est i f s')
  have "map fact_signal ((rd_facts s K_coverage)[i := f]) = map fact_signal (rd_facts s K_coverage)"
    using Superseded(3,4) by (simp add: map_update list_update_same_conv)
  with Superseded show ?case by (simp add: captured_def within_limits_def counted_kinds_def)
qed

text \<open>Facts are append-only, except for a superseded coverage.\<close>

definition grown :: "('m, 'j) recorder \<Rightarrow> ('m, 'j) recorder \<Rightarrow> bool" where
  "grown s s' = ((\<forall>k. k \<noteq> K_coverage \<longrightarrow> take (length (rd_facts s k)) (rd_facts s' k) = rd_facts s k) \<and>
     take (length (rd_omissions s)) (rd_omissions s') = rd_omissions s)"

lemma effect_grown: "effect E s s' \<Longrightarrow> grown s s'"
  by (induction rule: effect.induct) (auto simp: captured_def grown_def)

lemma take_trans: "take (length a) b = a \<Longrightarrow> take (length b) c = b \<Longrightarrow> take (length a) c = a"
  by (metis append_take_drop_id append_eq_conv_conj take_take min.absorb1 length_take min_def)

text \<open>
  C12. However it is called, a recorder stays within its limits: it never captures more records, bytes
  or raw OTLP bytes than configured, the facts it holds are covered by the records it counted, extra
  clocks stay below their caps, a signal has one coverage and an identifier one participant, stream
  or clock; and once admission is frozen no later call adds a fact, other than a clock, or an omission,
  or thaws it.
\<close>

theorem recorder_stays_within_limits:
  assumes "(recorder_step A E)\<^sup>*\<^sup>* new_recorder s"
  shows "within_limits E s \<and> (\<forall>s'. recorder_step A E s s' \<and> rd_frozen s \<longrightarrow>
     rd_frozen s' \<and> rd_omissions s' = rd_omissions s \<and>
     (\<forall>k\<in>set counted_kinds. rd_facts s' k = rd_facts s k))"
proof
  show "within_limits E s"
    using assms
  proof (induction rule: rtranclp_induct)
    case base
    show ?case by (simp add: within_limits_def new_recorder_def counted_kinds_def)
  next
    case (step y z)
    then show ?case using effect_within_limits recorder_step_effect by blast
  qed
  show "\<forall>s'. recorder_step A E s s' \<and> rd_frozen s \<longrightarrow>
     rd_frozen s' \<and> rd_omissions s' = rd_omissions s \<and>
     (\<forall>k\<in>set counted_kinds. rd_facts s' k = rd_facts s k)"
  proof (intro allI impI)
    fix s'
    assume a: "recorder_step A E s s' \<and> rd_frozen s"
    then have "effect E s s'" using recorder_step_effect by blast
    then show "rd_frozen s' \<and> rd_omissions s' = rd_omissions s \<and>
       (\<forall>k\<in>set counted_kinds. rd_facts s' k = rd_facts s k)"
      by cases (use a in \<open>auto simp: captured_def counted_kinds_def\<close>)
  qed
qed

text \<open>Every call on a recorder: those that record, those that close it, and a recording error kept.\<close>

inductive recorder_call :: "('m, 'j) assembler_env \<Rightarrow> ('m, 'j) recorder_env
    \<Rightarrow> ('m, 'j) recorder \<Rightarrow> ('m, 'j) recorder \<Rightarrow> bool" for A E where
  Recorded: "recorder_step A E s s' \<Longrightarrow> recorder_call A E s s'"
| Finalized: "finalize_recorder E status attributes attributes_ok ended s = Some s' \<Longrightarrow> recorder_call A E s s'"
| Closed: "recorder_call A E s (close_recorder E status attributes ended invalid owned attempt s)"
| Closed_Partially: "close_partial status valid s = Some s' \<Longrightarrow> recorder_call A E s s'"
| Failed: "recorder_call A E s (keep_recording_error error s)"

lemma closing_keeps_facts:
  "rd_facts (call_writer E c s) = rd_facts s" "rd_omissions (call_writer E c s) = rd_omissions s"
  "rd_facts (export_bundle x s) = rd_facts s" "rd_omissions (export_bundle x s) = rd_omissions s"
  by (simp_all add: call_writer_def export_bundle_def split: export_attempt.split)

lemma recorder_call_grown: "recorder_call A E s s' \<Longrightarrow> grown s s'"
proof (induction rule: recorder_call.induct)
  case (Recorded s s')
  then show ?case using recorder_step_effect effect_grown by blast
next
  case (Finalized status attributes attributes_ok ended s s')
  then show ?case by (auto simp: finalize_recorder_def closing_keeps_facts grown_def split: if_splits)
next
  case (Closed s status attributes ended invalid owned attempt)
  then show ?case
    by (simp add: close_recorder_def Let_def closing_keeps_facts grown_def split: option.split)
next
  case (Closed_Partially status valid s s')
  then show ?case by (auto simp: close_partial_def grown_def split: if_splits)
qed (simp add: keep_recording_error_def grown_def)

lemma calls_grown: "(recorder_call A E)\<^sup>*\<^sup>* s s' \<Longrightarrow> grown s s'"
proof (induction rule: rtranclp_induct)
  case (step y z)
  from recorder_call_grown [OF step(2)] step(3) show ?case
    unfolding grown_def by (blast intro: take_trans)
qed (simp add: grown_def)

text \<open>
  C13. A rejected batch leaves no trace: whatever calls a recorder served since the checkpoint was
  taken, those that record as well as those that finalize or close it, restoring the checkpoint gives
  back the recorder as it was: facts, privacy ledger, counters, freeze, status, whether it is closed,
  its bundle, its errors and the exporter's answer, and the journal positions; only the calls already
  made on its journal remain, which the journal's own checkpoint takes back.
\<close>

theorem rollback_undoes_a_batch:
  assumes "(recorder_call A E)\<^sup>*\<^sup>* s s'"
  shows "restore_recorder (recorder_rollback_checkpoint s) s' = s\<lparr>rd_calls := rd_calls s'\<rparr>"
proof -
  have g: "grown s s'" using assms by (rule calls_grown)
  have "(\<lambda>k. take (length (rd_facts s k)) (rd_facts s' k))(K_coverage := rd_facts s K_coverage) = rd_facts s"
    using g by (auto simp: grown_def)
  moreover have "take (length (rd_omissions s)) (rd_omissions s') = rd_omissions s"
    using g by (simp add: grown_def)
  ultimately show ?thesis by (simp add: restore_recorder_def recorder_rollback_checkpoint_def)
qed

theorem recorder_stays_within_limits_witness:
  "within_limits sample_limits sample_refused"
  using recorder_stays_within_limits [OF sample_run] by blast

theorem rollback_undoes_a_batch_witness:
  "rd_closed sample_finalized
   \<and> restore_recorder (recorder_rollback_checkpoint (new_recorder :: (string, string fact) recorder))
       sample_finalized = new_recorder\<lparr>rd_calls := rd_calls sample_finalized\<rparr>"
proof -
  have "(recorder_call sample_governance sample_limits)\<^sup>*\<^sup>* new_recorder sample_refused"
    using sample_run by (rule rtranclp_mono [THEN predicate2D, rotated]) (auto intro: recorder_call.Recorded)
  moreover have closed: "finalize_recorder sample_limits ''completed'' [] True (Model_Fact ''t'') sample_refused
      = Some sample_finalized" "rd_closed sample_finalized"
    by (simp_all add: sample_finalized_def finalize_recorder_def sample_refused_fields)
  ultimately have "(recorder_call sample_governance sample_limits)\<^sup>*\<^sup>* new_recorder sample_finalized"
    using recorder_call.Finalized by (metis rtranclp.rtrancl_into_rtrancl)
  from rollback_undoes_a_batch [OF this] closed(2) show ?thesis by simp
qed

end
