(* ===== verification/StructuralSize.thy ===== *)
theory StructuralSize
  imports Recorder
begin

text \<open>
  The recorder's capacity preflight (\<^verbatim>\<open>_structural_size_up_to\<close> and its users): how large a
  captured value is, found without walking more of it than the limit allows.

  A value is a scalar, a string (its code points), a byte string (its length), an object of an
  unknown type, or a reference to a container. Containers live in a heap, since the code tells
  them apart by \<^verbatim>\<open>id\<close> and a hostile one may contain itself. A contract model is the mapping of
  its fields.
\<close>

section \<open>Values and their size\<close>

datatype pyvalue = Scalar | Text "nat list" | Octets nat | Opaque | Ref nat

datatype container = Mapping_Of "(pyvalue \<times> pyvalue) list" | Sequence_Of "pyvalue list"

type_synonym object_heap = "nat \<Rightarrow> container"

definition MAX_PROFILE_DEPTH :: nat where "MAX_PROFILE_DEPTH = 64"
definition UTF8_SIZE_CHUNK :: nat where "UTF8_SIZE_CHUNK = 65536"

text \<open>The bytes of a character; a lone surrogate has three, as \<^verbatim>\<open>surrogatepass\<close> encodes it.\<close>

definition utf8_length :: "nat \<Rightarrow> nat" where
  "utf8_length c = (if c < 0x80 then 1 else if c < 0x800 then 2 else if c < 0x10000 then 3 else 4)"

definition utf8_size :: "nat list \<Rightarrow> nat" where
  "utf8_size cs = sum_list (map utf8_length cs)"

text \<open>The loop over chunks.\<close>

function utf8_loop :: "nat list \<Rightarrow> nat \<Rightarrow> nat \<Rightarrow> nat \<times> bool" where
  "utf8_loop value counted limit =
     (if value = [] then (counted, False)
      else let counted' = counted + utf8_size (take UTF8_SIZE_CHUNK value) in
        if counted' > limit then (limit + 1, True)
        else utf8_loop (drop UTF8_SIZE_CHUNK value) counted' limit)"
  by auto
termination
  by (relation "measure (\<lambda>(value, counted, limit). length value)") (auto simp: UTF8_SIZE_CHUNK_def)

declare utf8_loop.simps [simp del]

definition utf8_size_up_to :: "nat list \<Rightarrow> nat \<Rightarrow> nat \<times> bool" where
  "utf8_size_up_to value limit =
     (if value = [] then (0, False)
      else if length value > limit then (limit + 1, True)
      else if list_all (\<lambda>c. c < 128) value then (length value, False)
      else utf8_loop value 0 limit)"

text \<open>Keys and values of a mapping are visited in turn, against the same total.\<close>

fun children :: "container \<Rightarrow> pyvalue list" where
  "children (Mapping_Of items) = concat (map (\<lambda>(key, child). [key, child]) items)"
| "children (Sequence_Of items) = items"

datatype unsafe_value = Unsafe_Key_Or_Value

text \<open>
  The closure \<^verbatim>\<open>visit\<close>: the size, and whether it exceeds what remains. \<open>active\<close> are the
  containers being visited, \<open>Inl\<close> is the exception for a cycle.
\<close>

function (sequential) visit :: "object_heap \<Rightarrow> bool \<Rightarrow> nat list \<Rightarrow> pyvalue \<Rightarrow> nat \<Rightarrow> nat
    \<Rightarrow> unsafe_value + nat \<times> bool"
  and visit_all :: "object_heap \<Rightarrow> bool \<Rightarrow> nat list \<Rightarrow> pyvalue list \<Rightarrow> nat \<Rightarrow> nat \<Rightarrow> nat
    \<Rightarrow> unsafe_value + nat \<times> bool" where
  "visit h reject_cycles active candidate remaining depth =
     (if remaining < 1 \<or> depth > MAX_PROFILE_DEPTH then Inr (remaining + 1, True)
      else case candidate of
        Scalar \<Rightarrow> Inr (1, False)
      | Text value \<Rightarrow>
          (case utf8_size_up_to value (remaining - 1) of (content, exceeded) \<Rightarrow>
             Inr (if exceeded \<or> 1 + content > remaining then (remaining + 1, True)
                  else (1 + content, False)))
      | Octets n \<Rightarrow> Inr (if 1 + n > remaining then (remaining + 1, True) else (1 + n, False))
      | Opaque \<Rightarrow> Inr (1, False)
      | Ref i \<Rightarrow>
          if i \<in> set active
          then (if reject_cycles then Inl Unsafe_Key_Or_Value else Inr (remaining + 1, True))
          else visit_all h reject_cycles (i # active) (children (h i)) 1 remaining depth)"
| "visit_all h reject_cycles active [] counted remaining depth = Inr (counted, False)"
| "visit_all h reject_cycles active (child # rest) counted remaining depth =
     (case visit h reject_cycles active child (remaining - counted) (depth + 1) of
        Inl e \<Rightarrow> Inl e
      | Inr (child_size, exceeded) \<Rightarrow>
          if exceeded then Inr (remaining + 1, True)
          else visit_all h reject_cycles active rest (counted + child_size) remaining depth)"
  by pat_completeness auto
termination
proof (relation "measures
    [\<lambda>x. case x of
       Inl (h, rc, active, v, remaining, depth) \<Rightarrow>
         (if depth > MAX_PROFILE_DEPTH then 0 else 2 * (MAX_PROFILE_DEPTH + 2 - depth) + 1)
     | Inr (h, rc, active, cs, counted, remaining, depth) \<Rightarrow>
         (if depth > MAX_PROFILE_DEPTH then 1 else 2 * (MAX_PROFILE_DEPTH + 2 - depth)),
     \<lambda>x. case x of Inl _ \<Rightarrow> 0 | Inr (h, rc, active, cs, counted, remaining, depth) \<Rightarrow> length cs]", goal_cases)
qed (auto)

declare visit.simps [simp del]

text \<open>One equation per kind of value.\<close>

lemma visit_at [simp]:
  "visit h rc active Scalar remaining depth =
     Inr (if remaining < 1 \<or> depth > MAX_PROFILE_DEPTH then (remaining + 1, True) else (1, False))"
  "visit h rc active Opaque remaining depth =
     Inr (if remaining < 1 \<or> depth > MAX_PROFILE_DEPTH then (remaining + 1, True) else (1, False))"
  "visit h rc active (Text cs) remaining depth =
     (if remaining < 1 \<or> depth > MAX_PROFILE_DEPTH then Inr (remaining + 1, True)
      else case utf8_size_up_to cs (remaining - 1) of (content, exceeded) \<Rightarrow>
        Inr (if exceeded \<or> 1 + content > remaining then (remaining + 1, True) else (1 + content, False)))"
  "visit h rc active (Octets n) remaining depth =
     (if remaining < 1 \<or> depth > MAX_PROFILE_DEPTH then Inr (remaining + 1, True)
      else Inr (if 1 + n > remaining then (remaining + 1, True) else (1 + n, False)))"
  "visit h rc active (Ref i) remaining depth =
     (if remaining < 1 \<or> depth > MAX_PROFILE_DEPTH then Inr (remaining + 1, True)
      else if i \<in> set active
      then (if rc then Inl Unsafe_Key_Or_Value else Inr (remaining + 1, True))
      else visit_all h rc (i # active) (children (h i)) 1 remaining depth)"
  by (simp_all add: visit.simps)

definition structural_size_up_to :: "object_heap \<Rightarrow> pyvalue \<Rightarrow> nat \<Rightarrow> bool \<Rightarrow> unsafe_value + nat \<times> bool" where
  "structural_size_up_to h candidate limit reject_cycles = visit h reject_cycles [] candidate limit 0"

section \<open>The size it stands for\<close>

text \<open>The size of the value unfolded to a tree of at most \<open>k\<close> levels; \<open>None\<close> when it is deeper.\<close>

fun full_size :: "object_heap \<Rightarrow> nat \<Rightarrow> pyvalue \<Rightarrow> nat option" where
  "full_size h 0 v = None"
| "full_size h (Suc k) Scalar = Some 1"
| "full_size h (Suc k) (Text value) = Some (1 + utf8_size value)"
| "full_size h (Suc k) (Octets n) = Some (1 + n)"
| "full_size h (Suc k) Opaque = Some 1"
| "full_size h (Suc k) (Ref i) =
     map_option (\<lambda>sizes. 1 + sum_list sizes) (those (map (full_size h k) (children (h i))))"

definition clipped :: "nat \<Rightarrow> nat option \<Rightarrow> nat \<times> bool" where
  "clipped limit counted = (case counted of
       Some n \<Rightarrow> if n \<le> limit then (n, False) else (limit + 1, True)
     | None \<Rightarrow> (limit + 1, True))"

lemma utf8_size_ge: "length cs \<le> utf8_size cs"
  by (induction cs) (auto simp: utf8_size_def utf8_length_def)

lemma utf8_size_append [simp]: "utf8_size (as @ bs) = utf8_size as + utf8_size bs"
  by (simp add: utf8_size_def)

lemma utf8_loop_exact:
  "counted \<le> limit \<Longrightarrow> utf8_loop cs counted limit = clipped limit (Some (counted + utf8_size cs))"
proof (induction cs counted limit rule: utf8_loop.induct)
  case (1 cs counted limit)
  have "utf8_size cs = utf8_size (take UTF8_SIZE_CHUNK cs) + utf8_size (drop UTF8_SIZE_CHUNK cs)"
    by (metis append_take_drop_id utf8_size_append)
  with 1 show ?case
    by (subst utf8_loop.simps) (auto simp: Let_def clipped_def utf8_size_def)
qed

lemma utf8_size_ascii: "list_all (\<lambda>c. c < 128) cs \<Longrightarrow> utf8_size cs = length cs"
  by (induction cs) (simp_all add: utf8_size_def utf8_length_def)

lemma utf8_size_up_to_exact: "utf8_size_up_to cs limit = clipped limit (Some (utf8_size cs))"
  using utf8_size_ge [of cs]
  by (auto simp: utf8_size_up_to_def clipped_def utf8_size_ascii utf8_loop_exact)

section \<open>The bounded walk is exact\<close>

lemma those_cong: "those (map f xs) = Some ys \<Longrightarrow> (\<And>x y. x \<in> set xs \<Longrightarrow> f x = Some y \<Longrightarrow> g x = Some y) \<Longrightarrow>
  those (map g xs) = Some ys"
proof (induction xs arbitrary: ys)
  case (Cons x xs)
  from Cons.prems(1) obtain y zs where "f x = Some y" "those (map f xs) = Some zs" "ys = y # zs"
    by (auto split: option.splits)
  with Cons.IH [of zs] Cons.prems(2) show ?case by simp
qed simp

lemma those_member: "those (map f xs) = Some ys \<Longrightarrow> x \<in> set xs \<Longrightarrow> \<exists>y. f x = Some y \<and> y \<le> sum_list ys"
  for ys :: "nat list"
proof (induction xs arbitrary: ys)
  case (Cons z xs)
  from Cons.prems(1) obtain y zs where "f z = Some y" "those (map f xs) = Some zs" "ys = y # zs"
    by (auto split: option.splits)
  with Cons.IH [of zs] Cons.prems(2) show ?case by fastforce
qed simp

lemma full_size_Suc: "full_size h k v = Some n \<Longrightarrow> full_size h (Suc k) v = Some n"
proof (induction k arbitrary: v n)
  case (Suc k)
  show ?case
  proof (cases v)
    case (Ref i)
    with Suc.prems obtain ns where "those (map (full_size h k) (children (h i))) = Some ns" "n = 1 + sum_list ns"
      by auto
    from those_cong [OF this(1), of "full_size h (Suc k)"] Suc.IH this(2) Ref show ?thesis
      by (simp del: full_size.simps add: full_size.simps(6))
  qed (use Suc.prems in simp_all)
qed simp

lemma full_size_mono: "full_size h k v = Some n \<Longrightarrow> k \<le> k' \<Longrightarrow> full_size h k' v = Some n"
  by (induction k') (auto simp: le_Suc_eq intro: full_size_Suc)

lemma full_size_unique: "full_size h k v = Some n \<Longrightarrow> full_size h k' v = Some n' \<Longrightarrow> n = n'"
  by (metis full_size_mono nat_le_linear option.inject)

lemma full_size_child:
  assumes "full_size h k (Ref i) = Some n" "c \<in> set (children (h i))"
  shows "\<exists>k' n'. full_size h k' c = Some n' \<and> n' < n"
proof -
  from assms(1) obtain j ns where "those (map (full_size h j) (children (h i))) = Some ns" "n = 1 + sum_list ns"
    by (cases k) auto
  with those_member [OF this(1) assms(2)] show ?thesis by fastforce
qed

lemma visit_sound:
  "visit h rc active v remaining depth = Inr (n, False) \<Longrightarrow>
     full_size h (MAX_PROFILE_DEPTH + 1 - depth) v = Some n \<and> n \<le> remaining"
  "visit_all h rc active cs counted remaining depth = Inr (n, False) \<Longrightarrow> counted \<le> remaining \<Longrightarrow>
     \<exists>ns. those (map (full_size h (MAX_PROFILE_DEPTH - depth)) cs) = Some ns \<and>
       n = counted + sum_list ns \<and> n \<le> remaining"
proof (induction h rc active v remaining depth and h rc active cs counted remaining depth
    arbitrary: n and n rule: visit_visit_all.induct)
  case (1 h rc active v remaining depth)
  from "1.prems" have "1 \<le> remaining \<and> depth \<le> MAX_PROFILE_DEPTH"
    by (cases v; auto split: if_splits prod.splits)
  then have g: "1 \<le> remaining" "depth \<le> MAX_PROFILE_DEPTH" by simp_all
  then have k: "MAX_PROFILE_DEPTH + 1 - depth = Suc (MAX_PROFILE_DEPTH - depth)" by simp
  have "full_size h (Suc (MAX_PROFILE_DEPTH - depth)) v = Some n \<and> n \<le> remaining"
  proof (cases v)
    case (Ref i)
    with "1.prems" g have "visit_all h rc (i # active) (children (h i)) 1 remaining depth = Inr (n, False)"
      "i \<notin> set active" by (auto split: if_splits)
    with "1.IH" [of i] g Ref show ?thesis by auto
  qed (use "1.prems" g in \<open>auto simp: utf8_size_up_to_exact clipped_def
        split: if_splits\<close>)
  then show ?case unfolding k .
next
  case (3 h rc active child rest counted remaining depth)
  from "3.prems"(1) obtain m where m: "visit h rc active child (remaining - counted) (depth + 1) = Inr (m, False)"
      "visit_all h rc active rest (counted + m) remaining depth = Inr (n, False)"
    by (auto split: sum.splits prod.splits if_splits)
  from "3.IH"(1) [OF m(1)] have c: "full_size h (MAX_PROFILE_DEPTH - depth) child = Some m"
      "counted + m \<le> remaining" using "3.prems"(2) by auto
  from "3.IH"(2) [OF m(1) refl _ m(2) c(2)] obtain ms where
    "those (map (full_size h (MAX_PROFILE_DEPTH - depth)) rest) = Some ms"
    "n = counted + m + sum_list ms" "n \<le> remaining" by auto
  with c(1) show ?case by (intro exI [of _ "m # ms"]) simp
qed auto

text \<open>Every active container, were it finite, would be strictly larger than what is visited in it.\<close>

definition inside :: "object_heap \<Rightarrow> nat list \<Rightarrow> pyvalue \<Rightarrow> bool" where
  "inside h active v = (\<forall>a\<in>set active. \<forall>k m. full_size h k (Ref a) = Some m \<longrightarrow>
     (\<exists>k' n'. full_size h k' v = Some n' \<and> n' < m))"

lemma inside_fresh: "inside h active (Ref i) \<Longrightarrow> full_size h k (Ref i) = Some n \<Longrightarrow> i \<notin> set active"
  unfolding inside_def by (metis full_size_unique less_irrefl)

lemma inside_child: "inside h active (Ref i) \<Longrightarrow> c \<in> set (children (h i)) \<Longrightarrow> inside h (i # active) c"
  unfolding inside_def by (auto, metis full_size_child, metis full_size_child order_less_trans)

lemma visit_complete:
  "full_size h (MAX_PROFILE_DEPTH + 1 - depth) v = Some n \<Longrightarrow> n \<le> remaining \<Longrightarrow> inside h active v \<Longrightarrow>
     visit h rc active v remaining depth = Inr (n, False)"
  "those (map (full_size h (MAX_PROFILE_DEPTH - depth)) cs) = Some ns \<Longrightarrow> counted + sum_list ns \<le> remaining \<Longrightarrow>
     list_all (inside h active) cs \<Longrightarrow>
     visit_all h rc active cs counted remaining depth = Inr (counted + sum_list ns, False)"
proof (induction h rc active v remaining depth and h rc active cs counted remaining depth
    arbitrary: n and ns rule: visit_visit_all.induct)
  case (1 h rc active v remaining depth)
  from "1.prems"(1) have d: "depth \<le> MAX_PROFILE_DEPTH" by (cases "depth \<le> MAX_PROFILE_DEPTH") auto
  then have k: "MAX_PROFILE_DEPTH + 1 - depth = Suc (MAX_PROFILE_DEPTH - depth)" by simp
  have p: "full_size h (Suc (MAX_PROFILE_DEPTH - depth)) v = Some n"
    using "1.prems"(1) unfolding k .
  then have "0 < n" by (cases v) auto
  with "1.prems"(2) have g: "\<not> (remaining < 1 \<or> depth > MAX_PROFILE_DEPTH)" using d by simp
  show ?case
  proof (cases v)
    case (Ref i)
    with "1.prems"(1) obtain ns where ns: "those (map (full_size h (MAX_PROFILE_DEPTH - depth)) (children (h i))) = Some ns"
      "n = 1 + sum_list ns" unfolding k by auto
    have new: "i \<notin> set active" using inside_fresh "1.prems"(1,3) Ref by metis
    have "list_all (inside h (i # active)) (children (h i))"
      using inside_child "1.prems"(3) Ref by (auto simp: list_all_iff)
    with "1.IH" [OF g Ref new ns(1)] "1.prems"(2) ns(2) g new Ref show ?thesis
      by simp
  qed (use p "1.prems"(2) g in \<open>auto simp: utf8_size_up_to_exact clipped_def\<close>)
next
  case (3 h rc active child rest counted remaining depth)
  from "3.prems"(1) obtain m ms where m: "full_size h (MAX_PROFILE_DEPTH - depth) child = Some m"
      "those (map (full_size h (MAX_PROFILE_DEPTH - depth)) rest) = Some ms" "ns = m # ms"
    by (auto split: option.splits)
  have v: "visit h rc active child (remaining - counted) (depth + 1) = Inr (m, False)"
    by (rule "3.IH"(1)) (use m "3.prems" in auto)
  have "visit_all h rc active rest (counted + m) remaining depth = Inr (counted + m + sum_list ms, False)"
    by (rule "3.IH"(2) [OF v refl]) (use m "3.prems" in auto)
  with v m(3) show ?case by simp
qed simp

lemma visit_exceeded:
  "visit h rc active v remaining depth = Inr (n, True) \<Longrightarrow> n = remaining + 1"
  "visit_all h rc active cs counted remaining depth = Inr (n, True) \<Longrightarrow> n = remaining + 1"
proof (induction h rc active v remaining depth and h rc active cs counted remaining depth
    arbitrary: n and n rule: visit_visit_all.induct)
  case (1 h rc active v remaining depth)
  then show ?case
    by (cases v) (auto split: if_splits prod.splits)
next
  case (3 h rc active child rest counted remaining depth)
  then show ?case by (auto split: sum.splits prod.splits if_splits)
qed simp

lemma visit_rejects:
  "visit h rc active v remaining depth = Inl e \<Longrightarrow> rc \<and> (inside h active v \<longrightarrow> full_size h k v = None)"
  "visit_all h rc active cs counted remaining depth = Inl e \<Longrightarrow>
     rc \<and> (list_all (inside h active) cs \<longrightarrow> (\<exists>c\<in>set cs. full_size h k c = None))"
proof (induction h rc active v remaining depth and h rc active cs counted remaining depth
    arbitrary: k and k rule: visit_visit_all.induct)
  case (1 h rc active v remaining depth)
  then obtain i where i: "v = Ref i" by (cases v) (auto split: if_splits prod.splits)
  from "1.prems" i have g: "\<not> (remaining < 1 \<or> depth > MAX_PROFILE_DEPTH)" by (auto split: if_splits)
  show ?case
  proof (cases "i \<in> set active")
    case True
    with "1.prems" i g have rc by (auto split: if_splits)
    moreover have "full_size h k (Ref i) = None" if "inside h active (Ref i)"
      using inside_fresh [OF that] True by (cases "full_size h k (Ref i)") auto
    ultimately show ?thesis by (simp add: i)
  next
    case False
    with "1.prems" i g have v: "visit_all h rc (i # active) (children (h i)) 1 remaining depth = Inl e" by simp
    have "full_size h k (Ref i) = None" if "inside h active (Ref i)"
    proof (cases k)
      case (Suc j)
      have "list_all (inside h (i # active)) (children (h i))"
        using inside_child [OF that] by (auto simp: list_all_iff)
      with "1.IH" [OF g i False v, of j] obtain c where "c \<in> set (children (h i))" "full_size h j c = None"
        by blast
      then show ?thesis using those_member [of "full_size h j" "children (h i)" _ c]
        by (cases "those (map (full_size h j) (children (h i)))") (auto simp: Suc)
    qed simp
    with "1.IH" [OF g i False v] show ?thesis by (simp add: i)
  qed
next
  case (3 h rc active child rest counted remaining depth)
  show ?case
  proof (cases "visit h rc active child (remaining - counted) (depth + 1)")
    case (Inl x)
    with "3.prems" "3.IH"(1) show ?thesis by auto
  next
    case (Inr r)
    then obtain m where m: "visit h rc active child (remaining - counted) (depth + 1) = Inr (m, False)"
        "visit_all h rc active rest (counted + m) remaining depth = Inl e"
      using "3.prems" by (cases r) (auto split: if_splits)
    with "3.IH"(2) [OF m(1) refl _ m(2)] show ?thesis by auto
  qed
qed simp

section \<open>Users of the walk\<close>

text \<open>
  \<^verbatim>\<open>_bounded_attributes\<close>: the attributes kept, or the exception; \<open>classify\<close> is
  \<^verbatim>\<open>classify_attribute\<close> of a key, metadata for a key that is not a string.
\<close>

datatype attribute_error = Attribute_Unsafe | Attribute_Closed

fun bounded_loop :: "object_heap \<Rightarrow> ('m, 'j) recorder_env \<Rightarrow> ('k \<Rightarrow> capture_class) \<Rightarrow> record_kind
    \<Rightarrow> ('k \<times> pyvalue) list \<Rightarrow> nat \<Rightarrow> ('k \<times> pyvalue) list \<Rightarrow> ('m, 'j) recorder
    \<Rightarrow> attribute_error + ('k \<times> pyvalue) list \<times> ('m, 'j) recorder" where
  "bounded_loop h E classify kind [] aggregate bounded s = Inr (bounded, s)"
| "bounded_loop h E classify kind ((key, v) # rest) aggregate bounded s =
     (case structural_size_up_to h v (re_max_value_bytes E) True of
        Inl Unsafe_Key_Or_Value \<Rightarrow> Inl Attribute_Unsafe
      | Inr (estimate, exceeded) \<Rightarrow>
          if exceeded \<or> aggregate + estimate > re_max_value_bytes E
          then if rd_closed s then Inl Attribute_Closed
               else let s' = note_omission E ''max_value_bytes'' kind (classify key) (int estimate) False False s
                 in if aggregate + estimate > re_max_value_bytes E then Inr (bounded, s')
                    else bounded_loop h E classify kind rest aggregate bounded s'
          else bounded_loop h E classify kind rest (aggregate + estimate) (bounded @ [(key, v)]) s)"

definition bounded_attributes :: "object_heap \<Rightarrow> ('m, 'j) recorder_env \<Rightarrow> ('k \<Rightarrow> capture_class)
    \<Rightarrow> record_kind \<Rightarrow> ('k \<times> pyvalue) list \<Rightarrow> ('m, 'j) recorder
    \<Rightarrow> attribute_error + ('k \<times> pyvalue) list \<times> ('m, 'j) recorder" where
  "bounded_attributes h E classify kind attributes s = bounded_loop h E classify kind attributes 0 [] s"

text \<open>
  \<^verbatim>\<open>_assert_profile_record_depth\<close> walks the dumped record, a tree, with an explicit stack;
  \<open>True\<close> when no value lies deeper than the maximum.
\<close>

datatype dumped = Leaf_Value | Node_Value "dumped list"

fun dumped_size :: "dumped \<Rightarrow> nat" where
  "dumped_size Leaf_Value = 1"
| "dumped_size (Node_Value vs) = 1 + sum_list (map dumped_size vs)"

fun child_values :: "dumped \<Rightarrow> dumped list" where
  "child_values Leaf_Value = []"
| "child_values (Node_Value vs) = vs"

lemma child_values_size: "sum_list (map dumped_size (child_values v)) < dumped_size v"
  by (cases v) simp_all

text \<open>The stack's top is its head here, so children are pushed in reverse.\<close>

function depth_walk :: "(dumped \<times> nat) list \<Rightarrow> bool" where
  "depth_walk [] = True"
| "depth_walk ((current, depth) # stack) =
     (if depth > MAX_PROFILE_DEPTH then False
      else depth_walk (rev (map (\<lambda>child. (child, depth + 1)) (child_values current)) @ stack))"
  by pat_completeness auto
termination
proof (relation "measure (\<lambda>stack. sum_list (map (dumped_size \<circ> fst) stack))", goal_cases)
  case (2 current depth stack)
  show ?case using child_values_size [of current] by (simp add: comp_def sum_list_rev flip: rev_map)
qed simp

definition profile_depth_ok :: "dumped \<Rightarrow> nat \<Rightarrow> bool" where
  "profile_depth_ok v root_depth = depth_walk [(v, root_depth)]"

fun nesting :: "dumped \<Rightarrow> nat" where
  "nesting Leaf_Value = 0"
| "nesting (Node_Value vs) = fold max (map (\<lambda>v. 1 + nesting v) vs) 0"

lemma fold_max_le: "(fold max ns a \<le> b) = (a \<le> b \<and> list_all (\<lambda>n. n \<le> b) ns)" for b :: nat
  by (induction ns arbitrary: a) auto

lemma depth_walk_exact:
  "depth_walk stack = list_all (\<lambda>(v, d). d + nesting v \<le> MAX_PROFILE_DEPTH) stack"
proof (induction stack rule: depth_walk.induct)
  case (2 current depth stack)
  have e: "(depth + nesting current \<le> MAX_PROFILE_DEPTH) = (depth \<le> MAX_PROFILE_DEPTH \<and>
      list_all (\<lambda>v. depth + 1 + nesting v \<le> MAX_PROFILE_DEPTH) (child_values current))"
  proof (cases "depth \<le> MAX_PROFILE_DEPTH")
    case True
    then have split: "(depth + n \<le> MAX_PROFILE_DEPTH) = (n \<le> MAX_PROFILE_DEPTH - depth)" for n by auto
    show ?thesis using True
      by (cases current) (simp_all add: split fold_max_le list_all_iff add.assoc del: add_Suc_right)
  qed simp
  show ?case
  proof (cases "depth \<le> MAX_PROFILE_DEPTH")
    case True
    with 2 show ?thesis by (simp add: e list.pred_map comp_def)
  qed (simp add: e)
qed simp

text \<open>The total size of the attributes kept.\<close>

definition kept_size :: "object_heap \<Rightarrow> ('k \<times> pyvalue) list \<Rightarrow> nat option" where
  "kept_size h kept = map_option sum_list (those (map (full_size h (MAX_PROFILE_DEPTH + 1) \<circ> snd) kept))"

lemma those_snoc: "those (xs @ [x]) = (case (those xs, x) of (Some ys, Some y) \<Rightarrow> Some (ys @ [y]) | _ \<Rightarrow> None)"
  by (induction xs) (auto split: option.splits)

lemma kept_size_snoc: "kept_size h kept = Some n \<Longrightarrow> full_size h (MAX_PROFILE_DEPTH + 1) v = Some m \<Longrightarrow>
  kept_size h (kept @ [(k, v)]) = Some (n + m)"
  by (auto simp: kept_size_def those_snoc)

lemma size_known:
  assumes "structural_size_up_to h v limit rc = Inr (estimate, exceeded)"
  shows "if exceeded then estimate = limit + 1
    else full_size h (MAX_PROFILE_DEPTH + 1) v = Some estimate \<and> estimate \<le> limit"
proof (cases exceeded)
  case True
  with assms visit_exceeded(1) [of h rc "[]" v limit 0 estimate] show ?thesis
    by (simp add: structural_size_up_to_def)
next
  case False
  with assms visit_sound(1) [of h rc "[]" v limit 0 estimate] show ?thesis
    by (simp add: structural_size_up_to_def)
qed

lemma bounded_loop_prefix:
  "bounded_loop h E classify kind attrs aggregate bounded s = Inr (kept, s') \<Longrightarrow>
   kept_size h bounded = Some aggregate \<Longrightarrow> aggregate \<le> re_max_value_bytes E \<Longrightarrow>
   \<exists>n m. kept = bounded @ take n attrs \<and> kept_size h kept = Some m \<and> m \<le> re_max_value_bytes E \<and>
     (n = length attrs \<and> s' = s \<or> n < length attrs \<and> \<not> rd_closed s \<and>
      (\<exists>estimate. s' = note_omission E ''max_value_bytes'' kind (classify (fst (attrs ! n))) estimate False False s))"
proof (induction h E classify kind attrs aggregate bounded s rule: bounded_loop.induct)
  case (2 h E classify kind key v rest aggregate bounded s)
  from "2.prems"(1) obtain estimate exceeded where
    size: "structural_size_up_to h v (re_max_value_bytes E) True = Inr (estimate, exceeded)"
    by (cases "structural_size_up_to h v (re_max_value_bytes E) True") (auto split: unsafe_value.splits)
  note k = size_known [OF size]
  show ?case
  proof (cases "exceeded \<or> aggregate + estimate > re_max_value_bytes E")
    case True
    with k have over: "aggregate + estimate > re_max_value_bytes E" by (auto split: if_splits)
    with "2.prems"(1) size have "kept = bounded" "\<not> rd_closed s"
      "s' = note_omission E ''max_value_bytes'' kind (classify key) (int estimate) False False s"
      by (auto simp: Let_def split: if_splits)
    with "2.prems" show ?thesis by (intro exI [of _ 0] exI [of _ aggregate]) auto
  next
    case False
    with k have "kept_size h (bounded @ [(key, v)]) = Some (aggregate + estimate)"
      using kept_size_snoc "2.prems"(2) by auto
    with "2.IH"(2) [OF size refl False] "2.prems"(1) size False obtain n m where
      "kept = (bounded @ [(key, v)]) @ take n rest" "kept_size h kept = Some m" "m \<le> re_max_value_bytes E"
      "n = length rest \<and> s' = s \<or> n < length rest \<and> \<not> rd_closed s \<and>
       (\<exists>estimate. s' = note_omission E ''max_value_bytes'' kind (classify (fst (rest ! n))) estimate False False s)"
      by auto
    then show ?thesis by (intro exI [of _ "Suc n"] exI [of _ m]) auto
  qed
qed auto

section \<open>Properties\<close>

text \<open>
  C14. The bounded walk of a captured value computes exactly its structural size, clipped at the
  limit: the size of the value unfolded to a tree when that is at most the limit and at most
  \<^verbatim>\<open>MAX_PROFILE_DEPTH\<close> deep, and otherwise one more than the limit, also for a value that
  contains itself. Asked to reject cycles it gives the same answer or raises, and raises only for a
  value that has no finite size.
\<close>

theorem structural_size_exact:
  "structural_size_up_to h v limit False = Inr (clipped limit (full_size h (MAX_PROFILE_DEPTH + 1) v)) \<and>
   (structural_size_up_to h v limit True = Inr (clipped limit (full_size h (MAX_PROFILE_DEPTH + 1) v)) \<or>
    structural_size_up_to h v limit True = Inl Unsafe_Key_Or_Value \<and> (\<forall>k. full_size h k v = None))"
proof -
  have inside: "inside h [] v" by (simp add: inside_def)
  have exact: "visit h rc [] v limit 0 = Inr r \<Longrightarrow> r = clipped limit (full_size h (MAX_PROFILE_DEPTH + 1) v)"
    for rc r
  proof -
    assume r: "visit h rc [] v limit 0 = Inr r"
    obtain n x where nx: "r = (n, x)" by fastforce
    show ?thesis
    proof (cases x)
      case True
      with r nx visit_exceeded(1) [of h rc "[]" v limit 0 n] have n: "n = limit + 1" by simp
      have "\<not> (full_size h (MAX_PROFILE_DEPTH + 1) v = Some m \<and> m \<le> limit)" for m
        using visit_complete(1) [of h 0 v m limit "[]" rc] inside r nx True by auto
      with n nx True show ?thesis by (auto simp: clipped_def split: option.split)
    next
      case False
      with r nx visit_sound(1) [of h rc "[]" v limit 0 n] show ?thesis by (simp add: clipped_def)
    qed
  qed
  show ?thesis
  proof (intro conjI)
    show "structural_size_up_to h v limit False = Inr (clipped limit (full_size h (MAX_PROFILE_DEPTH + 1) v))"
      using exact [of False] visit_rejects(1) [of h False "[]" v limit 0]
      by (cases "visit h False [] v limit 0") (auto simp: structural_size_up_to_def)
    show "structural_size_up_to h v limit True = Inr (clipped limit (full_size h (MAX_PROFILE_DEPTH + 1) v)) \<or>
      structural_size_up_to h v limit True = Inl Unsafe_Key_Or_Value \<and> (\<forall>k. full_size h k v = None)"
    proof (cases "visit h True [] v limit 0")
      case (Inl e)
      then have "full_size h k v = None" for k using visit_rejects(1) inside by blast
      moreover have "e = Unsafe_Key_Or_Value" by (cases e) simp
      ultimately show ?thesis using Inl by (simp add: structural_size_up_to_def)
    next
      case (Inr r)
      with exact [of True] show ?thesis by (simp add: structural_size_up_to_def)
    qed
  qed
qed

text \<open>
  Bounding the attributes of a record keeps a prefix of them, never one past the first that does
  not fit: their sizes together stay within \<^verbatim>\<open>max_value_bytes\<close>, and either all are kept and the
  recorder is unchanged, or one omission is noted, for the first attribute dropped.
\<close>

theorem bounded_attributes_prefix:
  assumes "bounded_attributes h E classify kind attrs s = Inr (kept, s')"
  shows "\<exists>n m. kept = take n attrs \<and> kept_size h kept = Some m \<and> m \<le> re_max_value_bytes E \<and>
     (n = length attrs \<and> s' = s \<or> n < length attrs \<and> \<not> rd_closed s \<and>
      (\<exists>estimate. s' = note_omission E ''max_value_bytes'' kind (classify (fst (attrs ! n))) estimate False False s))"
  using bounded_loop_prefix [OF assms [unfolded bounded_attributes_def]] by (simp add: kept_size_def)

text \<open>A recorder with room for ten bytes of values: the list of two strings does not fit.\<close>

definition sample_values :: object_heap where
  "sample_values i = Sequence_Of [Text [104, 105], Text [233, 233, 233]]"

definition sample_value_limits :: "(nat, nat) recorder_env" where
  "sample_value_limits = \<lparr>re_max_records = 9, re_max_capture_bytes = 100, re_max_raw_otlp_bytes = 10,
     re_max_value_bytes = 10, re_enabled = False, re_clock_domain_id = ''main'', re_id = (\<lambda>m. ''m''),
     re_dump = (\<lambda>f. 0), re_with_payload = (\<lambda>v p. 0), re_coverage_size = (\<lambda>c. 1)\<rparr>"

lemma sample_attributes:
  "bounded_attributes sample_values sample_value_limits (\<lambda>k. IDENTITY) K_event
     [(''a'', Scalar), (''b'', Ref 0), (''c'', Scalar)] new_recorder
   = Inr ([(''a'', Scalar)], note_omission sample_value_limits ''max_value_bytes'' K_event IDENTITY 11
       False False new_recorder)"
  by (simp add: bounded_attributes_def structural_size_up_to_def sample_values_def sample_value_limits_def
      MAX_PROFILE_DEPTH_def utf8_size_up_to_def utf8_loop.simps utf8_size_def utf8_length_def
      UTF8_SIZE_CHUNK_def new_recorder_def Let_def)

theorem bounded_attributes_prefix_witness:
  "\<exists>n m. [(''a'', Scalar)] = take n [(''a'', Scalar), (''b'', Ref 0), (''c'', Scalar)] \<and>
     kept_size sample_values [(''a'', Scalar)] = Some m \<and> m \<le> re_max_value_bytes sample_value_limits \<and>
     (n = length [(''a'', Scalar), (''b'', Ref 0), (''c'', Scalar)] \<and>
      note_omission sample_value_limits ''max_value_bytes'' K_event IDENTITY 11 False False new_recorder = new_recorder
      \<or> n < length [(''a'', Scalar), (''b'', Ref 0), (''c'', Scalar)] \<and> \<not> rd_closed (new_recorder :: (nat, nat) recorder) \<and>
      (\<exists>estimate. note_omission sample_value_limits ''max_value_bytes'' K_event IDENTITY 11 False False new_recorder
        = note_omission sample_value_limits ''max_value_bytes'' K_event
            ((\<lambda>k. IDENTITY) (fst ([(''a'', Scalar), (''b'', Ref 0), (''c'', Scalar)] ! n))) estimate False False new_recorder))"
  by (rule bounded_attributes_prefix [OF sample_attributes])

end
