(* ===== verification/PrivacyLabels.thy ===== *)
theory PrivacyLabels
  imports Prelude "HOL-Library.Sublist"
begin

text \<open>
  The labels of \<^verbatim>\<open>privacy.py\<close>: which names may leave the process as they are, and what the
  others are replaced by. Text is a list of Unicode code points; \<open>lit\<close> makes one from a literal.
  \<open>sha256_hex\<close> is \<^verbatim>\<open>hashlib.sha256(value.encode(...)).hexdigest()\<close>.
\<close>

section \<open>Text\<close>

type_synonym ustring = "nat list"

definition lit :: "string \<Rightarrow> ustring" where "lit = map of_char"

definition starts_with :: "ustring \<Rightarrow> ustring \<Rightarrow> bool" where
  "starts_with p t = (take (length p) t = p)"

definition ends_with :: "ustring \<Rightarrow> ustring \<Rightarrow> bool" where
  "ends_with p t = (length p \<le> length t \<and> drop (length t - length p) t = p)"

text \<open>\<^verbatim>\<open>needle in hay\<close>.\<close>

fun contains :: "ustring \<Rightarrow> ustring \<Rightarrow> bool" where
  "contains needle [] = (needle = [])"
| "contains needle (c # cs) = (starts_with needle (c # cs) \<or> contains needle cs)"

definition digit :: "nat \<Rightarrow> bool" where "digit c = (48 \<le> c \<and> c \<le> 57)"
definition lower_letter :: "nat \<Rightarrow> bool" where "lower_letter c = (97 \<le> c \<and> c \<le> 122)"
definition upper_letter :: "nat \<Rightarrow> bool" where "upper_letter c = (65 \<le> c \<and> c \<le> 90)"
definition hex_digit :: "nat \<Rightarrow> bool" where "hex_digit c = (digit c \<or> 97 \<le> c \<and> c \<le> 102)"

text \<open>\<^verbatim>\<open>[a-z0-9_.-]\<close> and \<^verbatim>\<open>[a-z0-9.-]\<close>.\<close>

definition label_char :: "nat \<Rightarrow> bool" where
  "label_char c = (lower_letter c \<or> digit c \<or> c = 95 \<or> c = 46 \<or> c = 45)"
definition suffix_char :: "nat \<Rightarrow> bool" where
  "suffix_char c = (lower_letter c \<or> digit c \<or> c = 46 \<or> c = 45)"

section \<open>The patterns\<close>

fun semantic_pattern :: "ustring \<Rightarrow> bool" where
  "semantic_pattern [] = False"
| "semantic_pattern (c # cs) = (lower_letter c \<and> length cs \<le> 127 \<and> list_all label_char cs)"

definition hex64 :: "ustring \<Rightarrow> bool" where
  "hex64 t = (length t = 64 \<and> list_all hex_digit t)"

definition SHA256_PREFIX :: ustring where "SHA256_PREFIX = lit ''sha256:''"

definition sha256_pattern :: "ustring \<Rightarrow> bool" where
  "sha256_pattern t = (starts_with SHA256_PREFIX t \<and> hex64 (drop 7 t))"

text \<open>\<^verbatim>\<open>(?:\.[0-9]+)*(?:[-+][a-z0-9.-]+)?\<close> after a number: at each point the next character decides.\<close>

function version_tail :: "ustring \<Rightarrow> bool" where
  "version_tail [] = True"
| "version_tail (c # cs) =
     (if c = 46 then takeWhile digit cs \<noteq> [] \<and> version_tail (dropWhile digit cs)
      else (c = 45 \<or> c = 43) \<and> cs \<noteq> [] \<and> list_all suffix_char cs)"
  by pat_completeness auto
termination
  by (relation "measure length") (auto intro: le_imp_less_Suc length_dropWhile_le)

definition number_version :: "ustring \<Rightarrow> bool" where
  "number_version t = (takeWhile digit t \<noteq> [] \<and> version_tail (dropWhile digit t))"

definition version_pattern :: "ustring \<Rightarrow> bool" where
  "version_pattern t = (semantic_pattern t \<or> number_version t \<or>
     (case t of [] \<Rightarrow> False | c # cs \<Rightarrow> c = 118 \<and> number_version cs))"

text \<open>\<^verbatim>\<open>[A-Za-z]{2,8}(?:-[A-Za-z0-9]{1,8})*\<close>: the parts between hyphens.\<close>

fun split_on :: "nat \<Rightarrow> ustring \<Rightarrow> ustring list" where
  "split_on s [] = [[]]"
| "split_on s (c # cs) = (if c = s then [] # split_on s cs
     else case split_on s cs of [] \<Rightarrow> [[c]] | p # ps \<Rightarrow> (c # p) # ps)"

definition letter :: "nat \<Rightarrow> bool" where "letter c = (lower_letter c \<or> upper_letter c)"

definition language_pattern :: "ustring \<Rightarrow> bool" where
  "language_pattern t = (case split_on 45 t of
       [] \<Rightarrow> False
     | p # ps \<Rightarrow> 2 \<le> length p \<and> length p \<le> 8 \<and> list_all letter p \<and>
         list_all (\<lambda>q. 1 \<le> length q \<and> length q \<le> 8 \<and> list_all (\<lambda>c. letter c \<or> digit c) q) ps)"

text \<open>\<^verbatim>\<open>(?:0|[1-9][0-9]*)\<close>\<close>

definition decimal_pattern :: "ustring \<Rightarrow> bool" where
  "decimal_pattern t = (case t of [] \<Rightarrow> False
     | c # cs \<Rightarrow> digit c \<and> list_all digit cs \<and> (c = 48 \<longrightarrow> cs = []))"

section \<open>The allowed names\<close>

definition SAFE_OPERATION_NAMES :: "ustring list" where
  "SAFE_OPERATION_NAMES = map lit [''agent'', ''avatar'', ''framework_metric'',
     ''framework_operation'', ''interruption_detection'', ''llm'', ''render'', ''stt'', ''tool'',
     ''transport_receive'', ''transport_send'', ''tts'', ''turn_detection'', ''vad'']"

definition SAFE_EVENT_NAMES :: "ustring list" where
  "SAFE_EVENT_NAMES = map lit [''earshot.audio.first_byte_sent'',
     ''earshot.audio.first_packet_received'', ''earshot.audio.render.started'',
     ''earshot.interruption.accepted'', ''earshot.interruption.detected'',
     ''earshot.interruption.ignored'', ''earshot.response.first_audio_generated'',
     ''earshot.response.first_token'', ''earshot.speech.ended'',
     ''earshot.transport.reconnecting'', ''earshot.turn.committed'', ''framework.event'',
     ''otel.span_event'']"

definition SAFE_SOURCE_LABELS :: "ustring list" where
  "SAFE_SOURCE_LABELS = map lit [''LiveKit span attributes'', ''InterruptionFrame'',
     ''InterruptionFrame+BotStartedSpeakingFrame'', ''avatar_metrics'', ''avatarmetrics'',
     ''lk.llm_metrics'', ''lk.realtime_model_metrics'', ''lk.tts_metrics'',
     ''agent_false_interruption'', ''agent_session'', ''agent_turn'', ''session_close'',
     ''conversation_item_added.item.interrupted'', ''conversation_item_added.item.metrics'',
     ''conversation.item.input_audio_transcription.completed'', ''Results'', ''SpeechStarted'',
     ''UtteranceEnd'', ''START_SPEECH'', ''END_SPEECH'', ''audio_end_ms'', ''audio_start_ms'',
     ''cartesia.chunk.receipt'', ''cartesia.done.receipt'', ''cartesia.error.receipt'',
     ''cartesia.request.sent'', ''channel.alternatives.confidence'', ''chunk'', ''data'',
     ''deepgram.Results'', ''deepgram.Results.from_finalize.receipt'',
     ''deepgram.Results.is_final.receipt'', ''deepgram.Results.speech_final.receipt'',
     ''deepgram.SpeechStarted.receipt'', ''deepgram.UtteranceEnd.receipt'', ''done'',
     ''duration'', ''error'', ''events.END_SPEECH.receipt'', ''events.START_SPEECH.receipt'',
     ''clientContent'', ''clientContent.turnComplete'', ''goAway'', ''realtimeInput'',
     ''realtimeInput.activityEnd'', ''realtimeInput.activityStart'', ''serverContent'',
     ''serverContent.generationComplete'', ''serverContent.interrupted'',
     ''serverContent.modelTurn.inlineData'', ''serverContent.turnComplete'',
     ''sessionResumptionUpdate'', ''setupComplete'', ''toolCall'', ''toolCall.functionCalls'',
     ''toolCallCancellation'', ''toolCallCancellation.ids'', ''usageMetadata'',
     ''eot_inference_metrics'', ''eotinferencemetrics'', ''eou_metrics'', ''eoumetrics'',
     ''eou_detection'', ''exception'', ''function_tool'', ''llm'', ''llm generation'',
     ''llm_metrics'', ''llmmetrics'', ''llm_node'', ''llm_request'', ''llm_request_run'',
     ''llm_tool_call'', ''llm_tool_result'', ''gen_ai.usage.cache_creation.input_tokens'',
     ''gen_ai.usage.cache_read.input_tokens'', ''gen_ai.usage.input_tokens'',
     ''gen_ai.usage.output_tokens'', ''gen_ai.usage.reasoning_tokens'',
     ''metrics.character_count'', ''metrics.audio_duration'', ''metrics.processing_latency'',
     ''metrics.ttfb'', ''interruption_metrics'', ''interruptionmetrics'',
     ''input_audio_buffer.speech_started'', ''input_audio_buffer.speech_stopped'',
     ''overlapping_speech'', ''realtime_model_metrics'', ''realtimemodelmetrics'',
     ''response.created'', ''response.done'', ''response.output_audio.delta'',
     ''response.created_to_response.done'', ''sarvam.data'', ''sarvam.data.receipt'',
     ''sarvam.error.code'', ''stt'', ''start'', ''status_code'', ''step_time'',
     ''stt processing'', ''stt_metrics'', ''sttmetrics'', ''tts'', ''tts synthesis'',
     ''tts_metrics'', ''tts_node'', ''tts_request'', ''tts_request_run'', ''ttsmetrics'',
     ''turn detection'', ''turn'', ''turn.user_bot_latency_seconds'', ''turn.was_interrupted'',
     ''user_interruption_detected'', ''user_turn'', ''vad_metrics'', ''vadmetrics'']"

definition SAFE_PROVENANCE_LABELS :: "ustring list" where
  "SAFE_PROVENANCE_LABELS = map lit [''ChatMessage.metrics'', ''ITU-T P.563'', ''POST'',
     ''RTCPeerConnection.getStats'', ''getOutputTimestamp'', ''getStats'']"

definition SAFE_MEASUREMENT_LABELS :: "ustring list" where
  "SAFE_MEASUREMENT_LABELS = map lit [''packet loss ratio'', ''roundTripTime'']"

definition SAFE_MEASUREMENT_UNITS :: "ustring list" where
  "SAFE_MEASUREMENT_UNITS = map lit [''1'', ''MOS-LQO'']"

definition SAFE_ERROR_LABELS :: "ustring list" where
  "SAFE_ERROR_LABELS = map lit [''CancelledError'', ''ConnectionError'', ''Exception'',
     ''OSError'', ''RuntimeError'', ''TimeoutError'', ''ValueError'']"

section \<open>Labels\<close>

definition is_safe_operation_name :: "ustring \<Rightarrow> bool" where
  "is_safe_operation_name t = (t \<in> set SAFE_OPERATION_NAMES \<or> semantic_pattern t)"

definition is_safe_event_name :: "ustring \<Rightarrow> bool" where
  "is_safe_event_name t = (t \<in> set SAFE_EVENT_NAMES \<or> semantic_pattern t)"

definition is_safe_semantic_label :: "ustring \<Rightarrow> bool" where
  "is_safe_semantic_label t = (sha256_pattern t \<or> semantic_pattern t)"

definition is_safe_provenance_label :: "ustring \<Rightarrow> bool" where
  "is_safe_provenance_label t = (t \<in> set SAFE_PROVENANCE_LABELS \<or> is_safe_semantic_label t)"

definition is_safe_version_label :: "ustring \<Rightarrow> bool" where
  "is_safe_version_label t = (sha256_pattern t \<or> version_pattern t)"

definition is_safe_measurement_label :: "ustring \<Rightarrow> bool" where
  "is_safe_measurement_label t = (t \<in> set SAFE_MEASUREMENT_LABELS \<or> is_safe_semantic_label t)"

definition is_safe_measurement_unit :: "ustring \<Rightarrow> bool" where
  "is_safe_measurement_unit t = (t \<in> set SAFE_MEASUREMENT_UNITS \<or> is_safe_semantic_label t)"

definition is_safe_error_label :: "ustring \<Rightarrow> bool" where
  "is_safe_error_label t = (t \<in> set SAFE_ERROR_LABELS \<or> is_safe_semantic_label t)"

definition is_safe_source_label :: "ustring \<Rightarrow> bool" where
  "is_safe_source_label t = (t \<in> set SAFE_SOURCE_LABELS \<or> sha256_pattern t)"

text \<open>\<open>digest_label\<close> is the branch the sanitisers share; \<open>None\<close> stays \<open>None\<close>.\<close>

definition digest_label :: "(ustring \<Rightarrow> ustring) \<Rightarrow> ustring \<Rightarrow> ustring" where
  "digest_label sha256_hex t = SHA256_PREFIX @ sha256_hex t"

definition sanitize_semantic_label :: "(ustring \<Rightarrow> ustring) \<Rightarrow> ustring option \<Rightarrow> ustring option" where
  "sanitize_semantic_label sha v = (case v of None \<Rightarrow> None
     | Some t \<Rightarrow> Some (if is_safe_semantic_label t then t else digest_label sha t))"

definition sanitize_provenance_label :: "(ustring \<Rightarrow> ustring) \<Rightarrow> ustring option \<Rightarrow> ustring option" where
  "sanitize_provenance_label sha v = (case v of None \<Rightarrow> None
     | Some t \<Rightarrow> Some (if is_safe_provenance_label t then t else digest_label sha t))"

definition sanitize_version_label :: "(ustring \<Rightarrow> ustring) \<Rightarrow> ustring option \<Rightarrow> ustring option" where
  "sanitize_version_label sha v = (case v of None \<Rightarrow> None
     | Some t \<Rightarrow> Some (if is_safe_version_label t then t else digest_label sha t))"

definition sanitize_measurement_label :: "(ustring \<Rightarrow> ustring) \<Rightarrow> ustring \<Rightarrow> ustring" where
  "sanitize_measurement_label sha t = (if is_safe_measurement_label t then t else digest_label sha t)"

definition sanitize_measurement_unit :: "(ustring \<Rightarrow> ustring) \<Rightarrow> ustring \<Rightarrow> ustring" where
  "sanitize_measurement_unit sha t = (if is_safe_measurement_unit t then t else digest_label sha t)"

definition sanitize_error_label :: "(ustring \<Rightarrow> ustring) \<Rightarrow> ustring \<Rightarrow> ustring" where
  "sanitize_error_label sha t = (if is_safe_error_label t then t else digest_label sha t)"

definition sanitize_source_label :: "(ustring \<Rightarrow> ustring) \<Rightarrow> ustring option \<Rightarrow> ustring option" where
  "sanitize_source_label sha v = (case v of None \<Rightarrow> None
     | Some t \<Rightarrow> Some (if is_safe_source_label t then t else digest_label sha t))"

definition normalize_operation_name :: "(ustring \<Rightarrow> ustring) \<Rightarrow> ustring \<Rightarrow> ustring \<times> ustring option" where
  "normalize_operation_name sha t =
     (if is_safe_operation_name t then (t, None) else (lit ''framework_operation'', Some (sha t)))"

definition normalize_event_name :: "(ustring \<Rightarrow> ustring) \<Rightarrow> ustring \<Rightarrow> ustring \<times> ustring option" where
  "normalize_event_name sha t =
     (if is_safe_event_name t then (t, None) else (lit ''framework.event'', Some (sha t)))"

section \<open>Every sanitiser ends in its own alphabet\<close>

text \<open>
  The sanitisers share one contract: \<open>safe\<close> names pass, and a digest is always safe.
\<close>

locale label_sanitiser =
  fixes safe :: "ustring \<Rightarrow> bool" and sanitise :: "(ustring \<Rightarrow> ustring) \<Rightarrow> ustring \<Rightarrow> ustring"
  assumes sanitise_eq: "sanitise sha t = (if safe t then t else digest_label sha t)"
    and digest_safe: "sha256_pattern t \<Longrightarrow> safe t"
begin

lemma sanitised_safe: "(\<And>t. hex64 (sha t)) \<Longrightarrow> safe (sanitise sha t)"
  by (auto simp: sanitise_eq digest_label_def sha256_pattern_def starts_with_def SHA256_PREFIX_def lit_def
      intro!: digest_safe)

lemma sanitise_safe_id: "safe t \<Longrightarrow> sanitise sha t = t"
  by (simp add: sanitise_eq)

lemma sanitise_idem: "(\<And>t. hex64 (sha t)) \<Longrightarrow> sanitise sha (sanitise sha t) = sanitise sha t"
  using sanitised_safe sanitise_safe_id by blast

lemma sanitise_fixed: "(\<And>t. hex64 (sha t)) \<Longrightarrow> (sanitise sha t = t) = safe t"
  using sanitised_safe sanitise_safe_id by metis

end

definition plain_sanitiser :: "((ustring \<Rightarrow> ustring) \<Rightarrow> ustring option \<Rightarrow> ustring option) \<Rightarrow> (ustring \<Rightarrow> ustring) \<Rightarrow> ustring \<Rightarrow> ustring" where
  "plain_sanitiser f sha t = the (f sha (Some t))"

interpretation semantic: label_sanitiser is_safe_semantic_label "plain_sanitiser sanitize_semantic_label"
  by unfold_locales (simp_all add: plain_sanitiser_def sanitize_semantic_label_def is_safe_semantic_label_def)

interpretation provenance: label_sanitiser is_safe_provenance_label "plain_sanitiser sanitize_provenance_label"
  by unfold_locales (simp_all add: plain_sanitiser_def sanitize_provenance_label_def
      is_safe_provenance_label_def is_safe_semantic_label_def)

interpretation version: label_sanitiser is_safe_version_label "plain_sanitiser sanitize_version_label"
  by unfold_locales (simp_all add: plain_sanitiser_def sanitize_version_label_def is_safe_version_label_def)

interpretation source_label: label_sanitiser is_safe_source_label "plain_sanitiser sanitize_source_label"
  by unfold_locales (simp_all add: plain_sanitiser_def sanitize_source_label_def is_safe_source_label_def)

interpretation measurement: label_sanitiser is_safe_measurement_label sanitize_measurement_label
  by unfold_locales (simp_all add: sanitize_measurement_label_def is_safe_measurement_label_def
      is_safe_semantic_label_def)

interpretation measurement_unit: label_sanitiser is_safe_measurement_unit sanitize_measurement_unit
  by unfold_locales (simp_all add: sanitize_measurement_unit_def is_safe_measurement_unit_def
      is_safe_semantic_label_def)

interpretation error_label: label_sanitiser is_safe_error_label sanitize_error_label
  by unfold_locales (simp_all add: sanitize_error_label_def is_safe_error_label_def
      is_safe_semantic_label_def)

end
