(* ===== verification/Privacy.thy ===== *)
theory Privacy
  imports Complex_Main PrivacyLabels Recorder
begin

text \<open>
  The capture policy of \<^verbatim>\<open>privacy.py\<close>: the class of an attribute, the values an allowed
  key may have, media locators and schema URLs, the sanitiser every fact goes through, and the
  export gate.

  A value is the tree it unfolds to. A container that contains itself unfolds without end and is
  refused like any tree deeper than 64 levels, so finite trees stand for it. Numbers are exact;
  the floats that are not finite are one constructor. The Unicode mappings \<^verbatim>\<open>lower\<close> and
  \<^verbatim>\<open>strip\<close>, SHA-256, and the URL functions of \<^verbatim>\<open>urllib.parse\<close> are fields of the
  environment; \<open>None\<close> from them is a \<^verbatim>\<open>ValueError\<close>. The memo of the classification caches
  a pure function and is left out.
\<close>

section \<open>Values\<close>

datatype attr_key = Key ustring | Other_Key

datatype attr =
    J_None | J_Bool bool | J_Int int | J_Float rat | J_Nonfinite | J_Str ustring
  | J_List "attr list" | J_Tuple "attr list" | J_Dict "(attr_key \<times> attr) list" | J_Other

record url_parts =
  up_scheme :: ustring
  up_netloc :: ustring
  up_hostname :: "ustring option"
  up_username :: "ustring option"
  up_password :: "ustring option"
  up_path :: ustring
  up_query :: ustring
  up_fragment :: ustring

record privacy_env =
  pv_lower :: "ustring \<Rightarrow> ustring"
  pv_strip :: "ustring \<Rightarrow> ustring"
  pv_sha256 :: "ustring \<Rightarrow> ustring"
  pv_unquote :: "ustring \<Rightarrow> ustring"
  pv_split_url :: "ustring \<Rightarrow> url_parts option"
  pv_query_names :: "ustring \<Rightarrow> ustring list option"

text \<open>\<^verbatim>\<open>encode("utf-8")\<close> succeeds: no lone surrogate.\<close>

definition encodable :: "ustring \<Rightarrow> bool" where
  "encodable t = list_all (\<lambda>c. c < 0xD800 \<or> 0xDFFF < c) t"

section \<open>The tables\<close>

definition IJSON_INTEGER_MAX :: int where "IJSON_INTEGER_MAX = 9007199254740991"
definition UINT64_DECIMAL_MAX :: ustring where "UINT64_DECIMAL_MAX = lit ''18446744073709551615''"

definition SAFE_EXACT :: "ustring list" where
  "SAFE_EXACT = map lit [''service.name'', ''service.namespace'', ''service.version'',
     ''service.instance.id'', ''deployment.environment.name'', ''telemetry.sdk.name'',
     ''telemetry.sdk.language'', ''telemetry.sdk.version'', ''gen_ai.operation.name'',
     ''gen_ai.conversation.id'', ''gen_ai.system'', ''gen_ai.provider.name'',
     ''gen_ai.request.model'', ''gen_ai.response.model'', ''gen_ai.output.type'',
     ''gen_ai.usage.input_tokens'', ''gen_ai.usage.output_tokens'', ''error.type'',
     ''session.id'', ''field_key_sha256'', ''earshot.operation.name'', ''earshot.operation.id'',
     ''earshot.request.id'', ''earshot.language.code'', ''earshot.language.probability'',
     ''earshot.stt.mode'', ''earshot.framework.name'', ''earshot.framework.metric.name'',
     ''earshot.framework.operation.name'', ''earshot.framework.version'',
     ''earshot.participant.id'', ''earshot.stream.id'', ''earshot.turn.id'',
     ''earshot.turn.index'', ''earshot.call.ended'', ''earshot.turn.reported_latency_ms'',
     ''earshot.turn.timeline_continuous'', ''earshot.stt.usage.audio_seconds'',
     ''earshot.tts.usage.character_count'', ''earshot.tts.voice'', ''earshot.link.type'',
     ''earshot.link.target_scope'', ''earshot.clock.domain.id'', ''earshot.time.monotonic_nano'',
     ''earshot.time.observed_unix_nano'', ''earshot.time.uncertainty_nano'',
     ''earshot.evidence.source'', ''earshot.evidence.observer'', ''earshot.source.field'',
     ''earshot.source.event.name'', ''earshot.source.name_sha256'',
     ''earshot.source.status_sha256'', ''earshot.source.schema_url_sha256'',
     ''earshot.source.resource_schema_url_sha256'', ''earshot.evidence.method'',
     ''earshot.evidence.method_version'', ''earshot.evidence.confidence'',
     ''earshot.evidence.availability'', ''earshot.event.id'', ''earshot.event.name'',
     ''earshot.privacy.capture_class'', ''earshot.quality.aggregation'', ''earshot.correlation'',
     ''earshot.chronology'', ''earshot.unit_basis'', ''lk.response.ttft'', ''lk.response.ttfb'',
     ''lk.eou.endpointing_delay'', ''lk.eou.transcription_delay'', ''lk.end_of_turn_delay'',
     ''lk.e2e_latency'', ''lk.generation_id'', ''lk.parent_generation_id'',
     ''lk.participant_id'', ''lk.participant_kind'', ''lk.speech_id'', ''lk.job_id'',
     ''lk.interrupted'', ''lk.transcript_confidence'', ''lk.transcription_delay'',
     ''turn.ended_by_conversation_end'', ''turn.user_bot_latency_seconds'',
     ''turn.was_interrupted'', ''conversation.id'', ''conversation.type'',
     ''earshot.conversation.item.id'', ''earshot.conversation.role'', ''turn.number'',
     ''turn.type'', ''turn.duration_seconds'', ''metrics.ttfb'', ''metrics.character_count'']"

definition SAFE_PREFIXES :: "ustring list" where
  "SAFE_PREFIXES = map lit [''gen_ai.usage.'', ''earshot.metric.'', ''earshot.duration.'',
     ''earshot.integration.tvic.'']"

definition TVIC_STRING_METADATA_KEYS :: "ustring list" where
  "TVIC_STRING_METADATA_KEYS = map lit [''earshot.integration.tvic.epoch'',
     ''earshot.integration.tvic.fact_id'', ''earshot.integration.tvic.agent_id'',
     ''earshot.integration.tvic.audio_error_code'', ''earshot.integration.tvic.cancel_reason'',
     ''earshot.integration.tvic.cause'', ''earshot.integration.tvic.channel'',
     ''earshot.integration.tvic.drop_reason'', ''earshot.integration.tvic.error_category'',
     ''earshot.integration.tvic.error_code'', ''earshot.integration.tvic.status'',
     ''earshot.integration.tvic.terminal_source'']"

definition DIGEST_METADATA_KEYS :: "ustring list" where
  "DIGEST_METADATA_KEYS = map lit [''earshot.source.name_sha256'',
     ''earshot.source.status_sha256'', ''earshot.source.schema_url_sha256'',
     ''earshot.source.resource_schema_url_sha256'', ''field_key_sha256'']"

definition BOOLEAN_METADATA_KEYS :: "ustring list" where
  "BOOLEAN_METADATA_KEYS = map lit [''lk.interrupted'', ''earshot.call.ended'',
     ''earshot.turn.timeline_continuous'', ''turn.ended_by_conversation_end'',
     ''turn.was_interrupted'', ''earshot.metric.connection.reused'',
     ''earshot.metric.interruption.accepted'', ''earshot.metric.interruption.resumed'',
     ''earshot.metric.request.cancelled'', ''earshot.metric.request.streamed'']"

definition INTEGER_METADATA_KEYS :: "ustring list" where
  "INTEGER_METADATA_KEYS = map lit [''earshot.turn.index'', ''turn.number'',
     ''metrics.character_count'', ''gen_ai.usage.input_tokens'', ''gen_ai.usage.output_tokens'',
     ''gen_ai.usage.cache_read.input_tokens'', ''gen_ai.usage.cache_creation.input_tokens'',
     ''gen_ai.usage.reasoning_tokens'', ''earshot.tts.usage.character_count'']"

definition NUMERIC_METADATA_KEYS :: "ustring list" where
  "NUMERIC_METADATA_KEYS = map lit [''lk.response.ttft'', ''lk.response.ttfb'',
     ''lk.eou.endpointing_delay'', ''lk.eou.transcription_delay'', ''lk.end_of_turn_delay'',
     ''lk.e2e_latency'', ''earshot.turn.reported_latency_ms'',
     ''earshot.stt.usage.audio_seconds'', ''lk.transcript_confidence'',
     ''lk.transcription_delay'', ''turn.duration_seconds'', ''turn.user_bot_latency_seconds'',
     ''metrics.ttfb'']"

definition LANGUAGE_CODE_METADATA_KEYS :: "ustring list" where
  "LANGUAGE_CODE_METADATA_KEYS = map lit [''earshot.language.code'']"

definition PROBABILITY_METADATA_KEYS :: "ustring list" where
  "PROBABILITY_METADATA_KEYS = map lit [''earshot.language.probability'']"

definition DECIMAL_METADATA_KEYS :: "ustring list" where
  "DECIMAL_METADATA_KEYS = map lit [''earshot.time.monotonic_nano'',
     ''earshot.time.observed_unix_nano'', ''earshot.time.uncertainty_nano'']"

definition SEMANTIC_METADATA_KEYS :: "ustring list" where
  "SEMANTIC_METADATA_KEYS = map lit [''earshot.operation.name'', ''earshot.framework.name'',
     ''earshot.framework.metric.name'', ''earshot.framework.operation.name'',
     ''earshot.link.type'', ''earshot.link.target_scope'', ''earshot.evidence.source'',
     ''earshot.evidence.observer'', ''earshot.evidence.method'', ''earshot.evidence.confidence'',
     ''earshot.evidence.availability'', ''earshot.event.name'',
     ''earshot.privacy.capture_class'', ''earshot.quality.aggregation'',
     ''earshot.metric.basis'', ''earshot.correlation'', ''earshot.chronology'',
     ''earshot.unit_basis'', ''earshot.stt.mode'', ''gen_ai.operation.name'',
     ''gen_ai.output.type'', ''conversation.type'', ''earshot.conversation.role'', ''turn.type'']"

definition VERSION_METADATA_KEYS :: "ustring list" where
  "VERSION_METADATA_KEYS = map lit [''service.version'', ''telemetry.sdk.version'',
     ''earshot.framework.version'', ''earshot.evidence.method_version'']"

definition SOURCE_METADATA_KEYS :: "ustring list" where
  "SOURCE_METADATA_KEYS = map lit [''earshot.source.field'', ''earshot.source.event.name'']"

definition CLASS_PATTERNS :: "(capture_class \<times> ustring list) list" where
  "CLASS_PATTERNS =
     [(TRANSCRIPT, map lit [''transcript'', ''caption'', ''utterance.text'', ''speech.text'']),
      (AUDIO, map lit [''audio'', ''recording'', ''waveform'', ''media.uri'', ''media.url'']),
      (TOOL_PAYLOAD, map lit [''tool.arguments'', ''tool.result'', ''tool.args'', ''function.arguments'']),
      (DIAGNOSTIC_PAYLOAD, map lit [''error.message'', ''exception.message'', ''exception.stacktrace'',
         ''log.body'']),
      (MODEL_PAYLOAD, map lit [''prompt'', ''completion'', ''message'', ''system_instruction'',
         ''gen_ai.input'', ''gen_ai.output.messages'']),
      (IDENTITY, map lit [''phone_number'', ''caller_id'', ''user.email'', ''participant.name''])]"

section \<open>Classification\<close>

definition is_safe_metadata_key :: "ustring \<Rightarrow> bool" where
  "is_safe_metadata_key key = (key \<in> set SAFE_EXACT \<or> list_ex (\<lambda>p. starts_with p key) SAFE_PREFIXES)"

fun class_by_pattern :: "ustring \<Rightarrow> (capture_class \<times> ustring list) list \<Rightarrow> capture_class" where
  "class_by_pattern lowered [] = METADATA"
| "class_by_pattern lowered ((c, patterns) # rest) =
     (if list_ex (\<lambda>p. contains p lowered) patterns then c else class_by_pattern lowered rest)"

definition classify_attribute :: "privacy_env \<Rightarrow> ustring \<Rightarrow> capture_class" where
  "classify_attribute E key =
     (let lowered = pv_lower E key in
      if is_safe_metadata_key key then METADATA
      else if contains (lit ''.usage.'') lowered
        \<and> (starts_with (lit ''lk.'') lowered \<or> starts_with (lit ''gen_ai.'') lowered) then METADATA
      else class_by_pattern lowered CLASS_PATTERNS)"

definition is_unobservable_heard_key :: "privacy_env \<Rightarrow> ustring \<Rightarrow> bool" where
  "is_unobservable_heard_key E key =
     (let normalized = map (\<lambda>c. if c = 45 then 95 else c) (pv_lower E key) in
      contains (lit ''heard_at'') normalized \<or> ends_with (lit ''.heard'') normalized)"

section \<open>Allowed values\<close>

definition safe_int :: "int \<Rightarrow> bool" where "safe_int i = (\<bar>i\<bar> \<le> IJSON_INTEGER_MAX)"

fun safe_scalar_metadata :: "attr \<Rightarrow> bool" where
  "safe_scalar_metadata (J_Str t) =
     (1 \<le> length t \<and> length t \<le> 256 \<and> list_all (\<lambda>c. c \<ge> 0x20 \<and> c \<noteq> 0x7F) t)"
| "safe_scalar_metadata _ = False"

fun safe_unknown_item :: "attr \<Rightarrow> bool" where
  "safe_unknown_item J_None = True"
| "safe_unknown_item (J_Bool b) = True"
| "safe_unknown_item (J_Int i) = safe_int i"
| "safe_unknown_item (J_Float r) = True"
| "safe_unknown_item _ = False"

fun is_safe_unknown_metadata_value :: "attr \<Rightarrow> bool" where
  "is_safe_unknown_metadata_value (J_List vs) = list_all safe_unknown_item vs"
| "is_safe_unknown_metadata_value (J_Tuple vs) = list_all safe_unknown_item vs"
| "is_safe_unknown_metadata_value v = safe_unknown_item v"

fun count_value :: "attr \<Rightarrow> bool" where
  "count_value (J_Int i) = (0 \<le> i \<and> i \<le> IJSON_INTEGER_MAX)"
| "count_value _ = False"

fun measured_value :: "attr \<Rightarrow> bool" where
  "measured_value (J_Int i) = (0 \<le> i \<and> i \<le> IJSON_INTEGER_MAX)"
| "measured_value (J_Float r) = (0 \<le> r)"
| "measured_value _ = False"

fun probability_value :: "attr \<Rightarrow> bool" where
  "probability_value (J_Int i) = (0 \<le> i \<and> i \<le> 1)"
| "probability_value (J_Float r) = (0 \<le> r \<and> r \<le> 1)"
| "probability_value _ = False"

text \<open>\<^verbatim>\<open><=\<close> on strings compares code points, first difference first.\<close>

fun text_le :: "ustring \<Rightarrow> ustring \<Rightarrow> bool" where
  "text_le [] t = True"
| "text_le (c # cs) [] = False"
| "text_le (c # cs) (d # ds) = (c < d \<or> c = d \<and> text_le cs ds)"

definition uint64_text :: "ustring \<Rightarrow> bool" where
  "uint64_text t = (decimal_pattern t \<and>
     (length t < 20 \<or> length t = 20 \<and> text_le t UINT64_DECIMAL_MAX))"

fun text_value :: "(ustring \<Rightarrow> bool) \<Rightarrow> attr \<Rightarrow> bool" where
  "text_value p (J_Str t) = p t"
| "text_value p _ = False"

fun bool_value :: "attr \<Rightarrow> bool" where
  "bool_value (J_Bool b) = True"
| "bool_value _ = False"

definition metadata_value_allowed :: "ustring \<Rightarrow> attr \<Rightarrow> bool" where
  "metadata_value_allowed key v =
     (if key \<in> set DIGEST_METADATA_KEYS then text_value hex64 v
      else if key \<in> set BOOLEAN_METADATA_KEYS then bool_value v
      else if key \<in> set INTEGER_METADATA_KEYS then count_value v
      else if key \<in> set NUMERIC_METADATA_KEYS then measured_value v
      else if key \<in> set LANGUAGE_CODE_METADATA_KEYS
      then text_value (\<lambda>t. length t \<le> 63 \<and> language_pattern t) v
      else if key \<in> set PROBABILITY_METADATA_KEYS then probability_value v
      else if key \<in> set DECIMAL_METADATA_KEYS then text_value uint64_text v
      else if key \<in> set TVIC_STRING_METADATA_KEYS then safe_scalar_metadata v
      else if key \<in> set SEMANTIC_METADATA_KEYS then text_value is_safe_semantic_label v
      else if key \<in> set VERSION_METADATA_KEYS then text_value is_safe_version_label v
      else if key \<in> set SOURCE_METADATA_KEYS then text_value is_safe_source_label v
      else if key \<in> set SAFE_EXACT then safe_scalar_metadata v
      else is_safe_unknown_metadata_value v)"

section \<open>Locators and schema URLs\<close>

definition LOCATOR_CREDENTIAL_NAMES :: "ustring list" where
  "LOCATOR_CREDENTIAL_NAMES = map lit [''access_token'', ''api_key'', ''key'', ''sig'',
     ''signature'', ''token'', ''x-amz-credential'', ''x-amz-signature'', ''x-goog-credential'',
     ''x-goog-security-token'', ''x-goog-signature'']"

definition LOCATOR_SIGNED_PREFIXES :: "ustring list" where
  "LOCATOR_SIGNED_PREFIXES = map lit [''x-amz-'', ''x-goog-'']"

definition locator_name_is_credential :: "privacy_env \<Rightarrow> ustring \<Rightarrow> bool" where
  "locator_name_is_credential E name =
     (let normalized = pv_lower E (pv_strip E name) in
      normalized \<in> set LOCATOR_CREDENTIAL_NAMES
      \<or> list_ex (\<lambda>p. starts_with p normalized) LOCATOR_SIGNED_PREFIXES)"

definition is_locator_attribute_key :: "privacy_env \<Rightarrow> ustring \<Rightarrow> bool" where
  "is_locator_attribute_key E key =
     (let normalized = pv_lower E key in
      normalized \<in> set (map lit [''uri'', ''url''])
      \<or> list_ex (\<lambda>p. ends_with p normalized) (map lit [''.uri'', ''.url'', ''_uri'', ''_url'']))"

datatype locator_safety = Portable | Invalid_Locator | Credential_Locator

text \<open>\<^verbatim>\<open>partition\<close>: what stands before and after the first occurrence.\<close>

definition before :: "nat \<Rightarrow> ustring \<Rightarrow> ustring" where "before c t = takeWhile (\<lambda>d. d \<noteq> c) t"
definition after :: "nat \<Rightarrow> ustring \<Rightarrow> ustring" where "after c t = tl (dropWhile (\<lambda>d. d \<noteq> c) t)"

definition path_parameters :: "privacy_env \<Rightarrow> ustring \<Rightarrow> ustring list" where
  "path_parameters E path =
     map (after 59) (filter (\<lambda>segment. 59 \<in> set segment) (split_on 47 (pv_unquote E path)))"

definition parameter_names :: "ustring list \<Rightarrow> ustring list" where
  "parameter_names ps = map (before 61) (concat (map (split_on 59) ps))"

definition fragment_names :: "privacy_env \<Rightarrow> ustring \<Rightarrow> ustring list" where
  "fragment_names E fragment = map (before 61) (filter (\<lambda>item. item \<noteq> [])
     (concat (map (split_on 59) (split_on 38 (pv_unquote E fragment)))))"

definition control_free :: "ustring \<Rightarrow> bool" where
  "control_free t = list_all (\<lambda>c. 0x20 < c \<and> c \<noteq> 0x7F) t"

definition media_locator_safety :: "privacy_env \<Rightarrow> ustring \<Rightarrow> locator_safety" where
  "media_locator_safety E t =
     (if t = [] \<or> length t > 2048 then Invalid_Locator
      else if \<not> control_free t then Invalid_Locator
      else case pv_split_url E t of
        None \<Rightarrow> Invalid_Locator
      | Some parsed \<Rightarrow>
          (case pv_query_names E (up_query parsed) of
             None \<Rightarrow> Invalid_Locator
           | Some query_names \<Rightarrow>
               let parameters = path_parameters E (up_path parsed);
                   names = map (pv_lower E) query_names @ parameter_names parameters
                     @ fragment_names E (up_fragment parsed)
               in if up_username parsed \<noteq> None \<or> up_password parsed \<noteq> None
                    \<or> list_ex (locator_name_is_credential E) names
                  then Credential_Locator
                  else if up_scheme parsed \<noteq> lit ''https'' \<or> up_hostname parsed = None
                    \<or> up_fragment parsed \<noteq> [] \<or> parameters \<noteq> []
                  then Invalid_Locator
                  else Portable))"

definition locator_has_credentials :: "privacy_env \<Rightarrow> ustring \<Rightarrow> bool" where
  "locator_has_credentials E t = (media_locator_safety E t = Credential_Locator)"

definition schema_path :: "ustring \<Rightarrow> bool" where
  "schema_path path = (starts_with (lit ''/schemas/'') path \<and>
     (case drop 9 path of [] \<Rightarrow> False
      | c # cs \<Rightarrow> number_version (c # cs) \<or> c = 118 \<and> number_version cs))"

text \<open>Whether the URL is portable, and whether it is one of the registry's.\<close>

definition schema_url_properties :: "privacy_env \<Rightarrow> ustring \<Rightarrow> bool \<times> bool" where
  "schema_url_properties E t = (case pv_split_url E t of
       None \<Rightarrow> (False, False)
     | Some parsed \<Rightarrow>
         let portable = (length t \<le> 2048 \<and> up_scheme parsed = lit ''https'' \<and> up_hostname parsed \<noteq> None
               \<and> up_username parsed = None \<and> up_password parsed = None \<and> up_query parsed = []
               \<and> up_fragment parsed = [] \<and> starts_with (lit ''/'') (up_path parsed) \<and> control_free t)
         in (portable, portable \<and> up_netloc parsed = lit ''opentelemetry.io'' \<and> schema_path (up_path parsed)))"

definition is_canonical_otel_schema_url :: "privacy_env \<Rightarrow> ustring \<Rightarrow> bool" where
  "is_canonical_otel_schema_url E t = snd (schema_url_properties E t)"

definition sanitize_schema_url :: "privacy_env \<Rightarrow> ustring option \<Rightarrow> bool \<Rightarrow> ustring option \<times> ustring option" where
  "sanitize_schema_url E v allow_extension = (case v of
       None \<Rightarrow> (None, None)
     | Some t \<Rightarrow> (case schema_url_properties E t of (portable, canonical) \<Rightarrow>
         if canonical \<or> portable \<and> allow_extension then (Some t, None)
         else (None, Some (pv_sha256 E t))))"

section \<open>Portable values\<close>

text \<open>\<open>snapshot_portable_value\<close> copies a value it accepts, so it is the test alone.\<close>

fun snapshot_ok :: "nat \<Rightarrow> attr \<Rightarrow> bool" where
  "snapshot_ok depth J_None = (depth \<le> 64)"
| "snapshot_ok depth (J_Bool b) = (depth \<le> 64)"
| "snapshot_ok depth (J_Int i) = (depth \<le> 64 \<and> safe_int i)"
| "snapshot_ok depth (J_Float r) = (depth \<le> 64)"
| "snapshot_ok depth J_Nonfinite = False"
| "snapshot_ok depth (J_Str t) = (depth \<le> 64 \<and> encodable t)"
| "snapshot_ok depth (J_List vs) = (depth \<le> 64 \<and> list_all (snapshot_ok (depth + 1)) vs)"
| "snapshot_ok depth (J_Tuple vs) = (depth \<le> 64 \<and> list_all (snapshot_ok (depth + 1)) vs)"
| "snapshot_ok depth (J_Dict items) = (depth \<le> 64 \<and>
     list_all (\<lambda>(k, child). (case k of Key t \<Rightarrow> encodable t | Other_Key \<Rightarrow> False)
       \<and> snapshot_ok (depth + 1) child) items)"
| "snapshot_ok depth J_Other = False"

definition locator_ok :: "privacy_env \<Rightarrow> ustring \<Rightarrow> attr \<Rightarrow> bool" where
  "locator_ok E key v = (case v of
       J_Str t \<Rightarrow> is_locator_attribute_key E key \<longrightarrow> media_locator_safety E t = Portable
     | _ \<Rightarrow> True)"

text \<open>The rules for a key nested in an extension.\<close>

definition nested_key_ok :: "privacy_env \<Rightarrow> ustring \<Rightarrow> attr \<Rightarrow> bool" where
  "nested_key_ok E key child =
     (is_safe_semantic_label key \<and> \<not> is_unobservable_heard_key E key
      \<and> classify_attribute E key = METADATA
      \<and> (is_safe_metadata_key key \<longrightarrow> metadata_value_allowed key child)
      \<and> locator_ok E key child)"

fun is_portable_attribute_value :: "privacy_env \<Rightarrow> bool \<Rightarrow> nat \<Rightarrow> attr \<Rightarrow> bool" where
  "is_portable_attribute_value E govern depth J_None = (depth \<le> 64)"
| "is_portable_attribute_value E govern depth (J_Bool b) = (depth \<le> 64)"
| "is_portable_attribute_value E govern depth (J_Int i) = (depth \<le> 64 \<and> safe_int i)"
| "is_portable_attribute_value E govern depth (J_Float r) = (depth \<le> 64)"
| "is_portable_attribute_value E govern depth J_Nonfinite = False"
| "is_portable_attribute_value E govern depth (J_Str t) = (depth \<le> 64 \<and> encodable t)"
| "is_portable_attribute_value E govern depth (J_List vs) =
     (depth \<le> 64 \<and> list_all (is_portable_attribute_value E govern (depth + 1)) vs)"
| "is_portable_attribute_value E govern depth (J_Tuple vs) =
     (depth \<le> 64 \<and> list_all (is_portable_attribute_value E govern (depth + 1)) vs)"
| "is_portable_attribute_value E govern depth (J_Dict items) = (depth \<le> 64 \<and>
     list_all (\<lambda>(k, child). (case k of Other_Key \<Rightarrow> False
         | Key t \<Rightarrow> encodable t \<and> (govern \<longrightarrow> nested_key_ok E t child))
       \<and> is_portable_attribute_value E govern (depth + 1) child) items)"
| "is_portable_attribute_value E govern depth J_Other = False"

end
