(* ===== verification/Sanitising.thy ===== *)
theory Sanitising
  imports Privacy
begin

text \<open>
  What \<^verbatim>\<open>privacy.py\<close> enforces with its tables: the capture policy, the attribute sanitiser with
  its omission ledger, the export gate in its two forms and the hosted metadata-only check. The first part states what a portable value is as a typing judgement and shows that
  the two recursive tests of the code decide it.
\<close>

section \<open>Strict JSON values as a judgement\<close>

fun nested_items :: "attr \<Rightarrow> (attr_key \<times> attr) list" where
  "nested_items (J_List vs) = concat (map nested_items vs)"
| "nested_items (J_Tuple vs) = concat (map nested_items vs)"
| "nested_items (J_Dict items) = items @ concat (map (\<lambda>(k, c). nested_items c) items)"
| "nested_items _ = []"

fun nesting :: "attr \<Rightarrow> nat" where
  "nesting (J_List vs) = foldr max (map (\<lambda>v. Suc (nesting v)) vs) 0"
| "nesting (J_Tuple vs) = foldr max (map (\<lambda>v. Suc (nesting v)) vs) 0"
| "nesting (J_Dict items) = foldr max (map (\<lambda>(k, v). Suc (nesting v)) items) 0"
| "nesting _ = 0"

inductive strict_json :: "attr \<Rightarrow> bool" where
  Null: "strict_json J_None"
| Boolean: "strict_json (J_Bool b)"
| Integer: "\<bar>i\<bar> \<le> 2 ^ 53 - 1 \<Longrightarrow> strict_json (J_Int i)"
| Number: "strict_json (J_Float r)"
| String: "encodable t \<Longrightarrow> strict_json (J_Str t)"
| Array: "(\<And>v. v \<in> set vs \<Longrightarrow> strict_json v) \<Longrightarrow> strict_json (J_List vs)"
| Tuple: "(\<And>v. v \<in> set vs \<Longrightarrow> strict_json v) \<Longrightarrow> strict_json (J_Tuple vs)"
| Object: "(\<And>k c. (k, c) \<in> set items \<Longrightarrow> \<exists>t. k = Key t \<and> encodable t)
    \<Longrightarrow> (\<And>k c. (k, c) \<in> set items \<Longrightarrow> strict_json c) \<Longrightarrow> strict_json (J_Dict items)"

inductive_simps strict_json_simps [simp]:
  "strict_json J_None" "strict_json (J_Bool b)" "strict_json (J_Int i)" "strict_json (J_Float r)"
  "strict_json J_Nonfinite" "strict_json (J_Str t)" "strict_json (J_List vs)" "strict_json (J_Tuple vs)"
  "strict_json (J_Dict items)" "strict_json J_Other"

lemma foldr_max_le [simp]: "foldr max (map f xs) 0 \<le> n \<longleftrightarrow> (\<forall>x \<in> set xs. f x \<le> (n :: nat))"
  by (induction xs) auto

lemma foldr_max_shift: "d \<le> (64 :: nat) \<Longrightarrow>
    d + foldr max (map f xs) 0 \<le> 64 \<longleftrightarrow> (\<forall>x \<in> set xs. d + f x \<le> 64)"
proof -
  assume d: "d \<le> 64"
  have "d + foldr max (map f xs) 0 \<le> 64 \<longleftrightarrow> foldr max (map f xs) 0 \<le> 64 - d"
    using d by linarith
  also have "\<dots> \<longleftrightarrow> (\<forall>x \<in> set xs. d + f x \<le> 64)"
    using d by (auto simp: le_diff_conv2 add.commute)
  finally show ?thesis .
qed

lemma snapshot_ok_depth: "snapshot_ok depth v \<Longrightarrow> depth \<le> 64"
  by (cases v) auto

lemma snapshot_ok_judgement: "snapshot_ok depth v \<longleftrightarrow> strict_json v \<and> depth + nesting v \<le> 64"
proof (induction depth v rule: snapshot_ok.induct)
  case (3 depth i)
  then show ?case by (auto simp: safe_int_def IJSON_INTEGER_MAX_def)
next
  case (7 depth vs)
  show ?case
  proof (cases "depth \<le> 64")
    case True
    then show ?thesis using 7 foldr_max_shift [OF True, of "\<lambda>v. Suc (nesting v)" vs]
      by (auto simp: list_all_iff)
  qed simp
next
  case (8 depth vs)
  show ?case
  proof (cases "depth \<le> 64")
    case True
    then show ?thesis using 8 foldr_max_shift [OF True, of "\<lambda>v. Suc (nesting v)" vs]
      by (auto simp: list_all_iff)
  qed simp
next
  case (9 depth items)
  show ?case
  proof (cases "depth \<le> 64")
    case True
    have item: "snapshot_ok (depth + 1) c \<longleftrightarrow> strict_json c \<and> depth + 1 + nesting c \<le> 64"
      if "(k, c) \<in> set items" for k c using 9 that True by auto
    have keys: "(case k of Key t \<Rightarrow> encodable t | Other_Key \<Rightarrow> False) \<longleftrightarrow> (\<exists>t. k = Key t \<and> encodable t)" for k
      by (cases k) auto
    show ?thesis using True item foldr_max_shift [OF True, of "\<lambda>(k, v). Suc (nesting v)" items]
      by (fastforce simp: list_all_iff keys)
  qed simp
qed auto

definition nested_ok :: "privacy_env \<Rightarrow> attr_key \<times> attr \<Rightarrow> bool" where
  "nested_ok E item = (case item of (Key t, c) \<Rightarrow> nested_key_ok E t c | (Other_Key, c) \<Rightarrow> True)"

lemma nested_ok_simps [simp]:
  "nested_ok E (Key t, c) = nested_key_ok E t c" "nested_ok E (Other_Key, c)"
  by (simp_all add: nested_ok_def)

lemma portable_judgement:
  "is_portable_attribute_value E govern depth v \<longleftrightarrow>
     snapshot_ok depth v \<and> (govern \<longrightarrow> list_all (nested_ok E) (nested_items v))"
proof (induction E govern depth v rule: is_portable_attribute_value.induct)
  case (7 E govern depth vs)
  then show ?case by (auto simp: list_all_iff)
next
  case (8 E govern depth vs)
  then show ?case by (auto simp: list_all_iff)
next
  case (9 E govern depth items)
  have item: "is_portable_attribute_value E govern (depth + 1) c \<longleftrightarrow>
      snapshot_ok (depth + 1) c \<and> (govern \<longrightarrow> list_all (nested_ok E) (nested_items c))"
    if "(k, c) \<in> set items" for k c using 9 that by auto
  have key: "(case k of Other_Key \<Rightarrow> False | Key t \<Rightarrow> encodable t \<and> (govern \<longrightarrow> nested_key_ok E t c)) \<longleftrightarrow>
      (case k of Key t \<Rightarrow> encodable t | Other_Key \<Rightarrow> False) \<and> (govern \<longrightarrow> nested_ok E (k, c))" for k c
    by (cases k) auto
  have "is_portable_attribute_value E govern depth (J_Dict items) \<longleftrightarrow> depth \<le> 64 \<and>
      list_all (\<lambda>(k, c). ((case k of Key t \<Rightarrow> encodable t | Other_Key \<Rightarrow> False) \<and> snapshot_ok (depth + 1) c)
        \<and> (govern \<longrightarrow> nested_ok E (k, c) \<and> list_all (nested_ok E) (nested_items c))) items"
    unfolding is_portable_attribute_value.simps key
  proof (intro arg_cong2 [where f = conj] refl list.pred_cong, clarify)
    fix k c assume "(k, c) \<in> set items"
    then show "(((case k of Key t \<Rightarrow> encodable t | Other_Key \<Rightarrow> False) \<and> (govern \<longrightarrow> nested_ok E (k, c)))
          \<and> is_portable_attribute_value E govern (depth + 1) c) =
        (((case k of Key t \<Rightarrow> encodable t | Other_Key \<Rightarrow> False) \<and> snapshot_ok (depth + 1) c)
          \<and> (govern \<longrightarrow> nested_ok E (k, c) \<and> list_all (nested_ok E) (nested_items c)))"
      by (simp only: item) blast
  qed
  also have "\<dots> \<longleftrightarrow> snapshot_ok depth (J_Dict items)
      \<and> (govern \<longrightarrow> list_all (nested_ok E) (nested_items (J_Dict items)))"
    by (simp add: list_all_iff case_prod_beta ball_Un) blast
  finally show ?case .
qed auto

section \<open>The capture policy\<close>

text \<open>
  A class's governance also declares consent, redaction and retention; nothing here reads them.
\<close>

record export_config =
  ec_allowed :: bool
  ec_destinations :: "ustring list"

record capture_policy =
  cp_enabled :: "capture_class set"
  cp_governance :: "capture_class \<Rightarrow> export_config option option"

text \<open>\<^verbatim>\<open>__post_init__\<close>; \<open>None\<close> is its \<^verbatim>\<open>ValueError\<close>.\<close>

definition new_policy :: "capture_class set \<Rightarrow> (capture_class \<Rightarrow> export_config option option)
    \<Rightarrow> capture_policy option" where
  "new_policy enabled governance =
     (if METADATA \<notin> enabled then None else Some \<lparr>cp_enabled = enabled, cp_governance = governance\<rparr>)"

definition metadata_only :: capture_policy where
  "metadata_only = \<lparr>cp_enabled = {METADATA}, cp_governance = (\<lambda>c. None)\<rparr>"

definition policy_allows :: "capture_policy \<Rightarrow> capture_class \<Rightarrow> bool" where
  "policy_allows p c = (c \<in> cp_enabled p)"

section \<open>The attribute sanitiser\<close>

type_synonym attr_omission = "ustring \<times> capture_class \<times> string"

definition NON_STRING_KEY :: ustring where "NON_STRING_KEY = lit ''<non-string-key>''"

definition locator_verdict :: "privacy_env \<Rightarrow> ustring \<Rightarrow> attr \<Rightarrow> string option" where
  "locator_verdict E key v = (case v of
       J_Str t \<Rightarrow>
         if \<not> is_locator_attribute_key E key then None
         else (case media_locator_safety E t of
             Portable \<Rightarrow> None
           | Credential_Locator \<Rightarrow> Some ''credential_bearing_locator''
           | Invalid_Locator \<Rightarrow> Some ''invalid_media_locator'')
     | _ \<Rightarrow> None)"

text \<open>Why one attribute is omitted; \<open>None\<close> keeps it.\<close>

definition attribute_verdict :: "privacy_env \<Rightarrow> capture_policy \<Rightarrow> ustring \<Rightarrow> attr \<Rightarrow> string option" where
  "attribute_verdict E p key v =
     (let c = classify_attribute E key;
          known = is_safe_metadata_key key;
          allowed = policy_allows p c \<and> is_safe_semantic_label key
            \<and> (c = METADATA \<longrightarrow> known \<or> policy_allows p EXTENSION_PAYLOAD)
      in if is_unobservable_heard_key E key then Some ''unobservable_claim''
         else if \<not> allowed then Some ''capture_class_disabled''
         else if \<not> snapshot_ok 0 v then Some ''unsafe_attribute_key_or_value''
         else if c = METADATA \<and> known \<and> \<not> metadata_value_allowed key v
         then Some ''unsafe_attribute_key_or_value''
         else case locator_verdict E key v of
             Some reason \<Rightarrow> Some reason
           | None \<Rightarrow> if is_portable_attribute_value E (c = METADATA \<and> \<not> known) 0 v then None
                     else Some ''unsafe_attribute_key_or_value'')"

text \<open>
  The loop over the mapping. \<open>None\<close> is the \<^verbatim>\<open>UnicodeEncodeError\<close> of digesting an omitted
  key that holds a lone surrogate.
\<close>

fun sanitize_attributes :: "privacy_env \<Rightarrow> capture_policy \<Rightarrow> (attr_key \<times> attr) list
    \<Rightarrow> ((ustring \<times> attr) list \<times> attr_omission list) option" where
  "sanitize_attributes E p [] = Some ([], [])"
| "sanitize_attributes E p ((Other_Key, v) # rest) =
     map_option (\<lambda>(kept, omissions). (kept,
         (pv_sha256 E NON_STRING_KEY, METADATA, ''unsafe_attribute_key_or_value'') # omissions))
       (sanitize_attributes E p rest)"
| "sanitize_attributes E p ((Key key, v) # rest) =
     (case attribute_verdict E p key v of
        None \<Rightarrow> map_option (\<lambda>(kept, omissions). ((key, v) # kept, omissions))
                 (sanitize_attributes E p rest)
      | Some reason \<Rightarrow>
          if \<not> encodable key then None
          else map_option (\<lambda>(kept, omissions). (kept,
                   (pv_sha256 E key, classify_attribute E key, reason) # omissions))
                 (sanitize_attributes E p rest))"

section \<open>The judgement the sanitiser decides\<close>

inductive governed :: "privacy_env \<Rightarrow> capture_policy \<Rightarrow> ustring \<Rightarrow> attr \<Rightarrow> bool"
  for E :: privacy_env and p :: capture_policy and key :: ustring and v :: attr where
  Payload: "classify_attribute E key \<noteq> METADATA \<Longrightarrow> classify_attribute E key \<in> cp_enabled p
    \<Longrightarrow> is_safe_semantic_label key \<Longrightarrow> \<not> is_unobservable_heard_key E key
    \<Longrightarrow> strict_json v \<Longrightarrow> nesting v \<le> 64 \<Longrightarrow> locator_ok E key v \<Longrightarrow> governed E p key v"
| Known: "is_safe_metadata_key key \<Longrightarrow> METADATA \<in> cp_enabled p
    \<Longrightarrow> is_safe_semantic_label key \<Longrightarrow> \<not> is_unobservable_heard_key E key
    \<Longrightarrow> strict_json v \<Longrightarrow> nesting v \<le> 64 \<Longrightarrow> metadata_value_allowed key v
    \<Longrightarrow> locator_ok E key v \<Longrightarrow> governed E p key v"
| Extension: "classify_attribute E key = METADATA \<Longrightarrow> \<not> is_safe_metadata_key key
    \<Longrightarrow> {METADATA, EXTENSION_PAYLOAD} \<subseteq> cp_enabled p
    \<Longrightarrow> is_safe_semantic_label key \<Longrightarrow> \<not> is_unobservable_heard_key E key
    \<Longrightarrow> strict_json v \<Longrightarrow> nesting v \<le> 64 \<Longrightarrow> list_all (nested_ok E) (nested_items v)
    \<Longrightarrow> locator_ok E key v \<Longrightarrow> governed E p key v"

lemma known_is_metadata: "is_safe_metadata_key key \<Longrightarrow> classify_attribute E key = METADATA"
  by (simp add: classify_attribute_def Let_def)

lemma locator_verdict_None: "locator_verdict E key v = None \<longleftrightarrow> locator_ok E key v"
  by (auto simp: locator_verdict_def locator_ok_def split: attr.splits locator_safety.splits)

lemma governed_iff:
  "governed E p key v \<longleftrightarrow> is_safe_semantic_label key \<and> \<not> is_unobservable_heard_key E key
     \<and> policy_allows p (classify_attribute E key) \<and> snapshot_ok 0 v \<and> locator_ok E key v
     \<and> (classify_attribute E key = METADATA \<longrightarrow>
          (if is_safe_metadata_key key then metadata_value_allowed key v
           else policy_allows p EXTENSION_PAYLOAD \<and> list_all (nested_ok E) (nested_items v)))"
  using known_is_metadata [of key E]
  by (auto simp: governed.simps snapshot_ok_judgement policy_allows_def)

lemma verdict_judgement: "attribute_verdict E p key v = None \<longleftrightarrow> governed E p key v"
proof (cases "locator_verdict E key v")
  case None
  then have ok: "locator_ok E key v" by (simp add: locator_verdict_None)
  show ?thesis
    by (simp add: attribute_verdict_def Let_def None governed_iff ok portable_judgement)
next
  case (Some reason)
  then have "\<not> locator_ok E key v" by (simp flip: locator_verdict_None)
  then show ?thesis by (simp add: attribute_verdict_def Let_def Some governed_iff)
qed

lemma length_SHA256_PREFIX [simp]: "length SHA256_PREFIX = 7"
  by (simp add: SHA256_PREFIX_def lit_def)

lemma label_char_encodable: "label_char c \<Longrightarrow> c < 128"
  by (auto simp: label_char_def lower_letter_def digit_def)

lemma safe_label_encodable:
  assumes "is_safe_semantic_label t" shows "encodable t"
proof -
  have "c < 128" if "c \<in> set t" for c
  proof (cases "semantic_pattern t")
    case True
    then show ?thesis using that label_char_encodable
      by (cases t) (auto simp: lower_letter_def list_all_iff)
  next
    case False
    then have "sha256_pattern t" using assms by (simp add: is_safe_semantic_label_def)
    then have "take 7 t = SHA256_PREFIX" and h: "list_all hex_digit (drop 7 t)"
      by (simp_all add: sha256_pattern_def starts_with_def hex64_def)
    then have t: "t = SHA256_PREFIX @ drop 7 t" by (metis append_take_drop_id)
    have "c \<in> set SHA256_PREFIX \<or> c \<in> set (drop 7 t)" using that t by (metis Un_iff set_append)
    then show ?thesis using h by (auto simp: list_all_iff hex_digit_def digit_def SHA256_PREFIX_def lit_def)
  qed
  then show ?thesis by (fastforce simp: encodable_def list_all_iff)
qed

lemma governed_label: "governed E p key v \<Longrightarrow> is_safe_semantic_label key"
  by (induction rule: governed.induct)

lemma governed_encodable: "governed E p key v \<Longrightarrow> encodable key"
  by (rule safe_label_encodable [OF governed_label])

section \<open>What leaves the sanitiser\<close>

definition governed_part :: "privacy_env \<Rightarrow> capture_policy \<Rightarrow> (attr_key \<times> attr) list \<Rightarrow> (ustring \<times> attr) list" where
  "governed_part E p attrs = [(key, v). (Key key, v) \<leftarrow> attrs, governed E p key v]"

lemma governed_part_simps [simp]:
  "governed_part E p [] = []"
  "governed_part E p ((Other_Key, v) # rest) = governed_part E p rest"
  "governed_part E p ((Key key, v) # rest) =
     (if governed E p key v then [(key, v)] else []) @ governed_part E p rest"
  by (simp_all add: governed_part_def)

text \<open>The digest and class an omission gives for an attribute.\<close>

definition omitted_as :: "privacy_env \<Rightarrow> attr_key \<Rightarrow> ustring \<times> capture_class" where
  "omitted_as E k = (case k of Key key \<Rightarrow> (pv_sha256 E key, classify_attribute E key)
     | Other_Key \<Rightarrow> (pv_sha256 E NON_STRING_KEY, METADATA))"

definition ungoverned_keys :: "privacy_env \<Rightarrow> capture_policy \<Rightarrow> (attr_key \<times> attr) list \<Rightarrow> attr_key list" where
  "ungoverned_keys E p attrs =
     map fst (filter (\<lambda>(k, v). case k of Key key \<Rightarrow> \<not> governed E p key v | Other_Key \<Rightarrow> True) attrs)"

lemma ungoverned_keys_simps [simp]:
  "ungoverned_keys E p [] = []"
  "ungoverned_keys E p ((Other_Key, v) # rest) = Other_Key # ungoverned_keys E p rest"
  "ungoverned_keys E p ((Key key, v) # rest) =
     (if governed E p key v then [] else [Key key]) @ ungoverned_keys E p rest"
  by (simp_all add: ungoverned_keys_def)

lemma sanitize_key_cases:
  "sanitize_attributes E p ((Key key, v) # rest) =
     (if governed E p key v
      then map_option (\<lambda>(kept, omissions). ((key, v) # kept, omissions)) (sanitize_attributes E p rest)
      else if \<not> encodable key then None
      else map_option (\<lambda>(kept, omissions). (kept,
          (pv_sha256 E key, classify_attribute E key, the (attribute_verdict E p key v)) # omissions))
        (sanitize_attributes E p rest))"
  using verdict_judgement [of E p key v] by (auto split: option.splits)

lemma sanitize_parts:
  "sanitize_attributes E p attrs = Some (kept, omissions) \<Longrightarrow>
     kept = governed_part E p attrs
     \<and> map (\<lambda>(d, c, r). (d, c)) omissions = map (omitted_as E) (ungoverned_keys E p attrs)"
proof (induction attrs arbitrary: kept omissions)
  case (Cons a rest)
  obtain k v where a: "a = (k, v)" by (cases a)
  show ?case
  proof (cases k)
    case (Key key)
    show ?thesis using Cons.prems Cons.IH unfolding a Key
      by (auto simp: sanitize_key_cases omitted_as_def simp del: sanitize_attributes.simps(3) split: if_splits)
  next
    case Other_Key
    show ?thesis using Cons.prems Cons.IH unfolding a Other_Key by (auto simp: omitted_as_def)
  qed
qed simp

lemma sanitize_returns:
  "sanitize_attributes E p attrs = None \<longleftrightarrow> list_ex (\<lambda>(k, v). case k of Key key \<Rightarrow> \<not> encodable key | Other_Key \<Rightarrow> False) attrs"
proof (induction attrs)
  case (Cons a rest)
  obtain k v where a: "a = (k, v)" by (cases a)
  show ?case
  proof (cases k)
    case (Key key)
    show ?thesis using Cons.IH governed_encodable [of E p key v] unfolding a Key
      by (auto simp: sanitize_key_cases simp del: sanitize_attributes.simps(3))
  next
    case Other_Key
    show ?thesis using Cons.IH unfolding a Other_Key by simp
  qed
qed simp

lemma sanitize_all_governed:
  "(\<And>key v. (key, v) \<in> set kept \<Longrightarrow> governed E p key v) \<Longrightarrow>
     sanitize_attributes E p (map (\<lambda>(key, v). (Key key, v)) kept) = Some (kept, [])"
proof (induction kept)
  case (Cons a rest)
  obtain key v where a: "a = (key, v)" by (cases a)
  have "governed E p key v" using Cons.prems a by simp
  moreover have "sanitize_attributes E p (map (\<lambda>(key, v). (Key key, v)) rest) = Some (rest, [])"
    by (rule Cons.IH) (use Cons.prems in auto)
  ultimately show ?case unfolding a
    by (simp add: sanitize_key_cases del: sanitize_attributes.simps(3))
qed simp

lemma governed_part_governed: "(key, v) \<in> set (governed_part E p attrs) \<Longrightarrow> governed E p key v"
  by (auto simp: governed_part_def split: attr_key.splits if_splits)

lemma governed_mono: "governed E p key v \<Longrightarrow> cp_enabled p \<subseteq> cp_enabled q \<Longrightarrow> governed E q key v"
  by (auto simp: governed_iff policy_allows_def split: if_splits)

lemma governed_part_mono:
  assumes "cp_enabled p \<subseteq> cp_enabled q"
  shows "subseq (governed_part E p attrs) (governed_part E q attrs)"
proof (induction attrs)
  case (Cons a rest)
  obtain k v where a: "a = (k, v)" by (cases a)
  show ?case
  proof (cases k)
    case (Key key)
    then show ?thesis using Cons governed_mono [of E p key v, OF _ assms] unfolding a by auto
  next
    case Other_Key
    then show ?thesis using Cons unfolding a by simp
  qed
qed simp

lemma lit_simps [simp]:
  "lit a = lit b \<longleftrightarrow> a = b" "length (lit a) = length a"
  "starts_with (lit p) (lit t) \<longleftrightarrow> take (length p) t = p"
  "ends_with (lit p) (lit t) \<longleftrightarrow> length p \<le> length t \<and> drop (length t - length p) t = p"
proof -
  have inj: "inj lit" unfolding lit_def by (intro inj_mapI injI) simp
  show e: "lit a = lit b \<longleftrightarrow> a = b" for a b by (simp add: inj_eq [OF inj])
  show "length (lit a) = length a" by (simp add: lit_def)
  have "take n (lit t) = lit (take n t)" "drop n (lit t) = lit (drop n t)" for n
    by (simp_all add: lit_def take_map drop_map)
  then show "starts_with (lit p) (lit t) \<longleftrightarrow> take (length p) t = p"
    and "ends_with (lit p) (lit t) \<longleftrightarrow> length p \<le> length t \<and> drop (length t - length p) t = p"
    by (simp_all add: starts_with_def ends_with_def e lit_def [symmetric] flip: e) (simp_all add: lit_def)
qed

lemma contains_lit [simp]:
  "contains (lit p) (lit []) \<longleftrightarrow> p = []"
  "contains (lit p) (lit (c # cs)) \<longleftrightarrow> take (length p) (c # cs) = p \<or> contains (lit p) (lit cs)"
proof -
  show "contains (lit p) (lit []) \<longleftrightarrow> p = []" by (simp add: lit_def)
  have "lit (c # cs) = of_char c # lit cs" by (simp add: lit_def)
  then show "contains (lit p) (lit (c # cs)) \<longleftrightarrow> take (length p) (c # cs) = p \<or> contains (lit p) (lit cs)"
    using lit_simps(3) [of p "c # cs"] by (metis contains.simps(2))
qed

text \<open>An environment to evaluate in: lower-case text, no URL parses.\<close>

definition plain_env :: privacy_env where
  "plain_env = \<lparr>pv_lower = (\<lambda>t. t), pv_strip = (\<lambda>t. t),
     pv_sha256 = (\<lambda>t. replicate 64 48), pv_unquote = (\<lambda>t. t), pv_split_url = (\<lambda>t. None),
     pv_query_names = (\<lambda>t. Some [])\<rparr>"

lemma email_verdict:
  "attribute_verdict plain_env metadata_only (lit ''user.email'') v = Some ''capture_class_disabled''"
  "classify_attribute plain_env (lit ''user.email'') = IDENTITY"
proof -
  have k: "\<not> is_safe_metadata_key (lit ''user.email'')"
    by (simp add: is_safe_metadata_key_def SAFE_EXACT_def SAFE_PREFIXES_def)
  show c: "classify_attribute plain_env (lit ''user.email'') = IDENTITY"
    by (simp add: classify_attribute_def plain_env_def k CLASS_PATTERNS_def)
  have h: "\<not> is_unobservable_heard_key plain_env (lit ''user.email'')"
    by (simp add: is_unobservable_heard_key_def plain_env_def lit_def starts_with_def ends_with_def)
  show "attribute_verdict plain_env metadata_only (lit ''user.email'') v = Some ''capture_class_disabled''"
    by (simp add: attribute_verdict_def Let_def c policy_allows_def metadata_only_def h)
qed

lemma metric_governed: "governed plain_env metadata_only (lit ''earshot.metric.n'') (J_Int 3)"
proof (rule governed.Known)
  show "is_safe_metadata_key (lit ''earshot.metric.n'')"
    by (simp add: is_safe_metadata_key_def SAFE_PREFIXES_def)
  show "is_safe_semantic_label (lit ''earshot.metric.n'')"
    by (simp add: is_safe_semantic_label_def lit_def lower_letter_def label_char_def digit_def)
  show "\<not> is_unobservable_heard_key plain_env (lit ''earshot.metric.n'')"
    by (simp add: is_unobservable_heard_key_def plain_env_def lit_def starts_with_def ends_with_def)
  show "metadata_value_allowed (lit ''earshot.metric.n'') (J_Int 3)"
    by (simp add: metadata_value_allowed_def DIGEST_METADATA_KEYS_def BOOLEAN_METADATA_KEYS_def
        INTEGER_METADATA_KEYS_def NUMERIC_METADATA_KEYS_def LANGUAGE_CODE_METADATA_KEYS_def
        PROBABILITY_METADATA_KEYS_def DECIMAL_METADATA_KEYS_def TVIC_STRING_METADATA_KEYS_def
        SEMANTIC_METADATA_KEYS_def VERSION_METADATA_KEYS_def SOURCE_METADATA_KEYS_def SAFE_EXACT_def
        safe_int_def IJSON_INTEGER_MAX_def)
qed (simp_all add: metadata_only_def locator_ok_def)

lemma sample_sanitised:
  "sanitize_attributes plain_env metadata_only
     [(Key (lit ''earshot.metric.n''), J_Int 3), (Key (lit ''user.email''), J_Str []), (Other_Key, J_None)]
   = Some ([(lit ''earshot.metric.n'', J_Int 3)],
       [(replicate 64 48, IDENTITY, ''capture_class_disabled''),
        (replicate 64 48, METADATA, ''unsafe_attribute_key_or_value'')])"
proof -
  have "encodable (lit ''user.email'')" by (simp add: encodable_def lit_def)
  moreover have "attribute_verdict plain_env metadata_only (lit ''earshot.metric.n'') (J_Int 3) = None"
    using metric_governed by (simp add: verdict_judgement)
  ultimately show ?thesis by (simp add: email_verdict) (simp add: plain_env_def)
qed

text \<open>C15. The sanitiser keeps exactly the attributes the typing judgement \<open>governed\<close> accepts, in
  their order, and accounts for every other one with its key's digest and class: what it keeps has
  a safe label of an enabled class, is no claim to have been heard, holds strict JSON nested at most
  64 levels, an allowed value when the key is known, and governed keys at every depth of an
  extension.\<close>

theorem sanitize_keeps_the_governed:
  assumes "sanitize_attributes E p attrs = Some (kept, omissions)"
  shows "kept = [(key, v). (Key key, v) \<leftarrow> attrs, governed E p key v]
    \<and> map (\<lambda>(digest, c, reason). (digest, c)) omissions = map (omitted_as E) (ungoverned_keys E p attrs)
    \<and> length kept + length omissions = length attrs"
proof -
  have n: "length (governed_part E p attrs) + length (ungoverned_keys E p attrs) = length attrs"
  proof (induction attrs)
    case (Cons a rest)
    then show ?case by (cases a; cases "fst a") auto
  qed simp
  have "length omissions = length (ungoverned_keys E p attrs)"
    using sanitize_parts [OF assms] by (metis length_map)
  then show ?thesis using sanitize_parts [OF assms] n by (simp add: governed_part_def)
qed

theorem sanitize_keeps_the_governed_witness:
  "[(lit ''earshot.metric.n'', J_Int 3)] = [(key, v). (Key key, v) \<leftarrow>
       [(Key (lit ''earshot.metric.n''), J_Int 3), (Key (lit ''user.email''), J_Str []), (Other_Key, J_None)],
       governed plain_env metadata_only key v]"
  using sanitize_keeps_the_governed [OF sample_sanitised] by (rule conjunct1)

text \<open>Sanitising fails, with a \<^verbatim>\<open>UnicodeEncodeError\<close>, exactly when some key holds a lone
  surrogate; whatever the values are, it returns.\<close>

theorem sanitize_fails_on_surrogate_keys:
  "sanitize_attributes E p attrs = None \<longleftrightarrow> (\<exists>(k, v) \<in> set attrs. \<exists>key. k = Key key \<and> \<not> encodable key)"
  unfolding sanitize_returns list_ex_iff by (fastforce split: attr_key.splits)

text \<open>Sanitising what was kept keeps all of it, and omits nothing.\<close>

theorem sanitize_idempotent:
  assumes "sanitize_attributes E p attrs = Some (kept, omissions)"
  shows "sanitize_attributes E p (map (\<lambda>(key, v). (Key key, v)) kept) = Some (kept, [])"
  using sanitize_parts [OF assms] by (blast intro: sanitize_all_governed governed_part_governed)

theorem sanitize_idempotent_witness:
  "sanitize_attributes plain_env metadata_only [(Key (lit ''earshot.metric.n''), J_Int 3)]
     = Some ([(lit ''earshot.metric.n'', J_Int 3)], [])"
  using sanitize_idempotent [OF sample_sanitised] by simp

text \<open>Enabling more classes never loses an attribute: what a smaller policy keeps is a
  subsequence of what a larger one keeps.\<close>

theorem sanitize_monotone:
  assumes "cp_enabled p \<subseteq> cp_enabled q"
    and "sanitize_attributes E p attrs = Some (kept, omissions)"
  shows "\<exists>kept' omissions'. sanitize_attributes E q attrs = Some (kept', omissions')
    \<and> subseq kept kept' \<and> length omissions' \<le> length omissions"
proof -
  have "sanitize_attributes E q attrs \<noteq> None"
    using assms(2) sanitize_returns [of E p attrs] sanitize_returns [of E q attrs] by simp
  then obtain kept' omissions' where q: "sanitize_attributes E q attrs = Some (kept', omissions')"
    by (metis not_None_eq surj_pair)
  have le: "length (ungoverned_keys E q attrs) \<le> length (ungoverned_keys E p attrs)"
  proof (induction attrs)
    case (Cons a rest)
    then show ?case using governed_mono [OF _ assms(1)] by (cases a; cases "fst a") auto
  qed simp
  have "length omissions' \<le> length omissions"
    using le sanitize_parts [OF q] sanitize_parts [OF assms(2)] by (metis length_map)
  then show ?thesis
    using q sanitize_parts [OF q] sanitize_parts [OF assms(2)] governed_part_mono [OF assms(1)] by auto
qed

theorem sanitize_monotone_witness:
  "\<exists>kept' omissions'. sanitize_attributes plain_env (metadata_only\<lparr>cp_enabled := {METADATA, IDENTITY}\<rparr>)
       [(Key (lit ''earshot.metric.n''), J_Int 3), (Key (lit ''user.email''), J_Str []), (Other_Key, J_None)]
         = Some (kept', omissions')
     \<and> subseq [(lit ''earshot.metric.n'', J_Int 3)] kept' \<and> length omissions' \<le> 2"
proof -
  have "cp_enabled metadata_only \<subseteq> cp_enabled (metadata_only\<lparr>cp_enabled := {METADATA, IDENTITY}\<rparr>)"
    by (simp add: metadata_only_def)
  from sanitize_monotone [OF this sample_sanitised] show ?thesis
    by (simp del: sanitize_attributes.simps add: numeral_2_eq_2)
qed


section \<open>Labels\<close>

text \<open>Every sanitised label is one its pattern accepts, is left alone by sanitising it again, and
  is the given label exactly when that was safe.\<close>

theorem labels_sanitised:
  assumes "\<And>t. hex64 (sha t)"
  shows "is_safe_semantic_label (the (sanitize_semantic_label sha (Some t)))
    \<and> is_safe_provenance_label (the (sanitize_provenance_label sha (Some t)))
    \<and> is_safe_version_label (the (sanitize_version_label sha (Some t)))
    \<and> is_safe_source_label (the (sanitize_source_label sha (Some t)))
    \<and> is_safe_measurement_label (sanitize_measurement_label sha t)
    \<and> is_safe_measurement_unit (sanitize_measurement_unit sha t)
    \<and> is_safe_error_label (sanitize_error_label sha t)
    \<and> (sanitize_source_label sha (Some t) = Some t \<longleftrightarrow> is_safe_source_label t)
    \<and> sanitize_semantic_label sha (sanitize_semantic_label sha (Some t)) = sanitize_semantic_label sha (Some t)"
proof -
  have src: "sanitize_source_label sha (Some t) = Some (plain_sanitiser sanitize_source_label sha t)"
    and sem: "sanitize_semantic_label sha (Some u) = Some (plain_sanitiser sanitize_semantic_label sha u)" for u
    by (simp_all add: plain_sanitiser_def sanitize_source_label_def sanitize_semantic_label_def)
  show ?thesis
    using semantic.sanitised_safe [where sha = sha and t = t, OF assms] provenance.sanitised_safe [where sha = sha and t = t, OF assms]
      version.sanitised_safe [where sha = sha and t = t, OF assms] source_label.sanitised_safe [where sha = sha and t = t, OF assms]
      measurement.sanitised_safe [where sha = sha and t = t, OF assms] measurement_unit.sanitised_safe [where sha = sha and t = t, OF assms]
      error_label.sanitised_safe [where sha = sha and t = t, OF assms] source_label.sanitise_fixed [where sha = sha and t = t, OF assms]
      semantic.sanitise_idem [where sha = sha and t = t, OF assms]
    unfolding src sem by (simp add: plain_sanitiser_def)
qed

theorem labels_sanitised_witness:
  "is_safe_error_label (sanitize_error_label (\<lambda>t. replicate 64 97) (lit ''Database is down''))"
  using labels_sanitised [of "\<lambda>t. replicate 64 97" "lit ''Database is down''"]
  by (simp add: hex64_def hex_digit_def list_all_iff)

section \<open>The export gate\<close>

definition EXPORT_DENIED_BY_POLICY :: string where "EXPORT_DENIED_BY_POLICY = ''export_denied_by_policy''"
definition EXPORT_DESTINATION_NOT_PERMITTED :: string where
  "EXPORT_DESTINATION_NOT_PERMITTED = ''export_destination_not_permitted''"

definition export_denial_message :: "string \<Rightarrow> string" where
  "export_denial_message reason = (if reason = EXPORT_DENIED_BY_POLICY
     then ''incident export is denied by capture policy''
     else ''incident export destination is not permitted'')"

definition export_denial_reason :: "export_config option \<Rightarrow> ustring \<Rightarrow> string option" where
  "export_denial_reason export destination = (case export of
       None \<Rightarrow> None
     | Some x \<Rightarrow>
         if \<not> ec_allowed x then Some EXPORT_DENIED_BY_POLICY
         else if ec_destinations x \<noteq> [] \<and> destination \<notin> set (ec_destinations x)
         then Some EXPORT_DESTINATION_NOT_PERMITTED
         else None)"

text \<open>A row of \<^verbatim>\<open>profile.privacy.capture_classes\<close>, and the raise of the first that refuses.\<close>

record class_row =
  cr_class :: capture_class
  cr_captured :: bool
  cr_export :: "export_config option"

fun assert_export_allowed :: "class_row list \<Rightarrow> ustring \<Rightarrow> string option" where
  "assert_export_allowed [] destination = None"
| "assert_export_allowed (row # rows) destination =
     (if \<not> cr_captured row then assert_export_allowed rows destination
      else case export_denial_reason (cr_export row) destination of
        Some reason \<Rightarrow> Some (export_denial_message reason)
      | None \<Rightarrow> assert_export_allowed rows destination)"

definition governed_export :: "capture_policy \<Rightarrow> capture_class \<Rightarrow> export_config option" where
  "governed_export p c = (case cp_governance p c of None \<Rightarrow> None | Some export \<Rightarrow> export)"

definition export_denials :: "capture_policy \<Rightarrow> capture_class set \<Rightarrow> ustring \<Rightarrow> (capture_class \<times> string) list" where
  "export_denials p captured destination =
     concat (map (\<lambda>c. case export_denial_reason (governed_export p c) destination of
         None \<Rightarrow> [] | Some reason \<Rightarrow> [(c, reason)]) (sorted_classes captured))"

text \<open>The rows a bundle carries when the policy and the captured classes are those of its recorder.\<close>

definition rows_of :: "capture_policy \<Rightarrow> capture_class set \<Rightarrow> capture_class list \<Rightarrow> class_row list" where
  "rows_of p captured cs = map (\<lambda>c. \<lparr>cr_class = c, cr_captured = (c \<in> captured),
     cr_export = governed_export p c\<rparr>) cs"

lemma classes_by_value_all: "c \<in> set classes_by_value"
  by (cases c) (simp_all add: classes_by_value_def)

lemma export_denials_iff: "(c, reason) \<in> set (export_denials p captured destination) \<longleftrightarrow>
    c \<in> captured \<and> export_denial_reason (governed_export p c) destination = Some reason"
  by (auto simp: export_denials_def sorted_classes_def classes_by_value_all split: option.splits)

lemma assert_export_None: "assert_export_allowed (rows_of p captured cs) destination = None \<longleftrightarrow>
    (\<forall>c \<in> set cs \<inter> captured. export_denial_reason (governed_export p c) destination = None)"
  by (induction cs) (auto simp: rows_of_def split: option.splits)

lemma assert_export_Some: "assert_export_allowed (rows_of p captured cs) destination = Some message \<Longrightarrow>
    \<exists>c reason. c \<in> captured \<and> export_denial_reason (governed_export p c) destination = Some reason
      \<and> message = export_denial_message reason"
  by (induction cs) (auto simp: rows_of_def split: option.splits if_splits)

text \<open>The two export gates agree: the one a streaming seam asks during a session lists a denial
  exactly when the one that checks the finished bundle raises, which raises the message of a listed
  denial; only captured classes are listed, each once.\<close>

theorem export_gates_agree:
  assumes "captured \<subseteq> set cs"
  shows "(assert_export_allowed (rows_of p captured cs) destination = None
       \<longleftrightarrow> export_denials p captured destination = [])
    \<and> (\<forall>message. assert_export_allowed (rows_of p captured cs) destination = Some message \<longrightarrow>
         (\<exists>(c, reason) \<in> set (export_denials p captured destination). message = export_denial_message reason))
    \<and> fst ` set (export_denials p captured destination) \<subseteq> captured"
proof -
  have "export_denials p captured destination = [] \<longleftrightarrow>
      (\<forall>c reason. (c, reason) \<notin> set (export_denials p captured destination))"
    by (metis list.set_intros(1) neq_Nil_conv surj_pair empty_iff list.set(1))
  then have nil: "export_denials p captured destination = [] \<longleftrightarrow>
      (\<forall>c \<in> captured. export_denial_reason (governed_export p c) destination = None)"
    by (auto simp: export_denials_iff)
  have "set cs \<inter> captured = captured" using assms by blast
  then show ?thesis using assert_export_Some [of p captured cs destination]
    by (fastforce simp: nil assert_export_None export_denials_iff)
qed

theorem export_gates_agree_witness:
  "export_denials (metadata_only\<lparr>cp_governance := (\<lambda>c. Some (Some \<lparr>ec_allowed = False, ec_destinations = []\<rparr>))\<rparr>)
     {METADATA} (lit ''vendor'') \<noteq> []"
proof -
  let ?p = "metadata_only\<lparr>cp_governance := (\<lambda>c. Some (Some \<lparr>ec_allowed = False, ec_destinations = []\<rparr>))\<rparr>"
  have "assert_export_allowed (rows_of ?p {METADATA} [METADATA]) (lit ''vendor'') \<noteq> None"
    by (simp add: rows_of_def governed_export_def export_denial_reason_def)
  then show ?thesis using export_gates_agree [of "{METADATA}" "[METADATA]" ?p "lit ''vendor''"] by simp
qed

section \<open>The hosted default\<close>

definition HOSTED_UNAPPROVED_METADATA_KEYS :: "ustring list" where
  "HOSTED_UNAPPROVED_METADATA_KEYS = map lit [''gen_ai.provider.name'', ''gen_ai.request.model'',
     ''gen_ai.response.model'', ''gen_ai.system'', ''model'', ''model_name'', ''provider'', ''provider_name'']"

definition unapproved :: "privacy_env \<Rightarrow> attr_key \<times> attr \<Rightarrow> bool" where
  "unapproved E item = (case fst item of Key key \<Rightarrow> pv_lower E key \<in> set HOSTED_UNAPPROVED_METADATA_KEYS
     | Other_Key \<Rightarrow> False)"

lemma size_list_append [simp]: "size_list f (xs @ ys) = size_list f xs + size_list f ys"
  by (induction xs) auto

lemma size_list_rev [simp]: "size_list f (rev xs) = size_list f xs"
  by (induction xs) auto

lemma size_list_snd: "size_list (size \<circ> snd) items \<le> size_list (size_prod g size) items"
  by (induction items) auto

text \<open>
  The work list \<^verbatim>\<open>pending\<close>, its last element first: whether some mapping in it has an unapproved
  key.
\<close>

function hosted_scan :: "privacy_env \<Rightarrow> attr list \<Rightarrow> bool" where
  "hosted_scan E [] = False"
| "hosted_scan E (v # pending) = (case v of
       J_Dict items \<Rightarrow> list_ex (unapproved E) items \<or> hosted_scan E (rev (map snd items) @ pending)
     | J_List vs \<Rightarrow> hosted_scan E (rev vs @ pending)
     | J_Tuple vs \<Rightarrow> hosted_scan E (rev vs @ pending)
     | _ \<Rightarrow> hosted_scan E pending)"
  by pat_completeness auto

termination
  by (relation "measure (\<lambda>(E, pending). size_list size pending)")
    (auto simp: less_Suc_eq_le intro: le_SucI size_list_snd)

text \<open>\<open>dumped\<close> is \<^verbatim>\<open>profile.model_dump(mode="python", exclude_none=True)\<close>.\<close>

definition assert_hosted_metadata_only :: "privacy_env \<Rightarrow> bool \<Rightarrow> bool \<Rightarrow> class_row list \<Rightarrow> attr \<Rightarrow> string option" where
  "assert_hosted_metadata_only E raw_otlp_chunks media_refs rows dumped =
     (if raw_otlp_chunks \<or> media_refs
      then Some ''hosted evidence is limited to metadata; raw OTLP and media references are disabled''
      else if list_ex (\<lambda>row. cr_class row \<noteq> METADATA \<and> cr_captured row) rows
      then Some ''hosted evidence is limited to the metadata capture class''
      else if hosted_scan E [dumped]
      then Some ''provider and model labels require explicit hosted approval''
      else None)"

lemma hosted_scan_items: "hosted_scan E pending \<longleftrightarrow> list_ex (unapproved E) (concat (map nested_items pending))"
proof (induction E pending rule: hosted_scan.induct)
  case (2 E v pending)
  then show ?case by (cases v) (simp_all add: list_ex_iff case_prod_beta bex_Un)
qed simp

text \<open>The hosted check passes exactly the incidents with no raw chunk, no media reference, no
  captured class but metadata, and no provider or model label under any key at any depth of the
  dumped profile.\<close>

theorem hosted_check_is_exact:
  "assert_hosted_metadata_only E raw media rows dumped = None \<longleftrightarrow>
     \<not> raw \<and> \<not> media \<and> list_all (\<lambda>row. \<not> (cr_captured row \<and> cr_class row \<noteq> METADATA)) rows
     \<and> list_all (\<lambda>item. \<not> unapproved E item) (nested_items dumped)"
  by (auto simp: assert_hosted_metadata_only_def hosted_scan_items list_all_iff list_ex_iff)

end
