(* ===== verification/Governance.thy ===== *)
theory Governance
  imports Sanitising
begin

text \<open>
  The governance of journal entries (\<^verbatim>\<open>checkpoint/governance.py\<close>): what an entry must be before a
  live tail shows it or the assembler replays it, and the classes a record shows.

  A validated record is a tree of contract models: \<open>V_Model\<close> has the model's class, its declared
  fields in order and its extra members. Pydantic's \<^verbatim>\<open>model_validate\<close> is a parameter
  (\<open>gv_model\<close>, \<open>gv_time_point\<close>), and so is the Base64 decoder (\<open>gv_base64\<close>); an object
  of a journal is its list of members.
\<close>

section \<open>Contract values\<close>

type_synonym jobject = "(attr_key \<times> attr) list"

datatype model_class =
    C_Adapter | C_Participant | C_Audio_Stream | C_Coverage | C_Operation | C_Event
  | C_Quality_Sample | C_Media_Ref | C_Clock_Domain | C_Clock_Relation
  | C_Error_Record | C_Evidence | C_Causal_Link | C_Quality_Measurement | C_Media_Locator | C_Time_Point
  | C_Other

datatype contract_value =
    V_Model model_class "(string \<times> contract_value) list" jobject
  | V_List "contract_value list"
  | V_Map jobject
  | V_Plain attr

text \<open>\<open>Crashed\<close> is an \<^verbatim>\<open>AttributeError\<close>, which no caller catches; the rest are \<^verbatim>\<open>ValueError\<close>s.\<close>

datatype governance_error = Refused string | Crashed

record raw_chunk =
  rc_chunk_id :: ustring
  rc_signal :: ustring
  rc_content_type :: ustring
  rc_compression :: ustring
  rc_payload :: "nat list"
  rc_sha256 :: "ustring option"

datatype governed_record = Chunk raw_chunk | Contract contract_value

record governance_env =
  gv_privacy :: privacy_env
  gv_model :: "model_class \<Rightarrow> jobject \<Rightarrow> contract_value option"
  gv_time_point :: "jobject \<Rightarrow> bool"
  gv_base64 :: "ustring \<Rightarrow> nat list option"

fun record_model :: "record_kind \<Rightarrow> model_class option" where
  "record_model K_adapter = Some C_Adapter"
| "record_model K_participant = Some C_Participant"
| "record_model K_stream = Some C_Audio_Stream"
| "record_model K_coverage = Some C_Coverage"
| "record_model K_operation = Some C_Operation"
| "record_model K_event = Some C_Event"
| "record_model K_quality_sample = Some C_Quality_Sample"
| "record_model K_media = Some C_Media_Ref"
| "record_model K_clock_domain = Some C_Clock_Domain"
| "record_model K_clock_relation = Some C_Clock_Relation"
| "record_model _ = None"

definition ATTRIBUTE_FIELDS :: "string list" where
  "ATTRIBUTE_FIELDS = [''attributes'', ''resource'', ''instrumentation_scope_attributes'']"

definition SCHEMA_FIELDS :: "string list" where
  "SCHEMA_FIELDS = [''schema_url'', ''resource_schema_url'']"

definition GOVERNED_KINDS :: "string list" where
  "GOVERNED_KINDS = map kind_name [K_adapter, K_participant, K_stream, K_coverage, K_operation, K_event,
     K_quality_sample, K_media, K_clock_domain, K_clock_relation, K_raw_otlp, K_omission, K_policy]"

definition LIMIT_REASONS :: "string list" where
  "LIMIT_REASONS = [''max_capture_bytes'', ''max_raw_otlp_bytes'', ''max_records'', ''max_value_bytes'']"

definition OMISSION_REASONS :: "string list" where
  "OMISSION_REASONS = [''adapter_payload_omitted'', ''capture_class_disabled'',
     ''credential_bearing_locator'', ''invalid_media_locator'', ''typed_field_normalized'',
     ''unobservable_claim'', ''unsafe_attribute_key_or_value'']"

section \<open>Raw OTLP\<close>

definition member :: "string \<Rightarrow> jobject \<Rightarrow> attr option" where
  "member name obj = map_of obj (Key (lit name))"

definition text_member :: "string \<Rightarrow> ustring \<Rightarrow> jobject \<Rightarrow> ustring option" where
  "text_member name missing obj = (case member name obj of
       None \<Rightarrow> Some missing | Some (J_Str t) \<Rightarrow> Some t | Some v \<Rightarrow> None)"

definition CHUNK_FIELDS :: "string list" where
  "CHUNK_FIELDS = [''chunk_id'', ''signal'', ''content_type'', ''compression'', ''sha256'',
     ''privacy_class'', ''payload_base64'']"

text \<open>The field constraints of \<^verbatim>\<open>RawOtlpChunk\<close>.\<close>

definition chunk_valid :: "raw_chunk \<Rightarrow> bool" where
  "chunk_valid c = (1 \<le> length (rc_chunk_id c) \<and> length (rc_chunk_id c) \<le> 256 \<and> rc_signal c \<noteq> []
     \<and> rc_content_type c \<noteq> [] \<and> rc_compression c \<noteq> [] \<and> rc_payload c \<noteq> []
     \<and> (case rc_sha256 c of None \<Rightarrow> True | Some digest \<Rightarrow> hex64 digest))"

definition decode_raw_otlp_value :: "governance_env \<Rightarrow> jobject \<Rightarrow> raw_chunk option" where
  "decode_raw_otlp_value G obj =
     (if \<not> list_all (\<lambda>(k, v). k \<in> set (map (\<lambda>name. Key (lit name)) CHUNK_FIELDS)) obj then None
      else if text_member ''privacy_class'' (lit ''raw_otlp'') obj \<noteq> Some (lit ''raw_otlp'') then None
      else case member ''payload_base64'' obj of
        Some (J_Str encoded) \<Rightarrow>
          (case (gv_base64 G encoded, member ''chunk_id'' obj, member ''signal'' obj,
                 text_member ''content_type'' (lit ''application/x-protobuf'') obj,
                 text_member ''compression'' (lit ''identity'') obj, member ''sha256'' obj) of
             (Some payload, Some (J_Str chunk_id), Some (J_Str signal), Some content_type, Some compression,
                 sha256) \<Rightarrow>
               let chunk = \<lparr>rc_chunk_id = chunk_id, rc_signal = signal, rc_content_type = content_type,
                     rc_compression = compression, rc_payload = payload,
                     rc_sha256 = (case sha256 of Some (J_Str digest) \<Rightarrow> Some digest | _ \<Rightarrow> None)\<rparr>
               in if chunk_valid chunk \<and> (case sha256 of None \<Rightarrow> True | Some (J_Str digest) \<Rightarrow> True
                       | Some J_None \<Rightarrow> True | Some v \<Rightarrow> False)
                  then Some chunk else None
           | _ \<Rightarrow> None)
      | _ \<Rightarrow> None)"

section \<open>Normalised fields\<close>

text \<open>\<^verbatim>\<open>getattr(model, name, None)\<close>: a declared field, else an extra member of that name.\<close>

fun of_attr :: "attr \<Rightarrow> contract_value" where
  "of_attr (J_Dict items) = V_Map items"
| "of_attr v = V_Plain v"

definition get_field :: "(string \<times> contract_value) list \<Rightarrow> jobject \<Rightarrow> string \<Rightarrow> contract_value option" where
  "get_field members extra name = (case map_of members name of
       Some v \<Rightarrow> if v = V_Plain J_None then None else Some v
     | None \<Rightarrow> (case member name extra of
           None \<Rightarrow> None | Some J_None \<Rightarrow> None | Some v \<Rightarrow> Some (of_attr v)))"

definition get_text :: "(string \<times> contract_value) list \<Rightarrow> string \<Rightarrow> ustring option" where
  "get_text members name = (case map_of members name of Some (V_Plain (J_Str t)) \<Rightarrow> Some t | _ \<Rightarrow> None)"

text \<open>The first check that fails.\<close>

fun first_error :: "'e option list \<Rightarrow> 'e option" where
  "first_error [] = None"
| "first_error (Some e # rest) = Some e"
| "first_error (None # rest) = first_error rest"

definition require :: "bool \<Rightarrow> string \<Rightarrow> governance_error option" where
  "require ok message = (if ok then None else Some (Refused message))"

definition check_attributes :: "privacy_env \<Rightarrow> capture_policy \<Rightarrow> contract_value option \<Rightarrow> governance_error option" where
  "check_attributes E p v = (case v of
       None \<Rightarrow> None
     | Some (V_Map items) \<Rightarrow>
         (case sanitize_attributes E p items of
            None \<Rightarrow> Some (Refused ''UnicodeEncodeError'')
          | Some (kept, omissions) \<Rightarrow>
              require (omissions = [] \<and> map (\<lambda>(key, v). (Key key, v)) kept = items)
                ''record contains an unnormalized attribute map'')
     | Some v \<Rightarrow> Some Crashed)"

definition check_schema :: "privacy_env \<Rightarrow> capture_policy \<Rightarrow> contract_value option \<Rightarrow> governance_error option" where
  "check_schema E p v = (case v of
       None \<Rightarrow> None
     | Some (V_Plain (J_Str t)) \<Rightarrow>
         require (sanitize_schema_url E (Some t) (policy_allows p EXTENSION_PAYLOAD) = (Some t, None))
           ''record contains an unnormalized schema URL''
     | Some v \<Rightarrow> Some Crashed)"

definition check_labels :: "(ustring option \<Rightarrow> ustring option) \<Rightarrow> (string \<times> contract_value) list \<Rightarrow> string list
    \<Rightarrow> string \<Rightarrow> governance_error option" where
  "check_labels sanitise members names message =
     require (list_all (\<lambda>name. sanitise (get_text members name) = get_text members name) names) message"

text \<open>A required label: its sanitiser takes a string.\<close>

definition check_text :: "(ustring \<Rightarrow> ustring) \<Rightarrow> (string \<times> contract_value) list \<Rightarrow> string \<Rightarrow> string
    \<Rightarrow> governance_error option" where
  "check_text sanitise members name message =
     check_labels (map_option sanitise) members [name] message"

definition check_measurement :: "(ustring \<Rightarrow> ustring) \<Rightarrow> contract_value \<Rightarrow> governance_error option" where
  "check_measurement sha v = (case v of
       V_Model c members extra \<Rightarrow> first_error
         [check_text (sanitize_measurement_label sha) members ''name'' ''measurement name is not normalized'',
          check_text (sanitize_measurement_unit sha) members ''unit'' ''measurement unit is not normalized'']
     | _ \<Rightarrow> None)"

definition check_measurements :: "(ustring \<Rightarrow> ustring) \<Rightarrow> (string \<times> contract_value) list \<Rightarrow> governance_error option" where
  "check_measurements sha members = (case map_of members ''measurements'' of
       Some (V_List vs) \<Rightarrow> first_error (map (check_measurement sha) vs)
     | _ \<Rightarrow> None)"

definition normal_name :: "(ustring \<Rightarrow> ustring \<times> ustring option) \<Rightarrow> ustring option \<Rightarrow> bool" where
  "normal_name normalise v = (case v of None \<Rightarrow> True | Some t \<Rightarrow> normalise t = (t, None))"

text \<open>The checks of one model by its class.\<close>

fun class_checks :: "privacy_env \<Rightarrow> model_class \<Rightarrow> (string \<times> contract_value) list \<Rightarrow> governance_error option list" where
  "class_checks E C_Event members =
     [require (normal_name (normalize_event_name (pv_sha256 E)) (get_text members ''event_name''))
        ''event name is not normalized'']"
| "class_checks E C_Operation members =
     [require (normal_name (normalize_operation_name (pv_sha256 E)) (get_text members ''operation_name''))
        ''operation name is not normalized'',
      check_labels (sanitize_semantic_label (pv_sha256 E)) members [''status'']
        ''operation status is not normalized'']"
| "class_checks E C_Participant members =
     [check_labels (sanitize_semantic_label (pv_sha256 E)) members [''role'', ''endpoint_kind'']
        ''participant label is not normalized'']"
| "class_checks E C_Audio_Stream members =
     [check_labels (sanitize_semantic_label (pv_sha256 E)) members [''direction'', ''media_kind'']
        ''audio stream label is not normalized'']"
| "class_checks E C_Coverage members =
     [check_labels (sanitize_semantic_label (pv_sha256 E)) members [''signal'', ''availability'', ''reason'']
        ''coverage label is not normalized'']"
| "class_checks E C_Quality_Sample members =
     [check_labels (sanitize_semantic_label (pv_sha256 E)) members [''quality_kind'']
        ''quality kind is not normalized'',
      check_measurements (pv_sha256 E) members]"
| "class_checks E C_Error_Record members =
     [check_text (sanitize_error_label (pv_sha256 E)) members ''code'' ''error code is not normalized'',
      check_labels (sanitize_semantic_label (pv_sha256 E)) members [''category'']
        ''error category is not normalized'']"
| "class_checks E C_Evidence members =
     [check_labels (sanitize_provenance_label (pv_sha256 E)) members
        [''source'', ''observer'', ''method'', ''confidence'', ''availability'']
        ''evidence label is not normalized'',
      check_labels (sanitize_version_label (pv_sha256 E)) members [''method_version'']
        ''evidence method version is not normalized'',
      check_labels (sanitize_source_label (pv_sha256 E)) members [''source_field'']
        ''evidence source field is not normalized'']"
| "class_checks E C_Causal_Link members =
     [check_labels (sanitize_semantic_label (pv_sha256 E)) members [''relationship'']
        ''causal link relationship is not normalized'']"
| "class_checks E C_Clock_Domain members =
     [check_labels (sanitize_semantic_label (pv_sha256 E)) members
        [''kind'', ''observer'', ''scope'', ''synchronization_method'']
        ''clock domain label is not normalized'']"
| "class_checks E C_Clock_Relation members =
     [check_labels (sanitize_semantic_label (pv_sha256 E)) members [''method'']
        ''clock relation method is not normalized'']"
| "class_checks E C_Media_Ref members =
     [check_labels (sanitize_semantic_label (pv_sha256 E)) members [''media_kind'']
        ''media kind is not normalized'',
      check_labels (sanitize_semantic_label (pv_sha256 E)) members [''custodian'']
        ''media custodian is not normalized'']"
| "class_checks E _ members = []"

fun check_model :: "privacy_env \<Rightarrow> capture_policy \<Rightarrow> contract_value \<Rightarrow> governance_error option" where
  "check_model E p (V_Model c members extra) = first_error
     (map (\<lambda>name. check_attributes E p (get_field members extra name)) ATTRIBUTE_FIELDS
      @ map (\<lambda>name. check_schema E p (get_field members extra name)) SCHEMA_FIELDS
      @ class_checks E c members)"
| "check_model E p _ = None"

text \<open>
  The work list of \<^verbatim>\<open>_walk_models\<close>, its last element first. A mapping holds plain values, among
  which there is no model.
\<close>

lemma size_list_rev_map [simp]: "size_list f (map g xs) = size_list (f \<circ> g) xs"
  by (induction xs) auto

lemma size_payload_filter:
  "size_list (size \<circ> snd) (filter P members) \<le> size_list (size_prod g size) members"
  by (induction members) auto

function walk_models :: "contract_value list \<Rightarrow> contract_value list" where
  "walk_models [] = []"
| "walk_models (v # pending) = (case v of
       V_Model c members extra \<Rightarrow>
         v # walk_models (rev (map snd (filter (\<lambda>(name, w). name \<noteq> ''payload'') members)) @ pending)
     | V_List vs \<Rightarrow> walk_models (rev vs @ pending)
     | V_Map items \<Rightarrow> walk_models pending
     | V_Plain a \<Rightarrow> walk_models pending)"
  by pat_completeness auto
termination
  by (relation "measure (size_list size)")
    (auto simp: less_Suc_eq_le intro: le_SucI trans_le_add1 size_payload_filter)

definition validate_normalized_fields :: "privacy_env \<Rightarrow> capture_policy \<Rightarrow> contract_value \<Rightarrow> governance_error option" where
  "validate_normalized_fields E p v = first_error (map (check_model E p) (walk_models [v]))"

section \<open>The classes a record shows\<close>

text \<open>Outcomes in sequence: the first error, or all the classes.\<close>

fun join :: "(governance_error + capture_class set) list \<Rightarrow> governance_error + capture_class set" where
  "join [] = Inr {}"
| "join (Inl e # rest) = Inl e"
| "join (Inr cs # rest) = (case join rest of Inl e \<Rightarrow> Inl e | Inr ds \<Rightarrow> Inr (cs \<union> ds))"

definition key_classes :: "privacy_env \<Rightarrow> bool \<Rightarrow> attr_key \<Rightarrow> governance_error + capture_class set" where
  "key_classes E attribute_map k = (case k of
       Other_Key \<Rightarrow> Inl (Refused ''record contains a non-string object key'')
     | Key key \<Rightarrow>
         if classify_attribute E key \<noteq> METADATA then Inr {classify_attribute E key}
         else if attribute_map \<and> (\<not> is_safe_metadata_key key \<or> is_unobservable_heard_key E key)
         then Inr {EXTENSION_PAYLOAD} else Inr {})"

fun collect_plain :: "privacy_env \<Rightarrow> bool \<Rightarrow> attr \<Rightarrow> governance_error + capture_class set" where
  "collect_plain E attribute_map (J_Dict items) =
     join (map (\<lambda>(k, item). join [key_classes E attribute_map k, collect_plain E False item]) items)"
| "collect_plain E attribute_map (J_List vs) = join (map (collect_plain E False) vs)"
| "collect_plain E attribute_map (J_Tuple vs) = join (map (collect_plain E False) vs)"
| "collect_plain E attribute_map _ = Inr {}"

definition extension_member_ok :: "privacy_env \<Rightarrow> capture_policy \<Rightarrow> attr_key \<times> attr \<Rightarrow> governance_error option" where
  "extension_member_ok E p item = (case item of
       (Other_Key, v) \<Rightarrow> Some (Refused ''model extension contains a sensitive or unsafe field'')
     | (Key key, v) \<Rightarrow>
         if \<not> is_safe_semantic_label key \<or> is_unobservable_heard_key E key
           \<or> classify_attribute E key \<noteq> METADATA
         then Some (Refused ''model extension contains a sensitive or unsafe field'')
         else require (\<exists>kept \<in> set_option (sanitize_attributes E p [item]). snd kept = [] \<and> key \<in> fst ` set (fst kept))
                ''model extension contains an unsafe value'')"

definition validate_model_extra :: "privacy_env \<Rightarrow> capture_policy \<Rightarrow> jobject \<Rightarrow> governance_error option" where
  "validate_model_extra E p extra =
     (if \<not> policy_allows p EXTENSION_PAYLOAD
      then Some (Refused ''model extension requires extension_payload capture'')
      else first_error (map (extension_member_ok E p) extra))"

definition class_named :: "contract_value \<Rightarrow> capture_class option" where
  "class_named v = (case v of V_Plain (J_Str t) \<Rightarrow> find (\<lambda>c. lit (class_value c) = t) all_classes | _ \<Rightarrow> None)"

definition field_classes :: "string \<Rightarrow> contract_value \<Rightarrow> governance_error + capture_class set" where
  "field_classes name v =
     (if v = V_Plain J_None then Inr {}
      else if name = ''capture_class'' then (case class_named v of
          None \<Rightarrow> Inl (Refused ''record has an unsupported capture class'') | Some c \<Rightarrow> Inr {c})
      else if name = ''message'' then Inr {DIAGNOSTIC_PAYLOAD}
      else Inr {})"

definition extra_classes :: "privacy_env \<Rightarrow> capture_policy \<Rightarrow> jobject \<Rightarrow> governance_error + capture_class set" where
  "extra_classes E p extra =
     (if extra = [] then Inr {}
      else case validate_model_extra E p extra of
          Some e \<Rightarrow> Inl e
        | None \<Rightarrow> join [Inr {EXTENSION_PAYLOAD}, collect_plain E False (J_Dict extra)])"

fun collect_classes :: "privacy_env \<Rightarrow> capture_policy \<Rightarrow> bool \<Rightarrow> contract_value \<Rightarrow> governance_error + capture_class set" where
  "collect_classes E p attribute_map (V_Model c members extra) =
     join (extra_classes E p extra
       # map (\<lambda>(name, v). join [field_classes name v, collect_classes E p (name \<in> set ATTRIBUTE_FIELDS) v]) members)"
| "collect_classes E p attribute_map (V_List vs) = join (map (collect_classes E p False) vs)"
| "collect_classes E p attribute_map (V_Map items) = collect_plain E attribute_map (J_Dict items)"
| "collect_classes E p attribute_map (V_Plain a) = collect_plain E attribute_map a"

section \<open>Records\<close>

fun locator_uri :: "contract_value \<Rightarrow> contract_value option" where
  "locator_uri (V_Model c members extra) = (case map_of members ''locator'' of
       Some (V_Model d locator others) \<Rightarrow> map_of locator ''uri'' | _ \<Rightarrow> None)"
| "locator_uri _ = None"

definition portable_uri :: "privacy_env \<Rightarrow> contract_value option \<Rightarrow> bool" where
  "portable_uri E v = (case v of
       None \<Rightarrow> True | Some (V_Plain (J_Str t)) \<Rightarrow> media_locator_safety E t = Portable | Some w \<Rightarrow> False)"

definition validate_and_classify_record :: "governance_env \<Rightarrow> jobject journal_record \<Rightarrow> capture_policy
    \<Rightarrow> governance_error + (governed_record option \<times> capture_class set)" where
  "validate_and_classify_record G entry p = (case jr_value entry of
       None \<Rightarrow> Inr (None, {})
     | Some obj \<Rightarrow>
         if jr_kind entry = K_raw_otlp then
           (case decode_raw_otlp_value G obj of
              None \<Rightarrow> Inl (Refused ''raw OTLP journal record is invalid'')
            | Some chunk \<Rightarrow> Inr (Some (Chunk chunk), {RAW_OTLP}))
         else case record_model (jr_kind entry) of
           None \<Rightarrow> Inl (Refused ''journal record kind has no contract model'')
         | Some model \<Rightarrow> (case gv_model G model obj of
             None \<Rightarrow> Inl (Refused ''journal record is not a valid contract record'')
           | Some rec \<Rightarrow> (case validate_normalized_fields (gv_privacy G) p rec of
               Some e \<Rightarrow> Inl e
             | None \<Rightarrow> (case collect_classes (gv_privacy G) p False rec of
                 Inl e \<Rightarrow> Inl e
               | Inr found \<Rightarrow>
                   let classes = (if model = C_Media_Ref then insert AUDIO found else found) in
                   if model = C_Media_Ref \<and> \<not> portable_uri (gv_privacy G) (locator_uri rec)
                   then Inl (Refused ''media record contains a non-portable locator'')
                   else if \<not> classes \<subseteq> cp_enabled p
                   then Inl (Refused ''journal record retained a capture class disabled by policy'')
                   else Inr (Some (Contract rec), classes)))))"

section \<open>The other entries\<close>

definition capture_policy_of :: "journal_open \<Rightarrow> capture_policy option" where
  "capture_policy_of h =
     (case (those (map class_of_name (jo_enabled_classes h)),
            those (map (\<lambda>(name, g). map_option (\<lambda>c. (c, map_option (\<lambda>x. \<lparr>ec_allowed = je_allowed x,
               ec_destinations = map lit (je_destinations x)\<rparr>) (jg_export g))) (class_of_name name))
              (jo_governance h))) of
        (Some enabled, Some governance) \<Rightarrow> new_policy (set enabled) (map_of (rev governance))
      | _ \<Rightarrow> None)"

definition validate_operation_open :: "governance_env \<Rightarrow> jobject journal_operation_open \<Rightarrow> governance_error option" where
  "validate_operation_open G entry =
     (let name = lit (jp_operation_name entry); digest = map_option lit (jp_operation_name_sha256 entry) in
      if normalize_operation_name (pv_sha256 (gv_privacy G)) name \<noteq> (name, digest)
        \<and> \<not> (name = lit ''framework_operation'' \<and> (case digest of None \<Rightarrow> False | Some d \<Rightarrow> hex64 d))
      then Some (Refused ''operation-open name is not normalized'')
      else require (gv_time_point G (jp_started_at entry))
             ''operation-open timestamp is not a contract time point'')"

definition validate_header :: "journal_open \<Rightarrow> governance_error option" where
  "validate_header h =
     (if jo_version h \<noteq> JOURNAL_FORMAT_VERSION
      then Some (Refused ''journal header has an unsupported format version'')
      else if capture_policy_of h = None
      then Some (Refused ''journal header has invalid capture governance'')
      else require (1 \<le> min (min (jo_max_records h) (jo_max_capture_bytes h))
                          (min (jo_max_raw_otlp_bytes h) (jo_max_value_bytes h)))
             ''journal header declares invalid recorder limits'')"

definition validate_limit :: "journal_limit \<Rightarrow> governance_error option" where
  "validate_limit l =
     (if class_of_name (jl_capture_class l) = None
      then Some (Refused ''limit entry has an unsupported capture class'')
      else require (jl_kind l \<in> set GOVERNED_KINDS \<and> jl_reason l \<in> set LIMIT_REASONS)
             ''limit entry contains an unsupported reason or record kind'')"

definition status_items :: "(string \<times> string) list \<Rightarrow> jobject" where
  "status_items attrs = map (\<lambda>(k, v). (Key (lit k), J_Str (lit v))) attrs"

definition validate_finalize :: "governance_env \<Rightarrow> jobject journal_finalize \<Rightarrow> governance_error option" where
  "validate_finalize G f =
     (let E = gv_privacy G; status = Some (lit (jf_status f)) in
      if sanitize_semantic_label (pv_sha256 E) status \<noteq> status
      then Some (Refused ''finalize status is not normalized'')
      else case sanitize_attributes E metadata_only (status_items (jf_status_attributes f)) of
        None \<Rightarrow> Some (Refused ''UnicodeEncodeError'')
      | Some (kept, omissions) \<Rightarrow>
          if omissions \<noteq> [] \<or> map (\<lambda>(key, v). (Key key, v)) kept \<noteq> status_items (jf_status_attributes f)
          then Some (Refused ''finalize status attributes are not recorder-governed'')
          else if \<not> gv_time_point G (jf_ended f)
          then Some (Refused ''finalize timestamp is not a contract time point'')
          else require (case jf_first_limit_reason f of None \<Rightarrow> True | Some r \<Rightarrow> r \<in> set LIMIT_REASONS)
                 ''finalize entry has an unsupported limit reason'')"

definition validate_omission :: "journal_omission \<Rightarrow> governance_error option" where
  "validate_omission m =
     (if class_of_name (jm_capture_class m) = None
      then Some (Refused ''omission has an unsupported capture class'')
      else require (hex64 (lit (jm_field_key_sha256 m)) \<and> jm_reason m \<in> set OMISSION_REASONS)
             ''omission contains unsupported metadata'')"

fun validate_nonrecord_entry :: "governance_env \<Rightarrow> jobject journal_entry \<Rightarrow> governance_error option" where
  "validate_nonrecord_entry G (Open_Entry h) = validate_header h"
| "validate_nonrecord_entry G (Operation_Open_Entry x) = validate_operation_open G x"
| "validate_nonrecord_entry G (Limit_Entry l) = validate_limit l"
| "validate_nonrecord_entry G (Exhausted_Entry reason) =
     require (reason = REASON_JOURNAL_FULL) ''exhausted entry has an unsupported reason''"
| "validate_nonrecord_entry G (Finalize_Entry f) = validate_finalize G f"
| "validate_nonrecord_entry G (Record_Entry r) = first_error (map validate_omission (jr_omissions r))"

section \<open>What an accepted record holds\<close>

fun submodels :: "contract_value \<Rightarrow> contract_value list" where
  "submodels (V_Model c members extra) = V_Model c members extra
     # concat (map (\<lambda>(name, v). if name = ''payload'' then [] else submodels v) members)"
| "submodels (V_List vs) = concat (map submodels vs)"
| "submodels _ = []"

lemma walk_models_submodels: "set (walk_models pending) = set (concat (map submodels pending))"
proof (induction pending rule: walk_models.induct)
  case (2 v pending)
  show ?case
  proof (cases v)
    case (V_Model c members extra)
    then show ?thesis using 2(1) [OF V_Model] by (force split: if_splits)
  next
    case (V_List vs)
    then show ?thesis using 2(2) [OF V_List] by auto
  next
    case (V_Map items)
    then show ?thesis using 2(3) [OF V_Map] by simp
  next
    case (V_Plain a)
    then show ?thesis using 2(4) [OF V_Plain] by simp
  qed
qed simp

text \<open>Every member of every mapping of a record, at any depth.\<close>

fun record_items :: "contract_value \<Rightarrow> (attr_key \<times> attr) list" where
  "record_items (V_Model c members extra) =
     concat (map (\<lambda>(name, v). record_items v) members) @ nested_items (J_Dict extra)"
| "record_items (V_List vs) = concat (map record_items vs)"
| "record_items (V_Map items) = nested_items (J_Dict items)"
| "record_items (V_Plain a) = nested_items a"

lemma first_error_None: "first_error es = None \<longleftrightarrow> (\<forall>e \<in> set es. e = None)"
  by (induction es rule: first_error.induct) auto

lemma require_None [simp]: "require ok message = None \<longleftrightarrow> ok"
  by (simp add: require_def)

lemma join_Inr: "join rs = Inr cs \<Longrightarrow> r \<in> set rs \<Longrightarrow> \<exists>ds. r = Inr ds \<and> ds \<subseteq> cs"
proof (induction rs arbitrary: cs rule: join.induct)
  case (3 ds rest)
  then show ?case by (auto split: sum.splits)
qed auto

definition classed :: "privacy_env \<Rightarrow> capture_class set \<Rightarrow> attr_key \<Rightarrow> bool" where
  "classed E cs k = (\<exists>key. k = Key key \<and> classify_attribute E key \<in> insert METADATA cs)"

lemma classed_mono: "classed E cs k \<Longrightarrow> cs \<subseteq> ds \<Longrightarrow> classed E ds k"
  by (auto simp: classed_def)

lemma key_classes_classed: "key_classes E m k = Inr cs \<Longrightarrow> classed E cs k"
  by (auto simp: key_classes_def classed_def split: attr_key.splits if_splits)

lemma join_classed:
  assumes "join rs = Inr cs" "r \<in> set rs" "\<And>ds. r = Inr ds \<Longrightarrow> classed E ds k"
  shows "classed E cs k"
proof -
  obtain ds where "r = Inr ds" "ds \<subseteq> cs" using join_Inr [OF assms(1,2)] by auto
  then show ?thesis using assms(3) [of ds] classed_mono by auto
qed

lemma join_item:
  "join (map f xs) = Inr cs \<Longrightarrow> x \<in> set xs \<Longrightarrow> (\<And>ds. f x = Inr ds \<Longrightarrow> classed E ds k) \<Longrightarrow> classed E cs k"
  by (erule join_classed [where r = "f x"]) auto

lemma join_cons_item:
  "join (r # map f xs) = Inr cs \<Longrightarrow> x \<in> set xs \<Longrightarrow> (\<And>ds. f x = Inr ds \<Longrightarrow> classed E ds k) \<Longrightarrow> classed E cs k"
  by (erule join_classed [where r = "f x"]) (simp_all del: join.simps)

lemma join_cons_item_Inr: "join (r # map f xs) = Inr cs \<Longrightarrow> x \<in> set xs \<Longrightarrow> \<exists>ds. f x = Inr ds"
  using join_Inr [of "r # map f xs" cs "f x"] by (auto simp del: join.simps)

lemma join_cons_head:
  "join (r # rs) = Inr cs \<Longrightarrow> (\<And>ds. r = Inr ds \<Longrightarrow> classed E ds k) \<Longrightarrow> classed E cs k"
  by (erule join_classed [where r = r]) (simp_all del: join.simps)

lemma join_second:
  "join [r, r'] = Inr cs \<Longrightarrow> (\<And>ds. r' = Inr ds \<Longrightarrow> classed E ds k) \<Longrightarrow> classed E cs k"
  by (erule join_classed [where r = r']) (simp_all del: join.simps)

lemma collect_plain_classed:
  "collect_plain E m a = Inr cs \<Longrightarrow> (k, v) \<in> set (nested_items a) \<Longrightarrow> classed E cs k"
proof (induction E m a arbitrary: cs rule: collect_plain.induct)
  case (1 E m items)
  let ?f = "\<lambda>(k, item). join [key_classes E m k, collect_plain E False item]"
  have items: "join (map ?f items) = Inr cs" using "1.prems"(1) by (simp only: collect_plain.simps)
  from "1.prems"(2) consider "(k, v) \<in> set items" | k' w where "(k', w) \<in> set items" "(k, v) \<in> set (nested_items w)"
    by auto
  then show ?case
  proof cases
    case 1
    show ?thesis
      by (rule join_item [OF items 1], simp only: prod.case, erule join_cons_head, erule key_classes_classed)
  next
    case 2
    show ?thesis
      by (rule join_item [OF items 2(1)], simp only: prod.case, erule join_second,
          rule "1.IH" [OF 2(1) refl _ 2(2)])
  qed
next
  case (2 E m vs)
  then obtain x where x: "x \<in> set vs" "(k, v) \<in> set (nested_items x)" by auto
  show ?case by (rule join_item [OF _ x(1)]) (use 2 x in auto)
next
  case (3 E m vs)
  then obtain x where x: "x \<in> set vs" "(k, v) \<in> set (nested_items x)" by auto
  show ?case by (rule join_item [OF _ x(1)]) (use 3 x in auto)
qed auto

lemma collect_classed:
  "collect_classes E p m v = Inr cs \<Longrightarrow> (k, w) \<in> set (record_items v) \<Longrightarrow> classed E cs k"
proof (induction E p m v arbitrary: cs rule: collect_classes.induct)
  case (1 E p m c members extra)
  let ?f = "\<lambda>(name, v). join [field_classes name v, collect_classes E p (name \<in> set ATTRIBUTE_FIELDS) v]"
  have all: "join (extra_classes E p extra # map ?f members) = Inr cs"
    using "1.prems"(1) by (simp only: collect_classes.simps)
  from "1.prems"(2) consider name v where "(name, v) \<in> set members" "(k, w) \<in> set (record_items v)"
    | "(k, w) \<in> set (nested_items (J_Dict extra))" by auto
  then show ?case
  proof cases
    case (1 name v)
    show ?thesis
      by (rule join_cons_item [OF all 1(1)], simp only: prod.case, erule join_second,
          rule "1.IH" [OF 1(1) refl _ 1(2)])
  next
    case 2
    show ?thesis
    proof (rule join_cons_head [OF all])
      fix ds assume ds: "extra_classes E p extra = Inr ds"
      have "join [Inr {EXTENSION_PAYLOAD}, collect_plain E False (J_Dict extra)] = Inr ds"
        using ds 2 unfolding extra_classes_def
        by (simp del: join.simps collect_plain.simps split: if_splits option.splits)
      then show "classed E ds k" by (rule join_second) (erule collect_plain_classed [OF _ 2])
    qed
  qed
next
  case (2 E p m vs)
  then obtain x where x: "x \<in> set vs" "(k, w) \<in> set (record_items x)" by auto
  show ?case by (rule join_item [OF _ x(1)]) (use 2 x in auto)
next
  case (3 E p m items)
  then show ?case using collect_plain_classed by (metis collect_classes.simps(3) record_items.simps(3))
next
  case (4 E p m a)
  then show ?case using collect_plain_classed by (metis collect_classes.simps(4) record_items.simps(4))
qed

text \<open>The judgement on one model of an accepted record.\<close>

definition attributes_governed :: "privacy_env \<Rightarrow> capture_policy \<Rightarrow> jobject \<Rightarrow> bool" where
  "attributes_governed E p items =
     list_all (\<lambda>(k, v). case k of Key key \<Rightarrow> governed E p key v | Other_Key \<Rightarrow> False) items"

definition model_governed :: "privacy_env \<Rightarrow> capture_policy \<Rightarrow> contract_value \<Rightarrow> bool" where
  "model_governed E p m = (case m of
       V_Model c members extra \<Rightarrow>
         list_all (\<lambda>name. case get_field members extra name of
             None \<Rightarrow> True | Some (V_Map items) \<Rightarrow> attributes_governed E p items | Some w \<Rightarrow> False) ATTRIBUTE_FIELDS
         \<and> (extra = [] \<or> policy_allows p EXTENSION_PAYLOAD \<and> attributes_governed E p extra)
         \<and> (c = C_Event \<longrightarrow> (case get_text members ''event_name'' of None \<Rightarrow> True | Some t \<Rightarrow> is_safe_event_name t))
         \<and> (c = C_Operation \<longrightarrow> (case get_text members ''operation_name'' of None \<Rightarrow> True
               | Some t \<Rightarrow> is_safe_operation_name t))
     | _ \<Rightarrow> True)"

lemma sanitize_unchanged:
  assumes "sanitize_attributes E p items = Some (kept, [])" "map (\<lambda>(key, v). (Key key, v)) kept = items"
  shows "attributes_governed E p items"
proof -
  have "governed E p key v" if "(key, v) \<in> set kept" for key v
    using that sanitize_parts [OF assms(1)] governed_part_governed by metis
  then show ?thesis by (auto simp: attributes_governed_def list_all_iff simp flip: assms(2))
qed

lemma check_attributes_governed: "check_attributes E p (Some w) = None \<Longrightarrow>
    \<exists>items. w = V_Map items \<and> attributes_governed E p items"
  by (auto simp: check_attributes_def split: contract_value.splits option.splits intro: sanitize_unchanged)

lemma extension_member_governed:
  assumes "extension_member_ok E p item = None"
  shows "\<exists>key v. item = (Key key, v) \<and> governed E p key v"
proof -
  obtain key v where item: "item = (Key key, v)"
    using assms by (cases item; cases "fst item") (auto simp: extension_member_ok_def)
  obtain kept where k: "sanitize_attributes E p [item] = Some (kept, [])" "key \<in> fst ` set kept"
    using assms by (fastforce simp: extension_member_ok_def item split: if_splits simp del: sanitize_attributes.simps)
  have "kept = governed_part E p [item]" using sanitize_parts [OF k(1)] by simp
  with k(2) show ?thesis by (auto simp: item split: if_splits)
qed

lemma extra_governed:
  assumes "validate_model_extra E p extra = None"
  shows "policy_allows p EXTENSION_PAYLOAD \<and> attributes_governed E p extra"
proof -
  have "extension_member_ok E p item = None" if "item \<in> set extra" for item
    using assms that by (auto simp: validate_model_extra_def first_error_None split: if_splits)
  then have "\<exists>key v. item = (Key key, v) \<and> governed E p key v" if "item \<in> set extra" for item
    using that extension_member_governed by blast
  then have "attributes_governed E p extra"
    unfolding attributes_governed_def list_all_iff by fastforce
  then show ?thesis using assms by (simp add: validate_model_extra_def split: if_splits)
qed

lemma collect_extras:
  "collect_classes E p m v = Inr cs \<Longrightarrow> V_Model c members extra \<in> set (submodels v) \<Longrightarrow>
     extra = [] \<or> validate_model_extra E p extra = None"
proof (induction E p m v arbitrary: cs rule: collect_classes.induct)
  case (1 E p m c' members' extra')
  let ?f = "\<lambda>(name, v). join [field_classes name v, collect_classes E p (name \<in> set ATTRIBUTE_FIELDS) v]"
  have all: "join (extra_classes E p extra' # map ?f members') = Inr cs"
    using "1.prems"(1) by (simp only: collect_classes.simps)
  from "1.prems"(2) consider "extra = extra'"
    | name v where "(name, v) \<in> set members'" "V_Model c members extra \<in> set (submodels v)"
    by (auto split: if_splits)
  then show ?case
  proof cases
    case 1
    obtain ds where "extra_classes E p extra' = Inr ds" using join_Inr [OF all, of "extra_classes E p extra'"] by auto
    then show ?thesis unfolding 1 by (simp add: extra_classes_def split: if_splits option.splits del: join.simps)
  next
    case (2 name v)
    obtain ds where d: "join [field_classes name v, collect_classes E p (name \<in> set ATTRIBUTE_FIELDS) v] = Inr ds"
      using join_cons_item_Inr [OF all 2(1)] by (auto simp del: join.simps)
    obtain ds' where "collect_classes E p (name \<in> set ATTRIBUTE_FIELDS) v = Inr ds'"
      using join_Inr [OF d, of "collect_classes E p (name \<in> set ATTRIBUTE_FIELDS) v"] by auto
    then show ?thesis by (rule "1.IH" [OF 2(1) refl _ 2(2)])
  qed
next
  case (2 E p m vs)
  then obtain x where x: "x \<in> set vs" "V_Model c members extra \<in> set (submodels x)" by auto
  obtain ds where d: "collect_classes E p False x = Inr ds"
    using join_Inr [of "map (collect_classes E p False) vs" cs "collect_classes E p False x"] 2 x(1) by auto
  show ?case by (rule "2.IH" [OF x(1) d x(2)])
qed auto

lemma accepted_parts:
  assumes "validate_and_classify_record G entry p = Inr (Some (Contract rec), classes)"
  shows "classes \<subseteq> cp_enabled p" "validate_normalized_fields (gv_privacy G) p rec = None"
    "\<exists>found \<subseteq> classes. collect_classes (gv_privacy G) p False rec = Inr found"
  using assms by (auto simp: validate_and_classify_record_def Let_def
      split: option.splits if_splits sum.splits)

lemma normal_event: "normal_name (normalize_event_name sha) (Some t) \<Longrightarrow> is_safe_event_name t"
  and normal_operation: "normal_name (normalize_operation_name sha) (Some t) \<Longrightarrow> is_safe_operation_name t"
  by (simp_all add: normal_name_def normalize_event_name_def normalize_operation_name_def split: if_splits)

lemma checked_model_governed:
  assumes "check_model E p (V_Model c members extra) = None"
    and "extra = [] \<or> validate_model_extra E p extra = None"
  shows "model_governed E p (V_Model c members extra)"
proof -
  have attrs: "case get_field members extra name of None \<Rightarrow> True
      | Some (V_Map items) \<Rightarrow> attributes_governed E p items | Some w \<Rightarrow> False" if "name \<in> set ATTRIBUTE_FIELDS" for name
  proof (cases "get_field members extra name")
    case (Some w)
    have "check_attributes E p (get_field members extra name) \<in> set
        (map (\<lambda>name. check_attributes E p (get_field members extra name)) ATTRIBUTE_FIELDS
         @ map (\<lambda>name. check_schema E p (get_field members extra name)) SCHEMA_FIELDS @ class_checks E c members)"
      using that by simp
    then have "check_attributes E p (Some w) = None"
      using assms(1) [unfolded check_model.simps first_error_None] Some by fastforce
    from check_attributes_governed [OF this] show ?thesis using Some by auto
  qed simp
  have checks: "list_all (\<lambda>e. e = None) (class_checks E c members)"
    using assms(1) [unfolded check_model.simps first_error_None] by (auto simp: list_all_iff)
  have "case get_text members ''event_name'' of None \<Rightarrow> True | Some t \<Rightarrow> is_safe_event_name t" if "c = C_Event"
    using checks that by (auto split: option.splits intro: normal_event)
  moreover have "case get_text members ''operation_name'' of None \<Rightarrow> True | Some t \<Rightarrow> is_safe_operation_name t"
    if "c = C_Operation"
    using checks that by (auto split: option.splits intro: normal_operation)
  ultimately show ?thesis
    using attrs assms(2) extra_governed by (auto simp: model_governed_def list_all_iff)
qed

lemma accepted_models_governed:
  assumes "validate_and_classify_record G entry p = Inr (Some (Contract rec), classes)"
    and "m \<in> set (submodels rec)"
  shows "model_governed (gv_privacy G) p m"
proof (cases m)
  case (V_Model c members extra)
  obtain found where "collect_classes (gv_privacy G) p False rec = Inr found"
    using accepted_parts(3) [OF assms(1)] by blast
  from collect_extras [OF this] assms(2) have "extra = [] \<or> validate_model_extra (gv_privacy G) p extra = None"
    unfolding V_Model .
  moreover have "m \<in> set (walk_models [rec])" using assms(2) walk_models_submodels [of "[rec]"] by (simp del: walk_models.simps)
  then have "check_model (gv_privacy G) p m = None"
    using accepted_parts(2) [OF assms(1)] by (simp add: validate_normalized_fields_def first_error_None)
  ultimately show ?thesis unfolding V_Model by (intro checked_model_governed)
qed (simp_all add: model_governed_def)


definition sample_event :: contract_value where
  "sample_event = V_Model C_Event
     [(''event_name'', V_Plain (J_Str (lit ''framework.event''))),
      (''attributes'', V_Map [(Key (lit ''earshot.metric.n''), J_Int 3)])] []"

definition sample_governance_env :: governance_env where
  "sample_governance_env = \<lparr>gv_privacy = plain_env, gv_model = (\<lambda>c obj. Some sample_event),
     gv_time_point = (\<lambda>obj. True), gv_base64 = (\<lambda>t. None)\<rparr>"

definition sample_event_entry :: "jobject journal_record" where
  "sample_event_entry = \<lparr>jr_kind = K_event, jr_value = Some [], jr_omissions = [],
     jr_retained_classes = [], jr_replaces_index = None\<rparr>"

lemma sample_event_accepted:
  "validate_and_classify_record sample_governance_env sample_event_entry metadata_only
     = Inr (Some (Contract sample_event), {})"
proof -
  have s: "sanitize_attributes plain_env metadata_only [(Key (lit ''earshot.metric.n''), J_Int 3)]
      = Some ([(lit ''earshot.metric.n'', J_Int 3)], [])"
    using sanitize_all_governed [of "[(lit ''earshot.metric.n'', J_Int 3)]" plain_env metadata_only] metric_governed
    by simp
  have k: "is_safe_metadata_key (lit ''earshot.metric.n'')"
    by (simp add: is_safe_metadata_key_def SAFE_PREFIXES_def)
  have h: "\<not> is_unobservable_heard_key plain_env (lit ''earshot.metric.n'')"
    by (simp add: is_unobservable_heard_key_def plain_env_def lit_def starts_with_def ends_with_def)
  have e: "normal_name (normalize_event_name sha) (Some (lit ''framework.event''))" for sha
    by (simp add: normal_name_def normalize_event_name_def is_safe_event_name_def SAFE_EVENT_NAMES_def)
  have w: "walk_models [sample_event] = [sample_event]" by (simp add: sample_event_def)
  have n: "validate_normalized_fields plain_env metadata_only sample_event = None"
    by (simp add: validate_normalized_fields_def w)
      (simp add: sample_event_def ATTRIBUTE_FIELDS_def SCHEMA_FIELDS_def get_field_def get_text_def
        member_def check_attributes_def check_schema_def s e require_def del: sanitize_attributes.simps)
  have c: "collect_classes plain_env metadata_only False sample_event = Inr {}"
    by (simp add: sample_event_def extra_classes_def field_classes_def key_classes_def
        known_is_metadata [OF k] k h ATTRIBUTE_FIELDS_def)
  show ?thesis
    by (simp add: validate_and_classify_record_def sample_event_entry_def sample_governance_env_def n c)
qed


end
