(* ===== verification/ExportGate.thy ===== *)
theory ExportGate
  imports Governance LiveTail
begin

text \<open>
  The export gate of a live stream (\<^verbatim>\<open>_ExportGate\<close>, \<^verbatim>\<open>_preflight_live_entry\<close>,
  \<^verbatim>\<open>_governed_entry_event\<close> and \<^verbatim>\<open>_entry_event\<close> of \<^verbatim>\<open>live.py\<close>): which journal entries a
  subscriber is shown and which are withheld. A payload is the JSON object before it is rendered.
\<close>

section \<open>The gate\<close>

definition UNREADABLE_POLICY :: string where "UNREADABLE_POLICY = ''export_policy_unreadable''"
definition LIVE_TAIL_DESTINATION :: ustring where "LIVE_TAIL_DESTINATION = lit ''live_tail''"

type_synonym live_denial = "capture_class option \<times> string"

record export_gate =
  xg_destination :: ustring
  xg_policy :: "capture_policy option"
  xg_captured :: "capture_class set"

definition new_gate :: "journal_open \<Rightarrow> ustring \<Rightarrow> export_gate" where
  "new_gate header destination = \<lparr>xg_destination = destination, xg_policy = capture_policy_of header,
     xg_captured = {METADATA}\<rparr>"

definition declared_denials :: "export_gate \<Rightarrow> capture_class list" where
  "declared_denials gate = (case xg_policy gate of
       None \<Rightarrow> []
     | Some p \<Rightarrow> map fst (export_denials p (cp_enabled p) (xg_destination gate)))"

text \<open>The loop over the declared classes: a name that is not a class makes the policy unreadable.\<close>

fun absorb_names :: "string list \<Rightarrow> export_gate \<Rightarrow> export_gate" where
  "absorb_names [] gate = gate"
| "absorb_names (name # names) gate = (case class_of_name name of
       Some c \<Rightarrow> absorb_names names (gate\<lparr>xg_captured := insert c (xg_captured gate)\<rparr>)
     | None \<Rightarrow> absorb_names names (gate\<lparr>xg_policy := None\<rparr>))"

definition absorb_record :: "governance_env \<Rightarrow> jobject journal_record \<Rightarrow> capture_class set option \<Rightarrow> export_gate
    \<Rightarrow> governance_error + export_gate" where
  "absorb_record G r observed gate =
     (let gate = absorb_names (jr_retained_classes r) gate in
      case xg_policy gate of
        None \<Rightarrow> Inr gate
      | Some p \<Rightarrow> (case observed of
          Some cs \<Rightarrow> Inr (gate\<lparr>xg_captured := xg_captured gate \<union> cs\<rparr>)
        | None \<Rightarrow> (case validate_and_classify_record G r p of
            Inr (body, cs) \<Rightarrow> Inr (gate\<lparr>xg_captured := xg_captured gate \<union> cs\<rparr>)
          | Inl (Refused m) \<Rightarrow> Inr (gate\<lparr>xg_policy := None\<rparr>)
          | Inl Crashed \<Rightarrow> Inl Crashed)))"

definition gate_denials :: "export_gate \<Rightarrow> live_denial list" where
  "gate_denials gate = (case xg_policy gate of
       None \<Rightarrow> [(None, UNREADABLE_POLICY)]
     | Some p \<Rightarrow> map (\<lambda>(c, reason). (Some c, reason)) (export_denials p (xg_captured gate) (xg_destination gate)))"

definition gate_admit :: "governance_env \<Rightarrow> jobject journal_entry \<Rightarrow> capture_class set option \<Rightarrow> export_gate
    \<Rightarrow> governance_error + (live_denial list \<times> export_gate)" where
  "gate_admit G entry observed gate = (case entry of
       Record_Entry r \<Rightarrow> (case absorb_record G r observed gate of
           Inl e \<Rightarrow> Inl e | Inr gate' \<Rightarrow> Inr (gate_denials gate', gate'))
     | _ \<Rightarrow> Inr (gate_denials gate, gate))"

definition fail_closed :: "export_gate \<Rightarrow> live_denial list \<times> export_gate" where
  "fail_closed gate = ([(None, UNREADABLE_POLICY)], gate\<lparr>xg_policy := None\<rparr>)"

definition preflight_live_entry :: "governance_env \<Rightarrow> jobject journal_entry \<Rightarrow> capture_policy \<Rightarrow> bool
    \<Rightarrow> governance_error + capture_class set" where
  "preflight_live_entry G entry p allow_open =
     (if is_open entry \<and> \<not> allow_open
      then Inl (Refused ''journal header is only valid at sequence 1'')
      else case validate_nonrecord_entry G entry of
        Some e \<Rightarrow> Inl e
      | None \<Rightarrow> (case entry of
          Record_Entry r \<Rightarrow> (case validate_and_classify_record G r p of
              Inl e \<Rightarrow> Inl e | Inr (body, cs) \<Rightarrow> Inr cs)
        | _ \<Rightarrow> Inr {}))"

section \<open>Payloads\<close>

definition js :: "string \<Rightarrow> attr" where "js t = J_Str (lit t)"
definition jopt :: "('a \<Rightarrow> attr) \<Rightarrow> 'a option \<Rightarrow> attr" where
  "jopt f v = (case v of None \<Rightarrow> J_None | Some x \<Rightarrow> f x)"
definition obj :: "(string \<times> attr) list \<Rightarrow> attr" where
  "obj members = J_Dict (map (\<lambda>(name, v). (Key (lit name), v)) members)"

text \<open>\<^verbatim>\<open>d[name] = v\<close>.\<close>

definition put_member :: "string \<Rightarrow> attr \<Rightarrow> jobject \<Rightarrow> jobject" where
  "put_member name v d =
     (if Key (lit name) \<in> fst ` set d
      then map (\<lambda>(k, w). (k, if k = Key (lit name) then v else w)) d
      else d @ [(Key (lit name), v)])"

definition raw_payload_value :: "jobject \<Rightarrow> jobject" where
  "raw_payload_value v =
     put_member ''payload_base64_length'' (J_Int (case member ''payload_base64'' v of
         Some (J_Str encoded) \<Rightarrow> int (length encoded) | _ \<Rightarrow> 0))
       (put_member ''payload_withheld'' (J_Bool True)
         (filter (\<lambda>(k, item). k \<noteq> Key (lit ''payload_base64'')) v))"

definition record_payload :: "jobject journal_record \<Rightarrow> attr" where
  "record_payload r = obj
     [(''kind'', js (kind_name (jr_kind r))),
      (''value'', jopt (\<lambda>v. J_Dict (if jr_kind r = K_raw_otlp then raw_payload_value v else v)) (jr_value r)),
      (''supersedes_index'', jopt (\<lambda>i. J_Int (int i)) (jr_replaces_index r)),
      (''omissions'', J_List (map (\<lambda>m. obj [(''field_key_sha256'', js (jm_field_key_sha256 m)),
          (''capture_class'', js (jm_capture_class m)), (''reason'', js (jm_reason m))]) (jr_omissions r))),
      (''retained_classes'', J_List (map js (jr_retained_classes r)))]"

definition operation_open_payload :: "jobject journal_operation_open \<Rightarrow> attr" where
  "operation_open_payload x = obj
     [(''operation_id'', js (jp_operation_id x)), (''operation_name'', js (jp_operation_name x)),
      (''started_at'', J_Dict (jp_started_at x)), (''participant_id'', jopt js (jp_participant_id x)),
      (''stream_id'', jopt js (jp_stream_id x)), (''turn_id'', jopt js (jp_turn_id x)),
      (''trace_id'', jopt js (jp_trace_id x)), (''span_id'', jopt js (jp_span_id x)),
      (''parent_span_id'', jopt js (jp_parent_span_id x)), (''parent_scope'', js (jp_parent_scope x)),
      (''status'', js ''unknown''), (''ended_at'', J_None), (''duration_nano'', J_None),
      (''end_observed'', J_Bool False)]"

text \<open>\<open>None\<close> is the error for a header after sequence 1.\<close>

fun project_entry :: "jobject journal_entry \<Rightarrow> (event_name \<times> attr) option" where
  "project_entry (Record_Entry r) = Some (Event_Record, record_payload r)"
| "project_entry (Operation_Open_Entry x) = Some (Event_Operation_Open, operation_open_payload x)"
| "project_entry (Limit_Entry l) = Some (Event_Limit, obj
     [(''reason'', js (jl_reason l)), (''kind'', js (jl_kind l)), (''capture_class'', js (jl_capture_class l)),
      (''estimated_bytes'', J_Int (int (jl_estimated_bytes l))), (''whole_record'', J_Bool (jl_whole_record l)),
      (''freeze'', J_Bool (jl_freeze l))])"
| "project_entry (Exhausted_Entry reason) = Some (Event_Exhausted, obj
     [(''reason'', js reason), (''journal_complete'', J_Bool False),
      (''note'', js ''the journal reached its cap; later facts are not recorded'')])"
| "project_entry (Finalize_Entry f) = Some (Event_Finalize, obj
     [(''status'', js (jf_status f)), (''ended_at'', J_Dict (jf_ended f)),
      (''journal_complete'', J_Bool (jf_journal_complete f)),
      (''first_limit_reason'', jopt js (jf_first_limit_reason f)),
      (''truncated_records'', J_Int (int (jf_truncated_records f))),
      (''artifact_available'', J_Bool False),
      (''note'', js ''the recorder closed; the immutable artifact arrives separately through /v1/incidents'')])"
| "project_entry (Open_Entry h) = None"

fun entry_name :: "jobject journal_entry \<Rightarrow> string" where
  "entry_name (Record_Entry r) = ''record''"
| "entry_name (Operation_Open_Entry x) = ''operation_open''"
| "entry_name (Limit_Entry l) = ''limit''"
| "entry_name (Exhausted_Entry reason) = ''exhausted''"
| "entry_name (Finalize_Entry f) = ''finalize''"
| "entry_name (Open_Entry h) = ''unknown''"

fun entry_kind :: "jobject journal_entry \<Rightarrow> record_kind option" where
  "entry_kind (Record_Entry r) = Some (jr_kind r)"
| "entry_kind _ = None"

definition withheld_payload :: "jobject journal_entry \<Rightarrow> live_denial list \<Rightarrow> attr" where
  "withheld_payload entry denials = obj
     [(''entry'', js (entry_name entry)), (''kind'', jopt (\<lambda>k. js (kind_name k)) (entry_kind entry)),
      (''destination'', J_Str LIVE_TAIL_DESTINATION),
      (''denied_capture_classes'', J_List (map (\<lambda>(c, reason).
          obj [(''capture_class'', jopt (\<lambda>c. js (class_value c)) c), (''reason'', js reason)]) denials)),
      (''note'', js ''a fact was admitted at this sequence and its content is not permitted to leave this process for this destination'')]"

section \<open>A governed entry\<close>

definition carries_evidence :: "jobject journal_entry \<Rightarrow> bool" where
  "carries_evidence entry = (case entry of Record_Entry r \<Rightarrow> True | Operation_Open_Entry x \<Rightarrow> True | _ \<Rightarrow> False)"

text \<open>
  The event of one entry and the gate after it; the left side is an exception that leaves the
  function.
\<close>

definition governed_entry_event :: "governance_env \<Rightarrow> jobject journal_entry \<Rightarrow> capture_class set option
    \<Rightarrow> export_gate \<Rightarrow> governance_error + ((event_name \<times> attr) \<times> export_gate)" where
  "governed_entry_event G entry observed gate =
     (case (case validate_nonrecord_entry G entry of
              Some Crashed \<Rightarrow> Inl Crashed
            | Some (Refused m) \<Rightarrow> Inr (True, fail_closed gate)
            | None \<Rightarrow> (case gate_admit G entry observed gate of
                Inl Crashed \<Rightarrow> Inl Crashed
              | Inl (Refused m) \<Rightarrow> Inr (True, fail_closed gate)
              | Inr admitted \<Rightarrow> Inr (False, admitted))) of
        Inl e \<Rightarrow> Inl e
      | Inr (invalid, denials, gate') \<Rightarrow>
          if invalid \<or> denials \<noteq> [] \<and> carries_evidence entry
          then Inr ((Event_Withheld, withheld_payload entry denials), gate')
          else (case project_entry entry of
              None \<Rightarrow> Inl (Refused ''journal header cannot be emitted after sequence 1'')
            | Some event \<Rightarrow> Inr (event, gate')))"

text \<open>A journal's entries after its header, in order.\<close>

fun gate_run :: "governance_env \<Rightarrow> export_gate \<Rightarrow> jobject journal_entry list
    \<Rightarrow> governance_error + ((event_name \<times> attr) list \<times> export_gate)" where
  "gate_run G gate [] = Inr ([], gate)"
| "gate_run G gate (entry # entries) = (case governed_entry_event G entry None gate of
       Inl e \<Rightarrow> Inl e
     | Inr (event, gate') \<Rightarrow> (case gate_run G gate' entries of
         Inl e \<Rightarrow> Inl e
       | Inr (events, gate'') \<Rightarrow> Inr (event # events, gate'')))"

section \<open>Nothing restricted is shown\<close>

text \<open>The classes an entry shows or declares, once they can be read.\<close>

definition entry_classes :: "governance_env \<Rightarrow> capture_policy \<Rightarrow> jobject journal_entry \<Rightarrow> capture_class set option" where
  "entry_classes G p entry = (case entry of
       Record_Entry r \<Rightarrow>
         (case (those (map class_of_name (jr_retained_classes r)), validate_and_classify_record G r p) of
            (Some declared, Inr (body, cs)) \<Rightarrow> Some (set declared \<union> cs)
          | _ \<Rightarrow> None)
     | _ \<Rightarrow> Some {})"

definition permits :: "capture_policy \<Rightarrow> ustring \<Rightarrow> capture_class \<Rightarrow> bool" where
  "permits p destination c = (export_denial_reason (governed_export p c) destination = None)"

text \<open>The entry is valid, its classes can be read, and each is permitted.\<close>

definition releasable :: "governance_env \<Rightarrow> capture_policy \<Rightarrow> ustring \<Rightarrow> jobject journal_entry \<Rightarrow> bool" where
  "releasable G p destination entry = (validate_nonrecord_entry G entry = None
     \<and> (case entry_classes G p entry of None \<Rightarrow> False | Some cs \<Rightarrow> (\<forall>c \<in> cs. permits p destination c)))"

text \<open>The gate after the entries \<open>seen\<close>: their classes, or no policy once one could not be read.\<close>

definition entry_readable :: "governance_env \<Rightarrow> capture_policy \<Rightarrow> jobject journal_entry \<Rightarrow> bool" where
  "entry_readable G p entry = (validate_nonrecord_entry G entry = None \<and> entry_classes G p entry \<noteq> None)"

definition gate_after :: "governance_env \<Rightarrow> journal_open \<Rightarrow> ustring \<Rightarrow> jobject journal_entry list \<Rightarrow> export_gate \<Rightarrow> bool" where
  "gate_after G h destination seen gate =
     (xg_destination gate = destination
      \<and> (case capture_policy_of h of
           None \<Rightarrow> xg_policy gate = None
         | Some p \<Rightarrow>
             if list_all (entry_readable G p) seen
             then xg_policy gate = Some p
               \<and> xg_captured gate = insert METADATA (\<Union>entry \<in> set seen. the (entry_classes G p entry))
             else xg_policy gate = None))"

lemma absorb_names_destination [simp]: "xg_destination (absorb_names names gate) = xg_destination gate"
  by (induction names gate rule: absorb_names.induct) (auto split: option.splits)

lemma absorb_names_effect: "absorb_names names gate = (case those (map class_of_name names) of
     Some declared \<Rightarrow> gate\<lparr>xg_captured := xg_captured gate \<union> set declared\<rparr>
   | None \<Rightarrow> (absorb_names names gate)\<lparr>xg_policy := None\<rparr>)"
proof (induction names gate rule: absorb_names.induct)
  case (2 name names gate)
  show ?case
  proof (cases "class_of_name name")
    case None
    have "xg_policy (absorb_names names g) = None" if "xg_policy g = None" for g
      using that by (induction names g rule: absorb_names.induct) (auto split: option.splits)
    then show ?thesis by (simp add: None)
  next
    case (Some c)
    then show ?thesis using 2(2) [OF Some] by (auto simp: Some split: option.splits)
  qed
qed simp

lemma absorb_unreadable: "xg_policy gate = None \<Longrightarrow> xg_policy (absorb_names names gate) = None"
  by (induction names gate rule: absorb_names.induct) (auto split: option.splits)

lemma absorb_record_effect:
  assumes "absorb_record G r None gate = Inr gate'"
  shows "xg_destination gate' = xg_destination gate
    \<and> (case xg_policy gate of
         None \<Rightarrow> xg_policy gate' = None
       | Some p \<Rightarrow> (case entry_classes G p (Record_Entry r) of
           None \<Rightarrow> xg_policy gate' = None
         | Some cs \<Rightarrow> xg_policy gate' = Some p \<and> xg_captured gate' = xg_captured gate \<union> cs))"
proof (cases "xg_policy gate")
  case None
  then show ?thesis using assms absorb_unreadable [OF None]
    by (auto simp: absorb_record_def Let_def)
next
  case (Some p)
  show ?thesis
  proof (cases "those (map class_of_name (jr_retained_classes r))")
    case None
    then have "xg_policy (absorb_names (jr_retained_classes r) gate) = None"
      using absorb_names_effect [of "jr_retained_classes r" gate] by (metis (no_types) export_gate.select_convs(2)
          export_gate.surjective export_gate.update_convs(2) option.case(1))
    then show ?thesis using assms by (auto simp: absorb_record_def Let_def Some entry_classes_def None)
  next
    case (Some declared)
    have "absorb_names (jr_retained_classes r) gate = gate\<lparr>xg_captured := xg_captured gate \<union> set declared\<rparr>"
      using absorb_names_effect [of "jr_retained_classes r" gate] Some by simp
    then show ?thesis using assms \<open>xg_policy gate = Some p\<close>
      by (auto simp: absorb_record_def Let_def entry_classes_def Some
          split: sum.splits governance_error.splits)
  qed
qed

lemma gate_denials_Nil: "gate_denials gate = [] \<longleftrightarrow>
    (case xg_policy gate of None \<Rightarrow> False | Some p \<Rightarrow> \<forall>c \<in> xg_captured gate. permits p (xg_destination gate) c)"
proof (cases "xg_policy gate")
  case None
  then show ?thesis by (simp add: gate_denials_def)
next
  case (Some p)
  have "export_denials p (xg_captured gate) (xg_destination gate) = [] \<longleftrightarrow>
      (\<forall>item. item \<notin> set (export_denials p (xg_captured gate) (xg_destination gate)))"
    by (metis empty_iff list.set(1) list.set_intros(1) neq_Nil_conv)
  also have "\<dots> \<longleftrightarrow> (\<forall>c \<in> xg_captured gate. permits p (xg_destination gate) c)"
    unfolding split_paired_all split_paired_All export_denials_iff permits_def by auto
  finally show ?thesis by (simp add: gate_denials_def Some)
qed

lemma fail_closed_eq: "fail_closed gate = (denials, gate') \<Longrightarrow> denials \<noteq> [] \<and> xg_policy gate' = None
    \<and> xg_destination gate' = xg_destination gate"
  by (auto simp: fail_closed_def)

lemma denials_after:
  assumes "gate_after G h destination seen gate"
  shows "gate_denials gate = [] \<longleftrightarrow> (\<exists>p. capture_policy_of h = Some p \<and> permits p destination METADATA
    \<and> list_all (releasable G p destination) seen)"
proof (cases "capture_policy_of h")
  case None
  then show ?thesis using assms by (simp add: gate_after_def gate_denials_Nil)
next
  case (Some p)
  have rel: "releasable G p destination entry \<longleftrightarrow> entry_readable G p entry
      \<and> (\<forall>c \<in> the (entry_classes G p entry). permits p destination c)" for entry
    by (auto simp: releasable_def entry_readable_def split: option.splits)
  show ?thesis
  proof (cases "list_all (entry_readable G p) seen")
    case True
    then have "xg_policy gate = Some p" "xg_destination gate = destination"
      "xg_captured gate = insert METADATA (\<Union>entry \<in> set seen. the (entry_classes G p entry))"
      using assms by (simp_all add: gate_after_def Some)
    then show ?thesis using True by (auto simp: gate_denials_Nil Some rel list_all_iff)
  next
    case False
    then show ?thesis using assms by (auto simp: gate_after_def gate_denials_Nil Some rel list_all_iff)
  qed
qed

lemma after_record:
  assumes "absorb_record G r None gate = Inr gate'" "validate_nonrecord_entry G (Record_Entry r) = None"
    and "gate_after G h destination seen gate"
  shows "gate_after G h destination (seen @ [Record_Entry r]) gate'"
proof (cases "capture_policy_of h")
  case None
  then show ?thesis using absorb_record_effect [OF assms(1)] assms(3) by (simp add: gate_after_def)
next
  case (Some p)
  show ?thesis
  proof (cases "list_all (entry_readable G p) seen")
    case True
    then have g: "xg_policy gate = Some p" "xg_destination gate = destination"
      "xg_captured gate = insert METADATA (\<Union>entry \<in> set seen. the (entry_classes G p entry))"
      using assms(3) by (simp_all add: gate_after_def Some)
    show ?thesis using absorb_record_effect [OF assms(1)] assms(2) g True
      by (cases "entry_classes G p (Record_Entry r)") (auto simp: gate_after_def Some entry_readable_def)
  next
    case False
    then have "xg_policy gate = None" "xg_destination gate = destination"
      using assms(3) by (auto simp: gate_after_def Some)
    then show ?thesis using absorb_record_effect [OF assms(1)] False by (simp add: gate_after_def Some)
  qed
qed

lemma after_other:
  assumes "\<not> (\<exists>r. entry = Record_Entry r)" "validate_nonrecord_entry G entry = None"
    and "gate_after G h destination seen gate"
  shows "gate_after G h destination (seen @ [entry]) gate"
proof -
  have "entry_classes G p entry = Some {}" for p
    using assms(1) by (cases entry) (auto simp: entry_classes_def)
  then show ?thesis using assms(2,3) by (auto simp: gate_after_def entry_readable_def split: option.splits)
qed

lemma after_refused:
  assumes "validate_nonrecord_entry G entry \<noteq> None" "xg_policy gate' = None" "xg_destination gate' = destination"
  shows "gate_after G h destination (seen @ [entry]) gate'"
  using assms by (auto simp: gate_after_def entry_readable_def split: option.splits)

lemma project_entry_shown: "project_entry entry = Some event \<Longrightarrow> fst event \<noteq> Event_Withheld"
  by (cases entry) auto

lemma governed_step:
  assumes "governed_entry_event G entry None gate = Inr (event, gate')"
    and "gate_after G h destination seen gate"
  shows "gate_after G h destination (seen @ [entry]) gate'
    \<and> (carries_evidence entry \<longrightarrow> (fst event \<noteq> Event_Withheld \<longleftrightarrow>
        (\<exists>p. capture_policy_of h = Some p \<and> permits p destination METADATA
          \<and> list_all (releasable G p destination) (seen @ [entry]))))"
proof (cases "validate_nonrecord_entry G entry")
  case (Some e)
  then have "gate' = snd (fail_closed gate)" "fst event = Event_Withheld"
    using assms(1) by (auto simp: governed_entry_event_def split: governance_error.splits prod.splits)
  moreover have "xg_policy (snd (fail_closed gate)) = None" "xg_destination (snd (fail_closed gate)) = destination"
    using assms(2) by (simp_all add: fail_closed_def gate_after_def)
  ultimately show ?thesis using after_refused [of G entry gate' destination h seen] Some
    by (simp add: releasable_def)
next
  case None
  have "\<exists>denials. gate_admit G entry None gate = Inr (denials, gate')
      \<and> (carries_evidence entry \<longrightarrow> (fst event \<noteq> Event_Withheld \<longleftrightarrow> denials = []))"
    using assms(1) None project_entry_shown [of entry]
    by (auto simp: governed_entry_event_def gate_admit_def absorb_record_def Let_def
        split: sum.splits governance_error.splits option.splits if_splits journal_entry.splits)
  then obtain denials where d: "gate_admit G entry None gate = Inr (denials, gate')"
    "carries_evidence entry \<Longrightarrow> fst event \<noteq> Event_Withheld \<longleftrightarrow> denials = []" by blast
  have after: "gate_after G h destination (seen @ [entry]) gate'" and "denials = gate_denials gate'"
  proof -
    show "denials = gate_denials gate'"
      using d(1) by (auto simp: gate_admit_def split: journal_entry.splits sum.splits)
    show "gate_after G h destination (seen @ [entry]) gate'"
    proof (cases "\<exists>r. entry = Record_Entry r")
      case True
      then obtain r where r: "entry = Record_Entry r" by blast
      then have "absorb_record G r None gate = Inr gate'"
        using d(1) by (auto simp: gate_admit_def split: sum.splits)
      then show ?thesis unfolding r using after_record None [unfolded r] assms(2) by blast
    next
      case False
      then have "gate' = gate" using d(1) by (cases entry) (auto simp: gate_admit_def)
      then show ?thesis using after_other [OF False None assms(2)] by simp
    qed
  qed
  then show ?thesis using d(2) denials_after [OF after] by simp
qed

lemma gate_run_shown:
  assumes "gate_run G gate entries = Inr (events, gate')" "gate_after G h destination seen gate"
    and "i < length entries" "carries_evidence (entries ! i)"
  shows "fst (events ! i) \<noteq> Event_Withheld \<longleftrightarrow> (\<exists>p. capture_policy_of h = Some p
    \<and> permits p destination METADATA \<and> list_all (releasable G p destination) (seen @ take (Suc i) entries))"
  using assms
proof (induction entries arbitrary: gate events seen i)
  case (Cons entry entries)
  obtain event gate1 rest where s: "governed_entry_event G entry None gate = Inr (event, gate1)"
    "gate_run G gate1 entries = Inr (rest, gate')" "events = event # rest"
    using Cons.prems(1) by (auto split: sum.splits)
  note step = governed_step [OF s(1) Cons.prems(2)]
  show ?case
  proof (cases i)
    case 0
    then show ?thesis using step Cons.prems(4) s(3) by simp
  next
    case (Suc j)
    then show ?thesis
      using Cons.IH [OF s(2), of "seen @ [entry]" j] step Cons.prems(3,4) s(3) by simp
  qed
qed simp

lemma new_gate_after: "gate_after G h destination [] (new_gate h destination)"
  by (auto simp: gate_after_def new_gate_def split: option.splits)

text \<open>C10. A live stream shows the content of a fact exactly when the header's policy reads, it permits
  metadata to this destination, and every entry up to and including this one is valid and shows or
  declares only classes the policy permits to this destination. So the entry that first brings a
  restricted class is itself withheld, nothing restricted precedes it, and once withheld the stream
  stays withheld.\<close>

theorem live_gate_is_exact:
  assumes "gate_run G (new_gate h destination) entries = Inr (events, gate)"
    and "i < length entries" "carries_evidence (entries ! i)"
  shows "fst (events ! i) \<noteq> Event_Withheld \<longleftrightarrow> (\<exists>p. capture_policy_of h = Some p
    \<and> permits p destination METADATA \<and> list_all (releasable G p destination) (take (Suc i) entries))"
  using gate_run_shown [OF assms(1) new_gate_after assms(2,3)] by simp

definition sample_open :: journal_open where
  "sample_open = \<lparr>jo_version = 1, jo_journal_id = ''j'', jo_producer_name = ''p'', jo_producer_version = ''1'',
     jo_bundle_id = ''b'', jo_session_id = ''s'', jo_clock_domain_id = ''c'', jo_started_wall = 0,
     jo_started_mono = 0, jo_manual_trace_id = ''t'', jo_policy_id = ''earshot.metadata-only'',
     jo_policy_version = ''1'', jo_enabled_classes = [''metadata''], jo_governance = [], jo_max_records = 1,
     jo_max_capture_bytes = 1, jo_max_raw_otlp_bytes = 1, jo_max_value_bytes = 1\<rparr>"

lemma sample_policy: "capture_policy_of sample_open = Some metadata_only"
proof -
  have "class_of_name ''metadata'' = Some METADATA" using class_of_value [of METADATA] by simp
  then show ?thesis
    by (simp add: capture_policy_of_def sample_open_def new_policy_def metadata_only_def)
qed

lemma sample_gate_run:
  "gate_run sample_governance_env (new_gate sample_open LIVE_TAIL_DESTINATION) [Record_Entry sample_event_entry]
     = Inr ([(Event_Record, record_payload sample_event_entry)], new_gate sample_open LIVE_TAIL_DESTINATION)"
proof -
  have "gate_denials (new_gate sample_open LIVE_TAIL_DESTINATION) = []"
    by (simp add: gate_denials_Nil new_gate_def sample_policy permits_def governed_export_def
        metadata_only_def export_denial_reason_def)
  moreover have "absorb_record sample_governance_env sample_event_entry None (new_gate sample_open LIVE_TAIL_DESTINATION)
      = Inr (new_gate sample_open LIVE_TAIL_DESTINATION)"
    by (simp add: absorb_record_def new_gate_def sample_policy sample_event_accepted)
      (simp add: sample_event_entry_def sample_policy sample_event_accepted [unfolded sample_event_entry_def])
  moreover have "validate_nonrecord_entry sample_governance_env (Record_Entry sample_event_entry) = None"
    by (simp add: sample_event_entry_def)
  ultimately show ?thesis by (simp add: governed_entry_event_def gate_admit_def)
qed

theorem live_gate_is_exact_witness:
  "\<exists>p. capture_policy_of sample_open = Some p \<and> permits p LIVE_TAIL_DESTINATION METADATA
     \<and> releasable sample_governance_env p LIVE_TAIL_DESTINATION (Record_Entry sample_event_entry)"
  using live_gate_is_exact [OF sample_gate_run, of 0] by (simp add: carries_evidence_def)

text \<open>Handing the classes of the preflight to the gate changes nothing but the work.\<close>

theorem preflight_agrees:
  assumes "preflight_live_entry G entry p allow_open = Inr cs" "xg_policy gate = Some p"
  shows "governed_entry_event G entry (Some cs) gate = governed_entry_event G entry None gate"
proof (cases "\<exists>r. entry = Record_Entry r")
  case True
  then obtain r where r: "entry = Record_Entry r" by blast
  obtain body where v: "validate_and_classify_record G r p = Inr (body, cs)"
    using assms(1) by (auto simp: preflight_live_entry_def r split: if_splits option.splits sum.splits)
  have "absorb_record G r (Some cs) gate = absorb_record G r None gate"
  proof (cases "those (map class_of_name (jr_retained_classes r))")
    case None
    have "xg_policy (absorb_names (jr_retained_classes r) gate) = None"
      by (subst absorb_names_effect) (simp add: None)
    then show ?thesis by (simp add: absorb_record_def)
  next
    case (Some declared)
    have "xg_policy (absorb_names (jr_retained_classes r) gate) = Some p"
      by (subst absorb_names_effect) (simp add: Some assms(2))
    then show ?thesis by (simp add: absorb_record_def v)
  qed
  then have same: "gate_admit G entry (Some cs) gate = gate_admit G entry None gate"
    by (simp add: gate_admit_def r)
  show ?thesis unfolding governed_entry_event_def same ..
next
  case False
  then have same: "gate_admit G entry (Some cs) gate = gate_admit G entry None gate"
    by (cases entry) (auto simp: gate_admit_def)
  show ?thesis unfolding governed_entry_event_def same ..
qed

end
