(* ===== verification/CallCost.thy ===== *)
theory CallCost
  imports Complex_Main Prelude "HOL-Library.Multiset" "HOL-Library.Product_Lexorder"
    "HOL-Library.List_Lexorder" "HOL-Library.Char_ord"
begin

text \<open>
  What a call cost (\<^verbatim>\<open>call_cost.py\<close>): its usage entries, the price in effect, the priced items and
  the totals.

  A request's counts are integers (\<open>Metered\<close>); only a speech-to-text request reports seconds
  (\<open>Stt\<close>), an integer or a float, which is an exact rational here. The float operations are fields of
  the environment: \<open>ce_times_1000\<close> is the product with 1000 (\<open>None\<close> when it overflows),
  \<open>ce_nearest\<close> the nearest float (\<open>None\<close> beyond the range), \<open>ce_shortest\<close> the decimal that
  its shortest spelling denotes. \<open>ce_lower\<close> is \<^verbatim>\<open>str.lower\<close>.
\<close>

section \<open>Usage\<close>

datatype amount = A_Int int | A_Float rat

record cost_env =
  ce_lower :: "string \<Rightarrow> string"
  ce_times_1000 :: "rat \<Rightarrow> rat option"
  ce_nearest :: "rat \<Rightarrow> rat option"
  ce_shortest :: "rat \<Rightarrow> rat"

record billed_request =
  bq_operation :: string
  bq_provider :: "string option"
  bq_model :: "string option"
  bq_trace_id :: string
  bq_span_id :: string

datatype usage_item = Metered billed_request string "int option" | Stt billed_request "amount option"

datatype usage_kind = Reported | Not_Reported | Estimate

type_synonym span_ref = "string \<times> string"

record usage_entry =
  ue_kind :: usage_kind
  ue_operation :: string
  ue_provider :: "string option"
  ue_model :: "string option"
  ue_unit :: "string option"
  ue_milli :: "int option"
  ue_span :: "span_ref option"

definition AUDIO_SECOND :: string where "AUDIO_SECOND = ''audio_second''"
definition INT64_MAX :: int where "INT64_MAX = 2 ^ 63 - 1"
definition MAX_SAFE_API_INTEGER :: int where "MAX_SAFE_API_INTEGER = 2 ^ 53 - 1"

definition PRIMARY_METERS :: "string \<Rightarrow> string list" where
  "PRIMARY_METERS operation =
     (if operation = ''llm'' then [''input_token'', ''output_token'']
      else if operation = ''tts'' then [''character''] else [])"

definition span_of :: "billed_request \<Rightarrow> span_ref" where
  "span_of q = (bq_trace_id q, bq_span_id q)"

text \<open>\<^verbatim>\<open>round\<close> of an exact value: half to even.\<close>

definition round_half_even :: "rat \<Rightarrow> int" where
  "round_half_even r = (let f = \<lfloor>r\<rfloor>; d = r - of_int f in
     if d < 1 / 2 then f else if d > 1 / 2 then f + 1 else if even f then f else f + 1)"

definition audio_seconds_milli :: "cost_env \<Rightarrow> amount \<Rightarrow> int" where
  "audio_seconds_milli E seconds = (case seconds of
       A_Int i \<Rightarrow> max 1 (i * 1000)
     | A_Float r \<Rightarrow> (case ce_times_1000 E r of
         Some scaled \<Rightarrow> max 1 (round_half_even scaled)
       | None \<Rightarrow> max 1 (round_half_even r * 1000)))"

text \<open>\<^verbatim>\<open>d.setdefault(key(x), []).append(x)\<close> for every \<open>x\<close>: groups in order of first appearance.\<close>

definition add_to_group :: "('a \<Rightarrow> 'k) \<Rightarrow> 'a \<Rightarrow> ('k \<times> 'a list) list \<Rightarrow> ('k \<times> 'a list) list" where
  "add_to_group key x d = AList.update (key x) ((case map_of d (key x) of None \<Rightarrow> [] | Some ys \<Rightarrow> ys) @ [x]) d"

definition group_by :: "('a \<Rightarrow> 'k) \<Rightarrow> 'a list \<Rightarrow> ('k \<times> 'a list) list" where
  "group_by key xs = fold (add_to_group key) xs []"

type_synonym metered = "billed_request \<times> string \<times> int option"
type_synonym usage_key = "string \<times> string option \<times> string option \<times> string"

fun metered_items :: "usage_item list \<Rightarrow> metered list" where
  "metered_items [] = []"
| "metered_items (Metered q meter n # items) = (q, meter, n) # metered_items items"
| "metered_items (Stt q n # items) = metered_items items"

fun stt_items :: "usage_item list \<Rightarrow> (billed_request \<times> amount option) list" where
  "stt_items [] = []"
| "stt_items (Metered q meter n # items) = stt_items items"
| "stt_items (Stt q n # items) = (q, n) # stt_items items"

definition metered_key :: "billed_request \<Rightarrow> string \<Rightarrow> usage_key" where
  "metered_key q meter = (bq_operation q, bq_provider q, bq_model q, meter)"

text \<open>The dictionary \<^verbatim>\<open>reported\<close>: a sum and the spans it was reported on.\<close>

fun add_reported :: "metered \<Rightarrow> (usage_key \<times> int \<times> span_ref list) list \<Rightarrow> (usage_key \<times> int \<times> span_ref list) list" where
  "add_reported (q, meter, None) d = d"
| "add_reported (q, meter, Some n) d =
     (let (milli, spans) = (case map_of d (metered_key q meter) of None \<Rightarrow> (0, []) | Some e \<Rightarrow> e)
      in AList.update (metered_key q meter) (milli + n * 1000, spans @ [span_of q]) d)"

definition missing_meters :: "metered list \<Rightarrow> metered list" where
  "missing_meters request =
     filter (\<lambda>(q, meter, n). n = None \<and> meter \<in> set (PRIMARY_METERS (bq_operation q))) request"

definition not_reported_entry :: "billed_request \<Rightarrow> string option \<Rightarrow> usage_entry" where
  "not_reported_entry q unit = \<lparr>ue_kind = Not_Reported, ue_operation = bq_operation q,
     ue_provider = bq_provider q, ue_model = bq_model q, ue_unit = unit, ue_milli = None,
     ue_span = Some (span_of q)\<rparr>"

definition request_unreported :: "metered list \<Rightarrow> usage_entry list" where
  "request_unreported request = (case (missing_meters request, request) of
       ((m, meter, n) # others, (first, w) # rest) \<Rightarrow>
         [not_reported_entry first (if others = [] then Some meter else None)]
     | _ \<Rightarrow> [])"

definition only_span :: "span_ref list \<Rightarrow> span_ref option" where
  "only_span spans = (case spans of [s] \<Rightarrow> Some s | _ \<Rightarrow> None)"

fun reported_entry :: "usage_key \<times> int \<times> span_ref list \<Rightarrow> usage_entry" where
  "reported_entry ((operation, provider, model, meter), milli, spans) =
     \<lparr>ue_kind = Reported, ue_operation = operation, ue_provider = provider, ue_model = model,
      ue_unit = Some meter, ue_milli = Some milli, ue_span = only_span spans\<rparr>"

text \<open>The entries of the speech requests of one provider and model.\<close>

definition stt_usage :: "cost_env \<Rightarrow> int option
    \<Rightarrow> (string option \<times> string option) \<times> (billed_request \<times> amount option) list \<Rightarrow> usage_entry" where
  "stt_usage E user_audio_ms grp = (case grp of ((provider, model), requests) \<Rightarrow>
     let known = List.map_filter (\<lambda>(q, n). map_option (\<lambda>v. (q, v)) n) requests in
     if known \<noteq> [] then
       \<lparr>ue_kind = Reported, ue_operation = ''stt'', ue_provider = provider, ue_model = model,
        ue_unit = Some AUDIO_SECOND,
        ue_milli = Some (sum_list (map (\<lambda>(q, v). audio_seconds_milli E v) known)),
        ue_span = only_span (map (\<lambda>(q, v). span_of q) known)\<rparr>
     else
       \<lparr>ue_kind = (if user_audio_ms = None then Not_Reported else Estimate), ue_operation = ''stt'',
        ue_provider = provider, ue_model = model, ue_unit = Some AUDIO_SECOND,
        ue_milli = user_audio_ms, ue_span = None\<rparr>)"

definition stt_unreported :: "(string option \<times> string option) \<times> (billed_request \<times> amount option) list \<Rightarrow> usage_entry list" where
  "stt_unreported grp = (case grp of (key, requests) \<Rightarrow>
     if list_ex (\<lambda>(q, n). n \<noteq> None) requests
     then map (\<lambda>(q, n). \<lparr>ue_kind = Not_Reported, ue_operation = ''stt'', ue_provider = bq_provider q,
            ue_model = bq_model q, ue_unit = Some AUDIO_SECOND, ue_milli = None, ue_span = Some (span_of q)\<rparr>)
          (filter (\<lambda>(q, n). n = None) requests)
     else [])"

definition operation_order :: "string \<Rightarrow> nat" where
  "operation_order operation = (if operation = ''llm'' then 0 else if operation = ''tts'' then 1
     else if operation = ''stt'' then 2 else if operation = ''realtime'' then 3 else 9)"

definition text_or_empty :: "string option \<Rightarrow> string" where
  "text_or_empty v = (case v of None \<Rightarrow> [] | Some t \<Rightarrow> t)"

definition usage_order :: "usage_entry \<Rightarrow> bool \<times> nat \<times> string \<times> string \<times> string \<times> string \<times> string" where
  "usage_order e = (ue_kind e = Not_Reported, operation_order (ue_operation e),
     text_or_empty (ue_provider e), text_or_empty (ue_model e), text_or_empty (ue_unit e),
     (case ue_span e of None \<Rightarrow> [] | Some (trace_id, span_id) \<Rightarrow> trace_id),
     (case ue_span e of None \<Rightarrow> [] | Some (trace_id, span_id) \<Rightarrow> span_id))"

definition requests_of :: "usage_item list \<Rightarrow> metered list list" where
  "requests_of items = map snd (group_by (\<lambda>(q, meter, n). (bq_trace_id q, bq_span_id q, bq_operation q))
     (metered_items items))"

definition stt_groups :: "usage_item list
    \<Rightarrow> ((string option \<times> string option) \<times> (billed_request \<times> amount option) list) list" where
  "stt_groups items = group_by (\<lambda>(q, n). (bq_provider q, bq_model q)) (stt_items items)"

definition call_usage :: "cost_env \<Rightarrow> usage_item list \<Rightarrow> int option \<Rightarrow> usage_entry list" where
  "call_usage E items user_audio_ms =
     (let requests = requests_of items;
          reported = fold (\<lambda>request d. fold add_reported request d) requests [];
          stt = stt_groups items
      in sort_key usage_order
           (map reported_entry reported @ map (stt_usage E user_audio_ms) stt
            @ concat (map request_unreported requests) @ concat (map stt_unreported stt)))"

section \<open>Prices\<close>

record price_row =
  pr_id :: int
  pr_project_id :: "string option"
  pr_provider :: string
  pr_model :: string
  pr_unit :: string
  pr_price_nano_usd :: int
  pr_per_quantity :: int
  pr_effective_from :: int

text \<open>\<^verbatim>\<open>max\<close> keeps the first of the largest.\<close>

fun latest_row :: "price_row \<Rightarrow> price_row list \<Rightarrow> price_row" where
  "latest_row best [] = best"
| "latest_row best (r # rows) =
     latest_row (if (pr_effective_from best, pr_id best) < (pr_effective_from r, pr_id r) then r else best) rows"

definition rows_in_effect :: "price_row list \<Rightarrow> string option \<Rightarrow> string \<Rightarrow> string \<Rightarrow> string \<Rightarrow> int \<Rightarrow> price_row list" where
  "rows_in_effect prices scope provider model unit now =
     filter (\<lambda>r. pr_project_id r = scope \<and> (pr_provider r, pr_model r, pr_unit r) = (provider, model, unit)
       \<and> pr_effective_from r \<le> now) prices"

definition match_price :: "cost_env \<Rightarrow> price_row list \<Rightarrow> string \<Rightarrow> string option \<Rightarrow> string option \<Rightarrow> string option
    \<Rightarrow> int \<Rightarrow> price_row option" where
  "match_price E prices project provider model unit now = (case (provider, model, unit) of
       (Some provider, Some model, Some unit) \<Rightarrow>
         (case rows_in_effect prices (Some project) (ce_lower E provider) (ce_lower E model) unit now of
            r # rows \<Rightarrow> Some (latest_row r rows)
          | [] \<Rightarrow> (case rows_in_effect prices None (ce_lower E provider) (ce_lower E model) unit now of
              r # rows \<Rightarrow> Some (latest_row r rows)
            | [] \<Rightarrow> None))
     | _ \<Rightarrow> None)"

text \<open>The division by zero of a row with \<open>per_quantity = 0\<close> is \<open>None\<close>.\<close>

definition cost_of :: "int \<Rightarrow> price_row \<Rightarrow> int option" where
  "cost_of quantity_milli price =
     (let denominator = pr_per_quantity price * 1000 in
      if denominator = 0 then None
      else Some ((2 * quantity_milli * pr_price_nano_usd price + denominator) div (2 * denominator)))"

definition api_quantity :: "cost_env \<Rightarrow> int option \<Rightarrow> amount option" where
  "api_quantity E quantity_milli = (case quantity_milli of
       None \<Rightarrow> None
     | Some m \<Rightarrow>
         if m mod 1000 = 0 \<and> m div 1000 \<le> MAX_SAFE_API_INTEGER then Some (A_Int (m div 1000))
         else (case ce_nearest E (of_int m / 1000) of
             None \<Rightarrow> None
           | Some f \<Rightarrow> if ce_shortest E f = of_int m / 1000 then Some (A_Float f) else None))"

datatype cost_status = Priced | Estimated | No_Price | Usage_Not_Reported

record cost_item =
  ci_status :: cost_status
  ci_entry :: usage_entry
  ci_quantity :: "amount option"
  ci_price :: "price_row option"
  ci_cost :: "int option"

record call_cost =
  cc_items :: "cost_item list"
  cc_lower_bound :: "int option"
  cc_estimated :: "int option"
  cc_unknown :: nat

definition price_entry :: "cost_env \<Rightarrow> price_row list \<Rightarrow> string \<Rightarrow> int \<Rightarrow> usage_entry \<Rightarrow> cost_item option" where
  "price_entry E prices project now entry =
     (let found = (if ue_kind entry \<noteq> Not_Reported
            then match_price E prices project (ue_provider entry) (ue_model entry) (ue_unit entry) now else None);
          raw = (case (found, ue_milli entry) of
              (Some price, Some m) \<Rightarrow> (case cost_of m price of None \<Rightarrow> None | Some c \<Rightarrow> Some (Some c))
            | _ \<Rightarrow> Some None)
      in case raw of
           None \<Rightarrow> None
         | Some cost \<Rightarrow>
             let beyond = (case cost of None \<Rightarrow> False | Some c \<Rightarrow> INT64_MAX < c);
                 price = (if beyond then None else found);
                 cost = (if beyond then None else cost)
             in Some \<lparr>ci_status = (if ue_kind entry = Not_Reported then Usage_Not_Reported
                  else if price = None then No_Price
                  else if ue_kind entry = Estimate then Estimated else Priced),
                ci_entry = entry, ci_quantity = api_quantity E (ue_milli entry), ci_price = price,
                ci_cost = cost\<rparr>)"

text \<open>The loop: the items, the two sums, whether something was estimated and the rest. Adding a cost
  that is \<^verbatim>\<open>None\<close> is a \<^verbatim>\<open>TypeError\<close>, also \<open>None\<close> here.\<close>

fun price_loop :: "cost_env \<Rightarrow> price_row list \<Rightarrow> string \<Rightarrow> int \<Rightarrow> usage_entry list
    \<Rightarrow> cost_item list \<times> int \<times> int \<times> bool \<times> nat \<Rightarrow> (cost_item list \<times> int \<times> int \<times> bool \<times> nat) option" where
  "price_loop E prices project now [] acc = Some acc"
| "price_loop E prices project now (entry # usage) (items, lower, estimated, any_estimated, unknown) =
     (case price_entry E prices project now entry of
        None \<Rightarrow> None
      | Some item \<Rightarrow> (case (ci_status item, ci_cost item) of
          (Priced, Some c) \<Rightarrow>
            price_loop E prices project now usage (items @ [item], lower + c, estimated, any_estimated, unknown)
        | (Estimated, Some c) \<Rightarrow>
            price_loop E prices project now usage (items @ [item], lower, estimated + c, True, unknown)
        | (Priced, None) \<Rightarrow> None
        | (Estimated, None) \<Rightarrow> None
        | (No_Price, _) \<Rightarrow>
            price_loop E prices project now usage (items @ [item], lower, estimated, any_estimated, Suc unknown)
        | (Usage_Not_Reported, _) \<Rightarrow>
            price_loop E prices project now usage (items @ [item], lower, estimated, any_estimated, Suc unknown)))"

definition price_usage :: "cost_env \<Rightarrow> usage_entry list \<Rightarrow> price_row list \<Rightarrow> string \<Rightarrow> int \<Rightarrow> call_cost option" where
  "price_usage E usage prices project now =
     map_option (\<lambda>(items, lower, estimated, any_estimated, unknown).
         let fits = (lower \<le> INT64_MAX \<and> estimated \<le> INT64_MAX) in
         \<lparr>cc_items = items,
          cc_lower_bound = (if items \<noteq> [] \<and> fits then Some lower else None),
          cc_estimated = (if any_estimated \<and> fits then Some estimated else None),
          cc_unknown = unknown\<rparr>)
       (price_loop E prices project now usage ([], 0, 0, False, 0))"

section \<open>Groups\<close>

lemma map_of_group: "map_of (fold (add_to_group key) xs d) k =
    (if filter (\<lambda>x. key x = k) xs = [] then map_of d k
     else Some ((case map_of d k of None \<Rightarrow> [] | Some ys \<Rightarrow> ys) @ filter (\<lambda>x. key x = k) xs))"
  by (induction xs arbitrary: d) (auto simp: add_to_group_def dict_simps)

lemma distinct_group: "distinct (map fst d) \<Longrightarrow> distinct (map fst (fold (add_to_group key) xs d))"
  by (induction xs arbitrary: d) (auto simp: add_to_group_def intro: distinct_update)

lemma map_of_group_by: "map_of (group_by key xs) k =
    (if filter (\<lambda>x. key x = k) xs = [] then None else Some (filter (\<lambda>x. key x = k) xs))"
  by (simp add: group_by_def map_of_group)

lemma distinct_group_by: "distinct (map fst (group_by key xs))"
  by (simp add: group_by_def distinct_group)

lemma sum_by_key: "distinct (map fst d) \<Longrightarrow>
    sum_list (map (\<lambda>(k, v). if k = key then f v else 0) d) = (case map_of d key of None \<Rightarrow> (0 :: int) | Some v \<Rightarrow> f v)"
proof (induction d)
  case (Cons e d)
  obtain k v where e: "e = (k, v)" by (cases e)
  have "map_of d k = None" using Cons.prems e by (simp add: map_of_eq_None_iff)
  then show ?case using Cons e by simp
qed simp

lemma sum_list_mset: "mset xs = mset ys \<Longrightarrow> sum_list (map f xs) = sum_list (map (f :: 'a \<Rightarrow> int) ys)"
  by (metis mset_map sum_mset_sum_list)

lemma sum_groups: "sum_list (map f (concat (map snd (fold (add_to_group key) xs d)))) =
    sum_list (map f (concat (map snd d))) + sum_list (map (f :: 'a \<Rightarrow> int) xs)"
proof (induction xs arbitrary: d)
  case (Cons x xs)
  have "sum_list (map f (concat (map snd (add_to_group key x d)))) = sum_list (map f (concat (map snd d))) + f x"
    unfolding add_to_group_def by (induction d) auto
  then show ?case using Cons by simp
qed simp

section \<open>Usage is conserved\<close>

definition entry_key_milli :: "usage_key \<Rightarrow> usage_entry \<Rightarrow> int" where
  "entry_key_milli key e = (case key of (operation, provider, model, meter) \<Rightarrow>
     if ue_kind e = Reported \<and> ue_operation e = operation \<and> ue_provider e = provider \<and> ue_model e = model
       \<and> ue_unit e = Some meter
     then (case ue_milli e of None \<Rightarrow> 0 | Some m \<Rightarrow> m) else 0)"

definition reported_total :: "usage_key \<Rightarrow> usage_entry list \<Rightarrow> int" where
  "reported_total key es = sum_list (map (entry_key_milli key) es)"

text \<open>What the items report under a key, in thousandths.\<close>

definition metered_milli :: "usage_key \<Rightarrow> metered \<Rightarrow> int" where
  "metered_milli key m = (case m of (q, meter, n) \<Rightarrow>
     if metered_key q meter = key then (case n of None \<Rightarrow> 0 | Some v \<Rightarrow> v * 1000) else 0)"

text \<open>
  What one report of speech seconds is worth in thousandths: exactly a thousand times an integer, the
  integer nearest to a thousand times a float (of two the even one), or a thousand times the nearest
  integer when that product overflows; always at least one.
\<close>

definition nearest_integer :: "rat \<Rightarrow> int \<Rightarrow> bool" where
  "nearest_integer r n \<longleftrightarrow> \<bar>r - of_int n\<bar> < 1 / 2 \<or> \<bar>r - of_int n\<bar> = 1 / 2 \<and> even n"

definition worth_milli :: "cost_env \<Rightarrow> amount \<Rightarrow> int \<Rightarrow> bool" where
  "worth_milli E v m \<longleftrightarrow> (case v of
       A_Int i \<Rightarrow> m = (if i < 1 then 1 else 1000 * i)
     | A_Float r \<Rightarrow> (case ce_times_1000 E r of
         Some product \<Rightarrow> \<exists>n. nearest_integer product n \<and> m = max 1 n
       | None \<Rightarrow> \<exists>n. nearest_integer r n \<and> m = max 1 (1000 * n)))"

definition stt_milli :: "(amount \<Rightarrow> int) \<Rightarrow> usage_key \<Rightarrow> billed_request \<times> amount option \<Rightarrow> int" where
  "stt_milli worth key r = (case (key, r) of ((operation, provider, model, meter), (q, n)) \<Rightarrow>
     if operation = ''stt'' \<and> meter = AUDIO_SECOND \<and> bq_provider q = provider \<and> bq_model q = model
     then (case n of None \<Rightarrow> 0 | Some v \<Rightarrow> worth v) else 0)"

definition items_total :: "(amount \<Rightarrow> int) \<Rightarrow> usage_key \<Rightarrow> usage_item list \<Rightarrow> int" where
  "items_total worth key items = sum_list (map (metered_milli key) (metered_items items))
     + sum_list (map (stt_milli worth key) (stt_items items))"

lemma round_half_even_nearest: "nearest_integer r (round_half_even r)"
proof -
  define d where "d = r - of_int \<lfloor>r\<rfloor>"
  have d: "0 \<le> d" "d < 1" unfolding d_def by linarith+
  have up: "r - of_int (\<lfloor>r\<rfloor> + 1) = d - 1" by (simp add: d_def)
  have half: "round_half_even r = (if d < 1 / 2 then \<lfloor>r\<rfloor> else if d > 1 / 2 then \<lfloor>r\<rfloor> + 1
      else if even \<lfloor>r\<rfloor> then \<lfloor>r\<rfloor> else \<lfloor>r\<rfloor> + 1)"
    unfolding round_half_even_def Let_def d_def ..
  have low: "nearest_integer r \<lfloor>r\<rfloor> \<longleftrightarrow> d < 1 / 2 \<or> d = 1 / 2 \<and> even \<lfloor>r\<rfloor>"
    unfolding nearest_integer_def d_def [symmetric] using d by simp
  have high: "nearest_integer r (\<lfloor>r\<rfloor> + 1) \<longleftrightarrow> d > 1 / 2 \<or> d = 1 / 2 \<and> odd \<lfloor>r\<rfloor>"
    unfolding nearest_integer_def up using d by auto
  show ?thesis
    unfolding half using low high by (cases "d < 1 / 2"; cases "d > 1 / 2"; cases "even \<lfloor>r\<rfloor>") (simp_all only: if_True if_False, linarith+)
qed

lemma audio_seconds_worth: "worth_milli E v (audio_seconds_milli E v)"
proof (cases v)
  case (A_Float r)
  then show ?thesis
    using round_half_even_nearest
    by (auto simp: worth_milli_def audio_seconds_milli_def mult.commute split: option.splits)
qed (auto simp: worth_milli_def audio_seconds_milli_def)

definition sum_at :: "usage_key \<Rightarrow> (usage_key \<times> int \<times> span_ref list) list \<Rightarrow> int" where
  "sum_at key d = (case map_of d key of None \<Rightarrow> 0 | Some (milli, spans) \<Rightarrow> milli)"

lemma sum_at_add: "sum_at key (add_reported m d) = sum_at key d + metered_milli key m"
proof -
  obtain q meter n where m: "m = (q, meter, n)" by (cases m) blast
  show ?thesis unfolding m
    by (cases n) (auto simp: sum_at_def metered_milli_def dict_simps Let_def split: option.splits)
qed

lemma sum_at_adds: "sum_at key (fold add_reported ms d) = sum_at key d + sum_list (map (metered_milli key) ms)"
  by (induction ms arbitrary: d) (simp_all add: sum_at_add)

lemma sum_at_requests: "sum_at key (fold (\<lambda>request d. fold add_reported request d) requests d) =
    sum_at key d + sum_list (map (metered_milli key) (concat requests))"
  by (induction requests arbitrary: d) (simp_all add: sum_at_adds)

lemma distinct_adds: "distinct (map fst d) \<Longrightarrow> distinct (map fst (fold add_reported ms d))"
proof (induction ms arbitrary: d)
  case (Cons m ms)
  obtain q meter n where m: "m = (q, meter, n)" by (cases m) blast
  have "distinct (map fst (add_reported m d))" unfolding m
    using Cons.prems by (cases n) (auto simp: Let_def intro: distinct_update split: prod.splits)
  then show ?case using Cons.IH by simp
qed simp

lemma distinct_requests: "distinct (map fst d) \<Longrightarrow>
    distinct (map fst (fold (\<lambda>request d. fold add_reported request d) requests d))"
  by (induction requests arbitrary: d) (simp_all add: distinct_adds)

lemma reported_total_append [simp]: "reported_total key (xs @ ys) = reported_total key xs + reported_total key ys"
  by (simp add: reported_total_def)

lemma reported_total_silent: "(\<And>e. e \<in> set es \<Longrightarrow> ue_kind e \<noteq> Reported) \<Longrightarrow> reported_total key es = 0"
  by (induction es) (auto simp: reported_total_def entry_key_milli_def split: prod.splits)

lemma reported_total_dict: "distinct (map fst d) \<Longrightarrow> reported_total key (map reported_entry d) = sum_at key d"
proof -
  assume d: "distinct (map fst d)"
  have "entry_key_milli key (reported_entry e) = (case e of (k, v) \<Rightarrow> if k = key then fst v else 0)" for e
    by (cases e rule: reported_entry.cases) (auto simp: entry_key_milli_def split: prod.splits)
  then have "reported_total key (map reported_entry d) = sum_list (map (\<lambda>(k, v). if k = key then fst v else 0) d)"
    by (simp add: reported_total_def comp_def)
  also have "\<dots> = sum_at key d" unfolding sum_by_key [OF d] sum_at_def by (auto split: option.splits)
  finally show ?thesis .
qed

lemma map_filter_sum: "sum_list (map (\<lambda>(q, v). audio_seconds_milli E v)
      (List.map_filter (\<lambda>(q, n). map_option (\<lambda>v. (q, v)) n) requests)) =
    sum_list (map (\<lambda>(q, n). case n of None \<Rightarrow> 0 | Some v \<Rightarrow> audio_seconds_milli E v) requests)"
  by (induction requests) (auto simp: map_filter_simps split: option.splits)

lemma stt_filter_sum:
  "sum_list (map (stt_milli (audio_seconds_milli E) (operation, provider, model, meter)) rs) =
     (if operation = ''stt'' \<and> meter = AUDIO_SECOND
      then sum_list (map (\<lambda>(q, n). case n of None \<Rightarrow> 0 | Some v \<Rightarrow> audio_seconds_milli E v)
        (filter (\<lambda>(q, n). bq_provider q = provider \<and> bq_model q = model) rs))
      else 0)"
  by (induction rs) (auto simp: stt_milli_def split: option.splits)

lemma reported_total_stt:
  "reported_total key (map (stt_usage E ms) (stt_groups items)) = sum_list (map (stt_milli (audio_seconds_milli E) key) (stt_items items))"
proof -
  obtain operation provider model meter where key: "key = (operation, provider, model, meter)"
    by (cases key) blast
  let ?here = "operation = ''stt'' \<and> meter = AUDIO_SECOND"
  let ?f = "\<lambda>requests. sum_list (map (\<lambda>(q, n). case n of None \<Rightarrow> 0 | Some v \<Rightarrow> audio_seconds_milli E v) requests)"
  have one: "entry_key_milli key (stt_usage E ms g) =
      (if ?here then (case g of (k, requests) \<Rightarrow> if k = (provider, model) then ?f requests else 0) else 0)" for g
  proof (cases g)
    case (Pair k requests)
    have "List.map_filter (\<lambda>(q, n). map_option (\<lambda>v. (q, v)) n) requests = [] \<Longrightarrow> ?f requests = 0"
      using map_filter_sum [of E requests] by simp
    then show ?thesis unfolding Pair
      by (cases k) (auto simp: entry_key_milli_def stt_usage_def key map_filter_sum Let_def)
  qed
  have "reported_total key (map (stt_usage E ms) (stt_groups items)) =
      (if ?here then sum_list (map (\<lambda>(k, requests). if k = (provider, model) then ?f requests else 0) (stt_groups items)) else 0)"
    unfolding reported_total_def map_map comp_def one by (cases ?here) (auto simp: split_beta')
  also have "\<dots> = (if ?here then (case map_of (stt_groups items) (provider, model) of None \<Rightarrow> 0 | Some v \<Rightarrow> ?f v) else 0)"
    unfolding stt_groups_def sum_by_key [OF distinct_group_by] ..
  also have "\<dots> = (if ?here then ?f (filter (\<lambda>(q, n). (bq_provider q, bq_model q) = (provider, model)) (stt_items items)) else 0)"
    unfolding stt_groups_def map_of_group_by split_beta' prod.inject by auto
  also have "\<dots> = sum_list (map (stt_milli (audio_seconds_milli E) key) (stt_items items))"
    by (simp add: key stt_filter_sum)
  finally show ?thesis .
qed

lemma reported_total_sort: "reported_total key (sort_key f es) = reported_total key es"
  unfolding reported_total_def by (rule sum_list_mset) simp


section \<open>Every item is priced, and nothing is clamped\<close>

lemma latest_row_in: "latest_row r rows \<in> set (r # rows)"
  by (induction r rows rule: latest_row.induct) auto

lemma latest_row_max: "x \<in> set (r # rows) \<Longrightarrow>
    (pr_effective_from x, pr_id x) \<le> (pr_effective_from (latest_row r rows), pr_id (latest_row r rows))"
proof (induction r rows arbitrary: x rule: latest_row.induct)
  case (2 best r rows)
  let ?next = "if (pr_effective_from best, pr_id best) < (pr_effective_from r, pr_id r) then r else best"
  let ?k = "\<lambda>y. (pr_effective_from y, pr_id y)"
  have "\<exists>y \<in> set (?next # rows). ?k x \<le> ?k y"
    using "2.prems" by (cases "?k best < ?k r") (auto simp del: less_prod_simp less_eq_prod_simp)
  then show ?case using 2(1) order_trans by (metis latest_row.simps(2))
qed simp

text \<open>The price of a call is in effect at its time, is one of the project's own when it has any, and
  no later one in its scope is in effect.\<close>

theorem match_price_latest:
  assumes "match_price E prices project (Some provider) (Some model) (Some unit) now = Some r"
  shows "\<exists>scope rows. rows = rows_in_effect prices scope (ce_lower E provider) (ce_lower E model) unit now
    \<and> r \<in> set rows
    \<and> (\<forall>x \<in> set rows. (pr_effective_from x, pr_id x) \<le> (pr_effective_from r, pr_id r))
    \<and> (scope = Some project
       \<or> rows_in_effect prices (Some project) (ce_lower E provider) (ce_lower E model) unit now = [])"
proof -
  let ?rows = "\<lambda>scope. rows_in_effect prices scope (ce_lower E provider) (ce_lower E model) unit now"
  have pick: "latest_row x xs \<in> set (?rows scope) \<and> (\<forall>y \<in> set (?rows scope).
      (pr_effective_from y, pr_id y) \<le> (pr_effective_from (latest_row x xs), pr_id (latest_row x xs)))"
    if "?rows scope = x # xs" for scope x xs
    unfolding that using latest_row_in latest_row_max by blast
  show ?thesis
  proof (cases "?rows (Some project)")
    case (Cons x xs)
    then have "r = latest_row x xs" using assms by (simp add: match_price_def)
    then show ?thesis using pick [OF Cons] by blast
  next
    case Nil
    then obtain x xs where x: "?rows None = x # xs" "r = latest_row x xs"
      using assms by (auto simp: match_price_def split: list.splits)
    then show ?thesis using pick [OF x(1)] Nil by blast
  qed
qed

text \<open>What the price of an item rests on: half up to a whole nano-dollar, within the catalog's range.\<close>

definition rounds_half_up :: "int \<Rightarrow> price_row \<Rightarrow> int \<Rightarrow> bool" where
  "rounds_half_up m price c = (let d = pr_per_quantity price * 1000; exact = m * pr_price_nano_usd price in
     2 * d * c - d \<le> 2 * exact \<and> 2 * exact < 2 * d * c + d)"

definition item_exact :: "cost_item \<Rightarrow> bool" where
  "item_exact item = (case (ci_price item, ci_cost item) of
       (None, None) \<Rightarrow> ci_status item = (if ue_kind (ci_entry item) = Not_Reported then Usage_Not_Reported else No_Price)
     | (Some price, Some c) \<Rightarrow>
         (case ue_kind (ci_entry item) of
            Reported \<Rightarrow> ci_status item = Priced
          | Estimate \<Rightarrow> ci_status item = Estimated
          | Not_Reported \<Rightarrow> False)
         \<and> c \<le> INT64_MAX \<and> rounds_half_up (the (ue_milli (ci_entry item))) price c
     | _ \<Rightarrow> False)"

definition status_cost :: "cost_status \<Rightarrow> cost_item \<Rightarrow> int" where
  "status_cost status item = (if ci_status item = status then the (ci_cost item) else 0)"

definition prices_valid :: "price_row list \<Rightarrow> bool" where
  "prices_valid prices = list_all (\<lambda>r. 0 < pr_per_quantity r) prices"

definition usage_valid :: "usage_entry list \<Rightarrow> bool" where
  "usage_valid usage = list_all (\<lambda>e. ue_kind e = Not_Reported \<or> ue_milli e \<noteq> None) usage"

lemma match_price_in: "match_price E prices project provider model unit now = Some r \<Longrightarrow> r \<in> set prices"
proof -
  have "latest_row x xs \<in> set prices" if "rows_in_effect prices scope p m u now = x # xs" for scope p m u x xs
  proof -
    have "set (x # xs) \<subseteq> set prices" unfolding that [symmetric] by (auto simp: rows_in_effect_def)
    then show ?thesis using latest_row_in by blast
  qed
  then show "match_price E prices project provider model unit now = Some r \<Longrightarrow> r \<in> set prices"
    by (auto simp: match_price_def split: option.splits list.splits)
qed

lemma cost_of_rounds:
  assumes "0 < pr_per_quantity price"
  shows "\<exists>c. cost_of m price = Some c \<and> rounds_half_up m price c"
proof -
  let ?d = "pr_per_quantity price * 1000" and ?n = "2 * m * pr_price_nano_usd price + pr_per_quantity price * 1000"
  have d: "0 < 2 * ?d" using assms by simp
  have "?n div (2 * ?d) * (2 * ?d) + ?n mod (2 * ?d) = ?n" by (rule div_mult_mod_eq)
  moreover have "0 \<le> ?n mod (2 * ?d)" "?n mod (2 * ?d) < 2 * ?d"
    using d by (rule pos_mod_sign, rule pos_mod_bound)
  ultimately have "rounds_half_up m price (?n div (2 * ?d))"
    unfolding rounds_half_up_def Let_def by (simp add: algebra_simps)
  then show ?thesis using assms by (simp add: cost_of_def Let_def algebra_simps)
qed

lemma price_entry_exact:
  assumes "prices_valid prices" "ue_kind e = Not_Reported \<or> ue_milli e \<noteq> None"
  shows "\<exists>item. price_entry E prices project now e = Some item \<and> item_exact item \<and> ci_entry item = e
    \<and> (ci_status item = Usage_Not_Reported \<longleftrightarrow> ue_kind e = Not_Reported)
    \<and> (ci_status item = Estimated \<longrightarrow> ue_kind e = Estimate)"
proof (cases "ue_kind e = Not_Reported")
  case True
  then show ?thesis by (simp add: price_entry_def Let_def item_exact_def)
next
  case False
  then obtain m where m: "ue_milli e = Some m" using assms(2) by auto
  show ?thesis
  proof (cases "match_price E prices project (ue_provider e) (ue_model e) (ue_unit e) now")
    case None
    then show ?thesis using False by (simp add: price_entry_def Let_def item_exact_def)
  next
    case (Some r)
    then have "0 < pr_per_quantity r"
      using match_price_in [OF Some] assms(1) by (auto simp: prices_valid_def list_all_iff)
    then obtain c where "cost_of m r = Some c" "rounds_half_up m r c" using cost_of_rounds by blast
    then show ?thesis using False
      by (cases "ue_kind e") (simp_all add: price_entry_def Let_def item_exact_def Some m)
  qed
qed

lemma price_loop_result:
  assumes "prices_valid prices" "usage_valid usage"
  shows "\<exists>new. price_loop E prices project now usage (items, lower, estimated, any_estimated, unknown) =
      Some (items @ new, lower + sum_list (map (status_cost Priced) new),
        estimated + sum_list (map (status_cost Estimated) new),
        any_estimated \<or> Estimated \<in> ci_status ` set new,
        unknown + length (filter (\<lambda>i. ci_price i = None) new))
    \<and> map ci_entry new = usage \<and> list_all item_exact new"
  using assms(2)
proof (induction usage arbitrary: items lower estimated any_estimated unknown)
  case (Cons e usage)
  then have "usage_valid usage" "ue_kind e = Not_Reported \<or> ue_milli e \<noteq> None" by (simp_all add: usage_valid_def)
  then obtain item where item: "price_entry E prices project now e = Some item" "item_exact item" "ci_entry item = e"
    using price_entry_exact [OF assms(1)] by blast
  have tail: "\<exists>new. price_loop E prices project now usage (items', lower', estimated', any', unknown') =
      Some (items' @ new, lower' + sum_list (map (status_cost Priced) new),
        estimated' + sum_list (map (status_cost Estimated) new),
        any' \<or> Estimated \<in> ci_status ` set new,
        unknown' + length (filter (\<lambda>i. ci_price i = None) new))
    \<and> map ci_entry new = usage \<and> list_all item_exact new" for items' lower' estimated' any' unknown'
    by (rule Cons.IH) fact
  have sc: "status_cost status item = (if ci_status item = status then the (ci_cost item) else 0)" for status
    by (simp add: status_cost_def)
  have ex_extend: "\<exists>new. Q new" if "\<exists>new. P new" "\<And>new. P new \<Longrightarrow> Q (item # new)" for P Q
    using that by blast
  consider c where "ci_status item = Priced" "ci_cost item = Some c" "ci_price item \<noteq> None"
    | c where "ci_status item = Estimated" "ci_cost item = Some c" "ci_price item \<noteq> None"
    | "ci_status item \<in> {No_Price, Usage_Not_Reported}" "ci_price item = None"
    using item(2) by (auto simp: item_exact_def split: option.splits usage_kind.splits if_splits)
  then show ?case
  proof cases
    case (1 c)
    from tail [of "items @ [item]" "lower + c" estimated any_estimated unknown]
    show ?thesis by (rule ex_extend) (use 1 item in \<open>simp add: sc\<close>)
  next
    case (2 c)
    from tail [of "items @ [item]" lower "estimated + c" True unknown]
    show ?thesis by (rule ex_extend) (use 2 item in \<open>simp add: sc\<close>)
  next
    case 3
    from tail [of "items @ [item]" lower estimated any_estimated "Suc unknown"]
    show ?thesis by (rule ex_extend) (use 3 item in \<open>auto simp: sc\<close>)
  qed
qed simp

lemma call_usage_valid: "usage_valid (call_usage E items user_audio_ms)"
proof -
  have r: "ue_milli (reported_entry e) \<noteq> None" for e by (cases e rule: reported_entry.cases) simp
  have s: "ue_kind (stt_usage E user_audio_ms g) = Not_Reported \<or> ue_milli (stt_usage E user_audio_ms g) \<noteq> None" for g
    by (cases user_audio_ms) (auto simp: stt_usage_def Let_def split: prod.splits)
  have q: "e \<in> set (request_unreported request) \<Longrightarrow> ue_kind e = Not_Reported" for e request
    by (auto simp: request_unreported_def not_reported_entry_def split: list.splits)
  have u: "e \<in> set (stt_unreported g) \<Longrightarrow> ue_kind e = Not_Reported" for e g
    by (auto simp: stt_unreported_def split: prod.splits if_splits)
  show ?thesis
    using r s q u by (fastforce simp: usage_valid_def list_all_iff call_usage_def Let_def)
qed

text \<open>C40. Pricing a call's own usage always returns, with one item per usage entry in order. An item
  has a price exactly when it has a cost, which is its exact price rounded half up and within the
  catalog's 64 bits, and it is labelled priced or estimated as its entry was reported or estimated, and
  otherwise without a price or not reported; the two totals are the sums of the priced and of the estimated items, absent
  when either passes 64 bits or there is nothing to add, and the rest are counted as unknown.\<close>

theorem call_is_priced:
  assumes "prices_valid prices"
  shows "\<exists>c. price_usage E (call_usage E items user_audio_ms) prices project now = Some c
    \<and> map ci_entry (cc_items c) = call_usage E items user_audio_ms
    \<and> list_all item_exact (cc_items c)
    \<and> cc_unknown c = length (filter (\<lambda>i. ci_price i = None) (cc_items c))
    \<and> (let lower = sum_list (map (status_cost Priced) (cc_items c));
           estimated = sum_list (map (status_cost Estimated) (cc_items c));
           fits = (lower \<le> INT64_MAX \<and> estimated \<le> INT64_MAX)
       in cc_lower_bound c = (if cc_items c \<noteq> [] \<and> fits then Some lower else None)
        \<and> cc_estimated c = (if Estimated \<in> ci_status ` set (cc_items c) \<and> fits then Some estimated else None))"
proof -
  obtain new where "price_loop E prices project now (call_usage E items user_audio_ms) ([], 0, 0, False, 0) =
      Some ([] @ new, 0 + sum_list (map (status_cost Priced) new), 0 + sum_list (map (status_cost Estimated) new),
        False \<or> Estimated \<in> ci_status ` set new, 0 + length (filter (\<lambda>i. ci_price i = None) new))"
    and new: "map ci_entry new = call_usage E items user_audio_ms" "list_all item_exact new"
    using price_loop_result [OF assms call_usage_valid] by blast
  then show ?thesis by (simp add: price_usage_def Let_def new)
qed

definition sample_cost_env :: cost_env where
  "sample_cost_env = \<lparr>ce_lower = (\<lambda>t. t), ce_times_1000 = (\<lambda>r. Some (r * 1000)),
     ce_nearest = (\<lambda>r. Some r), ce_shortest = (\<lambda>r. r)\<rparr>"

definition sample_row :: price_row where
  "sample_row = \<lparr>pr_id = 1, pr_project_id = None, pr_provider = ''p'', pr_model = ''m'',
     pr_unit = ''output_token'', pr_price_nano_usd = 5, pr_per_quantity = 2, pr_effective_from = 0\<rparr>"

theorem call_is_priced_witness:
  "\<exists>c. price_usage sample_cost_env (call_usage sample_cost_env
       [Metered \<lparr>bq_operation = ''llm'', bq_provider = Some ''p'', bq_model = Some ''m'', bq_trace_id = ''t'',
          bq_span_id = ''s''\<rparr> ''output_token'' (Some 3)] None) [sample_row] ''project'' 1 = Some c
     \<and> list_all item_exact (cc_items c)"
  using call_is_priced [of "[sample_row]" sample_cost_env
      "[Metered \<lparr>bq_operation = ''llm'', bq_provider = Some ''p'', bq_model = Some ''m'', bq_trace_id = ''t'',
          bq_span_id = ''s''\<rparr> ''output_token'' (Some 3)]" None "''project''" 1]
  by (auto simp: prices_valid_def sample_row_def)

text \<open>A quantity of the API is exact: it denotes the measured thousandths, or it is absent.\<close>

theorem api_quantity_exact:
  "(case api_quantity E (Some m) of
      None \<Rightarrow> True
    | Some (A_Int i) \<Rightarrow> m = i * 1000 \<and> i \<le> MAX_SAFE_API_INTEGER
    | Some (A_Float f) \<Rightarrow> ce_shortest E f * 1000 = of_int m)"
  by (auto simp: api_quantity_def split: option.splits)

end
