(* ===== verification/ExporterRegistry.thy ===== *)
theory ExporterRegistry
  imports Sanitising
begin

text \<open>
  The registry of incident projections (\<^verbatim>\<open>exporters/registry.py\<close>): names, their destinations, and the
  gate every named export passes. A projection is a function from the bundle to a document; a name
  given by a caller may be any value. \<open>strip\<close> is \<^verbatim>\<open>str.strip\<close>.
\<close>

section \<open>Registrations\<close>

datatype registry_error =
    Bad_Name | Not_Callable | Already_Registered | Unknown_Exporter "ustring list" | Export_Denied string

record ('b, 'd) registration =
  rg_name :: ustring
  rg_export :: "'b \<Rightarrow> 'd"
  rg_destination :: ustring

type_synonym ('b, 'd) registry = "(ustring \<times> ('b, 'd) registration) list"

definition validated_name :: "(ustring \<Rightarrow> ustring) \<Rightarrow> attr \<Rightarrow> ustring option" where
  "validated_name strip v = (case v of
       J_Str t \<Rightarrow> if t = [] \<or> t \<noteq> strip t then None else Some t
     | _ \<Rightarrow> None)"

text \<open>\<open>exporter\<close> is \<open>None\<close> when it is not callable, \<open>destination\<close> when it is not given.\<close>

definition register_exporter :: "(ustring \<Rightarrow> ustring) \<Rightarrow> attr \<Rightarrow> ('b \<Rightarrow> 'd) option \<Rightarrow> attr option \<Rightarrow> bool
    \<Rightarrow> ('b, 'd) registry \<Rightarrow> registry_error + (('b, 'd) registration \<times> ('b, 'd) registry)" where
  "register_exporter strip name exporter destination replace r =
     (case validated_name strip name of
        None \<Rightarrow> Inl Bad_Name
      | Some valid \<Rightarrow> (case exporter of
          None \<Rightarrow> Inl Not_Callable
        | Some f \<Rightarrow> (case validated_name strip (case destination of None \<Rightarrow> name | Some d \<Rightarrow> d) of
            None \<Rightarrow> Inl Bad_Name
          | Some target \<Rightarrow>
              let new = \<lparr>rg_name = valid, rg_export = f, rg_destination = target\<rparr> in
              if \<not> replace \<and> map_of r valid \<noteq> None then Inl Already_Registered
              else Inr (new, AList.update valid new r))))"

definition unregister_exporter :: "(ustring \<Rightarrow> ustring) \<Rightarrow> attr \<Rightarrow> ('b, 'd) registry
    \<Rightarrow> registry_error + (bool \<times> ('b, 'd) registry)" where
  "unregister_exporter strip name r = (case validated_name strip name of
       None \<Rightarrow> Inl Bad_Name
     | Some valid \<Rightarrow> Inr (map_of r valid \<noteq> None, AList.delete valid r))"

text \<open>\<open>ordered\<close> sorts the names for the message.\<close>

definition get_exporter :: "(ustring \<Rightarrow> ustring) \<Rightarrow> (ustring list \<Rightarrow> ustring list) \<Rightarrow> attr \<Rightarrow> ('b, 'd) registry
    \<Rightarrow> registry_error + ('b, 'd) registration" where
  "get_exporter strip ordered name r = (case validated_name strip name of
       None \<Rightarrow> Inl Bad_Name
     | Some valid \<Rightarrow> (case map_of r valid of
         None \<Rightarrow> Inl (Unknown_Exporter (ordered (map fst r)))
       | Some found \<Rightarrow> Inr found))"

text \<open>\<open>rows\<close> reads the privacy rows of a bundle's profile.\<close>

definition export_incident :: "(ustring \<Rightarrow> ustring) \<Rightarrow> (ustring list \<Rightarrow> ustring list) \<Rightarrow> ('b \<Rightarrow> class_row list)
    \<Rightarrow> 'b \<Rightarrow> attr \<Rightarrow> ('b, 'd) registry \<Rightarrow> registry_error + 'd" where
  "export_incident strip ordered rows bundle format r = (case get_exporter strip ordered format r of
       Inl e \<Rightarrow> Inl e
     | Inr found \<Rightarrow> (case assert_export_allowed (rows bundle) (rg_destination found) of
         Some message \<Rightarrow> Inl (Export_Denied message)
       | None \<Rightarrow> Inr (rg_export found bundle)))"

section \<open>Runs\<close>

datatype ('b, 'd) registry_call =
    Register attr "('b \<Rightarrow> 'd) option" "attr option" bool
  | Unregister attr

fun registry_step :: "(ustring \<Rightarrow> ustring) \<Rightarrow> ('b, 'd) registry_call \<Rightarrow> ('b, 'd) registry \<Rightarrow> ('b, 'd) registry" where
  "registry_step strip (Register name f destination replace) r =
     (case register_exporter strip name f destination replace r of Inl e \<Rightarrow> r | Inr (new, r') \<Rightarrow> r')"
| "registry_step strip (Unregister name) r =
     (case unregister_exporter strip name r of Inl e \<Rightarrow> r | Inr (removed, r') \<Rightarrow> r')"

definition registry_run :: "(ustring \<Rightarrow> ustring) \<Rightarrow> ('b, 'd) registry_call list \<Rightarrow> ('b, 'd) registry" where
  "registry_run strip calls = fold (registry_step strip) calls []"

lemma validated_name_Some: "validated_name strip v = Some t \<Longrightarrow> v = J_Str t \<and> t \<noteq> [] \<and> strip t = t"
  by (auto simp: validated_name_def split: attr.splits if_splits)

text \<open>
  What a history of calls registers under a name, from the calls alone. A call claims a name when it is
  well formed and names it: a registration with its projection and destination, or a removal. A
  registration takes the name if it is free or is to be replaced; a removal frees it.
\<close>

definition trimmed :: "(ustring \<Rightarrow> ustring) \<Rightarrow> ustring \<Rightarrow> bool" where
  "trimmed strip name \<longleftrightarrow> name \<noteq> [] \<and> strip name = name"

definition destination_of :: "(ustring \<Rightarrow> ustring) \<Rightarrow> ustring \<Rightarrow> attr option \<Rightarrow> ustring option" where
  "destination_of strip name destination = (case destination of
       None \<Rightarrow> Some name
     | Some (J_Str d) \<Rightarrow> if trimmed strip d then Some d else None
     | _ \<Rightarrow> None)"

definition claim_on :: "(ustring \<Rightarrow> ustring) \<Rightarrow> ustring \<Rightarrow> ('b, 'd) registry_call
    \<Rightarrow> (('b, 'd) registration \<times> bool) option option" where
  "claim_on strip name call = (case call of
       Register (J_Str n) (Some f) destination replace \<Rightarrow>
         if n = name \<and> trimmed strip n
         then map_option (\<lambda>d. Some (\<lparr>rg_name = n, rg_export = f, rg_destination = d\<rparr>, replace)) (destination_of strip n destination)
         else None
     | Unregister (J_Str n) \<Rightarrow> if n = name \<and> trimmed strip n then Some None else None
     | _ \<Rightarrow> None)"

fun settle_claim :: "(('b, 'd) registration \<times> bool) option option \<Rightarrow> ('b, 'd) registration option \<Rightarrow> ('b, 'd) registration option" where
  "settle_claim None holder = holder"
| "settle_claim (Some None) holder = None"
| "settle_claim (Some (Some (x, replace))) holder = (if replace \<or> holder = None then Some x else holder)"

definition registered_under :: "(ustring \<Rightarrow> ustring) \<Rightarrow> ('b, 'd) registry_call list \<Rightarrow> ustring \<Rightarrow> ('b, 'd) registration option" where
  "registered_under strip calls name = fold (\<lambda>call. settle_claim (claim_on strip name call)) calls None"

lemma validated_name_trimmed:
  "validated_name strip (J_Str t) = (if trimmed strip t then Some t else None)"
  by (auto simp: validated_name_def trimmed_def)

lemma register_exporter_inert:
  assumes "\<And>n f. name = J_Str n \<Longrightarrow> exporter = Some f \<Longrightarrow> \<not> (trimmed strip n \<and> destination_of strip n destination \<noteq> None)"
  shows "\<exists>e. register_exporter strip name exporter destination replace r = Inl e"
  using assms
  by (cases exporter; cases destination)
     (auto simp: register_exporter_def destination_of_def validated_name_trimmed trimmed_def dest!: validated_name_Some
       split: option.splits attr.splits if_splits)

lemma register_exporter_claims:
  assumes "trimmed strip n" "destination_of strip n destination = Some d"
  shows "register_exporter strip (J_Str n) (Some f) destination replace r =
    (if \<not> replace \<and> map_of r n \<noteq> None then Inl Already_Registered
     else Inr (\<lparr>rg_name = n, rg_export = f, rg_destination = d\<rparr>,
               AList.update n \<lparr>rg_name = n, rg_export = f, rg_destination = d\<rparr> r))"
  using assms
  by (auto simp: register_exporter_def destination_of_def validated_name_trimmed Let_def split: option.splits attr.splits if_splits)

text \<open>One call does to the dictionary what its claim does to each name.\<close>

lemma registry_step_settles:
  "map_of (registry_step strip call r) name = settle_claim (claim_on strip name call) (map_of r name)"
proof (cases call)
  case (Register given exporter destination replace)
  show ?thesis
  proof (cases "\<exists>n f d. given = J_Str n \<and> exporter = Some f \<and> trimmed strip n \<and> destination_of strip n destination = Some d")
    case True
    then obtain n f d where n: "given = J_Str n" "exporter = Some f" "trimmed strip n" "destination_of strip n destination = Some d"
      by blast
    show ?thesis
      using n register_exporter_claims [OF n(3,4), of f replace r]
      by (auto simp: Register claim_on_def dict_simps)
  next
    case False
    then have "claim_on strip name call = None"
      by (auto simp: Register claim_on_def split: attr.splits option.splits)
    moreover have "registry_step strip call r = r"
    proof -
      obtain e where "register_exporter strip given exporter destination replace r = Inl e"
        using register_exporter_inert [of given exporter strip destination replace r] False
        by (meson not_None_eq)
      then show ?thesis by (simp add: Register)
    qed
    ultimately show ?thesis by simp
  qed
next
  case (Unregister given)
  show ?thesis
  proof (cases "\<exists>n. given = J_Str n \<and> trimmed strip n")
    case True
    then show ?thesis
      by (auto simp: Unregister claim_on_def unregister_exporter_def validated_name_trimmed dict_simps)
  next
    case False
    then have "validated_name strip given = None"
      by (cases given) (auto simp: validated_name_trimmed, simp_all add: validated_name_def)
    then show ?thesis
      using False by (cases given) (simp_all add: Unregister claim_on_def unregister_exporter_def)
  qed
qed

lemma registry_fold_settles:
  "map_of (fold (registry_step strip) calls r) name = fold (\<lambda>call. settle_claim (claim_on strip name call)) calls (map_of r name)"
  by (induction calls arbitrary: r) (simp_all add: registry_step_settles)

lemma registry_holds: "map_of (registry_run strip calls) name = registered_under strip calls name"
  by (simp add: registry_run_def registered_under_def registry_fold_settles)

lemma registry_step_distinct: "distinct (map fst r) \<Longrightarrow> distinct (map fst (registry_step strip call r))"
  by (cases call)
     (auto simp: register_exporter_def unregister_exporter_def Let_def distinct_update distinct_delete
       split: option.splits)

lemma registry_distinct: "distinct (map fst (registry_run strip calls))"
proof -
  have "distinct (map fst r) \<Longrightarrow> distinct (map fst (fold (registry_step strip) calls r))" for r
    by (induction calls arbitrary: r) (simp_all add: registry_step_distinct)
  then show ?thesis by (simp add: registry_run_def)
qed

lemma assert_export_rows: "assert_export_allowed rows destination = None \<longleftrightarrow>
    \<not> list_ex (\<lambda>row. cr_captured row \<and> export_denial_reason (cr_export row) destination \<noteq> None) rows"
  by (induction rows) (auto split: option.splits)

text \<open>C26. A named export, on every branch, after any history of registrations and removals. A format that
  is not a non-empty trimmed string is refused. A name that the history has not registered, or has removed
  since, is refused with the names that are registered. Otherwise the export policy of every captured class
  is asked about the destination declared by the very registration that holds the name, which is the first
  one since the name was free or the last one that replaced it: if one class denies it nothing is
  projected, and else the document is what that registration's projection makes of the bundle.\<close>

theorem named_exports_are_governed:
  "case format of
     J_Str name \<Rightarrow>
       if \<not> trimmed strip name
       then export_incident strip ordered rows bundle format (registry_run strip calls) = Inl Bad_Name
       else (case registered_under strip calls name of
           None \<Rightarrow> (\<exists>names. export_incident strip ordered rows bundle format (registry_run strip calls)
                 = Inl (Unknown_Exporter (ordered names))
               \<and> distinct names \<and> set names = {n. registered_under strip calls n \<noteq> None})
         | Some x \<Rightarrow>
             if list_ex (\<lambda>row. cr_captured row \<and> export_denial_reason (cr_export row) (rg_destination x) \<noteq> None) (rows bundle)
             then (\<exists>message. export_incident strip ordered rows bundle format (registry_run strip calls) = Inl (Export_Denied message))
             else export_incident strip ordered rows bundle format (registry_run strip calls) = Inr (rg_export x bundle))
   | _ \<Rightarrow> export_incident strip ordered rows bundle format (registry_run strip calls) = Inl Bad_Name"
proof (cases "\<exists>name. format = J_Str name \<and> trimmed strip name")
  case False
  then have "validated_name strip format = None"
    by (cases format) (auto simp: validated_name_trimmed, simp_all add: validated_name_def)
  then show ?thesis using False by (cases format) (simp_all add: export_incident_def get_exporter_def)
next
  case True
  then obtain name where n: "format = J_Str name" "trimmed strip name" by blast
  show ?thesis
  proof (cases "registered_under strip calls name")
    case None
    have "export_incident strip ordered rows bundle format (registry_run strip calls)
        = Inl (Unknown_Exporter (ordered (map fst (registry_run strip calls))))"
      using n None by (simp add: export_incident_def get_exporter_def validated_name_trimmed registry_holds)
    moreover have "set (map fst (registry_run strip calls)) = {n. registered_under strip calls n \<noteq> None}"
      by (auto simp: registry_holds [symmetric] map_of_eq_None_iff)
    ultimately show ?thesis using n None registry_distinct [of strip calls] by auto
  next
    case (Some x)
    then show ?thesis
      using n assert_export_rows [of "rows bundle" "rg_destination x"]
      by (auto simp: export_incident_def get_exporter_def validated_name_trimmed registry_holds split: option.splits)
  qed
qed

text \<open>What a removal answers: whether the name was held.\<close>

theorem removal_answers:
  assumes "trimmed strip name"
  shows "unregister_exporter strip (J_Str name) (registry_run strip calls)
    = Inr (registered_under strip calls name \<noteq> None, AList.delete name (registry_run strip calls))"
  using assms by (simp add: unregister_exporter_def validated_name_trimmed registry_holds)

theorem removal_answers_witness:
  "unregister_exporter (\<lambda>s. s) (J_Str [1]) (registry_run (\<lambda>s. s) ([] :: (nat, nat) registry_call list)) = Inr (False, [])"
  using removal_answers [of "\<lambda>s. s" "[1]" "[]"] by (simp add: trimmed_def registered_under_def registry_run_def)

text \<open>A name in use is not taken over unless \<^verbatim>\<open>replace\<close> is given.\<close>

theorem duplicate_names_refused:
  assumes "map_of r name = Some x"
  shows "\<not> (\<exists>new r'. register_exporter strip (J_Str name) f destination False r = Inr (new, r'))"
  using assms by (auto simp: register_exporter_def Let_def dest!: validated_name_Some split: option.splits)

end
