(* ===== verification/CredentialCache.thy ===== *)
theory CredentialCache
  imports Complex_Main Prelude
begin

text \<open>
  The memory of proven credentials (\<^verbatim>\<open>credential_cache.py\<close>): an insertion-ordered dictionary from a
  credential's digest to the key it proved and when that expires. Times are the monotonic clock's
  nanoseconds, given to each call.
\<close>

section \<open>The cache\<close>

definition CREDENTIAL_VERDICT_TTL_NANO :: nat where "CREDENTIAL_VERDICT_TTL_NANO = 60000000000"
definition CREDENTIAL_VERDICT_CAPACITY :: nat where "CREDENTIAL_VERDICT_CAPACITY = 1024"

record verdict_cache =
  vc_capacity :: nat
  vc_ttl :: int
  vc_entries :: "(string \<times> string \<times> int) list"

text \<open>
  \<open>None\<close> is the \<^verbatim>\<open>ValueError\<close>. The lifetime is a float of seconds, here its exact value, and
  \<open>nano\<close> is its float product with a thousand million, which \<^verbatim>\<open>int\<close> truncates.
\<close>

definition truncate_int :: "rat \<Rightarrow> int" where
  "truncate_int r = (if r < 0 then \<lceil>r\<rceil> else \<lfloor>r\<rfloor>)"

definition new_cache :: "(rat \<Rightarrow> rat) \<Rightarrow> nat \<Rightarrow> rat \<Rightarrow> verdict_cache option" where
  "new_cache nano capacity ttl_seconds =
     (if capacity < 1 \<or> ttl_seconds \<le> 0 then None
      else Some \<lparr>vc_capacity = capacity, vc_ttl = truncate_int (nano ttl_seconds), vc_entries = []\<rparr>)"

definition cache_verdict :: "int \<Rightarrow> string \<Rightarrow> verdict_cache \<Rightarrow> string option \<times> verdict_cache" where
  "cache_verdict now digest c = (case map_of (vc_entries c) digest of
       None \<Rightarrow> (None, c)
     | Some (key_id, expires_at) \<Rightarrow>
         if expires_at \<le> now then (None, c\<lparr>vc_entries := AList.delete digest (vc_entries c)\<rparr>)
         else (Some key_id, c\<lparr>vc_entries := od_move_to_end digest (vc_entries c)\<rparr>))"

definition cache_remember :: "int \<Rightarrow> string \<Rightarrow> string \<Rightarrow> verdict_cache \<Rightarrow> verdict_cache" where
  "cache_remember now digest key_id c =
     (let entries = od_set_last digest (key_id, now + vc_ttl c) (vc_entries c)
      in c\<lparr>vc_entries := drop (length entries - vc_capacity c) entries\<rparr>)"

definition cache_forget :: "string \<Rightarrow> verdict_cache \<Rightarrow> verdict_cache" where
  "cache_forget digest c = c\<lparr>vc_entries := AList.delete digest (vc_entries c)\<rparr>"

section \<open>Runs\<close>

datatype cache_call = Ask int string | Pass int string string | Forget string

fun cache_step :: "cache_call \<Rightarrow> verdict_cache \<Rightarrow> verdict_cache" where
  "cache_step (Ask now digest) c = snd (cache_verdict now digest c)"
| "cache_step (Pass now digest key_id) c = cache_remember now digest key_id c"
| "cache_step (Forget digest) c = cache_forget digest c"

definition cache_run :: "cache_call list \<Rightarrow> verdict_cache \<Rightarrow> verdict_cache" where
  "cache_run calls c = fold cache_step calls c"

text \<open>The last proof of a credential that was not forgotten since: the key and when.\<close>

fun last_proof :: "string \<Rightarrow> cache_call list \<Rightarrow> (string \<times> int) option" where
  "last_proof digest [] = None"
| "last_proof digest (Ask now d # earlier) = last_proof digest earlier"
| "last_proof digest (Pass now d key_id # earlier) =
     (if d = digest then Some (key_id, now) else last_proof digest earlier)"
| "last_proof digest (Forget d # earlier) = (if d = digest then None else last_proof digest earlier)"

definition cache_ok :: "cache_call list \<Rightarrow> verdict_cache \<Rightarrow> bool" where
  "cache_ok history c =
     (distinct (map fst (vc_entries c)) \<and> length (vc_entries c) \<le> vc_capacity c
      \<and> list_all (\<lambda>(digest, key_id, expires_at).
          last_proof digest history = Some (key_id, expires_at - vc_ttl c)) (vc_entries c))"

lemma set_od_set_last: "set (od_set_last k v d) = insert (k, v) {e \<in> set d. fst e \<noteq> k}"
  by (auto simp: od_set_last_def AList.delete_eq)

lemma cache_step_params [simp]: "vc_capacity (cache_step call c) = vc_capacity c" "vc_ttl (cache_step call c) = vc_ttl c"
  by (cases call; auto simp: cache_verdict_def cache_remember_def cache_forget_def Let_def split: option.splits)+

lemma delete_ok:
  "cache_ok history c \<Longrightarrow> (\<And>digest. digest \<noteq> d \<Longrightarrow> last_proof digest history' = last_proof digest history)
     \<Longrightarrow> cache_ok history' (c\<lparr>vc_entries := AList.delete d (vc_entries c)\<rparr>)"
  using length_delete [of d "vc_entries c"]
  by (auto simp: cache_ok_def list_all_iff AList.delete_eq distinct_map_filter
      intro: order_trans [OF length_filter_le])

lemma remember_ok:
  assumes "cache_ok history c"
  shows "cache_ok (Pass now d key_id # history) (cache_remember now d key_id c)"
proof -
  let ?entries = "od_set_last d (key_id, now + vc_ttl c) (vc_entries c)"
  let ?kept = "drop (length ?entries - vc_capacity c) ?entries"
  have "distinct (map fst ?kept)"
    using assms by (simp add: cache_ok_def drop_map [symmetric] distinct_od_set_last distinct_drop)
  moreover have "last_proof digest (Pass now d key_id # history) = Some (k, expires_at - vc_ttl c)"
    if "(digest, k, expires_at) \<in> set ?kept" for digest k expires_at
  proof -
    have "(digest, k, expires_at) \<in> set ?entries" using that by (rule in_set_dropD)
    then show ?thesis using assms unfolding set_od_set_last by (auto simp: cache_ok_def list_all_iff)
  qed
  ultimately show ?thesis by (auto simp: cache_ok_def cache_remember_def Let_def list_all_iff)
qed

lemma move_ok:
  assumes "cache_ok history c" "map_of (vc_entries c) d = Some v"
  shows "cache_ok history (c\<lparr>vc_entries := od_move_to_end d (vc_entries c)\<rparr>)"
proof -
  let ?moved = "od_set_last d v (vc_entries c)"
  have "length ?moved \<le> vc_capacity c"
    using length_od_set_last_present [of "vc_entries c" d v] assms by (simp add: cache_ok_def)
  moreover have "set ?moved \<subseteq> set (vc_entries c)"
    using map_of_SomeD [OF assms(2)] by (auto simp: set_od_set_last)
  ultimately show ?thesis using assms
    by (simp add: cache_ok_def od_move_to_end_def distinct_od_set_last list_all_iff) blast
qed

lemma cache_step_ok: "cache_ok history c \<Longrightarrow> cache_ok (call # history) (cache_step call c)"
proof (cases call)
  case (Ask now d)
  assume ok: "cache_ok history c"
  have same: "cache_ok (Ask now d # history) c' = cache_ok history c'" for c' by (simp add: cache_ok_def)
  show ?thesis using ok delete_ok [OF ok, of d history] move_ok [OF ok, of d]
    unfolding Ask same by (auto simp: cache_verdict_def split: option.splits)
next
  case (Pass now d key_id)
  assume "cache_ok history c"
  then show ?thesis unfolding Pass using remember_ok by simp
next
  case (Forget d)
  assume ok: "cache_ok history c"
  show ?thesis unfolding Forget using delete_ok [OF ok, of d "Forget d # history"] by (simp add: cache_forget_def)
qed

lemma cache_run_ok: "cache_ok history c \<Longrightarrow> cache_ok (rev calls @ history) (cache_run calls c)"
proof (induction calls arbitrary: history c)
  case (Cons call calls)
  show ?case using Cons.IH [OF cache_step_ok [OF Cons.prems, of call]] by (simp add: cache_run_def)
qed (simp add: cache_run_def)

lemma cache_run_params: "vc_ttl (cache_run calls c) = vc_ttl c" "vc_capacity (cache_run calls c) = vc_capacity c"
  by (induction calls arbitrary: c) (simp_all add: cache_run_def)

text \<open>C38. After any calls, a verdict the cache gives is the key of the credential's last proof, which was
  not forgotten since and is younger than the lifetime, the given seconds in whole nanoseconds; and the cache never holds more than its
  capacity.\<close>

theorem verdicts_are_fresh:
  assumes "new_cache nano capacity ttl_seconds = Some c"
    and "fst (cache_verdict now digest (cache_run calls c)) = Some key_id"
  shows "(\<exists>proved. last_proof digest (rev calls) = Some (key_id, proved) \<and> now < proved + truncate_int (nano ttl_seconds))
    \<and> length (vc_entries (cache_run calls c)) \<le> capacity"
proof -
  let ?ttl = "truncate_int (nano ttl_seconds)"
  have c: "vc_ttl c = ?ttl" "vc_capacity c = capacity" "cache_ok [] c"
    using assms(1) by (auto simp: new_cache_def cache_ok_def split: if_splits)
  have ok: "cache_ok (rev calls) (cache_run calls c)" using cache_run_ok [OF c(3)] by simp
  obtain expires_at where e: "map_of (vc_entries (cache_run calls c)) digest = Some (key_id, expires_at)" "now < expires_at"
    using assms(2) by (auto simp: cache_verdict_def split: option.splits if_splits)
  then have "last_proof digest (rev calls) = Some (key_id, expires_at - ?ttl)"
    using ok map_of_SomeD [OF e(1)] by (auto simp: cache_ok_def list_all_iff cache_run_params c)
  then show ?thesis using ok e(2) by (auto simp: cache_ok_def cache_run_params c)
qed

theorem verdicts_are_fresh_witness:
  "last_proof ''d'' (rev [Pass 5 ''d'' ''k'', Ask 6 ''e'']) = Some (''k'', 5)"
proof -
  have "\<exists>proved. last_proof ''d'' (rev [Pass 5 ''d'' ''k'', Ask 6 ''e'']) = Some (''k'', proved) \<and> 7 < proved + 10"
    using verdicts_are_fresh [of "\<lambda>s. s * 1000000000" 2 "1 / 100000000" "\<lparr>vc_capacity = 2, vc_ttl = 10, vc_entries = []\<rparr>" 7 "''d''"
        "[Pass 5 ''d'' ''k'', Ask 6 ''e'']" "''k''"]
    by (simp add: new_cache_def cache_run_def cache_verdict_def cache_remember_def od_set_last_def truncate_int_def)
  then show ?thesis by simp
qed

end
