(* ===== verification/SignalScans.thy ===== *)
theory SignalScans
  imports Complex_Main Prelude
begin

text \<open>
  The streaming scans of a recording (\<^verbatim>\<open>signals/audio.py\<close>, \<^verbatim>\<open>signals/vad.py\<close>): exact-zero runs,
  peaks, energy frames and the frames of the speech model. A recording arrives in blocks; each scan
  must give what it would give on the whole recording at once. Samples are of any type: the numeric
  work on one frame (levels, minima and maxima, the model's session) is a parameter.
\<close>

section \<open>Whole frames and the rest\<close>

fun whole_frames :: "nat \<Rightarrow> 'a list \<Rightarrow> 'a list list" where
  "whole_frames n xs = (if n = 0 \<or> length xs < n then [] else take n xs # whole_frames n (drop n xs))"

declare whole_frames.simps [simp del]

definition left_over :: "nat \<Rightarrow> 'a list \<Rightarrow> 'a list" where
  "left_over n xs = drop (length xs div n * n) xs"

lemma whole_frames_short [simp]: "length xs < n \<Longrightarrow> whole_frames n xs = []"
  by (simp add: whole_frames.simps)

lemma left_over_short [simp]: "length xs < n \<Longrightarrow> left_over n xs = xs"
  by (simp add: left_over_def)

lemma length_left_over [simp]: "length (left_over n xs) = length xs mod n"
  by (simp add: left_over_def minus_div_mult_eq_mod)

lemma whole_frames_step: "0 < n \<Longrightarrow> n \<le> length xs \<Longrightarrow> whole_frames n xs = take n xs # whole_frames n (drop n xs)"
  by (subst whole_frames.simps) auto

lemma left_over_step: "0 < n \<Longrightarrow> n \<le> length xs \<Longrightarrow> left_over n xs = left_over n (drop n xs)"
  by (simp add: left_over_def le_div_geq add.commute)

lemma frames_append: "0 < n \<Longrightarrow>
    whole_frames n (xs @ ys) = whole_frames n xs @ whole_frames n (left_over n xs @ ys)
    \<and> left_over n (xs @ ys) = left_over n (left_over n xs @ ys)"
proof (induction n xs rule: whole_frames.induct)
  case (1 n xs)
  show ?case
  proof (cases "length xs < n")
    case False
    then have "n \<le> length xs" by simp
    then show ?thesis using 1(1) [OF _ ] 1(2) False
      by (simp add: whole_frames_step [of n "xs @ ys"] whole_frames_step [of n xs] left_over_step [of n xs]
          left_over_step [of n "xs @ ys"])
  qed simp
qed

lemma concat_frames: "0 < n \<Longrightarrow> concat (whole_frames n xs) @ left_over n xs = xs"
proof (induction n xs rule: whole_frames.induct)
  case (1 n xs)
  show ?case
  proof (cases "length xs < n")
    case False
    then show ?thesis using 1 by (simp add: whole_frames_step left_over_step)
  qed simp
qed

text \<open>
  The contract of a framed scan: feeding a block absorbs the whole frames of what was pending and the
  block, and keeps the rest.
\<close>

locale framed_scan =
  fixes frame :: nat and feed :: "'a list \<Rightarrow> 's \<Rightarrow> 's" and pending :: "'s \<Rightarrow> 'a list"
    and put_pending :: "'a list \<Rightarrow> 's \<Rightarrow> 's" and absorb :: "'a list \<Rightarrow> 's \<Rightarrow> 's"
  assumes frame: "0 < frame"
    and feed_eq: "feed xs s = put_pending (left_over frame (pending s @ xs))
      (fold absorb (whole_frames frame (pending s @ xs)) s)"
    and pending_put: "pending (put_pending p s) = p"
    and put_put: "put_pending p (put_pending q s) = put_pending p s"
    and absorb_put: "absorb x (put_pending p s) = put_pending p (absorb x s)"
begin

lemma fold_put: "fold absorb xs (put_pending p s) = put_pending p (fold absorb xs s)"
  by (induction xs arbitrary: s) (simp_all add: absorb_put)

lemma feed_append: "feed (xs @ ys) s = feed ys (feed xs s)"
  using frames_append [OF frame, of "pending s @ xs" ys]
  by (simp add: feed_eq pending_put fold_put put_put fold_append)

lemma pending_short: "length (pending (feed xs s)) < frame"
  using frame by (simp add: feed_eq pending_put)

lemma feed_blocks: "length (pending s) < frame \<Longrightarrow> put_pending (pending s) s = s \<Longrightarrow>
    fold feed blocks s = feed (concat blocks) s"
proof (induction blocks arbitrary: s)
  case Nil
  then show ?case by (simp add: feed_eq)
next
  case (Cons b blocks)
  have "put_pending (pending (feed b s)) (feed b s) = feed b s" by (simp add: feed_eq pending_put put_put)
  then show ?case using Cons.IH [OF pending_short] by (simp add: feed_append)
qed

end

section \<open>The speech model's frames\<close>

text \<open>\<open>session\<close> maps the model's state and a window to its output and the next state.\<close>

record ('a, 'm, 'p) speech_probabilities =
  sp_context :: "'a list"
  sp_model_state :: 'm
  sp_pending :: "'a list"
  sp_probabilities :: "'p list"

definition speech_run :: "('m \<Rightarrow> 'a list \<Rightarrow> 'p \<times> 'm) \<Rightarrow> 'a list
    \<Rightarrow> ('a, 'm, 'p) speech_probabilities \<Rightarrow> ('a, 'm, 'p) speech_probabilities" where
  "speech_run session frame s =
     (let window = sp_context s @ frame; (output, state') = session (sp_model_state s) window
      in s\<lparr>sp_probabilities := sp_probabilities s @ [output], sp_model_state := state',
           sp_context := drop (length window - length (sp_context s)) window\<rparr>)"

definition speech_feed :: "('m \<Rightarrow> 'a list \<Rightarrow> 'p \<times> 'm) \<Rightarrow> nat \<Rightarrow> 'a list
    \<Rightarrow> ('a, 'm, 'p) speech_probabilities \<Rightarrow> ('a, 'm, 'p) speech_probabilities" where
  "speech_feed session frame samples s =
     (let data = (if sp_pending s \<noteq> [] then sp_pending s @ samples else samples);
          s' = fold (speech_run session) (whole_frames frame data) s
      in s'\<lparr>sp_pending := left_over frame data\<rparr>)"

definition speech_finish :: "('m \<Rightarrow> 'a list \<Rightarrow> 'p \<times> 'm) \<Rightarrow> nat \<Rightarrow> 'a
    \<Rightarrow> ('a, 'm, 'p) speech_probabilities \<Rightarrow> 'p list" where
  "speech_finish session frame silence s =
     (if sp_pending s \<noteq> []
      then sp_probabilities (speech_run session
             (sp_pending s @ replicate (frame - length (sp_pending s)) silence) s)
      else sp_probabilities s)"

text \<open>A channel after some blocks, from the model's first state.\<close>

definition speech_start :: "nat \<Rightarrow> 'a \<Rightarrow> 'm \<Rightarrow> ('a, 'm, 'p) speech_probabilities" where
  "speech_start context_samples silence state0 = \<lparr>sp_context = replicate context_samples silence,
     sp_model_state = state0, sp_pending = [], sp_probabilities = []\<rparr>"

definition put_sp_pending :: "'a list \<Rightarrow> ('a, 'm, 'p) speech_probabilities \<Rightarrow> ('a, 'm, 'p) speech_probabilities" where
  "put_sp_pending p s = s\<lparr>sp_pending := p\<rparr>"

section \<open>Energy frames and peaks\<close>

record ('a, 'v) framed =
  fr_parts :: "'v list"
  fr_pending :: "'a list"

definition framed_start :: "('a, 'v) framed" where "framed_start = \<lparr>fr_parts = [], fr_pending = []\<rparr>"

text \<open>\<open>level\<close> is the mean square of a frame's samples; the decibels are a function of it.\<close>

definition energy_feed :: "('a list \<Rightarrow> 'v) \<Rightarrow> nat \<Rightarrow> 'a list \<Rightarrow> ('a, 'v) framed \<Rightarrow> ('a, 'v) framed" where
  "energy_feed level frame samples s =
     (let data = (if fr_pending s \<noteq> [] then fr_pending s @ samples else samples)
      in s\<lparr>fr_parts := fr_parts s @ map level (whole_frames frame data), fr_pending := left_over frame data\<rparr>)"

definition energy_finish :: "('a list \<Rightarrow> 'v) \<Rightarrow> ('a, 'v) framed \<Rightarrow> 'v list" where
  "energy_finish level s =
     (if fr_pending s \<noteq> [] then fr_parts s @ [level (fr_pending s)] else fr_parts s)"

text \<open>
  A pixel is each channel's minimum and maximum over its samples; a sample frame is the list of its
  channels' 16-bit values, and a value is stored as its high byte.
\<close>

definition PEAKS_SAMPLES_PER_PIXEL :: nat where "PEAKS_SAMPLES_PER_PIXEL = 256"

definition peak_pixel :: "nat \<Rightarrow> int list list \<Rightarrow> (int \<times> int) list" where
  "peak_pixel channels samples =
     map (\<lambda>c. (Min ((\<lambda>s. s ! c) ` set samples) div 256, Max ((\<lambda>s. s ! c) ` set samples) div 256)) [0..<channels]"

definition peaks_feed :: "nat \<Rightarrow> int list list \<Rightarrow> (int list, (int \<times> int) list) framed
    \<Rightarrow> (int list, (int \<times> int) list) framed" where
  "peaks_feed channels block s =
     (let data = (if fr_pending s \<noteq> [] then fr_pending s @ block else block)
      in s\<lparr>fr_parts := fr_parts s @ map (peak_pixel channels) (whole_frames PEAKS_SAMPLES_PER_PIXEL data),
          fr_pending := left_over PEAKS_SAMPLES_PER_PIXEL data\<rparr>)"

definition peaks_finish :: "nat \<Rightarrow> (int list, (int \<times> int) list) framed \<Rightarrow> (int \<times> int) list list" where
  "peaks_finish channels s =
     (if fr_pending s \<noteq> [] then fr_parts s @ [peak_pixel channels (fr_pending s)] else fr_parts s)"

definition put_fr_pending :: "'a list \<Rightarrow> ('a, 'v) framed \<Rightarrow> ('a, 'v) framed" where
  "put_fr_pending p s = s\<lparr>fr_pending := p\<rparr>"

lemma fold_parts: "fold (\<lambda>x s. s\<lparr>fr_parts := fr_parts s @ [f x]\<rparr>) xs s = s\<lparr>fr_parts := fr_parts s @ map f xs\<rparr>"
  by (induction xs arbitrary: s) simp_all

interpretation peaks: framed_scan PEAKS_SAMPLES_PER_PIXEL "peaks_feed channels" fr_pending put_fr_pending
    "\<lambda>x s. s\<lparr>fr_parts := fr_parts s @ [peak_pixel channels x]\<rparr>" for channels
  by unfold_locales (simp_all add: PEAKS_SAMPLES_PER_PIXEL_def peaks_feed_def put_fr_pending_def fold_parts Let_def)

interpretation energy: framed_scan "Suc n" "energy_feed level (Suc n)" fr_pending put_fr_pending
    "\<lambda>x s. s\<lparr>fr_parts := fr_parts s @ [level x]\<rparr>" for n level
  by unfold_locales (simp_all add: energy_feed_def put_fr_pending_def fold_parts Let_def)

lemma speech_run_pending: "speech_run session x (put_sp_pending p s) = put_sp_pending p (speech_run session x s)"
  by (simp add: speech_run_def put_sp_pending_def Let_def split: prod.splits)

interpretation speech: framed_scan "Suc n" "speech_feed session (Suc n)" sp_pending put_sp_pending
    "speech_run session" for n session
  by unfold_locales (simp_all add: speech_feed_def put_sp_pending_def [symmetric] Let_def speech_run_pending,
      simp_all add: put_sp_pending_def)

section \<open>Exact-zero runs\<close>

record zero_runs =
  zr_minimum :: int
  zr_runs :: "(int \<times> int) list"
  zr_position :: int
  zr_open :: "int option"

definition zero_start :: "int \<Rightarrow> zero_runs" where
  "zero_start minimum = \<lparr>zr_minimum = minimum, zr_runs = [], zr_position = 0, zr_open = None\<rparr>"

text \<open>\<^verbatim>\<open>flatnonzero(edges == 1)\<close> and \<^verbatim>\<open>flatnonzero(edges == -1)\<close> of the zero samples \<open>zs\<close> of a
  block: where a run starts, and where one has ended.\<close>

definition rises :: "bool list \<Rightarrow> nat list" where
  "rises zs = filter (\<lambda>i. zs ! i \<and> (i = 0 \<or> \<not> zs ! (i - 1))) [0..<length zs]"

definition falls :: "bool list \<Rightarrow> nat list" where
  "falls zs = filter (\<lambda>i. 0 < i \<and> zs ! (i - 1) \<and> (i = length zs \<or> \<not> zs ! i)) [0..<Suc (length zs)]"

definition zero_close :: "int \<Rightarrow> int \<Rightarrow> zero_runs \<Rightarrow> zero_runs" where
  "zero_close start end' s =
     (if zr_minimum s \<le> end' - start then s\<lparr>zr_runs := zr_runs s @ [(start, end')]\<rparr> else s)"

text \<open>One block. The starts are relative to the block; an open run's start is before it, and the run is
  continued when the block begins with a zero, else it is closed.\<close>

definition continue_run :: "int list \<Rightarrow> zero_runs \<Rightarrow> int list \<times> zero_runs" where
  "continue_run starts s = (case zr_open s of
       None \<Rightarrow> (starts, s)
     | Some opened \<Rightarrow>
         if starts \<noteq> [] \<and> hd starts = 0
         then ((opened - zr_position s) # tl starts, s\<lparr>zr_open := None\<rparr>)
         else (starts, (zero_close opened (zr_position s) s)\<lparr>zr_open := None\<rparr>))"

definition keep_runs :: "int list \<Rightarrow> int list \<Rightarrow> zero_runs \<Rightarrow> zero_runs" where
  "keep_runs starts ends s = s\<lparr>zr_runs := zr_runs s
     @ map (\<lambda>(a, b). (zr_position s + a, zr_position s + b))
         (filter (\<lambda>(a, b). zr_minimum s \<le> b - a) (zip starts ends))\<rparr>"

definition zero_feed :: "bool list \<Rightarrow> zero_runs \<Rightarrow> zero_runs" where
  "zero_feed zs s =
     (if zs = [] then s
      else
        let ends = map int (falls zs);
            (starts, s1) = continue_run (map int (rises zs)) s;
            s2 = (if ends \<noteq> [] \<and> last ends = int (length zs)
                then keep_runs (butlast starts) (butlast ends) (s1\<lparr>zr_open := Some (zr_position s1 + last starts)\<rparr>)
                else keep_runs starts ends s1)
        in s2\<lparr>zr_position := zr_position s2 + int (length zs)\<rparr>)"

definition zero_finish :: "zero_runs \<Rightarrow> (int \<times> int) list" where
  "zero_finish s = (case zr_open s of None \<Rightarrow> zr_runs s | Some opened \<Rightarrow> zr_runs (zero_close opened (zr_position s) s))"

text \<open>One sample at a time: the reference.\<close>

definition zero_sample :: "bool \<Rightarrow> zero_runs \<Rightarrow> zero_runs" where
  "zero_sample z s =
     (if z then s\<lparr>zr_open := Some (case zr_open s of None \<Rightarrow> zr_position s | Some opened \<Rightarrow> opened),
                  zr_position := zr_position s + 1\<rparr>
      else (case zr_open s of None \<Rightarrow> s | Some opened \<Rightarrow> (zero_close opened (zr_position s) s)\<lparr>zr_open := None\<rparr>)
             \<lparr>zr_position := zr_position s + 1\<rparr>)"

text \<open>The falls inside a block, without the one at its end.\<close>

definition inner_falls :: "bool list \<Rightarrow> nat list" where
  "inner_falls zs = filter (\<lambda>i. 0 < i \<and> zs ! (i - 1) \<and> \<not> zs ! i) [0..<length zs]"

lemma falls_inner: "falls zs = inner_falls zs @ (if zs \<noteq> [] \<and> last zs then [length zs] else [])"
proof -
  have "filter (\<lambda>i. 0 < i \<and> zs ! (i - 1) \<and> (i = length zs \<or> \<not> zs ! i)) [0..<length zs] = inner_falls zs"
    unfolding inner_falls_def by (rule filter_cong) auto
  then have "falls zs = inner_falls zs @ filter (\<lambda>i. 0 < i \<and> zs ! (i - 1)) [length zs]"
    unfolding falls_def upt_Suc_append [OF le0] filter_append by simp
  then show ?thesis by (cases "zs = []") (simp_all add: last_conv_nth)
qed

lemma rises_snoc: "rises (zs @ [z]) = rises zs @ (if z \<and> (zs = [] \<or> \<not> last zs) then [length zs] else [])"
proof -
  have "filter (\<lambda>i. (zs @ [z]) ! i \<and> (i = 0 \<or> \<not> (zs @ [z]) ! (i - 1))) [0..<length zs] = rises zs"
    unfolding rises_def by (rule filter_cong) (auto simp: nth_append)
  then show ?thesis by (cases zs rule: rev_cases) (auto simp: rises_def nth_append)
qed

lemma inner_falls_snoc:
  "inner_falls (zs @ [z]) = inner_falls zs @ (if zs \<noteq> [] \<and> last zs \<and> \<not> z then [length zs] else [])"
proof -
  have "filter (\<lambda>i. 0 < i \<and> (zs @ [z]) ! (i - 1) \<and> \<not> (zs @ [z]) ! i) [0..<length zs] = inner_falls zs"
    unfolding inner_falls_def by (rule filter_cong) (auto simp: nth_append)
  then show ?thesis by (cases zs rule: rev_cases) (auto simp: inner_falls_def nth_append)
qed

lemma rises_falls: "length (rises zs) = length (inner_falls zs) + (if zs \<noteq> [] \<and> last zs then 1 else 0)"
proof (induction zs rule: rev_induct)
  case Nil
  show ?case by (simp add: rises_def inner_falls_def)
next
  case (snoc z zs)
  show ?case
  proof (cases "zs = []")
    case True
    then show ?thesis by (simp add: rises_def inner_falls_def)
  next
    case False
    then show ?thesis using snoc by (simp add: rises_snoc inner_falls_snoc)
  qed
qed

text \<open>What one sample more does to the runs a block gives.\<close>

lemma rises_Nil [simp]: "rises [] = []" and inner_falls_Nil [simp]: "inner_falls [] = []"
  by (simp_all add: rises_def inner_falls_def)

lemma rises_hd: "zs \<noteq> [] \<Longrightarrow> (rises zs \<noteq> [] \<and> hd (rises zs) = 0) = hd zs"
proof (induction zs rule: rev_induct)
  case (snoc z zs)
  show ?case
  proof (cases "zs = []")
    case False
    then have len: "length zs \<noteq> 0" by simp
    show ?thesis using snoc.IH [OF False] False len
      by (cases "rises zs = []") (auto simp: rises_snoc hd_append)
  qed (use rises_snoc [of "[]" z] in \<open>simp add: rises_def\<close>)
qed simp

text \<open>The starts of a block once the run that was open is accounted for.\<close>

definition block_starts :: "bool list \<Rightarrow> zero_runs \<Rightarrow> int list" where
  "block_starts zs s = (case zr_open s of
       None \<Rightarrow> map int (rises zs)
     | Some opened \<Rightarrow> if hd zs then (opened - zr_position s) # map int (tl (rises zs)) else map int (rises zs))"

definition before_block :: "bool list \<Rightarrow> zero_runs \<Rightarrow> (int \<times> int) list" where
  "before_block zs s = (case zr_open s of
       None \<Rightarrow> zr_runs s
     | Some opened \<Rightarrow> if hd zs then zr_runs s else zr_runs (zero_close opened (zr_position s) s))"

lemma zero_close_fields [simp]: "zr_minimum (zero_close a b s) = zr_minimum s"
  "zr_position (zero_close a b s) = zr_position s" "zr_open (zero_close a b s) = zr_open s"
  by (simp_all add: zero_close_def)

lemma length_block_starts: "zs \<noteq> [] \<Longrightarrow> length (block_starts zs s) = length (rises zs)"
  using rises_hd [of zs] by (cases "rises zs") (auto simp: block_starts_def split: option.splits)

lemma zip_butlast: "length xs = Suc (length ys) \<Longrightarrow> zip (butlast xs) ys = zip xs ys"
proof (induction ys arbitrary: xs)
  case (Cons y ys)
  then obtain x rest where "xs = x # rest" "length rest = Suc (length ys)" by (cases xs) auto
  then show ?case using Cons.IH [of rest] by (cases rest) auto
qed simp

lemma falls_last: "zs \<noteq> [] \<Longrightarrow>
    (map int (falls zs) \<noteq> [] \<and> last (map int (falls zs)) = int (length zs)) = last zs"
proof (cases "last zs")
  case False
  have "x < length zs" if "x \<in> set (inner_falls zs)" for x using that by (simp add: inner_falls_def)
  then have "inner_falls zs \<noteq> [] \<Longrightarrow> last (inner_falls zs) < length zs" using last_in_set by blast
  then show ?thesis using False by (auto simp: falls_inner last_map)
qed (simp add: falls_inner)

lemma continue_run_eq:
  assumes "zs \<noteq> []"
  shows "continue_run (map int (rises zs)) s =
    (block_starts zs s, s\<lparr>zr_runs := before_block zs s, zr_open := None\<rparr>)"
proof -
  have "(map int (rises zs) \<noteq> [] \<and> hd (map int (rises zs)) = 0) = hd zs"
    using rises_hd [OF assms] by (cases "rises zs") auto
  then show ?thesis
    by (cases s) (auto simp: continue_run_def block_starts_def before_block_def map_tl zero_close_def
        split: option.splits)
qed

lemma zero_feed_eq:
  assumes "zs \<noteq> []"
  shows "zero_feed zs s = (let s1 = s\<lparr>zr_runs := before_block zs s, zr_open :=
        (if last zs then Some (zr_position s + last (block_starts zs s)) else None)\<rparr>
      in (keep_runs (block_starts zs s) (map int (inner_falls zs)) s1)
           \<lparr>zr_position := zr_position s + int (length zs)\<rparr>)"
proof (cases "last zs")
  case True
  have "length (block_starts zs s) = Suc (length (map int (inner_falls zs)))"
    using rises_falls [of zs] assms True by (simp add: length_block_starts)
  note zip_butlast [OF this]
  moreover have "butlast (map int (falls zs)) = map int (inner_falls zs)"
    using assms True by (simp add: falls_inner)
  ultimately show ?thesis using assms falls_last [OF assms] True
    unfolding zero_feed_def continue_run_eq [OF assms] Let_def by (simp add: keep_runs_def)
next
  case False
  then have no: "\<not> (map int (falls zs) \<noteq> [] \<and> last (map int (falls zs)) = int (length zs))"
    using falls_last [OF assms] by blast
  have "falls zs = inner_falls zs" using False by (simp add: falls_inner)
  then show ?thesis using assms False
    unfolding zero_feed_def continue_run_eq [OF assms] Let_def if_not_P [OF no] by (simp add: keep_runs_def)
qed

lemma block_starts_snoc: "zs \<noteq> [] \<Longrightarrow> block_starts (zs @ [z]) s =
    block_starts zs s @ (if z \<and> \<not> last zs then [int (length zs)] else [])"
  using rises_hd [of zs] by (auto simp: block_starts_def rises_snoc split: option.splits)

lemma before_block_snoc: "zs \<noteq> [] \<Longrightarrow> before_block (zs @ [z]) s = before_block zs s"
  by (cases zs) (simp_all add: before_block_def split: option.splits)

lemma zip_snoc: "length xs = length ys \<Longrightarrow> zip (xs @ [x]) ys = zip xs ys"
  by (simp add: zip_append1)

lemma zero_feed_snoc:
  assumes "zs \<noteq> []"
  shows "zero_feed (zs @ [z]) s = zero_sample z (zero_feed zs s)"
proof -
  have len: "length (block_starts zs s) = length (inner_falls zs) + (if last zs then 1 else 0)"
    using rises_falls [of zs] assms by (simp add: length_block_starts)
  show ?thesis
  proof (cases "last zs")
    case True
    then have "block_starts zs s \<noteq> []" using len by auto
    then obtain bs b where bs: "block_starts zs s = bs @ [b]" using rev_exhaust by metis
    then have eq: "length bs = length (map int (inner_falls zs))" using len True by simp
    obtain mi ru po op where s: "s = \<lparr>zr_minimum = mi, zr_runs = ru, zr_position = po, zr_open = op\<rparr>"
      by (cases s)
    show ?thesis using True assms eq bs [unfolded s] unfolding s
      by (cases z) (simp_all add: zero_feed_eq Let_def keep_runs_def zero_sample_def before_block_snoc
          block_starts_snoc inner_falls_snoc zero_close_def zip_snoc [OF eq] add.commute add.left_commute)
  next
    case False
    then have "length (block_starts zs s) = length (map int (inner_falls zs))" using len by simp
    then show ?thesis using False assms
      by (cases z; cases s) (simp_all add: zero_feed_eq Let_def keep_runs_def zero_sample_def before_block_snoc
          block_starts_snoc inner_falls_snoc zip_snoc add.commute)
  qed
qed

lemma zero_feed_samples: "zero_feed zs s = fold zero_sample zs s"
proof (induction zs rule: rev_induct)
  case Nil
  show ?case by (simp add: zero_feed_def)
next
  case (snoc z zs)
  show ?case
  proof (cases "zs = []")
    case True
    then show ?thesis
      by (cases s; cases z; cases "zr_open s") (simp_all add: zero_feed_eq Let_def block_starts_def before_block_def
          rises_def inner_falls_def keep_runs_def zero_sample_def)
  next
    case False
    then show ?thesis using snoc zero_feed_snoc by simp
  qed
qed

text \<open>The specification: \<open>(a, b)\<close> is a maximal run of zeros.\<close>

definition zero_run :: "bool list \<Rightarrow> nat \<Rightarrow> nat \<Rightarrow> bool" where
  "zero_run zs a b = (a < b \<and> b \<le> length zs \<and> list_all (\<lambda>i. zs ! i) [a..<b]
     \<and> (a = 0 \<or> \<not> zs ! (a - 1)) \<and> (b = length zs \<or> \<not> zs ! b))"

lemma zero_run_open_unique:
  assumes "zero_run zs a b" "zero_run zs a' b"
  shows "a = a'"
proof (rule ccontr)
  assume ne: "a \<noteq> a'"
  have no: False if "zero_run zs x b" "zero_run zs y b" "x < y" for x y
  proof -
    from that have "y - 1 \<in> set [x..<b]" "y \<noteq> 0" by (auto simp: zero_run_def)
    with that show False unfolding zero_run_def list_all_iff by blast
  qed
  show False using ne no [of a a'] no [of a' a] assms by linarith
qed

lemma zero_run_snoc_inner: "b < length zs \<Longrightarrow> zero_run (zs @ [z]) a b = zero_run zs a b"
proof -
  assume b: "b < length zs"
  have "list_all (\<lambda>i. (zs @ [z]) ! i) [a..<b] = list_all (\<lambda>i. zs ! i) [a..<b]"
    using b by (intro list.pred_cong) (auto simp: nth_append)
  then show ?thesis using b by (auto simp: zero_run_def nth_append)
qed

lemma zero_run_snoc_edge: "zero_run (zs @ [z]) a (length zs) = (zero_run zs a (length zs) \<and> \<not> z)"
proof -
  have "list_all (\<lambda>i. (zs @ [z]) ! i) [a..<length zs] = list_all (\<lambda>i. zs ! i) [a..<length zs]"
    by (intro list.pred_cong) (auto simp: nth_append)
  then show ?thesis by (auto simp: zero_run_def nth_append)
qed

lemma zero_run_snoc_end: "zero_run (zs @ [z]) a (Suc (length zs)) =
    (z \<and> (if zs \<noteq> [] \<and> last zs then zero_run zs a (length zs) else a = length zs))"
proof -
  have eq: "list_all (\<lambda>i. (zs @ [z]) ! i) [a..<length zs] = list_all (\<lambda>i. zs ! i) [a..<length zs]"
    by (intro list.pred_cong) (auto simp: nth_append)
  have last: "\<not> last zs \<Longrightarrow> a < length zs \<Longrightarrow> \<not> list_all (\<lambda>i. zs ! i) [a..<length zs]"
    by (cases zs rule: rev_cases) (auto simp: nth_append)
  show ?thesis
  proof (cases "a < length zs")
    case True
    then show ?thesis using last eq by (auto simp: zero_run_def nth_append)
  next
    case False
    have "last zs = zs ! (length zs - 1)" if "zs \<noteq> []" using that by (rule last_conv_nth)
    with False show ?thesis
      by (cases "zs = []"; cases "a = length zs") (auto simp: zero_run_def nth_append)
  qed
qed

text \<open>The scan so far: where it stands, which run is open, and the closed runs long enough.\<close>

definition zero_scanned :: "int \<Rightarrow> bool list \<Rightarrow> zero_runs \<Rightarrow> bool" where
  "zero_scanned m zs s = (zr_minimum s = m \<and> zr_position s = int (length zs)
     \<and> (case zr_open s of None \<Rightarrow> \<not> (zs \<noteq> [] \<and> last zs)
        | Some opened \<Rightarrow> \<exists>a. opened = int a \<and> zero_run zs a (length zs) \<and> zs \<noteq> [] \<and> last zs)
     \<and> set (zr_runs s) = {(int a, int b) | a b. b < length zs \<and> zero_run zs a b \<and> m \<le> int b - int a}
     \<and> sorted_wrt (\<lambda>r r'. snd r < fst r') (zr_runs s))"

lemma run_before_open:
  assumes "zero_run zs a (length zs)" "zero_run zs c d" "d < length zs"
  shows "d < a"
proof (rule ccontr)
  assume "\<not> d < a"
  then have "d \<in> set [a..<length zs]" using assms by simp
  moreover have "\<not> zs ! d" using assms by (simp add: zero_run_def)
  ultimately show False using assms(1) unfolding zero_run_def list_all_iff by blast
qed

lemma closed_runs_snoc: "{(int a, int b) | a b. b < length (zs @ [z]) \<and> zero_run (zs @ [z]) a b \<and> m \<le> int b - int a}
    = {(int a, int b) | a b. b < length zs \<and> zero_run zs a b \<and> m \<le> int b - int a}
      \<union> {(int a, int (length zs)) | a. zero_run zs a (length zs) \<and> \<not> z \<and> m \<le> int (length zs) - int a}"
proof -
  have "(b < length (zs @ [z]) \<and> zero_run (zs @ [z]) a b) =
      (b < length zs \<and> zero_run zs a b \<or> b = length zs \<and> zero_run zs a (length zs) \<and> \<not> z)" for a b
    using zero_run_snoc_inner [of b zs z a] zero_run_snoc_edge [of zs z a] by (auto simp: less_Suc_eq)
  then show ?thesis by blast
qed

lemma open_run_edge: "zr_open s = Some opened \<Longrightarrow> zero_scanned m zs s \<Longrightarrow>
    {(int a, int (length zs)) | a. zero_run zs a (length zs) \<and> m \<le> int (length zs) - int a}
    = (if m \<le> zr_position s - opened then {(opened, zr_position s)} else {})"
proof -
  assume op: "zr_open s = Some opened" and sc: "zero_scanned m zs s"
  from sc have "case zr_open s of None \<Rightarrow> \<not> (zs \<noteq> [] \<and> last zs)
      | Some opened \<Rightarrow> \<exists>a. opened = int a \<and> zero_run zs a (length zs) \<and> zs \<noteq> [] \<and> last zs"
    by (simp only: zero_scanned_def)
  then obtain c where c: "opened = int c" "zero_run zs c (length zs)" unfolding op option.case by blast
  have eq: "zero_run zs a (length zs) = (a = c)" for a using c(2) zero_run_open_unique by metis
  have po: "zr_position s = int (length zs)" using sc by (simp only: zero_scanned_def)
  show ?thesis unfolding eq c(1) po by auto
qed

lemma no_run_edge: "zr_open s = None \<Longrightarrow> zero_scanned m zs s \<Longrightarrow> \<not> zero_run zs a (length zs)"
proof
  assume "zr_open s = None" "zero_scanned m zs s" "zero_run zs a (length zs)"
  then have "zs = [] \<or> \<not> last zs" "a < length zs" "list_all (\<lambda>i. zs ! i) [a..<length zs]"
    by (auto simp: zero_scanned_def zero_run_def)
  then show False by (cases zs rule: rev_cases) (auto simp: nth_append)
qed

lemma closed_before_open:
  assumes "zero_scanned m zs s" "zr_open s = Some opened" "r \<in> set (zr_runs s)"
  shows "snd r < opened"
proof -
  obtain c where c: "opened = int c" "zero_run zs c (length zs)" using assms by (auto simp: zero_scanned_def)
  obtain a b where r: "r = (int a, int b)" "b < length zs" "zero_run zs a b" using assms(1,3) by (auto simp: zero_scanned_def)
  then show ?thesis using run_before_open [OF c(2) r(3,2)] c by simp
qed

lemma zero_sample_scanned:
  assumes "zero_scanned m zs s"
  shows "zero_scanned m (zs @ [z]) (zero_sample z s)"
proof (cases z)
  case True
  have sets: "{(int a, int b) | a b. b < length (zs @ [z]) \<and> zero_run (zs @ [z]) a b \<and> m \<le> int b - int a}
      = {(int a, int b) | a b. b < length zs \<and> zero_run zs a b \<and> m \<le> int b - int a}"
    unfolding closed_runs_snoc using True by simp
  have "\<exists>a. (case zr_open s of None \<Rightarrow> zr_position s | Some opened \<Rightarrow> opened) = int a
      \<and> zero_run (zs @ [z]) a (Suc (length zs))"
    using assms True unfolding zero_run_snoc_end by (auto simp: zero_scanned_def split: option.splits)
  then show ?thesis using assms True unfolding zero_scanned_def sets by (simp add: zero_sample_def)
next
  case False
  show ?thesis
  proof (cases "zr_open s")
    case None
    have edge: "{(int a, int (length zs)) | a. zero_run zs a (length zs) \<and> \<not> z \<and> m \<le> int (length zs) - int a} = {}"
      using no_run_edge [OF None assms] by simp
    show ?thesis using assms None False unfolding zero_scanned_def closed_runs_snoc edge
      by (simp add: zero_sample_def)
  next
    case (Some opened)
    have m: "zr_minimum s = m" using assms by (simp add: zero_scanned_def)
    have edge: "{(int a, int (length zs)) | a. zero_run zs a (length zs) \<and> \<not> z \<and> m \<le> int (length zs) - int a}
        = (if m \<le> zr_position s - opened then {(opened, zr_position s)} else {})"
      using open_run_edge [OF Some assms] False by simp
    note before = closed_before_open [OF assms Some]
    have "zr_runs (zero_sample z s) = zr_runs s @ (if m \<le> zr_position s - opened then [(opened, zr_position s)] else [])"
      using Some False m by (simp add: zero_sample_def zero_close_def)
    moreover have "zr_open (zero_sample z s) = None" "zr_minimum (zero_sample z s) = m"
      "zr_position (zero_sample z s) = int (length (zs @ [z]))"
      using Some False m assms by (simp_all add: zero_sample_def zero_scanned_def)
    ultimately show ?thesis using assms before False unfolding zero_scanned_def closed_runs_snoc edge
      by (simp add: sorted_wrt_append)
  qed
qed

lemma zero_samples_scanned: "zero_scanned m zs (fold zero_sample zs (zero_start m))"
proof (induction zs rule: rev_induct)
  case Nil
  show ?case by (simp add: zero_scanned_def zero_start_def)
next
  case (snoc z zs)
  then show ?case using zero_sample_scanned by simp
qed

lemma zero_finish_scanned:
  assumes "zero_scanned m zs s"
  shows "set (zero_finish s) = {(int a, int b) | a b. zero_run zs a b \<and> m \<le> int b - int a}
    \<and> sorted_wrt (\<lambda>r r'. snd r < fst r') (zero_finish s)"
proof -
  have split: "{(int a, int b) | a b. zero_run zs a b \<and> m \<le> int b - int a}
      = {(int a, int b) | a b. b < length zs \<and> zero_run zs a b \<and> m \<le> int b - int a}
        \<union> {(int a, int (length zs)) | a. zero_run zs a (length zs) \<and> m \<le> int (length zs) - int a}"
    by (auto simp: zero_run_def order_le_less)
  show ?thesis
  proof (cases "zr_open s")
    case None
    have edge: "{(int a, int (length zs)) | a. zero_run zs a (length zs) \<and> m \<le> int (length zs) - int a} = {}"
      using no_run_edge [OF None assms] by simp
    show ?thesis using assms None unfolding split edge by (simp add: zero_scanned_def zero_finish_def)
  next
    case (Some opened)
    note before = closed_before_open [OF assms Some]
    show ?thesis using assms Some before unfolding split open_run_edge [OF Some assms]
      by (simp add: zero_scanned_def zero_finish_def zero_close_def sorted_wrt_append)
  qed
qed


lemma zero_feed_blocks: "fold zero_feed blocks s = fold zero_sample (concat blocks) s"
  by (induction blocks arbitrary: s) (simp_all add: zero_feed_samples)

section \<open>Blocks do not matter\<close>

lemma peaks_blocks: "fold (peaks_feed channels) blocks framed_start =
    \<lparr>fr_parts = map (peak_pixel channels) (whole_frames PEAKS_SAMPLES_PER_PIXEL (concat blocks)),
     fr_pending = left_over PEAKS_SAMPLES_PER_PIXEL (concat blocks)\<rparr>"
  using peaks.feed_blocks [of framed_start channels blocks]
  by (simp add: framed_start_def put_fr_pending_def peaks_feed_def PEAKS_SAMPLES_PER_PIXEL_def Let_def)

lemma energy_blocks: "fold (energy_feed level (Suc n)) blocks framed_start =
    \<lparr>fr_parts = map level (whole_frames (Suc n) (concat blocks)), fr_pending = left_over (Suc n) (concat blocks)\<rparr>"
  using energy.feed_blocks [of framed_start n level blocks]
  by (simp add: framed_start_def put_fr_pending_def energy_feed_def Let_def)

lemma speech_blocks: "fold (speech_feed session (Suc n)) blocks (speech_start context silence state0)
    = speech_feed session (Suc n) (concat blocks) (speech_start context silence state0)"
  by (rule speech.feed_blocks) (simp_all add: speech_start_def put_sp_pending_def)

text \<open>C37. However a recording is cut into blocks, the exact-zero runs found are precisely the maximal
  runs of zero samples of the whole recording that are long enough, disjoint and in order: a run that
  crosses blocks is not split, and none is lost at the last block.\<close>

theorem zero_runs_are_maximal:
  "set (zero_finish (fold zero_feed blocks (zero_start minimum)))
     = {(int a, int b) | a b. zero_run (concat blocks) a b \<and> minimum \<le> int b - int a}
   \<and> sorted_wrt (\<lambda>r r'. snd r < fst r') (zero_finish (fold zero_feed blocks (zero_start minimum)))"
  unfolding zero_feed_blocks by (rule zero_finish_scanned [OF zero_samples_scanned])

end
