(* ===== verification/PeaksFile.thy ===== *)
theory PeaksFile
  imports SignalScans
begin

text \<open>
  The peaks file of a recording (\<^verbatim>\<open>signals/peaks.py\<close> and \<^verbatim>\<open>Peaks.finish\<close> of
  \<^verbatim>\<open>signals/audio.py\<close>): its little-endian header, the reader, and the pairing of two mono files.
  \<^verbatim>\<open>struct.error\<close> (a field out of its range) is \<open>None\<close>.
\<close>

section \<open>The header\<close>

text \<open>\<open>pack_u32\<close> and \<open>pack_i32\<close> are the codes \<^verbatim>\<open>I\<close> and \<^verbatim>\<open>i\<close> of \<^verbatim>\<open>struct\<close>, little-endian.\<close>

definition pack_u32 :: "int \<Rightarrow> bytes option" where
  "pack_u32 n = (if 0 \<le> n \<and> n < 2 ^ 32 then Some (rev (to_be 4 (nat n))) else None)"

definition pack_i32 :: "int \<Rightarrow> bytes option" where
  "pack_i32 n = (if - (2 ^ 31) \<le> n \<and> n < 2 ^ 31 then Some (rev (to_be 4 (nat (n mod 2 ^ 32)))) else None)"

definition unpack_u32 :: "bytes \<Rightarrow> nat \<Rightarrow> int" where
  "unpack_u32 data off = int (from_be (rev (take 4 (drop off data))))"

definition unpack_i32 :: "bytes \<Rightarrow> nat \<Rightarrow> int" where
  "unpack_i32 data off = (let n = unpack_u32 data off in if n < 2 ^ 31 then n else n - 2 ^ 32)"

definition PEAKS_VERSION :: int where "PEAKS_VERSION = 2"
definition FLAG_8_BIT :: int where "FLAG_8_BIT = 1"
definition PEAKS_HEADER_SIZE :: nat where "PEAKS_HEADER_SIZE = 24"

record peaks_header =
  ph_sample_rate :: int
  ph_samples_per_pixel :: int
  ph_length :: int
  ph_channels :: int

definition pack_header :: "peaks_header \<Rightarrow> bytes option" where
  "pack_header h =
     (case (pack_i32 PEAKS_VERSION, pack_u32 FLAG_8_BIT, pack_i32 (ph_sample_rate h),
            pack_i32 (ph_samples_per_pixel h), pack_u32 (ph_length h), pack_i32 (ph_channels h)) of
        (Some v, Some f, Some r, Some p, Some l, Some c) \<Rightarrow> Some (v @ f @ r @ p @ l @ c)
      | _ \<Rightarrow> None)"

datatype peaks_error = Too_Short | Not_Peaks | Body_Mismatch | Not_Mono | Different_Timelines | Field_Out_Of_Range

definition read_header :: "bytes \<Rightarrow> peaks_error + peaks_header" where
  "read_header data =
     (if length data < PEAKS_HEADER_SIZE then Inl Too_Short
      else
        let version = unpack_i32 data 0; flags = unpack_u32 data 4; rate = unpack_i32 data 8;
            per_pixel = unpack_i32 data 12; len = unpack_u32 data 16; channels = unpack_i32 data 20
        in if version \<noteq> PEAKS_VERSION \<or> flags \<noteq> FLAG_8_BIT \<or> rate \<le> 0 \<or> per_pixel \<le> 0 \<or> channels \<le> 0
           then Inl Not_Peaks
           else if int (length data) \<noteq> int PEAKS_HEADER_SIZE + 2 * len * channels then Inl Body_Mismatch
           else Inr \<lparr>ph_sample_rate = rate, ph_samples_per_pixel = per_pixel, ph_length = len,
                     ph_channels = channels\<rparr>)"

section \<open>Writing a recording's peaks\<close>

text \<open>An 8-bit value as its byte; a pixel is each channel's minimum and maximum.\<close>

definition pixel_bytes :: "(int \<times> int) list \<Rightarrow> bytes" where
  "pixel_bytes pixel = concat (map (\<lambda>(low, high). [of_int low, of_int high]) pixel)"

definition peaks_file :: "int \<Rightarrow> nat \<Rightarrow> (int list, (int \<times> int) list) framed \<Rightarrow> bytes option" where
  "peaks_file rate channels s =
     (let pixels = peaks_finish channels s;
          header = \<lparr>ph_sample_rate = rate, ph_samples_per_pixel = int PEAKS_SAMPLES_PER_PIXEL,
                    ph_length = int (length pixels), ph_channels = int channels\<rparr>
      in case pack_header header of None \<Rightarrow> None
         | Some bs \<Rightarrow> Some (bs @ concat (map pixel_bytes pixels)))"

section \<open>Pairing two mono files\<close>

text \<open>\<^verbatim>\<open>body.ljust(n, b"\x00")\<close>, and every second byte from \<open>k\<close> on: \<^verbatim>\<open>body[k::2]\<close>.\<close>

definition ljust :: "nat \<Rightarrow> bytes \<Rightarrow> bytes" where
  "ljust n bs = bs @ replicate (n - length bs) 0"

fun every_second :: "'a list \<Rightarrow> 'a list" where
  "every_second [] = []"
| "every_second [x] = [x]"
| "every_second (x # y # xs) = x # every_second xs"

text \<open>The four slice assignments to \<^verbatim>\<open>pairs[k::4]\<close>, of equally many values each.\<close>

fun weave :: "'a list \<Rightarrow> 'a list \<Rightarrow> 'a list \<Rightarrow> 'a list \<Rightarrow> 'a list" where
  "weave (a # as) (b # bs) (c # cs) (d # ds) = a # b # c # d # weave as bs cs ds"
| "weave _ _ _ _ = []"

definition interleave :: "bytes \<Rightarrow> bytes \<Rightarrow> peaks_error + bytes" where
  "interleave first second =
     (case read_header first of Inl e \<Rightarrow> Inl e | Inr a \<Rightarrow>
      case read_header second of Inl e \<Rightarrow> Inl e | Inr b \<Rightarrow>
        if ph_channels a \<noteq> 1 \<or> ph_channels b \<noteq> 1 then Inl Not_Mono
        else if (ph_sample_rate a, ph_samples_per_pixel a) \<noteq> (ph_sample_rate b, ph_samples_per_pixel b)
             then Inl Different_Timelines
        else
          let len = max (ph_length a) (ph_length b);
              body_a = ljust (nat (2 * len)) (drop PEAKS_HEADER_SIZE first);
              body_b = ljust (nat (2 * len)) (drop PEAKS_HEADER_SIZE second);
              pairs = weave (every_second body_a) (every_second (drop 1 body_a))
                (every_second body_b) (every_second (drop 1 body_b))
          in case pack_header \<lparr>ph_sample_rate = ph_sample_rate a, ph_samples_per_pixel = ph_samples_per_pixel a,
                  ph_length = len, ph_channels = 2\<rparr> of
               None \<Rightarrow> Inl Field_Out_Of_Range
             | Some bs \<Rightarrow> Inr (bs @ pairs))"

section \<open>The reader accepts exactly the complete files\<close>

lemma pack_u32_length: "pack_u32 n = Some bs \<Longrightarrow> length bs = 4"
  and pack_i32_length: "pack_i32 m = Some bs \<Longrightarrow> length bs = 4"
  by (auto simp: pack_u32_def pack_i32_def split: if_splits)

lemma unpack_pack_u32: "pack_u32 n = Some bs \<Longrightarrow> unpack_u32 (pre @ bs @ post) (length pre) = n"
  by (auto simp: pack_u32_def unpack_u32_def from_be_to_be nat_less_iff split: if_splits)

lemma signed_mod: "- (2 ^ 31) \<le> n \<Longrightarrow> n < 2 ^ 31 \<Longrightarrow>
    (if n mod 2 ^ 32 < 2 ^ 31 then n mod 2 ^ 32 else n mod 2 ^ 32 - 2 ^ 32) = (n :: int)"
proof (cases "0 \<le> n")
  case False
  assume b: "- (2 ^ 31) \<le> n" "n < 2 ^ 31"
  have "n mod 2 ^ 32 = (n + 2 ^ 32) mod 2 ^ 32" by simp
  also have "\<dots> = n + 2 ^ 32" using b False by (intro mod_pos_pos_trivial) simp_all
  finally show ?thesis using b False by simp
qed simp

lemma unpack_pack_i32:
  assumes "pack_i32 n = Some bs"
  shows "unpack_i32 (pre @ bs @ post) (length pre) = n"
proof -
  have n: "- (2 ^ 31) \<le> n" "n < 2 ^ 31" and bs: "bs = rev (to_be 4 (nat (n mod 2 ^ 32)))"
    using assms by (auto simp: pack_i32_def split: if_splits)
  have "from_be (to_be 4 (nat (n mod 2 ^ 32))) = nat (n mod 2 ^ 32)"
    by (simp add: from_be_to_be nat_less_iff)
  then have "unpack_u32 (pre @ bs @ post) (length pre) = n mod 2 ^ 32"
    by (simp add: unpack_u32_def bs)
  then show ?thesis using signed_mod [OF n] unfolding unpack_i32_def Let_def
    by (simp split: if_splits)
qed

lemma unpack_u32_range: "off + 4 \<le> length data \<Longrightarrow> 0 \<le> unpack_u32 data off \<and> unpack_u32 data off < 2 ^ 32"
  using from_be_bound [of "rev (take 4 (drop off data))"] by (simp add: unpack_u32_def)

lemma pack_unpack_u32:
  assumes "off + 4 \<le> length data"
  shows "pack_u32 (unpack_u32 data off) = Some (take 4 (drop off data))"
proof -
  have "length (rev (take 4 (drop off data))) = 4" using assms by simp
  then have "to_be 4 (from_be (rev (take 4 (drop off data)))) = rev (take 4 (drop off data))"
    using to_be_from_be by metis
  then show ?thesis using unpack_u32_range [OF assms] by (simp add: pack_u32_def unpack_u32_def)
qed

lemma pack_unpack_i32:
  assumes "off + 4 \<le> length data"
  shows "pack_i32 (unpack_i32 data off) = Some (take 4 (drop off data))"
proof -
  let ?n = "unpack_u32 data off"
  have r: "0 \<le> ?n" "?n < 2 ^ 32" using unpack_u32_range [OF assms] by simp_all
  have "(?n - 2 ^ 32) mod 2 ^ 32 = ?n mod 2 ^ 32" by simp
  with r have "unpack_i32 data off mod 2 ^ 32 = ?n"
    by (cases "?n < 2 ^ 31") (simp_all add: unpack_i32_def Let_def)
  moreover have "- (2 ^ 31) \<le> unpack_i32 data off \<and> unpack_i32 data off < 2 ^ 31"
    using r by (simp add: unpack_i32_def Let_def)
  ultimately have "pack_i32 (unpack_i32 data off) = pack_u32 ?n"
    using r by (simp add: pack_i32_def pack_u32_def)
  then show ?thesis using pack_unpack_u32 [OF assms] by simp
qed

lemma pack_header_fields:
  assumes "pack_header h = Some bs"
  obtains v f r p l c where "bs = v @ f @ r @ p @ l @ c" "pack_i32 PEAKS_VERSION = Some v"
    "pack_u32 FLAG_8_BIT = Some f" "pack_i32 (ph_sample_rate h) = Some r"
    "pack_i32 (ph_samples_per_pixel h) = Some p" "pack_u32 (ph_length h) = Some l"
    "pack_i32 (ph_channels h) = Some c"
  using assms unfolding pack_header_def by (auto split: option.splits)

lemma header_length: "pack_header h = Some bs \<Longrightarrow> length bs = PEAKS_HEADER_SIZE"
  by (erule pack_header_fields) (simp add: pack_u32_length pack_i32_length PEAKS_HEADER_SIZE_def)

lemma unpack_header:
  assumes "pack_header h = Some bs"
  shows "unpack_i32 (bs @ body) 0 = PEAKS_VERSION" "unpack_u32 (bs @ body) 4 = FLAG_8_BIT"
    "unpack_i32 (bs @ body) 8 = ph_sample_rate h" "unpack_i32 (bs @ body) 12 = ph_samples_per_pixel h"
    "unpack_u32 (bs @ body) 16 = ph_length h" "unpack_i32 (bs @ body) 20 = ph_channels h"
proof -
  obtain v f r p l c where bs: "bs = v @ f @ r @ p @ l @ c" and e: "pack_i32 PEAKS_VERSION = Some v"
    "pack_u32 FLAG_8_BIT = Some f" "pack_i32 (ph_sample_rate h) = Some r"
    "pack_i32 (ph_samples_per_pixel h) = Some p" "pack_u32 (ph_length h) = Some l"
    "pack_i32 (ph_channels h) = Some c"
    using assms by (rule pack_header_fields)
  have len: "length v = 4" "length f = 4" "length r = 4" "length p = 4" "length l = 4"
    using e by (simp_all add: pack_u32_length pack_i32_length)
  show "unpack_i32 (bs @ body) 0 = PEAKS_VERSION"
    using unpack_pack_i32 [OF e(1), of "[]" "f @ r @ p @ l @ c @ body"] by (simp add: bs)
  show "unpack_u32 (bs @ body) 4 = FLAG_8_BIT"
    using unpack_pack_u32 [OF e(2), of v "r @ p @ l @ c @ body"] by (simp add: bs len)
  show "unpack_i32 (bs @ body) 8 = ph_sample_rate h"
    using unpack_pack_i32 [OF e(3), of "v @ f" "p @ l @ c @ body"] by (simp add: bs len)
  show "unpack_i32 (bs @ body) 12 = ph_samples_per_pixel h"
    using unpack_pack_i32 [OF e(4), of "v @ f @ r" "l @ c @ body"] by (simp add: bs len)
  show "unpack_u32 (bs @ body) 16 = ph_length h"
    using unpack_pack_u32 [OF e(5), of "v @ f @ r @ p" "c @ body"] by (simp add: bs len)
  show "unpack_i32 (bs @ body) 20 = ph_channels h"
    using unpack_pack_i32 [OF e(6), of "v @ f @ r @ p @ l" body] by (simp add: bs len)
qed

text \<open>What a complete file is.\<close>

definition complete_peaks :: "peaks_header \<Rightarrow> bytes \<Rightarrow> bool" where
  "complete_peaks h data = (0 < ph_sample_rate h \<and> 0 < ph_samples_per_pixel h \<and> 0 < ph_channels h
     \<and> pack_header h = Some (take PEAKS_HEADER_SIZE data)
     \<and> int (length (drop PEAKS_HEADER_SIZE data)) = 2 * ph_length h * ph_channels h)"

lemma take_plus: "take (a + b) xs = take a xs @ take b (drop a xs)"
  by (rule take_add)

lemma six_fields: "24 \<le> length data \<Longrightarrow> take 24 data = take 4 (drop 0 data) @ take 4 (drop 4 data)
    @ take 4 (drop 8 data) @ take 4 (drop 12 data) @ take 4 (drop 16 data) @ take 4 (drop 20 data)"
proof -
  have "(24::nat) = 4 + (4 + (4 + (4 + (4 + 4))))" by simp
  then show ?thesis by (simp only: take_plus) (simp add: drop_drop)
qed

lemma read_header_sound:
  assumes "read_header data = Inr h"
  shows "complete_peaks h data"
proof -
  have len: "24 \<le> length data" using assms by (simp add: read_header_def PEAKS_HEADER_SIZE_def split: if_splits)
  have u: "off + 4 \<le> length data" if "off \<le> 20" for off using that len by linarith
  have u4: "4 + 4 \<le> length data" and u8: "8 + 4 \<le> length data" and u12: "12 + 4 \<le> length data"
    and u16: "16 + 4 \<le> length data" and u20: "20 + 4 \<le> length data" using len by linarith+
  have f: "unpack_i32 data 0 = PEAKS_VERSION" "unpack_u32 data 4 = FLAG_8_BIT" "0 < ph_sample_rate h"
    "0 < ph_samples_per_pixel h" "0 < ph_channels h"
    "int (length data) = int PEAKS_HEADER_SIZE + 2 * ph_length h * ph_channels h"
    "ph_sample_rate h = unpack_i32 data 8" "ph_samples_per_pixel h = unpack_i32 data 12"
    "ph_length h = unpack_u32 data 16" "ph_channels h = unpack_i32 data 20"
    using assms by (auto simp: read_header_def Let_def split: if_splits)
  have "pack_header h = Some (take 24 data)"
    unfolding pack_header_def f(7-10) f(1,2) [symmetric] six_fields [OF len]
      pack_unpack_i32 [OF u [OF le0]] pack_unpack_u32 [OF u4]
      pack_unpack_i32 [OF u8] pack_unpack_i32 [OF u12]
      pack_unpack_u32 [OF u16] pack_unpack_i32 [OF u20]
    by simp
  then show ?thesis using f(3-6) len unfolding complete_peaks_def PEAKS_HEADER_SIZE_def by simp
qed

lemma read_header_complete:
  assumes "complete_peaks h data"
  shows "read_header data = Inr h"
proof -
  have p: "pack_header h = Some (take PEAKS_HEADER_SIZE data)"
    and l: "int (length (drop PEAKS_HEADER_SIZE data)) = 2 * ph_length h * ph_channels h"
    and pos: "0 < ph_sample_rate h" "0 < ph_samples_per_pixel h" "0 < ph_channels h"
    using assms by (simp_all add: complete_peaks_def)
  have long: "\<not> length data < PEAKS_HEADER_SIZE" using header_length [OF p] by simp
  have eq: "take PEAKS_HEADER_SIZE data @ drop PEAKS_HEADER_SIZE data = data" by simp
  have total: "int (length data) = int PEAKS_HEADER_SIZE + 2 * ph_length h * ph_channels h"
    using l long by simp
  show ?thesis
    using unpack_header [OF p, of "drop PEAKS_HEADER_SIZE data"] pos total long unfolding eq
    by (simp add: read_header_def Let_def)
qed

text \<open>The reader accepts exactly the complete files: it returns a header just when the first 24 bytes
  are that header's own encoding, with positive rate, pixel size and channel count, and the body has the
  length it announces. Nothing else is ever read as a peaks file.\<close>

theorem read_header_exact: "read_header data = Inr h = complete_peaks h data"
  using read_header_sound read_header_complete by blast

section \<open>What is written reads back\<close>

text \<open>The samples of each pixel: whole pixels of 256 sample frames, the last one of what is left.\<close>

definition pixel_frames :: "'a list \<Rightarrow> 'a list list" where
  "pixel_frames xs = whole_frames PEAKS_SAMPLES_PER_PIXEL xs
     @ (if left_over PEAKS_SAMPLES_PER_PIXEL xs \<noteq> [] then [left_over PEAKS_SAMPLES_PER_PIXEL xs] else [])"

lemma peaks_finish_blocks: "peaks_finish channels (fold (peaks_feed channels) blocks framed_start)
    = map (peak_pixel channels) (pixel_frames (concat blocks))"
  unfolding peaks_blocks by (simp add: peaks_finish_def pixel_frames_def)

lemma length_whole_frames: "0 < n \<Longrightarrow> length (whole_frames n xs) = length xs div n"
proof (induction n xs rule: whole_frames.induct)
  case (1 n xs)
  then show ?case by (cases "length xs < n") (simp_all add: whole_frames_step le_div_geq)
qed

lemma div_round_up: "n div 256 + (if n mod 256 = 0 then 0 else 1) = (n + 255) div (256 :: nat)"
proof -
  have up: "(if r = 0 then 0 else 1) = (r + 255) div (256 :: nat)" if "r < 256" for r
  proof (cases r)
    case (Suc k)
    then have "(r + 255) div 256 = (256 + k) div 256" by (simp add: add.commute)
    also have "\<dots> = 1" using that Suc by simp
    finally show ?thesis using Suc by simp
  qed simp
  have "(n + 255) div 256 = (n mod 256 + 255 + n div 256 * 256) div 256"
    using div_mult_mod_eq [of n 256] by (simp only: add.assoc add.commute add.left_commute)
  also have "\<dots> = n div 256 + (n mod 256 + 255) div 256"
    by (subst div_mult_self1) simp_all
  finally show ?thesis using up [of "n mod 256"] by simp
qed

lemma length_pixel_frames: "length (pixel_frames xs) = (length xs + 255) div 256"
proof -
  have p: "(0::nat) < 256" by simp
  have rest: "(left_over 256 xs = []) = (length xs mod 256 = 0)"
    using length_left_over [of 256 xs] by (metis length_0_conv)
  have "length (pixel_frames xs) = length xs div 256 + (if length xs mod 256 = 0 then 0 else 1)"
    unfolding pixel_frames_def PEAKS_SAMPLES_PER_PIXEL_def rest by (simp add: length_whole_frames [OF p])
  also have "\<dots> = (length xs + 255) div 256" by (rule div_round_up)
  finally show ?thesis .
qed

lemma length_pixel_bytes: "length (pixel_bytes (peak_pixel channels samples)) = 2 * channels"
proof -
  have "length (pixel_bytes ps) = 2 * length ps" for ps
    unfolding pixel_bytes_def by (induction ps) auto
  then show ?thesis by (simp add: peak_pixel_def)
qed

lemma length_concat_pixels: "length (concat (map (\<lambda>x. pixel_bytes (peak_pixel channels x)) xs)) = length xs * (2 * channels)"
  by (induction xs) (simp_all add: length_pixel_bytes)

lemma pack_header_total: "0 < ph_sample_rate h \<Longrightarrow> ph_sample_rate h < 2 ^ 31 \<Longrightarrow> 0 < ph_samples_per_pixel h
    \<Longrightarrow> ph_samples_per_pixel h < 2 ^ 31 \<Longrightarrow> 0 \<le> ph_length h \<Longrightarrow> ph_length h < 2 ^ 32 \<Longrightarrow> 0 < ph_channels h
    \<Longrightarrow> ph_channels h < 2 ^ 31 \<Longrightarrow> \<exists>bs. pack_header h = Some bs"
  by (simp add: pack_header_def pack_i32_def pack_u32_def PEAKS_VERSION_def FLAG_8_BIT_def)

text \<open>The peaks file of a recording decoded in any blocks is accepted by the reader: its header gives
  the rate, 256 samples per pixel, the number of pixels rounded up and the channels, and its body is the
  minimum and maximum of every channel over every 256 sample frames of the whole recording.\<close>

theorem peaks_file_reads_back:
  assumes "0 < rate" "rate < 2 ^ 31" "0 < channels" "channels < 2 ^ 31"
    "length (concat blocks) \<le> 2 ^ 32"
  shows "\<exists>data. peaks_file rate channels (fold (peaks_feed channels) blocks framed_start) = Some data
    \<and> read_header data = Inr \<lparr>ph_sample_rate = rate, ph_samples_per_pixel = 256,
        ph_length = (int (length (concat blocks)) + 255) div 256, ph_channels = int channels\<rparr>
    \<and> drop 24 data = concat (map (\<lambda>x. pixel_bytes (peak_pixel channels x)) (pixel_frames (concat blocks)))"
proof -
  let ?xs = "concat blocks"
  let ?body = "concat (map (\<lambda>x. pixel_bytes (peak_pixel channels x)) (pixel_frames ?xs))"
  let ?h = "\<lparr>ph_sample_rate = rate, ph_samples_per_pixel = 256, ph_length = (int (length ?xs) + 255) div 256,
    ph_channels = int channels\<rparr>"
  have len: "int (length (pixel_frames ?xs)) = (int (length ?xs) + 255) div 256"
    unfolding length_pixel_frames by (simp add: of_nat_div)
  have small: "(int (length ?xs) + 255) div 256 < 2 ^ 32" using assms(5) by simp
  obtain bs where bs: "pack_header ?h = Some bs" using pack_header_total [of ?h] assms small
    by (auto simp: pos_imp_zdiv_nonneg_iff)
  have "peaks_file rate channels (fold (peaks_feed channels) blocks framed_start) = Some (bs @ ?body)"
    using bs unfolding peaks_file_def peaks_finish_blocks
    by (simp add: Let_def len PEAKS_SAMPLES_PER_PIXEL_def comp_def)
  moreover have "complete_peaks ?h (bs @ ?body)"
  proof -
    have "int (length ?body) = 2 * ph_length ?h * ph_channels ?h"
      unfolding length_concat_pixels of_nat_mult len by simp
    then show ?thesis using bs assms header_length [OF bs] by (simp add: complete_peaks_def)
  qed
  ultimately show ?thesis using read_header_complete header_length [OF bs] by (simp add: PEAKS_HEADER_SIZE_def)
qed

theorem peaks_file_reads_back_witness:
  "\<exists>data. peaks_file 8000 1 (fold (peaks_feed 1) [[[-300], [400]], [[7]]] framed_start) = Some data
    \<and> read_header data = Inr \<lparr>ph_sample_rate = 8000, ph_samples_per_pixel = 256,
        ph_length = (int (length (concat [[[-300], [400]], [[7::int]]])) + 255) div 256, ph_channels = int 1\<rparr>
    \<and> drop 24 data = concat (map (\<lambda>x. pixel_bytes (peak_pixel 1 x)) (pixel_frames (concat [[[-300], [400]], [[7]]])))"
  by (rule peaks_file_reads_back) simp_all


section \<open>Two mono files side by side\<close>

lemma every_second_nth: "every_second bs = map (\<lambda>i. bs ! (2 * i)) [0..<(length bs + 1) div 2]"
proof (induction bs rule: every_second.induct)
  case (3 x y xs)
  have "[0..<(length (x # y # xs) + 1) div 2] = 0 # map Suc [0..<(length xs + 1) div 2]"
    by (simp add: map_Suc_upt upt_conv_Cons del: upt_Suc)
  with 3 show ?case by simp
qed simp_all

lemma weave_map: "weave (map f is) (map g is) (map h is) (map k is) = concat (map (\<lambda>i. [f i, g i, h i, k i]) is)"
  by (induction "is") simp_all

text \<open>A pixel of a mono file, silent past its end.\<close>

definition mono_pixel :: "bytes \<Rightarrow> nat \<Rightarrow> bytes" where
  "mono_pixel data i = (if 24 + 2 * i + 1 < length data then [data ! (24 + 2 * i), data ! (24 + 2 * i + 1)] else [0, 0])"

lemma ljust_pixel:
  assumes "length body \<le> 2 * n" "even (length body)" "i < n"
  shows "[ljust (2 * n) body ! (2 * i), ljust (2 * n) body ! (2 * i + 1)]
    = (if 2 * i + 1 < length body then [body ! (2 * i), body ! (2 * i + 1)] else [0, 0])"
proof -
  have "2 * i + 1 < length body \<longleftrightarrow> 2 * i < length body" using assms(2) by presburger
  then show ?thesis using assms by (simp add: ljust_def nth_append)
qed


lemma padded_pixel:
  assumes "complete_peaks a data" "ph_channels a = 1" "ph_length a \<le> int n" "i < n"
  shows "[ljust (2 * n) (drop 24 data) ! (2 * i), ljust (2 * n) (drop 24 data) ! (2 * i + 1)] = mono_pixel data i"
proof -
  have len: "int (length (drop 24 data)) = 2 * ph_length a"
    using assms(1,2) by (simp add: complete_peaks_def PEAKS_HEADER_SIZE_def)
  then have "length (drop 24 data) \<le> 2 * n" "even (length (drop 24 data))" using assms(3) by presburger+
  note ljust_pixel [OF this assms(4)]
  moreover have "24 \<le> length data"
    using assms(1) header_length by (fastforce simp: complete_peaks_def PEAKS_HEADER_SIZE_def)
  ultimately show ?thesis by (simp add: mono_pixel_def less_diff_conv add.commute)
qed

lemma ljust_halves:
  assumes "length body \<le> 2 * n"
  shows "every_second (ljust (2 * n) body) = map (\<lambda>i. ljust (2 * n) body ! (2 * i)) [0..<n]"
    "every_second (drop 1 (ljust (2 * n) body)) = map (\<lambda>i. ljust (2 * n) body ! (2 * i + 1)) [0..<n]"
proof -
  have len: "length (ljust (2 * n) body) = 2 * n" using assms by (simp add: ljust_def)
  show "every_second (ljust (2 * n) body) = map (\<lambda>i. ljust (2 * n) body ! (2 * i)) [0..<n]"
    unfolding every_second_nth len by simp
  have half: "(length (drop 1 (ljust (2 * n) body)) + 1) div 2 = n" unfolding length_drop len by simp
  show "every_second (drop 1 (ljust (2 * n) body)) = map (\<lambda>i. ljust (2 * n) body ! (2 * i + 1)) [0..<n]"
    unfolding every_second_nth [of "drop 1 (ljust (2 * n) body)"] half
    by (rule map_cong) (simp_all add: len)
qed

text \<open>Two mono peaks files of one rate and pixel size are paired into a complete two-channel file as long
  as the longer one, whose every pixel is the first file's pixel followed by the second's, with silence
  where a file has ended.\<close>

theorem interleave_pairs:
  assumes "complete_peaks a first" "complete_peaks b second" "ph_channels a = 1" "ph_channels b = 1"
    "ph_sample_rate a = ph_sample_rate b" "ph_samples_per_pixel a = ph_samples_per_pixel b"
  shows "\<exists>data. interleave first second = Inr data
    \<and> read_header data = Inr (a\<lparr>ph_length := max (ph_length a) (ph_length b), ph_channels := 2\<rparr>)
    \<and> drop 24 data = concat (map (\<lambda>i. mono_pixel first i @ mono_pixel second i)
        [0..<nat (max (ph_length a) (ph_length b))])"
proof -
  let ?h = "a\<lparr>ph_length := max (ph_length a) (ph_length b), ph_channels := 2\<rparr>"
  let ?n = "nat (max (ph_length a) (ph_length b))"
  let ?A = "ljust (2 * ?n) (drop 24 first)" and ?B = "ljust (2 * ?n) (drop 24 second)"
  obtain pa pb where p: "pack_header a = Some pa" "pack_header b = Some pb"
    using assms(1,2) by (simp add: complete_peaks_def)
  have range: "0 \<le> ph_length a" "0 \<le> ph_length b" "ph_length a < 2 ^ 32" "ph_length b < 2 ^ 32"
    "ph_sample_rate a < 2 ^ 31" "ph_samples_per_pixel a < 2 ^ 31"
    using p by (auto elim!: pack_header_fields simp: pack_u32_def pack_i32_def split: if_splits)
  have "0 \<le> ph_length ?h" "ph_length ?h < 2 ^ 32" using range by simp_all
  then obtain bs where bs: "pack_header ?h = Some bs"
    using pack_header_total [of ?h] assms(1) range(5,6) by (auto simp: complete_peaks_def)
  have body: "length (drop 24 first) \<le> 2 * ?n" "length (drop 24 second) \<le> 2 * ?n"
    using assms(1-4) range(1,2) by (simp_all add: complete_peaks_def PEAKS_HEADER_SIZE_def, linarith+)
  have pairs: "weave (every_second ?A) (every_second (drop 1 ?A)) (every_second ?B) (every_second (drop 1 ?B))
      = concat (map (\<lambda>i. [?A ! (2 * i), ?A ! (2 * i + 1)] @ [?B ! (2 * i), ?B ! (2 * i + 1)]) [0..<?n])"
    unfolding ljust_halves [OF body(1)] ljust_halves [OF body(2)] weave_map by simp
  also have "\<dots> = concat (map (\<lambda>i. mono_pixel first i @ mono_pixel second i) [0..<?n])"
  proof (rule arg_cong [where f = concat], rule map_cong [OF refl])
    fix i assume "i \<in> set [0..<?n]"
    then have i: "i < ?n" by simp
    have le: "ph_length a \<le> int ?n" "ph_length b \<le> int ?n" using range(1,2) by linarith+
    show "[?A ! (2 * i), ?A ! (2 * i + 1)] @ [?B ! (2 * i), ?B ! (2 * i + 1)] = mono_pixel first i @ mono_pixel second i"
      unfolding padded_pixel [OF assms(1,3) le(1) i] padded_pixel [OF assms(2,4) le(2) i] ..
  qed
  finally have woven: "weave (every_second ?A) (every_second (drop 1 ?A)) (every_second ?B) (every_second (drop 1 ?B))
      = concat (map (\<lambda>i. mono_pixel first i @ mono_pixel second i) [0..<?n])" .
  have nonneg: "0 \<le> max (ph_length a) (ph_length b)" using range(1,2) by simp
  have twice: "nat (2 * max (ph_length a) (ph_length b)) = 2 * ?n" by (simp add: nat_mult_distrib)
  have eq: "\<lparr>ph_sample_rate = ph_sample_rate a, ph_samples_per_pixel = ph_samples_per_pixel a,
      ph_length = max (ph_length a) (ph_length b), ph_channels = 2\<rparr> = ?h" by (cases a) simp
  have result: "interleave first second = Inr (bs @ concat (map (\<lambda>i. mono_pixel first i @ mono_pixel second i) [0..<?n]))"
    unfolding interleave_def read_header_complete [OF assms(1)] read_header_complete [OF assms(2)]
    by (simp add: assms(3-6) Let_def PEAKS_HEADER_SIZE_def)
      (simp add: assms(5,6) [symmetric] eq bs twice woven [unfolded One_nat_def])
  have count: "length (concat (map (\<lambda>i. mono_pixel first i @ mono_pixel second i) [0..<n])) = 4 * n" for n
    by (induction n) (simp_all add: mono_pixel_def)
  have "complete_peaks ?h (bs @ concat (map (\<lambda>i. mono_pixel first i @ mono_pixel second i) [0..<?n]))"
    using bs assms(1) header_length [OF bs] nonneg by (simp add: complete_peaks_def count)
  then show ?thesis unfolding result using read_header_complete header_length [OF bs] by (simp add: PEAKS_HEADER_SIZE_def)
qed

definition example_mono :: "byte \<Rightarrow> byte \<Rightarrow> bytes" where
  "example_mono low high = [2, 0, 0, 0, 1, 0, 0, 0, 64, 31, 0, 0, 0, 1, 0, 0, 1, 0, 0, 0, 1, 0, 0, 0, low, high]"

definition example_header :: peaks_header where
  "example_header = \<lparr>ph_sample_rate = 8000, ph_samples_per_pixel = 256, ph_length = 1, ph_channels = 1\<rparr>"

lemma example_complete: "complete_peaks example_header (example_mono low high)"
  by (simp add: complete_peaks_def example_header_def example_mono_def PEAKS_HEADER_SIZE_def pack_header_def
      pack_i32_def pack_u32_def PEAKS_VERSION_def FLAG_8_BIT_def to_be_numeral)

theorem interleave_pairs_witness:
  "\<exists>data. interleave (example_mono 250 5) (example_mono 3 4) = Inr data
    \<and> read_header data = Inr (example_header\<lparr>ph_length := max (ph_length example_header) (ph_length example_header),
        ph_channels := 2\<rparr>)
    \<and> drop 24 data = concat (map (\<lambda>i. mono_pixel (example_mono 250 5) i @ mono_pixel (example_mono 3 4) i)
        [0..<nat (max (ph_length example_header) (ph_length example_header))])"
  by (rule interleave_pairs) (simp_all add: example_complete, simp_all add: example_header_def)

end
