(* ===== verification/Resampling.thy ===== *)
theory Resampling
  imports Complex_Main Prelude
begin

text \<open>
  The streaming resampler (\<^verbatim>\<open>signals/audio.py\<close>, \<^verbatim>\<open>Resampler\<close>): which input samples each
  output sample is computed from, and the history carried between blocks. The filter itself
  (\<open>kernel phase window\<close>, a dot product with the taps of that phase) is a parameter, and so is the
  number of taps on a side, \<open>half\<close>. An index outside its array (\<^verbatim>\<open>IndexError\<close>) is \<open>None\<close>.
\<close>

section \<open>The resampler\<close>

record 'a resampler =
  rp_buffer :: "'a list"
  rp_start :: int
  rp_received :: int
  rp_next :: int

record ('a, 'b) filter_setting =
  fl_up :: int
  fl_down :: int
  fl_half :: int
  fl_silence :: 'a
  fl_kernel :: "int \<Rightarrow> 'a list \<Rightarrow> 'b"

definition reduced_ratio :: "int \<Rightarrow> int \<Rightarrow> int \<times> int" where
  "reduced_ratio rate_in rate_out = (let divisor = gcd rate_in rate_out in (rate_out div divisor, rate_in div divisor))"

text \<open>\<^verbatim>\<open>math.ceil(ZERO_CROSSINGS / (2 * cutoff))\<close> with the cutoff
  \<^verbatim>\<open>0.5 * min(1, up / down) * ROLLOFF\<close>, in exact arithmetic.\<close>

definition half_taps :: "int \<Rightarrow> int \<Rightarrow> int" where
  "half_taps up down = \<lceil>16 / (2 * (1 / 2 * min 1 (rat_of_int up / rat_of_int down) * (94 / 100)))\<rceil>"

definition new_resampler :: "('a, 'b) filter_setting \<Rightarrow> 'a resampler" where
  "new_resampler f = \<lparr>rp_buffer = replicate (nat (fl_half f - 1)) (fl_silence f), rp_start = - (fl_half f - 1),
     rp_received = 0, rp_next = 0\<rparr>"

definition input_base :: "('a, 'b) filter_setting \<Rightarrow> int \<Rightarrow> int" where
  "input_base f index = index * fl_down f div fl_up f"

definition tap_offsets :: "('a, 'b) filter_setting \<Rightarrow> int list" where
  "tap_offsets f = [- fl_half f + 1..fl_half f]"

text \<open>\<^verbatim>\<open>buffer[position]\<close> of an array: a negative index counts from the end.\<close>

definition array_at :: "'a list \<Rightarrow> int \<Rightarrow> 'a option" where
  "array_at xs position =
     (if 0 \<le> position \<and> position < int (length xs) then Some (xs ! nat position)
      else if - int (length xs) \<le> position \<and> position < 0 then Some (xs ! nat (int (length xs) + position))
      else None)"

fun all_some :: "'a option list \<Rightarrow> 'a list option" where
  "all_some [] = Some []"
| "all_some (None # xs) = None"
| "all_some (Some x # xs) = (case all_some xs of None \<Rightarrow> None | Some ys \<Rightarrow> Some (x # ys))"

definition output_sample :: "('a, 'b) filter_setting \<Rightarrow> 'a resampler \<Rightarrow> int \<Rightarrow> 'b option" where
  "output_sample f s index =
     (case all_some (map (\<lambda>o'. array_at (rp_buffer s) (input_base f index - rp_start s + o')) (tap_offsets f)) of
        None \<Rightarrow> None
      | Some window \<Rightarrow> Some (fl_kernel f (index * fl_down f mod fl_up f) window))"

text \<open>The chunks of 16384 outputs only bound the memory of one step.\<close>

definition produce :: "('a, 'b) filter_setting \<Rightarrow> int \<Rightarrow> 'a resampler \<Rightarrow> ('b list \<times> 'a resampler) option" where
  "produce f end' s =
     (case all_some (map (output_sample f s) [rp_next s..end' - 1]) of
        None \<Rightarrow> None
      | Some outputs \<Rightarrow>
          Some (outputs,
            if rp_next s < end'
            then let keep_from = max 0 (input_base f end' + (- fl_half f + 1) - rp_start s)
                 in s\<lparr>rp_buffer := drop (nat keep_from) (rp_buffer s), rp_start := rp_start s + keep_from,
                      rp_next := end'\<rparr>
            else s))"

definition ceil_div :: "int \<Rightarrow> int \<Rightarrow> int" where "ceil_div a b = - (- a div b)"

definition resampler_feed :: "('a, 'b) filter_setting \<Rightarrow> 'a list \<Rightarrow> 'a resampler
    \<Rightarrow> ('b list \<times> 'a resampler) option" where
  "resampler_feed f samples s =
     (let s1 = s\<lparr>rp_buffer := rp_buffer s @ samples, rp_received := rp_received s + int (length samples)\<rparr>;
          last_complete = rp_received s1 - 1 - fl_half f
      in if last_complete < 0 then Some ([], s1)
         else produce f (ceil_div ((last_complete + 1) * fl_up f) (fl_down f)) s1)"

definition resampler_flush :: "('a, 'b) filter_setting \<Rightarrow> 'a resampler \<Rightarrow> ('b list \<times> 'a resampler) option" where
  "resampler_flush f s =
     produce f (ceil_div (rp_received s * fl_up f) (fl_down f))
       (s\<lparr>rp_buffer := rp_buffer s @ replicate (nat (fl_half f)) (fl_silence f)\<rparr>)"

fun feed_all :: "('a, 'b) filter_setting \<Rightarrow> 'a list list \<Rightarrow> 'a resampler \<Rightarrow> ('b list \<times> 'a resampler) option" where
  "feed_all f [] s = Some ([], s)"
| "feed_all f (block # blocks) s = (case resampler_feed f block s of
      None \<Rightarrow> None
    | Some (out1, s1) \<Rightarrow> (case feed_all f blocks s1 of None \<Rightarrow> None | Some (out2, s2) \<Rightarrow> Some (out1 @ out2, s2)))"

definition resample :: "('a, 'b) filter_setting \<Rightarrow> 'a list list \<Rightarrow> 'b list option" where
  "resample f blocks = (case feed_all f blocks (new_resampler f) of
      None \<Rightarrow> None
    | Some (out1, s1) \<Rightarrow> (case resampler_flush f s1 of None \<Rightarrow> None | Some (out2, s2) \<Rightarrow> Some (out1 @ out2)))"

section \<open>The specification: one sum per output over the whole recording\<close>

definition signal_at :: "'a \<Rightarrow> 'a list \<Rightarrow> int \<Rightarrow> 'a" where
  "signal_at silence xs j = (if 0 \<le> j \<and> j < int (length xs) then xs ! nat j else silence)"

definition ideal_sample :: "('a, 'b) filter_setting \<Rightarrow> 'a list \<Rightarrow> int \<Rightarrow> 'b" where
  "ideal_sample f xs index = fl_kernel f (index * fl_down f mod fl_up f)
     (map (\<lambda>o'. signal_at (fl_silence f) xs (input_base f index + o')) (tap_offsets f))"

definition output_count :: "('a, 'b) filter_setting \<Rightarrow> int \<Rightarrow> int" where
  "output_count f n = ceil_div (n * fl_up f) (fl_down f)"

text \<open>A filter this code builds: positive ratio, and a window at least as long as the step.\<close>

definition filter_ok :: "('a, 'b) filter_setting \<Rightarrow> bool" where
  "filter_ok f = (0 < fl_up f \<and> 0 < fl_down f \<and> 0 < fl_half f \<and> fl_down f \<le> fl_half f * fl_up f)"

section \<open>Rounding\<close>

lemma div_less_iff: "0 < b \<Longrightarrow> a div b < j \<longleftrightarrow> a < j * (b :: int)"
proof -
  assume b: "0 < b"
  have a: "a = b * (a div b) + a mod b" "0 \<le> a mod b" "a mod b < b" using b by simp_all
  show ?thesis
  proof
    assume "a div b < j"
    then have "b * (a div b + 1) \<le> b * j" using b by (intro mult_left_mono) simp_all
    then have "b * (a div b) + b \<le> b * j" by (simp add: distrib_left)
    moreover have "a < b * (a div b) + b" using a by linarith
    ultimately have "a < b * j" by linarith
    then show "a < j * b" by (simp only: mult.commute)
  next
    assume less: "a < j * b"
    show "a div b < j"
    proof (rule ccontr)
      assume "\<not> a div b < j"
      then have "b * j \<le> b * (a div b)" using b by (intro mult_left_mono) simp_all
      moreover have "b * (a div b) \<le> a" using a by linarith
      moreover have "a < b * j" using less by (simp only: mult.commute)
      ultimately show False by linarith
    qed
  qed
qed

lemma less_ceil_div: "0 < b \<Longrightarrow> i < ceil_div a b \<longleftrightarrow> i * b < a"
proof -
  assume b: "0 < b"
  have "i < ceil_div a b \<longleftrightarrow> - a div b < - i" by (auto simp: ceil_div_def)
  also have "\<dots> \<longleftrightarrow> - a < - i * b" using b by (rule div_less_iff)
  finally show ?thesis by simp
qed

lemma ceil_div_mono: "0 < b \<Longrightarrow> a \<le> a' \<Longrightarrow> ceil_div a b \<le> ceil_div a' b"
  by (simp add: ceil_div_def zdiv_mono1)

lemma base_less: "0 < fl_up f \<Longrightarrow> input_base f i < j \<longleftrightarrow> i * fl_down f < j * fl_up f"
  unfolding input_base_def by (rule div_less_iff)

lemma base_mono: "0 < fl_up f \<Longrightarrow> 0 < fl_down f \<Longrightarrow> i \<le> i' \<Longrightarrow> input_base f i \<le> input_base f i'"
  unfolding input_base_def by (intro zdiv_mono1 mult_right_mono) simp_all

lemma half_taps_ok:
  assumes "0 < up" "0 < down"
  shows "0 < half_taps up down \<and> down \<le> half_taps up down * up"
proof -
  let ?q = "rat_of_int up / rat_of_int down"
  let ?m = "min 1 ?q"
  have q: "0 < ?q" using assms by simp
  then have m: "0 < ?m" "?m \<le> ?q" by simp_all
  have "1 / ?m \<le> 16 / (2 * (1 / 2 * ?m * (94 / 100)))" using m by (simp add: field_simps)
  moreover have "1 / ?q \<le> 1 / ?m" using m by (intro divide_left_mono) (simp_all only: mult_pos_pos q zero_le_one)
  moreover have "rat_of_int down / rat_of_int up = 1 / ?q" by simp
  ultimately have "rat_of_int down / rat_of_int up \<le> rat_of_int (half_taps up down)"
    unfolding half_taps_def by (metis le_of_int_ceiling order_trans)
  then have "rat_of_int down \<le> rat_of_int (half_taps up down * up)" using assms by (simp add: divide_le_eq)
  then have le: "down \<le> half_taps up down * up" by (simp only: of_int_le_iff)
  then have "0 < half_taps up down * up" using assms by linarith
  then have "0 < half_taps up down" using assms by (simp add: zero_less_mult_iff)
  then show ?thesis using le by simp
qed

section \<open>The buffer holds the right samples\<close>

lemma all_some_eq: "list_all2 (\<lambda>x y. x = Some y) xs ys \<Longrightarrow> all_some xs = Some ys"
  by (induction rule: list_all2_induct) simp_all

lemma all_some_map: "(\<And>x. x \<in> set xs \<Longrightarrow> g x = Some (h x)) \<Longrightarrow> all_some (map g xs) = Some (map h xs)"
  by (rule all_some_eq) (simp add: list_all2_map1 list_all2_map2 list_all2_same)

text \<open>\<open>buffered f xs s\<close>: \<open>xs\<close> has been received, its outputs up to the next one are out, and the buffer holds
  everything the next output looks back to.\<close>

definition buffered :: "('a, 'b) filter_setting \<Rightarrow> 'a list \<Rightarrow> int \<Rightarrow> 'a resampler \<Rightarrow> bool" where
  "buffered f xs extra s = (0 \<le> rp_next s \<and> rp_received s = int (length xs)
     \<and> rp_start s \<le> input_base f (rp_next s) - fl_half f + 1
     \<and> rp_start s \<le> int (length xs)
     \<and> rp_buffer s = map (signal_at (fl_silence f) xs) [rp_start s..int (length xs) + extra - 1])"

lemma array_at_buffered:
  assumes "rp_buffer s = map (signal_at silence xs) [rp_start s..e - 1]" "rp_start s \<le> j" "j < e"
  shows "array_at (rp_buffer s) (j - rp_start s) = Some (signal_at silence xs j)"
  using assms by (simp add: array_at_def)

lemma output_sample_ideal:
  assumes "filter_ok f" "buffered f xs extra s" "rp_next s \<le> i" "input_base f i + fl_half f < int (length xs) + extra"
  shows "output_sample f s i = Some (ideal_sample f xs i)"
proof -
  have base: "input_base f (rp_next s) \<le> input_base f i" using assms by (intro base_mono) (simp_all add: filter_ok_def)
  have "array_at (rp_buffer s) (input_base f i - rp_start s + o') = Some (signal_at (fl_silence f) xs (input_base f i + o'))"
    if "o' \<in> set (tap_offsets f)" for o'
  proof -
    have "array_at (rp_buffer s) (input_base f i + o' - rp_start s) = Some (signal_at (fl_silence f) xs (input_base f i + o'))"
      using assms(2,4) base that
      by (intro array_at_buffered [where e = "int (length xs) + extra"]) (auto simp: buffered_def tap_offsets_def)
    then show ?thesis by (simp add: algebra_simps)
  qed
  then have "all_some (map (\<lambda>o'. array_at (rp_buffer s) (input_base f i - rp_start s + o')) (tap_offsets f))
      = Some (map (\<lambda>o'. signal_at (fl_silence f) xs (input_base f i + o')) (tap_offsets f))"
    by (rule all_some_map)
  then show ?thesis by (simp add: output_sample_def ideal_sample_def)
qed

lemma drop_upto: "drop (nat k) [a..b] = [a + max 0 k..b]"
proof (induction "nat k" arbitrary: a k)
  case (Suc n)
  then have k: "0 < k" "n = nat (k - 1)" by linarith+
  note IH = Suc.hyps(1) [OF k(2)]
  show ?case
  proof (cases "a \<le> b")
    case True
    have "drop (nat k) [a..b] = drop n [a + 1..b]"
      using upto_rec1 [OF True] Suc.hyps(2) [symmetric] by simp
    then show ?thesis using IH [of "a + 1"] k by simp
  next
    case False
    then show ?thesis using k by simp
  qed
qed simp

lemma produce_ideal:
  assumes "filter_ok f" "buffered f xs extra s"
    and reach: "\<And>i. i < e \<Longrightarrow> input_base f i + fl_half f < int (length xs) + extra"
    and start: "input_base f e - fl_half f + 1 \<le> int (length xs)"
  shows "\<exists>s'. produce f e s = Some (map (ideal_sample f xs) [rp_next s..e - 1], s')
    \<and> buffered f xs extra s' \<and> rp_next s' = max (rp_next s) e"
proof -
  have out: "all_some (map (output_sample f s) [rp_next s..e - 1]) = Some (map (ideal_sample f xs) [rp_next s..e - 1])"
    using reach by (intro all_some_map output_sample_ideal [OF assms(1,2)]) simp_all
  show ?thesis
  proof (cases "rp_next s < e")
    case False
    then show ?thesis using out assms(2) by (simp add: produce_def)
  next
    case True
    define K where "K = max 0 (input_base f e + (- fl_half f + 1) - rp_start s)"
    let ?s = "s\<lparr>rp_buffer := drop (nat K) (rp_buffer s), rp_start := rp_start s + K, rp_next := e\<rparr>"
    have base: "input_base f (rp_next s) \<le> input_base f e" using True assms(1) by (intro base_mono) (simp_all add: filter_ok_def)
    have K: "0 \<le> K" "rp_start s + K \<le> input_base f e - fl_half f + 1" "rp_start s + K \<le> int (length xs)"
      using assms(2) base start unfolding K_def buffered_def by linarith+
    have "drop (nat K) (rp_buffer s) = map (signal_at (fl_silence f) xs) [rp_start s + K..int (length xs) + extra - 1]"
      using assms(2) drop_upto [of K] K(1) by (simp add: buffered_def drop_map)
    then have "buffered f xs extra ?s"
      using assms(2) True K unfolding buffered_def by simp
    moreover have "produce f e s = Some (map (ideal_sample f xs) [rp_next s..e - 1], ?s)"
      using out True unfolding produce_def Let_def K_def by simp
    ultimately show ?thesis using True by simp
  qed
qed


lemma signal_at_append: "j < int (length xs) \<Longrightarrow> signal_at silence (xs @ ys) j = signal_at silence xs j"
  by (simp add: signal_at_def nth_append nat_less_iff)

lemma upto_split: "a \<le> b + 1 \<Longrightarrow> b \<le> c \<Longrightarrow> [a..c] = [a..b] @ [b + 1..c]"
proof (induction "nat (b + 1 - a)" arbitrary: a)
  case (Suc n)
  then have a: "a \<le> b" "n = nat (b + 1 - (a + 1))" by linarith+
  then show ?case using Suc.hyps(1) [OF a(2)] Suc.prems upto_rec1 [of a c] upto_rec1 [of a b] by simp
qed simp

lemma samples_upto: "map (signal_at silence (xs @ ys)) [int (length xs)..int (length xs) + int (length ys) - 1] = ys"
proof (induction ys rule: rev_induct)
  case (snoc y ys)
  let ?n = "int (length xs)" and ?m = "int (length ys)"
  have "[?n..?n + int (length (ys @ [y])) - 1] = [?n..?n + ?m - 1] @ [?n + ?m]"
    using upto_split [of ?n "?n + ?m - 1" "?n + ?m"] by simp
  moreover have "map (signal_at silence (xs @ ys @ [y])) [?n..?n + ?m - 1] = map (signal_at silence (xs @ ys)) [?n..?n + ?m - 1]"
    using signal_at_append [of _ "xs @ ys" silence "[y]"] by (intro map_cong) simp_all
  moreover have "signal_at silence (xs @ ys @ [y]) (?n + ?m) = y"
    using nth_append_length [of "xs @ ys" y "[]"] by (simp add: signal_at_def nat_int_add)
  ultimately show ?case using snoc.IH by simp
qed simp

text \<open>Receiving a block, and the silence of the flush.\<close>

lemma buffered_append:
  assumes "buffered f xs 0 s"
  shows "buffered f (xs @ ys) 0 (s\<lparr>rp_buffer := rp_buffer s @ ys, rp_received := rp_received s + int (length ys)\<rparr>)"
proof -
  let ?n = "int (length xs)" and ?m = "int (length ys)"
  have st: "rp_start s \<le> ?n" and buf: "rp_buffer s = map (signal_at (fl_silence f) xs) [rp_start s..?n - 1]"
    using assms by (simp_all add: buffered_def)
  have "map (signal_at (fl_silence f) (xs @ ys)) [rp_start s..?n - 1] = map (signal_at (fl_silence f) xs) [rp_start s..?n - 1]"
    by (intro map_cong) (simp_all add: signal_at_append)
  moreover have "[rp_start s..?n + ?m - 1] = [rp_start s..?n - 1] @ [?n..?n + ?m - 1]"
    using upto_split [of "rp_start s" "?n - 1" "?n + ?m - 1"] st by simp
  ultimately have "rp_buffer s @ ys = map (signal_at (fl_silence f) (xs @ ys)) [rp_start s..?n + ?m - 1]"
    using buf samples_upto [of "fl_silence f" xs ys] by simp
  then show ?thesis using assms st unfolding buffered_def by simp
qed

lemma silence_upto: "int (length xs) \<le> a \<Longrightarrow> 0 \<le> k \<Longrightarrow>
    map (signal_at silence xs) [a..a + k - 1] = replicate (nat k) silence"
proof -
  assume a: "int (length xs) \<le> a" "0 \<le> k"
  have "map (signal_at silence xs) [a..a + k - 1] = map (\<lambda>j. silence) [a..a + k - 1]"
    using a by (intro map_cong) (simp_all add: signal_at_def)
  then show ?thesis using a by (simp add: map_replicate_const)
qed

lemma buffered_flush:
  assumes "buffered f xs 0 s" "0 < fl_half f"
  shows "buffered f xs (fl_half f) (s\<lparr>rp_buffer := rp_buffer s @ replicate (nat (fl_half f)) (fl_silence f)\<rparr>)"
proof -
  let ?n = "int (length xs)" and ?h = "fl_half f"
  have st: "rp_start s \<le> ?n" and buf: "rp_buffer s = map (signal_at (fl_silence f) xs) [rp_start s..?n - 1]"
    using assms by (simp_all add: buffered_def)
  have "[rp_start s..?n + ?h - 1] = [rp_start s..?n - 1] @ [?n..?n + ?h - 1]"
    using upto_split [of "rp_start s" "?n - 1" "?n + ?h - 1"] st assms(2) by simp
  then have "rp_buffer s @ replicate (nat ?h) (fl_silence f) = map (signal_at (fl_silence f) xs) [rp_start s..?n + ?h - 1]"
    using buf silence_upto [of xs ?n ?h "fl_silence f"] assms(2) by simp
  then show ?thesis using assms(1) unfolding buffered_def by simp
qed

section \<open>Streaming gives the ideal output\<close>

text \<open>The outputs that are out, and that they no longer depend on what comes.\<close>

definition settled :: "('a, 'b) filter_setting \<Rightarrow> 'a list \<Rightarrow> int \<Rightarrow> bool" where
  "settled f xs e = (e = 0 \<or> e \<le> ceil_div ((int (length xs) - fl_half f) * fl_up f) (fl_down f))"

lemma settled_reach:
  assumes "filter_ok f" "settled f xs e" "i < e" "0 \<le> i"
  shows "input_base f i + fl_half f < int (length xs)"
proof -
  have "i < ceil_div ((int (length xs) - fl_half f) * fl_up f) (fl_down f)" using assms by (auto simp: settled_def)
  then have "input_base f i < int (length xs) - fl_half f"
    using assms(1) by (simp add: less_ceil_div base_less filter_ok_def)
  then show ?thesis by simp
qed

lemma settled_ideal:
  assumes "filter_ok f" "settled f xs e"
  shows "map (ideal_sample f (xs @ ys)) [0..e - 1] = map (ideal_sample f xs) [0..e - 1]"
proof (rule map_cong [OF refl])
  fix i assume "i \<in> set [0..e - 1]"
  then have "input_base f i + fl_half f < int (length xs)" using settled_reach [OF assms] by simp
  then have "map (\<lambda>o'. signal_at (fl_silence f) (xs @ ys) (input_base f i + o')) (tap_offsets f)
      = map (\<lambda>o'. signal_at (fl_silence f) xs (input_base f i + o')) (tap_offsets f)"
    by (intro map_cong [OF refl] signal_at_append) (simp add: tap_offsets_def)
  then show "ideal_sample f (xs @ ys) i = ideal_sample f xs i" by (simp only: ideal_sample_def)
qed

lemma ceil_start:
  assumes "filter_ok f"
  shows "input_base f (ceil_div (j * fl_up f) (fl_down f)) \<le> j + fl_half f - 1"
proof -
  let ?e = "ceil_div (j * fl_up f) (fl_down f)"
  have ok: "0 < fl_up f" "0 < fl_down f" "fl_down f \<le> fl_half f * fl_up f" using assms by (simp_all add: filter_ok_def)
  have "?e - 1 < ?e" by simp
  then have "(?e - 1) * fl_down f < j * fl_up f" using ok(2) by (simp only: less_ceil_div)
  then have "?e * fl_down f < j * fl_up f + fl_down f" by (simp add: left_diff_distrib)
  also have "\<dots> \<le> (j + fl_half f) * fl_up f" using ok(3) by (simp add: distrib_right)
  finally show ?thesis using base_less [OF ok(1), of ?e "j + fl_half f"] by linarith
qed


lemma settled_append: "filter_ok f \<Longrightarrow> settled f xs e \<Longrightarrow> settled f (xs @ ys) e"
proof -
  assume ok: "filter_ok f" and s: "settled f xs e"
  have "(int (length xs) - fl_half f) * fl_up f \<le> (int (length (xs @ ys)) - fl_half f) * fl_up f"
    using ok by (intro mult_right_mono) (simp_all add: filter_ok_def)
  then have "ceil_div ((int (length xs) - fl_half f) * fl_up f) (fl_down f)
      \<le> ceil_div ((int (length (xs @ ys)) - fl_half f) * fl_up f) (fl_down f)"
    using ok by (intro ceil_div_mono) (simp_all only: filter_ok_def)
  then show ?thesis using s unfolding settled_def by linarith
qed

lemma feed_ideal:
  assumes ok: "filter_ok f" and buf: "buffered f xs 0 s" and set: "settled f xs (rp_next s)"
  shows "\<exists>s'. resampler_feed f ys s = Some (map (ideal_sample f (xs @ ys)) [rp_next s..rp_next s' - 1], s')
    \<and> buffered f (xs @ ys) 0 s' \<and> settled f (xs @ ys) (rp_next s') \<and> rp_next s \<le> rp_next s'"
proof -
  let ?s1 = "s\<lparr>rp_buffer := rp_buffer s @ ys, rp_received := rp_received s + int (length ys)\<rparr>"
  let ?n = "int (length (xs @ ys))"
  note buf1 = buffered_append [OF buf, of ys]
  note set1 = settled_append [OF ok set, of ys]
  have rec: "rp_received ?s1 = ?n" using buf1 by (simp add: buffered_def)
  show ?thesis
  proof (cases "?n - 1 - fl_half f < 0")
    case True
    then have "resampler_feed f ys s = Some ([], ?s1)" using rec by (simp add: resampler_feed_def Let_def)
    then show ?thesis using buf1 set1 by simp
  next
    case False
    let ?e = "ceil_div ((?n - fl_half f) * fl_up f) (fl_down f)"
    have "input_base f i + fl_half f < ?n + 0" if "i < ?e" for i
      using that ok by (simp add: less_ceil_div filter_ok_def) (use base_less [of f i "?n - fl_half f"] ok in
        \<open>simp add: filter_ok_def\<close>)
    moreover have "input_base f ?e - fl_half f + 1 \<le> ?n"
      using ceil_start [OF ok, of "?n - fl_half f"] ok unfolding filter_ok_def by linarith
    ultimately obtain s' where s': "produce f ?e ?s1 = Some (map (ideal_sample f (xs @ ys)) [rp_next ?s1..?e - 1], s')"
      "buffered f (xs @ ys) 0 s'" "rp_next s' = max (rp_next ?s1) ?e"
      using produce_ideal [OF ok buf1, of ?e] by blast
    have range: "[rp_next s..?e - 1] = [rp_next s..rp_next s' - 1]" using s'(3) by (cases "rp_next s < ?e") simp_all
    have "resampler_feed f ys s = Some (map (ideal_sample f (xs @ ys)) [rp_next s..rp_next s' - 1], s')"
      using s'(1) False rec range by (simp add: resampler_feed_def Let_def add_diff_eq)
    moreover have "settled f (xs @ ys) (rp_next s')"
      using set1 s'(3) unfolding settled_def by (cases "rp_next s < ?e") simp_all
    ultimately show ?thesis using s'(2,3) by auto
  qed
qed

lemma feed_all_ideal:
  assumes "filter_ok f" "buffered f xs 0 s" "settled f xs (rp_next s)"
  shows "\<exists>s' out. feed_all f blocks s = Some (out, s')
    \<and> map (ideal_sample f xs) [0..rp_next s - 1] @ out = map (ideal_sample f (xs @ concat blocks)) [0..rp_next s' - 1]
    \<and> buffered f (xs @ concat blocks) 0 s' \<and> settled f (xs @ concat blocks) (rp_next s')"
  using assms
proof (induction blocks arbitrary: xs s)
  case Nil
  then show ?case by simp
next
  case (Cons b blocks)
  obtain s1 where s1: "resampler_feed f b s = Some (map (ideal_sample f (xs @ b)) [rp_next s..rp_next s1 - 1], s1)"
    "buffered f (xs @ b) 0 s1" "settled f (xs @ b) (rp_next s1)" "rp_next s \<le> rp_next s1"
    using feed_ideal [OF Cons.prems, of b] by blast
  obtain s2 out where s2: "feed_all f blocks s1 = Some (out, s2)"
    "map (ideal_sample f (xs @ b)) [0..rp_next s1 - 1] @ out
      = map (ideal_sample f ((xs @ b) @ concat blocks)) [0..rp_next s2 - 1]"
    "buffered f ((xs @ b) @ concat blocks) 0 s2" "settled f ((xs @ b) @ concat blocks) (rp_next s2)"
    using Cons.IH [OF Cons.prems(1) s1(2,3)] by blast
  have "0 \<le> rp_next s" using Cons.prems(2) by (simp add: buffered_def)
  then have "[0..rp_next s1 - 1] = [0..rp_next s - 1] @ [rp_next s..rp_next s1 - 1]"
    using upto_split [of 0 "rp_next s - 1" "rp_next s1 - 1"] s1(4) by simp
  then have "map (ideal_sample f xs) [0..rp_next s - 1] @ map (ideal_sample f (xs @ b)) [rp_next s..rp_next s1 - 1]
      = map (ideal_sample f (xs @ b)) [0..rp_next s1 - 1]"
    using settled_ideal [OF Cons.prems(1,3), of b] by simp
  then have "map (ideal_sample f xs) [0..rp_next s - 1] @ map (ideal_sample f (xs @ b)) [rp_next s..rp_next s1 - 1] @ out
      = map (ideal_sample f (xs @ concat (b # blocks))) [0..rp_next s2 - 1]"
    using s2(2) by (simp flip: append_assoc)
  then show ?case using s1(1) s2(1,3,4) by simp
qed

lemma new_buffered: "filter_ok f \<Longrightarrow> buffered f [] 0 (new_resampler f)"
proof -
  assume ok: "filter_ok f"
  have "signal_at z [] = (\<lambda>j. z)" for z :: 'a by (auto simp: signal_at_def fun_eq_iff)
  then show ?thesis using ok
    by (simp add: buffered_def new_resampler_def filter_ok_def input_base_def map_replicate_const)
qed

text \<open>C36. Resampling a recording in any blocks never indexes outside its buffer and gives, in order,
  \<open>\<lceil>n * rate_out / rate_in\<rceil>\<close> samples, each computed at its own input position from the whole recording
  (silence around it): no delay, no seam at a block's edge.\<close>

theorem resampling_is_seamless:
  assumes "filter_ok f"
  shows "resample f blocks = Some (map (ideal_sample f (concat blocks))
    [0..output_count f (int (length (concat blocks))) - 1])"
proof -
  let ?xs = "concat blocks"
  let ?n = "int (length ?xs)" and ?e = "output_count f (int (length ?xs))"
  have ok: "0 < fl_up f" "0 < fl_down f" "0 < fl_half f" using assms by (simp_all add: filter_ok_def)
  have set: "settled f [] (rp_next (new_resampler f))" by (simp add: settled_def new_resampler_def)
  obtain s out where s: "feed_all f blocks (new_resampler f) = Some (out, s)"
    "out = map (ideal_sample f ?xs) [0..rp_next s - 1]" "buffered f ?xs 0 s"
    "settled f ?xs (rp_next s)"
    using feed_all_ideal [OF assms new_buffered [OF assms] set, of blocks] by (auto simp: new_resampler_def)
  let ?s1 = "s\<lparr>rp_buffer := rp_buffer s @ replicate (nat (fl_half f)) (fl_silence f)\<rparr>"
  have "input_base f i + fl_half f < ?n + fl_half f" if "i < ?e" for i
    using that base_less [OF ok(1), of i ?n] by (simp add: output_count_def less_ceil_div [OF ok(2)])
  moreover have "input_base f ?e - fl_half f + 1 \<le> ?n"
    using ceil_start [OF assms, of ?n] by (simp add: output_count_def)
  ultimately obtain s' where s': "produce f ?e ?s1 = Some (map (ideal_sample f ?xs) [rp_next s..?e - 1], s')"
    using produce_ideal [OF assms buffered_flush [OF s(3) ok(3)], of ?e] by auto
  have "resampler_flush f s = produce f ?e ?s1"
    using s(3) by (simp add: resampler_flush_def output_count_def buffered_def)
  then have "resample f blocks = Some (map (ideal_sample f ?xs) ([0..rp_next s - 1] @ [rp_next s..?e - 1]))"
    using s(1,2) s' by (simp add: resample_def)
  moreover have "[0..rp_next s - 1] @ [rp_next s..?e - 1] = [0..?e - 1]"
  proof (cases "rp_next s = 0")
    case False
    have "(?n - fl_half f) * fl_up f \<le> ?n * fl_up f" using ok by (intro mult_right_mono) simp_all
    then have "ceil_div ((?n - fl_half f) * fl_up f) (fl_down f) \<le> ?e"
      unfolding output_count_def by (rule ceil_div_mono [OF ok(2)])
    then have "rp_next s \<le> ?e" using s(4) False unfolding settled_def by linarith
    moreover have "0 \<le> rp_next s" using s(3) by (simp add: buffered_def)
    ultimately show ?thesis using upto_split [of 0 "rp_next s - 1" "?e - 1"] by simp
  qed simp
  ultimately show ?thesis by simp
qed

theorem resampling_is_seamless_witness:
  "let f = \<lparr>fl_up = 1, fl_down = 3, fl_half = 52, fl_silence = 0, fl_kernel = \<lambda>phase window. sum_list window :: int\<rparr>
   in resample f [[1, 2], [], [3, 4]] = Some (map (ideal_sample f (concat [[1, 2], [], [3, 4]]))
        [0..output_count f (int (length (concat [[1, 2], [], [3, 4 :: int]]))) - 1])"
  unfolding Let_def by (rule resampling_is_seamless) (simp add: filter_ok_def)


lemma built_filter_ok: "0 < rate_in \<Longrightarrow> 0 < rate_out \<Longrightarrow> reduced_ratio rate_in rate_out = (up, down) \<Longrightarrow>
    filter_ok \<lparr>fl_up = up, fl_down = down, fl_half = half_taps up down, fl_silence = z, fl_kernel = k\<rparr>"
proof -
  assume r: "0 < rate_in" "0 < rate_out" "reduced_ratio rate_in rate_out = (up, down)"
  then have "0 < up" "0 < down"
    by (auto simp: reduced_ratio_def Let_def pos_imp_zdiv_pos_iff zdvd_imp_le gcd_le1_int gcd_le2_int)
  then show ?thesis using half_taps_ok by (simp add: filter_ok_def)
qed

end
