(* ===== verification/SpeechRuns.thy ===== *)
theory SpeechRuns
  imports Complex_Main Prelude
begin

text \<open>
  From speech probabilities to speech runs (\<^verbatim>\<open>signals/vad.py\<close>, \<^verbatim>\<open>signals/analyzer.py\<close>):
  segmentation with hysteresis, the padding mask, the refinement of each edge to the energy frames, and
  its uncertainty. Probabilities and levels are exact numbers; the noise floor's percentile is a parameter.
\<close>

section \<open>Settings\<close>

definition analysis_rate :: "int \<Rightarrow> int" where
  "analysis_rate source_rate = (if source_rate = 8000 then 8000 else 16000)"

definition FRAME_SAMPLES :: "int \<Rightarrow> int" where "FRAME_SAMPLES rate = (if rate = 8000 then 256 else 512)"
definition ON_THRESHOLD :: rat where "ON_THRESHOLD = 1 / 2"
definition OFF_THRESHOLD :: rat where "OFF_THRESHOLD = 35 / 100"
definition MIN_SPEECH_MS :: int where "MIN_SPEECH_MS = 250"
definition MIN_SILENCE_MS :: int where "MIN_SILENCE_MS = 200"
definition REFINE_FRAME_MS :: int where "REFINE_FRAME_MS = 10"
definition REFINE_WINDOW_MS :: int where "REFINE_WINDOW_MS = 100"
definition REFINE_FLOOR_DBFS :: rat where "REFINE_FLOOR_DBFS = -50"
definition REFINE_ABOVE_NOISE_DB :: rat where "REFINE_ABOVE_NOISE_DB = 15"
definition SIGMA_FLOOR_MS :: int where "SIGMA_FLOOR_MS = 10"
definition UNREFINED_SIGMA_MS :: int where "UNREFINED_SIGMA_MS = REFINE_WINDOW_MS"

lemmas vad_settings = FRAME_SAMPLES_def MIN_SPEECH_MS_def MIN_SILENCE_MS_def REFINE_FRAME_MS_def
  REFINE_WINDOW_MS_def SIGMA_FLOOR_MS_def UNREFINED_SIGMA_MS_def

section \<open>Segmentation\<close>

record segmenter =
  sg_runs :: "(int \<times> int) list"
  sg_triggered :: bool
  sg_start :: int
  sg_quiet_from :: int

definition segment_start :: segmenter where
  "segment_start = \<lparr>sg_runs = [], sg_triggered = False, sg_start = 0, sg_quiet_from = 0\<rparr>"

text \<open>One frame of the loop. \<^verbatim>\<open>quiet_from\<close> is 0 for none.\<close>

definition quiet_step :: "int \<Rightarrow> int \<Rightarrow> int \<Rightarrow> segmenter \<Rightarrow> segmenter" where
  "quiet_step min_speech min_silence position s =
     (let s1 = (if sg_quiet_from s = 0 then s\<lparr>sg_quiet_from := position\<rparr> else s)
      in if position - sg_quiet_from s1 < min_silence then s1
         else (if sg_quiet_from s1 - sg_start s1 > min_speech
               then s1\<lparr>sg_runs := sg_runs s1 @ [(sg_start s1, sg_quiet_from s1)]\<rparr> else s1)
              \<lparr>sg_triggered := False, sg_quiet_from := 0\<rparr>)"

definition segment_step :: "int \<Rightarrow> int \<Rightarrow> int \<Rightarrow> rat \<Rightarrow> segmenter \<Rightarrow> segmenter" where
  "segment_step min_speech min_silence position probability s =
     (let s1 = (if probability \<ge> ON_THRESHOLD \<and> sg_quiet_from s \<noteq> 0 then s\<lparr>sg_quiet_from := 0\<rparr> else s)
      in if probability \<ge> ON_THRESHOLD \<and> \<not> sg_triggered s1
         then s1\<lparr>sg_triggered := True, sg_start := position\<rparr>
         else if probability < OFF_THRESHOLD \<and> sg_triggered s1
         then quiet_step min_speech min_silence position s1
         else s1)"

fun segment_loop :: "int \<Rightarrow> int \<Rightarrow> int \<Rightarrow> int \<Rightarrow> rat list \<Rightarrow> segmenter \<Rightarrow> segmenter" where
  "segment_loop frame min_speech min_silence index [] s = s"
| "segment_loop frame min_speech min_silence index (p # ps) s =
     segment_loop frame min_speech min_silence (index + 1) ps
       (segment_step min_speech min_silence (index * frame) p s)"

definition segment :: "rat list \<Rightarrow> int \<Rightarrow> int \<Rightarrow> (int \<times> int) list" where
  "segment probabilities rate total_samples =
     (let min_speech = rate * MIN_SPEECH_MS div 1000; min_silence = rate * MIN_SILENCE_MS div 1000;
          s = segment_loop (FRAME_SAMPLES rate) min_speech min_silence 0 probabilities segment_start
      in if sg_triggered s \<and> total_samples - sg_start s > min_speech
         then sg_runs s @ [(sg_start s, total_samples)] else sg_runs s)"

section \<open>The padding mask\<close>

text \<open>\<^verbatim>\<open>-(-end // 10)\<close>, and the difference array of marks.\<close>

definition ceil_frame :: "int \<Rightarrow> int" where "ceil_frame ms = - (- ms div REFINE_FRAME_MS)"

definition mark_run :: "nat \<Rightarrow> (int \<times> int) \<Rightarrow> int list \<Rightarrow> int list" where
  "mark_run frame_count run marks =
     (let first = nat (max 0 (fst run div REFINE_FRAME_MS)); last' = min (int frame_count) (ceil_frame (snd run))
      in if int first < last'
         then (let marks1 = marks[first := marks ! first + 1]
               in marks1[nat last' := marks1 ! nat last' - 1])
         else marks)"

fun running_sum :: "int \<Rightarrow> int list \<Rightarrow> int list" where
  "running_sum acc [] = []"
| "running_sum acc (x # xs) = (acc + x) # running_sum (acc + x) xs"

definition zero_frame_mask :: "nat \<Rightarrow> (int \<times> int) list \<Rightarrow> bool list" where
  "zero_frame_mask frame_count zero_runs_ms =
     (let marks = fold (mark_run frame_count) zero_runs_ms (replicate (frame_count + 1) 0)
      in map (\<lambda>n. n > 0) (running_sum 0 (butlast marks)))"

section \<open>Refinement\<close>

definition refine_threshold :: "rat option \<Rightarrow> rat" where
  "refine_threshold floor' = (case floor' of
      None \<Rightarrow> REFINE_FLOOR_DBFS
    | Some level \<Rightarrow> max REFINE_FLOOR_DBFS (level + REFINE_ABOVE_NOISE_DB))"

record speech_run_ms =
  sr_start_ms :: int
  sr_end_ms :: int
  sr_start_sigma_ms :: int
  sr_end_sigma_ms :: int
  sr_vad_start_ms :: int
  sr_vad_end_ms :: int

definition edge_sigma :: "int \<Rightarrow> int option \<Rightarrow> int" where
  "edge_sigma vad_ms refined_ms = (case refined_ms of
      None \<Rightarrow> UNREFINED_SIGMA_MS
    | Some ms \<Rightarrow> max SIGMA_FLOOR_MS \<bar>vad_ms - ms\<bar>)"

text \<open>\<^verbatim>\<open>flatnonzero(loud[first : last + 1])\<close>, as indices of \<open>loud\<close>, or none when the window is empty.\<close>

definition loud_hits :: "bool list \<Rightarrow> int \<Rightarrow> int \<Rightarrow> int list" where
  "loud_hits loud first last' = (if first \<le> last' then filter (\<lambda>i. loud ! nat i) [first..last'] else [])"

definition refine_start :: "bool list \<Rightarrow> int \<Rightarrow> int option" where
  "refine_start loud vad_start =
     (let first = max 0 (ceil_frame (vad_start - REFINE_WINDOW_MS));
          last' = min (int (length loud) - 1) ((vad_start + REFINE_WINDOW_MS) div REFINE_FRAME_MS);
          hits = loud_hits loud first last'
      in if hits = [] then None else Some (hd hits * REFINE_FRAME_MS))"

definition refine_end :: "bool list \<Rightarrow> int \<Rightarrow> int option" where
  "refine_end loud vad_end =
     (let first = max 0 (ceil_frame (vad_end - REFINE_WINDOW_MS) - 1);
          last' = min (int (length loud) - 1) ((vad_end + REFINE_WINDOW_MS) div REFINE_FRAME_MS - 1);
          hits = loud_hits loud first last'
      in if hits = [] then None else Some ((last hits + 1) * REFINE_FRAME_MS))"

definition refine_run :: "bool list \<Rightarrow> int \<times> int \<Rightarrow> speech_run_ms" where
  "refine_run loud run =
     (let vad_start = fst run; vad_end = snd run;
          start = refine_start loud vad_start; end' = refine_end loud vad_end;
          begin' = (case start of None \<Rightarrow> vad_start | Some ms \<Rightarrow> ms);
          finish' = (case end' of None \<Rightarrow> vad_end | Some ms \<Rightarrow> ms);
          (begin1, finish1, start1, end1) =
            (if begin' \<ge> finish' then (vad_start, vad_end, None, None) else (begin', finish', start, end'))
      in \<lparr>sr_start_ms = begin1, sr_end_ms = finish1, sr_start_sigma_ms = edge_sigma vad_start start1,
          sr_end_sigma_ms = edge_sigma vad_end end1, sr_vad_start_ms = vad_start, sr_vad_end_ms = vad_end\<rparr>)"

text \<open>The separation loop: each run is cut at the start of the one after it.\<close>

fun separate_runs :: "speech_run_ms list \<Rightarrow> speech_run_ms list" where
  "separate_runs (current # following # runs) =
     (if sr_end_ms current > sr_start_ms following
      then current\<lparr>sr_end_ms := max (sr_start_ms current + 1) (sr_start_ms following)\<rparr> else current)
       # separate_runs (following # runs)"
| "separate_runs runs = runs"

definition refine :: "(int \<times> int) list \<Rightarrow> rat list \<Rightarrow> rat \<Rightarrow> speech_run_ms list" where
  "refine runs_ms levels threshold =
     separate_runs (map (refine_run (map (\<lambda>level. level > threshold) levels)) runs_ms)"

definition samples_ms :: "int \<Rightarrow> int \<Rightarrow> int" where
  "samples_ms samples rate = (samples * 2000 + rate) div (2 * rate)"

text \<open>The runs of a channel, as \<^verbatim>\<open>_channel\<close> composes them; \<open>noise_floor\<close> is the percentile of the levels
  outside the padding.\<close>

definition channel_runs :: "(rat list \<Rightarrow> bool list \<Rightarrow> rat option) \<Rightarrow> int \<Rightarrow> int \<Rightarrow> rat list \<Rightarrow> rat list
    \<Rightarrow> (int \<times> int) list \<Rightarrow> int \<Rightarrow> speech_run_ms list" where
  "channel_runs noise_floor rate source_rate probabilities levels zero_runs total_samples =
     (let zero_ms = map (\<lambda>(a, b). (samples_ms a source_rate, samples_ms b source_rate)) zero_runs;
          floor' = noise_floor levels (zero_frame_mask (length levels) zero_ms);
          vad_runs = map (\<lambda>(a, b). (samples_ms a rate, samples_ms b rate)) (segment probabilities rate total_samples)
      in refine vad_runs levels (refine_threshold floor'))"

definition speech_ms :: "speech_run_ms list \<Rightarrow> int" where
  "speech_ms runs = sum_list (map (\<lambda>r. sr_end_ms r - sr_start_ms r) runs)"

section \<open>What the segmentation gives\<close>

text \<open>Runs longer than \<open>m\<close>, in order, with at least \<open>g\<close> between two of them.\<close>

definition spaced :: "int \<Rightarrow> int \<Rightarrow> (int \<times> int) list \<Rightarrow> bool" where
  "spaced m g runs = (list_all (\<lambda>r. 0 \<le> fst r \<and> m < snd r - fst r) runs
     \<and> sorted_wrt (\<lambda>r r'. snd r + g \<le> fst r') runs)"

lemma spaced_snoc: "spaced m g (runs @ [r]) = (spaced m g runs \<and> 0 \<le> fst r \<and> m < snd r - fst r
    \<and> list_all (\<lambda>q. snd q + g \<le> fst r) runs)"
  by (auto simp: spaced_def sorted_wrt_append list_all_iff)

text \<open>The segmenter before the frame at \<open>p\<close>.\<close>

definition segmenting :: "int \<Rightarrow> int \<Rightarrow> int \<Rightarrow> segmenter \<Rightarrow> bool" where
  "segmenting m g p s = (spaced m g (sg_runs s)
     \<and> list_all (\<lambda>r. snd r + g \<le> (if sg_triggered s then sg_start s else p)) (sg_runs s)
     \<and> (if sg_triggered s then 0 \<le> sg_start s \<and> sg_start s < p else sg_quiet_from s = 0)
     \<and> (sg_quiet_from s = 0 \<or> sg_start s < sg_quiet_from s \<and> sg_quiet_from s < p) \<and> 0 \<le> p)"

lemma list_all_le: "list_all (\<lambda>r. f r \<le> (a :: int)) xs \<Longrightarrow> a \<le> b \<Longrightarrow> list_all (\<lambda>r. f r \<le> b) xs"
  by (auto simp: list_all_iff)

lemma quiet_step_segmenting:
  assumes "segmenting m (q + frame) p s" "sg_triggered s" "0 < frame" "0 \<le> q"
  shows "segmenting m (q + frame) (p + frame) (quiet_step m q p s)"
proof -
  let ?from = "if sg_quiet_from s = 0 then p else sg_quiet_from s"
  have old: "spaced m (q + frame) (sg_runs s)" "list_all (\<lambda>r. snd r + (q + frame) \<le> sg_start s) (sg_runs s)"
    "0 \<le> sg_start s" "sg_start s < p" "sg_start s < ?from" "?from \<le> p" "0 < ?from"
    using assms(1,2) by (auto simp: segmenting_def)
  have s1: "(if sg_quiet_from s = 0 then s\<lparr>sg_quiet_from := p\<rparr> else s) = s\<lparr>sg_quiet_from := ?from\<rparr>"
    by (cases s) simp
  show ?thesis
  proof (cases "p - ?from < q")
    case True
    have "quiet_step m q p s = s\<lparr>sg_quiet_from := ?from\<rparr>"
      unfolding quiet_step_def Let_def s1 using True by simp
    then show ?thesis using old assms(2,3) by (auto simp: segmenting_def)
  next
    case False
    have ends: "list_all (\<lambda>r. snd r + (q + frame) \<le> p + frame) (sg_runs s)"
      using old(2) by (rule list_all_le) (use old assms(3) in linarith)
    have step: "quiet_step m q p s = s\<lparr>sg_runs := sg_runs s @ (if ?from - sg_start s > m then [(sg_start s, ?from)] else []),
        sg_triggered := False, sg_quiet_from := 0\<rparr>"
      unfolding quiet_step_def Let_def s1 using False by (cases s) simp
    have "spaced m (q + frame) (sg_runs s @ (if ?from - sg_start s > m then [(sg_start s, ?from)] else []))"
      using old by (simp add: spaced_snoc)
    moreover have "list_all (\<lambda>r. snd r + (q + frame) \<le> p + frame)
        (sg_runs s @ (if ?from - sg_start s > m then [(sg_start s, ?from)] else []))"
      using ends False by simp
    ultimately show ?thesis using old assms(3) unfolding step segmenting_def by simp
  qed
qed

lemma segment_step_segmenting:
  assumes "segmenting m (q + frame) p s" "0 < frame" "0 \<le> q"
  shows "segmenting m (q + frame) (p + frame) (segment_step m q p probability s)"
proof -
  let ?s1 = "if probability \<ge> ON_THRESHOLD \<and> sg_quiet_from s \<noteq> 0 then s\<lparr>sg_quiet_from := 0\<rparr> else s"
  have s1: "segmenting m (q + frame) p ?s1" using assms(1) by (auto simp: segmenting_def)
  have later: "segmenting m (q + frame) (p + frame) ?s1"
    using s1 assms(2) list_all_le [of "\<lambda>r. snd r + (q + frame)" p "sg_runs ?s1" "p + frame"]
    unfolding segmenting_def by (auto split: if_splits)
  have trig: "segmenting m (q + frame) (p + frame) (?s1\<lparr>sg_triggered := True, sg_start := p\<rparr>)"
    if "\<not> sg_triggered ?s1" using s1 that assms(2) unfolding segmenting_def by simp
  show ?thesis using quiet_step_segmenting [OF s1 _ assms(2,3)] later trig
    unfolding segment_step_def Let_def by (auto simp del: split_paired_All)
qed

lemma segment_loop_segmenting:
  assumes "0 < frame" "0 \<le> q"
  shows "segmenting m (q + frame) (index * frame) s \<Longrightarrow>
    segmenting m (q + frame) ((index + int (length ps)) * frame) (segment_loop frame m q index ps s)"
proof (induction ps arbitrary: index s)
  case (Cons p ps)
  have "segmenting m (q + frame) ((index + 1) * frame) (segment_step m q (index * frame) p s)"
    using segment_step_segmenting [OF Cons.prems assms] by (simp add: distrib_right)
  then show ?case using Cons.IH [of "index + 1"] by (simp add: add.assoc)
qed simp

lemma segmenting_end: "segmenting m g p s \<Longrightarrow>
    spaced m g (if sg_triggered s \<and> e - sg_start s > m then sg_runs s @ [(sg_start s, e)] else sg_runs s)"
  by (simp add: segmenting_def spaced_snoc split: if_splits)

lemma segment_spaced:
  assumes "rate = 8000 \<or> rate = 16000"
  shows "spaced (rate div 4) (rate div 5 + FRAME_SAMPLES rate) (segment ps rate total_samples)"
proof -
  let ?m = "rate * MIN_SPEECH_MS div 1000" and ?q = "rate * MIN_SILENCE_MS div 1000"
  let ?s = "segment_loop (FRAME_SAMPLES rate) ?m ?q 0 ps segment_start"
  have m: "?m = rate div 4" "?q = rate div 5" "0 < FRAME_SAMPLES rate" "0 \<le> ?q"
    using assms by (auto simp: vad_settings)
  have "segmenting ?m (?q + FRAME_SAMPLES rate) (0 * FRAME_SAMPLES rate) segment_start"
    by (simp add: segmenting_def segment_start_def spaced_def)
  note segment_loop_segmenting [OF m(3,4) this, of ps]
  then have "segmenting ?m (?q + FRAME_SAMPLES rate) (int (length ps) * FRAME_SAMPLES rate) ?s" by simp
  then have "spaced ?m (?q + FRAME_SAMPLES rate) (segment ps rate total_samples)"
    unfolding segment_def Let_def by (rule segmenting_end)
  then show ?thesis unfolding m .
qed

section \<open>Refinement keeps runs apart\<close>

lemma ceil_frame_le: "ms \<le> 10 * ceil_frame ms"
  unfolding ceil_frame_def REFINE_FRAME_MS_def by presburger

lemma loud_hits_window: "i \<in> set (loud_hits loud first last') \<Longrightarrow> first \<le> i \<and> i \<le> last'"
  by (auto simp: loud_hits_def split: if_splits)

lemma refine_start_near: "refine_start loud ms = Some t \<Longrightarrow> \<bar>ms - t\<bar> \<le> 100"
proof -
  assume t: "refine_start loud ms = Some t"
  let ?hits = "loud_hits loud (max 0 (ceil_frame (ms - 100))) (min (int (length loud) - 1) ((ms + 100) div 10))"
  have h: "?hits \<noteq> []" "t = hd ?hits * 10"
    using t by (auto simp: refine_start_def Let_def REFINE_WINDOW_MS_def REFINE_FRAME_MS_def split: if_splits)
  have "ceil_frame (ms - 100) \<le> hd ?hits \<and> hd ?hits \<le> (ms + 100) div 10"
    using loud_hits_window [OF hd_in_set [OF h(1)]] by simp
  moreover have "(ms + 100) div 10 * 10 \<le> ms + 100" by presburger
  ultimately show ?thesis using ceil_frame_le [of "ms - 100"] h(2) by linarith
qed

lemma near_end: "c - 1 \<le> l \<Longrightarrow> l \<le> d - 1 \<Longrightarrow> d * 10 \<le> ms + 100 \<Longrightarrow> ms - 100 \<le> 10 * c \<Longrightarrow> \<bar>ms - (l + 1) * 10\<bar> \<le> (100 :: int)"
  by (simp add: abs_if)

lemma refine_end_near: "refine_end loud ms = Some t \<Longrightarrow> \<bar>ms - t\<bar> \<le> 100"
proof -
  assume t: "refine_end loud ms = Some t"
  let ?hits = "loud_hits loud (max 0 (ceil_frame (ms - 100) - 1)) (min (int (length loud) - 1) ((ms + 100) div 10 - 1))"
  have h: "?hits \<noteq> []" "t = (last ?hits + 1) * 10"
    using t by (auto simp: refine_end_def Let_def REFINE_WINDOW_MS_def REFINE_FRAME_MS_def split: if_splits)
  have "ceil_frame (ms - 100) - 1 \<le> last ?hits \<and> last ?hits \<le> (ms + 100) div 10 - 1"
    using loud_hits_window [OF last_in_set [OF h(1)]] by simp
  moreover have "(ms + 100) div 10 * 10 \<le> ms + 100" by presburger
  ultimately show ?thesis unfolding h(2) using near_end [OF _ _ _ ceil_frame_le [of "ms - 100"]] by blast
qed

text \<open>A refined run: its edges near the model's, and a sigma that covers their disagreement.\<close>

definition honest_run :: "speech_run_ms \<Rightarrow> bool" where
  "honest_run r = (sr_start_ms r < sr_end_ms r
     \<and> \<bar>sr_vad_start_ms r - sr_start_ms r\<bar> \<le> sr_start_sigma_ms r \<and> \<bar>sr_vad_end_ms r - sr_end_ms r\<bar> \<le> sr_end_sigma_ms r
     \<and> 10 \<le> sr_start_sigma_ms r \<and> sr_start_sigma_ms r \<le> 100 \<and> 10 \<le> sr_end_sigma_ms r \<and> sr_end_sigma_ms r \<le> 100)"

lemma refine_run_honest:
  assumes "fst run < snd run"
  shows "honest_run (refine_run loud run) \<and> sr_vad_start_ms (refine_run loud run) = fst run
    \<and> sr_vad_end_ms (refine_run loud run) = snd run"
  using assms refine_start_near [of loud "fst run"] refine_end_near [of loud "snd run"]
  by (cases "refine_start loud (fst run)"; cases "refine_end loud (snd run)")
    (auto simp: honest_run_def refine_run_def Let_def edge_sigma_def vad_settings)


lemma separate_runs_apart: "sorted_wrt (\<lambda>r r'. sr_end_ms r \<le> sr_start_ms r') runs \<Longrightarrow> separate_runs runs = runs"
  by (induction runs rule: separate_runs.induct) simp_all

lemma samples_ms_mono: "0 < rate \<Longrightarrow> a \<le> b \<Longrightarrow> samples_ms a rate \<le> samples_ms b rate"
  unfolding samples_ms_def by (intro zdiv_mono1) simp_all

text \<open>At both analysis rates a gap of 200 ms of samples is at least 200 ms after rounding.\<close>

lemma samples_ms_fifth:
  assumes "rate = 8000 \<or> rate = 16000" "a + rate div 5 \<le> b"
  shows "samples_ms a rate + 200 \<le> samples_ms b rate"
proof -
  have "samples_ms (a + rate div 5) rate = samples_ms a rate + 200"
    using assms(1) by (auto simp: samples_ms_def)
  then show ?thesis using samples_ms_mono [of rate "a + rate div 5" b] assms by auto
qed

lemma samples_ms_run:
  assumes "rate = 8000 \<or> rate = 16000" "rate div 4 < b - a"
  shows "samples_ms a rate < samples_ms b rate"
  using samples_ms_fifth [OF assms(1), of a b] assms by auto

lemma spaced_runs_ms:
  assumes "rate = 8000 \<or> rate = 16000" "spaced (rate div 4) (rate div 5 + FRAME_SAMPLES rate) runs"
  shows "list_all (\<lambda>r. fst r < snd r) (map (\<lambda>(a, b). (samples_ms a rate, samples_ms b rate)) runs)
    \<and> sorted_wrt (\<lambda>r r'. snd r + 200 \<le> fst r') (map (\<lambda>(a, b). (samples_ms a rate, samples_ms b rate)) runs)"
proof -
  have pos: "0 \<le> FRAME_SAMPLES rate" by (simp add: FRAME_SAMPLES_def)
  have near: "samples_ms (snd r) rate + 200 \<le> samples_ms (fst r') rate"
    if "snd r + (rate div 5 + FRAME_SAMPLES rate) \<le> fst r'" for r r' :: "int \<times> int"
    using samples_ms_fifth [OF assms(1), of "snd r" "fst r'"] that pos by linarith
  have "sorted_wrt (\<lambda>r r'. samples_ms (snd r) rate + 200 \<le> samples_ms (fst r') rate) runs"
    using assms(2) unfolding spaced_def by (intro sorted_wrt_mono_rel [OF near]) auto
  moreover have "list_all (\<lambda>r. samples_ms (fst r) rate < samples_ms (snd r) rate) runs"
    using assms(2) samples_ms_run [OF assms(1)] unfolding spaced_def list_all_iff by blast
  ultimately show ?thesis by (simp add: sorted_wrt_map list_all_iff split_beta)
qed

lemma refined_apart:
  assumes "list_all (\<lambda>r. fst r < snd r) runs" "sorted_wrt (\<lambda>r r'. snd r + 200 \<le> fst r') runs"
  shows "sorted_wrt (\<lambda>r r'. sr_end_ms r \<le> sr_start_ms r') (map (refine_run loud) runs)"
proof -
  have apart: "sr_end_ms (refine_run loud r) \<le> sr_start_ms (refine_run loud r')"
    if "r \<in> set runs" "r' \<in> set runs" "snd r + 200 \<le> fst r'" for r r'
  proof -
    have "fst r < snd r" "fst r' < snd r'" using that assms(1) by (simp_all add: list_all_iff)
    note h = refine_run_honest [OF this(1), of loud] refine_run_honest [OF this(2), of loud]
    then show ?thesis using that(3) unfolding honest_run_def by linarith
  qed
  show ?thesis unfolding sorted_wrt_map by (rule sorted_wrt_mono_rel [OF _ assms(2)]) (rule apart)
qed

lemma refine_honest:
  assumes "list_all (\<lambda>r. fst r < snd r) runs" "sorted_wrt (\<lambda>r r'. snd r + 200 \<le> fst r') runs"
  shows "list_all honest_run (refine runs levels threshold)
    \<and> sorted_wrt (\<lambda>r r'. sr_end_ms r \<le> sr_start_ms r') (refine runs levels threshold)"
proof -
  have "list_all honest_run (map (refine_run loud) runs)" for loud
    using assms(1) refine_run_honest by (simp add: list_all_iff)
  then show ?thesis unfolding refine_def separate_runs_apart [OF refined_apart [OF assms]]
    using refined_apart [OF assms] by blast
qed

text \<open>C35. Whatever the model's probabilities, the energy frames and the padding, the speech runs of a channel
  are non-empty, in order and do not overlap; every edge is within 100 ms of the model's own edge, and its
  uncertainty is between 10 and 100 ms and never smaller than the disagreement of the two estimates.\<close>

theorem speech_runs_are_honest:
  "list_all honest_run (channel_runs noise_floor (analysis_rate source_rate) source_rate probabilities levels
      zero_runs total_samples)
   \<and> sorted_wrt (\<lambda>r r'. sr_end_ms r \<le> sr_start_ms r') (channel_runs noise_floor (analysis_rate source_rate)
      source_rate probabilities levels zero_runs total_samples)"
proof -
  let ?rate = "analysis_rate source_rate"
  have rate: "?rate = 8000 \<or> ?rate = 16000" by (simp add: analysis_rate_def)
  note ms = spaced_runs_ms [OF rate segment_spaced [OF rate], of probabilities total_samples]
  show ?thesis unfolding channel_runs_def Let_def
    by (rule refine_honest [OF conjunct1 [OF ms] conjunct2 [OF ms]])
qed


section \<open>The padding mask marks the overlapping frames\<close>

lemma running_sum_nth: "i < length xs \<Longrightarrow> running_sum acc xs ! i = acc + sum_list (take (Suc i) xs)"
proof (induction xs arbitrary: acc i)
  case (Cons x xs)
  then show ?case by (cases i) simp_all
qed simp

lemma length_running_sum [simp]: "length (running_sum acc xs) = length xs"
  by (induction xs arbitrary: acc) simp_all

lemma sum_take_update: "j < length xs \<Longrightarrow>
    sum_list (take k (xs[j := xs ! j + d])) = sum_list (take k xs) + (if j < k then d else (0 :: int))"
proof (induction xs arbitrary: j k)
  case (Cons x xs)
  then show ?case by (cases j; cases k) simp_all
qed simp

definition run_covers :: "nat \<Rightarrow> int \<times> int \<Rightarrow> bool" where
  "run_covers i run = (fst run < 10 * int i + 10 \<and> 10 * int i < snd run)"

lemma length_mark_run [simp]: "length (mark_run n run marks) = length marks"
  by (simp add: mark_run_def Let_def)

lemma covers_bounds: "run_covers i run = (max 0 (fst run div 10) \<le> int i \<and> int i < ceil_frame (snd run))"
  unfolding run_covers_def ceil_frame_def REFINE_FRAME_MS_def by linarith

lemma mark_run_sum:
  assumes "length marks = n + 1" "i < n"
  shows "sum_list (take (Suc i) (mark_run n run marks)) = sum_list (take (Suc i) marks) + of_bool (run_covers i run)"
proof -
  let ?first = "nat (max 0 (fst run div 10))" and ?last = "min (int n) (ceil_frame (snd run))"
  have first: "int ?first = max 0 (fst run div 10)" by simp
  show ?thesis
  proof (cases "int ?first < ?last")
    case True
    then have in1: "?first < length marks" and in2: "nat ?last < length (marks[?first := marks ! ?first + 1])"
      using assms(1) by (simp_all add: nat_less_iff)
    have "mark_run n run marks = (let m = marks[?first := marks ! ?first + 1] in m[nat ?last := m ! nat ?last + - 1])"
      unfolding mark_run_def Let_def REFINE_FRAME_MS_def if_P [OF True] diff_conv_add_uminus ..
    then have "sum_list (take (Suc i) (mark_run n run marks)) = sum_list (take (Suc i) marks)
        + (if ?first < Suc i then 1 else 0) + (if nat ?last < Suc i then - 1 else 0)"
      unfolding Let_def by (simp only: sum_take_update [OF in2] sum_take_update [OF in1])
    moreover have "?first < Suc i \<longleftrightarrow> max 0 (fst run div 10) \<le> int i" using first by linarith
    moreover have "nat ?last < Suc i \<longleftrightarrow> \<not> int i < ceil_frame (snd run)" using True assms(2) by linarith
    ultimately show ?thesis using True first unfolding covers_bounds by (auto simp: not_less)
  next
    case False
    then have "\<not> run_covers i run" using assms(2) first unfolding covers_bounds by linarith
    then show ?thesis unfolding mark_run_def Let_def REFINE_FRAME_MS_def if_not_P [OF False] by simp
  qed
qed

lemma mark_runs_sum: "length marks = n + 1 \<Longrightarrow> i < n \<Longrightarrow>
    sum_list (take (Suc i) (fold (mark_run n) runs marks))
      = sum_list (take (Suc i) marks) + int (length (filter (run_covers i) runs))"
proof (induction runs arbitrary: marks)
  case (Cons run runs)
  then show ?case by (simp add: mark_run_sum)
qed simp

text \<open>The mask that keeps recorder padding out of the noise floor marks exactly the 10 ms frames that
  overlap an exact-zero run, however the runs lie, overlap or reach past the end.\<close>

theorem padding_mask_exact:
  "zero_frame_mask frame_count runs
     = map (\<lambda>i. list_ex (\<lambda>run. fst run < 10 * int i + 10 \<and> 10 * int i < snd run) runs) [0..<frame_count]"
proof (rule nth_equalityI)
  let ?marks = "fold (mark_run frame_count) runs (replicate (frame_count + 1) 0)"
  have "length (fold (mark_run frame_count) rs marks) = length marks" for rs marks
    by (induction rs arbitrary: marks) simp_all
  then have len: "length ?marks = frame_count + 1" by simp
  then show "length (zero_frame_mask frame_count runs)
      = length (map (\<lambda>i. list_ex (\<lambda>run. fst run < 10 * int i + 10 \<and> 10 * int i < snd run) runs) [0..<frame_count])"
    by (simp add: zero_frame_mask_def Let_def)
  fix i assume "i < length (zero_frame_mask frame_count runs)"
  then have i: "i < frame_count" using len by (simp add: zero_frame_mask_def Let_def)
  have "take (Suc i) (butlast ?marks) = take (Suc i) ?marks" using len i by (simp add: butlast_conv_take min_def)
  then have "running_sum 0 (butlast ?marks) ! i = int (length (filter (run_covers i) runs))"
    using i len mark_runs_sum [of "replicate (frame_count + 1) 0" frame_count i runs]
    by (simp add: running_sum_nth sum_list_replicate)
  then have "zero_frame_mask frame_count runs ! i = (filter (run_covers i) runs \<noteq> [])"
    using i len by (simp add: zero_frame_mask_def Let_def)
  also have "\<dots> = list_ex (\<lambda>run. fst run < 10 * int i + 10 \<and> 10 * int i < snd run) runs"
    by (simp add: filter_empty_conv list_ex_iff run_covers_def)
  finally show "zero_frame_mask frame_count runs ! i
      = map (\<lambda>i. list_ex (\<lambda>run. fst run < 10 * int i + 10 \<and> 10 * int i < snd run) runs) [0..<frame_count] ! i"
    using i by simp
qed

end
