(* ===== verification/CallTimeline.thy ===== *)
theory CallTimeline
  imports Complex_Main Prelude "HOL-Library.Product_Lexorder"
begin

text \<open>
  The recorder timeline of a call (\<^verbatim>\<open>call_timeline.py\<close>): which recordings are one timeline, and the
  audible gap of a turn. Milliseconds on the timeline are integers; a span time mapped onto it is an exact
  rational where the code has a float. An uncertainty \<^verbatim>\<open>sqrt(a**2 + b**2)\<close> is kept as its square.
\<close>

section \<open>Constants\<close>

definition ONE_TIMELINE_TOLERANCE_MS :: int where "ONE_TIMELINE_TOLERANCE_MS = 20"
definition ZERO_RUN_ANCHOR_MS :: int where "ZERO_RUN_ANCHOR_MS = 50"
definition ANCHOR_SEARCH_MS :: rat where "ANCHOR_SEARCH_MS = 1500"
definition PAIRING_WINDOW_MS :: rat where "PAIRING_WINDOW_MS = 1000"
definition DISCONTINUITY_STEP_MS :: rat where "DISCONTINUITY_STEP_MS = 150"
definition MAX_MEASURABLE_GAP_UNCERTAINTY_MS :: int where "MAX_MEASURABLE_GAP_UNCERTAINTY_MS = 100"

section \<open>Binary search\<close>

text \<open>\<^verbatim>\<open>bisect_left(xs, x)\<close> searches with \<open>p y = (y < x)\<close>, \<^verbatim>\<open>bisect_right\<close> with \<open>p y = (y \<le> x)\<close>.\<close>

function bisect_loop :: "('a \<Rightarrow> bool) \<Rightarrow> 'a list \<Rightarrow> nat \<Rightarrow> nat \<Rightarrow> nat" where
  "bisect_loop p xs lo hi =
     (if lo < hi
      then (let mid = (lo + hi) div 2
            in if p (xs ! mid) then bisect_loop p xs (mid + 1) hi else bisect_loop p xs lo mid)
      else lo)"
  by pat_completeness auto
termination by (relation "measure (\<lambda>(p, xs, lo, hi). hi - lo)") auto

declare bisect_loop.simps [simp del]

definition bisect :: "('a \<Rightarrow> bool) \<Rightarrow> 'a list \<Rightarrow> nat" where
  "bisect p xs = bisect_loop p xs 0 (length xs)"

text \<open>A list that \<open>p\<close> cuts in two.\<close>

definition cut_by :: "('a \<Rightarrow> bool) \<Rightarrow> 'a list \<Rightarrow> bool" where
  "cut_by p xs = sorted_wrt (\<lambda>x y. p y \<longrightarrow> p x) xs"

lemma takeWhile_cut:
  assumes "k \<le> length xs" "\<And>i. i < k \<Longrightarrow> p (xs ! i)" "k < length xs \<Longrightarrow> \<not> p (xs ! k)"
  shows "length (takeWhile p xs) = k"
  using assms
proof (induction xs arbitrary: k)
  case (Cons x xs)
  show ?case
  proof (cases k)
    case 0
    then show ?thesis using Cons.prems(3) by simp
  next
    case (Suc j)
    have "length (takeWhile p xs) = j"
      using Cons.prems Suc by (intro Cons.IH) force+
    then show ?thesis using Cons.prems(2) [of 0] Suc by simp
  qed
qed simp

lemma cut_by_before: "cut_by p xs \<Longrightarrow> i \<le> j \<Longrightarrow> j < length xs \<Longrightarrow> p (xs ! j) \<Longrightarrow> p (xs ! i)"
  unfolding cut_by_def using sorted_wrt_nth_less [of "\<lambda>x y. p y \<longrightarrow> p x" xs i j] by (cases "i = j") simp_all

lemma bisect_loop_cut: "cut_by p xs \<Longrightarrow> lo \<le> hi \<Longrightarrow> hi \<le> length xs \<Longrightarrow> (\<And>i. i < lo \<Longrightarrow> p (xs ! i)) \<Longrightarrow>
    (hi < length xs \<Longrightarrow> \<not> p (xs ! hi)) \<Longrightarrow> bisect_loop p xs lo hi = length (takeWhile p xs)"
proof (induction "hi - lo" arbitrary: lo hi rule: less_induct)
  case less
  show ?case
  proof (cases "lo < hi")
    case False
    then have "lo = hi" using less.prems(2) by simp
    moreover have "length (takeWhile p xs) = hi"
      using less.prems(3-5) \<open>lo = hi\<close> by (intro takeWhile_cut) simp_all
    ultimately show ?thesis by (subst bisect_loop.simps) simp
  next
    case True
    define mid where "mid = (lo + hi) div 2"
    have mid: "lo \<le> mid" "mid < hi" using True unfolding mid_def by simp_all
    have step: "bisect_loop p xs lo hi = (if p (xs ! mid) then bisect_loop p xs (mid + 1) hi else bisect_loop p xs lo mid)"
      using True by (subst bisect_loop.simps) (simp add: Let_def mid_def)
    show ?thesis
    proof (cases "p (xs ! mid)")
      case True
      have "mid < length xs" using mid less.prems(3) by simp
      then have "\<And>i. i < mid + 1 \<Longrightarrow> p (xs ! i)"
        using cut_by_before [OF less.prems(1) _ _ True] by simp
      then have "bisect_loop p xs (mid + 1) hi = length (takeWhile p xs)"
        using mid less.prems by (intro less.hyps) simp_all
      then show ?thesis unfolding step using True by simp
    next
      case False
      then have "bisect_loop p xs lo mid = length (takeWhile p xs)"
        using mid less.prems by (intro less.hyps) simp_all
      then show ?thesis unfolding step using False by simp
    qed
  qed
qed

lemma bisect_cut: "cut_by p xs \<Longrightarrow> bisect p xs = length (takeWhile p xs)"
  unfolding bisect_def by (rule bisect_loop_cut) simp_all

section \<open>Recordings on one timeline\<close>

record track =
  tr_recording_id :: string
  tr_speakers :: "string list"
  tr_started_at_unix_nano :: int
  tr_duration_ms :: "int option"

definition mono_tracks :: "track list \<Rightarrow> string \<Rightarrow> int \<Rightarrow> track list" where
  "mono_tracks tracks speaker start =
     filter (\<lambda>t. tr_speakers t = [speaker] \<and> tr_started_at_unix_nano t = start) tracks"

definition timeline_starts :: "track list \<Rightarrow> int list" where
  "timeline_starts tracks = sorted_list_of_set (set (map tr_started_at_unix_nano
     (filter (\<lambda>t. tr_speakers t = [''user''] \<or> tr_speakers t = [''agent'']) tracks)))"

definition pair_at :: "track list \<Rightarrow> int \<Rightarrow> (string \<times> string) list" where
  "pair_at tracks start =
     (case (mono_tracks tracks ''user'' start, mono_tracks tracks ''agent'' start) of
        ([user], [agent]) \<Rightarrow>
          (case (tr_duration_ms user, tr_duration_ms agent) of
             (Some du, Some da) \<Rightarrow>
               (if \<bar>du - da\<bar> \<le> ONE_TIMELINE_TOLERANCE_MS
                then [(tr_recording_id user, tr_recording_id agent)] else [])
           | _ \<Rightarrow> [])
      | _ \<Rightarrow> [])"

definition one_timeline_pairs :: "track list \<Rightarrow> (string \<times> string) list" where
  "one_timeline_pairs tracks = concat (map (pair_at tracks) (timeline_starts tracks))"

section \<open>The timeline\<close>

record run =
  rn_start_ms :: int
  rn_end_ms :: int
  rn_start_sigma_ms :: int
  rn_end_sigma_ms :: int

record timeline =
  tl_started_at_unix_nano :: int
  tl_duration_ms :: "int option"
  tl_user_runs :: "run list"
  tl_agent_runs :: "run list"
  tl_agent_zero_runs :: "(int \<times> int) list"
  tl_insert_only :: bool

text \<open>The derived fields of \<^verbatim>\<open>__post_init__\<close>.\<close>

definition user_runs_by_start :: "timeline \<Rightarrow> run list" where
  "user_runs_by_start line = sort_key rn_start_ms (tl_user_runs line)"

definition user_starts :: "timeline \<Rightarrow> int list" where
  "user_starts line = map rn_start_ms (user_runs_by_start line)"

definition agent_runs_by_start :: "timeline \<Rightarrow> run list" where
  "agent_runs_by_start line = sort_key rn_start_ms (tl_agent_runs line)"

definition agent_starts :: "timeline \<Rightarrow> int list" where
  "agent_starts line = map rn_start_ms (agent_runs_by_start line)"

definition agent_zero_edges :: "timeline \<Rightarrow> int list" where
  "agent_zero_edges line = sort (map snd (filter (\<lambda>(start, end'). ZERO_RUN_ANCHOR_MS \<le> end' - start
     \<and> (case tl_duration_ms line of None \<Rightarrow> True | Some duration \<Rightarrow> end' < duration)) (tl_agent_zero_runs line)))"

definition user_runs_by_end :: "timeline \<Rightarrow> run list" where
  "user_runs_by_end line = sort_key (\<lambda>r. (rn_end_ms r, rn_start_ms r)) (tl_user_runs line)"

definition naive_ms :: "timeline \<Rightarrow> int \<Rightarrow> rat" where
  "naive_ms line unix_nano = rat_of_int (unix_nano - tl_started_at_unix_nano line) / 1000000"

record turn_anchors =
  ta_user_on_unix_nano :: "int list"
  ta_user_off_unix_nano :: "int option"
  ta_agent_on_unix_nano :: "int option"

section \<open>The nearest point\<close>

definition distance :: "rat \<Rightarrow> int \<Rightarrow> rat \<times> int" where
  "distance target point = (\<bar>rat_of_int point - target\<bar>, point)"

text \<open>\<^verbatim>\<open>min(candidates, key=...)\<close>: the first of the smallest.\<close>

fun min_by :: "('a \<Rightarrow> 'b :: linorder) \<Rightarrow> 'a list \<Rightarrow> 'a" where
  "min_by key (x # xs) = fold (\<lambda>y best. if key y < key best then y else best) xs x"
| "min_by key [] = undefined"

definition nearest :: "int list \<Rightarrow> rat \<Rightarrow> rat \<Rightarrow> int option" where
  "nearest points target window =
     (if points = [] then None
      else
        let position = bisect (\<lambda>p. rat_of_int p < target) points;
            candidates = drop (position - 1) (take (min (length points) (position + 1)) points);
            best = min_by (distance target) candidates
        in if \<bar>rat_of_int best - target\<bar> > window then None else Some best)"

definition nearest_run :: "run list \<Rightarrow> int list \<Rightarrow> rat \<Rightarrow> rat \<Rightarrow> run option" where
  "nearest_run runs starts target window = (case nearest starts target window of
      None \<Rightarrow> None
    | Some start \<Rightarrow> Some (runs ! bisect (\<lambda>p. p < start) starts))"

section \<open>The audible gap\<close>

datatype gap_status = Measured | Talk_Over | Not_Measurable

datatype gap_reason = No_Agent_Audio | No_Clear_Pairing | Recorder_Timeline_Discontinuity | Boundary_Uncertainty_Too_High

datatype gap_basis = Anchors_Checked | Continuous_Timeline_Assumed

record gap =
  gp_status :: gap_status
  gp_value_ms :: "int option"
  gp_uncertainty_ms :: "int option"
  gp_bound_ms :: "int option"
  gp_user_end_ms :: "int option"
  gp_agent_start_ms :: "int option"
  gp_reason :: "gap_reason option"
  gp_basis :: "gap_basis option"
  gp_offset_ms :: rat
  gp_agent_run :: "run option"

definition not_measurable :: "gap_reason \<Rightarrow> gap" where
  "not_measurable reason = \<lparr>gp_status = Not_Measurable, gp_value_ms = None, gp_uncertainty_ms = None,
     gp_bound_ms = None, gp_user_end_ms = None, gp_agent_start_ms = None, gp_reason = Some reason, gp_basis = None,
     gp_offset_ms = 0, gp_agent_run = None\<rparr>"

definition declared_discontinuity :: "gap \<Rightarrow> gap" where
  "declared_discontinuity g = g\<lparr>gp_status := Not_Measurable, gp_value_ms := None, gp_uncertainty_ms := None,
     gp_bound_ms := None, gp_reason := Some Recorder_Timeline_Discontinuity, gp_basis := None, gp_user_end_ms := None,
     gp_agent_start_ms := None\<rparr>"

definition uncertainty_squared :: "run \<Rightarrow> run \<Rightarrow> int" where
  "uncertainty_squared user agent = (rn_end_sigma_ms user)\<^sup>2 + (rn_start_sigma_ms agent)\<^sup>2"

text \<open>\<open>rounded_root n\<close> is \<^verbatim>\<open>round(sqrt(n))\<close>: the number of \<open>k \<ge> 0\<close> with \<open>k + 1/2\<close> below the root.\<close>

definition rounded_root :: "int \<Rightarrow> int" where
  "rounded_root n = int (length (filter (\<lambda>k. int k * int k + int k < n) [0..<nat n]))"

text \<open>Python's \<^verbatim>\<open>round\<close> (halves to even) and \<^verbatim>\<open>statistics.median\<close>.\<close>

definition round_even :: "rat \<Rightarrow> int" where
  "round_even x = (let f = \<lfloor>x\<rfloor>; d = x - rat_of_int f
     in if d < 1 / 2 \<or> d = 1 / 2 \<and> even f then f else f + 1)"

definition median :: "rat list \<Rightarrow> rat" where
  "median xs = (let ys = sort xs; n = length ys
     in if odd n then ys ! (n div 2) else (ys ! (n div 2 - 1) + ys ! (n div 2)) / 2)"

definition audio_agent_on :: "timeline \<Rightarrow> rat \<Rightarrow> int option \<times> bool" where
  "audio_agent_on line naive_agent_on =
     (if tl_insert_only line
      then (case nearest (agent_zero_edges line) naive_agent_on ANCHOR_SEARCH_MS of
              Some edge \<Rightarrow> (Some edge, True)
            | None \<Rightarrow> (nearest (agent_starts line) naive_agent_on ANCHOR_SEARCH_MS, False))
      else (Some (round_even naive_agent_on), False))"

fun user_on_offsets :: "timeline \<Rightarrow> int list \<Rightarrow> rat list" where
  "user_on_offsets line [] = []"
| "user_on_offsets line (user_on # ons) =
     (case nearest (user_starts line) (naive_ms line user_on) ANCHOR_SEARCH_MS of
        None \<Rightarrow> user_on_offsets line ons
      | Some onset \<Rightarrow> (rat_of_int onset - naive_ms line user_on) # user_on_offsets line ons)"

definition median_or_zero :: "rat list \<Rightarrow> rat" where
  "median_or_zero offsets = (if offsets \<noteq> [] then median offsets else 0)"

text \<open>The last step, once the pair is found: the value with its uncertainty, or why there is none.\<close>

definition gap_value :: "timeline \<Rightarrow> turn_anchors \<Rightarrow> rat list \<Rightarrow> rat \<Rightarrow> bool \<Rightarrow> run \<Rightarrow> run \<Rightarrow> gap" where
  "gap_value line anchors offsets o_a anchored user agent =
     (let v = rn_start_ms agent - rn_end_ms user;
          squared = uncertainty_squared user agent;
          found = (not_measurable No_Agent_Audio)\<lparr>gp_uncertainty_ms := Some (rounded_root squared),
             gp_user_end_ms := Some (rn_end_ms user), gp_agent_start_ms := Some (rn_start_ms agent),
             gp_agent_run := Some agent\<rparr>;
          checked = (case ta_user_off_unix_nano anchors of
              Some user_off \<Rightarrow> if anchored then Some (rat_of_int (rn_end_ms user) - naive_ms line user_off) else None
            | None \<Rightarrow> None);
          offsets' = (case checked of Some o_u \<Rightarrow> offsets @ [o_u] | None \<Rightarrow> offsets);
          basis = (if checked \<noteq> None then Anchors_Checked else Continuous_Timeline_Assumed);
          base = found\<lparr>gp_basis := Some basis, gp_offset_ms := median_or_zero offsets'\<rparr>
      in case checked of
           Some o_u \<Rightarrow>
             if \<bar>o_a - o_u\<bar> > DISCONTINUITY_STEP_MS
             then base\<lparr>gp_bound_ms := Some v, gp_reason := Some Recorder_Timeline_Discontinuity\<rparr>
             else if squared > MAX_MEASURABLE_GAP_UNCERTAINTY_MS\<^sup>2
             then base\<lparr>gp_reason := Some Boundary_Uncertainty_Too_High\<rparr>
             else base\<lparr>gp_status := Measured, gp_value_ms := Some v, gp_reason := None\<rparr>
         | None \<Rightarrow>
             if squared > MAX_MEASURABLE_GAP_UNCERTAINTY_MS\<^sup>2
             then base\<lparr>gp_reason := Some Boundary_Uncertainty_Too_High\<rparr>
             else base\<lparr>gp_status := Measured, gp_value_ms := Some v, gp_reason := None\<rparr>)"

text \<open>Steps 2 and 3 for the agent run found: is a user run active when it starts, and which user run came last.\<close>

definition user_active_at :: "timeline \<Rightarrow> int \<Rightarrow> bool" where
  "user_active_at line start =
     (let latest = int (bisect (\<lambda>p. p \<le> start) (user_starts line)) - 1
      in latest \<ge> 0 \<and> rn_start_ms (user_runs_by_start line ! nat latest) < start
         \<and> rn_end_ms (user_runs_by_start line ! nat latest) > start)"

definition last_user_before :: "timeline \<Rightarrow> int \<Rightarrow> run option" where
  "last_user_before line start =
     (let index = int (bisect (\<lambda>r. rn_end_ms r \<le> start) (user_runs_by_end line)) - 1
      in if index \<ge> 0 then Some (user_runs_by_end line ! nat index) else None)"

definition agent_after_user :: "timeline \<Rightarrow> run \<Rightarrow> int \<Rightarrow> bool" where
  "agent_after_user line user start =
     (bisect (\<lambda>p. p \<le> rn_end_ms user) (agent_starts line) < bisect (\<lambda>p. p < start) (agent_starts line))"

definition gap_of_pair :: "timeline \<Rightarrow> turn_anchors \<Rightarrow> rat list \<Rightarrow> rat \<Rightarrow> bool \<Rightarrow> run \<Rightarrow> gap" where
  "gap_of_pair line anchors offsets o_a anchored agent =
     (if user_active_at line (rn_start_ms agent)
      then (not_measurable No_Agent_Audio)\<lparr>gp_status := Talk_Over, gp_reason := None,
             gp_agent_start_ms := Some (rn_start_ms agent), gp_offset_ms := median_or_zero offsets,
             gp_agent_run := Some agent\<rparr>
      else (case last_user_before line (rn_start_ms agent) of
              Some user \<Rightarrow>
                if \<not> agent_after_user line user (rn_start_ms agent)
                then gap_value line anchors offsets o_a anchored user agent
                else (not_measurable No_Clear_Pairing)\<lparr>gp_agent_start_ms := Some (rn_start_ms agent),
                       gp_offset_ms := median_or_zero offsets, gp_agent_run := Some agent\<rparr>
            | None \<Rightarrow> (not_measurable No_Clear_Pairing)\<lparr>gp_agent_start_ms := Some (rn_start_ms agent),
                       gp_offset_ms := median_or_zero offsets, gp_agent_run := Some agent\<rparr>))"

definition audible_gap :: "timeline \<Rightarrow> turn_anchors \<Rightarrow> gap" where
  "audible_gap line anchors =
     (case ta_agent_on_unix_nano anchors of
        None \<Rightarrow> not_measurable No_Agent_Audio
      | Some agent_on \<Rightarrow>
          let naive_on = naive_ms line agent_on; (audio_on, anchored) = audio_agent_on line naive_on
          in case audio_on of
               None \<Rightarrow> not_measurable No_Agent_Audio
             | Some on \<Rightarrow>
                 (case nearest_run (agent_runs_by_start line) (agent_starts line) (rat_of_int on) PAIRING_WINDOW_MS of
                    None \<Rightarrow> not_measurable No_Agent_Audio
                  | Some agent \<Rightarrow>
                      let o_a = rat_of_int on - naive_on;
                          offsets = (if tl_insert_only line
                            then user_on_offsets line (ta_user_on_unix_nano anchors) @ [o_a] else [])
                      in gap_of_pair line anchors offsets o_a anchored agent))"

section \<open>The nearest point is the nearest\<close>

lemma takeWhile_filter: "cut_by p xs \<Longrightarrow> takeWhile p xs = filter p xs"
  unfolding cut_by_def by (induction xs) (auto simp: filter_empty_conv)

lemma bisect_filter: "cut_by p xs \<Longrightarrow> bisect p xs = length (filter p xs)"
  by (simp add: bisect_cut takeWhile_filter)

lemma cut_sorted: "sorted xs \<Longrightarrow> (\<And>x y. x \<le> y \<Longrightarrow> p y \<Longrightarrow> p x) \<Longrightarrow> cut_by p xs"
  unfolding cut_by_def by (erule sorted_wrt_mono_rel [rotated]) blast

lemma fold_min_by:
  fixes key :: "'a \<Rightarrow> 'b :: linorder"
  shows "fold (\<lambda>y best. if key y < key best then y else best) xs x \<in> insert x (set xs)
    \<and> list_all (\<lambda>y. key (fold (\<lambda>y best. if key y < key best then y else best) xs x) \<le> key y) (x # xs)"
proof (induction xs arbitrary: x)
  case (Cons y xs)
  let ?b = "if key y < key x then y else x"
  have "key ?b \<le> key x" "key ?b \<le> key y" by auto
  then show ?case using Cons.IH [of ?b] by (fastforce simp: list_all_iff)
qed simp

lemma min_by_least: "xs \<noteq> [] \<Longrightarrow> min_by key xs \<in> set xs \<and> list_all (\<lambda>y. key (min_by key xs) \<le> key y) xs"
proof (cases xs)
  case (Cons y ys)
  then show ?thesis using fold_min_by [of key ys y] by simp
qed simp

lemma distance_below: "p \<le> q \<Longrightarrow> rat_of_int q \<le> t \<Longrightarrow> distance t q \<le> distance t p"
proof -
  assume "p \<le> q" "rat_of_int q \<le> t"
  moreover have "rat_of_int p \<le> rat_of_int q" using \<open>p \<le> q\<close> by simp
  ultimately show ?thesis by (cases "p = q") (auto simp: distance_def less_eq_prod_def abs_if)
qed

lemma distance_above: "q \<le> p \<Longrightarrow> t \<le> rat_of_int q \<Longrightarrow> distance t q \<le> distance t p"
proof -
  assume "q \<le> p" "t \<le> rat_of_int q"
  moreover have "rat_of_int q \<le> rat_of_int p" using \<open>q \<le> p\<close> by simp
  ultimately show ?thesis by (cases "p = q") (auto simp: distance_def less_eq_prod_def abs_if)
qed

lemma cut_side:
  assumes "cut_by p xs" "i < length xs"
  shows "p (xs ! i) = (i < length (takeWhile p xs))"
proof
  assume "i < length (takeWhile p xs)"
  then show "p (xs ! i)" using takeWhile_nth [of i p xs] set_takeWhileD [of "takeWhile p xs ! i" p xs] nth_mem by metis
next
  assume p: "p (xs ! i)"
  show "i < length (takeWhile p xs)"
  proof (rule ccontr)
    let ?k = "length (takeWhile p xs)"
    assume "\<not> i < ?k"
    then have k: "?k < length xs" "?k \<le> i" using assms(2) by simp_all
    then show False using nth_length_takeWhile [OF k(1)] cut_by_before [OF assms(1) k(2) assms(2) p] by simp
  qed
qed

text \<open>The two neighbours of a place in a list.\<close>

definition neighbours :: "'a list \<Rightarrow> nat \<Rightarrow> 'a list" where
  "neighbours xs k = drop (k - 1) (take (min (length xs) (k + 1)) xs)"

lemma neighbours_set: "set (neighbours xs k) \<subseteq> set xs"
  unfolding neighbours_def using set_drop_subset set_take_subset by (rule order_trans)

lemma neighbour_left: "0 < k \<Longrightarrow> k \<le> length xs \<Longrightarrow> xs ! (k - 1) \<in> set (neighbours xs k)"
proof -
  assume k: "0 < k" "k \<le> length xs"
  have "neighbours xs k ! 0 = xs ! (k - 1)" using k by (cases k) (simp_all add: neighbours_def nth_drop)
  moreover have "0 < length (neighbours xs k)" using k by (simp add: neighbours_def)
  ultimately show ?thesis using nth_mem [of 0 "neighbours xs k"] by simp
qed

lemma neighbour_right: "k < length xs \<Longrightarrow> xs ! k \<in> set (neighbours xs k)"
proof -
  assume k: "k < length xs"
  have "neighbours xs k ! (k - (k - 1)) = xs ! k" using k by (simp add: neighbours_def nth_drop)
  moreover have "k - (k - 1) < length (neighbours xs k)" using k by (cases k) (simp_all add: neighbours_def)
  ultimately show ?thesis using nth_mem [of "k - (k - 1)" "neighbours xs k"] by simp
qed

lemma neighbour_nearer:
  assumes sorted: "sorted points" and p: "p \<in> set points"
    and k: "k = length (takeWhile (\<lambda>p. rat_of_int p < target) points)"
  shows "\<exists>c\<in>set (neighbours points k). distance target c \<le> distance target p"
proof -
  let ?before = "\<lambda>p. rat_of_int p < target"
  have cut: "cut_by ?before points"
  proof (rule cut_sorted [OF sorted])
    fix x y :: int assume "x \<le> y" "?before y"
    moreover from this have "rat_of_int x \<le> rat_of_int y" by simp
    ultimately show "?before x" by linarith
  qed
  have le: "k \<le> length points" unfolding k by (rule length_takeWhile_le)
  obtain i where i: "i < length points" "p = points ! i" using p by (auto simp: in_set_conv_nth)
  show ?thesis
  proof (cases "i < k")
    case True
    then have k1: "k - 1 < length points" "0 < k" using le by simp_all
    have "?before (points ! (k - 1))" using cut_side [OF cut k1(1)] k1(2) k by simp
    moreover have "p \<le> points ! (k - 1)" using i True k1 sorted by (simp add: sorted_nth_mono)
    ultimately have "distance target (points ! (k - 1)) \<le> distance target p" by (intro distance_below) simp_all
    then show ?thesis using neighbour_left [OF k1(2) le] by blast
  next
    case False
    then have kn: "k < length points" using i(1) by simp
    have "\<not> ?before (points ! k)" using cut_side [OF cut kn] k by simp
    moreover have "points ! k \<le> p" using i False sorted by (simp add: sorted_nth_mono)
    ultimately have "distance target (points ! k) \<le> distance target p" by (intro distance_above) simp_all
    then show ?thesis using neighbour_right [OF kn] by blast
  qed
qed

lemma nearest_eq:
  assumes "sorted points" "points \<noteq> []"
  shows "\<exists>best. nearest points target window = (if \<bar>rat_of_int best - target\<bar> > window then None else Some best)
    \<and> best \<in> set points \<and> list_all (\<lambda>p. distance target best \<le> distance target p) points"
proof -
  let ?before = "\<lambda>p. rat_of_int p < target"
  let ?k = "length (takeWhile ?before points)"
  let ?best = "min_by (distance target) (neighbours points ?k)"
  have cut: "cut_by ?before points"
  proof (rule cut_sorted [OF assms(1)])
    fix x y :: int assume "x \<le> y" "?before y"
    moreover from this have "rat_of_int x \<le> rat_of_int y" by simp
    ultimately show "?before x" by linarith
  qed
  have "hd points \<in> set points" using assms(2) by simp
  then obtain c where "c \<in> set (neighbours points ?k)"
    using neighbour_nearer [OF assms(1) _ refl, of "hd points" target] by blast
  then have ne: "neighbours points ?k \<noteq> []" by auto
  note least = min_by_least [OF ne, of "distance target"]
  then have bestle: "\<And>c. c \<in> set (neighbours points ?k) \<Longrightarrow> distance target ?best \<le> distance target c"
    by (simp add: list_all_iff)
  have "distance target ?best \<le> distance target p" if p: "p \<in> set points" for p
  proof -
    obtain c where c: "c \<in> set (neighbours points ?k)" "distance target c \<le> distance target p"
      using neighbour_nearer [OF assms(1) p refl] by blast
    show ?thesis by (rule order_trans [OF bestle [OF c(1)] c(2)])
  qed
  then have "list_all (\<lambda>p. distance target ?best \<le> distance target p) points" by (simp add: list_all_iff)
  moreover have "?best \<in> set points" by (rule subsetD [OF neighbours_set conjunct1 [OF least]])
  moreover have "nearest points target window = (if \<bar>rat_of_int ?best - target\<bar> > window then None else Some ?best)"
    unfolding nearest_def Let_def bisect_cut [OF cut] neighbours_def if_not_P [OF assms(2)]
    by (rule refl)
  ultimately show ?thesis by (intro exI [of _ ?best] conjI)
qed

text \<open>The nearest of sorted points to a target within a window, found by binary search among two
  neighbours, is the nearest of them all, the earlier one on a tie; none is found only when every point is
  outside the window.\<close>

theorem nearest_exact:
  assumes "sorted points"
  shows "case nearest points target window of
      None \<Rightarrow> list_all (\<lambda>p. window < \<bar>rat_of_int p - target\<bar>) points
    | Some best \<Rightarrow> best \<in> set points \<and> \<bar>rat_of_int best - target\<bar> \<le> window
        \<and> list_all (\<lambda>p. distance target best \<le> distance target p) points"
proof (cases "points = []")
  case True
  then show ?thesis by (simp add: nearest_def)
next
  case False
  obtain best where eq: "nearest points target window = (if \<bar>rat_of_int best - target\<bar> > window then None else Some best)"
    and best: "best \<in> set points" "list_all (\<lambda>p. distance target best \<le> distance target p) points"
    using nearest_eq [OF assms False] by blast
  have "\<bar>rat_of_int best - target\<bar> \<le> \<bar>rat_of_int p - target\<bar>" if "distance target best \<le> distance target p" for p
    using that by (auto simp: distance_def less_eq_prod_def)
  then have "list_all (\<lambda>p. window < \<bar>rat_of_int p - target\<bar>) points" if "\<bar>rat_of_int best - target\<bar> > window"
    using best(2) that unfolding list_all_iff by (blast intro: less_le_trans)
  then show ?thesis unfolding eq using best by simp
qed

theorem nearest_exact_witness:
  "case nearest [100, 240, 380] 310 1500 of
      None \<Rightarrow> list_all (\<lambda>p. 1500 < \<bar>rat_of_int p - 310\<bar>) [100, 240, 380]
    | Some best \<Rightarrow> best \<in> set [100, 240, 380] \<and> \<bar>rat_of_int best - 310\<bar> \<le> 1500
        \<and> list_all (\<lambda>p. distance 310 best \<le> distance 310 p) [100, 240, 380]"
  by (rule nearest_exact) simp

section \<open>The pairing over speech runs that do not overlap\<close>

text \<open>One speaker's runs, as the analysis gives them: none empty, in order, not overlapping.\<close>

definition runs_ok :: "run list \<Rightarrow> bool" where
  "runs_ok runs = (list_all (\<lambda>r. rn_start_ms r < rn_end_ms r) runs
     \<and> sorted_wrt (\<lambda>r r'. rn_end_ms r \<le> rn_start_ms r') runs)"

lemma runs_ok_wrt:
  assumes "runs_ok runs" "\<And>r r'. rn_start_ms r < rn_end_ms r \<Longrightarrow> rn_start_ms r' < rn_end_ms r' \<Longrightarrow>
    rn_end_ms r \<le> rn_start_ms r' \<Longrightarrow> P r r'"
  shows "sorted_wrt P runs"
  using assms(1) unfolding runs_ok_def list_all_iff by (auto intro: sorted_wrt_mono_rel [rotated] assms(2))

lemma runs_by_start: "runs_ok runs \<Longrightarrow> sort_key rn_start_ms runs = runs"
  by (rule sort_key_id_if_sorted) (simp add: sorted_map runs_ok_wrt)

lemma runs_by_end: "runs_ok runs \<Longrightarrow> sort_key (\<lambda>r. (rn_end_ms r, rn_start_ms r)) runs = runs"
  by (rule sort_key_id_if_sorted) (simp add: sorted_map runs_ok_wrt less_eq_prod_def)

lemma cut_starts: "runs_ok runs \<Longrightarrow> (\<And>x y. x \<le> y \<Longrightarrow> p y \<Longrightarrow> p x) \<Longrightarrow> cut_by p (map rn_start_ms runs)"
  by (rule cut_sorted) (simp_all add: sorted_map runs_ok_wrt)

lemma cut_ends: "runs_ok runs \<Longrightarrow> cut_by (\<lambda>r. rn_end_ms r \<le> t) runs"
  unfolding cut_by_def by (rule runs_ok_wrt) simp_all

lemma filter_cut_take: "cut_by p xs \<Longrightarrow> filter p xs = take (length (filter p xs)) xs"
  by (metis takeWhile_eq_take takeWhile_filter)

lemma last_cut: "cut_by p xs \<Longrightarrow> filter p xs \<noteq> [] \<Longrightarrow> xs ! (length (filter p xs) - 1) = last (filter p xs)"
proof -
  assume a: "cut_by p xs" "filter p xs \<noteq> []"
  then have "length (filter p xs) - 1 < length (filter p xs)" by simp
  then have "take (length (filter p xs)) xs ! (length (filter p xs) - 1) = xs ! (length (filter p xs) - 1)"
    by (rule nth_take)
  then show ?thesis using filter_cut_take [OF a(1)] a(2) by (simp add: last_conv_nth)
qed

text \<open>The last user run to have ended by \<open>t\<close>.\<close>

lemma last_user_before_eq:
  assumes "runs_ok (tl_user_runs line)"
  shows "last_user_before line t = (let past = filter (\<lambda>r. rn_end_ms r \<le> t) (tl_user_runs line)
      in if past = [] then None else Some (last past))"
  using last_cut [OF cut_ends [OF assms], of t]
  by (simp add: last_user_before_def user_runs_by_end_def runs_by_end [OF assms] bisect_filter [OF cut_ends [OF assms]]
      Let_def nat_diff_distrib Suc_le_eq)

text \<open>A user run is active at \<open>t\<close> just when one lies around it.\<close>

lemma started_last:
  assumes "runs_ok runs" "r \<in> set runs" "rn_start_ms r < t" "t < rn_end_ms r"
  shows "filter (\<lambda>r. rn_start_ms r \<le> t) runs \<noteq> [] \<and> last (filter (\<lambda>r. rn_start_ms r \<le> t) runs) = r"
proof -
  obtain xs ys where split: "runs = xs @ r # ys" using assms(2) by (auto simp: in_set_conv_decomp)
  have "rn_end_ms r \<le> rn_start_ms r'" if "r' \<in> set ys" for r'
    using assms(1) that unfolding split runs_ok_def by (simp add: sorted_wrt_append)
  then have "filter (\<lambda>r. rn_start_ms r \<le> t) ys = []" using assms(4) by (fastforce simp: filter_empty_conv)
  then show ?thesis using assms(3) by (simp add: split)
qed

lemma user_active_at_eq:
  assumes "runs_ok (tl_user_runs line)"
  shows "user_active_at line t = list_ex (\<lambda>r. rn_start_ms r < t \<and> t < rn_end_ms r) (tl_user_runs line)"
proof -
  let ?runs = "tl_user_runs line"
  let ?started = "filter (\<lambda>r. rn_start_ms r \<le> t) ?runs"
  have cut: "cut_by (\<lambda>p. p \<le> t) (map rn_start_ms ?runs)" by (rule cut_starts [OF assms]) simp
  have cutr: "cut_by (\<lambda>r. rn_start_ms r \<le> t) ?runs" unfolding cut_by_def by (rule runs_ok_wrt [OF assms]) simp
  have count: "bisect (\<lambda>p. p \<le> t) (user_starts line) = length ?started"
    unfolding user_starts_def user_runs_by_start_def runs_by_start [OF assms] bisect_filter [OF cut]
    by (simp add: filter_map comp_def)
  have "user_active_at line t = (?started \<noteq> [] \<and> rn_start_ms (last ?started) < t \<and> t < rn_end_ms (last ?started))"
    unfolding user_active_at_def count user_runs_by_start_def runs_by_start [OF assms]
    using last_cut [OF cutr] by (auto simp: Let_def nat_diff_distrib Suc_le_eq)
  also have "\<dots> = list_ex (\<lambda>r. rn_start_ms r < t \<and> t < rn_end_ms r) ?runs"
  proof
    assume "?started \<noteq> [] \<and> rn_start_ms (last ?started) < t \<and> t < rn_end_ms (last ?started)"
    then show "list_ex (\<lambda>r. rn_start_ms r < t \<and> t < rn_end_ms r) ?runs"
      using last_in_set [of ?started] by (auto simp: list_ex_iff)
  next
    assume "list_ex (\<lambda>r. rn_start_ms r < t \<and> t < rn_end_ms r) ?runs"
    then obtain r where r: "r \<in> set ?runs" "rn_start_ms r < t" "t < rn_end_ms r" by (auto simp: list_ex_iff)
    show "?started \<noteq> [] \<and> rn_start_ms (last ?started) < t \<and> t < rn_end_ms (last ?started)"
      using started_last [OF assms r] r by simp
  qed
  finally show ?thesis .
qed

text \<open>An agent run starts strictly between the user's end and \<open>t\<close>.\<close>

lemma filter_count_less:
  assumes "\<And>x. p x \<Longrightarrow> q x"
  shows "length (filter p xs) < length (filter q xs) \<longleftrightarrow> list_ex (\<lambda>x. q x \<and> \<not> p x) xs"
proof -
  have le: "length (filter p xs) \<le> length (filter q xs)" for xs
    using assms by (induction xs) auto
  show ?thesis by (induction xs) (use assms le in \<open>auto simp: less_Suc_eq_le\<close>)
qed

lemma agent_after_user_eq:
  assumes "runs_ok (tl_agent_runs line)" "rn_end_ms user \<le> t"
  shows "agent_after_user line user t
    = list_ex (\<lambda>r. rn_end_ms user < rn_start_ms r \<and> rn_start_ms r < t) (tl_agent_runs line)"
proof -
  let ?starts = "map rn_start_ms (tl_agent_runs line)"
  have c1: "cut_by (\<lambda>p. p \<le> rn_end_ms user) ?starts" and c2: "cut_by (\<lambda>p. p < t) ?starts"
    by (rule cut_starts [OF assms(1)]; simp)+
  have eq: "agent_after_user line user t
      = (length (filter (\<lambda>p. p \<le> rn_end_ms user) ?starts) < length (filter (\<lambda>p. p < t) ?starts))"
    unfolding agent_after_user_def agent_starts_def agent_runs_by_start_def runs_by_start [OF assms(1)]
      bisect_filter [OF c1] bisect_filter [OF c2] ..
  show ?thesis
  proof (cases "rn_end_ms user < t")
    case True
    then show ?thesis unfolding eq
      using filter_count_less [of "\<lambda>p. p \<le> rn_end_ms user" "\<lambda>p. p < t" ?starts]
      by (simp add: list_ex_iff not_le conj_commute)
  next
    case False
    then have t: "rn_end_ms user = t" using assms(2) by simp
    have "length (filter (\<lambda>p. p < t) xs) \<le> length (filter (\<lambda>p. p \<le> t) xs)" for xs by (induction xs) auto
    then have "\<not> length (filter (\<lambda>p. p \<le> t) ?starts) < length (filter (\<lambda>p. p < t) ?starts)" by (simp only: not_less)
    moreover have "\<not> list_ex (\<lambda>r. t < rn_start_ms r \<and> rn_start_ms r < t) (tl_agent_runs line)"
      by (auto simp: list_ex_iff)
    ultimately show ?thesis unfolding eq t by blast
  qed
qed

lemma sort_key_set: "set (sort_key k xs) = set xs"
  by simp

lemma nearest_run_member: "nearest_run (sort_key rn_start_ms runs) (map rn_start_ms (sort_key rn_start_ms runs)) target window = Some a
    \<Longrightarrow> a \<in> set runs"
proof -
  let ?runs = "sort_key rn_start_ms runs"
  let ?starts = "map rn_start_ms ?runs"
  assume "nearest_run ?runs ?starts target window = Some a"
  then obtain start where start: "nearest ?starts target window = Some start"
    and a: "a = ?runs ! bisect (\<lambda>p. p < start) ?starts"
    by (auto simp: nearest_run_def split: option.splits)
  have ne: "?starts \<noteq> []" using start by (auto simp: nearest_def)
  have "start \<in> set ?starts"
    using nearest_eq [OF sorted_sort_key [of rn_start_ms runs] ne, of target window] start by (auto split: if_splits)
  have cut: "cut_by (\<lambda>p. p < start) ?starts" by (rule cut_sorted) (simp_all add: sorted_sort_key)
  have "length (filter (\<lambda>p. p < start) ?starts) < length ?starts"
    using \<open>start \<in> set ?starts\<close> by (rule length_filter_less) simp
  then have "bisect (\<lambda>p. p < start) ?starts < length ?runs" unfolding bisect_filter [OF cut] by simp
  then have "a \<in> set ?runs" unfolding a by (rule nth_mem)
  then show ?thesis by simp
qed

lemma gap_value_measured: "gp_value_ms (gap_value line anchors offsets o_a anchored user agent) = Some v \<Longrightarrow>
    gp_status (gap_value line anchors offsets o_a anchored user agent) = Measured
    \<and> gp_agent_run (gap_value line anchors offsets o_a anchored user agent) = Some agent
    \<and> v = rn_start_ms agent - rn_end_ms user \<and> uncertainty_squared user agent \<le> 100\<^sup>2"
  by (auto simp: gap_value_def Let_def not_measurable_def MAX_MEASURABLE_GAP_UNCERTAINTY_MS_def
      split: option.splits if_splits)

lemma audible_gap_cases:
  obtains reason where "audible_gap line anchors = not_measurable reason"
  | offsets o_a anchored agent where "agent \<in> set (tl_agent_runs line)"
      "audible_gap line anchors = gap_of_pair line anchors offsets o_a anchored agent"
proof -
  have member: "agent \<in> set (tl_agent_runs line)"
    if "nearest_run (agent_runs_by_start line) (agent_starts line) target window = Some agent" for target window agent
    using nearest_run_member that unfolding agent_runs_by_start_def agent_starts_def by blast
  show ?thesis 
  proof (cases "ta_agent_on_unix_nano anchors")
    case None
    then show ?thesis using that(1) by (simp add: audible_gap_def)
  next
    case (Some agent_on)
    obtain audio anchored where on: "audio_agent_on line (naive_ms line agent_on) = (audio, anchored)" by fastforce
    show ?thesis
    proof (cases "\<exists>on agent. audio = Some on
        \<and> nearest_run (agent_runs_by_start line) (agent_starts line) (rat_of_int on) PAIRING_WINDOW_MS = Some agent")
      case True
      then obtain on' agent where a: "audio = Some on'"
        "nearest_run (agent_runs_by_start line) (agent_starts line) (rat_of_int on') PAIRING_WINDOW_MS = Some agent"
        by blast
      show ?thesis by (rule that(2) [OF member [OF a(2)]]) (simp add: audible_gap_def Some on a Let_def)
    next
      case False
      then have "audible_gap line anchors = not_measurable No_Agent_Audio"
        by (simp add: audible_gap_def Some on Let_def split: option.splits)
      then show ?thesis by (rule that(1))
    qed
  qed
qed

text \<open>The user run of a measured gap: no user run follows it before the agent, none is active there, and no
  agent run starts in between.\<close>

lemma gap_of_pair_measured:
  assumes "runs_ok (tl_user_runs line)" "runs_ok (tl_agent_runs line)"
    and g: "gp_value_ms (gap_of_pair line anchors offsets o_a anchored agent) = Some v"
  obtains user where "gap_of_pair line anchors offsets o_a anchored agent = gap_value line anchors offsets o_a anchored user agent"
    "user \<in> set (tl_user_runs line)" "rn_end_ms user \<le> rn_start_ms agent"
    "list_all (\<lambda>r. rn_end_ms r \<le> rn_end_ms user \<or> rn_start_ms agent \<le> rn_start_ms r) (tl_user_runs line)"
    "list_all (\<lambda>r. rn_start_ms r \<le> rn_end_ms user \<or> rn_start_ms agent \<le> rn_start_ms r) (tl_agent_runs line)"
proof -
  let ?t = "rn_start_ms agent" and ?users = "tl_user_runs line"
  let ?past = "filter (\<lambda>r. rn_end_ms r \<le> ?t) ?users"
  have active: "\<not> user_active_at line ?t" using g by (auto simp: gap_of_pair_def not_measurable_def)
  then obtain user where user: "last_user_before line ?t = Some user" "\<not> agent_after_user line user ?t"
    using g by (auto simp: gap_of_pair_def not_measurable_def split: option.splits if_splits)
  have past: "?past \<noteq> []" "user = last ?past"
    using user(1) unfolding last_user_before_eq [OF assms(1)] by (auto simp: Let_def split: if_splits)
  have "user \<in> set ?past" unfolding past(2) by (rule last_in_set [OF past(1)])
  then have u: "user \<in> set ?users" "rn_end_ms user \<le> ?t" by simp_all
  have "sorted (map rn_end_ms ?past)"
    unfolding sorted_map by (rule sorted_wrt_filter) (rule runs_ok_wrt [OF assms(1)], simp)
  then have latest: "rn_end_ms r \<le> rn_end_ms user" if "r \<in> set ?past" for r
    using that past by (cases ?past rule: rev_cases) (auto simp: sorted_append)
  have "rn_end_ms r \<le> rn_end_ms user \<or> ?t \<le> rn_start_ms r" if r: "r \<in> set ?users" for r
  proof (cases "rn_end_ms r \<le> ?t")
    case True
    then show ?thesis using latest r by simp
  next
    case False
    then show ?thesis using active r unfolding user_active_at_eq [OF assms(1)] by (auto simp: list_ex_iff)
  qed
  then have quiet: "list_all (\<lambda>r. rn_end_ms r \<le> rn_end_ms user \<or> ?t \<le> rn_start_ms r) ?users" by (simp add: list_all_iff)
  have "list_all (\<lambda>r. rn_start_ms r \<le> rn_end_ms user \<or> ?t \<le> rn_start_ms r) (tl_agent_runs line)"
    using user(2) unfolding agent_after_user_eq [OF assms(2) u(2)] by (auto simp: list_ex_iff list_all_iff)
  moreover have "gap_of_pair line anchors offsets o_a anchored agent = gap_value line anchors offsets o_a anchored user agent"
    using active user by (simp add: gap_of_pair_def)
  ultimately show ?thesis using that u quiet by blast
qed

text \<open>C32. An audible gap is never made up: whenever a turn has a value, its status is measured and the value is
  the time from the end of a user run to the start of an agent run on the timeline, so it is not negative;
  no user speaks in between, no agent run starts in between, and the two edges' combined uncertainty is at
  most 100 ms.\<close>

theorem measured_gap_is_real:
  assumes "runs_ok (tl_user_runs line)" "runs_ok (tl_agent_runs line)"
    "gp_value_ms (audible_gap line anchors) = Some v"
  shows "gp_status (audible_gap line anchors) = Measured \<and> 0 \<le> v \<and>
    (\<exists>user agent. user \<in> set (tl_user_runs line) \<and> agent \<in> set (tl_agent_runs line)
      \<and> gp_agent_run (audible_gap line anchors) = Some agent \<and> v = rn_start_ms agent - rn_end_ms user
      \<and> list_all (\<lambda>r. rn_end_ms r \<le> rn_end_ms user \<or> rn_start_ms agent \<le> rn_start_ms r) (tl_user_runs line)
      \<and> list_all (\<lambda>r. rn_start_ms r \<le> rn_end_ms user \<or> rn_start_ms agent \<le> rn_start_ms r) (tl_agent_runs line)
      \<and> (rn_end_sigma_ms user)\<^sup>2 + (rn_start_sigma_ms agent)\<^sup>2 \<le> 100\<^sup>2)"
proof (cases rule: audible_gap_cases [of line anchors])
  case (1 reason)
  then show ?thesis using assms(3) by (simp add: not_measurable_def)
next
  case (2 offsets o_a anchored agent)
  have "gp_value_ms (gap_of_pair line anchors offsets o_a anchored agent) = Some v" using 2(2) assms(3) by simp
  then obtain user where user: "gap_of_pair line anchors offsets o_a anchored agent = gap_value line anchors offsets o_a anchored user agent"
    "user \<in> set (tl_user_runs line)" "rn_end_ms user \<le> rn_start_ms agent"
    "list_all (\<lambda>r. rn_end_ms r \<le> rn_end_ms user \<or> rn_start_ms agent \<le> rn_start_ms r) (tl_user_runs line)"
    "list_all (\<lambda>r. rn_start_ms r \<le> rn_end_ms user \<or> rn_start_ms agent \<le> rn_start_ms r) (tl_agent_runs line)"
    by (rule gap_of_pair_measured [OF assms(1,2)])
  note m = gap_value_measured [OF assms(3) [unfolded 2(2) user(1)]]
  have "0 \<le> v" using m user(3) by simp
  then show ?thesis unfolding 2(2) user(1)
    using m user(2,4,5) 2(1) unfolding uncertainty_squared_def
    by (intro conjI exI [of _ user] exI [of _ agent]) simp_all
qed

definition example_run :: "int \<Rightarrow> int \<Rightarrow> run" where
  "example_run start end' = \<lparr>rn_start_ms = start, rn_end_ms = end', rn_start_sigma_ms = 10, rn_end_sigma_ms = 20\<rparr>"

definition example_timeline :: timeline where
  "example_timeline = \<lparr>tl_started_at_unix_nano = 0, tl_duration_ms = Some 9000,
     tl_user_runs = [example_run 0 1000, example_run 4000 5000], tl_agent_runs = [example_run 1500 2500],
     tl_agent_zero_runs = [], tl_insert_only = False\<rparr>"

definition example_anchors :: turn_anchors where
  "example_anchors = \<lparr>ta_user_on_unix_nano = [], ta_user_off_unix_nano = Some 1010000000,
     ta_agent_on_unix_nano = Some 1480000000\<rparr>"

lemma example_gap: "runs_ok (tl_user_runs example_timeline)" "runs_ok (tl_agent_runs example_timeline)"
    "gp_value_ms (audible_gap example_timeline example_anchors) = Some 500"
proof -
  show ok: "runs_ok (tl_user_runs example_timeline)" "runs_ok (tl_agent_runs example_timeline)"
    by (simp_all add: runs_ok_def example_timeline_def example_run_def)
  have near: "nearest_run (agent_runs_by_start example_timeline) (agent_starts example_timeline) 1480 PAIRING_WINDOW_MS
      = Some (example_run 1500 2500)"
    by (simp add: nearest_run_def nearest_def agent_starts_def agent_runs_by_start_def example_timeline_def
        example_run_def bisect_cut cut_by_def PAIRING_WINDOW_MS_def)
  have naive: "naive_ms example_timeline 1480000000 = 1480" by (simp add: naive_ms_def example_timeline_def)
  have round: "round_even 1480 = 1480" by (simp add: round_even_def Let_def)
  have pair: "\<not> user_active_at example_timeline 1500" "last_user_before example_timeline 1500 = Some (example_run 0 1000)"
    unfolding user_active_at_eq [OF ok(1)] last_user_before_eq [OF ok(1)]
    by (simp_all add: example_timeline_def example_run_def)
  have after: "\<not> agent_after_user example_timeline (example_run 0 1000) 1500"
    by (subst agent_after_user_eq [OF ok(2)]) (simp_all add: example_timeline_def example_run_def)
  show "gp_value_ms (audible_gap example_timeline example_anchors) = Some 500"
    using near naive round pair after
    by (simp add: audible_gap_def example_anchors_def audio_agent_on_def gap_of_pair_def Let_def)
      (simp add: example_timeline_def example_run_def gap_value_def not_measurable_def uncertainty_squared_def
        MAX_MEASURABLE_GAP_UNCERTAINTY_MS_def)
qed

theorem measured_gap_is_real_witness:
  "gp_status (audible_gap example_timeline example_anchors) = Measured \<and> (0 :: int) \<le> 500 \<and>
    (\<exists>user agent. user \<in> set (tl_user_runs example_timeline) \<and> agent \<in> set (tl_agent_runs example_timeline)
      \<and> gp_agent_run (audible_gap example_timeline example_anchors) = Some agent
      \<and> 500 = rn_start_ms agent - rn_end_ms user
      \<and> list_all (\<lambda>r. rn_end_ms r \<le> rn_end_ms user \<or> rn_start_ms agent \<le> rn_start_ms r) (tl_user_runs example_timeline)
      \<and> list_all (\<lambda>r. rn_start_ms r \<le> rn_end_ms user \<or> rn_start_ms agent \<le> rn_start_ms r) (tl_agent_runs example_timeline)
      \<and> (rn_end_sigma_ms user)\<^sup>2 + (rn_start_sigma_ms agent)\<^sup>2 \<le> 100\<^sup>2)"
  by (rule measured_gap_is_real [OF example_gap])

end
