(* ===== verification/CallSignals.thy ===== *)
theory CallSignals
  imports CallTimeline
begin

text \<open>
  The signals of a call on one timeline (\<^verbatim>\<open>call_timeline.py\<close>, \<^verbatim>\<open>signals\<close>): talk time, overlap,
  barge-ins, talk-overs, long silences and dead air. The code sweeps the sorted runs once; the theorems
  compare it with the definitions over all pairs of runs.
\<close>

section \<open>Constants\<close>

definition MIN_OVERLAP_MS :: int where "MIN_OVERLAP_MS = 120"
definition EDGE_GUARD_MS :: int where "EDGE_GUARD_MS = 100"
definition BACKCHANNEL_MAX_MS :: int where "BACKCHANNEL_MAX_MS = 600"
definition YIELD_WINDOW_MS :: int where "YIELD_WINDOW_MS = 1500"
definition LONG_SILENCE_MS :: int where "LONG_SILENCE_MS = 2000"
definition DEAD_AIR_RESPONSE_MS :: int where "DEAD_AIR_RESPONSE_MS = 2000"
definition DEAD_AIR_IN_TURN_MS :: int where "DEAD_AIR_IN_TURN_MS = 3000"

section \<open>The model\<close>

definition talk_time :: "run list \<Rightarrow> int" where
  "talk_time runs = sum_list (map (\<lambda>r. rn_end_ms r - rn_start_ms r) runs)"

text \<open>The sweep of \<^verbatim>\<open>_coalesce\<close>: \<open>previous\<close> is \<^verbatim>\<open>result[-1]\<close>.\<close>

fun coalesce_loop :: "run \<Rightarrow> run list \<Rightarrow> run list" where
  "coalesce_loop previous [] = [previous]"
| "coalesce_loop previous (r # runs) =
     (if rn_start_ms r > rn_end_ms previous then previous # coalesce_loop r runs
      else coalesce_loop
        (if rn_end_ms r > rn_end_ms previous
         then previous\<lparr>rn_end_ms := rn_end_ms r, rn_end_sigma_ms := rn_end_sigma_ms r\<rparr> else previous) runs)"

definition coalesce :: "run list \<Rightarrow> run list" where
  "coalesce runs = (case sort_key (\<lambda>r. (rn_start_ms r, rn_end_ms r)) runs of
      [] \<Rightarrow> [] | r # rest \<Rightarrow> coalesce_loop r rest)"

datatype speaker = User | Agent

text \<open>\<^verbatim>\<open>0 if item[2] == "user" else 1\<close>, the last component of the sort key of the events.\<close>

definition speaker_rank :: "speaker \<Rightarrow> nat" where
  "speaker_rank s = (case s of User \<Rightarrow> 0 | Agent \<Rightarrow> 1)"

record speech_group =
  sp_start :: int
  sp_end :: int
  sp_last_speaker :: speaker
  sp_agent_at_start :: bool

definition group_event :: "speech_group \<Rightarrow> int \<times> int \<times> speaker \<Rightarrow> speech_group" where
  "group_event g event = (case event of (start, end', who) \<Rightarrow>
     let g1 = (if start = sp_start g \<and> who = Agent then g\<lparr>sp_agent_at_start := True\<rparr> else g)
     in if end' > sp_end g1 then g1\<lparr>sp_end := end', sp_last_speaker := who\<rparr>
        else if end' = sp_end g1 \<and> who = User \<and> sp_last_speaker g1 = Agent then g1\<lparr>sp_last_speaker := User\<rparr>
        else g1)"

definition new_group :: "int \<times> int \<times> speaker \<Rightarrow> speech_group" where
  "new_group event = (case event of (start, end', who) \<Rightarrow>
     \<lparr>sp_start = start, sp_end = end', sp_last_speaker = who, sp_agent_at_start = (who = Agent)\<rparr>)"

fun group_loop :: "speech_group \<Rightarrow> (int \<times> int \<times> speaker) list \<Rightarrow> speech_group list" where
  "group_loop g [] = [g]"
| "group_loop g (event # events) =
     (if fst event > sp_end g then g # group_loop (new_group event) events
      else group_loop (group_event g event) events)"

definition speech_events :: "run list \<Rightarrow> run list \<Rightarrow> (int \<times> int \<times> speaker) list" where
  "speech_events user agent = sort_key (\<lambda>(start, end', who). (start, end', speaker_rank who))
     (map (\<lambda>r. (rn_start_ms r, rn_end_ms r, User)) user @ map (\<lambda>r. (rn_start_ms r, rn_end_ms r, Agent)) agent)"

definition speech_groups :: "run list \<Rightarrow> run list \<Rightarrow> speech_group list" where
  "speech_groups user agent = (case speech_events user agent of
      [] \<Rightarrow> [] | event # events \<Rightarrow> group_loop (new_group event) events)"

fun pairwise :: "'a list \<Rightarrow> ('a \<times> 'a) list" where
  "pairwise (x # y # xs) = (x, y) # pairwise (y # xs)"
| "pairwise xs = []"

definition silences :: "run list \<Rightarrow> run list \<Rightarrow> (int \<times> int) list" where
  "silences user agent = map (\<lambda>(p, f). (sp_end p, sp_start f)) (pairwise (speech_groups user agent))"

text \<open>The two-pointer sweep over both speakers' runs.\<close>

definition both_ms :: "run \<Rightarrow> run \<Rightarrow> int" where
  "both_ms u a = min (rn_end_ms u) (rn_end_ms a) - max (rn_start_ms u) (rn_start_ms a)"

definition counted_overlap :: "run \<Rightarrow> run \<Rightarrow> int" where
  "counted_overlap u a = (if both_ms u a \<ge> MIN_OVERLAP_MS then both_ms u a else 0)"

function overlap_sweep :: "run list \<Rightarrow> run list \<Rightarrow> int" where
  "overlap_sweep (u # us) (a # as) =
     counted_overlap u a
     + overlap_sweep (if rn_end_ms u \<le> rn_end_ms a then us else u # us)
                     (if rn_end_ms a \<le> rn_end_ms u then as else a # as)"
| "overlap_sweep [] as = 0"
| "overlap_sweep (u # us) [] = 0"
  by pat_completeness auto
termination by (relation "measure (\<lambda>(us, as). length us + length as)") auto

definition backchannel :: "run \<Rightarrow> run \<Rightarrow> bool" where
  "backchannel u a = (rn_end_ms u - rn_start_ms u < BACKCHANNEL_MAX_MS
     \<and> rn_end_ms a > rn_start_ms u + YIELD_WINDOW_MS)"

definition starts_inside :: "run \<Rightarrow> run \<Rightarrow> bool" where
  "starts_inside inner outer = (rn_start_ms outer + EDGE_GUARD_MS < rn_start_ms inner
     \<and> rn_start_ms inner < rn_end_ms outer)"

text \<open>The run of the other speaker that started last by \<open>t\<close>, by \<^verbatim>\<open>bisect_right\<close>.\<close>

definition latest_started :: "run list \<Rightarrow> int \<Rightarrow> run option" where
  "latest_started runs t =
     (let index = int (bisect (\<lambda>p. p \<le> t) (map rn_start_ms runs)) - 1
      in if index < 0 then None else Some (runs ! nat index))"

definition barge_in_count :: "run list \<Rightarrow> run list \<Rightarrow> int" where
  "barge_in_count user agent = int (length (filter (\<lambda>u. case latest_started agent (rn_start_ms u) of
      None \<Rightarrow> False | Some a \<Rightarrow> starts_inside u a \<and> \<not> backchannel u a) user))"

definition talk_over_count :: "run list \<Rightarrow> run list \<Rightarrow> int" where
  "talk_over_count user agent = int (length (filter (\<lambda>a. case latest_started user (rn_start_ms a) of
      None \<Rightarrow> False | Some u \<Rightarrow> starts_inside a u) agent))"

definition long_silence_count :: "speech_group list \<Rightarrow> int" where
  "long_silence_count groups =
     int (length (filter (\<lambda>(p, f). sp_start f - sp_end p \<ge> LONG_SILENCE_MS) (pairwise groups)))"

definition dead_silence :: "speech_group \<times> speech_group \<Rightarrow> int" where
  "dead_silence pair = (case pair of (p, f) \<Rightarrow>
     let silence = sp_start f - sp_end p;
         response_gap = (sp_last_speaker p = User \<and> sp_agent_at_start f \<and> silence \<ge> DEAD_AIR_RESPONSE_MS);
         in_turn_gap = (sp_last_speaker p = Agent \<and> sp_agent_at_start f \<and> silence \<ge> DEAD_AIR_IN_TURN_MS)
     in if response_gap \<or> in_turn_gap then silence else 0)"

definition pre_greeting :: "run list \<Rightarrow> run list \<Rightarrow> int" where
  "pre_greeting user agent =
     (if user @ agent = [] then 0
      else let first_start = Min (rn_start_ms ` set (user @ agent));
               first_is_user = list_ex (\<lambda>r. rn_start_ms r = first_start) user;
               first_is_agent = list_ex (\<lambda>r. rn_start_ms r = first_start) agent
           in if first_is_agent \<and> \<not> first_is_user \<and> first_start \<ge> DEAD_AIR_RESPONSE_MS then first_start else 0)"

record signals =
  sg_talk_time_user_ms :: int
  sg_talk_time_agent_ms :: int
  sg_overlap_ms :: int
  sg_barge_in_count :: int
  sg_talk_over_count :: int
  sg_long_silence_count :: int
  sg_dead_air_ms :: int

definition call_signals :: "timeline \<Rightarrow> signals" where
  "call_signals line =
     (let user = coalesce (tl_user_runs line); agent = coalesce (tl_agent_runs line);
          groups = speech_groups user agent
      in \<lparr>sg_talk_time_user_ms = talk_time user, sg_talk_time_agent_ms = talk_time agent,
          sg_overlap_ms = overlap_sweep user agent, sg_barge_in_count = barge_in_count user agent,
          sg_talk_over_count = talk_over_count user agent, sg_long_silence_count = long_silence_count groups,
          sg_dead_air_ms = sum_list (map dead_silence (pairwise groups)) + pre_greeting user agent\<rparr>)"

section \<open>One speaker's runs, coalesced\<close>

definition speaking :: "run \<Rightarrow> int \<Rightarrow> bool" where
  "speaking r t = (rn_start_ms r \<le> t \<and> t < rn_end_ms r)"

definition valid_run :: "run \<Rightarrow> bool" where "valid_run r = (rn_start_ms r < rn_end_ms r)"

definition separated :: "run list \<Rightarrow> bool" where
  "separated runs = (list_all valid_run runs \<and> sorted_wrt (\<lambda>r r'. rn_end_ms r < rn_start_ms r') runs)"

lemma coalesce_loop_exact:
  "sorted (map rn_start_ms (p # runs)) \<Longrightarrow> list_all valid_run (p # runs) \<Longrightarrow>
    separated (coalesce_loop p runs) \<and> list_all (\<lambda>q. rn_start_ms p \<le> rn_start_ms q) (coalesce_loop p runs)
    \<and> list_ex (\<lambda>r. speaking r t) (coalesce_loop p runs) = list_ex (\<lambda>r. speaking r t) (p # runs)"
proof (induction p runs rule: coalesce_loop.induct)
  case (1 p)
  then show ?case by (simp add: separated_def)
next
  case (2 p r runs)
  show ?case
  proof (cases "rn_start_ms r > rn_end_ms p")
    case True
    have IH: "separated (coalesce_loop r runs)" "list_all (\<lambda>q. rn_start_ms r \<le> rn_start_ms q) (coalesce_loop r runs)"
      "list_ex (\<lambda>r. speaking r t) (coalesce_loop r runs) = list_ex (\<lambda>r. speaking r t) (r # runs)"
      using 2(1) [OF True] 2(3,4) by simp_all
    have "list_all (\<lambda>q. rn_end_ms p < rn_start_ms q \<and> rn_start_ms p \<le> rn_start_ms q) (coalesce_loop r runs)"
      using IH(2) True 2(3) by (auto simp: list_all_iff)
    then show ?thesis using IH(1,3) 2(4) True by (auto simp: separated_def list_all_iff)
  next
    case False
    let ?p = "if rn_end_ms r > rn_end_ms p
         then p\<lparr>rn_end_ms := rn_end_ms r, rn_end_sigma_ms := rn_end_sigma_ms r\<rparr> else p"
    have p: "rn_start_ms ?p = rn_start_ms p" "valid_run ?p" "speaking ?p t = (speaking p t \<or> speaking r t)"
      using False 2(3,4) by (auto simp: valid_run_def speaking_def)
    have "sorted (map rn_start_ms (?p # runs))" "list_all valid_run (?p # runs)" using 2(3,4) p(1,2) by simp_all
    note IH = 2(2) [OF False this]
    then show ?thesis using False p(1,3) by simp
  qed
qed

lemma coalesce_exact_valid:
  assumes "list_all valid_run runs"
  shows "separated (coalesce runs) \<and> list_ex (\<lambda>r. speaking r t) (coalesce runs) = list_ex (\<lambda>r. speaking r t) runs"
proof -
  let ?sorted = "sort_key (\<lambda>r. (rn_start_ms r, rn_end_ms r)) runs"
  have ex: "list_ex (\<lambda>r. speaking r t) ?sorted = list_ex (\<lambda>r. speaking r t) runs" by (simp add: list_ex_iff)
  have all: "list_all valid_run ?sorted" using assms by (simp add: list_all_iff)
  have "sorted_wrt (\<lambda>r r'. (rn_start_ms r, rn_end_ms r) \<le> (rn_start_ms r', rn_end_ms r')) ?sorted"
    using sorted_sort_key [of "\<lambda>r. (rn_start_ms r, rn_end_ms r)" runs] unfolding sorted_map .
  then have sorted: "sorted (map rn_start_ms ?sorted)" unfolding sorted_map
    by (rule sorted_wrt_mono_rel [rotated]) (auto simp: less_eq_prod_def)
  show ?thesis
  proof (cases ?sorted)
    case Nil
    then show ?thesis using ex by (simp add: coalesce_def separated_def)
  next
    case (Cons r rest)
    then show ?thesis using coalesce_loop_exact [of r rest t] sorted all ex by (simp add: coalesce_def)
  qed
qed

section \<open>The sweeps agree with all pairs\<close>

lemma counted_zero: "rn_end_ms u < rn_start_ms a \<or> rn_end_ms a < rn_start_ms u \<Longrightarrow> counted_overlap u a = 0"
  by (auto simp: counted_overlap_def both_ms_def MIN_OVERLAP_MS_def min_def max_def)

definition pair_overlap :: "run list \<Rightarrow> run list \<Rightarrow> int" where
  "pair_overlap us as = sum_list (map (\<lambda>u. sum_list (map (counted_overlap u) as)) us)"

lemma sum_list_zero: "(\<And>x. x \<in> set xs \<Longrightarrow> f x = 0) \<Longrightarrow> sum_list (map f xs) = (0 :: int)"
  by (induction xs) simp_all

lemma pair_overlap_Cons_right: "pair_overlap us (a # as) = sum_list (map (\<lambda>u. counted_overlap u a) us) + pair_overlap us as"
  by (induction us) (simp_all add: pair_overlap_def)

lemma pair_overlap_Cons_left: "pair_overlap (u # us) as = sum_list (map (counted_overlap u) as) + pair_overlap us as"
  by (simp add: pair_overlap_def)

text \<open>A run that ends no later than the other side's first run meets none of its later ones.\<close>

lemma done_left:
  assumes "separated (a # as)" "rn_end_ms u \<le> rn_end_ms a"
  shows "sum_list (map (counted_overlap u) as) = 0"
proof (rule sum_list_zero)
  fix a' assume "a' \<in> set as"
  then have "rn_end_ms u < rn_start_ms a'" using assms by (auto simp: separated_def)
  then show "counted_overlap u a' = 0" by (simp add: counted_zero)
qed

lemma done_right:
  assumes "separated (u # us)" "rn_end_ms a \<le> rn_end_ms u"
  shows "sum_list (map (\<lambda>u. counted_overlap u a) us) = 0"
proof (rule sum_list_zero)
  fix u' assume "u' \<in> set us"
  then have "rn_end_ms a < rn_start_ms u'" using assms by (auto simp: separated_def)
  then show "counted_overlap u' a = 0" by (simp add: counted_zero)
qed

lemma separated_tl: "separated (r # runs) \<Longrightarrow> separated runs"
  by (simp add: separated_def)

lemma overlap_sweep_pairs: "separated us \<Longrightarrow> separated as \<Longrightarrow> overlap_sweep us as = pair_overlap us as"
proof (induction us as rule: overlap_sweep.induct)
  case (1 u us a as)
  note tails = separated_tl [OF 1(2)] separated_tl [OF 1(3)]
  consider "rn_end_ms u < rn_end_ms a" | "rn_end_ms a < rn_end_ms u" | "rn_end_ms a = rn_end_ms u" by linarith
  then show ?case
  proof cases
    case 1
    then show ?thesis using "1.IH" "1.prems" tails done_left [OF "1.prems"(2)]
      by (simp add: pair_overlap_Cons_left)
  next
    case 2
    then show ?thesis using "1.IH" "1.prems" tails done_right [OF "1.prems"(1)]
      by (simp add: pair_overlap_Cons_right)
  next
    case 3
    then show ?thesis using "1.IH" "1.prems" tails done_left [OF "1.prems"(2)] done_right [OF "1.prems"(1)]
      by (simp add: pair_overlap_Cons_left pair_overlap_Cons_right)
  qed
qed (simp_all add: pair_overlap_def)

text \<open>Only the run that started last can hold a point.\<close>

lemma separated_ok: "separated runs \<Longrightarrow> runs_ok runs"
  unfolding separated_def runs_ok_def by (auto simp: list_all_iff valid_run_def intro: sorted_wrt_mono_rel [rotated])

lemma latest_started_eq:
  assumes "runs_ok runs"
  shows "latest_started runs t = (let started = filter (\<lambda>r. rn_start_ms r \<le> t) runs
    in if started = [] then None else Some (last started))"
proof -
  let ?started = "filter (\<lambda>r. rn_start_ms r \<le> t) runs"
  have cut: "cut_by (\<lambda>p. p \<le> t) (map rn_start_ms runs)" by (rule cut_starts [OF assms]) simp
  have cutr: "cut_by (\<lambda>r. rn_start_ms r \<le> t) runs" unfolding cut_by_def by (rule runs_ok_wrt [OF assms]) simp
  have count: "bisect (\<lambda>p. p \<le> t) (map rn_start_ms runs) = length ?started"
    unfolding bisect_filter [OF cut] by (simp add: filter_map comp_def)
  show ?thesis
  proof (cases "?started = []")
    case True
    then have "length ?started = 0" by simp
    then show ?thesis unfolding latest_started_def count using True by (simp add: Let_def)
  next
    case False
    then have "int (length ?started) - 1 \<ge> 0" "nat (int (length ?started) - 1) = length ?started - 1"
      by (simp_all add: Suc_le_eq)
    then show ?thesis unfolding latest_started_def count using last_cut [OF cutr False] False by (simp add: Let_def)
  qed
qed

lemma latest_started_holds:
  assumes "runs_ok runs" "\<And>r. Q r \<Longrightarrow> rn_start_ms r < t \<and> t < rn_end_ms r"
  shows "(case latest_started runs t of None \<Rightarrow> False | Some r \<Rightarrow> Q r) = list_ex Q runs"
proof
  assume "case latest_started runs t of None \<Rightarrow> False | Some r \<Rightarrow> Q r"
  then show "list_ex Q runs" unfolding latest_started_eq [OF assms(1)]
    using last_in_set [of "filter (\<lambda>r. rn_start_ms r \<le> t) runs"]
    by (auto simp: Let_def list_ex_iff split: if_splits)
next
  assume "list_ex Q runs"
  then obtain r where r: "r \<in> set runs" "Q r" by (auto simp: list_ex_iff)
  have "filter (\<lambda>r. rn_start_ms r \<le> t) runs \<noteq> [] \<and> last (filter (\<lambda>r. rn_start_ms r \<le> t) runs) = r"
    using started_last [OF assms(1) r(1)] assms(2) [OF r(2)] by blast
  then show "case latest_started runs t of None \<Rightarrow> False | Some r \<Rightarrow> Q r"
    unfolding latest_started_eq [OF assms(1)] using r(2) by (simp add: Let_def)
qed

lemma barge_in_pairs: "runs_ok agent \<Longrightarrow> barge_in_count user agent
    = int (length (filter (\<lambda>u. list_ex (\<lambda>a. starts_inside u a \<and> \<not> backchannel u a) agent) user))"
  unfolding barge_in_count_def
  by (subst latest_started_holds) (auto simp: starts_inside_def EDGE_GUARD_MS_def)

lemma talk_over_pairs: "runs_ok user \<Longrightarrow> talk_over_count user agent
    = int (length (filter (\<lambda>a. list_ex (\<lambda>u. starts_inside a u) user) agent))"
  unfolding talk_over_count_def
  by (subst latest_started_holds) (auto simp: starts_inside_def EDGE_GUARD_MS_def)

text \<open>C33. The one-pass signals are those over all pairs of runs: the overlap is the sum of every interval of
  at least 120 ms in which a user run and an agent run coincide, a barge-in is a user run that starts
  inside some agent run after its guard and is not a backchannel there, and a talk-over is an agent run that
  starts so inside some user run. The runs they count are one speaker's speech exactly, merged until no
  two touch.\<close>

theorem signals_over_all_pairs:
  assumes "list_all valid_run (tl_user_runs line)" "list_all valid_run (tl_agent_runs line)"
  shows "let user = coalesce (tl_user_runs line); agent = coalesce (tl_agent_runs line); s = call_signals line
    in sg_overlap_ms s = sum_list (map (\<lambda>u. sum_list (map (\<lambda>a. if both_ms u a \<ge> 120 then both_ms u a else 0) agent)) user)
      \<and> sg_barge_in_count s
          = int (length (filter (\<lambda>u. list_ex (\<lambda>a. starts_inside u a \<and> \<not> backchannel u a) agent) user))
      \<and> sg_talk_over_count s = int (length (filter (\<lambda>a. list_ex (\<lambda>u. starts_inside a u) user) agent))
      \<and> separated user \<and> separated agent
      \<and> list_ex (\<lambda>r. speaking r t) user = list_ex (\<lambda>r. speaking r t) (tl_user_runs line)
      \<and> list_ex (\<lambda>r. speaking r t) agent = list_ex (\<lambda>r. speaking r t) (tl_agent_runs line)"
proof -
  note user = coalesce_exact_valid [OF assms(1), of t] and agent = coalesce_exact_valid [OF assms(2), of t]
  note sep = conjunct1 [OF user] conjunct1 [OF agent]
  note ok = separated_ok [OF sep(1)] separated_ok [OF sep(2)]
  have "overlap_sweep (coalesce (tl_user_runs line)) (coalesce (tl_agent_runs line))
      = sum_list (map (\<lambda>u. sum_list (map (\<lambda>a. if both_ms u a \<ge> 120 then both_ms u a else 0)
          (coalesce (tl_agent_runs line)))) (coalesce (tl_user_runs line)))"
    unfolding overlap_sweep_pairs [OF sep] pair_overlap_def counted_overlap_def MIN_OVERLAP_MS_def ..
  then show ?thesis using user agent
    by (simp add: call_signals_def Let_def barge_in_pairs [OF ok(2)] talk_over_pairs [OF ok(1)])
qed

theorem signals_over_all_pairs_witness:
  "let user = coalesce (tl_user_runs example_timeline); agent = coalesce (tl_agent_runs example_timeline);
      s = call_signals example_timeline
    in sg_overlap_ms s = sum_list (map (\<lambda>u. sum_list (map (\<lambda>a. if both_ms u a \<ge> 120 then both_ms u a else 0) agent)) user)
      \<and> sg_barge_in_count s
          = int (length (filter (\<lambda>u. list_ex (\<lambda>a. starts_inside u a \<and> \<not> backchannel u a) agent) user))
      \<and> sg_talk_over_count s = int (length (filter (\<lambda>a. list_ex (\<lambda>u. starts_inside a u) user) agent))
      \<and> separated user \<and> separated agent
      \<and> list_ex (\<lambda>r. speaking r 700) user = list_ex (\<lambda>r. speaking r 700) (tl_user_runs example_timeline)
      \<and> list_ex (\<lambda>r. speaking r 700) agent = list_ex (\<lambda>r. speaking r 700) (tl_agent_runs example_timeline)"
  by (rule signals_over_all_pairs) (simp_all add: example_timeline_def example_run_def valid_run_def)

section \<open>Silences\<close>

definition event_speaks :: "int \<times> int \<times> speaker \<Rightarrow> int \<Rightarrow> bool" where
  "event_speaks e t = (fst e \<le> t \<and> t < fst (snd e))"

definition group_speaks :: "speech_group \<Rightarrow> int \<Rightarrow> bool" where
  "group_speaks g t = (sp_start g \<le> t \<and> t < sp_end g)"

definition apart :: "speech_group list \<Rightarrow> bool" where
  "apart groups = (list_all (\<lambda>g. sp_start g < sp_end g) groups \<and> sorted_wrt (\<lambda>g g'. sp_end g < sp_start g') groups)"

lemma group_event_fields: "sp_start (group_event g e) = sp_start g" "sp_end (group_event g e) = max (sp_end g) (fst (snd e))"
  by (auto simp: group_event_def Let_def split: prod.splits)

lemma new_group_fields: "sp_start (new_group e) = fst e" "sp_end (new_group e) = fst (snd e)"
  by (auto simp: new_group_def split: prod.splits)

lemma group_loop_exact:
  "list_all (\<lambda>e. sp_start g \<le> fst e \<and> fst e < fst (snd e)) es \<Longrightarrow> sp_start g < sp_end g \<Longrightarrow> sorted (map fst es) \<Longrightarrow>
    apart (group_loop g es) \<and> list_all (\<lambda>q. sp_start g \<le> sp_start q) (group_loop g es)
    \<and> list_ex (\<lambda>q. group_speaks q t) (group_loop g es) = (group_speaks g t \<or> list_ex (\<lambda>e. event_speaks e t) es)"
proof (induction g es rule: group_loop.induct)
  case (1 g)
  then show ?case by (simp add: apart_def)
next
  case (2 g e es)
  show ?case
  proof (cases "fst e > sp_end g")
    case True
    have pre: "list_all (\<lambda>q. sp_start (new_group e) \<le> fst q \<and> fst q < fst (snd q)) es"
      using 2(3,5) by (auto simp: new_group_fields list_all_iff)
    have "sp_start (new_group e) < sp_end (new_group e)" using 2(3) by (simp add: new_group_fields)
    note IH = 2(1) [OF True pre this]
    have later: "apart (group_loop (new_group e) es)" "list_all (\<lambda>q. fst e \<le> sp_start q) (group_loop (new_group e) es)"
      "list_ex (\<lambda>q. group_speaks q t) (group_loop (new_group e) es) = (event_speaks e t \<or> list_ex (\<lambda>e. event_speaks e t) es)"
      using IH 2(5) by (simp_all add: new_group_fields group_speaks_def event_speaks_def)
    have "list_all (\<lambda>q. sp_end g < sp_start q \<and> sp_start g \<le> sp_start q) (group_loop (new_group e) es)"
      using later(2) True 2(4) by (auto simp: list_all_iff)
    then show ?thesis using later(1,3) 2(4) True by (auto simp: apart_def list_all_iff)
  next
    case False
    have pre: "list_all (\<lambda>q. sp_start (group_event g e) \<le> fst q \<and> fst q < fst (snd q)) es"
      "sp_start (group_event g e) < sp_end (group_event g e)"
      using 2(3,4) by (simp_all add: group_event_fields)
    have "group_speaks (group_event g e) t = (group_speaks g t \<or> event_speaks e t)"
      using False 2(3,4) by (auto simp: group_speaks_def event_speaks_def group_event_fields)
    then show ?thesis using 2(2) [OF False pre] 2(5) False by (simp add: group_event_fields)
  qed
qed

lemma speech_groups_exact:
  assumes "list_all valid_run user" "list_all valid_run agent"
  shows "apart (speech_groups user agent) \<and> list_ex (\<lambda>g. group_speaks g t) (speech_groups user agent)
    = list_ex (\<lambda>r. speaking r t) (user @ agent)"
proof -
  let ?es = "speech_events user agent"
  let ?key = "\<lambda>(start :: int, end' :: int, who). (start, end', speaker_rank who)"
  have set: "set ?es = (\<lambda>r. (rn_start_ms r, rn_end_ms r, User)) ` set user \<union> (\<lambda>r. (rn_start_ms r, rn_end_ms r, Agent)) ` set agent"
    by (simp add: speech_events_def)
  have ex: "list_ex (\<lambda>e. event_speaks e t) ?es = list_ex (\<lambda>r. speaking r t) (user @ agent)"
    by (simp add: list_ex_iff set event_speaks_def speaking_def bex_Un)
  have valid: "list_all (\<lambda>e. fst e < fst (snd e)) ?es"
    using assms by (auto simp: list_all_iff set valid_run_def)
  have "sorted_wrt (\<lambda>e e'. ?key e \<le> ?key e') ?es"
    unfolding speech_events_def using sorted_sort_key [of ?key] unfolding sorted_map by blast
  then have sorted: "sorted (map fst ?es)" unfolding sorted_map
    by (rule sorted_wrt_mono_rel [rotated]) (auto simp: less_eq_prod_def)
  show ?thesis
  proof (cases ?es)
    case Nil
    then show ?thesis using ex by (simp add: speech_groups_def apart_def)
  next
    case (Cons e es)
    have "list_all (\<lambda>q. sp_start (new_group e) \<le> fst q \<and> fst q < fst (snd q)) es"
      using sorted valid Cons by (auto simp: new_group_fields list_all_iff)
    moreover have "sp_start (new_group e) < sp_end (new_group e)" using valid Cons by (simp add: new_group_fields)
    moreover have "group_speaks (new_group e) t = event_speaks e t"
      by (simp add: group_speaks_def event_speaks_def new_group_fields)
    ultimately show ?thesis using group_loop_exact [of "new_group e" es t] sorted ex Cons
      by (simp add: speech_groups_def)
  qed
qed


text \<open>Between two neighbouring groups there is silence, and nowhere else inside the call.\<close>

lemma apart_Cons: "apart (g # gs) = (sp_start g < sp_end g \<and> list_all (\<lambda>g'. sp_end g < sp_start g') gs \<and> apart gs)"
  by (auto simp: apart_def list_all_iff)

lemma group_gaps: "apart groups \<Longrightarrow>
    list_ex (\<lambda>(p, f). sp_end p \<le> t \<and> t < sp_start f) (pairwise groups)
    = (\<not> list_ex (\<lambda>g. group_speaks g t) groups \<and> list_ex (\<lambda>g. sp_end g \<le> t) groups \<and> list_ex (\<lambda>g. t < sp_start g) groups)"
proof (induction groups rule: pairwise.induct)
  case (1 p f gs)
  have IH: "list_ex (\<lambda>(p, f). sp_end p \<le> t \<and> t < sp_start f) (pairwise (f # gs))
      = (\<not> list_ex (\<lambda>g. group_speaks g t) (f # gs) \<and> list_ex (\<lambda>g. sp_end g \<le> t) (f # gs) \<and> list_ex (\<lambda>g. t < sp_start g) (f # gs))"
    using 1 by (simp add: apart_Cons)
  have o: "sp_start p < sp_end p" "sp_end p < sp_start f" "sp_start f < sp_end f"
    using 1(2) by (simp_all add: apart_Cons)
  have later: "sp_start f < sp_start g \<and> sp_start g < sp_end g" if "g \<in> set gs" for g
    using 1(2) that o by (fastforce simp: apart_def list_all_iff)
  consider "t < sp_end p" | "sp_end p \<le> t" "t < sp_start f" | "sp_start f \<le> t" by linarith
  then show ?case
  proof cases
    case 1
    then have "\<not> list_ex (\<lambda>g. sp_end g \<le> t) (p # f # gs)" using o later by (fastforce simp: list_ex_iff)
    moreover have "\<not> list_ex (\<lambda>g. sp_end g \<le> t) (f # gs)" using calculation by simp
    ultimately show ?thesis using 1 IH by simp
  next
    case 2
    then have "\<not> list_ex (\<lambda>g. group_speaks g t) (p # f # gs)"
      using o later by (fastforce simp: list_ex_iff group_speaks_def)
    then show ?thesis using 2 by simp
  next
    case 3
    then have "\<not> group_speaks p t" "\<not> (sp_end p \<le> t \<and> t < sp_start f)" "\<not> t < sp_start p" using o by (auto simp: group_speaks_def)
    moreover have "list_ex (\<lambda>g. sp_end g \<le> t) (f # gs)"
      if "\<not> list_ex (\<lambda>g. group_speaks g t) (f # gs)" using 3 that by (auto simp: group_speaks_def)
    ultimately show ?thesis using IH by auto
  qed
qed (auto simp: apart_def group_speaks_def)

lemma ends_before:
  assumes "list_all valid_run runs" "apart groups" "\<And>t. list_ex (\<lambda>g. group_speaks g t) groups = list_ex (\<lambda>r. speaking r t) runs"
    "\<not> list_ex (\<lambda>r. speaking r t) runs"
  shows "list_ex (\<lambda>g. sp_end g \<le> t) groups = list_ex (\<lambda>r. rn_end_ms r \<le> t) runs"
    "list_ex (\<lambda>g. t < sp_start g) groups = list_ex (\<lambda>r. t < rn_start_ms r) runs"
proof -
  have quiet: "r \<in> set runs \<Longrightarrow> \<not> speaking r t" "g \<in> set groups \<Longrightarrow> \<not> group_speaks g t" for r g
    using assms(3) [of t] assms(4) by (auto simp: list_ex_iff)
  have valid: "r \<in> set runs \<Longrightarrow> rn_start_ms r < rn_end_ms r" "g \<in> set groups \<Longrightarrow> sp_start g < sp_end g" for r g
    using assms(1,2) by (auto simp: list_all_iff valid_run_def apart_def)
  have ge: "\<exists>r\<in>set runs. speaking r s" if "g \<in> set groups" "group_speaks g s" for g s
    using assms(3) [of s] that by (auto simp: list_ex_iff)
  have re: "\<exists>g\<in>set groups. group_speaks g s" if "r \<in> set runs" "speaking r s" for r s
    using assms(3) [of s] that by (auto simp: list_ex_iff)
  show "list_ex (\<lambda>g. sp_end g \<le> t) groups = list_ex (\<lambda>r. rn_end_ms r \<le> t) runs"
  proof
    assume "list_ex (\<lambda>g. sp_end g \<le> t) groups"
    then obtain g where g: "g \<in> set groups" "sp_end g \<le> t" by (auto simp: list_ex_iff)
    then obtain r where r: "r \<in> set runs" "speaking r (sp_end g - 1)"
      using ge [OF g(1), of "sp_end g - 1"] valid(2) [OF g(1)] by (auto simp: group_speaks_def)
    then have "rn_end_ms r \<le> t" using quiet(1) [OF r(1)] g(2) unfolding speaking_def by linarith
    then show "list_ex (\<lambda>r. rn_end_ms r \<le> t) runs" using r(1) by (auto simp: list_ex_iff)
  next
    assume "list_ex (\<lambda>r. rn_end_ms r \<le> t) runs"
    then obtain r where r: "r \<in> set runs" "rn_end_ms r \<le> t" by (auto simp: list_ex_iff)
    then obtain g where g: "g \<in> set groups" "group_speaks g (rn_end_ms r - 1)"
      using re [OF r(1), of "rn_end_ms r - 1"] valid(1) [OF r(1)] by (auto simp: speaking_def)
    then have "sp_end g \<le> t" using quiet(2) [OF g(1)] r(2) unfolding group_speaks_def by linarith
    then show "list_ex (\<lambda>g. sp_end g \<le> t) groups" using g(1) by (auto simp: list_ex_iff)
  qed
  show "list_ex (\<lambda>g. t < sp_start g) groups = list_ex (\<lambda>r. t < rn_start_ms r) runs"
  proof
    assume "list_ex (\<lambda>g. t < sp_start g) groups"
    then obtain g where g: "g \<in> set groups" "t < sp_start g" by (auto simp: list_ex_iff)
    then obtain r where r: "r \<in> set runs" "speaking r (sp_start g)"
      using ge [OF g(1), of "sp_start g"] valid(2) [OF g(1)] by (auto simp: group_speaks_def)
    then have "t < rn_start_ms r" using quiet(1) [OF r(1)] g(2) unfolding speaking_def by linarith
    then show "list_ex (\<lambda>r. t < rn_start_ms r) runs" using r(1) by (auto simp: list_ex_iff)
  next
    assume "list_ex (\<lambda>r. t < rn_start_ms r) runs"
    then obtain r where r: "r \<in> set runs" "t < rn_start_ms r" by (auto simp: list_ex_iff)
    then obtain g where g: "g \<in> set groups" "group_speaks g (rn_start_ms r)"
      using re [OF r(1), of "rn_start_ms r"] valid(1) [OF r(1)] by (auto simp: speaking_def)
    then have "t < sp_start g" using quiet(2) [OF g(1)] r(2) unfolding group_speaks_def by linarith
    then show "list_ex (\<lambda>g. t < sp_start g) groups" using g(1) by (auto simp: list_ex_iff)
  qed
qed

text \<open>C34. The silences of a call are exactly the moments at which no one speaks, with speech that ended
  before and speech that starts after: none is missed at an edge, and the leading and trailing silence is
  not counted.\<close>

theorem silences_exact:
  assumes "list_all valid_run user" "list_all valid_run agent"
  shows "list_ex (\<lambda>(from', until). from' \<le> t \<and> t < until) (silences user agent)
    = (\<not> list_ex (\<lambda>r. speaking r t) (user @ agent)
       \<and> list_ex (\<lambda>r. rn_end_ms r \<le> t) (user @ agent) \<and> list_ex (\<lambda>r. t < rn_start_ms r) (user @ agent))"
proof -
  let ?groups = "speech_groups user agent"
  have valid: "list_all valid_run (user @ agent)" using assms by simp
  have apart: "apart ?groups" using speech_groups_exact [OF assms] by blast
  have cover: "\<And>t. list_ex (\<lambda>g. group_speaks g t) ?groups = list_ex (\<lambda>r. speaking r t) (user @ agent)"
    using speech_groups_exact [OF assms] by blast
  have "list_ex (\<lambda>(from', until). from' \<le> t \<and> t < until) (silences user agent)
      = list_ex (\<lambda>(p, f). sp_end p \<le> t \<and> t < sp_start f) (pairwise ?groups)"
    by (simp add: silences_def list_ex_iff split_beta)
  also have "\<dots> = (\<not> list_ex (\<lambda>r. speaking r t) (user @ agent)
      \<and> list_ex (\<lambda>g. sp_end g \<le> t) ?groups \<and> list_ex (\<lambda>g. t < sp_start g) ?groups)"
    unfolding group_gaps [OF apart] cover ..
  also have "\<dots> = (\<not> list_ex (\<lambda>r. speaking r t) (user @ agent)
       \<and> list_ex (\<lambda>r. rn_end_ms r \<le> t) (user @ agent) \<and> list_ex (\<lambda>r. t < rn_start_ms r) (user @ agent))"
    using ends_before [OF valid apart cover, of t] by blast
  finally show ?thesis .
qed

theorem silences_exact_witness:
  "list_ex (\<lambda>(from', until). from' \<le> 3000 \<and> 3000 < until) (silences [example_run 0 1000] [example_run 4000 5000])
    = (\<not> list_ex (\<lambda>r. speaking r 3000) ([example_run 0 1000] @ [example_run 4000 5000])
       \<and> list_ex (\<lambda>r. rn_end_ms r \<le> 3000) ([example_run 0 1000] @ [example_run 4000 5000])
       \<and> list_ex (\<lambda>r. 3000 < rn_start_ms r) ([example_run 0 1000] @ [example_run 4000 5000]))"
  by (rule silences_exact) (simp_all add: example_run_def valid_run_def)

end
