(* ===== verification/ClockAlign.thy ===== *)
theory ClockAlign
  imports Complex_Main Prelude "HOL-Library.Product_Lexorder" "HOL-Library.List_Lexorder" "HOL-Library.Char_ord"
    "HOL-Library.Multiset"
begin

text \<open>
  Clock alignment (\<^verbatim>\<open>analysis.py\<close>): which two time points can be subtracted, and what a declared
  calibration between two clock domains does to the result. Nanosecond fields are integers. The two float
  computations of a drift, \<^verbatim>\<open>round(drift * (wall - reference))\<close> and
  \<^verbatim>\<open>round((wall - offset - reference) / slope)\<close>, are parameters that give \<open>None\<close> when the float is not
  finite; a drift itself is an exact number.
\<close>

section \<open>Time points and relations\<close>

record time_point =
  tp_source :: "int option"
  tp_observed :: "int option"
  tp_monotonic :: "int option"
  tp_domain :: "string option"
  tp_uncertainty :: "int option"

record clock_relation =
  cr_id :: string
  cr_from :: string
  cr_to :: string
  cr_offset :: int
  cr_drift_ppm :: "rat option"
  cr_uncertainty :: "int option"
  cr_reference :: "int option"
  cr_valid_from :: "int option"
  cr_valid_to :: "int option"

record float_ops =
  fo_correction :: "rat \<Rightarrow> int \<Rightarrow> int option"
  fo_inverse :: "rat \<Rightarrow> int \<Rightarrow> int option"

text \<open>The refusals, in the order of their codes (\<^verbatim>\<open>cross_clock_ambiguous\<close>,
  \<^verbatim>\<open>cross_clock_calibration_degenerate\<close>, \<^verbatim>\<open>cross_clock_calibration_unrepresentable\<close>).\<close>

datatype refusal = Ambiguous | Degenerate | Unrepresentable

fun refusal_rank :: "refusal \<Rightarrow> nat" where
  "refusal_rank Ambiguous = 0"
| "refusal_rank Degenerate = 1"
| "refusal_rank Unrepresentable = 2"

lemma refusal_rank_inject: "refusal_rank a = refusal_rank b \<Longrightarrow> a = b"
  by (cases a; cases b) simp_all

instantiation refusal :: linorder
begin

definition less_eq_refusal :: "refusal \<Rightarrow> refusal \<Rightarrow> bool" where
  "less_eq_refusal a b = (refusal_rank a \<le> refusal_rank b)"

definition less_refusal :: "refusal \<Rightarrow> refusal \<Rightarrow> bool" where
  "less_refusal a b = (refusal_rank a < refusal_rank b)"

instance
  by standard (auto simp: less_eq_refusal_def less_refusal_def intro: refusal_rank_inject)

end

type_synonym alignment = "int \<times> int option"

section \<open>One relation\<close>

definition UINT64_MAX :: int where "UINT64_MAX = 2 ^ 64 - 1"

definition representable_nano :: "int \<Rightarrow> refusal + int" where
  "representable_nano v = (if 0 \<le> v \<and> v \<le> UINT64_MAX then Inr v else Inl Unrepresentable)"

definition in_window :: "clock_relation \<Rightarrow> int \<Rightarrow> bool" where
  "in_window r t =
     (if (case cr_valid_from r of None \<Rightarrow> False | Some from' \<Rightarrow> t < from') then False
      else \<not> (case cr_valid_to r of None \<Rightarrow> False | Some until \<Rightarrow> t > until))"

definition map_wall :: "float_ops \<Rightarrow> clock_relation \<Rightarrow> int \<Rightarrow> bool \<Rightarrow> refusal + int" where
  "map_wall ops r wall forward =
     (case cr_drift_ppm r of
        None \<Rightarrow> representable_nano (if forward then wall + cr_offset r else wall - cr_offset r)
      | Some ppm \<Rightarrow>
          if ppm = 0 then representable_nano (if forward then wall + cr_offset r else wall - cr_offset r)
          else
            let drift = ppm / 1000000; slope = 1 + drift
            in if slope \<le> 0 then Inl Degenerate
               else
                 let reference = (case cr_reference r of None \<Rightarrow> wall | Some t \<Rightarrow> t)
                 in if forward
                    then (case fo_correction ops drift (wall - reference) of
                            None \<Rightarrow> Inl Unrepresentable
                          | Some c \<Rightarrow> representable_nano (wall + cr_offset r + c))
                    else (case fo_inverse ops slope (wall - cr_offset r - reference) of
                            None \<Rightarrow> Inl Unrepresentable
                          | Some m \<Rightarrow> representable_nano (reference + m)))"

datatype applied = Out_Of_Window | Refused refusal | Applied alignment

definition apply_relation :: "float_ops \<Rightarrow> clock_relation \<Rightarrow> int \<Rightarrow> bool \<Rightarrow> applied" where
  "apply_relation ops r wall forward =
     (if forward \<and> \<not> in_window r wall then Out_Of_Window
      else (case map_wall ops r wall forward of
              Inl refusal \<Rightarrow> Refused refusal
            | Inr aligned \<Rightarrow>
                if \<not> forward \<and> \<not> in_window r aligned then Out_Of_Window
                else Applied (aligned, cr_uncertainty r)))"

section \<open>Several relations\<close>

type_synonym candidate = "int \<times> int option \<times> string"

definition candidate_order :: "candidate \<Rightarrow> nat \<times> int \<times> int \<times> string" where
  "candidate_order c = (case c of (v, uncertainty, relation_id) \<Rightarrow>
     (if uncertainty \<noteq> None then 0 else 1, case uncertainty of None \<Rightarrow> 0 | Some u \<Rightarrow> u, v, relation_id))"

definition conflict :: "candidate \<Rightarrow> candidate \<Rightarrow> bool" where
  "conflict a b = (case a of (va, ua, _) \<Rightarrow> case b of (vb, ub, _) \<Rightarrow>
     let separation = \<bar>va - vb\<bar>
     in separation \<noteq> 0 \<and> (case (ua, ub) of (Some u, Some u') \<Rightarrow> separation > u + u' | _ \<Rightarrow> True))"

fun any_conflict :: "candidate list \<Rightarrow> bool" where
  "any_conflict [] = False"
| "any_conflict (a # bs) = (list_ex (conflict a) bs \<or> any_conflict bs)"

definition reconcile :: "candidate list \<Rightarrow> (refusal + alignment) option" where
  "reconcile candidates =
     (if candidates = [] then None
      else
        let ordered = sort_key candidate_order candidates
        in if any_conflict ordered then Some (Inl Ambiguous)
           else (case hd ordered of (v, uncertainty, _) \<Rightarrow> Some (Inr (v, uncertainty))))"

text \<open>\<^verbatim>\<open>_by_pair[key]\<close>: the relations of a pair, by their IDs.\<close>

definition by_pair :: "clock_relation list \<Rightarrow> string \<Rightarrow> string \<Rightarrow> clock_relation list" where
  "by_pair relations from' to' = filter (\<lambda>r. cr_from r = from' \<and> cr_to r = to') (sort_key cr_id relations)"

definition applied_all :: "float_ops \<Rightarrow> clock_relation list \<Rightarrow> string \<Rightarrow> string \<Rightarrow> int
    \<Rightarrow> (clock_relation \<times> applied) list" where
  "applied_all ops relations domain target wall =
     map (\<lambda>r. (r, apply_relation ops r wall True)) (by_pair relations domain target)
     @ map (\<lambda>r. (r, apply_relation ops r wall False)) (by_pair relations target domain)"

fun candidates_of :: "(clock_relation \<times> applied) list \<Rightarrow> candidate list" where
  "candidates_of [] = []"
| "candidates_of ((r, Applied (v, u)) # rest) = (v, u, cr_id r) # candidates_of rest"
| "candidates_of (_ # rest) = candidates_of rest"

fun refusals_of :: "(clock_relation \<times> applied) list \<Rightarrow> refusal list" where
  "refusals_of [] = []"
| "refusals_of ((r, Refused e) # rest) = e # refusals_of rest"
| "refusals_of (_ # rest) = refusals_of rest"

definition align :: "float_ops \<Rightarrow> clock_relation list \<Rightarrow> time_point \<Rightarrow> string \<Rightarrow> (refusal + alignment) option" where
  "align ops relations point target =
     (case (tp_domain point, tp_source point) of
        (Some domain, Some wall) \<Rightarrow>
          if target = [] \<or> domain = target then None
          else
            let applied = applied_all ops relations domain target wall
            in (case reconcile (candidates_of applied) of
                  Some result \<Rightarrow> Some result
                | None \<Rightarrow> if refusals_of applied = [] then None
                          else Some (Inl (Min (set (refusals_of applied)))))
      | _ \<Rightarrow> None)"

section \<open>A difference\<close>

datatype availability = Available | Inconsistent | Unavailable

datatype basis = Monotonic | Source_Wall | Observed_Wall | Cross_Clock_Calibrated | Clock_Domain

datatype confidence = Conf_Measured | Conf_Estimated | Conf_Unavailable

datatype limitation = Same_Domain_Reversed | Representation_Unavailable | Refused_Alignment refusal
  | Calibrated_Reversed | Calibration_Uncertainty_Unknown | Cross_Clock_Domain

record delta =
  dl_availability :: availability
  dl_nanoseconds :: "int option"
  dl_basis :: basis
  dl_confidence :: confidence
  dl_limitation :: "limitation option"
  dl_uncertainty :: "int option"

definition no_delta :: "availability \<Rightarrow> basis \<Rightarrow> limitation \<Rightarrow> delta" where
  "no_delta a b l = \<lparr>dl_availability = a, dl_nanoseconds = None, dl_basis = b, dl_confidence = Conf_Unavailable,
     dl_limitation = Some l, dl_uncertainty = None\<rparr>"

definition truthy :: "string option \<Rightarrow> bool" where
  "truthy d = (case d of None \<Rightarrow> False | Some s \<Rightarrow> s \<noteq> [])"

definition difference :: "int option \<Rightarrow> int option \<Rightarrow> int option" where
  "difference start end' = (case (start, end') of (Some a, Some b) \<Rightarrow> Some (b - a) | _ \<Rightarrow> None)"

definition shared_time_deltas :: "time_point \<Rightarrow> time_point \<Rightarrow> (basis \<times> int) list" where
  "shared_time_deltas start end' =
     (if \<not> truthy (tp_domain start) \<or> tp_domain start \<noteq> tp_domain end' then []
      else List.map_filter (\<lambda>(b, d). map_option (Pair b) d)
        [(Monotonic, difference (tp_monotonic start) (tp_monotonic end')),
         (Source_Wall, difference (tp_source start) (tp_source end')),
         (Observed_Wall, difference (tp_observed start) (tp_observed end'))])"

definition declared :: "int option \<Rightarrow> int" where
  "declared u = (case u of None \<Rightarrow> 0 | Some n \<Rightarrow> n)"

definition same_domain_delta :: "time_point \<Rightarrow> time_point \<Rightarrow> delta" where
  "same_domain_delta start end' =
     (let shared = shared_time_deltas start end'
      in case filter (\<lambda>(b, v). v < 0) shared of
           (b, _) # _ \<Rightarrow> no_delta Inconsistent b Same_Domain_Reversed
         | [] \<Rightarrow>
             let uncertainty = declared (tp_uncertainty start) + declared (tp_uncertainty end');
                 available = (\<lambda>b v. \<lparr>dl_availability = Available, dl_nanoseconds = Some v, dl_basis = b,
                   dl_confidence = (if uncertainty \<noteq> 0 then Conf_Estimated else Conf_Measured),
                   dl_limitation = None, dl_uncertainty = Some uncertainty\<rparr>)
             in case map_of shared Monotonic of
                  Some v \<Rightarrow> available Monotonic v
                | None \<Rightarrow>
                    (case map_of shared Source_Wall of
                       Some v \<Rightarrow> available Source_Wall v
                     | None \<Rightarrow> no_delta Unavailable Clock_Domain Representation_Unavailable))"

definition cross_domain_delta :: "float_ops \<Rightarrow> clock_relation list \<Rightarrow> time_point \<Rightarrow> time_point \<Rightarrow> string \<Rightarrow> int \<Rightarrow> delta" where
  "cross_domain_delta ops relations start end' domain wall =
     (case align ops relations end' domain of
        Some (Inl refusal) \<Rightarrow> no_delta Unavailable Cross_Clock_Calibrated (Refused_Alignment refusal)
      | Some (Inr (aligned_end, added)) \<Rightarrow>
          let v = aligned_end - wall
          in if v < 0 then no_delta Inconsistent Cross_Clock_Calibrated Calibrated_Reversed
             else \<lparr>dl_availability = Available, dl_nanoseconds = Some v, dl_basis = Cross_Clock_Calibrated,
                   dl_confidence = Conf_Estimated,
                   dl_limitation = (case added of None \<Rightarrow> Some Calibration_Uncertainty_Unknown | Some _ \<Rightarrow> None),
                   dl_uncertainty = (case added of None \<Rightarrow> None
                     | Some u \<Rightarrow> Some (declared (tp_uncertainty start) + declared (tp_uncertainty end') + u))\<rparr>
      | None \<Rightarrow> no_delta Unavailable Clock_Domain Cross_Clock_Domain)"

definition comparable_delta :: "float_ops \<Rightarrow> clock_relation list option \<Rightarrow> time_point \<Rightarrow> time_point \<Rightarrow> delta" where
  "comparable_delta ops aligner start end' =
     (if truthy (tp_domain start) \<and> tp_domain start = tp_domain end' then same_domain_delta start end'
      else (case (aligner, tp_domain start, tp_source start) of
              (Some relations, Some domain, Some wall) \<Rightarrow>
                if domain \<noteq> [] \<and> truthy (tp_domain end') \<and> tp_source end' \<noteq> None
                then cross_domain_delta ops relations start end' domain wall
                else no_delta Unavailable Clock_Domain Cross_Clock_Domain
            | _ \<Rightarrow> no_delta Unavailable Clock_Domain Cross_Clock_Domain))"

section \<open>The order of the relations does not matter\<close>

lemma candidate_order_inject: "candidate_order a = candidate_order b \<Longrightarrow> a = b"
  by (cases a; cases b) (auto simp: candidate_order_def split: option.splits if_splits)

lemma sort_key_mset:
  assumes "mset xs = mset ys" "\<And>a b. key a = key b \<Longrightarrow> a = b"
  shows "sort_key key xs = sort_key key ys"
proof -
  have "mset (map key (sort_key key xs)) = mset (map key (sort_key key ys))" using assms(1) by simp
  then have "map key (sort_key key xs) = map key (sort_key key ys)"
    by (metis properties_for_sort sorted_sort_key)
  then show ?thesis by (rule map_injective) (simp add: inj_def assms(2))
qed

lemma candidates_mset: "mset (candidates_of xs) = mset (concat (map (\<lambda>x. candidates_of [x]) xs))"
  by (induction xs rule: candidates_of.induct) simp_all

lemma candidates_append: "candidates_of (xs @ ys) = candidates_of xs @ candidates_of ys"
  by (induction xs rule: candidates_of.induct) simp_all

lemma refusals_append: "refusals_of (xs @ ys) = refusals_of xs @ refusals_of ys"
  by (induction xs rule: refusals_of.induct) simp_all

lemma mset_concat_map: "mset xs = mset ys \<Longrightarrow> mset (concat (map f xs)) = mset (concat (map f ys))"
proof -
  assume "mset xs = mset ys"
  then have "image_mset (\<lambda>x. mset (f x)) (mset xs) = image_mset (\<lambda>x. mset (f x)) (mset ys)" by simp
  then have "\<Sum>\<^sub># (image_mset (\<lambda>x. mset (f x)) (mset xs)) = \<Sum>\<^sub># (image_mset (\<lambda>x. mset (f x)) (mset ys))" by simp
  moreover have "mset (concat (map f zs)) = \<Sum>\<^sub># (image_mset (\<lambda>x. mset (f x)) (mset zs))" for zs
    by (induction zs) simp_all
  ultimately show ?thesis by simp
qed

lemma candidates_cong: "mset xs = mset ys \<Longrightarrow> mset (candidates_of xs) = mset (candidates_of ys)"
  unfolding candidates_mset [of xs] candidates_mset [of ys] by (rule mset_concat_map)

lemma refusals_set: "set (refusals_of xs) = {e. \<exists>r. (r, Refused e) \<in> set xs}"
  by (induction xs rule: refusals_of.induct) auto

lemma reconcile_cong: "mset xs = mset ys \<Longrightarrow> reconcile xs = reconcile ys"
proof -
  assume m: "mset xs = mset ys"
  then have "(xs = []) = (ys = [])" by auto
  moreover have "sort_key candidate_order xs = sort_key candidate_order ys"
    by (rule sort_key_mset [OF m]) (rule candidate_order_inject)
  ultimately show ?thesis unfolding reconcile_def by presburger
qed

lemma applied_cong: "mset relations = mset relations' \<Longrightarrow>
    mset (applied_all ops relations d t wall) = mset (applied_all ops relations' d t wall)"
  by (simp add: applied_all_def by_pair_def)

lemma align_cong:
  assumes "mset relations = mset relations'"
  shows "align ops relations point target = align ops relations' point target"
proof -
  have c: "reconcile (candidates_of (applied_all ops relations d target wall))
      = reconcile (candidates_of (applied_all ops relations' d target wall))" for d wall
    by (intro reconcile_cong candidates_cong applied_cong assms)
  have "set (applied_all ops relations d target wall) = set (applied_all ops relations' d target wall)" for d wall
    using applied_cong [OF assms] by (metis set_mset_mset)
  then have s: "set (refusals_of (applied_all ops relations d target wall))
      = set (refusals_of (applied_all ops relations' d target wall))" for d wall
    by (simp add: refusals_set)
  then have e: "(refusals_of (applied_all ops relations d target wall) = [])
      = (refusals_of (applied_all ops relations' d target wall) = [])" for d wall
    by (metis set_empty)
  show ?thesis unfolding align_def Let_def c s e by (rule refl)
qed

definition example_relation :: "string \<Rightarrow> int \<Rightarrow> clock_relation" where
  "example_relation i offset = \<lparr>cr_id = i, cr_from = ''server'', cr_to = ''client'', cr_offset = offset,
     cr_drift_ppm = None, cr_uncertainty = Some 4, cr_reference = None, cr_valid_from = None, cr_valid_to = None\<rparr>"

text \<open>C30. A difference does not depend on the order in which the calibrations were declared: any permutation of
  the relations gives the same value, bound, confidence and limitation.\<close>

theorem delta_order_independent:
  assumes "mset relations = mset relations'"
  shows "comparable_delta ops (Some relations) start end' = comparable_delta ops (Some relations') start end'"
proof -
  have "cross_domain_delta ops relations s e d w = cross_domain_delta ops relations' s e d w" for s e d w
    unfolding cross_domain_delta_def align_cong [OF assms] ..
  then have eq: "cross_domain_delta ops relations = cross_domain_delta ops relations'" by (intro ext)
  show ?thesis unfolding comparable_delta_def prod.case option.case eq by (rule refl)
qed

definition example_ops :: float_ops where
  "example_ops = \<lparr>fo_correction = (\<lambda>drift t. Some \<lfloor>drift * of_int t\<rfloor>), fo_inverse = (\<lambda>slope t. Some \<lfloor>of_int t / slope\<rfloor>)\<rparr>"

definition example_point :: "string \<Rightarrow> int \<Rightarrow> time_point" where
  "example_point d t = \<lparr>tp_source = Some t, tp_observed = None, tp_monotonic = None, tp_domain = Some d, tp_uncertainty = Some 1\<rparr>"

theorem delta_order_independent_witness:
  "comparable_delta example_ops (Some [example_relation ''b'' 5, example_relation ''a'' 7]) (example_point ''client'' 100) (example_point ''server'' 140)
    = comparable_delta example_ops (Some [example_relation ''a'' 7, example_relation ''b'' 5]) (example_point ''client'' 100) (example_point ''server'' 140)"
  by (rule delta_order_independent) simp

section \<open>Nothing is made up\<close>

lemma candidates_set: "(v, u, i) \<in> set (candidates_of xs) \<longleftrightarrow> (\<exists>r. (r, Applied (v, u)) \<in> set xs \<and> cr_id r = i)"
  by (induction xs rule: candidates_of.induct) auto

lemma any_conflict_pairs: "\<not> any_conflict xs \<Longrightarrow> a \<in> set xs \<Longrightarrow> b \<in> set xs \<Longrightarrow> a \<noteq> b \<Longrightarrow> \<not> conflict a b"
proof (induction xs)
  case (Cons x xs)
  have sym: "conflict a b = conflict b a" for a b
    by (auto simp: conflict_def Let_def abs_minus_commute add.commute split: prod.splits option.splits)
  show ?case using Cons sym [of a b] by (auto simp: list_ex_iff)
qed simp

lemma reconcile_sound:
  assumes "reconcile cs = Some (Inr (v, u))"
  shows "(\<exists>i. (v, u, i) \<in> set cs) \<and> list_all (\<lambda>(v', u', i'). v' = v \<or>
    (\<exists>a b. u = Some a \<and> u' = Some b \<and> \<bar>v - v'\<bar> \<le> a + b)) cs"
proof -
  let ?s = "sort_key candidate_order cs"
  have cs: "cs \<noteq> []" "\<not> any_conflict ?s" "\<exists>i. hd ?s = (v, u, i)"
    using assms by (auto simp: reconcile_def Let_def split: if_splits prod.splits)
  then obtain i where i: "hd ?s = (v, u, i)" by blast
  have "?s \<noteq> []" using cs(1) by (metis length_0_conv length_sort)
  then have mem: "(v, u, i) \<in> set cs" using hd_in_set [of ?s] i by simp
  have "v' = v \<or> (\<exists>a b. u = Some a \<and> u' = Some b \<and> \<bar>v - v'\<bar> \<le> a + b)" if "(v', u', i') \<in> set cs" for v' u' i'
  proof (cases "v' = v")
    case False
    then have "\<not> conflict (v, u, i) (v', u', i')" using any_conflict_pairs [OF cs(2)] mem that by simp
    then show ?thesis using False by (auto simp: conflict_def Let_def split: option.splits)
  qed simp
  then show ?thesis using mem by (auto simp: list_all_iff)
qed

text \<open>What a relation says of an instant: it maps it, in the direction it is used, inside its window.\<close>

definition reaches :: "float_ops \<Rightarrow> clock_relation \<Rightarrow> string \<Rightarrow> string \<Rightarrow> int \<Rightarrow> alignment \<Rightarrow> bool" where
  "reaches ops r domain target wall a =
     (cr_from r = domain \<and> cr_to r = target \<and> apply_relation ops r wall True = Applied a
      \<or> cr_from r = target \<and> cr_to r = domain \<and> apply_relation ops r wall False = Applied a)"

lemma applied_all_reaches: "(\<exists>r. (r, Applied a) \<in> set (applied_all ops relations domain target wall) \<and> P r)
    \<longleftrightarrow> (\<exists>r. r \<in> set relations \<and> reaches ops r domain target wall a \<and> P r)"
  by (auto simp: applied_all_def by_pair_def reaches_def image_iff)

lemma align_sound:
  assumes "align ops relations point target = Some (Inr (v, u))" "tp_domain point = Some domain" "tp_source point = Some wall"
  shows "(\<exists>r. r \<in> set relations \<and> reaches ops r domain target wall (v, u))
    \<and> (\<forall>r a. r \<in> set relations \<longrightarrow> reaches ops r domain target wall a \<longrightarrow>
        fst a = v \<or> (\<exists>e e'. u = Some e \<and> snd a = Some e' \<and> \<bar>v - fst a\<bar> \<le> e + e'))"
proof -
  let ?all = "applied_all ops relations domain target wall"
  have "reconcile (candidates_of ?all) = Some (Inr (v, u))"
    using assms by (auto simp: align_def Let_def split: if_splits option.splits)
  note sound = reconcile_sound [OF this]
  have "fst a = v \<or> (\<exists>e e'. u = Some e \<and> snd a = Some e' \<and> \<bar>v - fst a\<bar> \<le> e + e')"
    if "r \<in> set relations" "reaches ops r domain target wall a" for r a
  proof -
    have "\<exists>q. (q, Applied a) \<in> set ?all \<and> cr_id q = cr_id r"
      using that applied_all_reaches [of a ops relations domain target wall "\<lambda>q. cr_id q = cr_id r"] by blast
    then have "(fst a, snd a, cr_id r) \<in> set (candidates_of ?all)" unfolding candidates_set by simp
    then show ?thesis using conjunct2 [OF sound] unfolding list_all_iff by blast
  qed
  moreover have "\<exists>r. r \<in> set relations \<and> reaches ops r domain target wall (v, u)"
    using conjunct1 [OF sound] unfolding candidates_set
    using applied_all_reaches [of "(v, u)" ops relations domain target wall "\<lambda>_. True"] by blast
  ultimately show ?thesis by blast
qed

lemma shared_time_deltas_set: "truthy (tp_domain start) \<Longrightarrow> tp_domain start = tp_domain end' \<Longrightarrow>
    set (shared_time_deltas start end') = {(b, v). (b = Monotonic \<and> difference (tp_monotonic start) (tp_monotonic end') = Some v)
      \<or> (b = Source_Wall \<and> difference (tp_source start) (tp_source end') = Some v)
      \<or> (b = Observed_Wall \<and> difference (tp_observed start) (tp_observed end') = Some v)}"
  by (auto simp: shared_time_deltas_def List.map_filter_def split: option.splits if_splits)

lemma shared_monotonic: "truthy (tp_domain start) \<Longrightarrow> tp_domain start = tp_domain end' \<Longrightarrow>
    map_of (shared_time_deltas start end') Monotonic = difference (tp_monotonic start) (tp_monotonic end')"
  and shared_source: "truthy (tp_domain start) \<Longrightarrow> tp_domain start = tp_domain end' \<Longrightarrow>
    map_of (shared_time_deltas start end') Source_Wall = difference (tp_source start) (tp_source end')"
  by (auto simp: shared_time_deltas_def map_filter_simps split: option.splits)

text \<open>Neither of two readings runs backwards.\<close>

definition in_order :: "int option \<Rightarrow> int option \<Rightarrow> bool" where
  "in_order a b = (case difference a b of None \<Rightarrow> True | Some v \<Rightarrow> 0 \<le> v)"

lemma same_domain_honest:
  assumes "truthy (tp_domain start)" "tp_domain start = tp_domain end'"
    "dl_nanoseconds (same_domain_delta start end') = Some v"
  shows "dl_availability (same_domain_delta start end') = Available \<and> 0 \<le> v
    \<and> in_order (tp_monotonic start) (tp_monotonic end') \<and> in_order (tp_source start) (tp_source end')
    \<and> in_order (tp_observed start) (tp_observed end')
    \<and> Some v = (case difference (tp_monotonic start) (tp_monotonic end') of
        Some d \<Rightarrow> Some d | None \<Rightarrow> difference (tp_source start) (tp_source end'))
    \<and> dl_uncertainty (same_domain_delta start end') = Some (declared (tp_uncertainty start) + declared (tp_uncertainty end'))"
proof -
  let ?shared = "shared_time_deltas start end'"
  have none: "filter (\<lambda>(b, v). v < 0) ?shared = []"
    using assms(3) by (cases "filter (\<lambda>(b, v). v < 0) ?shared") (auto simp: same_domain_delta_def no_delta_def)
  then have pos: "0 \<le> w" if "(b, w) \<in> set ?shared" for b w
    using that by (fastforce simp: filter_empty_conv)
  have order: "in_order (tp_monotonic start) (tp_monotonic end')" "in_order (tp_source start) (tp_source end')"
    "in_order (tp_observed start) (tp_observed end')"
    using pos unfolding shared_time_deltas_set [OF assms(1,2)] by (auto simp: in_order_def split: option.splits)
  show ?thesis
  proof (cases "difference (tp_monotonic start) (tp_monotonic end')")
    case (Some d)
    then show ?thesis using order assms(3) none
      by (simp add: same_domain_delta_def Let_def shared_monotonic [OF assms(1,2)] in_order_def)
  next
    case None
    show ?thesis
    proof (cases "difference (tp_source start) (tp_source end')")
      case (Some d)
      then show ?thesis using order assms(3) none None
        by (simp add: same_domain_delta_def Let_def shared_monotonic [OF assms(1,2)] shared_source [OF assms(1,2)] in_order_def)
    next
      case None': None
      then show ?thesis using assms(3) none None
        by (simp add: same_domain_delta_def Let_def shared_monotonic [OF assms(1,2)] shared_source [OF assms(1,2)] no_delta_def)
    qed
  qed
qed

text \<open>C29. A time difference is never made up. Within one clock domain it is the exact difference on a basis both
  points carry, and no shared basis runs backwards. Across domains it comes from a declared relation that
  reaches the instant inside its window, every other relation that reaches it agrees within the two
  declared bounds, the result is only estimated, and its bound is the sum of all three bounds or unknown,
  never a bound in which an undeclared calibration error counts as zero. It is never negative.\<close>

theorem delta_is_honest:
  assumes "dl_nanoseconds (comparable_delta ops aligner start end') = Some v"
  shows "dl_availability (comparable_delta ops aligner start end') = Available \<and> 0 \<le> v \<and>
    (if truthy (tp_domain start) \<and> tp_domain start = tp_domain end'
     then in_order (tp_monotonic start) (tp_monotonic end') \<and> in_order (tp_source start) (tp_source end')
       \<and> in_order (tp_observed start) (tp_observed end')
       \<and> Some v = (case difference (tp_monotonic start) (tp_monotonic end') of
           Some d \<Rightarrow> Some d | None \<Rightarrow> difference (tp_source start) (tp_source end'))
       \<and> dl_uncertainty (comparable_delta ops aligner start end')
          = Some (declared (tp_uncertainty start) + declared (tp_uncertainty end'))
     else \<exists>relations domain target from' wall r u. aligner = Some relations \<and> tp_domain start = Some target
       \<and> tp_source start = Some from' \<and> tp_domain end' = Some domain \<and> tp_source end' = Some wall
       \<and> r \<in> set relations \<and> reaches ops r domain target wall (from' + v, u)
       \<and> (\<forall>q a. q \<in> set relations \<longrightarrow> reaches ops q domain target wall a \<longrightarrow> fst a = from' + v
            \<or> (\<exists>e e'. u = Some e \<and> snd a = Some e' \<and> \<bar>from' + v - fst a\<bar> \<le> e + e'))
       \<and> dl_confidence (comparable_delta ops aligner start end') = Conf_Estimated
       \<and> dl_uncertainty (comparable_delta ops aligner start end')
          = map_option ((+) (declared (tp_uncertainty start) + declared (tp_uncertainty end'))) u)"
proof (cases "truthy (tp_domain start) \<and> tp_domain start = tp_domain end'")
  case True
  have eq: "comparable_delta ops aligner start end' = same_domain_delta start end'"
    unfolding comparable_delta_def by (rule if_P [OF True])
  have t: "truthy (tp_domain start)" "tp_domain start = tp_domain end'"
    by (rule conjunct1 [OF True], rule conjunct2 [OF True])
  show ?thesis unfolding eq if_P [OF True] using same_domain_honest [OF t assms [unfolded eq]] by blast
next
  case False
  obtain relations target from' where a: "aligner = Some relations" "tp_domain start = Some target" "tp_source start = Some from'"
    "truthy (tp_domain end')" "tp_source end' \<noteq> None"
    and eq: "comparable_delta ops aligner start end' = cross_domain_delta ops relations start end' target from'"
    using assms False by (auto simp: comparable_delta_def no_delta_def split: option.splits if_splits)
  obtain domain wall where e: "tp_domain end' = Some domain" "tp_source end' = Some wall"
    using a(4,5) by (auto simp: truthy_def split: option.splits)
  obtain aligned u where al: "align ops relations end' target = Some (Inr (aligned, u))"
    using assms unfolding eq cross_domain_delta_def by (auto simp: no_delta_def split: option.splits sum.splits)
  have v: "v = aligned - from'" "0 \<le> v" and d: "dl_availability (comparable_delta ops aligner start end') = Available"
    "dl_confidence (comparable_delta ops aligner start end') = Conf_Estimated"
    "dl_uncertainty (comparable_delta ops aligner start end')
      = map_option ((+) (declared (tp_uncertainty start) + declared (tp_uncertainty end'))) u"
    using assms unfolding eq cross_domain_delta_def al
    by (auto simp: Let_def no_delta_def split: if_splits option.splits)
  have sum: "from' + v = aligned" using v(1) by simp
  note sound = align_sound [OF al e]
  obtain r where r: "r \<in> set relations" "reaches ops r domain target wall (from' + v, u)"
    using sound sum by blast
  show ?thesis unfolding if_not_P [OF False]
    by (intro conjI d(1,2,3) v(2) exI [of _ relations] exI [of _ domain] exI [of _ target] exI [of _ from']
        exI [of _ wall] exI [of _ r] exI [of _ u] a(1,2,3) e r conjunct2 [OF sound, folded sum])
qed

lemma example_delta: "dl_nanoseconds (comparable_delta example_ops (Some [example_relation ''r'' (- 5)])
    (example_point ''client'' 100) (example_point ''server'' 140)) = Some 35"
  by (simp add: comparable_delta_def example_point_def truthy_def cross_domain_delta_def align_def applied_all_def by_pair_def
      example_relation_def apply_relation_def map_wall_def in_window_def representable_nano_def UINT64_MAX_def reconcile_def
      candidate_order_def)

theorem delta_is_honest_witness:
  "let d = comparable_delta example_ops (Some [example_relation ''r'' (- 5)]) (example_point ''client'' 100) (example_point ''server'' 140)
   in dl_availability d = Available \<and> (0 :: int) \<le> 35"
  using delta_is_honest [OF example_delta] unfolding Let_def by (rule conjE) (intro conjI, assumption, simp)

end
