(* ===== verification/CycleSearch.thy ===== *)
theory CycleSearch
  imports Complex_Main Prelude
begin

text \<open>
  The search for a cycle among an incident's operations (\<^verbatim>\<open>_find_cycle\<close> of \<^verbatim>\<open>validation.py\<close>): a
  depth-first search with an explicit stack, so that a hostile artifact cannot exhaust the interpreter's
  call stack. The edges are a dictionary; each node's targets are listed in the order the set yields them.
\<close>

section \<open>The search\<close>

type_synonym 'a edges = "('a \<times> 'a list) list"

text \<open>\<^verbatim>\<open>edges.get(node, set())\<close>.\<close>

definition targets_of :: "'a edges \<Rightarrow> 'a \<Rightarrow> 'a list" where
  "targets_of edges node = (case map_of edges node of None \<Rightarrow> [] | Some ts \<Rightarrow> ts)"

text \<open>\<open>cs_state\<close> is 0 for a new node, 1 for one on the path, 2 for one that is done. The stack is kept with
  its top first; an iterator is the list of the targets it has not yielded.\<close>

record 'a cycle_search =
  cs_state :: "'a \<Rightarrow> nat"
  cs_path :: "'a list"
  cs_positions :: "'a \<Rightarrow> nat option"
  cs_stack :: "('a \<times> 'a list) list"

datatype 'a found = No_Cycle | Cycle "'a list" | Key_Error

definition leave_node :: "'a \<Rightarrow> ('a \<times> 'a list) list \<Rightarrow> 'a cycle_search \<Rightarrow> 'a cycle_search" where
  "leave_node node rest s = s\<lparr>cs_stack := rest, cs_path := butlast (cs_path s),
     cs_positions := (cs_positions s)(node := None), cs_state := (cs_state s)(node := 2)\<rparr>"

definition enter_node :: "'a edges \<Rightarrow> 'a \<Rightarrow> ('a \<times> 'a list) list \<Rightarrow> 'a cycle_search \<Rightarrow> 'a cycle_search" where
  "enter_node edges target stack s = s\<lparr>cs_state := (cs_state s)(target := 1),
     cs_positions := (cs_positions s)(target := Some (length (cs_path s))), cs_path := cs_path s @ [target],
     cs_stack := (target, targets_of edges target) # stack\<rparr>"

text \<open>Termination: the new nodes within reach, with their targets, the targets still to yield, and the stack.\<close>

definition reach :: "'a edges \<Rightarrow> 'a cycle_search \<Rightarrow> 'a set" where
  "reach edges s = (\<Union>(n, ts)\<in>set edges. set ts) \<union> (\<Union>(n, ts)\<in>set (cs_stack s). set ts)"

definition new_weight :: "'a edges \<Rightarrow> 'a cycle_search \<Rightarrow> nat" where
  "new_weight edges s = (\<Sum>u | u \<in> reach edges s \<and> cs_state s u = 0. length (targets_of edges u) + 2)"

definition search_measure :: "'a edges \<Rightarrow> 'a cycle_search \<Rightarrow> nat" where
  "search_measure edges s = new_weight edges s
     + sum_list (map (\<lambda>(n, ts). length ts) (cs_stack s)) + length (cs_stack s)"

lemma finite_reach: "finite (reach edges s)"
  by (auto simp: reach_def)

lemma targets_in_edges: "set (targets_of edges n) \<subseteq> (\<Union>(n, ts)\<in>set edges. set ts)"
proof (cases "map_of edges n")
  case (Some ts)
  then have "(n, ts) \<in> set edges" by (rule map_of_SomeD)
  then show ?thesis using Some by (force simp: targets_of_def)
qed (simp add: targets_of_def)

lemma reach_Cons: "cs_stack s = (n, ts) # rest \<Longrightarrow>
    reach edges s = (\<Union>(n, ts)\<in>set edges. set ts) \<union> set ts \<union> (\<Union>(n, ts)\<in>set rest. set ts)"
  by (auto simp: reach_def)

lemma new_weight_le: "reach edges s' \<subseteq> reach edges s \<Longrightarrow> (\<And>u. cs_state s' u = 0 \<Longrightarrow> cs_state s u = 0) \<Longrightarrow>
    new_weight edges s' \<le> new_weight edges s"
  unfolding new_weight_def by (rule sum_mono2) (auto intro: finite_subset [OF _ finite_reach])

lemma measure_leave:
  assumes "cs_stack s = (node, []) # rest"
  shows "search_measure edges (leave_node node rest s) < search_measure edges s"
proof -
  have "new_weight edges (leave_node node rest s) \<le> new_weight edges s"
    by (rule new_weight_le) (auto simp: reach_def leave_node_def assms split: if_splits)
  then show ?thesis unfolding search_measure_def assms by (simp add: leave_node_def)
qed

lemma measure_skip:
  assumes "cs_stack s = (node, t # ts) # rest"
  shows "search_measure edges (s\<lparr>cs_stack := (node, ts) # rest\<rparr>) < search_measure edges s"
proof -
  have "new_weight edges (s\<lparr>cs_stack := (node, ts) # rest\<rparr>) \<le> new_weight edges s"
    by (rule new_weight_le) (auto simp: reach_def assms)
  then show ?thesis unfolding search_measure_def assms by simp
qed

lemma measure_enter:
  assumes "cs_stack s = (node, t # ts) # rest" "cs_state s t = 0"
  shows "search_measure edges (enter_node edges t ((node, ts) # rest) s) < search_measure edges s"
proof -
  let ?s = "enter_node edges t ((node, ts) # rest) s"
  let ?new = "\<lambda>s. {u. u \<in> reach edges s \<and> cs_state s u = 0}"
  let ?w = "\<lambda>u. length (targets_of edges u) + 2"
  have reach: "reach edges ?s \<subseteq> reach edges s"
    using targets_in_edges [of edges t] by (auto simp: reach_def enter_node_def assms(1))
  have t: "t \<in> ?new s" using assms by (auto simp: reach_def)
  have sub: "?new ?s \<subseteq> ?new s - {t}" using reach by (auto simp: enter_node_def split: if_splits)
  have fin: "finite (?new s)" by (rule finite_subset [OF _ finite_reach [of edges s]]) auto
  have "new_weight edges ?s \<le> sum ?w (?new s - {t})" unfolding new_weight_def using fin sub by (intro sum_mono2) auto
  moreover have "new_weight edges s = ?w t + sum ?w (?new s - {t})" unfolding new_weight_def using fin t by (rule sum.remove)
  ultimately have "new_weight edges ?s + ?w t \<le> new_weight edges s" by linarith
  then show ?thesis unfolding search_measure_def assms by (simp add: enter_node_def)
qed

function search_loop :: "'a edges \<Rightarrow> 'a cycle_search \<Rightarrow> 'a found \<times> 'a cycle_search" where
  "search_loop edges s =
     (case cs_stack s of
        [] \<Rightarrow> (No_Cycle, s)
      | (node, []) # rest \<Rightarrow> search_loop edges (leave_node node rest s)
      | (node, target # ts) # rest \<Rightarrow>
          if cs_state s target = 0 then search_loop edges (enter_node edges target ((node, ts) # rest) s)
          else if cs_state s target = 1
          then (case cs_positions s target of
                  None \<Rightarrow> (Key_Error, s)
                | Some cycle_start \<Rightarrow> (Cycle (drop cycle_start (cs_path s) @ [target]), s))
          else search_loop edges (s\<lparr>cs_stack := (node, ts) # rest\<rparr>))"
  by pat_completeness auto
termination
  by (relation "measure (\<lambda>(edges, s). search_measure edges s)")
    (auto simp: measure_leave measure_skip measure_enter)

declare search_loop.simps [simp del]

definition start_search :: "'a edges \<Rightarrow> 'a \<Rightarrow> ('a \<Rightarrow> nat) \<Rightarrow> 'a cycle_search" where
  "start_search edges start_node state = \<lparr>cs_state = state(start_node := 1), cs_path = [start_node],
     cs_positions = [start_node \<mapsto> 0], cs_stack = [(start_node, targets_of edges start_node)]\<rparr>"

fun search_from :: "'a edges \<Rightarrow> 'a list \<Rightarrow> ('a \<Rightarrow> nat) \<Rightarrow> 'a found" where
  "search_from edges [] state = No_Cycle"
| "search_from edges (node # nodes) state =
     (if state node \<noteq> 0 then search_from edges nodes state
      else (case search_loop edges (start_search edges node state) of
              (No_Cycle, s) \<Rightarrow> search_from edges nodes (cs_state s)
            | (result, s) \<Rightarrow> result))"

definition find_cycle :: "'a edges \<Rightarrow> 'a found" where
  "find_cycle edges = search_from edges (map fst edges) (\<lambda>_. 0)"

section \<open>The invariant of the search\<close>

definition edge :: "'a edges \<Rightarrow> 'a \<Rightarrow> 'a \<Rightarrow> bool" where
  "edge edges n t = (t \<in> set (targets_of edges n))"

text \<open>Each frame has dealt with a prefix of its targets: they are done, or the one the search is below.\<close>

fun frames_ok :: "'a edges \<Rightarrow> ('a \<Rightarrow> nat) \<Rightarrow> 'a option \<Rightarrow> ('a \<times> 'a list) list \<Rightarrow> bool" where
  "frames_ok edges st child [] = True"
| "frames_ok edges st child ((n, ts) # rest) =
     ((\<exists>dealt. targets_of edges n = dealt @ ts \<and> (\<forall>t\<in>set dealt. st t = 2 \<or> child = Some t))
      \<and> frames_ok edges st (Some n) rest)"

text \<open>Done nodes lead only to done nodes, and to lower ones.\<close>

definition ranked :: "'a edges \<Rightarrow> ('a \<Rightarrow> nat) \<Rightarrow> bool" where
  "ranked edges st = (\<exists>f :: 'a \<Rightarrow> nat. \<forall>n t. st n = 2 \<longrightarrow> edge edges n t \<longrightarrow> st t = 2 \<and> f t < f n)"

definition searching :: "'a edges \<Rightarrow> 'a cycle_search \<Rightarrow> bool" where
  "searching edges s = (cs_path s = rev (map fst (cs_stack s)) \<and> distinct (cs_path s)
     \<and> (\<forall>n. cs_state s n = 1 \<longleftrightarrow> n \<in> set (cs_path s)) \<and> (\<forall>n. cs_state s n \<le> 2)
     \<and> (\<forall>i < length (cs_path s). cs_positions s (cs_path s ! i) = Some i)
     \<and> successively (edge edges) (cs_path s) \<and> frames_ok edges (cs_state s) None (cs_stack s)
     \<and> ranked edges (cs_state s))"

lemma searchingD:
  assumes "searching edges s"
  shows "cs_path s = rev (map fst (cs_stack s))" "distinct (cs_path s)"
    "\<And>n. cs_state s n = 1 \<longleftrightarrow> n \<in> set (cs_path s)" "\<And>n. cs_state s n \<le> 2"
    "\<And>i. i < length (cs_path s) \<Longrightarrow> cs_positions s (cs_path s ! i) = Some i"
    "successively (edge edges) (cs_path s)" "frames_ok edges (cs_state s) None (cs_stack s)"
    "ranked edges (cs_state s)"
  using assms unfolding searching_def by blast+

lemma frames_ok_mono: "frames_ok edges st child stack \<Longrightarrow> (\<And>t. st t = 2 \<Longrightarrow> st' t = 2) \<Longrightarrow>
    (\<And>t. child = Some t \<Longrightarrow> child' = Some t \<or> st' t = 2) \<Longrightarrow> frames_ok edges st' child' stack"
proof (induction edges st child stack arbitrary: child' rule: frames_ok.induct)
  case (2 edges st child n ts rest)
  obtain dealt where "targets_of edges n = dealt @ ts" "\<forall>t\<in>set dealt. st t = 2 \<or> child = Some t"
    using 2(2) by auto
  then have "\<exists>dealt. targets_of edges n = dealt @ ts \<and> (\<forall>t\<in>set dealt. st' t = 2 \<or> child' = Some t)"
    using 2(3,4) by blast
  moreover have "frames_ok edges st' (Some n) rest" using 2(1) [of "Some n"] 2(2,3) by simp
  ultimately show ?case by simp
qed simp

lemma ranked_done:
  assumes "ranked edges st" "st n \<noteq> 2" "\<And>t. edge edges n t \<Longrightarrow> st t = 2"
  shows "ranked edges (st(n := 2))"
proof -
  obtain f where f: "\<And>m t. st m = 2 \<Longrightarrow> edge edges m t \<Longrightarrow> st t = 2 \<and> f t < (f m :: nat)"
    using assms(1) by (auto simp: ranked_def)
  let ?top = "Suc (Max (insert 0 (f ` set (targets_of edges n))))"
  have below: "f t < ?top" if "edge edges n t" for t
    using that by (simp add: edge_def less_Suc_eq_le Max_ge_iff)
  have n: "t \<noteq> n" if "st t = 2" for t using that assms(2) by blast
  have "(st(n := 2)) t = 2 \<and> (f(n := ?top)) t < (f(n := ?top)) m"
    if "(st(n := 2)) m = 2" "edge edges m t" for m t
  proof (cases "m = n")
    case True
    then have "st t = 2" "edge edges n t" using assms(3) that(2) by simp_all
    then show ?thesis using below [of t] n [of t] True by simp
  next
    case False
    then have "st m = 2" using that(1) by simp
    then have "st t = 2 \<and> f t < f m" using f that(2) by blast
    then show ?thesis using n [of t] False by simp
  qed
  then show ?thesis unfolding ranked_def by blast
qed

lemma searching_leave:
  assumes "searching edges s" "cs_stack s = (node, []) # rest"
  shows "searching edges (leave_node node rest s)"
proof -
  have path: "cs_path s = rev (map fst rest) @ [node]" and dist: "distinct (cs_path s)"
    and state: "\<And>n. cs_state s n = 1 \<longleftrightarrow> n \<in> set (cs_path s)" "\<And>n. cs_state s n \<le> 2"
    and pos: "\<And>i. i < length (cs_path s) \<Longrightarrow> cs_positions s (cs_path s ! i) = Some i"
    and succ: "successively (edge edges) (cs_path s)" and rank: "ranked edges (cs_state s)"
    and frames: "\<forall>t\<in>set (targets_of edges node). cs_state s t = 2" "frames_ok edges (cs_state s) (Some node) rest"
    using searchingD [OF assms(1)] by (simp_all add: assms(2))
  have grey: "cs_state s node = 1" using state(1) [of node] path by simp
  have r: "ranked edges ((cs_state s)(node := 2))"
    using rank grey frames(1) by (intro ranked_done) (simp_all add: edge_def)
  have f: "frames_ok edges ((cs_state s)(node := 2)) None rest"
    by (rule frames_ok_mono [OF frames(2)]) simp_all
  have p: "((cs_positions s)(node := None)) (rev (map fst rest) ! i) = Some i" if "i < length rest" for i
  proof -
    have "cs_path s ! i = rev (map fst rest) ! i" using that by (simp add: path nth_append)
    moreover have "rev (map fst rest) ! i \<noteq> node" using dist that nth_mem [of i "rev (map fst rest)"] by (auto simp: path)
    ultimately show ?thesis using pos [of i] that by (simp add: path)
  qed
  have st: "((cs_state s)(node := 2)) n = 1 \<longleftrightarrow> n \<in> set (rev (map fst rest))" for n
    using state(1) [of n] dist by (auto simp: path)
  show ?thesis using st state(2) p f r dist succ
    unfolding searching_def leave_node_def by (simp add: path successively_append_iff)
qed

lemma searching_skip:
  assumes "searching edges s" "cs_stack s = (node, t # ts) # rest" "cs_state s t = 2"
  shows "searching edges (s\<lparr>cs_stack := (node, ts) # rest\<rparr>)"
proof -
  obtain dealt where dealt: "targets_of edges node = dealt @ t # ts" "\<forall>u\<in>set dealt. cs_state s u = 2"
    using searchingD(7) [OF assms(1)] by (auto simp: assms(2))
  then have "targets_of edges node = (dealt @ [t]) @ ts" "\<forall>u\<in>set (dealt @ [t]). cs_state s u = 2"
    using assms(3) by simp_all
  then have "\<exists>dealt. targets_of edges node = dealt @ ts \<and> (\<forall>u\<in>set dealt. cs_state s u = 2 \<or> None = Some u)" by blast
  then show ?thesis using searchingD [OF assms(1)] unfolding searching_def by (simp add: assms(2))
qed

lemma searching_enter:
  assumes "searching edges s" "cs_stack s = (node, t # ts) # rest" "cs_state s t = 0"
  shows "searching edges (enter_node edges t ((node, ts) # rest) s)"
proof -
  have path: "cs_path s = rev (map fst rest) @ [node]" and dist: "distinct (cs_path s)"
    and state: "\<And>n. cs_state s n = 1 \<longleftrightarrow> n \<in> set (cs_path s)" "\<And>n. cs_state s n \<le> 2"
    and pos: "\<And>i. i < length (cs_path s) \<Longrightarrow> cs_positions s (cs_path s ! i) = Some i"
    and succ: "successively (edge edges) (cs_path s)" and rank: "ranked edges (cs_state s)"
    and frames: "frames_ok edges (cs_state s) (Some node) rest"
    using searchingD [OF assms(1)] by (simp_all add: assms(2))
  obtain dealt where dealt: "targets_of edges node = dealt @ t # ts" "\<forall>u\<in>set dealt. cs_state s u = 2"
    using searchingD(7) [OF assms(1)] by (auto simp: assms(2))
  have fresh: "t \<notin> set (cs_path s)" using state(1) [of t] assms(3) by simp
  let ?st = "(cs_state s)(t := 1)"
  have two: "?st n = 2 \<longleftrightarrow> cs_state s n = 2" for n using assms(3) by simp
  have "ranked edges ?st" using rank unfolding ranked_def two .
  moreover have "frames_ok edges ?st None ((t, targets_of edges t) # (node, ts) # rest)"
  proof -
    have "targets_of edges node = (dealt @ [t]) @ ts" "\<forall>u\<in>set (dealt @ [t]). ?st u = 2 \<or> Some t = Some u"
      using dealt two by simp_all
    then have "\<exists>dealt. targets_of edges node = dealt @ ts \<and> (\<forall>u\<in>set dealt. ?st u = 2 \<or> Some t = Some u)" by blast
    moreover have "frames_ok edges ?st (Some node) rest"
      using two by (intro frames_ok_mono [OF frames]) blast+
    ultimately show ?thesis by simp
  qed
  moreover have "edge edges node t" using dealt(1) by (simp add: edge_def)
  then have "successively (edge edges) (cs_path s @ [t])" using succ by (simp add: successively_append_iff path)
  moreover have "((cs_positions s)(t := Some (length (cs_path s)))) ((cs_path s @ [t]) ! i) = Some i"
    if "i < length (cs_path s @ [t])" for i
    using pos [of i] that fresh nth_mem [of i "cs_path s"] by (auto simp: nth_append less_Suc_eq)
  ultimately show ?thesis using dist fresh state path unfolding searching_def enter_node_def by auto
qed

section \<open>What the search finds\<close>

definition closed_walk :: "'a edges \<Rightarrow> 'a list \<Rightarrow> bool" where
  "closed_walk edges c = (2 \<le> length c \<and> hd c = last c \<and> successively (edge edges) c)"

definition finished :: "'a edges \<Rightarrow> ('a \<Rightarrow> nat) \<Rightarrow> bool" where
  "finished edges st = ((\<forall>n. st n = 0 \<or> st n = 2) \<and> ranked edges st)"

lemma cycle_is_walk:
  assumes "searching edges s" "cs_stack s = (node, t # ts) # rest" "cs_state s t = 1"
  shows "\<exists>i. cs_positions s t = Some i \<and> closed_walk edges (drop i (cs_path s) @ [t])"
proof -
  note D = searchingD [OF assms(1)]
  have "t \<in> set (cs_path s)" using D(3) [of t] assms(3) by simp
  then obtain i where i: "i < length (cs_path s)" "cs_path s ! i = t" by (auto simp: in_set_conv_nth)
  have pos: "cs_positions s t = Some i" using D(5) [OF i(1)] i(2) by simp
  have last: "last (cs_path s) = node" using D(1) assms(2) by simp
  have e: "edge edges node t" using D(7) by (auto simp: assms(2) edge_def)
  have ne: "drop i (cs_path s) \<noteq> []" using i(1) by simp
  have "successively (edge edges) (take i (cs_path s) @ drop i (cs_path s))" using D(6) by simp
  then have "successively (edge edges) (drop i (cs_path s))" unfolding successively_append_iff by blast
  then have "successively (edge edges) (drop i (cs_path s) @ [t])"
    using e last ne i(1) by (simp add: successively_append_iff last_drop)
  moreover have "hd (drop i (cs_path s)) = t" using i by (simp add: hd_drop_conv_nth)
  ultimately have "closed_walk edges (drop i (cs_path s) @ [t])"
    using ne i(1) by (simp add: closed_walk_def hd_append)
  then show ?thesis using pos by blast
qed

lemma search_loop_result: "searching edges s \<Longrightarrow> (case search_loop edges s of
      (No_Cycle, s') \<Rightarrow> finished edges (cs_state s') \<and> (\<forall>n. cs_state s n \<noteq> 0 \<longrightarrow> cs_state s' n = 2)
    | (Cycle c, s') \<Rightarrow> closed_walk edges c
    | (Key_Error, s') \<Rightarrow> False)"
proof (induction "search_measure edges s" arbitrary: s rule: less_induct)
  case less
  have step: ?case if eq: "search_loop edges s = search_loop edges s1" and inv: "searching edges s1"
    and smaller: "search_measure edges s1 < search_measure edges s"
    and kept: "\<forall>n. cs_state s n \<noteq> 0 \<longrightarrow> cs_state s1 n \<noteq> 0" for s1
  proof -
    obtain r s' where r: "search_loop edges s1 = (r, s')" by fastforce
    note result = less.hyps [OF smaller inv, unfolded r]
    show ?thesis unfolding eq r
    proof (cases r)
      case No_Cycle
      have "cs_state s' n = 2" if n: "cs_state s n \<noteq> 0" for n
        using result No_Cycle kept [THEN spec, THEN mp, OF n] by simp
      then show "case (r, s') of (No_Cycle, s') \<Rightarrow> finished edges (cs_state s') \<and> (\<forall>n. cs_state s n \<noteq> 0 \<longrightarrow> cs_state s' n = 2)
          | (Cycle c, s') \<Rightarrow> closed_walk edges c | (Key_Error, s') \<Rightarrow> False"
        using result No_Cycle by simp
    qed (use result in simp_all)
  qed
  show ?case
  proof (cases "cs_stack s")
    case Nil
    note D = searchingD [OF less.prems]
    have range: "cs_state s n = 0 \<or> cs_state s n = 2" for n
      using D(1) D(3) [of n] D(4) [of n] Nil by (cases "cs_state s n = 1") auto
    then have "finished edges (cs_state s)" using D(8) by (simp add: finished_def)
    moreover have "search_loop edges s = (No_Cycle, s)" using Nil by (subst search_loop.simps) simp
    moreover have "cs_state s n = 2" if "cs_state s n \<noteq> 0" for n using range [of n] that by simp
    ultimately show ?thesis by simp
  next
    case (Cons top rest)
    obtain node ts where top: "top = (node, ts)" by fastforce
    show ?thesis
    proof (cases ts)
      case Nil
      have st: "cs_stack s = (node, []) # rest" using Cons top Nil by simp
      show ?thesis
        by (rule step [of "leave_node node rest s"])
          (subst search_loop.simps, simp add: st, rule searching_leave [OF less.prems st], rule measure_leave [OF st],
            simp add: leave_node_def)
    next
      case (Cons t us)
      have st: "cs_stack s = (node, t # us) # rest" using \<open>cs_stack s = top # rest\<close> top Cons by simp
      consider "cs_state s t = 0" | "cs_state s t = 1" | "cs_state s t = 2"
        using searchingD(4) [OF less.prems, of t] by linarith
      then show ?thesis
      proof cases
        case 1
        show ?thesis
          by (rule step [of "enter_node edges t ((node, us) # rest) s"])
            (subst search_loop.simps, simp add: st 1, rule searching_enter [OF less.prems st 1],
              rule measure_enter [OF st 1], simp add: enter_node_def)
      next
        case 2
        obtain i where i: "cs_positions s t = Some i" "closed_walk edges (drop i (cs_path s) @ [t])"
          using cycle_is_walk [OF less.prems st 2] by blast
        then have "search_loop edges s = (Cycle (drop i (cs_path s) @ [t]), s)"
          using st 2 by (subst search_loop.simps) simp
        then show ?thesis using i(2) by simp
      next
        case 3
        show ?thesis
          by (rule step [of "s\<lparr>cs_stack := (node, us) # rest\<rparr>"])
            (subst search_loop.simps, simp add: st 3, rule searching_skip [OF less.prems st 3],
              rule measure_skip [OF st], simp)
      qed
    qed
  qed
qed

lemma start_searching:
  assumes "finished edges st" "st node = 0"
  shows "searching edges (start_search edges node st)"
proof -
  have two: "(st(node := 1)) n = 2 \<longleftrightarrow> st n = 2" for n using assms(2) by simp
  have range: "st n = 0 \<or> st n = 2" for n using assms(1) by (simp add: finished_def)
  have "ranked edges (st(node := 1))" using assms(1) unfolding finished_def ranked_def two by blast
  moreover have "(st(node := 1)) n = 1 \<longleftrightarrow> n = node" "(st(node := 1)) n \<le> 2" for n using range [of n] by auto
  ultimately show ?thesis by (simp add: searching_def start_search_def)
qed

lemma search_from_result: "finished edges st \<Longrightarrow> (case search_from edges nodes st of
      No_Cycle \<Rightarrow> \<exists>st'. finished edges st' \<and> (\<forall>n. st n = 2 \<or> n \<in> set nodes \<longrightarrow> st' n = 2)
    | Cycle c \<Rightarrow> closed_walk edges c
    | Key_Error \<Rightarrow> False)"
proof (induction nodes arbitrary: st)
  case Nil
  then show ?case by auto
next
  case (Cons node nodes)
  show ?case
  proof (cases "st node = 0")
    case False
    then have "st node = 2" using conjunct1 [OF Cons.prems [unfolded finished_def], THEN spec, of node] by simp
    then show ?thesis using Cons.IH [OF Cons.prems] False by (auto split: found.splits)
  next
    case True
    let ?s = "start_search edges node st"
    obtain r s' where r: "search_loop edges ?s = (r, s')" by fastforce
    note result = search_loop_result [OF start_searching [OF Cons.prems True], unfolded r]
    show ?thesis
    proof (cases r)
      case No_Cycle
      then have fin: "finished edges (cs_state s')" "\<And>n. st n = 2 \<or> n = node \<Longrightarrow> cs_state s' n = 2"
        using result by (auto simp: start_search_def split: if_splits)
      show ?thesis using Cons.IH [OF fin(1)] fin(2) True r No_Cycle by (auto split: found.splits)
    qed (use result True r in auto)
  qed
qed

lemma ranked_acyclic:
  assumes "ranked edges st" "\<And>n t. edge edges n t \<Longrightarrow> st n = 2"
  shows "acyclic {(n, t). edge edges n t}"
proof -
  obtain f where f: "\<And>n t. edge edges n t \<Longrightarrow> f t < (f n :: nat)"
    using assms unfolding ranked_def by blast
  have "{(n, t). edge edges n t} \<subseteq> (measure f)\<inverse>" using f by auto
  moreover have "acyclic ((measure f)\<inverse>)" using wf_acyclic [OF wf_measure] by (simp add: acyclic_converse)
  ultimately show ?thesis using acyclic_subset by blast
qed

lemma walk_trancl: "successively (edge edges) c \<Longrightarrow> 2 \<le> length c \<Longrightarrow> (hd c, last c) \<in> {(n, t). edge edges n t}\<^sup>+"
proof (induction c rule: induct_list012)
  case (3 x y zs)
  then have e: "(x, y) \<in> {(n, t). edge edges n t}" by simp
  show ?case
  proof (cases zs)
    case Nil
    then show ?thesis using e by auto
  next
    case (Cons z zs')
    then have "(y, last (y # zs)) \<in> {(n, t). edge edges n t}\<^sup>+" using 3 by simp
    then show ?thesis using e Cons by (simp add: trancl_into_trancl2)
  qed
qed simp_all

text \<open>C31. The search ends for every graph, cyclic or not, and decides it: it reports no cycle exactly when the
  graph has none, a reported cycle is a walk along edges back to its first node, and the position of a
  node on the path is always known.\<close>

theorem find_cycle_decides:
  "case find_cycle edges of
      No_Cycle \<Rightarrow> acyclic {(n, t). edge edges n t}
    | Cycle c \<Rightarrow> closed_walk edges c \<and> \<not> acyclic {(n, t). edge edges n t}
    | Key_Error \<Rightarrow> False"
proof -
  have "finished edges (\<lambda>_. 0)" by (simp add: finished_def ranked_def)
  note result = search_from_result [OF this, of "map fst edges", folded find_cycle_def]
  have key: "n \<in> set (map fst edges)" if "edge edges n t" for n t
  proof (cases "map_of edges n")
    case (Some ts)
    then show ?thesis using map_of_SomeD [OF Some] by force
  qed (use that in \<open>simp add: edge_def targets_of_def\<close>)
  show ?thesis
  proof (cases "find_cycle edges")
    case No_Cycle
    then obtain st where "ranked edges st" "\<And>n. n \<in> set (map fst edges) \<Longrightarrow> st n = 2"
      using result by (auto simp: finished_def)
    then have "acyclic {(n, t). edge edges n t}" using key by (intro ranked_acyclic) blast+
    then show ?thesis using No_Cycle by simp
  next
    case (Cycle c)
    then have walk: "closed_walk edges c" using result by simp
    then have "(hd c, hd c) \<in> {(n, t). edge edges n t}\<^sup>+"
      using walk_trancl [of edges c] by (simp add: closed_walk_def)
    then show ?thesis using Cycle walk unfolding acyclic_def by auto
  qed (use result in simp)
qed

end
