(* ===== verification/SpanRouting.thy ===== *)
theory SpanRouting
  imports Complex_Main Prelude
begin

text \<open>
  The span router of the framework adapters (\<^verbatim>\<open>adapters/routing.py\<close>): one processor per provider
  that gives each span to the session that owns it. Sinks are objects with a unique route key
  (\<^verbatim>\<open>uuid4\<close>), so a sink is known by its key and its fields live in a store. What runs under the
  router's lock is one step; a delivery happens after the lock is released, as a step of its own. Reading
  the routing hint from the context and calling the adapter are outside: the hint is an argument of a
  start, and what a sink consumed is a list.
\<close>

section \<open>State\<close>

definition MAX_SPAN_STASH :: nat where "MAX_SPAN_STASH = 8192"
definition MAX_TRACE_MAP :: nat where "MAX_TRACE_MAP = 4096"

record span =
  sn_trace_id :: "int option"
  sn_span_id :: "int option"
  sn_matches :: bool

record span_decision =
  sd_route_key :: "string option"
  sd_pending_ends :: nat

datatype trace_owner = Owner string | Ambiguous_Trace

record span_sink =
  sk_session_key :: string
  sk_closed :: bool
  sk_quarantined :: nat
  sk_consumed :: "span list"

record router =
  ro_sinks :: "string list"
  ro_retired :: "string list"
  ro_store :: "string \<Rightarrow> span_sink"
  ro_spans :: "((int \<times> int) \<times> span_decision) list"
  ro_traces :: "(int \<times> trace_owner) list"
  ro_end_fallback :: bool
  ro_trace_routing :: bool
  ro_unscoped :: bool
  ro_quarantined :: nat
  ro_stale :: bool
  ro_handoffs :: "(string \<times> span) list"

definition no_sink :: span_sink where
  "no_sink = \<lparr>sk_session_key = [], sk_closed = True, sk_quarantined = 0, sk_consumed = []\<rparr>"

definition new_router :: router where
  "new_router = \<lparr>ro_sinks = [], ro_retired = [], ro_store = (\<lambda>_. no_sink), ro_spans = [], ro_traces = [],
     ro_end_fallback = True, ro_trace_routing = True, ro_unscoped = True, ro_quarantined = 0, ro_stale = False,
     ro_handoffs = []\<rparr>"

section \<open>Sinks\<close>

definition sink_consume :: "span \<Rightarrow> span_sink \<Rightarrow> bool \<times> span_sink" where
  "sink_consume sn k = (if sk_closed k then (False, k) else (True, k\<lparr>sk_consumed := sk_consumed k @ [sn]\<rparr>))"

definition sink_loss :: "span_sink \<Rightarrow> span_sink" where
  "sink_loss k = k\<lparr>sk_quarantined := sk_quarantined k + 1\<rparr>"

definition sink_close :: "span_sink \<Rightarrow> span_sink" where
  "sink_close k = k\<lparr>sk_closed := True, sk_session_key := []\<rparr>"

definition on_store :: "string \<Rightarrow> (span_sink \<Rightarrow> span_sink) \<Rightarrow> router \<Rightarrow> router" where
  "on_store key f r = r\<lparr>ro_store := (ro_store r)(key := f (ro_store r key))\<rparr>"

section \<open>Helpers under the lock\<close>

definition has_inflight :: "router \<Rightarrow> string \<Rightarrow> bool" where
  "has_inflight r key = list_ex (\<lambda>(i, d). sd_route_key d = Some key) (ro_spans r)"

definition disable_traces :: "router \<Rightarrow> router" where
  "disable_traces r = r\<lparr>ro_traces := [], ro_trace_routing := False, ro_end_fallback := False\<rparr>"

definition trim_traces :: "router \<Rightarrow> router" where
  "trim_traces r = (if length (ro_traces r) \<le> MAX_TRACE_MAP then r else disable_traces r)"

definition discard_retired :: "string \<Rightarrow> router \<Rightarrow> router" where
  "discard_retired key r =
     (if has_inflight r key then r
      else
        let r1 = r\<lparr>ro_retired := removeAll key (ro_retired r)\<rparr>;
            r2 = (if list_ex (\<lambda>(t, owner). owner = Owner key) (ro_traces r1) then disable_traces r1 else r1)
        in if ro_sinks r2 = [] \<and> ro_retired r2 = [] \<and> ro_traces r2 \<noteq> [] then disable_traces r2 else r2)"

definition route_for_hint :: "router \<Rightarrow> string \<Rightarrow> string option" where
  "route_for_hint r hint =
     (if hint \<in> set (ro_sinks r) \<or> hint \<in> set (ro_retired r) then Some hint
      else if \<not> ro_unscoped r then None
      else (case filter (\<lambda>key. sk_session_key (ro_store r key) = hint) (ro_sinks r) of [key] \<Rightarrow> Some key | _ \<Rightarrow> None))"

definition route_for_unscoped :: "router \<Rightarrow> int option \<Rightarrow> string option" where
  "route_for_unscoped r trace =
     (case (if ro_trace_routing r then (case trace of None \<Rightarrow> None | Some t \<Rightarrow> map_of (ro_traces r) t) else None) of
        Some (Owner key) \<Rightarrow> if key \<in> set (ro_sinks r) \<or> key \<in> set (ro_retired r) then Some key else None
      | Some Ambiguous_Trace \<Rightarrow> None
      | None \<Rightarrow> (case (ro_unscoped r, ro_sinks r) of (True, [key]) \<Rightarrow> Some key | _ \<Rightarrow> None))"

section \<open>Registration\<close>

definition register_sink :: "string \<Rightarrow> string \<Rightarrow> router \<Rightarrow> router" where
  "register_sink key session r =
     r\<lparr>ro_sinks := ro_sinks r @ [key],
       ro_store := (ro_store r)(key := \<lparr>sk_session_key = session, sk_closed = False, sk_quarantined = 0, sk_consumed = []\<rparr>)\<rparr>"

definition deregister_sink :: "string \<Rightarrow> router \<Rightarrow> router" where
  "deregister_sink key r =
     (if key \<notin> set (ro_sinks r) then r
      else
        let r1 = r\<lparr>ro_unscoped := False, ro_sinks := removeAll key (ro_sinks r)\<rparr>
        in if has_inflight r1 key then r1\<lparr>ro_retired := ro_retired r1 @ [key]\<rparr> else discard_retired key r1)"

section \<open>Starts\<close>

text \<open>\<^verbatim>\<open>popitem(last=False)\<close> until the stash is within its bound.\<close>

fun trim_spans :: "nat \<Rightarrow> router \<Rightarrow> router" where
  "trim_spans 0 r = r"
| "trim_spans (Suc n) r =
     (if length (ro_spans r) \<le> MAX_SPAN_STASH then r
      else (case ro_spans r of
              [] \<Rightarrow> r
            | (i, evicted) # spans \<Rightarrow>
                let r1 = r\<lparr>ro_spans := spans, ro_end_fallback := False\<rparr>
                in trim_spans n (case sd_route_key evicted of
                     Some key \<Rightarrow> if key \<notin> set (ro_sinks r1) then discard_retired key r1 else r1
                   | None \<Rightarrow> r1)))"

definition mark_ambiguous :: "int \<Rightarrow> router \<Rightarrow> router" where
  "mark_ambiguous t r = (if ro_trace_routing r
     then trim_traces (r\<lparr>ro_traces := od_set_last t Ambiguous_Trace (ro_traces r)\<rparr>) else r)"

definition stash_start :: "int \<times> int \<Rightarrow> string option \<Rightarrow> router \<Rightarrow> bool \<times> router" where
  "stash_start i route r =
     (let (collision, decision, r1) = (case map_of (ro_spans r) i of
          None \<Rightarrow> (False, \<lparr>sd_route_key = route, sd_pending_ends = 1\<rparr>, r)
        | Some existing \<Rightarrow> (True, \<lparr>sd_route_key = None, sd_pending_ends = sd_pending_ends existing + 1\<rparr>,
            mark_ambiguous (fst i) r));
          r2 = r1\<lparr>ro_spans := od_set_last i decision (ro_spans r1)\<rparr>
      in (collision, trim_spans (length (ro_spans r2)) r2))"

definition learn_trace :: "int \<Rightarrow> string \<Rightarrow> router \<Rightarrow> router" where
  "learn_trace t key r =
     (let owner = (case map_of (ro_traces r) t of
          None \<Rightarrow> Owner key
        | Some o' \<Rightarrow> if o' \<noteq> Owner key then Ambiguous_Trace else o')
      in trim_traces (r\<lparr>ro_traces := od_set_last t owner (ro_traces r)\<rparr>))"

definition start_route :: "span \<Rightarrow> string option \<Rightarrow> router \<Rightarrow> string option" where
  "start_route sn hint r = (case hint of Some h \<Rightarrow> route_for_hint r h | None \<Rightarrow> route_for_unscoped r (sn_trace_id sn))"

definition on_start :: "span \<Rightarrow> string option \<Rightarrow> router \<Rightarrow> router" where
  "on_start sn hint r =
     (if ro_stale r \<or> \<not> sn_matches sn then r
      else
        let route = start_route sn hint r;
            (collision, r1) = (case (sn_trace_id sn, sn_span_id sn) of
                (Some t, Some s) \<Rightarrow> stash_start (t, s) route r
              | _ \<Rightarrow> (False, r))
        in case (route, sn_trace_id sn) of
             (Some key, Some t) \<Rightarrow> if \<not> collision \<and> ro_trace_routing r1 then learn_trace t key r1 else r1
           | _ \<Rightarrow> r1)"

section \<open>Ends\<close>

text \<open>The exact decision of an identity, consumed: its route, whether it is a tombstone, and the stash.\<close>

definition take_decision :: "span \<Rightarrow> router \<Rightarrow> string option \<times> bool \<times> router" where
  "take_decision sn r =
     (case (sn_trace_id sn, sn_span_id sn) of
        (Some t, Some s) \<Rightarrow>
          (case map_of (ro_spans r) (t, s) of
             None \<Rightarrow> (None, False, r)
           | Some d \<Rightarrow>
               (sd_route_key d, sd_route_key d = None,
                if sd_pending_ends d > 1
                then r\<lparr>ro_spans := od_set_last (t, s) (d\<lparr>sd_pending_ends := sd_pending_ends d - 1\<rparr>) (ro_spans r)\<rparr>
                else r\<lparr>ro_spans := AList.delete (t, s) (ro_spans r)\<rparr>))
      | _ \<Rightarrow> (None, False, r))"

definition end_route :: "span \<Rightarrow> router \<Rightarrow> string option \<times> router" where
  "end_route sn r =
     (let (exact, unattributable, r1) = take_decision sn r
      in (if ro_end_fallback r1 \<and> \<not> unattributable \<and> exact = None
          then (case sn_trace_id sn of
                  None \<Rightarrow> None
                | Some t \<Rightarrow> (case map_of (ro_traces r1) t of Some (Owner key) \<Rightarrow> Some key | _ \<Rightarrow> None))
          else exact, r1))"

definition record_losses :: "string list \<Rightarrow> router \<Rightarrow> router" where
  "record_losses keys r = fold (\<lambda>key. on_store key sink_loss) keys r"

definition on_end :: "span \<Rightarrow> router \<Rightarrow> router" where
  "on_end sn r =
     (if ro_stale r \<or> \<not> sn_matches sn then r
      else
        let (route, r1) = end_route sn r;
            live = (case route of None \<Rightarrow> False | Some key \<Rightarrow> key \<in> set (ro_sinks r1));
            affected = (if live then []
              else (case route of
                      Some key \<Rightarrow> if key \<in> set (ro_retired r1) then [key] else []
                    | None \<Rightarrow> ro_sinks r1));
            r2 = (if live then r1 else r1\<lparr>ro_quarantined := ro_quarantined r1 + 1\<rparr>);
            r3 = (case route of
                Some key \<Rightarrow> if key \<notin> set (ro_sinks r2) then discard_retired key r2 else r2
              | None \<Rightarrow> r2)
        in (case route of
              Some key \<Rightarrow> if live then r3\<lparr>ro_handoffs := ro_handoffs r3 @ [(key, sn)]\<rparr> else record_losses affected r3
            | None \<Rightarrow> record_losses affected r3))"

text \<open>The delivery of the \<open>n\<close>th span on its way, outside the lock.\<close>

definition deliver_handoff :: "nat \<Rightarrow> router \<Rightarrow> router" where
  "deliver_handoff n r =
     (if n < length (ro_handoffs r)
      then
        let (key, sn) = ro_handoffs r ! n; (done', sink) = sink_consume sn (ro_store r key);
            r1 = r\<lparr>ro_handoffs := take n (ro_handoffs r) @ drop (Suc n) (ro_handoffs r), ro_store := (ro_store r)(key := sink)\<rparr>
        in if done' then r1 else on_store key sink_loss (r1\<lparr>ro_quarantined := ro_quarantined r1 + 1\<rparr>)
      else r)"

definition mark_stale :: "router \<Rightarrow> router" where
  "mark_stale r = r\<lparr>ro_stale := True,
     ro_store := (\<lambda>key. if key \<in> set (ro_sinks r) \<or> key \<in> set (ro_retired r) then sink_close (ro_store r key) else ro_store r key),
     ro_sinks := [], ro_retired := [], ro_spans := [], ro_traces := []\<rparr>"

section \<open>Runs\<close>

datatype route_event = Register string string | Close_Sink string | Deregister string
  | Start span "string option" | End span | Deliver nat | Fork

definition route_step :: "route_event \<Rightarrow> router \<Rightarrow> router" where
  "route_step e r = (case e of
      Register key session \<Rightarrow> if key \<in> set (ro_sinks r) \<or> key \<in> set (ro_retired r) then r else register_sink key session r
    | Close_Sink key \<Rightarrow> on_store key sink_close r
    | Deregister key \<Rightarrow> deregister_sink key r
    | Start sn hint \<Rightarrow> on_start sn hint r
    | End sn \<Rightarrow> on_end sn r
    | Deliver n \<Rightarrow> deliver_handoff n r
    | Fork \<Rightarrow> mark_stale r)"

section \<open>The history of a run\<close>

text \<open>
  Beside the router a run keeps what an observer of the callbacks knows: for every identity the route
  decided at its latest start, until an end of that identity is seen, and for every trace the sessions
  its spans were routed to at their starts.
\<close>

record watch =
  w_router :: router
  w_open :: "int \<times> int \<Rightarrow> string option option"
  w_routes :: "int \<Rightarrow> string set"

definition new_watch :: watch where
  "new_watch = \<lparr>w_router = new_router, w_open = (\<lambda>_. None), w_routes = (\<lambda>_. {})\<rparr>"

definition open_after :: "route_event \<Rightarrow> watch \<Rightarrow> int \<times> int \<Rightarrow> string option option" where
  "open_after e w = (case e of
      Start sn hint \<Rightarrow>
        (case (sn_matches sn, sn_trace_id sn, sn_span_id sn) of
           (True, Some t, Some s) \<Rightarrow> (w_open w)((t, s) := Some (start_route sn hint (w_router w)))
         | _ \<Rightarrow> w_open w)
    | End sn \<Rightarrow>
        (case (sn_matches sn, sn_trace_id sn, sn_span_id sn) of
           (True, Some t, Some s) \<Rightarrow> (w_open w)((t, s) := None)
         | _ \<Rightarrow> w_open w)
    | _ \<Rightarrow> w_open w)"

definition routes_after :: "route_event \<Rightarrow> watch \<Rightarrow> int \<Rightarrow> string set" where
  "routes_after e w = (case e of
      Start sn hint \<Rightarrow>
        (case (sn_matches sn, sn_trace_id sn, start_route sn hint (w_router w)) of
           (True, Some t, Some key) \<Rightarrow> (w_routes w)(t := insert key (w_routes w t))
         | _ \<Rightarrow> w_routes w)
    | _ \<Rightarrow> w_routes w)"

definition watch_step :: "route_event \<Rightarrow> watch \<Rightarrow> watch" where
  "watch_step e w = \<lparr>w_router = route_step e (w_router w), w_open = open_after e w, w_routes = routes_after e w\<rparr>"

definition watched :: "route_event list \<Rightarrow> watch" where
  "watched es = fold watch_step es new_watch"

section \<open>The invariant of the routing tables\<close>

type_synonym open_starts = "int \<times> int \<Rightarrow> string option option"

definition spans_ok :: "((int \<times> int) \<times> span_decision) list \<Rightarrow> bool \<Rightarrow> open_starts \<Rightarrow> bool" where
  "spans_ok s fallback L \<longleftrightarrow> distinct (map fst s)
     \<and> (\<forall>i d k. map_of s i = Some d \<longrightarrow> sd_route_key d = Some k \<longrightarrow> sd_pending_ends d \<le> 1 \<and> L i = Some (Some k))
     \<and> (fallback \<longrightarrow> (\<forall>i. L i \<noteq> None \<longrightarrow> map_of s i \<noteq> None))"

definition traces_ok :: "(int \<times> trace_owner) list \<Rightarrow> bool \<Rightarrow> bool \<Rightarrow> (int \<Rightarrow> string set) \<Rightarrow> bool" where
  "traces_ok ts routing fallback T \<longleftrightarrow> (fallback \<longrightarrow> routing) \<and> length ts \<le> MAX_TRACE_MAP
     \<and> (routing \<longrightarrow>
          (\<forall>t. (map_of ts t = None \<longrightarrow> T t = {}) \<and> (\<forall>k. map_of ts t = Some (Owner k) \<longrightarrow> T t = {k})))"

definition tables_ok :: "router \<Rightarrow> open_starts \<Rightarrow> (int \<Rightarrow> string set) \<Rightarrow> bool" where
  "tables_ok r L T \<longleftrightarrow> spans_ok (ro_spans r) (ro_end_fallback r) L
     \<and> traces_ok (ro_traces r) (ro_trace_routing r) (ro_end_fallback r) T"

lemma spans_ok_weaken: "\<lbrakk>spans_ok s f L; f' \<longrightarrow> f\<rbrakk> \<Longrightarrow> spans_ok s f' L"
  unfolding spans_ok_def by blast

lemma spans_ok_tail:
  assumes "spans_ok ((i, d) # s) f L" shows "spans_ok s False L"
proof -
  have new: "map_of s i = None" and dist: "distinct (map fst s)"
    using assms unfolding spans_ok_def by (simp_all add: map_of_eq_None_iff)
  have "map_of ((i, d) # s) j = Some e" if "map_of s j = Some e" for j e
    using that new by (cases "j = i") simp_all
  then show ?thesis
    using assms dist unfolding spans_ok_def by blast
qed

lemma traces_ok_weaken: "\<lbrakk>traces_ok ts tr f T; f' \<longrightarrow> f\<rbrakk> \<Longrightarrow> traces_ok ts tr f' T"
  unfolding traces_ok_def by blast

lemma traces_ok_off [simp]: "traces_ok [] False False T"
  by (simp add: traces_ok_def)

lemma disable_traces_ok: "spans_ok (ro_spans r) f L \<Longrightarrow> tables_ok (disable_traces r) L T"
  unfolding tables_ok_def disable_traces_def by (simp add: spans_ok_weaken [of _ f])

lemma trim_traces_ok:
  assumes "spans_ok (ro_spans r) (ro_end_fallback r) L"
    and "length (ro_traces r) \<le> MAX_TRACE_MAP \<Longrightarrow> traces_ok (ro_traces r) (ro_trace_routing r) (ro_end_fallback r) T"
  shows "tables_ok (trim_traces r) L T"
  using assms disable_traces_ok [OF assms(1)] unfolding trim_traces_def by (simp add: tables_ok_def)

lemma tables_ok_disable: "tables_ok r L T' \<Longrightarrow> tables_ok (disable_traces r) L T"
  by (rule disable_traces_ok [of _ "ro_end_fallback r"]) (simp add: tables_ok_def)

lemma tables_ok_other_fields [simp]:
  "tables_ok (r\<lparr>ro_retired := x\<rparr>) L T = tables_ok r L T"
  "tables_ok (r\<lparr>ro_sinks := y\<rparr>) L T = tables_ok r L T"
  "tables_ok (r\<lparr>ro_store := z\<rparr>) L T = tables_ok r L T"
  "tables_ok (r\<lparr>ro_unscoped := u\<rparr>) L T = tables_ok r L T"
  "tables_ok (r\<lparr>ro_quarantined := n\<rparr>) L T = tables_ok r L T"
  "tables_ok (r\<lparr>ro_handoffs := h\<rparr>) L T = tables_ok r L T"
  by (simp_all add: tables_ok_def)

lemma discard_retired_ok:
  assumes "tables_ok r L T" shows "tables_ok (discard_retired k r) L T"
proof -
  have "tables_ok (r\<lparr>ro_retired := x\<rparr>) L T" for x
    using assms by simp
  then show ?thesis
    unfolding discard_retired_def Let_def using assms tables_ok_disable by (auto split: if_split)
qed

lemma disable_traces_frames [simp]:
  "ro_spans (disable_traces r) = ro_spans r" "ro_sinks (disable_traces r) = ro_sinks r"
  "ro_handoffs (disable_traces r) = ro_handoffs r" "ro_stale (disable_traces r) = ro_stale r"
  by (simp_all add: disable_traces_def)

lemma trim_traces_frames [simp]:
  "ro_spans (trim_traces r) = ro_spans r" "ro_sinks (trim_traces r) = ro_sinks r"
  "ro_handoffs (trim_traces r) = ro_handoffs r" "ro_stale (trim_traces r) = ro_stale r"
  by (simp_all add: trim_traces_def)

lemma discard_retired_frames [simp]:
  "ro_spans (discard_retired k r) = ro_spans r" "ro_sinks (discard_retired k r) = ro_sinks r"
  "ro_handoffs (discard_retired k r) = ro_handoffs r" "ro_stale (discard_retired k r) = ro_stale r"
  by (simp_all add: discard_retired_def Let_def)

lemma trim_spans_keeps:
  "\<lbrakk>tables_ok r L T; length (ro_spans r) \<le> MAX_SPAN_STASH + n\<rbrakk>
     \<Longrightarrow> tables_ok (trim_spans n r) L T \<and> length (ro_spans (trim_spans n r)) \<le> MAX_SPAN_STASH
       \<and> ro_handoffs (trim_spans n r) = ro_handoffs r \<and> ro_stale (trim_spans n r) = ro_stale r"
proof (induction n arbitrary: r)
  case 0
  then show ?case by simp
next
  case (Suc n)
  show ?case
  proof (cases "length (ro_spans r) \<le> MAX_SPAN_STASH")
    case True
    then show ?thesis using Suc.prems by simp
  next
    case False
    then obtain i d spans where s: "ro_spans r = (i, d) # spans"
      by (cases "ro_spans r") auto
    define r1 where "r1 = r\<lparr>ro_spans := spans, ro_end_fallback := False\<rparr>"
    define r2 where "r2 = (case sd_route_key d of
        Some key \<Rightarrow> if key \<notin> set (ro_sinks r1) then discard_retired key r1 else r1 | None \<Rightarrow> r1)"
    have "tables_ok r1 L T"
      using Suc.prems(1) spans_ok_tail [of i d spans "ro_end_fallback r" L]
        traces_ok_weaken [of "ro_traces r" "ro_trace_routing r" "ro_end_fallback r" T False]
      unfolding tables_ok_def r1_def s by simp
    then have "tables_ok r2 L T"
      by (simp add: r2_def discard_retired_ok split: option.split)
    moreover have "ro_spans r2 = spans" "ro_handoffs r2 = ro_handoffs r" "ro_stale r2 = ro_stale r"
      by (simp_all add: r2_def r1_def split: option.split)
    moreover have "trim_spans (Suc n) r = trim_spans n r2"
      using False by (simp only: trim_spans.simps s if_False list.case prod.case r2_def r1_def Let_def)
    ultimately show ?thesis
      using Suc.IH [of r2] Suc.prems(2) by (simp add: s)
  qed
qed

lemma spans_ok_set:
  assumes ok: "spans_ok s f L"
    and d: "\<And>k. sd_route_key d = Some k \<Longrightarrow> sd_pending_ends d \<le> 1 \<and> v = Some (Some k)"
  shows "spans_ok (od_set_last i d s) f (L(i := v))"
  using assms distinct_od_set_last [of s i d] unfolding spans_ok_def map_of_od_set_last fun_upd_apply
  by (simp only: split: if_split) blast

lemma spans_ok_delete:
  assumes "spans_ok s f L" shows "spans_ok (AList.delete i s) f (L(i := None))"
  using assms distinct_delete [of s i] unfolding spans_ok_def map_of_delete fun_upd_apply
  by (simp only: split: if_split) blast

lemma spans_ok_forget:
  assumes "spans_ok s f L" "map_of s i = None" shows "spans_ok s f (L(i := None))"
  using assms unfolding spans_ok_def fun_upd_apply by (auto split: if_split)

lemma mark_ambiguous_ok:
  assumes "tables_ok r L T" shows "tables_ok (mark_ambiguous t r) L (T(t := X))"
proof (cases "ro_trace_routing r")
  case True
  have "tables_ok (trim_traces (r\<lparr>ro_traces := od_set_last t Ambiguous_Trace (ro_traces r)\<rparr>)) L (T(t := X))"
    using assms True by (intro trim_traces_ok) (auto simp: tables_ok_def traces_ok_def dict_simps split: if_splits)
  then show ?thesis
    using True by (simp add: mark_ambiguous_def)
next
  case False
  then show ?thesis
    using assms unfolding tables_ok_def traces_ok_def mark_ambiguous_def by auto
qed

lemma mark_ambiguous_frames [simp]:
  "ro_spans (mark_ambiguous t r) = ro_spans r" "ro_handoffs (mark_ambiguous t r) = ro_handoffs r"
  "ro_stale (mark_ambiguous t r) = ro_stale r"
  by (simp_all add: mark_ambiguous_def)

lemma learn_trace_ok:
  assumes "tables_ok r L T" "ro_trace_routing r"
  shows "tables_ok (learn_trace t k r) L (T(t := insert k (T t)))"
  unfolding learn_trace_def Let_def
  using assms by (intro trim_traces_ok) (auto simp: tables_ok_def traces_ok_def dict_simps split: option.split if_splits)

lemma learn_trace_frames [simp]:
  "ro_spans (learn_trace t k r) = ro_spans r" "ro_handoffs (learn_trace t k r) = ro_handoffs r"
  "ro_stale (learn_trace t k r) = ro_stale r"
  by (simp_all add: learn_trace_def Let_def)

definition kept_through :: "router \<Rightarrow> router \<Rightarrow> bool" where
  "kept_through r r' \<longleftrightarrow> ro_handoffs r' = ro_handoffs r \<and> ro_stale r' = ro_stale r
     \<and> (length (ro_spans r) \<le> MAX_SPAN_STASH \<longrightarrow> length (ro_spans r') \<le> MAX_SPAN_STASH)"

lemma stash_start_ok:
  assumes ok: "tables_ok r L T" and st: "stash_start i route r = (collision, r')"
  shows "tables_ok r' (L(i := Some route)) (if collision then T(fst i := X) else T) \<and> kept_through r r'"
proof (cases "map_of (ro_spans r) i")
  case None
  define r2 where "r2 = r\<lparr>ro_spans := od_set_last i \<lparr>sd_route_key = route, sd_pending_ends = 1\<rparr> (ro_spans r)\<rparr>"
  have "tables_ok r2 (L(i := Some route)) T"
    using ok unfolding tables_ok_def r2_def by (auto intro!: spans_ok_set)
  moreover have "collision = False" "r' = trim_spans (length (ro_spans r2)) r2"
    using st None unfolding stash_start_def r2_def by (simp_all add: Let_def)
  ultimately show ?thesis
    using trim_spans_keeps [of r2 _ T "length (ro_spans r2)"] unfolding kept_through_def by (simp add: r2_def)
next
  case (Some d)
  define r1 where "r1 = mark_ambiguous (fst i) r"
  define r2 where "r2 = r1\<lparr>ro_spans := od_set_last i \<lparr>sd_route_key = None, sd_pending_ends = sd_pending_ends d + 1\<rparr> (ro_spans r1)\<rparr>"
  have "tables_ok r1 L (T(fst i := X))"
    using mark_ambiguous_ok [OF ok] by (simp add: r1_def)
  then have "tables_ok r2 (L(i := Some route)) (T(fst i := X))"
    unfolding tables_ok_def r2_def by (auto intro!: spans_ok_set)
  moreover have "collision = True" "r' = trim_spans (length (ro_spans r2)) r2"
    using st Some unfolding stash_start_def r2_def r1_def by (simp_all add: Let_def)
  ultimately show ?thesis
    using trim_spans_keeps [of r2 _ "T(fst i := X)" "length (ro_spans r2)"] unfolding kept_through_def
    by (simp add: r2_def r1_def)
qed

lemma on_start_ok:
  assumes ok: "tables_ok (w_router w) (w_open w) (w_routes w)" and live: "\<not> ro_stale (w_router w)"
  shows "tables_ok (on_start sn hint (w_router w)) (open_after (Start sn hint) w) (routes_after (Start sn hint) w)
    \<and> kept_through (w_router w) (on_start sn hint (w_router w))"
proof (cases "sn_matches sn")
  case False
  then show ?thesis
    using ok by (simp add: on_start_def open_after_def routes_after_def kept_through_def)
next
  case matches: True
  define r L T route where "r = w_router w" and "L = w_open w" and "T = w_routes w" and "route = start_route sn hint r"
  note defs = this
  have learn: "tables_ok (learn_trace t k r') L' (T(t := insert k (T t))) \<and> kept_through r (learn_trace t k r')"
    if "tables_ok r' L' T" "kept_through r r'" "ro_trace_routing r'" for r' L' t k
    using that learn_trace_ok [of r' L' T t k] by (simp add: kept_through_def)
  have skip: "tables_ok r' L' (T(t := insert k (T t)))"
    if "tables_ok r' L' T" "\<not> ro_trace_routing r'" for r' L' t k
    using that unfolding tables_ok_def traces_ok_def by blast
  show ?thesis
  proof (cases "sn_trace_id sn")
    case None
    then show ?thesis
      using ok live matches by (simp add: on_start_def open_after_def routes_after_def kept_through_def split: option.split)
  next
    case t: (Some t)
    show ?thesis
    proof (cases "sn_span_id sn")
      case None
      then show ?thesis
        using ok live matches t learn [of r L t] skip [of r L t]
        by (auto simp: on_start_def open_after_def routes_after_def kept_through_def defs split: option.split)
    next
      case s: (Some s)
      obtain collision r1 where st: "stash_start (t, s) route r = (collision, r1)"
        by (cases "stash_start (t, s) route r")
      note one = stash_start_ok [OF ok [folded defs(1-3)] st]
      have L': "open_after (Start sn hint) w = L((t, s) := Some route)"
        using matches t s by (simp add: open_after_def defs)
      have e: "on_start sn hint r = (case route of None \<Rightarrow> r1 | Some key \<Rightarrow>
          if \<not> collision \<and> ro_trace_routing r1 then learn_trace t key r1 else r1)"
        using matches t s st live by (simp add: on_start_def defs split: option.split)
      have T': "routes_after (Start sn hint) w = (case route of None \<Rightarrow> T | Some key \<Rightarrow> T(t := insert key (T t)))"
        using matches t by (simp add: routes_after_def defs split: option.split)
      show ?thesis
      proof (cases route)
        case None
        then show ?thesis
          using one [of "T t"] unfolding defs(1) [symmetric] L' T' e by (cases collision) simp_all
      next
        case (Some key)
        then show ?thesis
          using one [of "insert key (T t)"] learn [of r1 _ t key] skip [of r1 _ t key]
          unfolding defs(1) [symmetric] L' T' e by (cases collision; cases "ro_trace_routing r1") simp_all
      qed
    qed
  qed
qed

definition justified :: "watch \<Rightarrow> span \<Rightarrow> string \<Rightarrow> bool" where
  "justified w sn key \<longleftrightarrow>
     (case sn_trace_id sn of
        None \<Rightarrow> False
      | Some t \<Rightarrow>
          (case (case sn_span_id sn of None \<Rightarrow> None | Some s \<Rightarrow> w_open w (t, s)) of
             Some route \<Rightarrow> route = Some key
           | None \<Rightarrow> w_routes w t = {key}))"

lemma end_route_ok:
  assumes ok: "tables_ok (w_router w) (w_open w) (w_routes w)" and m: "sn_matches sn"
    and e: "end_route sn (w_router w) = (route, r')"
  shows "tables_ok r' (open_after (End sn) w) (w_routes w) \<and> kept_through (w_router w) r'
    \<and> ro_sinks r' = ro_sinks (w_router w) \<and> (\<forall>key. route = Some key \<longrightarrow> justified w sn key)"
proof (cases "sn_trace_id sn")
  case None
  then show ?thesis
    using assms by (auto simp: end_route_def take_decision_def open_after_def kept_through_def justified_def)
next
  case t: (Some t)
  define r where "r = w_router w"
  have learned: "w_routes w t = {key}"
    if "map_of (ro_traces r) t = Some (Owner key)" "ro_end_fallback r" for key
    using ok that unfolding tables_ok_def traces_ok_def r_def by blast
  show ?thesis
  proof (cases "sn_span_id sn")
    case None
    then show ?thesis
      using assms t learned
      by (auto simp: end_route_def take_decision_def open_after_def kept_through_def justified_def r_def
          split: option.splits trace_owner.splits if_splits)
  next
    case s: (Some s)
    have L': "open_after (End sn) w = (w_open w)((t, s) := None)"
      using m t s by (simp add: open_after_def)
    show ?thesis
    proof (cases "map_of (ro_spans r) (t, s)")
      case None
      have "ro_end_fallback r \<longrightarrow> w_open w (t, s) = None"
        using ok None unfolding tables_ok_def spans_ok_def r_def by blast
      moreover have "tables_ok r (open_after (End sn) w) (w_routes w)"
        using ok None spans_ok_forget [of "ro_spans r" "ro_end_fallback r" "w_open w" "(t, s)"]
        unfolding L' tables_ok_def r_def by simp
      moreover have "r' = r" "route = (if ro_end_fallback r
          then (case map_of (ro_traces r) t of Some (Owner key) \<Rightarrow> Some key | _ \<Rightarrow> None) else None)"
        using e [unfolded end_route_def take_decision_def] t s None [unfolded r_def] by (auto simp: r_def)
      ultimately show ?thesis
        using learned t s by (auto simp: kept_through_def justified_def r_def split: option.splits trace_owner.splits if_splits)
    next
      case d: (Some d)
      have dec: "sd_pending_ends d \<le> 1 \<and> w_open w (t, s) = Some (Some k)" if "sd_route_key d = Some k" for k
        using ok d that unfolding tables_ok_def spans_ok_def r_def by blast
      have route: "route = sd_route_key d" and r': "r' = (if sd_pending_ends d > 1
          then r\<lparr>ro_spans := od_set_last (t, s) (d\<lparr>sd_pending_ends := sd_pending_ends d - 1\<rparr>) (ro_spans r)\<rparr>
          else r\<lparr>ro_spans := AList.delete (t, s) (ro_spans r)\<rparr>)"
        using e t s d by (auto simp: end_route_def take_decision_def r_def split: if_splits option.splits)
      have "tables_ok r' (open_after (End sn) w) (w_routes w)"
        using ok dec spans_ok_delete spans_ok_set unfolding L' r' tables_ok_def r_def by (auto intro!: spans_ok_set spans_ok_delete)
      have len: "length (ro_spans r') \<le> length (ro_spans r)"
        using d length_od_set_last_present [of "ro_spans r" "(t, s)"] by (simp add: r' length_delete_le)
      note step = \<open>tables_ok r' (open_after (End sn) w) (w_routes w)\<close>
      moreover have "kept_through r r'"
        using len unfolding kept_through_def by (simp add: r')
      moreover have "ro_sinks r' = ro_sinks r"
        by (simp add: r')
      ultimately show ?thesis
        using dec t s route by (auto simp: justified_def r_def)
    qed
  qed
qed

section \<open>Isolation\<close>

definition end_outcome :: "span \<Rightarrow> router \<Rightarrow> string option \<Rightarrow> router \<Rightarrow> router" where
  "end_outcome sn r route r' = (case route of
      Some key \<Rightarrow> if key \<in> set (ro_sinks r) then r'\<lparr>ro_handoffs := ro_handoffs r' @ [(key, sn)]\<rparr> else r'
    | None \<Rightarrow> r')"

lemma record_losses_frames [simp]:
  "ro_spans (record_losses keys r) = ro_spans r" "ro_handoffs (record_losses keys r) = ro_handoffs r"
  "ro_stale (record_losses keys r) = ro_stale r" "tables_ok (record_losses keys r) L T = tables_ok r L T"
proof -
  have "ro_spans (record_losses keys r) = ro_spans r \<and> ro_handoffs (record_losses keys r) = ro_handoffs r
    \<and> ro_stale (record_losses keys r) = ro_stale r \<and> tables_ok (record_losses keys r) L T = tables_ok r L T" for keys r
    unfolding record_losses_def by (induction keys arbitrary: r) (simp_all add: on_store_def)
  then show "ro_spans (record_losses keys r) = ro_spans r" "ro_handoffs (record_losses keys r) = ro_handoffs r"
    "ro_stale (record_losses keys r) = ro_stale r" "tables_ok (record_losses keys r) L T = tables_ok r L T"
    by simp_all
qed

lemma on_end_ok:
  assumes ok: "tables_ok (w_router w) (w_open w) (w_routes w)" and live: "\<not> ro_stale (w_router w)"
  defines "r \<equiv> w_router w"
  shows "tables_ok (on_end sn r) (open_after (End sn) w) (w_routes w)
    \<and> ro_stale (on_end sn r) = ro_stale r
    \<and> (length (ro_spans r) \<le> MAX_SPAN_STASH \<longrightarrow> length (ro_spans (on_end sn r)) \<le> MAX_SPAN_STASH)
    \<and> (ro_handoffs (on_end sn r) = ro_handoffs r
       \<or> (\<exists>key. key \<in> set (ro_sinks r) \<and> justified w sn key \<and> ro_handoffs (on_end sn r) = ro_handoffs r @ [(key, sn)]))"
proof (cases "sn_matches sn")
  case False
  then show ?thesis
    using ok by (simp add: on_end_def open_after_def r_def)
next
  case True
  obtain route r1 where e: "end_route sn r = (route, r1)"
    by (cases "end_route sn r")
  note one = end_route_ok [OF ok True e [unfolded r_def], folded r_def]
  have on: "on_end sn r = (let live = (case route of None \<Rightarrow> False | Some key \<Rightarrow> key \<in> set (ro_sinks r1));
            affected = (if live then []
              else (case route of
                      Some key \<Rightarrow> if key \<in> set (ro_retired r1) then [key] else []
                    | None \<Rightarrow> ro_sinks r1));
            r2 = (if live then r1 else r1\<lparr>ro_quarantined := ro_quarantined r1 + 1\<rparr>);
            r3 = (case route of
                Some key \<Rightarrow> if key \<notin> set (ro_sinks r2) then discard_retired key r2 else r2
              | None \<Rightarrow> r2)
        in (case route of
              Some key \<Rightarrow> if live then r3\<lparr>ro_handoffs := ro_handoffs r3 @ [(key, sn)]\<rparr> else record_losses affected r3
            | None \<Rightarrow> record_losses affected r3))"
    using live True unfolding on_end_def r_def [symmetric] e by simp
  show ?thesis
  proof (cases route)
    case None
    then show ?thesis
      using one unfolding on by (simp add: kept_through_def)
  next
    case (Some key)
    show ?thesis
    proof (cases "key \<in> set (ro_sinks r1)")
      case True
      then show ?thesis
        using one Some unfolding on by (simp add: kept_through_def)
    next
      case False
      then show ?thesis
        using one Some unfolding on by (simp add: kept_through_def discard_retired_ok)
    qed
  qed
qed

definition watch_ok :: "watch \<Rightarrow> bool" where
  "watch_ok w \<longleftrightarrow> length (ro_spans (w_router w)) \<le> MAX_SPAN_STASH
     \<and> (if ro_stale (w_router w) then ro_spans (w_router w) = [] \<and> ro_traces (w_router w) = []
        else tables_ok (w_router w) (w_open w) (w_routes w))"

lemma deregister_ok:
  "tables_ok r L T \<Longrightarrow> tables_ok (deregister_sink key r) L T"
  unfolding deregister_sink_def Let_def by (simp add: discard_retired_ok)

lemma deregister_frames [simp]:
  "ro_spans (deregister_sink key r) = ro_spans r" "ro_stale (deregister_sink key r) = ro_stale r"
  "ro_traces r = [] \<Longrightarrow> ro_traces (deregister_sink key r) = []"
  by (simp_all add: deregister_sink_def discard_retired_def disable_traces_def Let_def)

lemma deliver_handoff_frames [simp]:
  "ro_spans (deliver_handoff n r) = ro_spans r" "ro_stale (deliver_handoff n r) = ro_stale r" "ro_traces (deliver_handoff n r) = ro_traces r"
  "tables_ok (deliver_handoff n r) L T = tables_ok r L T"
  by (simp_all add: deliver_handoff_def on_store_def Let_def split: prod.split)

lemma watch_step_ok: "watch_ok w \<Longrightarrow> watch_ok (watch_step e w)"
proof (cases e)
  case (Start sn hint)
  assume "watch_ok w"
  then show ?thesis
    using on_start_ok [of w sn hint] Start
    by (cases "ro_stale (w_router w)") (simp_all add: watch_ok_def watch_step_def route_step_def kept_through_def on_start_def [of _ _ "w_router w"])
next
  case (End sn)
  assume "watch_ok w"
  then show ?thesis
    using on_end_ok [of w sn] End
    by (cases "ro_stale (w_router w)") (auto simp: watch_ok_def watch_step_def route_step_def routes_after_def on_end_def [of _ "w_router w"])
qed (auto simp: watch_ok_def watch_step_def route_step_def open_after_def routes_after_def register_sink_def on_store_def
        mark_stale_def deregister_ok)

lemma watched_ok: "watch_ok (watched es)"
proof -
  have "watch_ok w \<Longrightarrow> watch_ok (fold watch_step es w)" for w
    by (induction es arbitrary: w) (simp_all add: watch_step_ok)
  moreover have "watch_ok new_watch"
    by (simp add: watch_ok_def new_watch_def new_router_def tables_ok_def spans_ok_def traces_ok_def)
  ultimately show ?thesis by (simp add: watched_def)
qed

lemma stash_bounded:
  "length (ro_spans (w_router (watched es))) \<le> 8192 \<and> length (ro_traces (w_router (watched es))) \<le> 4096"
  using watched_ok [of es] unfolding watch_ok_def tables_ok_def traces_ok_def MAX_SPAN_STASH_def MAX_TRACE_MAP_def
  by (auto split: if_splits)

text \<open>
  C28. A span reaches no session but its own: whatever sessions were attached to and detached from the
  shared provider, and whatever spans started and ended before, when the end of a span hands it to a
  sink, that sink is registered at this moment and the span is its own: the latest start seen for the
  span's identity was decided for it or, when no start of the identity is open, every start ever routed
  in the span's trace went to that session.
\<close>

theorem spans_stay_with_their_session:
  assumes "ro_handoffs (on_end sn (w_router (watched es))) = ro_handoffs (w_router (watched es)) @ [(key, sn)]"
  shows "key \<in> set (ro_sinks (w_router (watched es))) \<and> justified (watched es) sn key"
proof -
  have live: "\<not> ro_stale (w_router (watched es))"
    using assms by (auto simp: on_end_def)
  show ?thesis
    using on_end_ok [OF _ live, of sn] watched_ok [of es] live assms unfolding watch_ok_def by auto
qed

text \<open>Two sessions, one span of each: the second is started under the public session identifier and ends.\<close>

theorem spans_stay_with_their_session_witness:
  "justified
     (watched [Register ''a'' ''one'', Register ''b'' ''two'',
        Start \<lparr>sn_trace_id = Some 7, sn_span_id = Some 1, sn_matches = True\<rparr> (Some ''a''),
        Start \<lparr>sn_trace_id = Some 8, sn_span_id = Some 1, sn_matches = True\<rparr> (Some ''two'')])
     \<lparr>sn_trace_id = Some 8, sn_span_id = Some 1, sn_matches = True\<rparr> ''b''"
proof -
  have "ro_handoffs (on_end \<lparr>sn_trace_id = Some 8, sn_span_id = Some 1, sn_matches = True\<rparr>
      (w_router (watched [Register ''a'' ''one'', Register ''b'' ''two'',
        Start \<lparr>sn_trace_id = Some 7, sn_span_id = Some 1, sn_matches = True\<rparr> (Some ''a''),
        Start \<lparr>sn_trace_id = Some 8, sn_span_id = Some 1, sn_matches = True\<rparr> (Some ''two'')]))) =
    ro_handoffs (w_router (watched [Register ''a'' ''one'', Register ''b'' ''two'',
        Start \<lparr>sn_trace_id = Some 7, sn_span_id = Some 1, sn_matches = True\<rparr> (Some ''a''),
        Start \<lparr>sn_trace_id = Some 8, sn_span_id = Some 1, sn_matches = True\<rparr> (Some ''two'')]))
      @ [(''b'', \<lparr>sn_trace_id = Some 8, sn_span_id = Some 1, sn_matches = True\<rparr>)]"
    by code_simp
  then show ?thesis
    by (rule spans_stay_with_their_session [THEN conjunct2])
qed

end
