(* ===== verification/CaptureSidecar.thy ===== *)
theory CaptureSidecar
  imports Journal
begin

text \<open>
  The drain-sequencing ledger of a durable browser call (\<^verbatim>\<open>capture/durable.py\<close>): its JSON form and
  the checks of \<^verbatim>\<open>CaptureSidecar.from_json\<close>. A finite double is an integer multiple of \<open>2 ^ -1074\<close>
  and is known by that integer. The two dictionaries by sequence are association lists in ascending order of
  the key: the code looks them up, counts them, compares them as dictionaries and sorts them before use.
  \<open>None\<close> of \<open>from_json\<close> is \<^verbatim>\<open>ValueError\<close>.
\<close>

section \<open>The ledger\<close>

definition DIGEST_RING_SIZE :: nat where "DIGEST_RING_SIZE = 64"
definition LEGACY_DIGEST_VERSION :: nat where "LEGACY_DIGEST_VERSION = 1"
definition REJECTION_DIGEST_VERSION :: nat where "REJECTION_DIGEST_VERSION = 2"
definition CURRENT_DIGEST_VERSION :: nat where "CURRENT_DIGEST_VERSION = 3"

lemmas digest_versions_defs = LEGACY_DIGEST_VERSION_def REJECTION_DIGEST_VERSION_def CURRENT_DIGEST_VERSION_def

record sidecar =
  sc_project_id :: string
  sc_call_key :: string
  sc_applied :: nat
  sc_digests :: "(nat \<times> string) list"
  sc_turn_sequence :: nat
  sc_first_observed :: "int option"
  sc_last_observed :: "int option"
  sc_lossy :: bool
  sc_finalized :: bool
  sc_correlation_key_id :: "string option"
  sc_sealed :: bool
  sc_pending_sequence :: "nat option"
  sc_pending_digest :: "string option"
  sc_pending_journal_size :: "nat option"
  sc_retry_sequence :: "nat option"
  sc_retry_digest :: "string option"
  sc_digest_versions :: "(nat \<times> nat) list"
  sc_pending_digest_version :: "nat option"
  sc_retry_digest_version :: "nat option"
  sc_expired :: bool
  sc_metadata_bound :: bool
  sc_metadata_digest :: "string option"

section \<open>Writing\<close>

definition json_nat :: "nat \<Rightarrow> json" where "json_nat n = JNumber (int n)"
definition json_option :: "('a \<Rightarrow> json) \<Rightarrow> 'a option \<Rightarrow> json" where
  "json_option f v = (case v of None \<Rightarrow> JNull | Some x \<Rightarrow> f x)"

text \<open>\<^verbatim>\<open>version or LEGACY\<close>: a version is never zero when it is set.\<close>

definition written_version :: "nat option \<Rightarrow> nat option \<Rightarrow> json" where
  "written_version sequence version =
     (if sequence = None then json_option json_nat version
      else json_nat (case version of None \<Rightarrow> LEGACY_DIGEST_VERSION
                     | Some v \<Rightarrow> if v = 0 then LEGACY_DIGEST_VERSION else v))"

definition sidecar_to_json :: "sidecar \<Rightarrow> json" where
  "sidecar_to_json sc = JObject
     [(''project_id'', JString (sc_project_id sc)),
      (''call_key'', JString (sc_call_key sc)),
      (''applied'', json_nat (sc_applied sc)),
      (''digests'', JObject (map (\<lambda>(n, d). (show_nat n, JString d)) (sc_digests sc))),
      (''digest_versions'', JObject (map (\<lambda>(n, d). (show_nat n,
         json_nat (case map_of (sc_digest_versions sc) n of None \<Rightarrow> CURRENT_DIGEST_VERSION | Some v \<Rightarrow> v))) (sc_digests sc))),
      (''turn_sequence'', json_nat (sc_turn_sequence sc)),
      (''first_observed_ms'', json_option JNumber (sc_first_observed sc)),
      (''last_observed_ms'', json_option JNumber (sc_last_observed sc)),
      (''lossy'', JBool (sc_lossy sc)),
      (''finalized'', JBool (sc_finalized sc)),
      (''correlation_key_id'', json_option JString (sc_correlation_key_id sc)),
      (''sealed'', JBool (sc_sealed sc)),
      (''expired'', JBool (sc_expired sc)),
      (''call_metadata_bound'', JBool (sc_metadata_bound sc)),
      (''call_metadata_digest'', json_option JString (sc_metadata_digest sc)),
      (''pending_sequence'', json_option json_nat (sc_pending_sequence sc)),
      (''pending_digest'', json_option JString (sc_pending_digest sc)),
      (''pending_journal_size'', json_option json_nat (sc_pending_journal_size sc)),
      (''pending_digest_version'', written_version (sc_pending_sequence sc) (sc_pending_digest_version sc)),
      (''retry_sequence'', json_option json_nat (sc_retry_sequence sc)),
      (''retry_digest'', json_option JString (sc_retry_digest sc)),
      (''retry_digest_version'', written_version (sc_retry_sequence sc) (sc_retry_digest_version sc))]"

section \<open>Reading\<close>

definition member :: "(string \<times> json) list \<Rightarrow> string \<Rightarrow> json" where
  "member d k = (case map_of d k of None \<Rightarrow> JNull | Some v \<Rightarrow> v)"

definition member_or :: "(string \<times> json) list \<Rightarrow> string \<Rightarrow> json \<Rightarrow> json" where
  "member_or d k v = (case map_of d k of None \<Rightarrow> v | Some w \<Rightarrow> w)"

fun required_nat :: "json \<Rightarrow> nat option" where
  "required_nat (JNumber n) = (if n < 0 then None else Some (nat n))"
| "required_nat _ = None"

fun optional_nat :: "json \<Rightarrow> nat option option" where
  "optional_nat JNull = Some None"
| "optional_nat j = map_option Some (required_nat j)"

fun required_bool :: "json \<Rightarrow> bool option" where
  "required_bool (JBool b) = Some b"
| "required_bool _ = None"

definition is_sha256 :: "string \<Rightarrow> bool" where
  "is_sha256 s = (length s = 64 \<and> list_all (\<lambda>c. c \<in> set ''0123456789abcdef'') s)"

fun optional_sha256 :: "json \<Rightarrow> string option option" where
  "optional_sha256 JNull = Some None"
| "optional_sha256 (JString s) = (if is_sha256 s then Some (Some s) else None)"
| "optional_sha256 _ = None"

definition known_version :: "nat \<Rightarrow> bool" where
  "known_version v = (v \<in> {LEGACY_DIGEST_VERSION, REJECTION_DIGEST_VERSION, CURRENT_DIGEST_VERSION})"

fun optional_version :: "nat option \<Rightarrow> json \<Rightarrow> nat option option" where
  "optional_version dflt JNull = Some dflt"
| "optional_version dflt (JNumber n) = (if 0 \<le> n \<and> known_version (nat n) then Some (Some (nat n)) else None)"
| "optional_version dflt _ = None"

definition legacy_default :: "nat option \<Rightarrow> nat option" where
  "legacy_default sequence = (if sequence \<noteq> None then Some LEGACY_DIGEST_VERSION else None)"

fun optional_time :: "json \<Rightarrow> int option option" where
  "optional_time JNull = Some None"
| "optional_time (JNumber n) = Some (Some n)"
| "optional_time _ = None"

definition decimal_digit :: "char \<Rightarrow> bool" where
  "decimal_digit c = (48 \<le> (of_char c :: nat) \<and> (of_char c :: nat) \<le> 57)"

definition decimal_value :: "string \<Rightarrow> nat" where
  "decimal_value s = foldl (\<lambda>n c. 10 * n + (of_char c - 48)) 0 s"

definition parse_sequence :: "string \<Rightarrow> nat option" where
  "parse_sequence s =
     (if s \<noteq> [] \<and> list_all decimal_digit s \<and> show_nat (decimal_value s) = s then Some (decimal_value s) else None)"

fun read_digests :: "nat \<Rightarrow> (string \<times> json) list \<Rightarrow> (nat \<times> string) list option" where
  "read_digests applied [] = Some []"
| "read_digests applied ((k, j) # rest) =
     (case (parse_sequence k, optional_sha256 j) of
        (Some n, Some (Some digest)) \<Rightarrow>
          if n < 1 \<or> n > applied then None else map_option (Cons (n, digest)) (read_digests applied rest)
      | _ \<Rightarrow> None)"

fun read_versions :: "(nat \<times> string) list \<Rightarrow> (string \<times> json) list \<Rightarrow> (nat \<times> nat) list option" where
  "read_versions digests [] = Some []"
| "read_versions digests ((k, j) # rest) =
     (case (parse_sequence k, optional_version None j) of
        (Some n, Some (Some version)) \<Rightarrow>
          if map_of digests n = None then None else map_option (Cons (n, version)) (read_versions digests rest)
      | _ \<Rightarrow> None)"

definition digest_ring :: "nat \<Rightarrow> json \<Rightarrow> (nat \<times> string) list option" where
  "digest_ring applied j =
     (case j of
        JObject raw \<Rightarrow>
          (case read_digests applied raw of
             None \<Rightarrow> None
           | Some ds \<Rightarrow>
               if length ds > DIGEST_RING_SIZE then None
               else if (applied = 0 \<and> ds \<noteq> []) \<or> (applied > 0 \<and> map_of ds applied = None) then None
               else Some (sort_key fst ds))
      | _ \<Rightarrow> None)"

definition version_ring :: "(nat \<times> string) list \<Rightarrow> json \<Rightarrow> (nat \<times> nat) list option" where
  "version_ring digests j =
     (case j of
        JNull \<Rightarrow> Some (map (\<lambda>(n, d). (n, LEGACY_DIGEST_VERSION)) digests)
      | JObject raw \<Rightarrow>
          (case read_versions digests raw of
             None \<Rightarrow> None
           | Some vs \<Rightarrow> if set (map fst vs) = set (map fst digests) then Some (sort_key fst vs) else None)
      | _ \<Rightarrow> None)"

text \<open>The cross-field checks, in the code's order.\<close>

definition transaction_ok :: "sidecar \<Rightarrow> bool" where
  "transaction_ok sc =
     (\<not> ((sc_pending_sequence sc \<noteq> None \<or> sc_pending_digest sc \<noteq> None \<or> sc_pending_journal_size sc \<noteq> None)
         \<and> (sc_pending_sequence sc = None \<or> sc_pending_digest sc = None \<or> sc_pending_journal_size sc = None
            \<or> the (sc_pending_sequence sc) < 1))
      \<and> (sc_retry_sequence sc = None) = (sc_retry_digest sc = None)
      \<and> (sc_pending_sequence sc = None) = (sc_pending_digest_version sc = None)
      \<and> (sc_retry_sequence sc = None) = (sc_retry_digest_version sc = None)
      \<and> (case sc_retry_sequence sc of None \<Rightarrow> True | Some n \<Rightarrow> n \<ge> 1)
      \<and> (case sc_pending_sequence sc of None \<Rightarrow> True | Some n \<Rightarrow> n > sc_applied sc)
      \<and> (case sc_retry_sequence sc of None \<Rightarrow> True | Some n \<Rightarrow> n > sc_applied sc)
      \<and> \<not> (sc_pending_sequence sc \<noteq> None \<and> sc_retry_sequence sc \<noteq> None
           \<and> (sc_pending_sequence sc \<noteq> sc_retry_sequence sc \<or> sc_pending_digest sc \<noteq> sc_retry_digest sc
              \<or> sc_pending_digest_version sc \<noteq> sc_retry_digest_version sc)))"

definition lifecycle_ok :: "sidecar \<Rightarrow> bool" where
  "lifecycle_ok sc =
     (\<not> (sc_sealed sc \<and> (\<not> sc_finalized sc \<or> sc_pending_sequence sc \<noteq> None \<or> sc_retry_sequence sc \<noteq> None))
      \<and> \<not> (sc_expired sc \<and> (sc_sealed sc \<or> sc_finalized sc))
      \<and> (if sc_metadata_bound sc then sc_metadata_digest sc \<noteq> None else sc_metadata_digest sc = None)
      \<and> \<not> (sc_finalized sc \<and> (sc_pending_sequence sc \<noteq> None \<or> sc_retry_sequence sc \<noteq> None)))"

definition span_ok :: "sidecar \<Rightarrow> bool" where
  "span_ok sc =
     ((sc_first_observed sc = None) = (sc_last_observed sc = None)
      \<and> (case (sc_first_observed sc, sc_last_observed sc) of (Some a, Some b) \<Rightarrow> a \<le> b | _ \<Rightarrow> True))"

fun nonempty_string :: "json \<Rightarrow> string option" where
  "nonempty_string (JString s) = (if s = [] then None else Some s)"
| "nonempty_string _ = None"

fun sidecar_from_json :: "json \<Rightarrow> sidecar option" where
  "sidecar_from_json (JObject d) =
     Option.bind (required_nat (member d ''applied'')) (\<lambda>applied.
     Option.bind (required_nat (member_or d ''turn_sequence'' (JNumber 0))) (\<lambda>turn_sequence.
     Option.bind (required_bool (member_or d ''lossy'' (JBool False))) (\<lambda>lossy.
     Option.bind (required_bool (member_or d ''finalized'' (JBool False))) (\<lambda>finalized.
     Option.bind (required_bool (member_or d ''sealed'' (JBool False))) (\<lambda>sealed.
     Option.bind (required_bool (member_or d ''expired'' (JBool False))) (\<lambda>expired.
     Option.bind (required_bool (member_or d ''call_metadata_bound'' (JBool False))) (\<lambda>bound.
     Option.bind (optional_sha256 (member d ''call_metadata_digest'')) (\<lambda>metadata.
     Option.bind (optional_sha256 (member d ''correlation_key_id'')) (\<lambda>correlation.
     Option.bind (nonempty_string (member d ''project_id'')) (\<lambda>project.
     Option.bind (nonempty_string (member d ''call_key'')) (\<lambda>key.
     Option.bind (optional_nat (member d ''pending_sequence'')) (\<lambda>pending_sequence.
     Option.bind (optional_nat (member d ''pending_journal_size'')) (\<lambda>pending_size.
     Option.bind (optional_sha256 (member d ''pending_digest'')) (\<lambda>pending_digest.
     Option.bind (optional_nat (member d ''retry_sequence'')) (\<lambda>retry_sequence.
     Option.bind (optional_sha256 (member d ''retry_digest'')) (\<lambda>retry_digest.
     Option.bind (optional_version (legacy_default pending_sequence)
       (member d ''pending_digest_version'')) (\<lambda>pending_version.
     Option.bind (optional_version (legacy_default retry_sequence)
       (member d ''retry_digest_version'')) (\<lambda>retry_version.
     Option.bind (digest_ring applied (member_or d ''digests'' (JObject []))) (\<lambda>digests.
     Option.bind (version_ring digests (member d ''digest_versions'')) (\<lambda>versions.
     Option.bind (optional_time (member d ''first_observed_ms'')) (\<lambda>first_observed.
     Option.bind (optional_time (member d ''last_observed_ms'')) (\<lambda>last_observed.
       let sc = \<lparr>sc_project_id = project, sc_call_key = key, sc_applied = applied, sc_digests = digests,
           sc_turn_sequence = turn_sequence, sc_first_observed = first_observed, sc_last_observed = last_observed,
           sc_lossy = lossy, sc_finalized = finalized, sc_correlation_key_id = correlation, sc_sealed = sealed,
           sc_pending_sequence = pending_sequence, sc_pending_digest = pending_digest,
           sc_pending_journal_size = pending_size, sc_retry_sequence = retry_sequence, sc_retry_digest = retry_digest,
           sc_digest_versions = versions, sc_pending_digest_version = pending_version,
           sc_retry_digest_version = retry_version, sc_expired = expired, sc_metadata_bound = bound,
           sc_metadata_digest = metadata\<rparr>
       in if transaction_ok sc \<and> lifecycle_ok sc \<and> span_ok sc then Some sc else None))))))))))))))))))))))"
| "sidecar_from_json _ = None"

section \<open>Round trip\<close>

definition ring_valid :: "sidecar \<Rightarrow> bool" where
  "ring_valid sc \<longleftrightarrow> sorted (map fst (sc_digests sc)) \<and> distinct (map fst (sc_digests sc))
     \<and> list_all (\<lambda>(n, d). 1 \<le> n \<and> n \<le> sc_applied sc \<and> is_sha256 d) (sc_digests sc)
     \<and> length (sc_digests sc) \<le> DIGEST_RING_SIZE
     \<and> (if sc_applied sc = 0 then sc_digests sc = [] else map_of (sc_digests sc) (sc_applied sc) \<noteq> None)
     \<and> map fst (sc_digest_versions sc) = map fst (sc_digests sc)
     \<and> list_all (\<lambda>(n, v). known_version v) (sc_digest_versions sc)"

definition digests_valid :: "sidecar \<Rightarrow> bool" where
  "digests_valid sc \<longleftrightarrow>
     list_all (\<lambda>d. case d of None \<Rightarrow> True | Some s \<Rightarrow> is_sha256 s)
       [sc_metadata_digest sc, sc_correlation_key_id sc, sc_pending_digest sc, sc_retry_digest sc]
     \<and> list_all (\<lambda>v. case v of None \<Rightarrow> True | Some n \<Rightarrow> known_version n)
       [sc_pending_digest_version sc, sc_retry_digest_version sc]"

definition sidecar_valid :: "sidecar \<Rightarrow> bool" where
  "sidecar_valid sc \<longleftrightarrow> sc_project_id sc \<noteq> [] \<and> sc_call_key sc \<noteq> [] \<and> ring_valid sc \<and> digests_valid sc
     \<and> transaction_ok sc \<and> lifecycle_ok sc \<and> span_ok sc"

lemma known_version_simps [simp]: "known_version v \<longleftrightarrow> v = 1 \<or> v = 2 \<or> v = 3"
  by (simp add: known_version_def digest_versions_defs)

lemma digit_char: "k < 10 \<Longrightarrow> decimal_digit (char_of (48 + k)) \<and> (of_char (char_of (48 + k)) :: nat) = 48 + k"
  by (simp add: decimal_digit_def of_char_of take_bit_nat_eq_self)

lemma show_nat_digits: "show_nat n \<noteq> [] \<and> list_all decimal_digit (show_nat n) \<and> decimal_value (show_nat n) = n"
proof (induction n rule: show_nat.induct)
  case (1 n)
  show ?case
  proof (cases "n < 10")
    case True
    then show ?thesis
      using digit_char [of n] by (subst (1 2 3) show_nat.simps) (simp add: decimal_value_def)
  next
    case False
    then have e: "show_nat n = show_nat (n div 10) @ [char_of (48 + n mod 10)]"
      by (subst show_nat.simps) simp
    have ih: "list_all decimal_digit (show_nat (n div 10))" "decimal_value (show_nat (n div 10)) = n div 10"
      using "1.IH" [OF False] by simp_all
    have d: "n mod 10 < 10" by simp
    have "10 * (n div 10) + n mod 10 = n" by simp
    then show ?thesis
      using ih digit_char [OF d] unfolding e by (simp add: decimal_value_def)
  qed
qed

lemma parse_show_nat [simp]: "parse_sequence (show_nat n) = Some n"
  using show_nat_digits [of n] by (simp add: parse_sequence_def)

lemma read_written_digests:
  "list_all (\<lambda>(n, d). 1 \<le> n \<and> n \<le> applied \<and> is_sha256 d) ds
     \<Longrightarrow> read_digests applied (map (\<lambda>(n, d). (show_nat n, JString d)) ds) = Some ds"
  by (induction ds) auto

lemma digest_ring_written:
  "ring_valid sc \<Longrightarrow>
   digest_ring (sc_applied sc) (JObject (map (\<lambda>(n, d). (show_nat n, JString d)) (sc_digests sc))) = Some (sc_digests sc)"
  by (auto simp: digest_ring_def ring_valid_def read_written_digests sort_key_id_if_sorted split: if_splits dest: map_of_SomeD)

lemma read_written_versions:
  "list_all (\<lambda>(n, v). map_of ds n \<noteq> None \<and> known_version v) vs
     \<Longrightarrow> read_versions ds (map (\<lambda>(n, v). (show_nat n, json_nat v)) vs) = Some vs"
  by (induction vs) (auto simp: json_nat_def)

lemma written_versions:
  assumes "map fst vs = map fst ds" "distinct (map fst ds)"
  shows "map (\<lambda>(n, d :: string). (show_nat n, json_nat (case map_of vs n of None \<Rightarrow> CURRENT_DIGEST_VERSION | Some v \<Rightarrow> v))) ds
    = map (\<lambda>(n, v). (show_nat n, json_nat v)) vs"
  using assms
proof (induction ds arbitrary: vs)
  case (Cons d ds)
  then obtain n v vs' where vs: "vs = (n, v) # vs'" and n: "fst d = n"
    by (cases vs) auto
  have "map_of vs' k = map_of vs k" if "k \<in> set (map fst ds)" for k
  proof -
    have "n \<notin> set (map fst ds)" using Cons.prems(2) n by simp
    then have "k \<noteq> n" using that by metis
    then show ?thesis by (simp add: vs)
  qed
  then have "map (\<lambda>(n, d :: string). (show_nat n, json_nat (case map_of vs n of None \<Rightarrow> CURRENT_DIGEST_VERSION | Some v \<Rightarrow> v))) ds
    = map (\<lambda>(n, d :: string). (show_nat n, json_nat (case map_of vs' n of None \<Rightarrow> CURRENT_DIGEST_VERSION | Some v \<Rightarrow> v))) ds"
    by (intro map_cong) (auto simp: rev_image_eqI)
  also have "\<dots> = map (\<lambda>(n, v). (show_nat n, json_nat v)) vs'"
    using Cons.prems by (intro Cons.IH) (simp_all add: vs)
  finally show ?case
    using n by (cases d) (simp add: vs)
qed simp

lemma version_ring_written:
  assumes "ring_valid sc"
  shows "version_ring (sc_digests sc) (JObject (map (\<lambda>(n, d). (show_nat n,
         json_nat (case map_of (sc_digest_versions sc) n of None \<Rightarrow> CURRENT_DIGEST_VERSION | Some v \<Rightarrow> v))) (sc_digests sc)))
    = Some (sc_digest_versions sc)"
proof -
  have keys: "map fst (sc_digest_versions sc) = map fst (sc_digests sc)"
    and v: "list_all (\<lambda>(n, v). known_version v) (sc_digest_versions sc)"
    and d: "distinct (map fst (sc_digests sc))" and s: "sorted (map fst (sc_digests sc))"
    using assms by (simp_all add: ring_valid_def)
  have "map_of (sc_digests sc) n \<noteq> None" if "(n, w) \<in> set (sc_digest_versions sc)" for n w
  proof -
    have "n \<in> fst ` set (sc_digest_versions sc)" using that by force
    then show ?thesis using keys by (metis list.set_map map_of_eq_None_iff)
  qed
  then have "list_all (\<lambda>(n, v). map_of (sc_digests sc) n \<noteq> None \<and> known_version v) (sc_digest_versions sc)"
    using v by (fastforce simp: list_all_iff)
  from read_written_versions [OF this] show ?thesis
    using keys s unfolding version_ring_def written_versions [OF keys d]
    by (simp add: sort_key_id_if_sorted)
qed

lemma json_option_reads [simp]:
  "optional_nat (json_option json_nat v) = Some v"
  "list_all (\<lambda>d. case d of None \<Rightarrow> True | Some s \<Rightarrow> is_sha256 s) [t] \<Longrightarrow> optional_sha256 (json_option JString t) = Some t"
  "optional_time (json_option JNumber u) = Some u"
  "required_nat (json_nat n) = Some n"
  by (auto simp: json_option_def json_nat_def split: option.splits)

lemma written_version_reads:
  "\<lbrakk>case v of None \<Rightarrow> True | Some n \<Rightarrow> known_version n; (sequence = None) = (v = None)\<rbrakk>
     \<Longrightarrow> optional_version (legacy_default sequence) (written_version sequence v) = Some v"
  by (auto simp: legacy_default_def written_version_def json_option_def json_nat_def split: option.splits)

lemma written_sidecar_reads_back:
  assumes "sidecar_valid sc"
  shows "sidecar_from_json (sidecar_to_json sc) = Some sc"
proof -
  have r: "ring_valid sc" and d: "digests_valid sc" and t: "transaction_ok sc" and l: "lifecycle_ok sc" and s: "span_ok sc"
    and n: "sc_project_id sc \<noteq> []" "sc_call_key sc \<noteq> []"
    using assms by (simp_all add: sidecar_valid_def)
  have sha: "optional_sha256 (json_option JString (sc_metadata_digest sc)) = Some (sc_metadata_digest sc)"
    "optional_sha256 (json_option JString (sc_correlation_key_id sc)) = Some (sc_correlation_key_id sc)"
    "optional_sha256 (json_option JString (sc_pending_digest sc)) = Some (sc_pending_digest sc)"
    "optional_sha256 (json_option JString (sc_retry_digest sc)) = Some (sc_retry_digest sc)"
    using d by (simp_all add: digests_valid_def)
  have v: "optional_version (legacy_default (sc_pending_sequence sc))
      (written_version (sc_pending_sequence sc) (sc_pending_digest_version sc)) = Some (sc_pending_digest_version sc)"
    "optional_version (legacy_default (sc_retry_sequence sc))
      (written_version (sc_retry_sequence sc) (sc_retry_digest_version sc)) = Some (sc_retry_digest_version sc)"
    using d t by (intro written_version_reads; simp add: digests_valid_def transaction_ok_def)+
  have one: "\<lparr>sc_project_id = sc_project_id sc, sc_call_key = sc_call_key sc, sc_applied = sc_applied sc, sc_digests =
      sc_digests sc, sc_turn_sequence = sc_turn_sequence sc, sc_first_observed = sc_first_observed sc,
      sc_last_observed = sc_last_observed sc, sc_lossy = sc_lossy sc, sc_finalized = sc_finalized sc,
      sc_correlation_key_id = sc_correlation_key_id sc, sc_sealed = sc_sealed sc, sc_pending_sequence =
      sc_pending_sequence sc, sc_pending_digest = sc_pending_digest sc, sc_pending_journal_size =
      sc_pending_journal_size sc, sc_retry_sequence = sc_retry_sequence sc, sc_retry_digest = sc_retry_digest
      sc, sc_digest_versions = sc_digest_versions sc, sc_pending_digest_version = sc_pending_digest_version sc,
      sc_retry_digest_version = sc_retry_digest_version sc, sc_expired = sc_expired sc, sc_metadata_bound =
      sc_metadata_bound sc, sc_metadata_digest = sc_metadata_digest sc\<rparr> = sc" by simp
  show ?thesis
    unfolding sidecar_to_json_def sidecar_from_json.simps member_def member_or_def
    using t l s by (simp add: n sha v digest_ring_written [OF r] version_ring_written [OF r] Let_def one)
qed

text \<open>
  C27. Every ledger that satisfies the checks of the reader is read back as it was written: the JSON of the
  call's drain ledger loses nothing, whatever the drains it covers and the transaction it has open.
\<close>

theorem sidecar_reads_back:
  assumes "sidecar_valid sc"
  shows "sidecar_from_json (sidecar_to_json sc) = Some sc"
  by (rule written_sidecar_reads_back [OF assms])

definition sample_sidecar :: sidecar where
  "sample_sidecar = \<lparr>sc_project_id = ''p'', sc_call_key = ''capture-1'', sc_applied = 12,
     sc_digests = [(2, replicate 64 CHR ''a''), (12, replicate 64 CHR ''0'')], sc_turn_sequence = 3,
     sc_first_observed = Some 5, sc_last_observed = Some 9, sc_lossy = True, sc_finalized = False,
     sc_correlation_key_id = None, sc_sealed = False, sc_pending_sequence = Some 13,
     sc_pending_digest = Some (replicate 64 CHR ''b''), sc_pending_journal_size = Some 400,
     sc_retry_sequence = None, sc_retry_digest = None, sc_digest_versions = [(2, 1), (12, 3)],
     sc_pending_digest_version = Some 3, sc_retry_digest_version = None, sc_expired = False,
     sc_metadata_bound = True, sc_metadata_digest = Some (replicate 64 CHR ''c'')\<rparr>"

theorem sidecar_reads_back_witness: "sidecar_from_json (sidecar_to_json sample_sidecar) = Some sample_sidecar"
  by (rule sidecar_reads_back)
     (simp add: sidecar_valid_def sample_sidecar_def ring_valid_def digests_valid_def is_sha256_def transaction_ok_def
        lifecycle_ok_def span_ok_def DIGEST_RING_SIZE_def list_all_iff)

end
