(* ===== verification/Spec2Isabelle.thy ===== *)
theory Spec2Isabelle
  imports LiveRegistry Writer AsyncExporter SyncExporter DurableExporter RecordingFetches RecorderLimits
    StructuralSize ExportGate CallCost ExporterRegistry
    CredentialCache PeaksFile Resampling SpeechRuns CallSignals
    ClockAlign CycleSearch SpanRouting CaptureSidecar
begin

text \<open>
  Earshot records what a voice agent's call did (operations, events, quality samples, media
  references) as an incident, and gets it from the process that saw it to a server that keeps
  it. This development models the parts of the Python SDK
  (\<^verbatim>\<open>src/packages/sdk-python/src/earshot/\<close>) where losing, duplicating or rewriting that evidence
  would go unnoticed. File names below are relative to that directory.

  \<^bold>\<open>How the parts interact.\<close> A recorder (\<open>Recorder\<close>) journals every admitted fact: \<^verbatim>\<open>CheckpointWriter\<close>
  appends framed entries to an append-only file (\<open>Writer\<close>, frames of \<open>Framing\<close>, entries and the
  reader of \<open>Journal\<close>). After a crash the reader replays the file. While the call runs,
  \<^verbatim>\<open>CheckpointUploader\<close> reads the growing file and posts batches of whole frames (\<open>Uploader\<close>); the
  server's \<^verbatim>\<open>LiveRegistry\<close> checks each batch against the session's ledger of frame checksums and
  records it (\<open>LiveRegistry\<close>), and every recorded frame becomes an event of the session's live
  tail, which followers resume by slot number (\<open>LiveTail\<close>). Once the call is over the finished
  incident (closed by the recorder, or assembled from its journal) is delivered by one of three
  exporters (\<open>AsyncExporter\<close>, \<open>SyncExporter\<close>,
  \<open>DurableExporter\<close> with the records of \<open>SpoolRecord\<close>, all on the answers of \<open>Transport\<close>). The
  server's background work is leased from job tables in its catalog (\<open>LeasedJobs\<close>); the fetches of
  provider recordings are such jobs (\<open>RecordingFetches\<close>).

  \<^bold>\<open>The theories.\<close>
  \<^item> \<open>Prelude\<close>: bytes, big-endian fields, JSON values, insertion-ordered dictionaries, and the
    collections of hints the components share.
  \<^item> \<open>Framing\<close> (\<^verbatim>\<open>checkpoint/framing.py\<close>): \<open>encode_frame\<close> and the total scanner \<open>scan_frames\<close>, whose
    loop is \<open>scan_loop\<close> by a measure on the bytes left. Round trip, maximality and truncation.
  \<^item> \<open>Journal\<close> (\<^verbatim>\<open>checkpoint/records.py\<close>, \<^verbatim>\<open>checkpoint/reader.py\<close>): the entry types, the
    authenticated data of a frame, \<open>read_journal\<close>. The replay is well formed whatever the bytes; a
    truncated journal replays exactly the entries before the cut.
  \<^item> \<open>Writer\<close> (\<^verbatim>\<open>checkpoint/writer.py\<close>): one definition per method, with the result of each system
    call (write, fsync, unlink) an input, so that a run covers every failure. The main theorem is the end to
    end guarantee writer then reader: every acknowledged entry is replayed, in order.
  \<^item> \<open>Uploader\<close> (\<^verbatim>\<open>checkpoint/uploader.py\<close>, \<^verbatim>\<open>checkpoint/limits.py\<close>): \<open>plan_batch\<close>, \<open>flush\<close>, the
    durable offset, the replay after the server forgot the session, the undeliverable frame.
  \<^item> \<open>LiveTail\<close> and \<open>LiveRegistry\<close> (\<^verbatim>\<open>live.py\<close>, and the checkpoint endpoint of \<^verbatim>\<open>api.py\<close>): the
    session's replay window and its subscriptions under every interleaving of producers and
    consumers; the registry's quotas, its all-or-nothing \<open>accept_frames\<close>, sealing, expiry, and the
    composition with the uploader over lost requests and answers.
  \<^item> \<open>Transport\<close>, \<open>AsyncExporter\<close>, \<open>SyncExporter\<close>, \<open>SpoolRecord\<close>, \<open>DurableExporter\<close>
    (\<^verbatim>\<open>exporter.py\<close>): the classification of answers and the backoff; the bounded queue and its
    worker thread as a step function of phases; the blocking retry loop with its deadline; the
    spool's files with crashes between any two of its system calls.
  \<^item> \<open>Recorder\<close> (\<^verbatim>\<open>recorder.py\<close>): the recorder's limits and counters, the critical section of each
    admission path, the diff of the privacy ledger it journals, closing, and the undo of a batch. What
    sanitisation made of a fact (its omissions, classes and size) is an argument of its admission.
  \<^item> \<open>StructuralSize\<close> (\<^verbatim>\<open>recorder.py\<close>): the bounded walk that sizes captured values, over a heap of
    containers that may be cyclic, and the prefix of the attributes it admits.
  \<^item> \<open>ServerWriter\<close> (\<^verbatim>\<open>checkpoint/server_writer.py\<close>): the in-memory journal of the server, its drains and
    their rollback.
  \<^item> \<open>Assembler\<close> (\<^verbatim>\<open>checkpoint/assembler.py\<close>): a journal replayed into the snapshot an incident is made
    from; what a recovered incident declares.
  \<^item> \<open>RecorderReplay\<close>: the two ends together. A step relation of the recorder, the invariant \<open>in_step\<close>
    (replaying the calls made so far gives the recorder's facts, ledger and counters), and the theorem
    that a finalized journal assembles into the recorder's own snapshot.
  \<^item> \<open>RecorderLimits\<close>: each step is one of five effects on what is captured; the bounds and the rollback.
  \<^item> \<open>PrivacyLabels\<close>, \<open>Privacy\<close>, \<open>Sanitising\<close> (\<^verbatim>\<open>privacy.py\<close>): text as code points, the label
    patterns and allow-lists with one locale for the seven label sanitisers; the classification of
    keys, allowed values, locators; the attribute sanitiser, which decides the typing judgement
    \<open>governed\<close> built on \<open>strict_json\<close>, the two export gates and the hosted check.
  \<^item> \<open>Governance\<close> (\<^verbatim>\<open>checkpoint/governance.py\<close>) and \<open>ExportGate\<close> (\<^verbatim>\<open>_ExportGate\<close>,
    \<^verbatim>\<open>_governed_entry_event\<close> and \<^verbatim>\<open>_entry_event\<close> of \<^verbatim>\<open>live.py\<close>): what a journal entry must be
    before it is shown or replayed, a validated record being a tree of contract models; which entries
    of a live stream are shown to a destination and which are withheld.
  \<^item> \<open>LeasedJobs\<close> (\<^verbatim>\<open>leased_jobs.py\<close>): a job table, its queue order, fencing by lease token.
  \<^item> \<open>RecordingFetches\<close> (\<^verbatim>\<open>FetchStore\<close> of \<^verbatim>\<open>storage_fetches.py\<close> with the writes of
    \<^verbatim>\<open>storage_deliveries.py\<close> and \<^verbatim>\<open>storage_recordings.py\<close> to its rows, \<^verbatim>\<open>connectors/config.py\<close>): the
    first client of the leased jobs; its invariant rests on theirs.
  \<^item> \<open>CredentialCache\<close> (\<^verbatim>\<open>credential_cache.py\<close>) and \<open>ExporterRegistry\<close>
    (\<^verbatim>\<open>exporters/registry.py\<close>): the memory of proven credentials; the named projections and the gate
    in front of them.
  \<^item> \<open>CallCost\<close> (\<^verbatim>\<open>call_cost.py\<close>): a call's usage entries, grouped from what its requests
    reported, and their prices. Sums are conserved per price; costs are exact up to half a unit.

  \<^bold>\<open>How state corresponds.\<close> An object is a record with a field per attribute (one prefix per
  component); a method is a function from its arguments and the state to its result and the new state;
  a lock held over a method makes it one step. Threads are steps of an \<open>inductive\<close> relation that
  may be taken in any order, and a property of a run is a statement about every state reachable in it.
  Exceptions are the left side of a sum or \<open>None\<close>. Python integers are \<open>int\<close>, or \<open>nat\<close> where they
  count; CRC-32 is computed on 32-bit words. Times are exact rationals or integer nanoseconds:
  the rounding of floats is not modelled. SQL statements are functions on the list of rows, with the
  engine's visiting order a parameter.

  \<^bold>\<open>Parameters.\<close> The JSON codec, AES-GCM, SHA-256, the random source, the clock and the HTTP client
  are arguments; what is assumed of them is stated as named hypotheses (\<open>codec_laws\<close> and the like)
  that each witness discharges for a concrete instance. No bound is put on the length of a run,
  and no fuel is used: loops are structural or end by a measure, and the drain theorems give the
  number of worker steps that is enough.

  \<^bold>\<open>Not modelled.\<close> Directory fsyncs, permissions, thread start and file discovery (I/O); local
  journal polling and browser captures of \<^verbatim>\<open>live.py\<close>; the download, blob store and provider
  requests of the recording fetches; SQL storage beyond the job tables; routing and
  authentication of \<^verbatim>\<open>api.py\<close>; the bindings to host frameworks; pydantic's declarative field
  checks. What sanitisation made of a fact enters the recorder as an argument and the assembler
  as a parameter; the profile built from a snapshot is not modelled. Still planned: the registry of
  deliveries, semantic validation and the call
  timeline.
\<close>

end
